(* ===== verification/Prelude.thy ===== *)
theory Prelude
  imports "HOL-Library.Word" "HOL-Library.AList" "HOL-Library.List_Lexorder"
    "HOL-Library.Char_ord" "HOL-Library.Code_Target_Nat"
begin

text \<open>
  Shared vocabulary of the development: machine integers and byte strings, little-endian
  integers, hexadecimal and decimal text, checked 64-bit arithmetic and association-list
  maps, with the generic lemmas the components rely on.

  A C++ \<open>std::vector<unsigned char>\<close> is a list of 8-bit words, a \<open>std::string\<close> is an
  Isabelle \<open>string\<close>, a \<open>uint64_t\<close> is a 64-bit word. Sizes (\<open>size_t\<close>) are natural numbers:
  they count bytes of buffers that exist in memory, and every subtraction on them in the
  modelled code is guarded by the bound that keeps it from going below zero.
\<close>

unbundle bit_operations_syntax

type_synonym byte = "8 word"
type_synonym bytes = "8 word list"
type_synonym u16 = "16 word"
type_synonym u32 = "32 word"
type_synonym u64 = "64 word"

named_theorems codec_simps "facts that evaluate encoders and decoders"
named_theorems checked_arith "facts about guarded machine arithmetic"
named_theorems state_wf "well-formedness of association-list states"

subsection \<open>Checked 64-bit arithmetic\<close>

text \<open>
  The code guards every addition by \<open>x > UINT64_MAX - y\<close> and every product by
  \<open>x > UINT64_MAX / y\<close>. \<open>UINT64_MAX\<close> is the all-ones word \<open>- 1\<close>.
\<close>

abbreviation u64_max :: u64 where
  "u64_max \<equiv> - 1"

lemma unat_all_ones: "unat (- 1 :: 'a::len word) = 2 ^ LENGTH('a) - 1"
  by (metis mask_eq_exp_minus_1 minus_1_eq_mask take_bit_of_mask unsigned_minus_1_eq_mask)

lemma unat_minus_one_sub: "unat (- 1 - y :: 'a::len word) = 2 ^ LENGTH('a) - 1 - unat y"
  by (simp add: unat_sub unat_all_ones)

lemma checked_add_iff [checked_arith]:
  "(x :: 'a::len word) \<le> - 1 - y \<longleftrightarrow> unat x + unat y < 2 ^ LENGTH('a)"
proof -
  have "unat y < 2 ^ LENGTH('a)" by (rule unsigned_less)
  then show ?thesis
    unfolding word_le_nat_alt unat_minus_one_sub by linarith
qed

lemma unat_checked_add [checked_arith]:
  "(x :: 'a::len word) \<le> - 1 - y \<Longrightarrow> unat (x + y) = unat x + unat y"
  by (simp add: checked_add_iff unat_word_ariths)

lemma checked_mult_iff [checked_arith]:
  assumes "0 < (y :: 'a::len word)"
  shows "x \<le> - 1 div y \<longleftrightarrow> unat x * unat y < 2 ^ LENGTH('a)"
proof -
  have pos: "0 < unat y" using assms by (simp add: unat_gt_0)
  have "x \<le> - 1 div y \<longleftrightarrow> unat x \<le> (2 ^ LENGTH('a) - 1) div unat y"
    by (simp add: word_le_nat_alt unat_div_distrib unat_all_ones)
  also have "\<dots> \<longleftrightarrow> unat x * unat y \<le> 2 ^ LENGTH('a) - 1"
    using pos by (simp add: less_eq_div_iff_mult_less_eq)
  also have "\<dots> \<longleftrightarrow> unat x * unat y < 2 ^ LENGTH('a)"
  proof -
    have "(0::nat) < 2 ^ LENGTH('a)" by simp
    then show ?thesis by linarith
  qed
  finally show ?thesis .
qed

lemma unat_checked_mult [checked_arith]:
  "0 < (y :: 'a::len word) \<Longrightarrow> x \<le> - 1 div y \<Longrightarrow> unat (x * y) = unat x * unat y"
proof -
  assume "0 < y" and "x \<le> - 1 div y"
  then have "unat x * unat y < 2 ^ LENGTH('a)" using checked_mult_iff [of y x] by blast
  then show ?thesis by (simp add: unat_word_ariths(2))
qed

lemma scaled_guard:
  fixes w d k :: u64
  assumes "0 < k"
  shows "w \<le> (u64_max - d) div k \<longleftrightarrow> unat w * unat k + unat d < 2 ^ 64"
    and "w \<le> (u64_max - d) div k \<Longrightarrow> unat (w * k + d) = unat w * unat k + unat d"
proof -
  have k: "0 < unat k" using assms by (simp add: unat_gt_0)
  have d: "unat d < 2 ^ 64" using unsigned_less [where 'a = nat, of d] by simp
  have "w \<le> (u64_max - d) div k \<longleftrightarrow> unat w \<le> (2 ^ 64 - 1 - unat d) div unat k"
    unfolding word_le_nat_alt unat_div_distrib unat_minus_one_sub by simp
  also have "\<dots> \<longleftrightarrow> unat w * unat k + unat d < 2 ^ 64"
    using k d by (simp add: less_eq_div_iff_mult_less_eq) linarith
  finally show iff: "w \<le> (u64_max - d) div k \<longleftrightarrow> unat w * unat k + unat d < 2 ^ 64" .
  show "unat (w * k + d) = unat w * unat k + unat d" if "w \<le> (u64_max - d) div k"
  proof -
    have lt: "unat w * unat k + unat d < 2 ^ 64" using iff that by blast
    then have "unat (w * k) = unat w * unat k"
      unfolding unat_word_ariths(2) by simp
    then show ?thesis unfolding unat_word_ariths(1) using lt by simp
  qed
qed

subsection \<open>Characters and bytes\<close>

definition byte_of_char :: "char \<Rightarrow> byte" where
  "byte_of_char c = of_char c"

definition char_of_byte :: "byte \<Rightarrow> char" where
  "char_of_byte b = char_of (unat b)"

abbreviation bytes_of_string :: "string \<Rightarrow> bytes" where
  "bytes_of_string \<equiv> map byte_of_char"

abbreviation string_of_bytes :: "bytes \<Rightarrow> string" where
  "string_of_bytes \<equiv> map char_of_byte"

lemma unat_byte_of_char [simp]: "unat (byte_of_char c) = of_char c"
proof -
  have "byte_of_char c = word_of_nat (of_char c)"
    by (simp add: byte_of_char_def of_nat_of_char)
  moreover have "(of_char c :: nat) < 256" by simp
  ultimately show ?thesis by (simp add: unat_of_nat)
qed

lemma char_of_byte_of_char [simp]: "char_of_byte (byte_of_char c) = c"
  by (simp add: char_of_byte_def)

lemma byte_of_char_of_byte [simp]: "byte_of_char (char_of_byte b) = b"
proof -
  have "unat b < 256" using unsigned_less [of b] by simp
  then have "unat (byte_of_char (char_of_byte b)) = unat b"
    by (simp add: char_of_byte_def)
  then show ?thesis by (rule unsigned_word_eqI)
qed

lemma char_byte_comp [simp]: "char_of_byte \<circ> byte_of_char = id" "byte_of_char \<circ> char_of_byte = id"
  by (simp_all add: fun_eq_iff)

lemma string_of_bytes_of_string [simp]: "string_of_bytes (bytes_of_string s) = s"
  by simp

lemma bytes_of_string_of_bytes [simp]: "bytes_of_string (string_of_bytes b) = b"
  by simp

lemma bytes_of_string_inject [simp]: "bytes_of_string s = bytes_of_string t \<longleftrightarrow> s = t"
  by (metis string_of_bytes_of_string)

subsection \<open>Little-endian integers\<close>

text \<open>
  \<open>le_bytes n w\<close> is the loop that pushes \<open>(w >> 8 i) & 0xff\<close> for \<open>i = 0 .. n - 1\<close>;
  \<open>le_val bs\<close> is the loop that ORs \<open>bs[i] << 8 i\<close>.
\<close>

primrec le_bytes :: "nat \<Rightarrow> 'a::len word \<Rightarrow> bytes" where
  "le_bytes 0 w = []"
| "le_bytes (Suc n) w = ucast w # le_bytes n (drop_bit 8 w)"

primrec le_val :: "bytes \<Rightarrow> 'a::len word" where
  "le_val [] = 0"
| "le_val (b # bs) = ucast b OR push_bit 8 (le_val bs)"

lemma length_le_bytes [simp]: "length (le_bytes n w) = n"
  by (induction n arbitrary: w) auto

lemma nth_le_bytes: "k < n \<Longrightarrow> le_bytes n w ! k = ucast (drop_bit (8 * k) w)"
proof (induction n arbitrary: w k)
  case (Suc n)
  then show ?case
    by (cases k) (simp_all add: drop_bit_drop_bit add.commute)
qed simp

lemma bit_le_val:
  "bit (le_val bs :: 'a::len word) i \<longleftrightarrow>
     i < LENGTH('a) \<and> i div 8 < length bs \<and> bit (bs ! (i div 8)) (i mod 8)"
proof (induction bs arbitrary: i)
  case (Cons b bs)
  have b8: "\<not> bit b j" if "8 \<le> j" for j
    using that bit_imp_le_length [of b j] by auto
  show ?case
  proof (cases "i < 8")
    case True
    then show ?thesis by (auto simp: bit_or_iff bit_push_bit_iff bit_ucast_iff)
  next
    case False
    then obtain k where k: "i = k + 8" by (metis le_add_diff_inverse2 not_less)
    have "bit (le_val (b # bs) :: 'a word) i \<longleftrightarrow>
        i < LENGTH('a) \<and> bit (le_val bs :: 'a word) k"
      using b8 [of i] k by (auto simp: bit_or_iff bit_push_bit_iff bit_ucast_iff)
    moreover have "i div 8 = Suc (k div 8)" using k by simp
    moreover from this have "(b # bs) ! (i div 8) = bs ! (k div 8)" "i mod 8 = k mod 8"
      "i div 8 < length (b # bs) \<longleftrightarrow> k div 8 < length bs" "k < LENGTH('a) \<or> \<not> i < LENGTH('a)"
      using k by auto
    ultimately show ?thesis using Cons.IH [of k] by metis
  qed
qed simp

lemma le_val_le_bytes [codec_simps]:
  assumes "LENGTH('a::len) \<le> 8 * n"
  shows "le_val (le_bytes n (w :: 'a word)) = w"
proof (rule bit_word_eqI)
  fix i assume i: "i < LENGTH('a)"
  then have "i div 8 < n" using assms by (simp add: div_less_iff_less_mult)
  then show "bit (le_val (le_bytes n w) :: 'a word) i = bit w i"
    using i by (auto simp: bit_le_val nth_le_bytes bit_ucast_iff bit_drop_bit_eq)
qed

lemma le_bytes_le_val [codec_simps]:
  assumes "8 * n \<le> LENGTH('a::len)" and "length bs = n"
  shows "le_bytes n (le_val bs :: 'a word) = bs"
proof (rule nth_equalityI)
  show "length (le_bytes n (le_val bs :: 'a word)) = length bs"
    using assms by simp
next
  fix k assume "k < length (le_bytes n (le_val bs :: 'a word))"
  then have k: "k < n" by simp
  show "le_bytes n (le_val bs :: 'a word) ! k = bs ! k"
  proof (rule bit_word_eqI)
    fix j assume j: "j < LENGTH(8)"
    then have "(8 * k + j) div 8 = k" "(8 * k + j) mod 8 = j" "8 * k + j < LENGTH('a)"
      using k assms by auto
    then show "bit (le_bytes n (le_val bs :: 'a word) ! k) j = bit (bs ! k) j"
      using k j assms
      by (simp add: nth_le_bytes bit_ucast_iff bit_drop_bit_eq bit_le_val)
  qed
qed

lemma ucast_of_unat [simp]:
  "LENGTH('a) \<le> LENGTH('b) \<Longrightarrow> ucast (word_of_nat (unat (w :: 'a::len word)) :: 'b::len word) = w"
proof -
  assume le: "LENGTH('a) \<le> LENGTH('b)"
  have "ucast (ucast w :: 'b word) = w"
    by (rule bit_word_eqI) (use le in \<open>auto simp: bit_ucast_iff\<close>)
  then show ?thesis by simp
qed

lemma unat_word_of_nat_less [codec_simps]:
  "n < 2 ^ LENGTH('a) \<Longrightarrow> unat (word_of_nat n :: 'a::len word) = n"
  by (subst unat_of_nat) (simp add: take_bit_nat_eq_self)

text \<open>The unsigned value of a little-endian byte string as a natural number.\<close>

primrec le_nat :: "bytes \<Rightarrow> nat" where
  "le_nat [] = 0"
| "le_nat (b # bs) = unat b + 256 * le_nat bs"

lemma le_nat_less: "le_nat bs < 256 ^ length bs"
proof (induction bs)
  case (Cons b bs)
  have "unat b < 256" using unsigned_less [where 'a = nat, of b] by simp
  then show ?case using Cons by simp
qed simp

lemma unat_le_val:
  assumes "8 * length bs \<le> LENGTH('a::len)"
  shows "unat (le_val bs :: 'a word) = le_nat bs"
  using assms
proof (induction bs)
  case (Cons b bs)
  let ?w = "le_val bs :: 'a word"
  have w: "unat ?w = le_nat bs" using Cons by simp
  have len: "LENGTH('a) = 8 + (LENGTH('a) - 8)" "8 * length bs \<le> LENGTH('a) - 8"
    using Cons.prems by auto
  have b: "unat b < 256" using unsigned_less [where 'a = nat, of b] by simp
  have p: "(2::nat) ^ LENGTH('a) = 256 * 2 ^ (LENGTH('a) - 8)"
    by (subst len(1)) (simp only: power_add, simp)
  have lt: "le_nat bs < 2 ^ (LENGTH('a) - 8)"
  proof -
    have "le_nat bs < 2 ^ (8 * length bs)"
      using le_nat_less [of bs] by (simp add: power_mult)
    also have "\<dots> \<le> 2 ^ (LENGTH('a) - 8)" using len by (intro power_increasing) simp_all
    finally show ?thesis .
  qed
  have push: "unat (push_bit 8 ?w) = 256 * le_nat bs"
    unfolding unsigned_push_bit_eq w
    using lt p by (simp add: push_bit_eq_mult take_bit_nat_eq_self mult.commute)
  have cast: "unat (ucast b :: 'a word) = unat b"
  proof -
    have "(256::nat) \<le> 2 ^ LENGTH('a)" unfolding p by simp
    then show ?thesis using b by (simp add: unsigned_ucast_eq take_bit_nat_eq_self)
  qed
  have "ucast b AND push_bit 8 ?w = 0"
    by (rule bit_word_eqI)
      (auto simp: bit_and_iff bit_push_bit_iff bit_ucast_iff dest: bit_imp_le_length)
  then have "unat (le_val (b # bs) :: 'a word) = unat (ucast b + push_bit 8 ?w)"
    by (simp add: disjunctive_add_eq_or)
  also have "\<dots> = unat b + 256 * le_nat bs"
  proof -
    have "unat b + 256 * le_nat bs < 2 ^ LENGTH('a)" using lt b p by linarith
    then show ?thesis by (simp add: unat_word_ariths(1) push cast)
  qed
  finally show ?case by simp
qed simp

lemma le_bytes_inject:
  assumes "LENGTH('a::len) \<le> 8 * n" and "le_bytes n (v :: 'a word) = le_bytes n w"
  shows "v = w"
  using assms by (metis le_val_le_bytes)

subsection \<open>Hexadecimal text\<close>

text \<open>
  \<open>nibble\<close> is the digit classifier that every hex reader of the code repeats
  (\<open>HexNibble\<close>, the lambdas of \<open>DecodeScriptHexStrict\<close> and \<open>unhex\<close>), with \<open>None\<close> for
  its \<open>-1\<close>; \<open>hex_encode\<close> is the lower-case writer.
\<close>

definition is_digit :: "char \<Rightarrow> bool" where
  "is_digit c \<longleftrightarrow> CHR ''0'' \<le> c \<and> c \<le> CHR ''9''"

definition is_lower_hex :: "char \<Rightarrow> bool" where
  "is_lower_hex c \<longleftrightarrow> is_digit c \<or> (CHR ''a'' \<le> c \<and> c \<le> CHR ''f'')"

definition digit_value :: "char \<Rightarrow> nat" where
  "digit_value c = of_char c - of_char (CHR ''0'')"

definition nibble :: "char \<Rightarrow> nat option" where
  "nibble c =
     (if is_digit c then Some (digit_value c)
      else if CHR ''a'' \<le> c \<and> c \<le> CHR ''f'' then Some (of_char c - of_char (CHR ''a'') + 10)
      else if CHR ''A'' \<le> c \<and> c \<le> CHR ''F'' then Some (of_char c - of_char (CHR ''A'') + 10)
      else None)"

definition hex_char :: "nat \<Rightarrow> char" where
  "hex_char n = ''0123456789abcdef'' ! n"

definition nibbles_byte :: "nat \<Rightarrow> nat \<Rightarrow> byte" where
  "nibbles_byte h l = word_of_nat (h * 16 + l)"

primrec hex_encode :: "bytes \<Rightarrow> string" where
  "hex_encode [] = []"
| "hex_encode (b # bs) =
     hex_char (unat b div 16) # hex_char (unat b mod 16) # hex_encode bs"

fun hex_decode :: "string \<Rightarrow> bytes option" where
  "hex_decode [] = Some []"
| "hex_decode [c] = None"
| "hex_decode (a # z # s) =
     (case (nibble a, nibble z) of
        (Some h, Some l) \<Rightarrow>
          (case hex_decode s of
             Some b \<Rightarrow> Some (nibbles_byte h l # b)
           | None \<Rightarrow> None)
      | _ \<Rightarrow> None)"

definition hex_lower :: "string \<Rightarrow> bool" where
  "hex_lower s \<longleftrightarrow> list_all is_lower_hex s"

lemma all_nibbles:
  "\<forall>n\<in>set [0..<16]. nibble (hex_char n) = Some n \<and> is_lower_hex (hex_char n)"
  by code_simp

lemma nibble_hex_char [simp]: "n < 16 \<Longrightarrow> nibble (hex_char n) = Some n"
  and is_lower_hex_hex_char [simp]: "n < 16 \<Longrightarrow> is_lower_hex (hex_char n)"
  using all_nibbles by auto

lemma all_hex_chars:
  "\<forall>n\<in>set [0..<16]. hex_char n = char_of (if n < 10 then 48 + n else 87 + n)"
  by code_simp

lemma hex_char_eq: "n < 16 \<Longrightarrow> hex_char n = char_of (if n < 10 then 48 + n else 87 + n)"
  using all_hex_chars by auto

lemma is_digit_iff: "is_digit c \<longleftrightarrow> (48::nat) \<le> of_char c \<and> of_char c \<le> (57::nat)"
  by (simp add: is_digit_def less_eq_char_def)

lemma nibble_Some:
  assumes "nibble c = Some v"
  shows "v < 16" and "is_lower_hex c \<Longrightarrow> hex_char v = c"
proof -
  show v: "v < 16"
    using assms
    by (auto simp: nibble_def is_digit_iff digit_value_def less_eq_char_def split: if_splits)
  show "hex_char v = c" if "is_lower_hex c"
  proof -
    have "(if v < 10 then 48 + v else 87 + v) = (of_char c :: nat)"
      using assms that
      by (auto simp: nibble_def is_lower_hex_def is_digit_iff digit_value_def less_eq_char_def
          split: if_splits)
    then show ?thesis by (simp only: hex_char_eq [OF v] char_of_char)
  qed
qed

lemma unat_byte_less [simp]: "unat (b :: byte) < 256"
  using unsigned_less [where 'a = nat, of b] by simp

lemma unat_div16 [simp]: "unat (b :: byte) div 16 < 16"
  using unat_byte_less [of b] by linarith

lemma unat_nibbles_byte:
  "h < 16 \<Longrightarrow> l < 16 \<Longrightarrow> unat (nibbles_byte h l) = h * 16 + l"
  unfolding nibbles_byte_def by (subst unat_of_nat) simp

lemma nibbles_byte_of_byte [simp]: "nibbles_byte (unat b div 16) (unat b mod 16) = b"
  by (simp add: nibbles_byte_def flip: of_nat_add of_nat_mult del: of_nat_add of_nat_mult)

lemma hex_decode_encode [codec_simps, simp]: "hex_decode (hex_encode b) = Some b"
  by (induction b) simp_all

lemma length_hex_encode [simp]: "length (hex_encode b) = 2 * length b"
  by (induction b) auto

lemma hex_lower_encode [simp]: "hex_lower (hex_encode b)"
  by (induction b) (simp_all add: hex_lower_def)

lemma hex_decode_length: "hex_decode s = Some b \<Longrightarrow> length s = 2 * length b"
  by (induction s arbitrary: b rule: hex_decode.induct) (auto split: option.splits)

lemma hex_encode_decode [codec_simps]:
  "hex_decode s = Some b \<Longrightarrow> hex_lower s \<Longrightarrow> hex_encode b = s"
proof (induction s arbitrary: b rule: hex_decode.induct)
  case (3 a z s)
  then obtain h l b' where hl: "nibble a = Some h" "nibble z = Some l" "hex_decode s = Some b'"
    and b: "b = nibbles_byte h l # b'"
    by (auto split: option.splits)
  have "h < 16" "l < 16" "hex_char h = a" "hex_char l = z" "hex_encode b' = s"
    using nibble_Some hl 3 by (auto simp: hex_lower_def)
  then show ?case by (simp add: b unat_nibbles_byte)
qed (auto simp: hex_lower_def)

lemma hex_encode_inject [simp]: "hex_encode a = hex_encode b \<longleftrightarrow> a = b"
  by (metis hex_decode_encode option.inject)

lemma hex_encode_append: "hex_encode (a @ b) = hex_encode a @ hex_encode b"
  by (induction a) auto

lemma hex_decode_append:
  "hex_decode s = Some a \<Longrightarrow> hex_decode (s @ t) = map_option ((@) a) (hex_decode t)"
proof (induction s arbitrary: a rule: hex_decode.induct)
  case 1
  then show ?case by (cases "hex_decode t") auto
next
  case (3 x z s)
  then show ?case by (auto split: option.splits)
qed auto

lemma hex_decode_all_nibbles:
  "even (length s) \<Longrightarrow> (\<exists>b. hex_decode s = Some b) \<longleftrightarrow> list_all (\<lambda>c. nibble c \<noteq> None) s"
  by (induction s rule: hex_decode.induct) (auto split: option.splits)

lemma is_lower_hex_nibble: "is_lower_hex c \<Longrightarrow> nibble c \<noteq> None"
  by (auto simp: nibble_def is_lower_hex_def)

subsection \<open>Decimal text\<close>

text \<open>\<open>dec_string\<close> is \<open>std::to_string\<close> on an unsigned integer.\<close>

fun dec_string :: "nat \<Rightarrow> string" where
  "dec_string n =
     (if n < 10 then [char_of (48 + n)] else dec_string (n div 10) @ [char_of (48 + n mod 10)])"

declare dec_string.simps [simp del]

definition dec_value :: "string \<Rightarrow> nat" where
  "dec_value s = foldl (\<lambda>v c. v * 10 + digit_value c) 0 s"

lemma all_digit_chars:
  "\<forall>n\<in>set [0..<10]. is_digit (char_of (48 + n)) \<and> digit_value (char_of (48 + n)) = n"
  by code_simp

lemma digit_char [simp]:
  assumes "n < 10"
  shows "is_digit (char_of (48 + n :: nat))" and "digit_value (char_of (48 + n :: nat)) = n"
  using all_digit_chars assms by auto

lemma digit_value_less: "is_digit c \<Longrightarrow> digit_value c < 10"
  by (simp add: is_digit_iff digit_value_def) linarith

lemma char_of_digit_value: "is_digit c \<Longrightarrow> char_of (48 + digit_value c :: nat) = c"
  by (simp add: is_digit_iff digit_value_def)

lemma dec_string_digits: "list_all is_digit (dec_string n)"
proof (induction n rule: dec_string.induct)
  case (1 n)
  then show ?case by (subst dec_string.simps) auto
qed

lemma dec_string_nonempty [simp]: "dec_string n \<noteq> []"
  by (subst dec_string.simps) simp

lemma dec_value_append: "dec_value (s @ [c]) = dec_value s * 10 + digit_value c"
  by (simp add: dec_value_def)

lemma dec_value_dec_string [codec_simps, simp]: "dec_value (dec_string n) = n"
proof (induction n rule: dec_string.induct)
  case (1 n)
  show ?case
  proof (cases "n < 10")
    case True
    then show ?thesis by (subst dec_string.simps) (simp add: dec_value_def)
  next
    case False
    with 1 show ?thesis by (subst dec_string.simps) (simp add: dec_value_append)
  qed
qed

lemma dec_string_inject [simp]: "dec_string m = dec_string n \<longleftrightarrow> m = n"
  by (metis dec_value_dec_string)

lemma dec_string_no_leading_zero:
  "0 < n \<Longrightarrow> hd (dec_string n) \<noteq> CHR ''0''"
proof (induction n rule: dec_string.induct)
  case (1 n)
  show ?case
  proof (cases "n < 10")
    case True
    then have "digit_value (char_of (48 + n :: nat)) \<noteq> digit_value (CHR ''0'')"
      using 1 by (simp add: digit_value_def)
    then have "char_of (48 + n :: nat) \<noteq> CHR ''0''" by metis
    with True show ?thesis by (subst dec_string.simps) simp
  next
    case False
    then have "0 < n div 10" by simp
    with False 1 show ?thesis by (subst dec_string.simps) (simp add: hd_append)
  qed
qed

lemma dec_string_dec_value [codec_simps]:
  "s \<noteq> [] \<Longrightarrow> list_all is_digit s \<Longrightarrow> (1 < length s \<longrightarrow> hd s \<noteq> CHR ''0'') \<Longrightarrow>
     dec_string (dec_value s) = s \<and> (1 < length s \<longrightarrow> 10 \<le> dec_value s)"
proof (induction s rule: rev_induct)
  case (snoc c s)
  have c: "is_digit c" "digit_value c < 10" "char_of (48 + digit_value c :: nat) = c"
    using snoc.prems digit_value_less char_of_digit_value by (auto simp: list_all_iff)
  show ?case
  proof (cases s)
    case Nil
    have "dec_value [c] = digit_value c" by (simp add: dec_value_def)
    then show ?thesis using c Nil by (subst dec_string.simps) simp
  next
    case (Cons d t)
    have s: "s \<noteq> []" "list_all is_digit s" "1 < length s \<longrightarrow> hd s \<noteq> CHR ''0''" "hd s \<noteq> CHR ''0''"
      using snoc.prems Cons by auto
    then have IH: "dec_string (dec_value s) = s" "1 < length s \<longrightarrow> 10 \<le> dec_value s"
      using snoc.IH by auto
    have "0 < dec_value s"
    proof (rule ccontr)
      assume "\<not> 0 < dec_value s"
      then have "s = dec_string 0" using IH(1) by simp
      also have "\<dots> = [CHR ''0'']" by code_simp
      finally show False using s by simp
    qed
    then show ?thesis
      using c IH s by (subst dec_string.simps) (simp add: dec_value_append)
  qed
qed simp

lemma foldl_dec_shift:
  "foldl (\<lambda>v c. v * 10 + digit_value c) a s =
     a * 10 ^ length s + foldl (\<lambda>v c. v * 10 + digit_value c) 0 s"
proof (induction s arbitrary: a)
  case (Cons c s)
  show ?case
    using Cons.IH [of "a * 10 + digit_value c"] Cons.IH [of "digit_value c"]
    by (simp add: algebra_simps)
qed simp

lemma foldl_dec_mono: "a \<le> foldl (\<lambda>v c. v * 10 + digit_value c) a s"
proof -
  have "a * 1 \<le> a * 10 ^ length s" by (rule mult_le_mono2) simp
  then show ?thesis using foldl_dec_shift [of a s] by linarith
qed

lemma dec_value_less: "list_all is_digit s \<Longrightarrow> dec_value s < 10 ^ length s"
proof (induction s rule: rev_induct)
  case (snoc c s)
  then have "dec_value s < 10 ^ length s" "digit_value c < 10"
    using digit_value_less by auto
  then show ?case by (simp add: dec_value_append)
qed (simp add: dec_value_def)

subsection \<open>Splitting at a separator\<close>

lemma takeWhile_neq_append: "c \<notin> set a \<Longrightarrow> takeWhile (\<lambda>x. x \<noteq> c) (a @ c # b) = a"
  by (induction a) auto

lemma takeWhile_neq_id: "c \<notin> set a \<Longrightarrow> takeWhile (\<lambda>x. x \<noteq> c) a = a"
  by (induction a) auto

lemma dropWhile_neq_append: "c \<notin> set a \<Longrightarrow> dropWhile (\<lambda>x. x \<noteq> c) (a @ c # b) = c # b"
  by (induction a) auto

subsection \<open>Association-list maps\<close>

text \<open>
  A \<open>std::unordered_map\<close> is an association list with distinct keys: \<open>find\<close> is
  \<open>map_of\<close>, \<open>m[k] = v\<close> is \<open>AList.update\<close>, \<open>size()\<close> is \<open>length\<close>. The list order stands
  for the (unspecified) iteration order; sums and counts over it do not depend on it.
\<close>

abbreviation keys_distinct :: "('k \<times> 'v) list \<Rightarrow> bool" where
  "keys_distinct m \<equiv> distinct (map fst m)"

lemma keys_distinct_update [state_wf, simp]:
  "keys_distinct m \<Longrightarrow> keys_distinct (AList.update k v m)"
  by (rule distinct_update)

lemma map_of_update [simp]: "map_of (AList.update k v m) = (map_of m)(k \<mapsto> v)"
  by (rule update_conv')

lemma update_fresh: "map_of m k = None \<Longrightarrow> AList.update k v m = m @ [(k, v)]"
  by (induction m) (auto split: if_splits)

lemma length_update:
  "length (AList.update k v m) = (if map_of m k = None then Suc (length m) else length m)"
  by (induction m) auto

lemma set_update_distinct:
  assumes "keys_distinct m"
  shows "set (AList.update k v m) = {(k', v'). (k', v') \<in> set m \<and> k' \<noteq> k} \<union> {(k, v)}"
proof -
  have "(k', v') \<in> set (AList.update k v m) \<longleftrightarrow> map_of (AList.update k v m) k' = Some v'" for k' v'
    by (rule map_of_eq_Some_iff [OF keys_distinct_update [OF assms], symmetric])
  then show ?thesis
    by (auto simp: map_of_eq_Some_iff [OF assms] split: if_splits)
qed

lemma sum_list_update:
  fixes f :: "'k \<Rightarrow> 'v \<Rightarrow> nat"
  shows "keys_distinct m \<Longrightarrow>
    (\<Sum>(k', v')\<leftarrow>AList.update k v m. f k' v') + (case map_of m k of None \<Rightarrow> 0 | Some u \<Rightarrow> f k u) =
    (\<Sum>(k', v')\<leftarrow>m. f k' v') + f k v"
proof (induction m)
  case (Cons kv m)
  show ?case
  proof (cases "fst kv = k")
    case True
    then show ?thesis by (cases kv) simp
  next
    case False
    with Cons show ?thesis by (cases kv) (simp split: option.splits)
  qed
qed simp

end
