(* ===== verification/State_Limits.thy ===== *)
theory State_Limits
  imports Prelude
begin

text \<open>
  Contract-state resource policy (\<open>contract_state_limits.h\<close>): which logical keys and values
  are admissible, how many bytes a state domain is charged for, when a write fits, and what a
  store costs in gas. Each logical key is charged two durable bytes per byte because durable
  keys are hex encoded.
\<close>

type_synonym state_map = "(string \<times> bytes) list"

definition MAX_LOGICAL_KEY_BYTES :: nat where "MAX_LOGICAL_KEY_BYTES = 128"
definition MAX_VALUE_BYTES :: nat where "MAX_VALUE_BYTES = 4 * 1024"
definition MAX_KEYS_PER_DOMAIN :: nat where "MAX_KEYS_PER_DOMAIN = 4096"
definition MAX_TOTAL_STATE_BYTES :: nat where "MAX_TOTAL_STATE_BYTES = 1 * 1024 * 1024"
definition STORE_GAS_BASE :: u64 where "STORE_GAS_BASE = 1000"
definition STORE_GAS_PER_ACCOUNTED_BYTE :: u64 where "STORE_GAS_PER_ACCOUNTED_BYTE = 100"

lemmas state_limit_defs =
  MAX_LOGICAL_KEY_BYTES_def MAX_VALUE_BYTES_def MAX_KEYS_PER_DOMAIN_def
  MAX_TOTAL_STATE_BYTES_def STORE_GAS_BASE_def STORE_GAS_PER_ACCOUNTED_BYTE_def

definition IsLogicalKeyAllowed :: "string \<Rightarrow> bool" where
  "IsLogicalKeyAllowed key \<longleftrightarrow> key \<noteq> [] \<and> length key \<le> MAX_LOGICAL_KEY_BYTES"

definition IsValueAllowed :: "bytes \<Rightarrow> bool" where
  "IsValueAllowed value \<longleftrightarrow> length value \<le> MAX_VALUE_BYTES"

definition ComputeAccountedEntryBytes :: "string \<Rightarrow> nat \<Rightarrow> nat option" where
  "ComputeAccountedEntryBytes key valueBytes =
     (if \<not> IsLogicalKeyAllowed key \<or> valueBytes > MAX_VALUE_BYTES then None
      else
        let encodedKeyBytes = length key * 2 in
        if valueBytes > MAX_TOTAL_STATE_BYTES - encodedKeyBytes then None
        else Some (encodedKeyBytes + valueBytes))"

text \<open>The loop of \<open>MeasureStateBytes\<close>, with its running total.\<close>

fun measure_entries :: "nat \<Rightarrow> state_map \<Rightarrow> nat option" where
  "measure_entries tot [] = Some tot"
| "measure_entries tot ((key, value) # rest) =
     (case ComputeAccountedEntryBytes key (length value) of
        None \<Rightarrow> None
      | Some entryBytes \<Rightarrow>
          if entryBytes > MAX_TOTAL_STATE_BYTES - tot then None
          else measure_entries (tot + entryBytes) rest)"

definition MeasureStateBytes :: "state_map \<Rightarrow> nat option" where
  "MeasureStateBytes state =
     (if length state > MAX_KEYS_PER_DOMAIN then None else measure_entries 0 state)"

definition CanApplyStateWrite :: "state_map \<Rightarrow> string \<Rightarrow> bytes \<Rightarrow> nat option" where
  "CanApplyStateWrite state key value =
     (if \<not> IsLogicalKeyAllowed key \<or> \<not> IsValueAllowed value then None
      else case MeasureStateBytes state of
        None \<Rightarrow> None
      | Some measured \<Rightarrow>
          let remaining =
            (case map_of state key of
               None \<Rightarrow> if length state \<ge> MAX_KEYS_PER_DOMAIN then None else Some measured
             | Some old \<Rightarrow>
                 (case ComputeAccountedEntryBytes key (length old) of
                    None \<Rightarrow> None
                  | Some oldEntryBytes \<Rightarrow>
                      if oldEntryBytes > measured then None else Some (measured - oldEntryBytes)))
          in case remaining of
            None \<Rightarrow> None
          | Some currentBytes \<Rightarrow>
              (case ComputeAccountedEntryBytes key (length value) of
                 None \<Rightarrow> None
               | Some newEntryBytes \<Rightarrow>
                   if newEntryBytes > MAX_TOTAL_STATE_BYTES - currentBytes then None
                   else Some (currentBytes + newEntryBytes)))"

definition ComputeStoreGas :: "nat \<Rightarrow> nat \<Rightarrow> u64 option" where
  "ComputeStoreGas keyBytes valueBytes =
     (if keyBytes = 0 \<or> keyBytes > MAX_LOGICAL_KEY_BYTES \<or> valueBytes > MAX_VALUE_BYTES then None
      else
        let accountedBytes = keyBytes * 2 + valueBytes in
        if accountedBytes > unat ((u64_max - STORE_GAS_BASE) div STORE_GAS_PER_ACCOUNTED_BYTE)
        then None
        else Some (STORE_GAS_BASE + word_of_nat accountedBytes * STORE_GAS_PER_ACCOUNTED_BYTE))"

lemmas state_eval =
  IsLogicalKeyAllowed_def IsValueAllowed_def ComputeAccountedEntryBytes_def
  MeasureStateBytes_def CanApplyStateWrite_def state_limit_defs

subsection \<open>Specification of the accounting\<close>

definition entry_bytes :: "string \<Rightarrow> bytes \<Rightarrow> nat" where
  "entry_bytes k v = length k * 2 + length v"

definition entry_ok :: "string \<Rightarrow> bytes \<Rightarrow> bool" where
  "entry_ok k v \<longleftrightarrow> IsLogicalKeyAllowed k \<and> IsValueAllowed v"

definition state_bytes :: "state_map \<Rightarrow> nat" where
  "state_bytes m = (\<Sum>(k, v)\<leftarrow>m. entry_bytes k v)"

definition state_within_limits :: "state_map \<Rightarrow> bool" where
  "state_within_limits m \<longleftrightarrow>
     length m \<le> MAX_KEYS_PER_DOMAIN \<and> (\<forall>(k, v)\<in>set m. entry_ok k v) \<and>
     state_bytes m \<le> MAX_TOTAL_STATE_BYTES"

lemma ComputeAccountedEntryBytes_iff:
  "ComputeAccountedEntryBytes k (length v) = Some n \<longleftrightarrow> entry_ok k v \<and> n = entry_bytes k v"
  by (auto simp: ComputeAccountedEntryBytes_def entry_ok_def entry_bytes_def IsValueAllowed_def
      IsLogicalKeyAllowed_def state_limit_defs Let_def)

lemma ComputeAccountedEntryBytes_eq:
  "ComputeAccountedEntryBytes k (length v) =
     (if entry_ok k v then Some (entry_bytes k v) else None)"
  by (metis ComputeAccountedEntryBytes_iff not_None_eq)

lemma measure_entries_iff:
  "tot \<le> MAX_TOTAL_STATE_BYTES \<Longrightarrow>
   measure_entries tot m = Some n \<longleftrightarrow>
     (\<forall>(k, v)\<in>set m. entry_ok k v) \<and> n = tot + state_bytes m \<and> n \<le> MAX_TOTAL_STATE_BYTES"
proof (induction tot m rule: measure_entries.induct)
  case (2 tot key val rest)
  then show ?case
    by (auto simp: ComputeAccountedEntryBytes_eq state_bytes_def split: if_splits)
qed (auto simp: state_bytes_def)

lemma MeasureStateBytes_iff:
  "MeasureStateBytes m = Some n \<longleftrightarrow> state_within_limits m \<and> n = state_bytes m"
  by (auto simp: MeasureStateBytes_def measure_entries_iff state_within_limits_def)

lemma MeasureStateBytes_eq:
  "MeasureStateBytes m = (if state_within_limits m then Some (state_bytes m) else None)"
  by (metis MeasureStateBytes_iff not_None_eq)

lemma state_bytes_update:
  "keys_distinct m \<Longrightarrow>
   state_bytes (AList.update k v m) + (case map_of m k of None \<Rightarrow> 0 | Some u \<Rightarrow> entry_bytes k u) =
     state_bytes m + entry_bytes k v"
  unfolding state_bytes_def by (rule sum_list_update)

lemma entry_bytes_le_state_bytes:
  "map_of m k = Some u \<Longrightarrow> entry_bytes k u \<le> state_bytes m"
  unfolding state_bytes_def
  by (induction m) (auto split: if_splits)

lemma update_within_limits:
  assumes "keys_distinct m" and "state_within_limits m"
  shows "state_within_limits (AList.update k v m) \<longleftrightarrow>
    entry_ok k v \<and> (map_of m k = None \<longrightarrow> length m < MAX_KEYS_PER_DOMAIN) \<and>
    state_bytes (AList.update k v m) \<le> MAX_TOTAL_STATE_BYTES"
  using assms by (auto simp: state_within_limits_def set_update_distinct length_update)

lemma CanApplyStateWrite_eq:
  assumes "keys_distinct m" and "state_within_limits m"
  shows "CanApplyStateWrite m k v =
    (if state_within_limits (AList.update k v m) then Some (state_bytes (AList.update k v m))
     else None)"
proof -
  have upd: "state_bytes (AList.update k v m) =
      state_bytes m + entry_bytes k v - (case map_of m k of None \<Rightarrow> 0 | Some u \<Rightarrow> entry_bytes k u)"
    using state_bytes_update [OF assms(1), of k v] by linarith
  have old: "entry_ok k u" "entry_bytes k u \<le> state_bytes m" if "map_of m k = Some u" for u
    using assms that map_of_SomeD entry_bytes_le_state_bytes by (fastforce simp: state_within_limits_def)+
  have le: "state_bytes m \<le> MAX_TOTAL_STATE_BYTES" using assms by (simp add: state_within_limits_def)
  show ?thesis
    using old le assms(2)
    by (auto simp: CanApplyStateWrite_def MeasureStateBytes_eq update_within_limits [OF assms]
        ComputeAccountedEntryBytes_eq upd entry_ok_def Let_def split: option.splits)
qed

text \<open>
  A write that passes \<open>CanApplyStateWrite\<close> leaves a domain that measures to exactly the
  reported number of bytes.
\<close>

lemma CanApplyStateWrite_Some:
  assumes "keys_distinct m" and "CanApplyStateWrite m k v = Some n"
  shows "MeasureStateBytes (AList.update k v m) = Some n"
proof -
  have "state_within_limits m"
    using assms(2)
    by (auto simp: CanApplyStateWrite_def MeasureStateBytes_eq split: if_splits)
  then show ?thesis
    using assms by (auto simp: CanApplyStateWrite_eq MeasureStateBytes_eq split: if_splits)
qed

text \<open>
  The write check is exact. On a domain within its limits it succeeds on precisely the
  writes whose result is again within the limits (key and value sizes, number of keys, total
  accounted bytes), and the size it reports is the accounted size of the resulting domain,
  whether the key is new or replaced.
\<close>

theorem state_write_check_exact:
  assumes "keys_distinct m" and "MeasureStateBytes m = Some used"
  shows "CanApplyStateWrite m k v = MeasureStateBytes (AList.update k v m)"
  using assms by (auto simp: MeasureStateBytes_eq CanApplyStateWrite_eq split: if_splits)

theorem state_write_check_exact_witness:
  "CanApplyStateWrite [(''a'', [1, 2])] ''a'' [7] =
     MeasureStateBytes (AList.update ''a'' [7] [(''a'', [1, 2])]) \<and>
   CanApplyStateWrite [(''a'', [1, 2])] ''a'' [7] = Some 3"
proof -
  have "keys_distinct [(''a'', [1, 2 :: byte])]" by simp
  moreover have "MeasureStateBytes [(''a'', [1, 2])] = Some 4" by (simp add: state_eval)
  ultimately have "CanApplyStateWrite [(''a'', [1, 2])] ''a'' [7] =
      MeasureStateBytes (AList.update ''a'' [7] [(''a'', [1, 2])])"
    by (rule state_write_check_exact)
  moreover have "CanApplyStateWrite [(''a'', [1, 2])] ''a'' [7] = Some 3" by (simp add: state_eval)
  ultimately show ?thesis by simp
qed

subsection \<open>Store gas\<close>

lemma unat_store_gas_bound:
  "unat ((u64_max - STORE_GAS_BASE) div STORE_GAS_PER_ACCOUNTED_BYTE) = 184467440737095506"
  unfolding unat_div_distrib unat_minus_one_sub STORE_GAS_BASE_def
    STORE_GAS_PER_ACCOUNTED_BYTE_def by simp

text \<open>
  The gas of an admissible store is exactly 1000 + 100 (2 key bytes + value bytes),
  without wrap-around, and at most 436200, whatever the sizes; sizes outside the limits are
  refused. In particular the overflow branch of \<open>ComputeStoreGas\<close> is never taken.
\<close>

theorem store_gas_exact:
  "ComputeStoreGas keyBytes valueBytes =
     (if 0 < keyBytes \<and> keyBytes \<le> 128 \<and> valueBytes \<le> 4096
      then Some (word_of_nat (1000 + 100 * (2 * keyBytes + valueBytes))) else None) \<and>
   (case ComputeStoreGas keyBytes valueBytes of None \<Rightarrow> True
    | Some gas \<Rightarrow> unat gas = 1000 + 100 * (2 * keyBytes + valueBytes) \<and> unat gas \<le> 436200)"
proof (cases "0 < keyBytes \<and> keyBytes \<le> 128 \<and> valueBytes \<le> 4096")
  case True
  let ?n = "1000 + 100 * (2 * keyBytes + valueBytes)"
  have "ComputeStoreGas keyBytes valueBytes = Some (word_of_nat ?n)"
  proof -
    have "word_of_nat ?n = STORE_GAS_BASE +
        word_of_nat (keyBytes * 2 + valueBytes) * STORE_GAS_PER_ACCOUNTED_BYTE"
      by (simp add: STORE_GAS_BASE_def STORE_GAS_PER_ACCOUNTED_BYTE_def algebra_simps)
    moreover have "\<not> keyBytes * 2 + valueBytes > 184467440737095506" using True by linarith
    ultimately show ?thesis
      using True unfolding ComputeStoreGas_def Let_def unat_store_gas_bound
      by (simp only: MAX_LOGICAL_KEY_BYTES_def MAX_VALUE_BYTES_def) simp
  qed
  moreover have "unat (word_of_nat ?n :: u64) = ?n"
    using True by (subst unat_of_nat) simp
  ultimately show ?thesis using True by simp
next
  case False
  then have "ComputeStoreGas keyBytes valueBytes = None"
    by (auto simp: ComputeStoreGas_def state_limit_defs)
  with False show ?thesis by simp
qed

end
