(* ===== verification/Amounts.thy ===== *)
theory Amounts
  imports Prelude
begin

text \<open>
  Conversion between TRU amounts as decimal text and 64-bit atom counts
  (\<open>tru_amount.h\<close>): 1 TRU is 10^8 atoms. A refused amount carries the \<open>reason\<close> string of the
  source. All arithmetic is on 64-bit words; the theorems show that it never wraps.
\<close>

definition ATOMS_PER_TRU :: u64 where "ATOMS_PER_TRU = 100000000"

definition is_space :: "char \<Rightarrow> bool" where
  "is_space c \<longleftrightarrow> c = CHR '' '' \<or> c = CHR 0x09 \<or> c = CHR 0x0D \<or> c = CHR 0x0A"

definition trim :: "string \<Rightarrow> string" where
  "trim raw = rev (dropWhile is_space (rev (dropWhile is_space raw)))"

definition digit_word :: "char \<Rightarrow> u64" where
  "digit_word c = word_of_nat (digit_value c)"

fun parse_whole :: "u64 \<Rightarrow> string \<Rightarrow> u64 option" where
  "parse_whole whole [] = Some whole"
| "parse_whole whole (c # cs) =
     (let digit = digit_word c in
      if whole > (u64_max - digit) div 10 then None
      else parse_whole (whole * 10 + digit) cs)"

definition parse_fraction :: "string \<Rightarrow> u64" where
  "parse_fraction fracPart =
     ((\<lambda>fraction. fraction * 10) ^^ (8 - length fracPart))
       (foldl (\<lambda>fraction c. fraction * 10 + digit_word c) 0 fracPart)"

definition parse :: "string \<Rightarrow> string + u64" where
  "parse raw =
     (let s = trim raw in
      if s = [] then Inl ''amount is empty''
      else if hd s = CHR ''+'' \<or> hd s = CHR ''-'' then Inl ''signs are not allowed''
      else
        let wholePart = takeWhile (\<lambda>c. c \<noteq> CHR ''.'') s;
            fracPart = tl (dropWhile (\<lambda>c. c \<noteq> CHR ''.'') s) in
        if CHR ''.'' \<in> set fracPart then Inl ''amount contains more than one decimal point''
        else if wholePart = [] \<and> fracPart = [] then Inl ''amount has no digits''
        else if length fracPart > 8 then Inl ''TRU supports at most 8 decimal places''
        else if (wholePart \<noteq> [] \<and> \<not> list_all is_digit wholePart) \<or>
                (fracPart \<noteq> [] \<and> \<not> list_all is_digit fracPart)
        then Inl ''amount must contain decimal digits only''
        else
          case parse_whole 0 wholePart of
            None \<Rightarrow> Inl ''whole-TRU amount overflows uint64''
          | Some whole \<Rightarrow>
              let fraction = parse_fraction fracPart in
              if whole > (u64_max - fraction) div ATOMS_PER_TRU
              then Inl ''TRU amount overflows uint64 atomic range''
              else Inr (whole * ATOMS_PER_TRU + fraction))"

definition pad_left :: "nat \<Rightarrow> char \<Rightarrow> string \<Rightarrow> string" where
  "pad_left n c s = replicate (n - length s) c @ s"

definition formatNumeric :: "u64 \<Rightarrow> string" where
  "formatNumeric atoms =
     (let whole = atoms div ATOMS_PER_TRU;
          fraction = atoms mod ATOMS_PER_TRU in
      dec_string (unat whole) @ ''.'' @ pad_left 8 (CHR ''0'') (dec_string (unat fraction)))"

definition format :: "u64 \<Rightarrow> string" where
  "format atoms = formatNumeric atoms @ '' TRU''"

definition formatAtoms :: "u64 \<Rightarrow> string" where
  "formatAtoms atoms =
     dec_string (unat atoms) @ (if atoms = 1 then '' TRU atom'' else '' TRU atoms'')"

subsection \<open>Specification: the decimal value of an amount\<close>

definition well_formed_amount :: "string \<Rightarrow> string \<Rightarrow> bool" where
  "well_formed_amount w f \<longleftrightarrow>
     list_all is_digit w \<and> list_all is_digit f \<and> length f \<le> 8 \<and> (w \<noteq> [] \<or> f \<noteq> [])"

definition atoms_of :: "string \<Rightarrow> string \<Rightarrow> nat" where
  "atoms_of w f = dec_value w * 10 ^ 8 + dec_value f * 10 ^ (8 - length f)"

definition renders :: "string \<Rightarrow> string \<Rightarrow> string \<Rightarrow> bool" where
  "renders s w f \<longleftrightarrow> s = w @ ''.'' @ f \<or> s = w \<and> f = []"

lemma unat_digit_word: "is_digit c \<Longrightarrow> unat (digit_word c) = digit_value c"
  unfolding digit_word_def using digit_value_less [of c]
  by (subst unat_of_nat) simp

lemma parse_whole_eq:
  assumes "list_all is_digit s"
  shows "parse_whole w s =
    (let v = foldl (\<lambda>v c. v * 10 + digit_value c) (unat w) s
     in if v < 2 ^ 64 then Some (word_of_nat v) else None)"
  using assms
proof (induction s arbitrary: w)
  case Nil
  then show ?case using unsigned_less [where 'a = nat, of w] by simp
next
  case (Cons c s)
  then have d: "unat (digit_word c) = digit_value c" by (simp add: unat_digit_word)
  show ?case
  proof (cases "w \<le> (u64_max - digit_word c) div 10")
    case True
    then have "unat (w * 10 + digit_word c) = unat w * 10 + digit_value c"
      using scaled_guard(2) [of 10 w "digit_word c"] d by simp
    then show ?thesis using Cons leD [OF True] by (simp add: Let_def)
  next
    case False
    then have "\<not> unat w * 10 + digit_value c < 2 ^ 64"
      using scaled_guard(1) [of 10 w "digit_word c"] d by simp
    then show ?thesis
      using False foldl_dec_mono [of "unat w * 10 + digit_value c" s] by (simp add: Let_def not_le)
  qed
qed

lemma unat_parse_fraction:
  assumes "list_all is_digit f" and "length f \<le> 8"
  shows "unat (parse_fraction f) = dec_value f * 10 ^ (8 - length f)"
    and "dec_value f * 10 ^ (8 - length f) < 10 ^ 8"
proof -
  have fold: "foldl (\<lambda>fraction c. fraction * 10 + digit_word c) (word_of_nat a) s =
      word_of_nat (foldl (\<lambda>v c. v * 10 + digit_value c) a s)" for a s
  proof (induction s arbitrary: a)
    case (Cons c s)
    show ?case using Cons.IH [of "a * 10 + digit_value c"] by (simp add: digit_word_def)
  qed simp
  have pow: "((\<lambda>x :: u64. x * 10) ^^ k) (word_of_nat a) = word_of_nat (a * 10 ^ k)" for k a
    by (induction k) (simp_all add: algebra_simps)
  have eq: "parse_fraction f = word_of_nat (dec_value f * 10 ^ (8 - length f))"
    unfolding parse_fraction_def using fold [of 0 f] pow by (simp add: dec_value_def)
  have "dec_value f * 10 ^ (8 - length f) < 10 ^ length f * 10 ^ (8 - length f)"
    using dec_value_less [OF assms(1)] by simp
  also have "\<dots> = 10 ^ 8" using assms(2) by (simp flip: power_add)
  finally show lt: "dec_value f * 10 ^ (8 - length f) < 10 ^ 8" .
  then show "unat (parse_fraction f) = dec_value f * 10 ^ (8 - length f)"
    unfolding eq by (subst unat_of_nat) (simp add: take_bit_nat_eq_self)
qed

lemma split_dot:
  assumes "CHR ''.'' \<notin> set (tl (dropWhile (\<lambda>c. c \<noteq> CHR ''.'') s))"
  shows "renders s (takeWhile (\<lambda>c. c \<noteq> CHR ''.'') s) (tl (dropWhile (\<lambda>c. c \<noteq> CHR ''.'') s))"
proof (cases "dropWhile (\<lambda>c. c \<noteq> CHR ''.'') s")
  case Nil
  then have "takeWhile (\<lambda>c. c \<noteq> CHR ''.'') s = s"
    by (metis append_Nil2 takeWhile_dropWhile_id)
  then show ?thesis unfolding renders_def Nil list.sel by (intro disjI2) (simp only: simp_thms)
next
  case (Cons d t)
  then have "d = CHR ''.''" using hd_dropWhile [of "\<lambda>c. c \<noteq> CHR ''.''" s] by auto
  then have "s = takeWhile (\<lambda>c. c \<noteq> CHR ''.'') s @ ''.'' @ t"
    using Cons takeWhile_dropWhile_id [of "\<lambda>c. c \<noteq> CHR ''.''" s] by simp
  then show ?thesis using Cons by (simp add: renders_def)
qed

lemma digit_not_dot: "is_digit c \<Longrightarrow> c \<noteq> CHR ''.''"
  by (auto simp: is_digit_iff)

lemma digits_no_dot: "list_all is_digit w \<Longrightarrow> \<forall>c\<in>set w. c \<noteq> CHR ''.''"
  using digit_not_dot by (auto simp: list_all_iff)

lemma renders_split:
  assumes "renders s w f" and "list_all is_digit w"
  shows "takeWhile (\<lambda>c. c \<noteq> CHR ''.'') s = w" and "tl (dropWhile (\<lambda>c. c \<noteq> CHR ''.'') s) = f"
proof -
  have nd: "\<forall>c\<in>set w. c \<noteq> CHR ''.''" using assms(2) by (rule digits_no_dot)
  then have "takeWhile (\<lambda>c. c \<noteq> CHR ''.'') (w @ ''.'' @ f) = w"
    by (subst takeWhile_append2) auto
  moreover have "takeWhile (\<lambda>c. c \<noteq> CHR ''.'') w = w"
    using nd by (simp add: takeWhile_eq_all_conv)
  ultimately show "takeWhile (\<lambda>c. c \<noteq> CHR ''.'') s = w"
    using assms(1) unfolding renders_def by (elim disjE conjE) (simp_all only:)
  have "dropWhile (\<lambda>c. c \<noteq> CHR ''.'') (w @ ''.'' @ f) = ''.'' @ f"
    using nd by (subst dropWhile_append2) simp_all
  moreover have "dropWhile (\<lambda>c. c \<noteq> CHR ''.'') w = []"
    using nd by simp
  ultimately show "tl (dropWhile (\<lambda>c. c \<noteq> CHR ''.'') s) = f"
    using assms(1) unfolding renders_def by (elim disjE conjE) (simp_all only: append_Cons append_Nil list.sel)
qed

lemma renders_head:
  assumes "renders s w f" and "well_formed_amount w f"
  shows "s \<noteq> []" and "hd s \<noteq> CHR ''+''" and "hd s \<noteq> CHR ''-''"
proof -
  show ne: "s \<noteq> []" using assms by (auto simp: renders_def well_formed_amount_def)
  have "hd s = CHR ''.'' \<or> is_digit (hd s)"
    using assms by (cases w) (auto simp: renders_def well_formed_amount_def)
  then show "hd s \<noteq> CHR ''+''" "hd s \<noteq> CHR ''-''" by (auto simp: is_digit_iff)
qed

lemma parse_tail:
  assumes "well_formed_amount w f"
  shows "(case parse_whole 0 w of
            None \<Rightarrow> Inl a
          | Some whole \<Rightarrow>
              if whole > (u64_max - parse_fraction f) div ATOMS_PER_TRU then Inl b
              else Inr (whole * ATOMS_PER_TRU + parse_fraction f)) = Inr n \<longleftrightarrow>
         atoms_of w f = unat n"
proof -
  have wf: "list_all is_digit w" "list_all is_digit f" "length f \<le> 8"
    using assms by (auto simp: well_formed_amount_def)
  have k: "unat ATOMS_PER_TRU = 10 ^ 8" "0 < ATOMS_PER_TRU" by (simp_all add: ATOMS_PER_TRU_def)
  have pw: "parse_whole 0 w = (if dec_value w < 2 ^ 64 then Some (word_of_nat (dec_value w)) else None)"
    using parse_whole_eq [OF wf(1), of 0] by (simp add: dec_value_def)
  have n: "unat n < 2 ^ 64" using unsigned_less [where 'a = nat, of n] by simp
  show ?thesis
  proof (cases "dec_value w < 2 ^ 64")
    case False
    then have "atoms_of w f \<noteq> unat n" using n by (simp add: atoms_of_def)
    then show ?thesis using False pw by simp
  next
    case True
    let ?w = "word_of_nat (dec_value w) :: u64"
    have w: "unat ?w = dec_value w" using True by (subst unat_of_nat) (simp add: take_bit_nat_eq_self)
    have g: "?w \<le> (u64_max - parse_fraction f) div ATOMS_PER_TRU \<longleftrightarrow> atoms_of w f < 2 ^ 64"
      "?w \<le> (u64_max - parse_fraction f) div ATOMS_PER_TRU \<Longrightarrow>
        unat (?w * ATOMS_PER_TRU + parse_fraction f) = atoms_of w f"
      using scaled_guard [OF k(2), of ?w "parse_fraction f"] unat_parse_fraction [OF wf(2,3)] k w
      by (simp_all add: atoms_of_def)
    show ?thesis
    proof (cases "atoms_of w f < 2 ^ 64")
      case True
      then show ?thesis using g pw \<open>dec_value w < 2 ^ 64\<close>
        by (auto simp: not_less word_unat_eq_iff)
    next
      case False
      then show ?thesis using g pw \<open>dec_value w < 2 ^ 64\<close> n by (auto simp: not_less)
    qed
  qed
qed

lemma parse_Inr:
  "parse raw = Inr n \<longleftrightarrow>
     (\<exists>w f. renders (trim raw) w f \<and> well_formed_amount w f \<and> atoms_of w f = unat n)"
  (is "?l \<longleftrightarrow> ?r")
proof -
  define s where "s = trim raw"
  define w where "w = takeWhile (\<lambda>c. c \<noteq> CHR ''.'') s"
  define f where "f = tl (dropWhile (\<lambda>c. c \<noteq> CHR ''.'') s)"
  have l: "?l \<longleftrightarrow> s \<noteq> [] \<and> hd s \<noteq> CHR ''+'' \<and> hd s \<noteq> CHR ''-'' \<and> CHR ''.'' \<notin> set f \<and>
      well_formed_amount w f \<and> atoms_of w f = unat n"
  proof (cases "s \<noteq> [] \<and> hd s \<noteq> CHR ''+'' \<and> hd s \<noteq> CHR ''-'' \<and> CHR ''.'' \<notin> set f \<and>
      well_formed_amount w f")
    case True
    then show ?thesis
      using parse_tail [of w f "''whole-TRU amount overflows uint64''"
          "''TRU amount overflows uint64 atomic range''" n]
      unfolding parse_def Let_def s_def [symmetric] w_def [symmetric] f_def [symmetric]
      by (auto simp: well_formed_amount_def split: option.splits if_splits)
  next
    case False
    then show ?thesis
      unfolding parse_def Let_def s_def [symmetric] w_def [symmetric] f_def [symmetric]
      by (auto simp: well_formed_amount_def split: if_splits)
  qed
  also have "\<dots> \<longleftrightarrow> (\<exists>w f. renders s w f \<and> well_formed_amount w f \<and> atoms_of w f = unat n)"
    (is "?m \<longleftrightarrow> ?e")
  proof
    assume ?m
    then show ?e using split_dot [of s] unfolding f_def [symmetric] w_def [symmetric] by blast
  next
    assume ?e
    then obtain w' f' where wf: "renders s w' f'" "well_formed_amount w' f'"
      "atoms_of w' f' = unat n" by blast
    then have "w = w'" "f = f'"
      using renders_split [of s w' f'] by (auto simp: w_def f_def well_formed_amount_def)
    then show ?m
      using wf renders_head [OF wf(1,2)] digits_no_dot [of f'] by (auto simp: well_formed_amount_def)
  qed
  finally show ?thesis by (simp add: s_def)
qed

text \<open>
  C13: parsing is exact. After trimming blanks, \<open>parse\<close> accepts precisely the texts
  \<open>w\<close>, \<open>w.\<close>, \<open>w.f\<close> and \<open>.f\<close> of decimal digits with at most 8 decimals whose value fits 64 bits,
  and returns exactly \<open>w * 10^8 + f * 10^(8 - |f|)\<close> atoms: no input is accepted with a wrapped
  or truncated value.
\<close>

theorem parse_amount_exact:
  "parse raw = Inr n \<longleftrightarrow>
     (\<exists>w f. renders (trim raw) w f \<and> well_formed_amount w f \<and>
        dec_value w * 10 ^ 8 + dec_value f * 10 ^ (8 - length f) = unat n)"
  unfolding parse_Inr atoms_of_def ..

lemma pad_left_digits:
  assumes "n < 10 ^ k"
  shows "length (pad_left k (CHR ''0'') (dec_string n)) = max k (length (dec_string n))"
    and "list_all is_digit (pad_left k (CHR ''0'') (dec_string n))"
    and "dec_value (pad_left k (CHR ''0'') (dec_string n)) = n"
proof -
  show "length (pad_left k (CHR ''0'') (dec_string n)) = max k (length (dec_string n))"
    by (simp add: pad_left_def)
  have z: "is_digit (CHR ''0'')" by (simp add: is_digit_iff)
  then show "list_all is_digit (pad_left k (CHR ''0'') (dec_string n))"
    using dec_string_digits [of n] by (auto simp: pad_left_def list_all_iff)
  have zeros: "foldl (\<lambda>v c. v * 10 + digit_value c) 0 (replicate j (CHR ''0'')) = 0" for j
    by (induction j) (simp_all add: digit_value_def)
  have "dec_value (pad_left k (CHR ''0'') (dec_string n)) =
      foldl (\<lambda>v c. v * 10 + digit_value c) 0 (dec_string n)"
    unfolding dec_value_def pad_left_def foldl_append zeros by (rule refl)
  also have "\<dots> = dec_value (dec_string n)" by (simp only: dec_value_def)
  finally show "dec_value (pad_left k (CHR ''0'') (dec_string n)) = n" by simp
qed

lemma length_dec_string: "0 < k \<Longrightarrow> n < 10 ^ k \<Longrightarrow> length (dec_string n) \<le> k"
proof (induction n arbitrary: k rule: dec_string.induct)
  case (1 n)
  show ?case
  proof (cases "n < 10")
    case True
    then show ?thesis using 1 by (subst dec_string.simps) simp
  next
    case False
    obtain j where k: "k = Suc j" using 1 by (cases k) auto
    have "n div 10 < 10 ^ j" using 1 k by (simp add: less_mult_imp_div_less mult.commute)
    moreover have "0 < j" using False 1 k by (cases j) auto
    ultimately show ?thesis using False 1(1) k by (subst dec_string.simps) simp
  qed
qed

lemma trim_id:
  assumes "s \<noteq> []" and "\<not> is_space (hd s)" and "\<not> is_space (last s)"
  shows "trim s = s"
proof -
  have "dropWhile is_space s = s" using assms by (cases s) auto
  moreover have "dropWhile is_space (rev s) = rev s"
    using assms by (cases s rule: rev_cases) auto
  ultimately show ?thesis by (simp add: trim_def)
qed

lemma digit_not_space: "is_digit c \<Longrightarrow> \<not> is_space c"
  by (auto simp: is_digit_iff is_space_def)

text \<open>
  Every 64-bit atom count survives formatting: \<open>parse\<close> reads back exactly the number
  that \<open>formatNumeric\<close> wrote, so no amount displayed by the wallet changes when it is entered
  again.
\<close>

theorem amount_roundtrip: "parse (formatNumeric atoms) = Inr atoms"
proof -
  define w where "w = dec_string (unat (atoms div ATOMS_PER_TRU))"
  define f where "f = pad_left 8 (CHR ''0'') (dec_string (unat (atoms mod ATOMS_PER_TRU)))"
  have k: "unat ATOMS_PER_TRU = 10 ^ 8" by (simp add: ATOMS_PER_TRU_def)
  have w: "list_all is_digit w" "w \<noteq> []" "dec_value w = unat atoms div 10 ^ 8"
    using dec_string_digits k by (simp_all add: w_def unat_div_distrib)
  have lt: "unat (atoms mod ATOMS_PER_TRU) < 10 ^ 8"
    using k by (simp add: unat_mod_distrib)
  have f: "list_all is_digit f" "length f = 8" "dec_value f = unat atoms mod 10 ^ 8"
    using pad_left_digits [OF lt] length_dec_string [OF _ lt] k
    by (simp_all add: f_def unat_mod_distrib)
  have s: "formatNumeric atoms = w @ ''.'' @ f"
    by (simp add: formatNumeric_def w_def f_def Let_def)
  have "last (w @ ''.'' @ f) = last f" "f \<noteq> []" using f(2) by auto
  then have "trim (formatNumeric atoms) = w @ ''.'' @ f"
    using w f digit_not_space unfolding s
    by (intro trim_id) (auto simp: list_all_iff)
  then have "renders (trim (formatNumeric atoms)) w f" by (simp add: renders_def)
  moreover have "well_formed_amount w f" using w f by (simp add: well_formed_amount_def)
  moreover have "atoms_of w f = unat atoms" using w f by (simp add: atoms_of_def)
  ultimately show ?thesis using parse_Inr by blast
qed

end
