(* ===== verification/Consensus09.thy ===== *)
theory Consensus09
  imports Prelude
begin

text \<open>
  The opcode byte map (\<open>opcodes.h\<close>), the frozen assignments asserted over it
  (\<open>opcode_map09.h\<close>) and the height-gated rules of \<open>consensus09_activation.h\<close>.
  Opcode names are the source's; an alias of the enum is an alias here.
\<close>

abbreviation OP_0 :: byte where "OP_0 \<equiv> 0x00"
abbreviation OP_FALSE :: byte where "OP_FALSE \<equiv> OP_0"
abbreviation OP_PUSHDATA1 :: byte where "OP_PUSHDATA1 \<equiv> 0x4c"
abbreviation OP_PUSHDATA2 :: byte where "OP_PUSHDATA2 \<equiv> 0x4d"
abbreviation OP_PUSHDATA4 :: byte where "OP_PUSHDATA4 \<equiv> 0x4e"
abbreviation OP_1NEGATE :: byte where "OP_1NEGATE \<equiv> 0x4f"
abbreviation OP_RESERVED :: byte where "OP_RESERVED \<equiv> 0x50"
abbreviation OP_1 :: byte where "OP_1 \<equiv> 0x51"
abbreviation OP_TRUE :: byte where "OP_TRUE \<equiv> OP_1"
abbreviation OP_2 :: byte where "OP_2 \<equiv> 0x52"
abbreviation OP_3 :: byte where "OP_3 \<equiv> 0x53"
abbreviation OP_4 :: byte where "OP_4 \<equiv> 0x54"
abbreviation OP_5 :: byte where "OP_5 \<equiv> 0x55"
abbreviation OP_6 :: byte where "OP_6 \<equiv> 0x56"
abbreviation OP_7 :: byte where "OP_7 \<equiv> 0x57"
abbreviation OP_8 :: byte where "OP_8 \<equiv> 0x58"
abbreviation OP_9 :: byte where "OP_9 \<equiv> 0x59"
abbreviation OP_10 :: byte where "OP_10 \<equiv> 0x5a"
abbreviation OP_11 :: byte where "OP_11 \<equiv> 0x5b"
abbreviation OP_12 :: byte where "OP_12 \<equiv> 0x5c"
abbreviation OP_13 :: byte where "OP_13 \<equiv> 0x5d"
abbreviation OP_14 :: byte where "OP_14 \<equiv> 0x5e"
abbreviation OP_15 :: byte where "OP_15 \<equiv> 0x5f"
abbreviation OP_16 :: byte where "OP_16 \<equiv> 0x60"
abbreviation OP_NOP :: byte where "OP_NOP \<equiv> 0x61"
abbreviation OP_VER :: byte where "OP_VER \<equiv> 0x62"
abbreviation OP_IF :: byte where "OP_IF \<equiv> 0x63"
abbreviation OP_NOTIF :: byte where "OP_NOTIF \<equiv> 0x64"
abbreviation OP_VERIF :: byte where "OP_VERIF \<equiv> 0x65"
abbreviation OP_VERNOTIF :: byte where "OP_VERNOTIF \<equiv> 0x66"
abbreviation OP_ELSE :: byte where "OP_ELSE \<equiv> 0x67"
abbreviation OP_ENDIF :: byte where "OP_ENDIF \<equiv> 0x68"
abbreviation OP_VERIFY :: byte where "OP_VERIFY \<equiv> 0x69"
abbreviation OP_RETURN :: byte where "OP_RETURN \<equiv> 0x6a"
abbreviation OP_TOALTSTACK :: byte where "OP_TOALTSTACK \<equiv> 0x6b"
abbreviation OP_FROMALTSTACK :: byte where "OP_FROMALTSTACK \<equiv> 0x6c"
abbreviation OP_2DROP :: byte where "OP_2DROP \<equiv> 0x6d"
abbreviation OP_2DUP :: byte where "OP_2DUP \<equiv> 0x6e"
abbreviation OP_3DUP :: byte where "OP_3DUP \<equiv> 0x6f"
abbreviation OP_2OVER :: byte where "OP_2OVER \<equiv> 0x70"
abbreviation OP_2ROT :: byte where "OP_2ROT \<equiv> 0x71"
abbreviation OP_2SWAP :: byte where "OP_2SWAP \<equiv> 0x72"
abbreviation OP_IFDUP :: byte where "OP_IFDUP \<equiv> 0x73"
abbreviation OP_DEPTH :: byte where "OP_DEPTH \<equiv> 0x74"
abbreviation OP_DROP :: byte where "OP_DROP \<equiv> 0x75"
abbreviation OP_DUP :: byte where "OP_DUP \<equiv> 0x76"
abbreviation OP_NIP :: byte where "OP_NIP \<equiv> 0x77"
abbreviation OP_OVER :: byte where "OP_OVER \<equiv> 0x78"
abbreviation OP_PICK :: byte where "OP_PICK \<equiv> 0x79"
abbreviation OP_ROLL :: byte where "OP_ROLL \<equiv> 0x7a"
abbreviation OP_ROT :: byte where "OP_ROT \<equiv> 0x7b"
abbreviation OP_SWAP :: byte where "OP_SWAP \<equiv> 0x7c"
abbreviation OP_TUCK :: byte where "OP_TUCK \<equiv> 0x7d"
abbreviation OP_CAT :: byte where "OP_CAT \<equiv> 0x7e"
abbreviation OP_SUBSTR :: byte where "OP_SUBSTR \<equiv> 0x7f"
abbreviation OP_LEFT :: byte where "OP_LEFT \<equiv> 0x80"
abbreviation OP_RIGHT :: byte where "OP_RIGHT \<equiv> 0x81"
abbreviation OP_SIZE :: byte where "OP_SIZE \<equiv> 0x82"
abbreviation OP_INVERT :: byte where "OP_INVERT \<equiv> 0x83"
abbreviation OP_AND :: byte where "OP_AND \<equiv> 0x84"
abbreviation OP_OR :: byte where "OP_OR \<equiv> 0x85"
abbreviation OP_XOR :: byte where "OP_XOR \<equiv> 0x86"
abbreviation OP_EQUAL :: byte where "OP_EQUAL \<equiv> 0x87"
abbreviation OP_EQUALVERIFY :: byte where "OP_EQUALVERIFY \<equiv> 0x88"
abbreviation OP_1ADD :: byte where "OP_1ADD \<equiv> 0x8b"
abbreviation OP_1SUB :: byte where "OP_1SUB \<equiv> 0x8c"
abbreviation OP_2MUL :: byte where "OP_2MUL \<equiv> 0x8d"
abbreviation OP_2DIV :: byte where "OP_2DIV \<equiv> 0x8e"
abbreviation OP_NEGATE :: byte where "OP_NEGATE \<equiv> 0x8f"
abbreviation OP_ABS :: byte where "OP_ABS \<equiv> 0x90"
abbreviation OP_NOT :: byte where "OP_NOT \<equiv> 0x91"
abbreviation OP_0NOTEQUAL :: byte where "OP_0NOTEQUAL \<equiv> 0x92"
abbreviation OP_ADD :: byte where "OP_ADD \<equiv> 0x93"
abbreviation OP_SUB :: byte where "OP_SUB \<equiv> 0x94"
abbreviation OP_MUL :: byte where "OP_MUL \<equiv> 0x95"
abbreviation OP_DIV :: byte where "OP_DIV \<equiv> 0x96"
abbreviation OP_MOD :: byte where "OP_MOD \<equiv> 0x97"
abbreviation OP_LSHIFT :: byte where "OP_LSHIFT \<equiv> 0x98"
abbreviation OP_RSHIFT :: byte where "OP_RSHIFT \<equiv> 0x99"
abbreviation OP_BOOLAND :: byte where "OP_BOOLAND \<equiv> 0x9a"
abbreviation OP_BOOLOR :: byte where "OP_BOOLOR \<equiv> 0x9b"
abbreviation OP_NUMEQUAL :: byte where "OP_NUMEQUAL \<equiv> 0x9c"
abbreviation OP_NUMEQUALVERIFY :: byte where "OP_NUMEQUALVERIFY \<equiv> 0x9d"
abbreviation OP_NUMNOTEQUAL :: byte where "OP_NUMNOTEQUAL \<equiv> 0x9e"
abbreviation OP_LESSTHAN :: byte where "OP_LESSTHAN \<equiv> 0x9f"
abbreviation OP_GREATERTHAN :: byte where "OP_GREATERTHAN \<equiv> 0xa0"
abbreviation OP_LESSTHANOREQUAL :: byte where "OP_LESSTHANOREQUAL \<equiv> 0xa1"
abbreviation OP_GREATERTHANOREQUAL :: byte where "OP_GREATERTHANOREQUAL \<equiv> 0xa2"
abbreviation OP_MIN :: byte where "OP_MIN \<equiv> 0xa3"
abbreviation OP_MAX :: byte where "OP_MAX \<equiv> 0xa4"
abbreviation OP_WITHIN :: byte where "OP_WITHIN \<equiv> 0xa5"
abbreviation OP_RIPEMD160 :: byte where "OP_RIPEMD160 \<equiv> 0xa6"
abbreviation OP_SHA1 :: byte where "OP_SHA1 \<equiv> 0xa7"
abbreviation OP_SHA256 :: byte where "OP_SHA256 \<equiv> 0xa8"
abbreviation OP_HASH160 :: byte where "OP_HASH160 \<equiv> 0xa9"
abbreviation OP_HASH256 :: byte where "OP_HASH256 \<equiv> 0xaa"
abbreviation OP_CODESEPARATOR :: byte where "OP_CODESEPARATOR \<equiv> 0xab"
abbreviation OP_CHECKSIG :: byte where "OP_CHECKSIG \<equiv> 0xac"
abbreviation OP_CHECKSIGVERIFY :: byte where "OP_CHECKSIGVERIFY \<equiv> 0xad"
abbreviation OP_CHECKMULTISIG :: byte where "OP_CHECKMULTISIG \<equiv> 0xae"
abbreviation OP_CHECKMULTISIGVERIFY :: byte where "OP_CHECKMULTISIGVERIFY \<equiv> 0xaf"
abbreviation OP_NOP1 :: byte where "OP_NOP1 \<equiv> 0xb0"
abbreviation OP_CHECKLOCKTIMEVERIFY :: byte where "OP_CHECKLOCKTIMEVERIFY \<equiv> 0xb1"
abbreviation OP_CHECKSEQUENCEVERIFY :: byte where "OP_CHECKSEQUENCEVERIFY \<equiv> 0xb2"
abbreviation OP_NOP4 :: byte where "OP_NOP4 \<equiv> 0xb3"
abbreviation OP_NOP5 :: byte where "OP_NOP5 \<equiv> 0xb4"
abbreviation OP_NOP6 :: byte where "OP_NOP6 \<equiv> 0xb5"
abbreviation OP_NOP7 :: byte where "OP_NOP7 \<equiv> 0xb6"
abbreviation OP_NOP8 :: byte where "OP_NOP8 \<equiv> 0xb7"
abbreviation OP_NOP9 :: byte where "OP_NOP9 \<equiv> 0xb8"
abbreviation OP_NOP10 :: byte where "OP_NOP10 \<equiv> 0xb9"
abbreviation OP_BLOCKTIME :: byte where "OP_BLOCKTIME \<equiv> 0xf0"
abbreviation OP_EXTERNALDATA :: byte where "OP_EXTERNALDATA \<equiv> 0xf1"
abbreviation OP_DATAFEED :: byte where "OP_DATAFEED \<equiv> 0xf2"
abbreviation OP_DELEGATECHECK :: byte where "OP_DELEGATECHECK \<equiv> 0xf3"
abbreviation OP_CHAINSTATECHECK :: byte where "OP_CHAINSTATECHECK \<equiv> 0xf4"
abbreviation OP_HASHBLAKE2B :: byte where "OP_HASHBLAKE2B \<equiv> 0xf5"
abbreviation OP_SHA3 :: byte where "OP_SHA3 \<equiv> 0xf6"
abbreviation OP_STORE :: byte where "OP_STORE \<equiv> 0xf7"
abbreviation OP_LOAD :: byte where "OP_LOAD \<equiv> 0xf8"
abbreviation OP_CALLER :: byte where "OP_CALLER \<equiv> 0xf9"
abbreviation OP_CONTRACT_ADDR :: byte where "OP_CONTRACT_ADDR \<equiv> 0xfa"
abbreviation OP_GAS :: byte where "OP_GAS \<equiv> 0xfb"
abbreviation OP_HALT :: byte where "OP_HALT \<equiv> 0xfc"
abbreviation OP_REVERT :: byte where "OP_REVERT \<equiv> 0xfd"
abbreviation OP_OUTPUTAMOUNT :: byte where "OP_OUTPUTAMOUNT \<equiv> 0xfe"
abbreviation OP_MINT_TOKEN :: byte where "OP_MINT_TOKEN \<equiv> 0xe0"
abbreviation OP_TOKEN_BALANCE :: byte where "OP_TOKEN_BALANCE \<equiv> 0xe1"
abbreviation OP_BURN_TOKEN :: byte where "OP_BURN_TOKEN \<equiv> 0xe2"
abbreviation OP_NOVO_GENADDR :: byte where "OP_NOVO_GENADDR \<equiv> 0xb3"
abbreviation OP_NOVO_DEPOSIT :: byte where "OP_NOVO_DEPOSIT \<equiv> 0xb4"
abbreviation OP_NOVO_REDEEM :: byte where "OP_NOVO_REDEEM \<equiv> 0xb5"
abbreviation OP_NOVO_VERIFY :: byte where "OP_NOVO_VERIFY \<equiv> 0xb6"
abbreviation OP_BSTY_GENADDR :: byte where "OP_BSTY_GENADDR \<equiv> 0xb7"
abbreviation OP_BSTY_DEPOSIT :: byte where "OP_BSTY_DEPOSIT \<equiv> 0xb8"
abbreviation OP_BSTY_REDEEM :: byte where "OP_BSTY_REDEEM \<equiv> 0xb9"
abbreviation OP_BSTY_VERIFY :: byte where "OP_BSTY_VERIFY \<equiv> 0xba"
abbreviation OP_UPGRADE_NOP1 :: byte where "OP_UPGRADE_NOP1 \<equiv> 0xbb"
abbreviation OP_UPGRADE_NOP2 :: byte where "OP_UPGRADE_NOP2 \<equiv> 0xbc"
abbreviation OP_CHECKWOTSVERIFY :: byte where "OP_CHECKWOTSVERIFY \<equiv> OP_UPGRADE_NOP1"
abbreviation OP_MARKETVERIFY :: byte where "OP_MARKETVERIFY \<equiv> OP_UPGRADE_NOP2"
abbreviation OP_UPGRADE_NOP3 :: byte where "OP_UPGRADE_NOP3 \<equiv> 0xbd"
abbreviation OP_UPGRADE_NOP4 :: byte where "OP_UPGRADE_NOP4 \<equiv> 0xbe"
abbreviation OP_UPGRADE_NOP5 :: byte where "OP_UPGRADE_NOP5 \<equiv> 0xbf"
abbreviation OP_UPGRADE_NOP6 :: byte where "OP_UPGRADE_NOP6 \<equiv> 0xc0"
abbreviation OP_UPGRADE_NOP7 :: byte where "OP_UPGRADE_NOP7 \<equiv> 0xc1"
abbreviation OP_UPGRADE_NOP8 :: byte where "OP_UPGRADE_NOP8 \<equiv> 0xc2"
abbreviation OP_INVALIDOPCODE :: byte where "OP_INVALIDOPCODE \<equiv> 0xff"

text \<open>The enumerators of \<open>OpCode\<close>, in the order of the enum, and the static assertions.\<close>

definition OpCode :: "(string \<times> byte) list" where
  "OpCode = [
     (''OP_0'', OP_0), (''OP_FALSE'', OP_FALSE), (''OP_PUSHDATA1'', OP_PUSHDATA1),
     (''OP_PUSHDATA2'', OP_PUSHDATA2), (''OP_PUSHDATA4'', OP_PUSHDATA4),
     (''OP_1NEGATE'', OP_1NEGATE), (''OP_RESERVED'', OP_RESERVED), (''OP_1'', OP_1),
     (''OP_TRUE'', OP_TRUE), (''OP_2'', OP_2), (''OP_3'', OP_3), (''OP_4'', OP_4),
     (''OP_5'', OP_5), (''OP_6'', OP_6), (''OP_7'', OP_7), (''OP_8'', OP_8), (''OP_9'', OP_9),
     (''OP_10'', OP_10), (''OP_11'', OP_11), (''OP_12'', OP_12), (''OP_13'', OP_13),
     (''OP_14'', OP_14), (''OP_15'', OP_15), (''OP_16'', OP_16), (''OP_NOP'', OP_NOP),
     (''OP_VER'', OP_VER), (''OP_IF'', OP_IF), (''OP_NOTIF'', OP_NOTIF),
     (''OP_VERIF'', OP_VERIF), (''OP_VERNOTIF'', OP_VERNOTIF), (''OP_ELSE'', OP_ELSE),
     (''OP_ENDIF'', OP_ENDIF), (''OP_VERIFY'', OP_VERIFY), (''OP_RETURN'', OP_RETURN),
     (''OP_TOALTSTACK'', OP_TOALTSTACK), (''OP_FROMALTSTACK'', OP_FROMALTSTACK),
     (''OP_2DROP'', OP_2DROP), (''OP_2DUP'', OP_2DUP), (''OP_3DUP'', OP_3DUP),
     (''OP_2OVER'', OP_2OVER), (''OP_2ROT'', OP_2ROT), (''OP_2SWAP'', OP_2SWAP),
     (''OP_IFDUP'', OP_IFDUP), (''OP_DEPTH'', OP_DEPTH), (''OP_DROP'', OP_DROP),
     (''OP_DUP'', OP_DUP), (''OP_NIP'', OP_NIP), (''OP_OVER'', OP_OVER), (''OP_PICK'', OP_PICK),
     (''OP_ROLL'', OP_ROLL), (''OP_ROT'', OP_ROT), (''OP_SWAP'', OP_SWAP),
     (''OP_TUCK'', OP_TUCK), (''OP_CAT'', OP_CAT), (''OP_SUBSTR'', OP_SUBSTR),
     (''OP_LEFT'', OP_LEFT), (''OP_RIGHT'', OP_RIGHT), (''OP_SIZE'', OP_SIZE),
     (''OP_INVERT'', OP_INVERT), (''OP_AND'', OP_AND), (''OP_OR'', OP_OR), (''OP_XOR'', OP_XOR),
     (''OP_EQUAL'', OP_EQUAL), (''OP_EQUALVERIFY'', OP_EQUALVERIFY), (''OP_1ADD'', OP_1ADD),
     (''OP_1SUB'', OP_1SUB), (''OP_2MUL'', OP_2MUL), (''OP_2DIV'', OP_2DIV),
     (''OP_NEGATE'', OP_NEGATE), (''OP_ABS'', OP_ABS), (''OP_NOT'', OP_NOT),
     (''OP_0NOTEQUAL'', OP_0NOTEQUAL), (''OP_ADD'', OP_ADD), (''OP_SUB'', OP_SUB),
     (''OP_MUL'', OP_MUL), (''OP_DIV'', OP_DIV), (''OP_MOD'', OP_MOD),
     (''OP_LSHIFT'', OP_LSHIFT), (''OP_RSHIFT'', OP_RSHIFT), (''OP_BOOLAND'', OP_BOOLAND),
     (''OP_BOOLOR'', OP_BOOLOR), (''OP_NUMEQUAL'', OP_NUMEQUAL),
     (''OP_NUMEQUALVERIFY'', OP_NUMEQUALVERIFY), (''OP_NUMNOTEQUAL'', OP_NUMNOTEQUAL),
     (''OP_LESSTHAN'', OP_LESSTHAN), (''OP_GREATERTHAN'', OP_GREATERTHAN),
     (''OP_LESSTHANOREQUAL'', OP_LESSTHANOREQUAL),
     (''OP_GREATERTHANOREQUAL'', OP_GREATERTHANOREQUAL), (''OP_MIN'', OP_MIN),
     (''OP_MAX'', OP_MAX), (''OP_WITHIN'', OP_WITHIN), (''OP_RIPEMD160'', OP_RIPEMD160),
     (''OP_SHA1'', OP_SHA1), (''OP_SHA256'', OP_SHA256), (''OP_HASH160'', OP_HASH160),
     (''OP_HASH256'', OP_HASH256), (''OP_CODESEPARATOR'', OP_CODESEPARATOR),
     (''OP_CHECKSIG'', OP_CHECKSIG), (''OP_CHECKSIGVERIFY'', OP_CHECKSIGVERIFY),
     (''OP_CHECKMULTISIG'', OP_CHECKMULTISIG),
     (''OP_CHECKMULTISIGVERIFY'', OP_CHECKMULTISIGVERIFY), (''OP_NOP1'', OP_NOP1),
     (''OP_CHECKLOCKTIMEVERIFY'', OP_CHECKLOCKTIMEVERIFY),
     (''OP_CHECKSEQUENCEVERIFY'', OP_CHECKSEQUENCEVERIFY), (''OP_NOP4'', OP_NOP4),
     (''OP_NOP5'', OP_NOP5), (''OP_NOP6'', OP_NOP6), (''OP_NOP7'', OP_NOP7),
     (''OP_NOP8'', OP_NOP8), (''OP_NOP9'', OP_NOP9), (''OP_NOP10'', OP_NOP10),
     (''OP_BLOCKTIME'', OP_BLOCKTIME), (''OP_EXTERNALDATA'', OP_EXTERNALDATA),
     (''OP_DATAFEED'', OP_DATAFEED), (''OP_DELEGATECHECK'', OP_DELEGATECHECK),
     (''OP_CHAINSTATECHECK'', OP_CHAINSTATECHECK), (''OP_HASHBLAKE2B'', OP_HASHBLAKE2B),
     (''OP_SHA3'', OP_SHA3), (''OP_STORE'', OP_STORE), (''OP_LOAD'', OP_LOAD),
     (''OP_CALLER'', OP_CALLER), (''OP_CONTRACT_ADDR'', OP_CONTRACT_ADDR), (''OP_GAS'', OP_GAS),
     (''OP_HALT'', OP_HALT), (''OP_REVERT'', OP_REVERT), (''OP_OUTPUTAMOUNT'', OP_OUTPUTAMOUNT),
     (''OP_MINT_TOKEN'', OP_MINT_TOKEN), (''OP_TOKEN_BALANCE'', OP_TOKEN_BALANCE),
     (''OP_BURN_TOKEN'', OP_BURN_TOKEN), (''OP_NOVO_GENADDR'', OP_NOVO_GENADDR),
     (''OP_NOVO_DEPOSIT'', OP_NOVO_DEPOSIT), (''OP_NOVO_REDEEM'', OP_NOVO_REDEEM),
     (''OP_NOVO_VERIFY'', OP_NOVO_VERIFY), (''OP_BSTY_GENADDR'', OP_BSTY_GENADDR),
     (''OP_BSTY_DEPOSIT'', OP_BSTY_DEPOSIT), (''OP_BSTY_REDEEM'', OP_BSTY_REDEEM),
     (''OP_BSTY_VERIFY'', OP_BSTY_VERIFY), (''OP_UPGRADE_NOP1'', OP_UPGRADE_NOP1),
     (''OP_UPGRADE_NOP2'', OP_UPGRADE_NOP2), (''OP_CHECKWOTSVERIFY'', OP_CHECKWOTSVERIFY),
     (''OP_MARKETVERIFY'', OP_MARKETVERIFY), (''OP_UPGRADE_NOP3'', OP_UPGRADE_NOP3),
     (''OP_UPGRADE_NOP4'', OP_UPGRADE_NOP4), (''OP_UPGRADE_NOP5'', OP_UPGRADE_NOP5),
     (''OP_UPGRADE_NOP6'', OP_UPGRADE_NOP6), (''OP_UPGRADE_NOP7'', OP_UPGRADE_NOP7),
     (''OP_UPGRADE_NOP8'', OP_UPGRADE_NOP8), (''OP_INVALIDOPCODE'', OP_INVALIDOPCODE)]"

definition opcode_map09 :: "(string \<times> byte) list" where
  "opcode_map09 = [
     (''OP_0'', 0x00), (''OP_FALSE'', 0x00), (''OP_PUSHDATA1'', 0x4c), (''OP_PUSHDATA2'', 0x4d),
     (''OP_PUSHDATA4'', 0x4e), (''OP_1NEGATE'', 0x4f), (''OP_RESERVED'', 0x50), (''OP_1'', 0x51),
     (''OP_TRUE'', 0x51), (''OP_2'', 0x52), (''OP_3'', 0x53), (''OP_4'', 0x54), (''OP_5'', 0x55),
     (''OP_6'', 0x56), (''OP_7'', 0x57), (''OP_8'', 0x58), (''OP_9'', 0x59), (''OP_10'', 0x5a),
     (''OP_11'', 0x5b), (''OP_12'', 0x5c), (''OP_13'', 0x5d), (''OP_14'', 0x5e),
     (''OP_15'', 0x5f), (''OP_16'', 0x60), (''OP_NOP'', 0x61), (''OP_VER'', 0x62),
     (''OP_IF'', 0x63), (''OP_NOTIF'', 0x64), (''OP_VERIF'', 0x65), (''OP_VERNOTIF'', 0x66),
     (''OP_ELSE'', 0x67), (''OP_ENDIF'', 0x68), (''OP_VERIFY'', 0x69), (''OP_RETURN'', 0x6a),
     (''OP_TOALTSTACK'', 0x6b), (''OP_FROMALTSTACK'', 0x6c), (''OP_2DROP'', 0x6d),
     (''OP_2DUP'', 0x6e), (''OP_3DUP'', 0x6f), (''OP_2OVER'', 0x70), (''OP_2ROT'', 0x71),
     (''OP_2SWAP'', 0x72), (''OP_IFDUP'', 0x73), (''OP_DEPTH'', 0x74), (''OP_DROP'', 0x75),
     (''OP_DUP'', 0x76), (''OP_NIP'', 0x77), (''OP_OVER'', 0x78), (''OP_PICK'', 0x79),
     (''OP_ROLL'', 0x7a), (''OP_ROT'', 0x7b), (''OP_SWAP'', 0x7c), (''OP_TUCK'', 0x7d),
     (''OP_CAT'', 0x7e), (''OP_SUBSTR'', 0x7f), (''OP_LEFT'', 0x80), (''OP_RIGHT'', 0x81),
     (''OP_SIZE'', 0x82), (''OP_INVERT'', 0x83), (''OP_AND'', 0x84), (''OP_OR'', 0x85),
     (''OP_XOR'', 0x86), (''OP_EQUAL'', 0x87), (''OP_EQUALVERIFY'', 0x88), (''OP_1ADD'', 0x8b),
     (''OP_1SUB'', 0x8c), (''OP_2MUL'', 0x8d), (''OP_2DIV'', 0x8e), (''OP_NEGATE'', 0x8f),
     (''OP_ABS'', 0x90), (''OP_NOT'', 0x91), (''OP_0NOTEQUAL'', 0x92), (''OP_ADD'', 0x93),
     (''OP_SUB'', 0x94), (''OP_MUL'', 0x95), (''OP_DIV'', 0x96), (''OP_MOD'', 0x97),
     (''OP_LSHIFT'', 0x98), (''OP_RSHIFT'', 0x99), (''OP_BOOLAND'', 0x9a), (''OP_BOOLOR'', 0x9b),
     (''OP_NUMEQUAL'', 0x9c), (''OP_NUMEQUALVERIFY'', 0x9d), (''OP_NUMNOTEQUAL'', 0x9e),
     (''OP_LESSTHAN'', 0x9f), (''OP_GREATERTHAN'', 0xa0), (''OP_LESSTHANOREQUAL'', 0xa1),
     (''OP_GREATERTHANOREQUAL'', 0xa2), (''OP_MIN'', 0xa3), (''OP_MAX'', 0xa4),
     (''OP_WITHIN'', 0xa5), (''OP_RIPEMD160'', 0xa6), (''OP_SHA1'', 0xa7), (''OP_SHA256'', 0xa8),
     (''OP_HASH160'', 0xa9), (''OP_HASH256'', 0xaa), (''OP_CODESEPARATOR'', 0xab),
     (''OP_CHECKSIG'', 0xac), (''OP_CHECKSIGVERIFY'', 0xad), (''OP_CHECKMULTISIG'', 0xae),
     (''OP_CHECKMULTISIGVERIFY'', 0xaf), (''OP_NOP1'', 0xb0), (''OP_CHECKLOCKTIMEVERIFY'', 0xb1),
     (''OP_CHECKSEQUENCEVERIFY'', 0xb2), (''OP_NOP4'', 0xb3), (''OP_NOP5'', 0xb4),
     (''OP_NOP6'', 0xb5), (''OP_NOP7'', 0xb6), (''OP_NOP8'', 0xb7), (''OP_NOP9'', 0xb8),
     (''OP_NOP10'', 0xb9), (''OP_BLOCKTIME'', 0xf0), (''OP_EXTERNALDATA'', 0xf1),
     (''OP_DATAFEED'', 0xf2), (''OP_DELEGATECHECK'', 0xf3), (''OP_CHAINSTATECHECK'', 0xf4),
     (''OP_HASHBLAKE2B'', 0xf5), (''OP_SHA3'', 0xf6), (''OP_STORE'', 0xf7), (''OP_LOAD'', 0xf8),
     (''OP_CALLER'', 0xf9), (''OP_CONTRACT_ADDR'', 0xfa), (''OP_GAS'', 0xfb),
     (''OP_HALT'', 0xfc), (''OP_REVERT'', 0xfd), (''OP_OUTPUTAMOUNT'', 0xfe),
     (''OP_MINT_TOKEN'', 0xe0), (''OP_TOKEN_BALANCE'', 0xe1), (''OP_BURN_TOKEN'', 0xe2),
     (''OP_NOVO_GENADDR'', 0xb3), (''OP_NOVO_DEPOSIT'', 0xb4), (''OP_NOVO_REDEEM'', 0xb5),
     (''OP_NOVO_VERIFY'', 0xb6), (''OP_BSTY_GENADDR'', 0xb7), (''OP_BSTY_DEPOSIT'', 0xb8),
     (''OP_BSTY_REDEEM'', 0xb9), (''OP_BSTY_VERIFY'', 0xba), (''OP_UPGRADE_NOP1'', 0xbb),
     (''OP_UPGRADE_NOP2'', 0xbc), (''OP_CHECKWOTSVERIFY'', 0xbb), (''OP_MARKETVERIFY'', 0xbc),
     (''OP_UPGRADE_NOP3'', 0xbd), (''OP_UPGRADE_NOP4'', 0xbe), (''OP_UPGRADE_NOP5'', 0xbf),
     (''OP_UPGRADE_NOP6'', 0xc0), (''OP_UPGRADE_NOP7'', 0xc1), (''OP_UPGRADE_NOP8'', 0xc2),
     (''OP_INVALIDOPCODE'', 0xff)]"

text \<open>Every static assertion holds of the enum, and no enumerator is left out of the map.\<close>

lemma opcode_map_frozen: "OpCode = opcode_map09"
  unfolding OpCode_def opcode_map09_def by (rule refl)

subsection \<open>Activation heights\<close>

definition NEVER :: u32 where "NEVER = - 1"
definition ACTIVATION_HEIGHT :: u32 where "ACTIVATION_HEIGHT = 50000"
definition WOTS_HEIGHT :: u32 where "WOTS_HEIGHT = ACTIVATION_HEIGHT"
definition MARKET_HEIGHT :: u32 where "MARKET_HEIGHT = ACTIVATION_HEIGHT"
definition OPSIZE_HEIGHT :: u32 where "OPSIZE_HEIGHT = ACTIVATION_HEIGHT"
definition COMMITMENT_HEIGHT :: u32 where "COMMITMENT_HEIGHT = ACTIVATION_HEIGHT"
definition WOTS_GAS :: u64 where "WOTS_GAS = 125000"
definition WOTS_SIGOPS :: u64 where "WOTS_SIGOPS = 256"
definition MARKET_GAS :: u64 where "MARKET_GAS = 25000"
definition MARKET_SIGOPS :: u64 where "MARKET_SIGOPS = 20"

lemmas height_defs =
  NEVER_def ACTIVATION_HEIGHT_def WOTS_HEIGHT_def MARKET_HEIGHT_def OPSIZE_HEIGHT_def
  COMMITMENT_HEIGHT_def

definition active :: "u32 \<Rightarrow> u32 \<Rightarrow> bool" where
  "active h at \<longleftrightarrow> at \<noteq> NEVER \<and> h \<ge> at"

lemma active_iff:
  "active h WOTS_HEIGHT \<longleftrightarrow> 50000 \<le> h" "active h MARKET_HEIGHT \<longleftrightarrow> 50000 \<le> h"
  "active h OPSIZE_HEIGHT \<longleftrightarrow> 50000 \<le> h" "active h COMMITMENT_HEIGHT \<longleftrightarrow> 50000 \<le> h"
  by (simp_all add: active_def height_defs)

text \<open>A rule that is active stays active at every later height.\<close>

lemma active_mono: "active h at \<Longrightarrow> h \<le> h' \<Longrightarrow> active h' at"
  by (auto simp: active_def)

subsection \<open>\<open>OP_SIZE\<close> values\<close>

text \<open>\<open>size_loop\<close> is the \<open>while (n)\<close> loop of \<open>sizeValue\<close>.\<close>

function size_loop :: "u64 \<Rightarrow> bytes" where
  "size_loop n = (if n = 0 then [] else ucast n # size_loop (drop_bit 8 n))"
  by auto
termination
proof (relation "measure unat")
  fix n :: u64 assume "n \<noteq> 0"
  then have "0 < unat n" by (simp add: unat_gt_0)
  then have "unat n div 256 < unat n" by simp
  then show "(drop_bit 8 n, n) \<in> measure unat"
    by (simp add: unat_drop_bit_eq del: drop_bit_eq_div) (simp add: drop_bit_eq_div)
qed simp

declare size_loop.simps [simp del]

definition sizeValue :: "u64 \<Rightarrow> u32 \<Rightarrow> bytes" where
  "sizeValue n h = (if \<not> active h OPSIZE_HEIGHT then [ucast n] else size_loop n)"

lemma size_loop_0 [simp]: "size_loop 0 = []"
  by (subst size_loop.simps) simp

lemma low_byte_or_rest: "ucast (ucast n :: byte) OR push_bit 8 (drop_bit 8 n) = (n :: u64)"
proof (rule bit_word_eqI)
  fix i assume "i < LENGTH(64)"
  then show "bit (ucast (ucast n :: byte) OR push_bit 8 (drop_bit 8 n)) i = bit n i"
    by (cases "i < 8") (auto simp: bit_or_iff bit_push_bit_iff bit_ucast_iff bit_drop_bit_eq)
qed

lemma le_val_size_loop [codec_simps]: "le_val (size_loop n) = n"
proof (induction n rule: size_loop.induct)
  case (1 n)
  show ?case
  proof (cases "n = 0")
    case False
    show ?thesis using 1 False
      by (subst size_loop.simps) (simp add: low_byte_or_rest)
  qed simp
qed

lemma size_loop_minimal: "size_loop n \<noteq> [] \<Longrightarrow> last (size_loop n) \<noteq> 0"
proof (induction n rule: size_loop.induct)
  case (1 n)
  show ?case
  proof (cases "drop_bit 8 n = 0")
    case True
    have n: "n \<noteq> 0" using 1(2) by auto
    have "ucast n \<noteq> (0 :: byte)"
    proof
      assume z: "ucast n = (0 :: byte)"
      show False using low_byte_or_rest [of n] z True n by (simp del: drop_bit_eq_div)
    qed
    then show ?thesis using True n by (subst size_loop.simps) simp
  next
    case False
    then have "n \<noteq> 0" by auto
    moreover have "size_loop (drop_bit 8 n) \<noteq> []" using False by (subst size_loop.simps) simp
    ultimately show ?thesis using 1(1) by (subst size_loop.simps) simp
  qed
qed

lemma length_size_loop: "unat n < 256 ^ k \<Longrightarrow> length (size_loop n) \<le> k"
proof (induction k arbitrary: n)
  case 0
  then have "n = 0" by (simp add: unat_eq_zero)
  then show ?case by simp
next
  case (Suc k)
  have "unat (drop_bit 8 n) < 256 ^ k"
    using Suc.prems unfolding unat_drop_bit_eq
    by (simp add: drop_bit_eq_div less_mult_imp_div_less mult.commute)
  then show ?case using Suc.IH by (subst size_loop.simps) simp
qed

lemma size_low_byte: "ucast (ucast (n :: u64) :: byte) = n AND 0xFF"
proof (rule bit_word_eqI)
  fix i assume "i < LENGTH(64)"
  have "n AND 0xFF = take_bit 8 n" by (simp add: take_bit_eq_mask mask_eq_exp_minus_1)
  then show "bit (ucast (ucast n :: byte) :: u64) i = bit (n AND 0xFF) i"
    using \<open>i < LENGTH(64)\<close> by (auto simp: bit_ucast_iff bit_take_bit_iff)
qed

text \<open>
  From the activation height on, the number pushed by \<open>OP_SIZE\<close> is the minimal unsigned
  little-endian encoding of the size: it reads back as the size, is empty for zero, has no
  redundant high zero byte and takes at most 8 bytes. Before activation it is one byte, which
  is the size modulo 256 only.
\<close>

theorem size_value_minimal:
  "(50000 \<le> h \<longrightarrow>
      le_val (sizeValue n h) = n \<and> (sizeValue n h = [] \<longleftrightarrow> n = 0) \<and>
      (sizeValue n h = [] \<or> last (sizeValue n h) \<noteq> 0) \<and> length (sizeValue n h) \<le> 8) \<and>
   (h < 50000 \<longrightarrow>
      length (sizeValue n h) = 1 \<and> le_val (sizeValue n h) = (n AND 0xFF))"
proof (intro conjI impI)
  assume "50000 \<le> h"
  then have s: "sizeValue n h = size_loop n" by (simp add: sizeValue_def active_iff)
  show "le_val (sizeValue n h) = n" by (simp add: s le_val_size_loop)
  show "sizeValue n h = [] \<longleftrightarrow> n = 0" unfolding s by (subst size_loop.simps) simp
  show "sizeValue n h = [] \<or> last (sizeValue n h) \<noteq> 0" unfolding s using size_loop_minimal by blast
  have "unat n < 256 ^ 8" using unsigned_less [where 'a = nat, of n] by simp
  then show "length (sizeValue n h) \<le> 8" unfolding s by (rule length_size_loop)
next
  assume "h < 50000"
  then have s: "sizeValue n h = [ucast n]" by (simp add: sizeValue_def active_iff not_le)
  show "length (sizeValue n h) = 1" by (simp add: s)
  show "le_val (sizeValue n h) = (n AND 0xFF)"
    unfolding s by (simp add: size_low_byte)
qed

theorem size_value_minimal_witness:
  "le_val (sizeValue 300 60000) = (300 :: u64) \<and> le_val (sizeValue 300 7) = (44 :: u64)"
  using size_value_minimal [of 60000 300] size_value_minimal [of 7 300] by simp

end
