(* ===== verification/Lineage.thy ===== *)
theory Lineage
  imports State_Limits
begin

text \<open>
  Canonical contract identities and durable key shapes (\<open>contract_state_lineage.h\<close>): a
  contract instance is the outpoint text \<open>txid:vout\<close>, and every durable LevelDB key of the
  contract store is built from such an outpoint, a family prefix and, for state entries, the
  hex encoding of the logical key. An empty result is the code's refusal.
\<close>

definition IsAsciiHexDigit :: "char \<Rightarrow> bool" where
  "IsAsciiHexDigit ch \<longleftrightarrow>
     (CHR ''0'' \<le> ch \<and> ch \<le> CHR ''9'') \<or> (CHR ''a'' \<le> ch \<and> ch \<le> CHR ''f'') \<or>
     (CHR ''A'' \<le> ch \<and> ch \<le> CHR ''F'')"

definition ToLowerAsciiHex :: "char \<Rightarrow> char" where
  "ToLowerAsciiHex ch =
     (if CHR ''A'' \<le> ch \<and> ch \<le> CHR ''F''
      then char_of (of_char ch - of_char (CHR ''A'') + of_char (CHR ''a'') :: nat) else ch)"

definition IsHex64 :: "string \<Rightarrow> bool" where
  "IsHex64 s \<longleftrightarrow> length s = 64 \<and> list_all IsAsciiHexDigit s"

definition LowerHex64 :: "string \<Rightarrow> string" where
  "LowerHex64 s = (if \<not> IsHex64 s then [] else map ToLowerAsciiHex s)"

definition BuildCanonicalContractOutpoint :: "string \<Rightarrow> u32 \<Rightarrow> string" where
  "BuildCanonicalContractOutpoint txid vout =
     (let canonicalTxid = LowerHex64 txid in
      if canonicalTxid = [] then [] else canonicalTxid @ '':'' @ dec_string (unat vout))"

definition str_find :: "char \<Rightarrow> nat \<Rightarrow> string \<Rightarrow> nat option" where
  "str_find c start s =
     (let n = start + length (takeWhile (\<lambda>x. x \<noteq> c) (drop start s)) in
      if n < length s then Some n else None)"

fun parse_vout :: "u64 \<Rightarrow> string \<Rightarrow> u64 option" where
  "parse_vout parsed [] = Some parsed"
| "parse_vout parsed (ch # rest) =
     (if ch < CHR ''0'' \<or> ch > CHR ''9'' then None
      else
        let digit = word_of_nat (digit_value ch) in
        if parsed > (0xFFFFFFFF - digit) div 10 then None
        else parse_vout (parsed * 10 + digit) rest)"

definition ParseCanonicalContractOutpoint :: "string \<Rightarrow> (string \<times> u32) option" where
  "ParseCanonicalContractOutpoint outpoint =
     (if str_find (CHR '':'') 0 outpoint \<noteq> Some 64 \<or> str_find (CHR '':'') 65 outpoint \<noteq> None
      then None
      else
        let canonicalTxid = LowerHex64 (take 64 outpoint) in
        if canonicalTxid = [] then None
        else
          let voutText = drop 65 outpoint in
          if voutText = [] then None
          else if length voutText > 1 \<and> hd voutText = CHR ''0'' then None
          else map_option (\<lambda>parsed. (canonicalTxid, ucast parsed)) (parse_vout 0 voutText))"

definition IsCanonicalContractOutpoint :: "string \<Rightarrow> bool" where
  "IsCanonicalContractOutpoint outpoint =
     (case ParseCanonicalContractOutpoint outpoint of
        None \<Rightarrow> False
      | Some (txid, vout) \<Rightarrow> outpoint = BuildCanonicalContractOutpoint txid vout)"

definition BuildContractLineageKey :: "string \<Rightarrow> string" where
  "BuildContractLineageKey currentOutpoint =
     (if \<not> IsCanonicalContractOutpoint currentOutpoint then []
      else ''contractlineage:'' @ currentOutpoint)"

definition BuildContractLiveKey :: "string \<Rightarrow> string" where
  "BuildContractLiveKey stateDomain =
     (if \<not> IsCanonicalContractOutpoint stateDomain then [] else ''contractlive:'' @ stateDomain)"

definition BuildContractOwnerKey :: "string \<Rightarrow> string" where
  "BuildContractOwnerKey stateDomain =
     (if \<not> IsCanonicalContractOutpoint stateDomain then [] else ''contractowner:'' @ stateDomain)"

definition BuildContractFamilyKey :: "string \<Rightarrow> string" where
  "BuildContractFamilyKey stateDomain =
     (if \<not> IsCanonicalContractOutpoint stateDomain then [] else ''contractfamily:'' @ stateDomain)"

definition HexEncodeLogicalKey :: "string \<Rightarrow> string" where
  "HexEncodeLogicalKey logicalKey =
     (if logicalKey = [] then []
      else if length logicalKey > (2 ^ 64 - 1) div 2 then []
      else hex_encode (bytes_of_string logicalKey))"

definition BuildContractStatePrefix :: "string \<Rightarrow> string" where
  "BuildContractStatePrefix stateDomain =
     (if \<not> IsCanonicalContractOutpoint stateDomain then []
      else ''contractstate:'' @ stateDomain @ '':'')"

definition BuildContractStateKey :: "string \<Rightarrow> string \<Rightarrow> string" where
  "BuildContractStateKey stateDomain logicalKey =
     (if \<not> IsLogicalKeyAllowed logicalKey then []
      else
        let pre = BuildContractStatePrefix stateDomain;
            encodedKey = HexEncodeLogicalKey logicalKey in
        if pre = [] \<or> encodedKey = [] then [] else pre @ encodedKey)"

definition BuildContractIdentity :: "string \<Rightarrow> u32 \<Rightarrow> string" where
  "BuildContractIdentity txid vout =
     (if txid = [] then [] else txid @ '':'' @ dec_string (unat vout))"

subsection \<open>Outpoint text\<close>

lemma IsAsciiHexDigit_iff:
  "IsAsciiHexDigit c \<longleftrightarrow> (48 \<le> (of_char c :: nat) \<and> of_char c \<le> (57 :: nat)) \<or>
     (97 \<le> (of_char c :: nat) \<and> of_char c \<le> (102 :: nat)) \<or>
     (65 \<le> (of_char c :: nat) \<and> of_char c \<le> (70 :: nat))"
  by (simp add: IsAsciiHexDigit_def less_eq_char_def)

lemma is_lower_hex_iff:
  "is_lower_hex c \<longleftrightarrow> (48 \<le> (of_char c :: nat) \<and> of_char c \<le> (57 :: nat)) \<or>
     (97 \<le> (of_char c :: nat) \<and> of_char c \<le> (102 :: nat))"
  by (simp add: is_lower_hex_def is_digit_iff less_eq_char_def)

lemma ToLowerAsciiHex_lower [simp]: "IsAsciiHexDigit c \<Longrightarrow> is_lower_hex (ToLowerAsciiHex c)"
  by (auto simp: IsAsciiHexDigit_iff is_lower_hex_iff ToLowerAsciiHex_def less_eq_char_def)

lemma ToLowerAsciiHex_id [simp]: "is_lower_hex c \<Longrightarrow> ToLowerAsciiHex c = c"
  by (auto simp: is_lower_hex_iff ToLowerAsciiHex_def less_eq_char_def)

lemma is_lower_hex_AsciiHex: "is_lower_hex c \<Longrightarrow> IsAsciiHexDigit c"
  by (auto simp: is_lower_hex_iff IsAsciiHexDigit_iff)

lemma LowerHex64_id: "length s = 64 \<Longrightarrow> hex_lower s \<Longrightarrow> LowerHex64 s = s"
  by (auto simp: LowerHex64_def IsHex64_def hex_lower_def list_all_iff is_lower_hex_AsciiHex map_idI)

lemma LowerHex64_nonempty:
  assumes "LowerHex64 s \<noteq> []"
  shows "IsHex64 s" and "length (LowerHex64 s) = 64" and "hex_lower (LowerHex64 s)"
  using assms by (auto simp: LowerHex64_def IsHex64_def hex_lower_def list_all_iff split: if_splits)

lemma LowerHex64_empty_iff: "LowerHex64 s = [] \<longleftrightarrow> \<not> IsHex64 s"
  by (auto simp: LowerHex64_def IsHex64_def)

lemma not_digit_iff: "(ch < CHR ''0'' \<or> ch > CHR ''9'') \<longleftrightarrow> \<not> is_digit ch"
  by (auto simp: is_digit_def)

lemma parse_vout_eq:
  assumes "unat p < 2 ^ 32"
  shows "parse_vout p s =
    (let v = foldl (\<lambda>v c. v * 10 + digit_value c) (unat p) s
     in if list_all is_digit s \<and> v < 2 ^ 32 then Some (word_of_nat v) else None)"
  using assms
proof (induction s arbitrary: p)
  case Nil
  then show ?case by simp
next
  case (Cons c s)
  show ?case
  proof (cases "is_digit c")
    case False
    then show ?thesis using not_digit_iff by (simp add: Let_def)
  next
    case d: True
    let ?d = "word_of_nat (digit_value c) :: u64"
    have dv: "digit_value c < 10" using d by (rule digit_value_less)
    then have ud: "unat ?d = digit_value c" by (subst unat_of_nat) simp
    have le: "?d \<le> 0xFFFFFFFF" using dv ud by (simp add: word_le_nat_alt)
    have g: "p \<le> (0xFFFFFFFF - ?d) div 10 \<longleftrightarrow> unat p * 10 + digit_value c < 2 ^ 32"
    proof -
      have "p \<le> (0xFFFFFFFF - ?d) div 10 \<longleftrightarrow> unat p \<le> (0xFFFFFFFF - digit_value c) div 10"
        unfolding word_le_nat_alt unat_div_distrib unat_sub [OF le] ud by simp
      also have "\<dots> \<longleftrightarrow> unat p * 10 + digit_value c < 2 ^ 32"
        using dv by (simp add: less_eq_div_iff_mult_less_eq) linarith
      finally show ?thesis .
    qed
    show ?thesis
    proof (cases "unat p * 10 + digit_value c < 2 ^ 32")
      case True
      then have "unat (p * 10 + ?d) = unat p * 10 + digit_value c"
        using ud Cons.prems by (simp add: unat_word_ariths)
      moreover have "\<not> (0xFFFFFFFF - ?d) div 10 < p" using g True by (simp add: not_less)
      ultimately show ?thesis
        using Cons.IH [of "p * 10 + ?d"] True d not_digit_iff [of c]
        by (simp add: Let_def del: of_nat_numeral)
    next
      case False
      then have "\<not> foldl (\<lambda>v c. v * 10 + digit_value c) (unat p * 10 + digit_value c) s < 2 ^ 32"
        using foldl_dec_mono [of "unat p * 10 + digit_value c" s] by linarith
      moreover have "(0xFFFFFFFF - ?d) div 10 < p" using False g by (simp add: not_le)
      ultimately show ?thesis using d not_digit_iff [of c] by (simp add: Let_def)
    qed
  qed
qed

lemma str_find_first: "c \<notin> set a \<Longrightarrow> str_find c 0 (a @ c # b) = Some (length a)"
  by (simp add: str_find_def takeWhile_neq_append)

lemma str_find_None: "c \<notin> set (drop n s) \<Longrightarrow> n \<le> length s \<Longrightarrow> str_find c n s = None"
  by (simp add: str_find_def takeWhile_neq_id)

lemma str_find_SomeD:
  assumes "str_find c 0 s = Some n"
  shows "s = take n s @ c # drop (Suc n) s" and "n < length s"
proof -
  have n: "n = length (takeWhile (\<lambda>x. x \<noteq> c) s)" "n < length s"
    using assms by (auto simp: str_find_def Let_def split: if_splits)
  show "n < length s" by (rule n)
  have "s ! n = c" using nth_length_takeWhile [of "\<lambda>x. x \<noteq> c" s] n by simp
  then show "s = take n s @ c # drop (Suc n) s" using n(2) by (metis id_take_nth_drop)
qed

lemma lower_hex_no_colon: "hex_lower s \<Longrightarrow> CHR '':'' \<notin> set s"
  by (auto simp: hex_lower_def list_all_iff is_lower_hex_iff)

lemma digits_no_colon: "list_all is_digit s \<Longrightarrow> CHR '':'' \<notin> set s"
  by (auto simp: list_all_iff is_digit_iff)

lemma dec_string_leading: "1 < length (dec_string n) \<Longrightarrow> hd (dec_string n) \<noteq> CHR ''0''"
proof (cases "n = 0")
  case True
  moreover have "dec_string 0 = ''0''" by code_simp
  ultimately show "1 < length (dec_string n) \<Longrightarrow> hd (dec_string n) \<noteq> CHR ''0''" by simp
qed (simp add: dec_string_no_leading_zero)

lemma parse_build_outpoint [codec_simps]:
  assumes "LowerHex64 txid \<noteq> []"
  shows "ParseCanonicalContractOutpoint (BuildCanonicalContractOutpoint txid vout) =
    Some (LowerHex64 txid, vout)"
proof -
  let ?t = "LowerHex64 txid" and ?v = "dec_string (unat vout)"
  have t: "length ?t = 64" "hex_lower ?t" using LowerHex64_nonempty [OF assms] by auto
  have b: "BuildCanonicalContractOutpoint txid vout = ?t @ '':'' @ ?v"
    using assms by (simp add: BuildCanonicalContractOutpoint_def)
  have v: "list_all is_digit ?v" by (rule dec_string_digits)
  have lt: "unat vout < 2 ^ 32" using unsigned_less [where 'a = nat, of vout] by simp
  have pv: "parse_vout 0 ?v = Some (word_of_nat (unat vout))"
    using parse_vout_eq [of 0 ?v] v lt dec_value_dec_string [of "unat vout"]
    by (simp add: dec_value_def del: dec_value_dec_string)
  have find: "str_find (CHR '':'') 0 (?t @ '':'' @ ?v) = Some 64"
    using str_find_first [OF lower_hex_no_colon [OF t(2)], of ?v] t(1) by simp
  have nf: "str_find (CHR '':'') 65 (?t @ '':'' @ ?v) = None"
    using digits_no_colon [OF v] t(1) by (intro str_find_None) simp_all
  have tk: "take 64 (?t @ '':'' @ ?v) = ?t" "drop 65 (?t @ '':'' @ ?v) = ?v" using t(1) by simp_all
  have lz: "\<not> (1 < length ?v \<and> hd ?v = CHR ''0'')" using dec_string_leading by blast
  have u: "ucast (word_of_nat (unat vout) :: u64) = vout"
    by (rule ucast_of_unat) simp
  show ?thesis
    unfolding ParseCanonicalContractOutpoint_def b Let_def find nf tk LowerHex64_id [OF t] pv
    using assms lz u by simp
qed

definition outpoint_text :: "string \<Rightarrow> u32 \<Rightarrow> string" where
  "outpoint_text txid vout = txid @ '':'' @ dec_string (unat vout)"

lemma canonical_outpoint_iff:
  "IsCanonicalContractOutpoint s \<longleftrightarrow>
     (\<exists>txid vout. length txid = 64 \<and> hex_lower txid \<and> s = outpoint_text txid vout)"
proof
  assume "IsCanonicalContractOutpoint s"
  then obtain txid vout where p: "ParseCanonicalContractOutpoint s = Some (txid, vout)"
    and s: "s = BuildCanonicalContractOutpoint txid vout"
    by (auto simp: IsCanonicalContractOutpoint_def split: option.splits)
  from p have "txid = LowerHex64 (take 64 s)" "txid \<noteq> []"
    by (auto simp: ParseCanonicalContractOutpoint_def Let_def split: if_splits)
  then have t: "length txid = 64" "hex_lower txid" using LowerHex64_nonempty by auto
  then have "s = outpoint_text txid vout"
    unfolding s outpoint_text_def BuildCanonicalContractOutpoint_def using LowerHex64_id [OF t]
    by (auto simp: Let_def)
  with t show "\<exists>txid vout. length txid = 64 \<and> hex_lower txid \<and> s = outpoint_text txid vout" by blast
next
  assume "\<exists>txid vout. length txid = 64 \<and> hex_lower txid \<and> s = outpoint_text txid vout"
  then obtain txid vout where t: "length txid = 64" "hex_lower txid"
    and s: "s = outpoint_text txid vout" by blast
  have l: "LowerHex64 txid = txid" "txid \<noteq> []" using LowerHex64_id [OF t] t by auto
  then have "s = BuildCanonicalContractOutpoint txid vout"
    by (simp add: s outpoint_text_def BuildCanonicalContractOutpoint_def)
  then show "IsCanonicalContractOutpoint s"
    using parse_build_outpoint [of txid vout] l by (simp add: IsCanonicalContractOutpoint_def)
qed

text \<open>
  Canonical outpoints are exactly the texts \<open>txid:vout\<close> with 64 lower-case hex digits and a
  32-bit index in decimal without leading zeros; building then parsing gives back the identity,
  and two different identities never share a text.
\<close>

theorem outpoint_canonical_form:
  "(IsCanonicalContractOutpoint s \<longleftrightarrow>
      (\<exists>txid vout. length txid = 64 \<and> hex_lower txid \<and>
         s = txid @ '':'' @ dec_string (unat (vout :: u32)))) \<and>
   (LowerHex64 t = [] \<or>
      ParseCanonicalContractOutpoint (BuildCanonicalContractOutpoint t v) = Some (LowerHex64 t, v)) \<and>
   (IsHex64 t \<longleftrightarrow> BuildCanonicalContractOutpoint t v \<noteq> [])"
  using canonical_outpoint_iff [of s] parse_build_outpoint [of t v] LowerHex64_empty_iff [of t]
  by (auto simp: outpoint_text_def BuildCanonicalContractOutpoint_def Let_def)

subsection \<open>Durable keys\<close>

text \<open>The key families of the contract store, as one datatype of durable records.\<close>

datatype durable_record =
    Lineage string
  | Live string
  | Owner string
  | Family string
  | StateEntry string string

fun durable_key :: "durable_record \<Rightarrow> string" where
  "durable_key (Lineage outpoint) = BuildContractLineageKey outpoint"
| "durable_key (Live domain) = BuildContractLiveKey domain"
| "durable_key (Owner domain) = BuildContractOwnerKey domain"
| "durable_key (Family domain) = BuildContractFamilyKey domain"
| "durable_key (StateEntry domain key) = BuildContractStateKey domain key"

lemmas key_defs =
  BuildContractLineageKey_def BuildContractLiveKey_def BuildContractOwnerKey_def
  BuildContractFamilyKey_def BuildContractStateKey_def BuildContractStatePrefix_def

lemma IsLogicalKeyAllowed_encode:
  assumes "IsLogicalKeyAllowed k"
  shows "HexEncodeLogicalKey k = hex_encode (bytes_of_string k)" and "HexEncodeLogicalKey k \<noteq> []"
  using assms by (auto simp: IsLogicalKeyAllowed_def HexEncodeLogicalKey_def MAX_LOGICAL_KEY_BYTES_def)
     (cases k; simp)

lemma state_key_eq:
  "BuildContractStateKey d k =
     (if IsLogicalKeyAllowed k \<and> IsCanonicalContractOutpoint d
      then ''contractstate:'' @ d @ '':'' @ hex_encode (bytes_of_string k) else [])"
  using IsLogicalKeyAllowed_encode [of k] by (auto simp: key_defs Let_def)

lemma canonical_colon_count:
  assumes "IsCanonicalContractOutpoint d"
  shows "count_list d (CHR '':'') = 1"
  using assms lower_hex_no_colon digits_no_colon [OF dec_string_digits]
  by (auto simp: canonical_outpoint_iff outpoint_text_def count_list_0_iff)

lemma canonical_domain_split:
  assumes "IsCanonicalContractOutpoint d" "IsCanonicalContractOutpoint d'"
    and "CHR '':'' \<notin> set h" "CHR '':'' \<notin> set h'"
    and "d @ '':'' @ h = d' @ '':'' @ h'"
  shows "d = d' \<and> h = h'"
proof -
  have "rev (d @ '':'' @ h) = rev (d' @ '':'' @ h')" using assms(5) by simp
  then have e: "rev h @ CHR '':'' # rev d = rev h' @ CHR '':'' # rev d'" by simp
  have "takeWhile (\<lambda>x. x \<noteq> CHR '':'') (rev h @ CHR '':'' # rev d) = rev h"
    "takeWhile (\<lambda>x. x \<noteq> CHR '':'') (rev h' @ CHR '':'' # rev d') = rev h'"
    using assms(3,4) by (simp_all add: takeWhile_neq_append)
  then have "rev h = rev h'" using e by metis
  then show ?thesis using e by simp
qed

fun family_tag :: "durable_record \<Rightarrow> string" where
  "family_tag (Lineage _) = ''contractlineage''"
| "family_tag (Live _) = ''contractlive''"
| "family_tag (Owner _) = ''contractowner''"
| "family_tag (Family _) = ''contractfamily''"
| "family_tag (StateEntry _ _) = ''contractstate''"

fun record_body :: "durable_record \<Rightarrow> string" where
  "record_body (Lineage d) = d"
| "record_body (Live d) = d"
| "record_body (Owner d) = d"
| "record_body (Family d) = d"
| "record_body (StateEntry d k) = d @ '':'' @ hex_encode (bytes_of_string k)"

fun record_ok :: "durable_record \<Rightarrow> bool" where
  "record_ok (StateEntry d k) \<longleftrightarrow> IsLogicalKeyAllowed k \<and> IsCanonicalContractOutpoint d"
| "record_ok (Lineage d) \<longleftrightarrow> IsCanonicalContractOutpoint d"
| "record_ok (Live d) \<longleftrightarrow> IsCanonicalContractOutpoint d"
| "record_ok (Owner d) \<longleftrightarrow> IsCanonicalContractOutpoint d"
| "record_ok (Family d) \<longleftrightarrow> IsCanonicalContractOutpoint d"

lemma durable_key_eq:
  "durable_key r = (if record_ok r then family_tag r @ CHR '':'' # record_body r else [])"
  by (cases r) (simp_all add: key_defs(1-4) state_key_eq)

lemma family_tag_no_colon: "CHR '':'' \<notin> set (family_tag r)"
  by (cases r) simp_all

text \<open>
  Durable keys never collide. Two records whose keys are accepted have the same key only
  if they are the same record: the families are disjoint, and within the state family the key
  determines both the domain and the logical key, whatever bytes the logical key holds.
\<close>

theorem durable_key_injective:
  assumes "durable_key a \<noteq> []" and "durable_key a = durable_key b"
  shows "a = b"
proof -
  have ok: "record_ok a" "record_ok b" and
    eq: "family_tag a @ CHR '':'' # record_body a = family_tag b @ CHR '':'' # record_body b"
    using assms by (auto simp: durable_key_eq split: if_splits)
  have tag: "family_tag a = family_tag b"
    using arg_cong [OF eq, of "takeWhile (\<lambda>x. x \<noteq> CHR '':'')"]
    by (simp add: takeWhile_neq_append family_tag_no_colon)
  with eq have body: "record_body a = record_body b" by simp
  have nc: "CHR '':'' \<notin> set (hex_encode (bytes_of_string k))" for k
    using lower_hex_no_colon [OF hex_lower_encode] .
  show ?thesis
  proof (cases a)
    case (StateEntry d k)
    with tag obtain d' k' where b: "b = StateEntry d' k'" by (cases b) simp_all
    show ?thesis
      using canonical_domain_split [OF _ _ nc nc, of d d' k k'] ok body by (simp add: StateEntry b)
  qed (use tag body in \<open>cases b; simp\<close>)+
qed

theorem durable_key_injective_witness:
  "StateEntry (outpoint_text (replicate 64 (CHR ''a'')) 7) ''x'' =
   StateEntry (outpoint_text (replicate 64 (CHR ''a'')) 7) ''x''"
proof (rule durable_key_injective)
  have "IsCanonicalContractOutpoint (outpoint_text (replicate 64 (CHR ''a'')) 7)"
    unfolding canonical_outpoint_iff hex_lower_def list_all_iff
    by (intro exI conjI) (auto simp: is_lower_hex_iff)
  then show "durable_key (StateEntry (outpoint_text (replicate 64 (CHR ''a'')) 7) ''x'') \<noteq> []"
    by (simp add: state_key_eq IsLogicalKeyAllowed_def MAX_LOGICAL_KEY_BYTES_def)
qed (rule refl)

end
