(* ===== verification/Codec.thy ===== *)
theory Codec
  imports Prelude
begin

text \<open>
  The contracts of the wire formats. A \<open>codec\<close> is a partial writer and a strict reader that
  are inverse to each other in both directions, which is what a consensus format needs: every
  value written reads back, and no two byte strings read as the same value. A \<open>framed_codec\<close>
  puts a payload into an outer format; \<open>stream_codec\<close> is the contract of a field read from
  the front of a buffer.
\<close>

locale codec =
  fixes enc :: "'a \<Rightarrow> 'b option" and dec :: "'b \<Rightarrow> 'a option"
  assumes dec_enc: "enc a = Some b \<Longrightarrow> dec b = Some a"
    and enc_dec: "dec b = Some a \<Longrightarrow> enc a = Some b"
begin

lemma enc_iff_dec: "enc a = Some b \<longleftrightarrow> dec b = Some a"
  using dec_enc enc_dec by blast

lemma enc_inject: "enc a = Some b \<Longrightarrow> enc a' = Some b \<Longrightarrow> a = a'"
  using dec_enc [of a b] dec_enc [of a' b] by simp

lemma dec_inject: "dec b = Some a \<Longrightarrow> dec b' = Some a \<Longrightarrow> b = b'"
  using enc_dec [of b a] enc_dec [of b' a] by simp

lemma dec_range: "(\<exists>a. dec b = Some a) \<longleftrightarrow> (\<exists>a. enc a = Some b)"
  using enc_iff_dec by simp

end

locale framed_codec = codec enc dec
  for enc :: "'a \<Rightarrow> 'b option" and dec :: "'b \<Rightarrow> 'a option" +
  fixes frame :: "'b \<Rightarrow> 'c option" and unframe :: "'c \<Rightarrow> 'b option"
  assumes unframe_frame: "enc a = Some b \<Longrightarrow> frame b = Some c \<Longrightarrow> unframe c = Some b"
    and frame_unframe: "unframe c = Some b \<Longrightarrow> dec b = Some a \<Longrightarrow> frame b = Some c"
begin

definition enc_framed :: "'a \<Rightarrow> 'c option" where
  "enc_framed a = (case enc a of None \<Rightarrow> None | Some b \<Rightarrow> frame b)"

definition dec_framed :: "'c \<Rightarrow> 'a option" where
  "dec_framed c = (case unframe c of None \<Rightarrow> None | Some b \<Rightarrow> dec b)"

lemma framed_dec_enc: "enc_framed a = Some c \<Longrightarrow> dec_framed c = Some a"
  by (auto simp: enc_framed_def dec_framed_def dec_enc unframe_frame split: option.splits)

lemma framed_enc_dec: "dec_framed c = Some a \<Longrightarrow> enc_framed a = Some c"
  by (auto simp: enc_framed_def dec_framed_def enc_dec frame_unframe split: option.splits)

end

sublocale framed_codec \<subseteq> framed: codec enc_framed dec_framed
  by unfold_locales (rule framed_dec_enc framed_enc_dec; assumption)+

text \<open>Reading \<open>n\<close> items one after another from the front of a buffer.\<close>

primrec get_many :: "(bytes \<Rightarrow> ('a \<times> bytes) option) \<Rightarrow> nat \<Rightarrow> bytes \<Rightarrow> ('a list \<times> bytes) option" where
  "get_many get 0 b = Some ([], b)"
| "get_many get (Suc n) b =
     (case get b of
        None \<Rightarrow> None
      | Some (x, r) \<Rightarrow>
          (case get_many get n r of None \<Rightarrow> None | Some (xs, r') \<Rightarrow> Some (x # xs, r')))"

locale stream_codec =
  fixes wf :: "'a \<Rightarrow> bool" and put :: "'a \<Rightarrow> bytes" and get :: "bytes \<Rightarrow> ('a \<times> bytes) option"
  assumes get_put: "wf a \<Longrightarrow> get (put a @ r) = Some (a, r)"
    and put_get: "get b = Some (a, r) \<Longrightarrow> wf a \<and> b = put a @ r"
begin

lemma get_many_put:
  "\<forall>x\<in>set xs. wf x \<Longrightarrow> get_many get (length xs) (concat (map put xs) @ r) = Some (xs, r)"
  by (induction xs) (simp_all add: get_put)

lemma put_get_many:
  "get_many get n b = Some (xs, r) \<Longrightarrow>
     length xs = n \<and> (\<forall>x\<in>set xs. wf x) \<and> b = concat (map put xs) @ r"
  by (induction n arbitrary: b xs) (auto split: option.splits dest!: put_get)

lemma put_cancel: "wf a \<Longrightarrow> wf a' \<Longrightarrow> put a @ r = put a' @ r' \<longleftrightarrow> a = a' \<and> r = r'"
  by (metis get_put option.inject prod.inject)

end

text \<open>A little-endian field of \<open>n\<close> bytes.\<close>

definition read_le :: "nat \<Rightarrow> bytes \<Rightarrow> ('a::len word \<times> bytes) option" where
  "read_le n b = (if length b < n then None else Some (le_val (take n b), drop n b))"

lemma read_le_append [codec_simps]:
  "LENGTH('a) \<le> 8 * n \<Longrightarrow> read_le n (le_bytes n (w :: 'a::len word) @ r) = Some (w, r)"
  by (simp add: read_le_def le_val_le_bytes)

lemma read_le_Some:
  assumes "8 * n \<le> LENGTH('a::len)" and "read_le n b = Some (w :: 'a word, r)"
  shows "b = le_bytes n w @ r"
proof -
  have n: "\<not> length b < n" and w: "w = le_val (take n b)" and r: "r = drop n b"
    using assms(2) by (auto simp: read_le_def split: if_splits)
  have "le_bytes n w = take n b" unfolding w using n assms(1) by (intro le_bytes_le_val) simp_all
  then show ?thesis using r by simp
qed

interpretation u16_field: stream_codec "\<lambda>_. True" "le_bytes 2 :: u16 \<Rightarrow> bytes" "read_le 2"
  by unfold_locales (simp_all add: read_le_append read_le_Some)

interpretation u32_field: stream_codec "\<lambda>_. True" "le_bytes 4 :: u32 \<Rightarrow> bytes" "read_le 4"
  by unfold_locales (simp_all add: read_le_append read_le_Some)

interpretation u64_field: stream_codec "\<lambda>_. True" "le_bytes 8 :: u64 \<Rightarrow> bytes" "read_le 8"
  by unfold_locales (simp_all add: read_le_append read_le_Some)

end
