(* ===== verification/Envelopes.thy ===== *)
theory Envelopes
  imports Codec State_Limits Consensus09
begin

text \<open>
  The state-init envelope (\<open>contract_state_init_envelope.h\<close>) and the state-call envelope
  (\<open>contract_call_envelope.h\<close>): canonical payloads carried by a zero-value \<open>OP_RETURN\<close> output.
  A reader that walks an index \<open>pc\<close> over the buffer is a function of the bytes from \<open>pc\<close> on.
  Operations that both headers declare under one name carry the prefix \<open>init_\<close> or \<open>call_\<close>.
\<close>

type_synonym entries = "(string \<times> bytes) list"

record StateInitEnvelope =
  targetVout :: u32
  entries :: entries

definition INIT_VERSION :: byte where "INIT_VERSION = 0x01"
definition INIT_MAGIC_BYTES :: nat where "INIT_MAGIC_BYTES = 8"
definition MAX_INIT_PAYLOAD_BYTES :: nat where "MAX_INIT_PAYLOAD_BYTES = 8192"
definition INIT_MAGIC :: bytes where "INIT_MAGIC = bytes_of_string ''TRUSTATE''"

definition AppendU16LE :: "u16 \<Rightarrow> bytes" where "AppendU16LE v = le_bytes 2 v"
definition AppendU32LE :: "u32 \<Rightarrow> bytes" where "AppendU32LE v = le_bytes 4 v"
definition ReadU16LE :: "bytes \<Rightarrow> (u16 \<times> bytes) option" where "ReadU16LE = read_le 2"
definition ReadU32LE :: "bytes \<Rightarrow> (u32 \<times> bytes) option" where "ReadU32LE = read_le 4"

fun IsStrictlySortedUnique :: "entries \<Rightarrow> bool" where
  "IsStrictlySortedUnique (a # b # rest) \<longleftrightarrow>
     fst a < fst b \<and> IsStrictlySortedUnique (b # rest)"
| "IsStrictlySortedUnique _ \<longleftrightarrow> True"

text \<open>The loop of \<open>ValidateEntries\<close>: \<open>emplace\<close> keeps an entry that is already there.\<close>

fun validate_loop :: "state_map \<Rightarrow> entries \<Rightarrow> bool" where
  "validate_loop scratch [] = True"
| "validate_loop scratch ((key, val) # rest) =
     (if CanApplyStateWrite scratch key val = None then False
      else validate_loop
        (if map_of scratch key = None then scratch @ [(key, val)] else scratch) rest)"

definition ValidateEntries :: "entries \<Rightarrow> bool" where
  "ValidateEntries es =
     (if length es > MAX_KEYS_PER_DOMAIN then False
      else if \<not> IsStrictlySortedUnique es then False
      else validate_loop [] es)"

definition put_entry :: "string \<times> bytes \<Rightarrow> bytes" where
  "put_entry e = (case e of (key, val) \<Rightarrow>
     word_of_nat (length key) # bytes_of_string key @
     AppendU16LE (word_of_nat (length val)) @ val)"

fun append_entries :: "bytes \<Rightarrow> entries \<Rightarrow> bytes option" where
  "append_entries payload [] = Some payload"
| "append_entries payload ((key, val) # rest) =
     (if length key > 0xFF \<or> length val > 0xFFFF then None
      else
        let payload' = payload @ put_entry (key, val) in
        if length payload' > MAX_INIT_PAYLOAD_BYTES then None
        else append_entries payload' rest)"

definition init_BuildPayload :: "StateInitEnvelope \<Rightarrow> bytes option" where
  "init_BuildPayload envelope =
     (if length (entries envelope) > 0xFFFF then None
      else if \<not> ValidateEntries (entries envelope) then None
      else
        case append_entries
               (INIT_MAGIC @ [INIT_VERSION] @ AppendU32LE (targetVout envelope) @
                AppendU16LE (word_of_nat (length (entries envelope)))) (entries envelope) of
          None \<Rightarrow> None
        | Some payload \<Rightarrow> if length payload \<le> MAX_INIT_PAYLOAD_BYTES then Some payload else None)"

definition get_entry :: "bytes \<Rightarrow> ((string \<times> bytes) \<times> bytes) option" where
  "get_entry b =
     (case b of
        [] \<Rightarrow> None
      | n # b1 \<Rightarrow>
          let keyLen = unat n in
          if keyLen = 0 \<or> keyLen > MAX_LOGICAL_KEY_BYTES \<or> keyLen > length b1 then None
          else
            let key = string_of_bytes (take keyLen b1) in
            case ReadU16LE (drop keyLen b1) of
              None \<Rightarrow> None
            | Some (m, b2) \<Rightarrow>
                let valueLen = unat m in
                if valueLen > MAX_VALUE_BYTES \<or> valueLen > length b2 then None
                else Some ((key, take valueLen b2), drop valueLen b2))"

definition init_ParsePayload :: "bytes \<Rightarrow> StateInitEnvelope option" where
  "init_ParsePayload payload =
     (if length payload < INIT_MAGIC_BYTES + 1 + 4 + 2 \<or> length payload > MAX_INIT_PAYLOAD_BYTES
      then None
      else if take INIT_MAGIC_BYTES payload \<noteq> INIT_MAGIC then None
      else if payload ! INIT_MAGIC_BYTES \<noteq> INIT_VERSION then None
      else
        case ReadU32LE (drop (INIT_MAGIC_BYTES + 1) payload) of
          None \<Rightarrow> None
        | Some (target, b1) \<Rightarrow>
            (case ReadU16LE b1 of
               None \<Rightarrow> None
             | Some (entryCount, b2) \<Rightarrow>
                 if unat entryCount > MAX_KEYS_PER_DOMAIN then None
                 else
                   case get_many get_entry (unat entryCount) b2 of
                     None \<Rightarrow> None
                   | Some (es, b3) \<Rightarrow>
                       if b3 \<noteq> [] then None
                       else if \<not> ValidateEntries es then None
                       else Some \<lparr>targetVout = target, entries = es\<rparr>))"

definition AppendCanonicalPush :: "bytes \<Rightarrow> bytes" where
  "AppendCanonicalPush payload =
     (let n = length payload in
      (if n \<le> 0x4b then [word_of_nat n]
       else if n \<le> 0xFF then [OP_PUSHDATA1, word_of_nat n]
       else OP_PUSHDATA2 # AppendU16LE (word_of_nat n)) @ payload)"

definition init_BuildOpReturnScript :: "StateInitEnvelope \<Rightarrow> bytes option" where
  "init_BuildOpReturnScript envelope =
     (case init_BuildPayload envelope of
        None \<Rightarrow> None
      | Some payload \<Rightarrow> Some (OP_RETURN # AppendCanonicalPush payload))"

definition ExtractCanonicalSinglePush :: "bytes \<Rightarrow> bytes option" where
  "ExtractCanonicalSinglePush script =
     (case script of
        op # opcode # b \<Rightarrow>
          if op \<noteq> OP_RETURN then None
          else
            let pushed =
              (if opcode > OP_0 \<and> opcode \<le> 0x4b then Some (unat opcode, b)
               else if opcode = OP_PUSHDATA1 then
                 (case b of
                    [] \<Rightarrow> None
                  | n # b' \<Rightarrow> if unat n \<le> 0x4b then None else Some (unat n, b'))
               else if opcode = OP_PUSHDATA2 then
                 (case ReadU16LE b of
                    None \<Rightarrow> None
                  | Some (n, b') \<Rightarrow> if unat n \<le> 0xFF then None else Some (unat n, b'))
               else None)
            in case pushed of
              None \<Rightarrow> None
            | Some (pushLen, b') \<Rightarrow>
                if pushLen = 0 \<or> pushLen > MAX_INIT_PAYLOAD_BYTES \<or> pushLen \<noteq> length b' then None
                else Some b'
      | _ \<Rightarrow> None)"

definition init_ParseOpReturnScript :: "bytes \<Rightarrow> StateInitEnvelope option" where
  "init_ParseOpReturnScript script =
     (case ExtractCanonicalSinglePush script of
        None \<Rightarrow> None
      | Some payload \<Rightarrow> init_ParsePayload payload)"

definition IsStateInitEnvelopeScript :: "bytes \<Rightarrow> bool" where
  "IsStateInitEnvelopeScript script \<longleftrightarrow> init_ParseOpReturnScript script \<noteq> None"

subsection \<open>The call envelope\<close>

definition CALL_VERSION :: byte where "CALL_VERSION = 0x01"
definition CALL_MAGIC_BYTES :: nat where "CALL_MAGIC_BYTES = 7"
definition CALL_HASH_BYTES :: nat where "CALL_HASH_BYTES = 32"
definition CALL_PAYLOAD_BYTES :: nat where
  "CALL_PAYLOAD_BYTES = CALL_MAGIC_BYTES + 1 + 4 + 4 + CALL_HASH_BYTES"
definition CALL_MAGIC :: bytes where "CALL_MAGIC = bytes_of_string ''TRUCALL''"

text \<open>\<open>unlockScriptSha256\<close> is a \<open>std::array\<close> of 32 bytes; see \<open>call_envelope_wf\<close>.\<close>

record StateCallEnvelope =
  targetInput :: u32
  continuationVout :: u32
  unlockScriptSha256 :: bytes

definition call_envelope_wf :: "StateCallEnvelope \<Rightarrow> bool" where
  "call_envelope_wf e \<longleftrightarrow> length (unlockScriptSha256 e) = CALL_HASH_BYTES"

definition call_BuildPayload :: "StateCallEnvelope \<Rightarrow> bytes option" where
  "call_BuildPayload envelope =
     (let payload = CALL_MAGIC @ [CALL_VERSION] @ AppendU32LE (targetInput envelope) @
            AppendU32LE (continuationVout envelope) @ unlockScriptSha256 envelope in
      if length payload = CALL_PAYLOAD_BYTES then Some payload else None)"

definition call_ParsePayload :: "bytes \<Rightarrow> StateCallEnvelope option" where
  "call_ParsePayload payload =
     (if length payload \<noteq> CALL_PAYLOAD_BYTES then None
      else if take CALL_MAGIC_BYTES payload \<noteq> CALL_MAGIC then None
      else if payload ! CALL_MAGIC_BYTES \<noteq> CALL_VERSION then None
      else
        case ReadU32LE (drop (CALL_MAGIC_BYTES + 1) payload) of
          None \<Rightarrow> None
        | Some (target, b1) \<Rightarrow>
            (case ReadU32LE b1 of
               None \<Rightarrow> None
             | Some (continuation, b2) \<Rightarrow>
                 if length b2 \<noteq> CALL_HASH_BYTES then None
                 else Some \<lparr>targetInput = target, continuationVout = continuation,
                            unlockScriptSha256 = b2\<rparr>))"

definition call_BuildOpReturnScript :: "StateCallEnvelope \<Rightarrow> bytes option" where
  "call_BuildOpReturnScript envelope =
     (case call_BuildPayload envelope of
        None \<Rightarrow> None
      | Some payload \<Rightarrow>
          if CALL_PAYLOAD_BYTES = 0 \<or> CALL_PAYLOAD_BYTES > 0x4b then None
          else Some (OP_RETURN # word_of_nat CALL_PAYLOAD_BYTES # payload))"

definition call_ParseOpReturnScript :: "bytes \<Rightarrow> StateCallEnvelope option" where
  "call_ParseOpReturnScript script =
     (case ExtractCanonicalSinglePush script of
        None \<Rightarrow> None
      | Some payload \<Rightarrow> call_ParsePayload payload)"

definition IsStateCallEnvelopeScript :: "bytes \<Rightarrow> bool" where
  "IsStateCallEnvelopeScript script \<longleftrightarrow> call_ParseOpReturnScript script \<noteq> None"

lemmas envelope_consts =
  INIT_VERSION_def INIT_MAGIC_BYTES_def MAX_INIT_PAYLOAD_BYTES_def INIT_MAGIC_def
  CALL_VERSION_def CALL_MAGIC_BYTES_def CALL_HASH_BYTES_def CALL_PAYLOAD_BYTES_def CALL_MAGIC_def

subsection \<open>Entries\<close>

definition wf_entry :: "string \<times> bytes \<Rightarrow> bool" where
  "wf_entry e \<longleftrightarrow> entry_ok (fst e) (snd e)"

lemma wf_entry_bounds:
  "wf_entry (k, v) \<longleftrightarrow> 0 < length k \<and> length k \<le> 128 \<and> length v \<le> 4096"
  by (auto simp: wf_entry_def entry_ok_def IsLogicalKeyAllowed_def IsValueAllowed_def
      state_limit_defs)

lemma get_put_entry: "wf_entry e \<Longrightarrow> get_entry (put_entry e @ r) = Some (e, r)"
proof (cases e)
  case (Pair k v)
  assume "wf_entry e"
  then have b: "0 < length k" "length k \<le> 128" "length v \<le> 4096"
    by (simp_all add: Pair wf_entry_bounds)
  have uk: "unat (word_of_nat (length k) :: byte) = length k"
    and uv: "unat (word_of_nat (length v) :: u16) = length v"
    using b by (simp_all add: unat_word_of_nat_less del: unat_of_nat)
  have rd: "ReadU16LE (AppendU16LE (word_of_nat (length v)) @ v @ r) =
      Some (word_of_nat (length v), v @ r)"
    by (simp add: ReadU16LE_def AppendU16LE_def read_le_append)
  show ?thesis
    using b by (simp add: Pair put_entry_def get_entry_def uk uv rd Let_def state_limit_defs)
qed

lemma get_entry_put:
  assumes "get_entry b = Some (e, r)"
  shows "wf_entry e \<and> b = put_entry e @ r"
proof -
  obtain n b1 where b: "b = n # b1" using assms by (cases b) (simp_all add: get_entry_def)
  define k where "k = unat n"
  from assms obtain m b2 where k: "k \<noteq> 0" "k \<le> 128" "k \<le> length b1"
    and rd: "ReadU16LE (drop k b1) = Some (m, b2)"
    and m: "unat m \<le> 4096" "unat m \<le> length b2"
    and e: "e = (string_of_bytes (take k b1), take (unat m) b2)" and r: "r = drop (unat m) b2"
    by (auto simp: get_entry_def b Let_def k_def state_limit_defs split: if_splits option.splits)
  have "drop k b1 = le_bytes 2 m @ b2" using rd by (simp add: ReadU16LE_def read_le_Some)
  then have b1: "b1 = take k b1 @ le_bytes 2 m @ b2" by (metis append_take_drop_id)
  have "word_of_nat k = n" "word_of_nat (unat m) = m" by (simp_all add: k_def)
  then have "put_entry e @ r = n # take k b1 @ le_bytes 2 m @ b2"
    using k m by (simp add: e r put_entry_def AppendU16LE_def min_absorb2)
  also have "\<dots> = b" using b b1 by simp
  finally have "b = put_entry e @ r" by (rule sym)
  moreover have "wf_entry e" using k m by (simp add: e wf_entry_bounds min_absorb2)
  ultimately show ?thesis by blast
qed

interpretation entry: stream_codec wf_entry put_entry get_entry
  by unfold_locales (simp_all add: get_put_entry get_entry_put)

lemma length_put_entry [simp]: "length (put_entry (k, v)) = 3 + length k + length v"
  by (simp add: put_entry_def AppendU16LE_def)

lemma append_entries_eq:
  assumes "\<forall>e\<in>set es. wf_entry e"
  shows "append_entries p es =
    (if es = [] \<or> length (p @ concat (map put_entry es)) \<le> MAX_INIT_PAYLOAD_BYTES
     then Some (p @ concat (map put_entry es)) else None)"
  using assms
proof (induction p es rule: append_entries.induct)
  case (2 p key val rest)
  then have "length key \<le> 128" "length val \<le> 4096" by (simp_all add: wf_entry_bounds)
  then show ?case using 2 by (auto simp: Let_def)
qed simp

subsection \<open>Admissible entry lists\<close>

lemma strictly_sorted_iff: "IsStrictlySortedUnique es \<longleftrightarrow> sorted_wrt (<) (map fst es)"
proof (induction es rule: IsStrictlySortedUnique.induct)
  case (1 a b rest)
  then show ?case by fastforce
qed auto

lemma strictly_sorted_distinct: "IsStrictlySortedUnique es \<Longrightarrow> keys_distinct es"
  by (simp add: strictly_sorted_iff strict_sorted_iff)

lemma within_limits_prefix: "state_within_limits (m @ r) \<Longrightarrow> state_within_limits m"
  by (auto simp: state_within_limits_def state_bytes_def)

lemma validate_loop_iff:
  "keys_distinct (m @ es) \<Longrightarrow> state_within_limits m \<Longrightarrow>
     validate_loop m es \<longleftrightarrow> state_within_limits (m @ es)"
proof (induction m es rule: validate_loop.induct)
  case (2 m key val rest)
  have nk: "map_of m key = None" using 2(2) by (auto simp: map_of_eq_None_iff)
  have upd: "AList.update key val m = m @ [(key, val)]" using nk by (rule update_fresh)
  have w: "CanApplyStateWrite m key val \<noteq> None \<longleftrightarrow> state_within_limits (m @ [(key, val)])"
    using 2(2,3) by (simp add: CanApplyStateWrite_eq upd)
  show ?case
  proof (cases "state_within_limits (m @ [(key, val)])")
    case True
    moreover from this have "CanApplyStateWrite m key val \<noteq> None" using w by simp
    ultimately show ?thesis using 2 nk by auto
  next
    case False
    then have "\<not> state_within_limits (m @ (key, val) # rest)"
      using within_limits_prefix [of "m @ [(key, val)]" rest] by auto
    then show ?thesis using False w by simp
  qed
qed simp

lemma within_limits_Nil [simp]: "state_within_limits []"
  by (simp add: state_within_limits_def state_bytes_def)

lemma ValidateEntries_iff:
  "ValidateEntries es \<longleftrightarrow> IsStrictlySortedUnique es \<and> state_within_limits es"
proof -
  have "IsStrictlySortedUnique es \<Longrightarrow> validate_loop [] es \<longleftrightarrow> state_within_limits es"
    using validate_loop_iff [of "[]" es] strictly_sorted_distinct by simp
  moreover have "state_within_limits es \<Longrightarrow> length es \<le> MAX_KEYS_PER_DOMAIN"
    by (simp add: state_within_limits_def)
  ultimately show ?thesis by (auto simp: ValidateEntries_def)
qed

lemma ValidateEntries_wf: "ValidateEntries es \<Longrightarrow> \<forall>e\<in>set es. wf_entry e"
  by (auto simp: ValidateEntries_iff state_within_limits_def wf_entry_def)

lemma ValidateEntries_length: "ValidateEntries es \<Longrightarrow> length es \<le> 4096"
  by (simp add: ValidateEntries_iff state_within_limits_def MAX_KEYS_PER_DOMAIN_def)

subsection \<open>Payload round trips\<close>

definition init_header :: "u32 \<Rightarrow> u16 \<Rightarrow> bytes" where
  "init_header t n = INIT_MAGIC @ [INIT_VERSION] @ AppendU32LE t @ AppendU16LE n"

definition init_payload :: "StateInitEnvelope \<Rightarrow> bytes" where
  "init_payload e = init_header (targetVout e) (word_of_nat (length (entries e))) @
     concat (map put_entry (entries e))"

lemma length_init_header [simp]: "length (init_header t n) = 15"
  by (simp add: init_header_def INIT_MAGIC_def AppendU32LE_def AppendU16LE_def)

lemma init_BuildPayload_iff:
  "init_BuildPayload e = Some p \<longleftrightarrow>
     ValidateEntries (entries e) \<and> p = init_payload e \<and> length p \<le> 8192"
proof -
  have a: "append_entries (init_header t n) es =
      (if es = [] \<or> length (init_header t n @ concat (map put_entry es)) \<le> 8192
       then Some (init_header t n @ concat (map put_entry es)) else None)"
    if "ValidateEntries es" for t n es
    using append_entries_eq [OF ValidateEntries_wf [OF that]]
    by (simp add: MAX_INIT_PAYLOAD_BYTES_def)
  have h: "INIT_MAGIC @ [INIT_VERSION] @ AppendU32LE (targetVout e) @
      AppendU16LE (word_of_nat (length (entries e))) =
      init_header (targetVout e) (word_of_nat (length (entries e)))"
    by (simp add: init_header_def)
  show ?thesis
  proof (cases "ValidateEntries (entries e)")
    case True
    then show ?thesis
      using ValidateEntries_length [OF True]
      unfolding init_BuildPayload_def h a [OF True] init_payload_def MAX_INIT_PAYLOAD_BYTES_def
      by (auto split: if_splits)
  next
    case False
    then show ?thesis by (simp add: init_BuildPayload_def)
  qed
qed

lemma init_parse_header:
  "length (init_header t n @ b) \<le> 8192 \<Longrightarrow>
   init_ParsePayload (init_header t n @ b) =
     (if unat n > MAX_KEYS_PER_DOMAIN then None
      else case get_many get_entry (unat n) b of
        None \<Rightarrow> None
      | Some (es, b3) \<Rightarrow>
          if b3 \<noteq> [] then None else if \<not> ValidateEntries es then None
          else Some \<lparr>targetVout = t, entries = es\<rparr>)"
  unfolding init_ParsePayload_def envelope_consts
  by (simp add: init_header_def INIT_MAGIC_def INIT_VERSION_def ReadU32LE_def AppendU32LE_def
      ReadU16LE_def AppendU16LE_def read_le_append nth_append)

lemma init_parse_shape:
  assumes "init_ParsePayload p = Some e"
  shows "\<exists>n b. p = init_header (targetVout e) n @ b \<and> length p \<le> 8192"
proof -
  from assms obtain t b1 n b2 where p: "15 \<le> length p" "length p \<le> 8192"
    "take 8 p = INIT_MAGIC" "p ! 8 = INIT_VERSION"
    and t: "ReadU32LE (drop 9 p) = Some (t, b1)" and n: "ReadU16LE b1 = Some (n, b2)"
    and e: "targetVout e = t"
    by (auto simp: init_ParsePayload_def INIT_MAGIC_BYTES_def MAX_INIT_PAYLOAD_BYTES_def
        split: if_splits option.splits)
  have "p = take 8 p @ p ! 8 # drop 9 p"
    using p(1) id_take_nth_drop [of 8 p] by simp
  moreover have "drop 9 p = AppendU32LE t @ AppendU16LE n @ b2"
    using t n by (auto simp: ReadU32LE_def ReadU16LE_def AppendU32LE_def AppendU16LE_def
        dest!: read_le_Some [rotated])
  ultimately have "p = init_header t n @ b2" using p by (simp add: init_header_def)
  then show ?thesis using p e by blast
qed

lemma init_dec_enc:
  assumes "init_BuildPayload e = Some p"
  shows "init_ParsePayload p = Some e"
proof -
  have v: "ValidateEntries (entries e)" and p: "p = init_payload e" "length p \<le> 8192"
    using assms unfolding init_BuildPayload_iff by blast+
  let ?n = "word_of_nat (length (entries e)) :: u16"
  have n: "unat ?n = length (entries e)"
    using ValidateEntries_length [OF v] by (simp add: unat_word_of_nat_less del: unat_of_nat)
  have "get_many get_entry (unat ?n) (concat (map put_entry (entries e))) = Some (entries e, [])"
    using entry.get_many_put [OF ValidateEntries_wf [OF v], of "[]"] n by simp
  then show ?thesis
    using init_parse_header [of "targetVout e" ?n "concat (map put_entry (entries e))"]
      p v ValidateEntries_length [OF v]
    unfolding init_payload_def n MAX_KEYS_PER_DOMAIN_def by simp
qed

lemma init_enc_dec:
  assumes "init_ParsePayload p = Some e"
  shows "init_BuildPayload e = Some p"
proof -
  obtain n b where p: "p = init_header (targetVout e) n @ b" "length p \<le> 8192"
    using init_parse_shape [OF assms] by blast
  with assms obtain es where g: "get_many get_entry (unat n) b = Some (es, [])"
    and v: "ValidateEntries es" and e: "e = \<lparr>targetVout = targetVout e, entries = es\<rparr>"
    using init_parse_header [of "targetVout e" n b]
    by (auto split: if_splits option.splits)
  then have ent: "entries e = es" using arg_cong [OF e, of entries] by simp
  have "b = concat (map put_entry es)" "length es = unat n"
    using entry.put_get_many [OF g] by auto
  then have "p = init_payload e" using p by (simp add: init_payload_def ent)
  then show ?thesis using p v by (simp add: init_BuildPayload_iff ent)
qed

interpretation init_body: codec init_BuildPayload init_ParsePayload
  by unfold_locales (rule init_dec_enc init_enc_dec; assumption)+

subsection \<open>Canonical pushes\<close>

lemma push_extract:
  assumes "0 < length p" and "length p \<le> 8192"
  shows "ExtractCanonicalSinglePush (OP_RETURN # AppendCanonicalPush p) = Some p"
proof -
  consider "length p \<le> 0x4b" | "0x4b < length p" "length p \<le> 0xFF" | "0xFF < length p" by linarith
  then show ?thesis
  proof cases
    case 1
    then have u: "unat (word_of_nat (length p) :: byte) = length p"
      by (simp add: unat_word_of_nat_less del: unat_of_nat)
    have "word_of_nat (length p) > (0 :: byte)" "word_of_nat (length p) \<le> (0x4b :: byte)"
      using 1 assms u by (simp_all add: word_less_nat_alt word_le_nat_alt del: unat_of_nat)
    then show ?thesis
      using 1 assms u
      by (simp add: ExtractCanonicalSinglePush_def AppendCanonicalPush_def
          MAX_INIT_PAYLOAD_BYTES_def del: unat_of_nat)
  next
    case 2
    then have u: "unat (word_of_nat (length p) :: byte) = length p"
      by (simp add: unat_word_of_nat_less del: unat_of_nat)
    then show ?thesis
      using 2 assms
      by (simp add: ExtractCanonicalSinglePush_def AppendCanonicalPush_def
          MAX_INIT_PAYLOAD_BYTES_def del: unat_of_nat)
  next
    case 3
    then have u: "unat (word_of_nat (length p) :: u16) = length p"
      using assms by (simp add: unat_word_of_nat_less del: unat_of_nat)
    have "ReadU16LE (AppendU16LE (word_of_nat (length p)) @ p) = Some (word_of_nat (length p), p)"
      by (simp add: ReadU16LE_def AppendU16LE_def read_le_append)
    then show ?thesis
      using 3 assms u
      by (simp add: ExtractCanonicalSinglePush_def AppendCanonicalPush_def
          MAX_INIT_PAYLOAD_BYTES_def del: unat_of_nat)
  qed
qed

lemma extract_push:
  assumes "ExtractCanonicalSinglePush s = Some p"
  shows "s = OP_RETURN # AppendCanonicalPush p \<and> 0 < length p \<and> length p \<le> 8192"
proof -
  from assms obtain opcode b where s: "s = OP_RETURN # opcode # b"
    by (auto simp: ExtractCanonicalSinglePush_def split: list.splits if_splits)
  consider (direct) "opcode > OP_0" "opcode \<le> 0x4b" | (one) "opcode = OP_PUSHDATA1"
    | (two) "opcode = OP_PUSHDATA2"
    using assms by (auto simp: s ExtractCanonicalSinglePush_def split: if_splits)
  then show ?thesis
  proof cases
    case direct
    then have p: "p = b" "unat opcode = length b" "0 < length b"
      using assms by (auto simp: s ExtractCanonicalSinglePush_def split: if_splits)
    then have le: "length b \<le> 0x4b" using direct(2) by (simp add: word_le_nat_alt)
    have "word_of_nat (length b) = opcode" by (simp flip: p(2))
    then show ?thesis using p le by (simp add: s AppendCanonicalPush_def)
  next
    case one
    then obtain n b' where b: "b = n # b'"
      using assms by (cases b) (auto simp: s ExtractCanonicalSinglePush_def)
    have p: "p = b'" "unat n = length b'" "0x4b < length b'"
      using assms one by (auto simp: s b ExtractCanonicalSinglePush_def split: if_splits)
    have "length b' < 256" using p(2) unat_byte_less [of n] by linarith
    moreover have "word_of_nat (length b') = n" by (simp flip: p(2))
    ultimately show ?thesis using p one by (cases b') (auto simp: s b AppendCanonicalPush_def)
  next
    case two
    then obtain n where r: "ReadU16LE b = Some (n, p)" and p: "unat n = length p"
      "0xFF < length p" "length p \<le> 8192"
      using assms
      by (auto simp: s ExtractCanonicalSinglePush_def MAX_INIT_PAYLOAD_BYTES_def
          split: if_splits option.splits)
    have "b = AppendU16LE n @ p" using r by (simp add: ReadU16LE_def AppendU16LE_def read_le_Some)
    moreover have "word_of_nat (length p) = n" by (simp flip: p(1))
    ultimately show ?thesis using p two by (auto simp: s AppendCanonicalPush_def)
  qed
qed

lemma init_payload_length: "init_BuildPayload e = Some p \<Longrightarrow> 15 \<le> length p \<and> length p \<le> 8192"
  by (auto simp: init_BuildPayload_iff init_payload_def)

lemma call_payload_length: "call_BuildPayload e = Some p \<Longrightarrow> length p = 48"
  by (auto simp: call_BuildPayload_def Let_def CALL_PAYLOAD_BYTES_def envelope_consts split: if_splits)

interpretation init_script: framed_codec init_BuildPayload init_ParsePayload
  "\<lambda>p. Some (OP_RETURN # AppendCanonicalPush p)" ExtractCanonicalSinglePush
proof unfold_locales
  fix e b c
  assume "init_BuildPayload e = Some b" "Some (OP_RETURN # AppendCanonicalPush b) = Some c"
  then show "ExtractCanonicalSinglePush c = Some b"
    using init_payload_length [of e b] push_extract [of b] by (cases b) auto
next
  fix c b and e :: StateInitEnvelope
  assume "ExtractCanonicalSinglePush c = Some b"
  then show "Some (OP_RETURN # AppendCanonicalPush b) = Some c" using extract_push by simp
qed

subsection \<open>The call envelope round trips\<close>

lemma call_dec_enc:
  assumes "call_BuildPayload e = Some p"
  shows "call_ParsePayload p = Some e"
proof -
  from assms have p: "p = CALL_MAGIC @ [CALL_VERSION] @ AppendU32LE (targetInput e) @
      AppendU32LE (continuationVout e) @ unlockScriptSha256 e" and "length p = 48"
    by (auto simp: call_BuildPayload_def Let_def envelope_consts split: if_splits)
  then have "length (unlockScriptSha256 e) = 32" by (simp add: CALL_MAGIC_def AppendU32LE_def)
  then show ?thesis
    by (simp add: p call_ParsePayload_def envelope_consts ReadU32LE_def AppendU32LE_def
        read_le_append nth_append)
qed

lemma call_enc_dec:
  assumes "call_ParsePayload p = Some e"
  shows "call_BuildPayload e = Some p"
proof -
  from assms obtain t b1 n b2 where p: "length p = 48" "take 7 p = CALL_MAGIC" "p ! 7 = CALL_VERSION"
    and t: "ReadU32LE (drop 8 p) = Some (t, b1)" and n: "ReadU32LE b1 = Some (n, b2)"
    and e: "e = \<lparr>targetInput = t, continuationVout = n, unlockScriptSha256 = b2\<rparr>"
    by (auto simp: call_ParsePayload_def CALL_PAYLOAD_BYTES_def CALL_MAGIC_BYTES_def
        CALL_HASH_BYTES_def split: if_splits option.splits)
  have "p = take 7 p @ p ! 7 # drop 8 p" using p(1) id_take_nth_drop [of 7 p] by simp
  moreover have "drop 8 p = AppendU32LE t @ AppendU32LE n @ b2"
    using t n by (auto simp: ReadU32LE_def AppendU32LE_def dest!: read_le_Some [rotated])
  ultimately have "p = CALL_MAGIC @ [CALL_VERSION] @ AppendU32LE t @ AppendU32LE n @ b2"
    using p by simp
  then show ?thesis
    using p(1) by (simp add: call_BuildPayload_def e CALL_PAYLOAD_BYTES_def CALL_MAGIC_BYTES_def
        CALL_HASH_BYTES_def Let_def)
qed

interpretation call_body: codec call_BuildPayload call_ParsePayload
  by unfold_locales (rule call_dec_enc call_enc_dec; assumption)+

interpretation call_script: framed_codec call_BuildPayload call_ParsePayload
  "\<lambda>p. Some (OP_RETURN # AppendCanonicalPush p)" ExtractCanonicalSinglePush
proof unfold_locales
  fix e b c
  assume "call_BuildPayload e = Some b" "Some (OP_RETURN # AppendCanonicalPush b) = Some c"
  then show "ExtractCanonicalSinglePush c = Some b"
    using call_payload_length [of e b] push_extract [of b] by (cases b) auto
next
  fix c b and e :: StateCallEnvelope
  assume "ExtractCanonicalSinglePush c = Some b"
  then show "Some (OP_RETURN # AppendCanonicalPush b) = Some c" using extract_push by simp
qed

lemma init_script_eq:
  "init_BuildOpReturnScript e = init_script.enc_framed e"
  "init_ParseOpReturnScript s = init_script.dec_framed s"
  by (simp_all add: init_BuildOpReturnScript_def init_ParseOpReturnScript_def
      init_script.enc_framed_def init_script.dec_framed_def)

lemma call_push: "length p = 48 \<Longrightarrow> AppendCanonicalPush p = 48 # p"
  by (simp add: AppendCanonicalPush_def)

lemma call_script_eq:
  "call_BuildOpReturnScript e = call_script.enc_framed e"
  "call_ParseOpReturnScript s = call_script.dec_framed s"
  by (auto simp: call_BuildOpReturnScript_def call_ParseOpReturnScript_def
      call_script.enc_framed_def call_script.dec_framed_def call_push
      CALL_PAYLOAD_BYTES_def CALL_MAGIC_BYTES_def CALL_HASH_BYTES_def
      dest!: call_payload_length split: option.splits)

subsection \<open>Properties\<close>

text \<open>
  The init script format is canonical. A script parses to an envelope exactly when building
  that envelope yields that very script, so each admissible initial state has one and only one
  encoding and every byte of an accepted script is determined by the state it carries.
\<close>

theorem init_envelope_canonical:
  "init_ParseOpReturnScript s = Some e \<longleftrightarrow> init_BuildOpReturnScript e = Some s"
  unfolding init_script_eq by (rule init_script.framed.enc_iff_dec [symmetric])

lemma init_payload_size:
  "length (init_payload e) = 15 + (\<Sum>(k, v)\<leftarrow>entries e. 3 + length k + length v)"
  by (simp add: init_payload_def length_concat o_def case_prod_unfold
      length_put_entry [of "fst x" "snd x" for x, unfolded prod.collapse])

text \<open>
  What an init script may carry. An envelope can be built exactly when its keys are strictly
  ascending, its entries form a domain within the state limits and the payload takes at most 8192
  bytes; so an accepted script always yields a map with distinct keys that is within the limits.
\<close>

lemma init_envelope_admissible:
  "(\<exists>s. init_BuildOpReturnScript e = Some s) \<longleftrightarrow>
     IsStrictlySortedUnique (entries e) \<and> state_within_limits (entries e) \<and>
     15 + (\<Sum>(k, v)\<leftarrow>entries e. 3 + length k + length v) \<le> 8192"
proof -
  have "(\<exists>s. init_BuildOpReturnScript e = Some s) \<longleftrightarrow> (\<exists>p. init_BuildPayload e = Some p)"
    by (auto simp: init_BuildOpReturnScript_def split: option.splits)
  then show ?thesis
    unfolding init_BuildPayload_iff ValidateEntries_iff by (auto simp: init_payload_size)
qed

text \<open>
  The call envelope is canonical too: parsing and building are inverse to each other, every
  envelope with a 32-byte commitment has an encoding, and it takes 50 bytes.
\<close>

theorem call_envelope_canonical:
  "(call_ParseOpReturnScript s = Some c \<longleftrightarrow> call_BuildOpReturnScript c = Some s) \<and>
   (length (unlockScriptSha256 c) = 32 \<longleftrightarrow> (\<exists>s. call_BuildOpReturnScript c = Some s)) \<and>
   (call_BuildOpReturnScript c = Some s \<longrightarrow> length s = 50)"
proof (intro conjI impI)
  show "call_ParseOpReturnScript s = Some c \<longleftrightarrow> call_BuildOpReturnScript c = Some s"
    unfolding call_script_eq by (rule call_script.framed.enc_iff_dec [symmetric])
  show "length (unlockScriptSha256 c) = 32 \<longleftrightarrow> (\<exists>s. call_BuildOpReturnScript c = Some s)"
    by (auto simp: call_BuildOpReturnScript_def call_BuildPayload_def Let_def AppendU32LE_def
        envelope_consts split: option.splits if_splits)
  show "call_BuildOpReturnScript c = Some s \<Longrightarrow> length s = 50"
    by (auto simp: call_BuildOpReturnScript_def dest!: call_payload_length
        split: option.splits if_splits)
qed

theorem call_envelope_canonical_witness:
  "\<exists>s. call_BuildOpReturnScript
     \<lparr>targetInput = 0, continuationVout = 1, unlockScriptSha256 = replicate 32 7\<rparr> = Some s"
proof -
  have "length (unlockScriptSha256
      \<lparr>targetInput = 0, continuationVout = 1, unlockScriptSha256 = replicate 32 (7 :: byte)\<rparr>) = 32"
    by simp
  then show ?thesis using call_envelope_canonical by blast
qed

text \<open>
  The two envelope kinds are disjoint: no \<open>OP_RETURN\<close> script is both a state initialisation
  and a state call.
\<close>

lemma envelopes_disjoint: "\<not> (IsStateInitEnvelopeScript s \<and> IsStateCallEnvelopeScript s)"
proof
  assume "IsStateInitEnvelopeScript s \<and> IsStateCallEnvelopeScript s"
  then obtain e c p where p: "init_ParsePayload p = Some e" "call_ParsePayload p = Some c"
    by (auto simp: IsStateInitEnvelopeScript_def IsStateCallEnvelopeScript_def
        init_ParseOpReturnScript_def call_ParseOpReturnScript_def split: option.splits)
  then have "take 8 p = INIT_MAGIC" "take 7 p = CALL_MAGIC"
    by (auto simp: init_ParsePayload_def call_ParsePayload_def INIT_MAGIC_BYTES_def
        CALL_MAGIC_BYTES_def split: if_splits)
  moreover have "take 7 p = take 7 (take 8 p)" by simp
  ultimately have "take 7 INIT_MAGIC = CALL_MAGIC" by simp
  then have "string_of_bytes (take 7 INIT_MAGIC) = string_of_bytes CALL_MAGIC" by simp
  then show False by (simp add: INIT_MAGIC_def CALL_MAGIC_def take_map)
qed

end
