(* ===== verification/Script_Push.thy ===== *)
theory Script_Push
  imports Envelopes
begin

text \<open>
  Push encoding and the push-aware script walk of \<open>contract_call_policy.h\<close>: reading push
  lengths, canonical data pushes, the two-push unlock script of a stateful call and the opcode
  scan that classifies a locking script without ever looking inside pushed data. A reader that
  advances an index \<open>pc\<close> is a function from the bytes at \<open>pc\<close> to the bytes at the new \<open>pc\<close>.
\<close>

definition take_field :: "nat \<Rightarrow> bytes \<Rightarrow> (nat \<times> bytes) option" where
  "take_field n b = (if length b < n then None else Some (unat (le_val (take n b) :: u64), drop n b))"

text \<open>\<open>ReadPushLength\<close>: the push length and the script after the push, \<open>None\<close> if truncated.\<close>

definition ReadPushLength :: "byte \<Rightarrow> bytes \<Rightarrow> (nat \<times> bytes) option" where
  "ReadPushLength opcode b =
     (let len =
        (if opcode > OP_0 \<and> opcode \<le> 0x4b then Some (Some (unat opcode, b))
         else if opcode = OP_PUSHDATA1 then map_option Some (take_field 1 b)
         else if opcode = OP_PUSHDATA2 then map_option Some (take_field 2 b)
         else if opcode = OP_PUSHDATA4 then map_option Some (take_field 4 b)
         else Some None)
      in case len of
        None \<Rightarrow> None
      | Some None \<Rightarrow> Some (0, b)
      | Some (Some (pushLen, b')) \<Rightarrow>
          if pushLen > length b' then None else Some (pushLen, drop pushLen b'))"

lemma take_field_length: "take_field n b = Some (m, b') \<Longrightarrow> length b' \<le> length b"
  by (auto simp: take_field_def split: if_splits)

lemma ReadPushLength_length: "ReadPushLength op b = Some (n, b') \<Longrightarrow> length b' \<le> length b"
  by (auto simp: ReadPushLength_def Let_def dest!: take_field_length split: if_splits option.splits)

text \<open>One step of the walk of \<open>IsCanonicalPushOnlyUnlockScript\<close>, then the loop.\<close>

definition canonical_push_step :: "bytes \<Rightarrow> bytes option" where
  "canonical_push_step script =
     (case script of
        [] \<Rightarrow> None
      | opcode # b \<Rightarrow>
          if opcode = OP_0 then Some b
          else
            let len =
              (if opcode > OP_0 \<and> opcode \<le> 0x4b then Some (unat opcode, b)
               else if opcode = OP_PUSHDATA1 then
                 (case take_field 1 b of
                    None \<Rightarrow> None
                  | Some (n, b') \<Rightarrow> if n \<le> 0x4b then None else Some (n, b'))
               else if opcode = OP_PUSHDATA2 then
                 (case take_field 2 b of
                    None \<Rightarrow> None
                  | Some (n, b') \<Rightarrow> if n \<le> 0xFF then None else Some (n, b'))
               else if opcode = OP_PUSHDATA4 then
                 (case take_field 4 b of
                    None \<Rightarrow> None
                  | Some (n, b') \<Rightarrow> if n \<le> 0xFFFF then None else Some (n, b'))
               else None)
            in case len of
              None \<Rightarrow> None
            | Some (pushLen, b') \<Rightarrow> if pushLen > length b' then None else Some (drop pushLen b'))"

lemma canonical_push_step_length: "canonical_push_step s = Some r \<Longrightarrow> length r < length s"
  by (auto simp: canonical_push_step_def Let_def dest!: take_field_length
      split: list.splits if_splits option.splits)

function IsCanonicalPushOnlyUnlockScript :: "bytes \<Rightarrow> bool" where
  "IsCanonicalPushOnlyUnlockScript script =
     (if script = [] then True
      else case canonical_push_step script of
        None \<Rightarrow> False
      | Some rest \<Rightarrow> IsCanonicalPushOnlyUnlockScript rest)"
  by auto
termination
  by (relation "measure length") (auto dest: canonical_push_step_length)

declare IsCanonicalPushOnlyUnlockScript.simps [simp del]

definition AppendCanonicalDataPush :: "bytes \<Rightarrow> bytes \<Rightarrow> bytes option" where
  "AppendCanonicalDataPush script data =
     (let n = length data in
      if n = 0 then Some (script @ [OP_0] @ data)
      else if n \<le> 0x4b then Some (script @ [word_of_nat n] @ data)
      else if n \<le> 0xff then Some (script @ [OP_PUSHDATA1, word_of_nat n] @ data)
      else if n \<le> 0xffff then
        Some (script @ [OP_PUSHDATA2, word_of_nat (n mod 256), word_of_nat (n div 256 mod 256)] @ data)
      else None)"

definition ReadCanonicalDataPush :: "bytes \<Rightarrow> (bytes \<times> bytes) option" where
  "ReadCanonicalDataPush script =
     (case script of
        [] \<Rightarrow> None
      | opcode # b \<Rightarrow>
          if opcode = OP_0 then Some ([], b)
          else
            let len =
              (if opcode > OP_0 \<and> opcode \<le> 0x4b then Some (unat opcode, b)
               else if opcode = OP_PUSHDATA1 then
                 (case take_field 1 b of
                    None \<Rightarrow> None
                  | Some (n, b') \<Rightarrow> if n \<le> 0x4b then None else Some (n, b'))
               else if opcode = OP_PUSHDATA2 then
                 (case take_field 2 b of
                    None \<Rightarrow> None
                  | Some (n, b') \<Rightarrow> if n \<le> 0xFF then None else Some (n, b'))
               else None)
            in case len of
              None \<Rightarrow> None
            | Some (pushLen, b') \<Rightarrow>
                if pushLen > length b' then None else Some (take pushLen b', drop pushLen b'))"

definition BuildStatefulKvV1UnlockScript :: "string \<Rightarrow> bytes \<Rightarrow> bytes option" where
  "BuildStatefulKvV1UnlockScript logicalKey val =
     (if \<not> IsLogicalKeyAllowed logicalKey \<or> \<not> IsValueAllowed val then None
      else case AppendCanonicalDataPush [] (bytes_of_string logicalKey) of
        None \<Rightarrow> None
      | Some s1 \<Rightarrow>
          (case AppendCanonicalDataPush s1 val of
             None \<Rightarrow> None
           | Some s2 \<Rightarrow> if IsCanonicalPushOnlyUnlockScript s2 then Some s2 else None))"

definition DecodeStatefulKvV1UnlockScript :: "bytes \<Rightarrow> (string \<times> bytes) option" where
  "DecodeStatefulKvV1UnlockScript script =
     (if \<not> IsCanonicalPushOnlyUnlockScript script then None
      else case ReadCanonicalDataPush script of
        None \<Rightarrow> None
      | Some (keyBytes, b1) \<Rightarrow>
          (case ReadCanonicalDataPush b1 of
             None \<Rightarrow> None
           | Some (val, b2) \<Rightarrow>
               if b2 \<noteq> [] then None
               else
                 let key = string_of_bytes keyBytes in
                 if IsLogicalKeyAllowed key \<and> IsValueAllowed val then Some (key, val) else None))"

subsection \<open>The opcode scan\<close>

record StatefulScriptScanResult =
  scan_valid :: bool
  usesStateDomain :: bool
  usesStoreOrLoad :: bool
  usesMintToken :: bool
  usesBridgeOpcode :: bool
  usesExternalData :: bool
  usesDataFeed :: bool
  usesDelegateCheck :: bool
  usesUpgradeNop :: bool
  usesMultisigOpcode :: bool

definition scan_init :: StatefulScriptScanResult where
  "scan_init = \<lparr>scan_valid = True, usesStateDomain = False, usesStoreOrLoad = False,
     usesMintToken = False, usesBridgeOpcode = False, usesExternalData = False,
     usesDataFeed = False, usesDelegateCheck = False, usesUpgradeNop = False,
     usesMultisigOpcode = False\<rparr>"

definition is_push_opcode :: "byte \<Rightarrow> bool" where
  "is_push_opcode opcode \<longleftrightarrow>
     (opcode > OP_0 \<and> opcode \<le> 0x4b) \<or> opcode = OP_PUSHDATA1 \<or> opcode = OP_PUSHDATA2 \<or>
     opcode = OP_PUSHDATA4"

definition scan_opcode :: "byte \<Rightarrow> StatefulScriptScanResult \<Rightarrow> StatefulScriptScanResult" where
  "scan_opcode opcode r =
     (if opcode = OP_STORE \<or> opcode = OP_LOAD
      then r\<lparr>usesStateDomain := True, usesStoreOrLoad := True\<rparr>
      else if opcode = OP_MINT_TOKEN then r\<lparr>usesStateDomain := True, usesMintToken := True\<rparr>
      else if opcode = OP_EXTERNALDATA then r\<lparr>usesExternalData := True\<rparr>
      else if opcode = OP_DATAFEED then r\<lparr>usesDataFeed := True\<rparr>
      else if opcode = OP_DELEGATECHECK then r\<lparr>usesDelegateCheck := True\<rparr>
      else if opcode = OP_CHECKMULTISIG \<or> opcode = OP_CHECKMULTISIGVERIFY
      then r\<lparr>usesMultisigOpcode := True\<rparr>
      else if opcode \<in> {OP_NOVO_GENADDR, OP_NOVO_DEPOSIT, OP_NOVO_REDEEM, OP_NOVO_VERIFY,
                        OP_BSTY_GENADDR, OP_BSTY_DEPOSIT, OP_BSTY_REDEEM, OP_BSTY_VERIFY}
      then r\<lparr>usesBridgeOpcode := True\<rparr>
      else if opcode \<in> {OP_UPGRADE_NOP1, OP_UPGRADE_NOP2, OP_UPGRADE_NOP3, OP_UPGRADE_NOP4,
                        OP_UPGRADE_NOP5, OP_UPGRADE_NOP6, OP_UPGRADE_NOP7, OP_UPGRADE_NOP8}
      then r\<lparr>usesUpgradeNop := True\<rparr>
      else r)"

function scan_loop :: "StatefulScriptScanResult \<Rightarrow> bytes \<Rightarrow> StatefulScriptScanResult" where
  "scan_loop r [] = r"
| "scan_loop r (opcode # b) =
     (if is_push_opcode opcode
      then (case ReadPushLength opcode b of
              None \<Rightarrow> r\<lparr>scan_valid := False\<rparr>
            | Some (_, b') \<Rightarrow> scan_loop r b')
      else scan_loop (scan_opcode opcode r) b)"
  by pat_completeness auto
termination
  by (relation "measure (length \<circ> snd)") (auto dest: ReadPushLength_length)

definition ScanStatefulContractScript :: "bytes \<Rightarrow> StatefulScriptScanResult" where
  "ScanStatefulContractScript script = scan_loop scan_init script"

subsection \<open>Canonical data pushes\<close>

definition canonical_push :: "bytes \<Rightarrow> bytes" where
  "canonical_push data =
     (let n = length data in
      (if n = 0 then [OP_0] else if n \<le> 0x4b then [word_of_nat n]
       else if n \<le> 0xff then [OP_PUSHDATA1, word_of_nat n]
       else [OP_PUSHDATA2, word_of_nat (n mod 256), word_of_nat (n div 256 mod 256)]) @ data)"

abbreviation pushable :: "bytes \<Rightarrow> bool" where
  "pushable d \<equiv> length d \<le> 0xffff"

lemma AppendCanonicalDataPush_eq:
  "AppendCanonicalDataPush s d = (if pushable d then Some (s @ canonical_push d) else None)"
  by (auto simp: AppendCanonicalDataPush_def canonical_push_def Let_def)

lemma canonical_push_nonempty [simp]: "canonical_push d \<noteq> []"
  by (simp add: canonical_push_def Let_def)

lemma take_field_eq:
  assumes "length f \<le> 8"
  shows "take_field (length f) (f @ r) = Some (le_nat f, r)"
  using assms unat_le_val [of f, where 'a = 64] by (simp add: take_field_def)

lemma take_field_Some:
  assumes "take_field n b = Some (m, r)" and "n \<le> 8"
  shows "\<exists>f. length f = n \<and> le_nat f = m \<and> b = f @ r"
proof -
  have "n \<le> length b" "m = unat (le_val (take n b) :: u64)" "r = drop n b"
    using assms(1) by (auto simp: take_field_def split: if_splits)
  then show ?thesis
    using assms(2) unat_le_val [of "take n b", where 'a = 64]
    by (intro exI [of _ "take n b"]) simp
qed

lemma take_field_1 [simp]: "take_field (Suc 0) (x # r) = Some (unat x, r)"
  using take_field_eq [of "[x]" r] by simp

lemma take_field_2: "take_field 2 (x # y # r) = Some (unat x + 256 * unat y, r)"
  using take_field_eq [of "[x, y]" r] by (simp add: numeral_2_eq_2)

lemma unat_small [simp]: "n < 256 \<Longrightarrow> unat (word_of_nat n :: byte) = n"
  by (rule unat_word_of_nat_less) simp

lemma push_field_2:
  "n \<le> 0xffff \<Longrightarrow>
   take_field 2 (word_of_nat (n mod 256) # word_of_nat (n div 256 mod 256) # r) = Some (n, r)"
proof -
  assume "n \<le> 0xffff"
  then have "n div 256 mod 256 = n div 256" by simp
  moreover have "unat (word_of_nat (n mod 256) :: byte) = n mod 256"
    by (rule unat_small) simp
  moreover have "unat (word_of_nat (n div 256) :: byte) = n div 256"
    by (rule unat_small) (use \<open>n \<le> 0xffff\<close> in simp)
  ultimately show ?thesis by (simp add: take_field_2 del: unat_of_nat of_nat_mod of_nat_div)
qed

lemma direct_push_byte:
  assumes "0 < n" and "n \<le> 0x4b"
  shows "(word_of_nat n :: byte) > OP_0" and "(word_of_nat n :: byte) \<le> 0x4b"
    and "(word_of_nat n :: byte) \<noteq> OP_0"
proof -
  have u: "unat (word_of_nat n :: byte) = n" using assms by (intro unat_small) simp
  show "(word_of_nat n :: byte) > OP_0" "(word_of_nat n :: byte) \<le> 0x4b"
    using assms by (simp_all add: word_less_nat_alt word_le_nat_alt u del: unat_of_nat)
  then show "(word_of_nat n :: byte) \<noteq> OP_0" by auto
qed

lemma canonical_push_cases:
  assumes "pushable d"
  obtains (empty) "d = []" "canonical_push d = [OP_0]"
  | (direct) "0 < length d" "length d \<le> 0x4b" "canonical_push d = word_of_nat (length d) # d"
  | (one) "0x4b < length d" "length d \<le> 0xff"
      "canonical_push d = OP_PUSHDATA1 # word_of_nat (length d) # d"
  | (two) "0xff < length d" "length d \<le> 0xffff" "canonical_push d =
      OP_PUSHDATA2 # word_of_nat (length d mod 256) # word_of_nat (length d div 256 mod 256) # d"
proof -
  consider "length d = 0" | "0 < length d" "length d \<le> 0x4b" | "0x4b < length d" "length d \<le> 0xff"
    | "0xff < length d" "length d \<le> 0xffff"
    using assms by linarith
  then show thesis
  proof cases
    case 1
    then show thesis by (intro empty) (simp_all add: canonical_push_def)
  next
    case 2
    then show thesis by (intro direct) (simp_all add: canonical_push_def)
  next
    case 3
    then show thesis by (intro one) (auto simp: canonical_push_def Let_def)
  next
    case 4
    then show thesis by (intro two) (auto simp: canonical_push_def Let_def)
  qed
qed

lemma read_canonical_push [codec_simps]:
  assumes "pushable d"
  shows "ReadCanonicalDataPush (canonical_push d @ r) = Some (d, r)"
  using assms
proof (cases rule: canonical_push_cases)
  case direct
  then have "unat (word_of_nat (length d) :: byte) = length d" by (intro unat_small) simp
  then show ?thesis
    using direct direct_push_byte [of "length d"]
    by (simp add: ReadCanonicalDataPush_def del: unat_of_nat)
next
  case one
  then have "unat (word_of_nat (length d) :: byte) = length d" by (intro unat_small) simp
  then show ?thesis using one by (simp add: ReadCanonicalDataPush_def del: unat_of_nat)
next
  case two
  then show ?thesis
    using push_field_2 [of "length d" "d @ r"] by (simp add: ReadCanonicalDataPush_def)
qed (simp add: ReadCanonicalDataPush_def)

lemma unat_byte_inverse: "unat (b :: byte) = n \<Longrightarrow> word_of_nat n = b"
  by auto

lemma le_nat_bytes_2:
  "length f = 2 \<Longrightarrow> f = [word_of_nat (le_nat f mod 256), word_of_nat (le_nat f div 256 mod 256)]"
proof -
  assume "length f = 2"
  then obtain x y where f: "f = [x, y]" by (auto simp: length_Suc_conv numeral_2_eq_2)
  have "unat x < 256" "unat y < 256" using unat_byte_less by blast+
  then have m: "(unat x + 256 * unat y) mod 256 = unat x"
    and d: "(unat x + 256 * unat y) div 256 mod 256 = unat y" by simp_all
  show ?thesis unfolding f le_nat.simps mult_0_right add_0_right m d by simp
qed

lemma read_canonical_Some:
  assumes "ReadCanonicalDataPush s = Some (d, r)"
  shows "pushable d \<and> s = canonical_push d @ r"
proof -
  obtain opcode b where s: "s = opcode # b"
    using assms by (cases s) (simp_all add: ReadCanonicalDataPush_def)
  consider (zero) "opcode = OP_0" | (direct) "opcode > OP_0" "opcode \<le> 0x4b" "opcode \<noteq> OP_0"
    | (one) "opcode = OP_PUSHDATA1" | (two) "opcode = OP_PUSHDATA2"
    using assms by (auto simp: s ReadCanonicalDataPush_def split: if_splits)
  then show ?thesis
  proof cases
    case zero
    then show ?thesis using assms by (simp add: s ReadCanonicalDataPush_def canonical_push_def)
  next
    case direct
    have d: "unat opcode \<le> length b" "d = take (unat opcode) b" "r = drop (unat opcode) b"
      using assms direct by (auto simp: s ReadCanonicalDataPush_def split: if_splits)
    have u: "0 < unat opcode" "unat opcode \<le> 0x4b"
      using direct by (simp_all add: word_le_nat_alt unat_gt_0)
    have l: "length d = unat opcode" using d by simp
    have "canonical_push d = opcode # d" unfolding canonical_push_def l Let_def using u by simp
    then show ?thesis using d u l by (simp add: s)
  next
    case one
    then obtain f b' where t: "take_field 1 b = Some (f, b')"
      using assms by (auto simp: s ReadCanonicalDataPush_def split: option.splits)
    then obtain x where x: "b = x # b'" "unat x = f"
      using take_field_Some [OF t] by (auto simp: length_Suc_conv)
    have d: "0x4b < f" "f \<le> length b'" "d = take f b'" "r = drop f b'"
      using assms one t by (auto simp: s ReadCanonicalDataPush_def split: if_splits)
    then have l: "length d = f" by simp
    have f: "f \<le> 0xff" "word_of_nat f = x" using x unat_byte_less [of x] by auto
    have "canonical_push d = OP_PUSHDATA1 # x # d"
      unfolding canonical_push_def l Let_def using d f by auto
    then show ?thesis using d x one l f by (simp add: s)
  next
    case two
    then obtain m b' where t: "take_field 2 b = Some (m, b')"
      using assms by (auto simp: s ReadCanonicalDataPush_def split: option.splits)
    then obtain f where f: "length f = 2" "le_nat f = m" "b = f @ b'"
      using take_field_Some [OF t] by auto
    have d: "0xff < m" "m \<le> length b'" "d = take m b'" "r = drop m b'"
      using assms two t by (auto simp: s ReadCanonicalDataPush_def split: if_splits)
    then have l: "length d = m" by simp
    have m: "m \<le> 0xffff" using le_nat_less [of f] f by simp
    have "canonical_push d = OP_PUSHDATA2 # f @ d"
      unfolding canonical_push_def l Let_def using d le_nat_bytes_2 [OF f(1)] f(2) by auto
    then show ?thesis using d two l m f by (simp add: s)
  qed
qed

interpretation data_push: stream_codec pushable canonical_push ReadCanonicalDataPush
  by unfold_locales (simp_all add: read_canonical_push read_canonical_Some)

lemma read_step:
  "ReadCanonicalDataPush s = Some (d, r) \<Longrightarrow> canonical_push_step s = Some r"
  by (auto simp: ReadCanonicalDataPush_def canonical_push_step_def Let_def
      split: list.splits if_splits option.splits)

lemma push_only_push:
  "pushable d \<Longrightarrow>
   IsCanonicalPushOnlyUnlockScript (canonical_push d @ r) = IsCanonicalPushOnlyUnlockScript r"
  using read_step [OF read_canonical_push] by (subst IsCanonicalPushOnlyUnlockScript.simps) simp

lemma push_only_Nil [simp]: "IsCanonicalPushOnlyUnlockScript []"
  by (subst IsCanonicalPushOnlyUnlockScript.simps) simp

subsection \<open>The unlock script of a stateful call\<close>

definition kv_script :: "string \<Rightarrow> bytes \<Rightarrow> bytes" where
  "kv_script key val = canonical_push (bytes_of_string key) @ canonical_push val"

lemma kv_push_only:
  "pushable (bytes_of_string key) \<Longrightarrow> pushable val \<Longrightarrow>
     IsCanonicalPushOnlyUnlockScript (kv_script key val)"
  using push_only_push [of "bytes_of_string key" "canonical_push val"] push_only_push [of val "[]"]
  by (simp add: kv_script_def)

lemma allowed_pushable:
  "IsLogicalKeyAllowed key \<Longrightarrow> pushable (bytes_of_string key)"
  "IsValueAllowed val \<Longrightarrow> pushable val"
  by (simp_all add: IsLogicalKeyAllowed_def IsValueAllowed_def state_limit_defs)

lemma kv_build_eq:
  "BuildStatefulKvV1UnlockScript key val =
     (if IsLogicalKeyAllowed key \<and> IsValueAllowed val then Some (kv_script key val) else None)"
  using kv_push_only [of key val] allowed_pushable
  by (simp add: BuildStatefulKvV1UnlockScript_def AppendCanonicalDataPush_eq
      flip: kv_script_def)

lemma kv_decode_eq:
  "DecodeStatefulKvV1UnlockScript s = Some (key, val) \<longleftrightarrow>
     IsLogicalKeyAllowed key \<and> IsValueAllowed val \<and> s = kv_script key val"
proof
  assume "DecodeStatefulKvV1UnlockScript s = Some (key, val)"
  then obtain kb b1 where r1: "ReadCanonicalDataPush s = Some (kb, b1)"
    and r2: "ReadCanonicalDataPush b1 = Some (val, [])"
    and k: "key = string_of_bytes kb" "IsLogicalKeyAllowed key" "IsValueAllowed val"
    by (auto simp: DecodeStatefulKvV1UnlockScript_def Let_def split: if_splits option.splits)
  then show "IsLogicalKeyAllowed key \<and> IsValueAllowed val \<and> s = kv_script key val"
    using read_canonical_Some [OF r1] read_canonical_Some [OF r2] by (simp add: kv_script_def)
next
  assume a: "IsLogicalKeyAllowed key \<and> IsValueAllowed val \<and> s = kv_script key val"
  then have p: "pushable (bytes_of_string key)" "pushable val" using allowed_pushable by blast+
  have "ReadCanonicalDataPush s = Some (bytes_of_string key, canonical_push val)"
    "ReadCanonicalDataPush (canonical_push val) = Some (val, [])"
    using a read_canonical_push [OF p(1)] read_canonical_push [OF p(2), of "[]"]
    by (simp_all add: kv_script_def)
  then show "DecodeStatefulKvV1UnlockScript s = Some (key, val)"
    using a kv_push_only [OF p] by (simp add: DecodeStatefulKvV1UnlockScript_def)
qed

interpretation kv_unlock: codec "\<lambda>(key, val). BuildStatefulKvV1UnlockScript key val"
  DecodeStatefulKvV1UnlockScript
  by unfold_locales (auto simp: kv_build_eq kv_decode_eq split: if_splits)

text \<open>
  The unlock script of a stateful call is a canonical encoding of its key and value: a script
  decodes to a key and value exactly when building them gives that script, so a relayed call
  cannot be rewritten into another script with the same meaning.
\<close>

theorem kv_unlock_canonical:
  "DecodeStatefulKvV1UnlockScript s = Some (key, val) \<longleftrightarrow>
     BuildStatefulKvV1UnlockScript key val = Some s"
  using kv_unlock.enc_iff_dec [of "(key, val)" s] by simp

subsection \<open>What the scan reports\<close>

text \<open>The executable opcodes of a script, in order; \<open>None\<close> when a push runs past the end.\<close>

function opcodes_of :: "bytes \<Rightarrow> byte list option" where
  "opcodes_of [] = Some []"
| "opcodes_of (opcode # b) =
     (if is_push_opcode opcode
      then (case ReadPushLength opcode b of None \<Rightarrow> None | Some (_, b') \<Rightarrow> opcodes_of b')
      else map_option ((#) opcode) (opcodes_of b))"
  by pat_completeness auto
termination
  by (relation "measure length") (auto dest: ReadPushLength_length)

lemma scan_opcode_valid [simp]: "scan_valid (scan_opcode op r) = scan_valid r"
  by (simp add: scan_opcode_def)

lemma scan_loop_eq:
  "case opcodes_of s of
     None \<Rightarrow> \<not> scan_valid (scan_loop r s)
   | Some ops \<Rightarrow> scan_loop r s = fold scan_opcode ops r"
proof (induction r s rule: scan_loop.induct)
  case (2 r opcode b)
  show ?case
  proof (cases "is_push_opcode opcode")
    case push: True
    show ?thesis
    proof (cases "ReadPushLength opcode b")
      case (Some x)
      obtain n b' where "x = (n, b')" by (cases x)
      then show ?thesis using 2(1) [OF push Some, of n b'] push Some
        by (cases "opcodes_of b'") simp_all
    qed (simp add: push)
  next
    case False
    then show ?thesis using 2(2) by (cases "opcodes_of b") simp_all
  qed
qed simp

lemma fold_scan_valid: "scan_valid (fold scan_opcode ops r) = scan_valid r"
  by (induction ops arbitrary: r) auto

definition state_opcodes :: "byte set" where
  "state_opcodes = {OP_STORE, OP_LOAD, OP_MINT_TOKEN}"

lemma scan_opcode_flags:
  "usesStateDomain (scan_opcode op r) \<longleftrightarrow> usesStateDomain r \<or> op \<in> state_opcodes"
  "usesStoreOrLoad (scan_opcode op r) \<longleftrightarrow> usesStoreOrLoad r \<or> op \<in> {OP_STORE, OP_LOAD}"
  "usesMintToken (scan_opcode op r) \<longleftrightarrow> usesMintToken r \<or> op = OP_MINT_TOKEN"
  "usesMultisigOpcode (scan_opcode op r) \<longleftrightarrow>
     usesMultisigOpcode r \<or> op \<in> {OP_CHECKMULTISIG, OP_CHECKMULTISIGVERIFY}"
  "usesExternalData (scan_opcode op r) \<longleftrightarrow> usesExternalData r \<or> op = OP_EXTERNALDATA"
  "usesDataFeed (scan_opcode op r) \<longleftrightarrow> usesDataFeed r \<or> op = OP_DATAFEED"
  "usesDelegateCheck (scan_opcode op r) \<longleftrightarrow> usesDelegateCheck r \<or> op = OP_DELEGATECHECK"
  "usesBridgeOpcode (scan_opcode op r) \<longleftrightarrow>
     usesBridgeOpcode r \<or> op \<in> {OP_NOVO_GENADDR, OP_NOVO_DEPOSIT, OP_NOVO_REDEEM, OP_NOVO_VERIFY,
        OP_BSTY_GENADDR, OP_BSTY_DEPOSIT, OP_BSTY_REDEEM, OP_BSTY_VERIFY}"
  by (auto simp: scan_opcode_def state_opcodes_def)

lemma fold_flag:
  assumes "\<And>op r. f (scan_opcode op r) \<longleftrightarrow> f r \<or> P op"
  shows "f (fold scan_opcode ops r) \<longleftrightarrow> f r \<or> (\<exists>op\<in>set ops. P op)"
  using assms by (induction ops arbitrary: r) auto

lemmas fold_scan_flags = scan_opcode_flags [THEN fold_flag]

text \<open>
  The scan sees exactly the executable opcodes. It reports a script as malformed precisely
  when a push runs past its end, and otherwise each classification flag is set precisely when an
  opcode of that class occurs outside pushed data.
\<close>

theorem scan_classifies_opcodes:
  "case opcodes_of s of
     None \<Rightarrow> \<not> scan_valid (ScanStatefulContractScript s)
   | Some ops \<Rightarrow>
       scan_valid (ScanStatefulContractScript s) \<and>
       (usesStateDomain (ScanStatefulContractScript s) \<longleftrightarrow>
          OP_STORE \<in> set ops \<or> OP_LOAD \<in> set ops \<or> OP_MINT_TOKEN \<in> set ops) \<and>
       (usesStoreOrLoad (ScanStatefulContractScript s) \<longleftrightarrow> OP_STORE \<in> set ops \<or> OP_LOAD \<in> set ops) \<and>
       (usesMintToken (ScanStatefulContractScript s) \<longleftrightarrow> OP_MINT_TOKEN \<in> set ops) \<and>
       (usesMultisigOpcode (ScanStatefulContractScript s) \<longleftrightarrow>
          OP_CHECKMULTISIG \<in> set ops \<or> OP_CHECKMULTISIGVERIFY \<in> set ops) \<and>
       (usesDataFeed (ScanStatefulContractScript s) \<longleftrightarrow> OP_DATAFEED \<in> set ops)"
proof (cases "opcodes_of s")
  case None
  then show ?thesis using scan_loop_eq [where s = s and r = scan_init] by (simp add: ScanStatefulContractScript_def)
next
  case (Some ops)
  then have "ScanStatefulContractScript s = fold scan_opcode ops scan_init"
    using scan_loop_eq [where s = s and r = scan_init] by (simp add: ScanStatefulContractScript_def)
  then show ?thesis
    by (auto simp: Some fold_scan_valid fold_scan_flags scan_init_def state_opcodes_def)
qed

lemma ReadPushLength_canonical:
  assumes "pushable d" and "d \<noteq> []"
  shows "\<exists>opcode b. canonical_push d @ r = opcode # b \<and> is_push_opcode opcode \<and>
    ReadPushLength opcode b = Some (length d, r)"
  using assms(1)
proof (cases rule: canonical_push_cases)
  case direct
  then have "unat (word_of_nat (length d) :: byte) = length d" by (intro unat_small) simp
  then show ?thesis
    using direct direct_push_byte [of "length d"]
    by (simp add: ReadPushLength_def is_push_opcode_def del: unat_of_nat)
next
  case one
  then have "unat (word_of_nat (length d) :: byte) = length d" by (intro unat_small) simp
  then show ?thesis
    using one by (simp add: ReadPushLength_def is_push_opcode_def del: unat_of_nat)
next
  case two
  then show ?thesis
    using push_field_2 [of "length d" "d @ r"] by (simp add: ReadPushLength_def is_push_opcode_def)
qed (use assms in simp)

text \<open>
  Pushed data is invisible. Prefixing any script with a canonical push changes nothing in
  what the scan reports, whatever bytes are pushed: no opcode can be smuggled in as data, nor a
  data byte be mistaken for one.
\<close>

lemma scan_ignores_pushed_data:
  assumes "length d \<le> 0xffff"
  shows "ScanStatefulContractScript (canonical_push d @ s) = ScanStatefulContractScript s"
proof (cases "d = []")
  case True
  then have "canonical_push d = [OP_0]" by (simp add: canonical_push_def)
  moreover have "scan_opcode OP_0 r = r" "\<not> is_push_opcode OP_0" for r
    by (simp_all add: scan_opcode_def is_push_opcode_def)
  ultimately show ?thesis by (simp add: ScanStatefulContractScript_def)
next
  case False
  then show ?thesis
    using ReadPushLength_canonical [OF assms False, of s]
    by (auto simp: ScanStatefulContractScript_def)
qed

theorem scan_ignores_pushed_data_witness:
  "ScanStatefulContractScript (canonical_push [OP_STORE, OP_LOAD] @ [OP_1]) =
   ScanStatefulContractScript [OP_1]"
  by (rule scan_ignores_pushed_data) simp

end
