(* ===== verification/Lock_Templates.thy ===== *)
theory Lock_Templates
  imports Script_Push "HOL-Library.Multiset"
begin

text \<open>
  The byte-exact locking-script families of \<open>contract_call_policy.h\<close>: 2-of-3 multisig escrow,
  HTLC atomic swap, time lock, hash lock, MagicLock, oracle lock and the P2PKH hex helpers. A
  \<open>std::array\<close> of n bytes is a byte list of length n. Comparison of keys is the lexicographic
  order of byte lists.
\<close>

definition slice :: "nat \<Rightarrow> nat \<Rightarrow> 'a list \<Rightarrow> 'a list" where
  "slice i n s = take n (drop i s)"

definition DecodeScriptHexStrict :: "string \<Rightarrow> bytes option" where
  "DecodeScriptHexStrict hex =
     (if hex = [] \<or> length hex mod 2 \<noteq> 0 then None else hex_decode hex)"

subsection \<open>Multisig escrow\<close>

definition IsCanonicalCompressedSecp256k1Encoding :: "bytes \<Rightarrow> bool" where
  "IsCanonicalCompressedSecp256k1Encoding pubkey \<longleftrightarrow> pubkey ! 0 = 0x02 \<or> pubkey ! 0 = 0x03"

record CanonicalMultisig2of3V1Info =
  pubkeys :: "bytes list"

definition ParseCanonicalMultisig2of3V1Script :: "bytes \<Rightarrow> CanonicalMultisig2of3V1Info option" where
  "ParseCanonicalMultisig2of3V1Script script =
     (if length script \<noteq> 105 \<or> script ! 0 \<noteq> OP_2 \<or> script ! 1 \<noteq> 0x21 \<or> script ! 35 \<noteq> 0x21 \<or>
         script ! 69 \<noteq> 0x21 \<or> script ! 103 \<noteq> OP_3 \<or> script ! 104 \<noteq> OP_CHECKMULTISIG
      then None
      else
        let keys = map (\<lambda>start. slice start 33 script) [2, 36, 70] in
        if \<not> list_all IsCanonicalCompressedSecp256k1Encoding keys then None
        else if \<not> (keys ! 0 < keys ! 1 \<and> keys ! 1 < keys ! 2) then None
        else Some \<lparr>pubkeys = keys\<rparr>)"

definition ParseCanonicalMultisig2of3V1ScriptHex ::
    "string \<Rightarrow> CanonicalMultisig2of3V1Info option" where
  "ParseCanonicalMultisig2of3V1ScriptHex scriptHex =
     Option.bind (DecodeScriptHexStrict scriptHex) ParseCanonicalMultisig2of3V1Script"

definition BuildCanonicalMultisig2of3V1Script :: "bytes list \<Rightarrow> bytes option" where
  "BuildCanonicalMultisig2of3V1Script participantKeys =
     (let sorted = sort participantKeys in
      if \<not> list_all IsCanonicalCompressedSecp256k1Encoding sorted then None
      else if \<not> (sorted ! 0 < sorted ! 1 \<and> sorted ! 1 < sorted ! 2) then None
      else
        let script = OP_2 # concat (map (\<lambda>key. 0x21 # key) sorted) @ [OP_3, OP_CHECKMULTISIG] in
        case ParseCanonicalMultisig2of3V1Script script of
          None \<Rightarrow> None
        | Some parsed \<Rightarrow> Some script)"

subsection \<open>HTLC atomic swap\<close>

record CanonicalHtlcAtomicSwapV1Info =
  secretHash160 :: bytes
  claimPubkey :: bytes
  refundLockTime :: u32
  refundPubkey :: bytes

definition TRU_CLTV_TIMESTAMP_THRESHOLD :: u32 where "TRU_CLTV_TIMESTAMP_THRESHOLD = 500000000"
definition TRU_CLTV_TIMESTAMP_MAX :: u32 where "TRU_CLTV_TIMESTAMP_MAX = 0x7fffffff"

definition ParseCanonicalHtlcAtomicSwapV1Script ::
    "bytes \<Rightarrow> CanonicalHtlcAtomicSwapV1Info option" where
  "ParseCanonicalHtlcAtomicSwapV1Script script =
     (if length script \<noteq> 103 \<or> script ! 0 \<noteq> OP_IF \<or> script ! 1 \<noteq> OP_HASH160 \<or> script ! 2 \<noteq> 0x14 \<or>
         script ! 23 \<noteq> OP_EQUALVERIFY \<or> script ! 24 \<noteq> 0x21 \<or> script ! 58 \<noteq> OP_CHECKSIG \<or>
         script ! 59 \<noteq> OP_ELSE \<or> script ! 60 \<noteq> 0x04 \<or> script ! 65 \<noteq> OP_CHECKLOCKTIMEVERIFY \<or>
         script ! 66 \<noteq> OP_DROP \<or> script ! 67 \<noteq> 0x21 \<or> script ! 101 \<noteq> OP_CHECKSIG \<or>
         script ! 102 \<noteq> OP_ENDIF
      then None
      else
        let secret = slice 3 20 script;
            claim = slice 25 33 script;
            refund = slice 68 33 script;
            lockTime = (le_val (slice 61 4 script) :: u32) in
        if lockTime < TRU_CLTV_TIMESTAMP_THRESHOLD \<or> lockTime > TRU_CLTV_TIMESTAMP_MAX \<or>
           \<not> IsCanonicalCompressedSecp256k1Encoding claim \<or>
           \<not> IsCanonicalCompressedSecp256k1Encoding refund \<or> claim = refund
        then None
        else Some \<lparr>secretHash160 = secret, claimPubkey = claim, refundLockTime = lockTime,
                   refundPubkey = refund\<rparr>)"

definition ParseCanonicalHtlcAtomicSwapV1ScriptHex ::
    "string \<Rightarrow> CanonicalHtlcAtomicSwapV1Info option" where
  "ParseCanonicalHtlcAtomicSwapV1ScriptHex scriptHex =
     Option.bind (DecodeScriptHexStrict scriptHex) ParseCanonicalHtlcAtomicSwapV1Script"

definition BuildCanonicalHtlcAtomicSwapV1Script ::
    "bytes \<Rightarrow> bytes \<Rightarrow> bytes \<Rightarrow> u32 \<Rightarrow> bytes option" where
  "BuildCanonicalHtlcAtomicSwapV1Script secret claim refund lockTime =
     (if lockTime < TRU_CLTV_TIMESTAMP_THRESHOLD \<or> lockTime > TRU_CLTV_TIMESTAMP_MAX \<or>
         \<not> IsCanonicalCompressedSecp256k1Encoding claim \<or>
         \<not> IsCanonicalCompressedSecp256k1Encoding refund \<or> claim = refund
      then None
      else
        let script = [OP_IF, OP_HASH160, 0x14] @ secret @ [OP_EQUALVERIFY, 0x21] @ claim @
              [OP_CHECKSIG, OP_ELSE, 0x04] @ le_bytes 4 lockTime @
              [OP_CHECKLOCKTIMEVERIFY, OP_DROP, 0x21] @ refund @ [OP_CHECKSIG, OP_ENDIF] in
        case ParseCanonicalHtlcAtomicSwapV1Script script of
          None \<Rightarrow> None
        | Some parsed \<Rightarrow> Some script)"

subsection \<open>Time, hash, magic and oracle locks\<close>

record CanonicalTimeLockV1Info =
  lockTime :: u32
  tl_ownerHash160 :: string

record CanonicalOracleLockV1Info =
  feed :: string
  threshold :: u64
  comparator :: string
  ol_ownerHash160 :: string

record CanonicalMagicLockV1Info =
  targetPrefix :: string
  ml_ownerHash160 :: string

definition HexLowerExact :: "bytes \<Rightarrow> string" where
  "HexLowerExact data = hex_encode data"

definition ParseCanonicalTimeLockV1Script :: "bytes \<Rightarrow> CanonicalTimeLockV1Info option" where
  "ParseCanonicalTimeLockV1Script script =
     (if length script \<noteq> 32 \<or> script ! 0 \<noteq> 0x04 \<or> script ! 5 \<noteq> OP_CHECKLOCKTIMEVERIFY \<or>
         script ! 6 \<noteq> OP_DROP \<or> script ! 7 \<noteq> OP_DUP \<or> script ! 8 \<noteq> OP_HASH160 \<or> script ! 9 \<noteq> 0x14 \<or>
         script ! 30 \<noteq> OP_EQUALVERIFY \<or> script ! 31 \<noteq> OP_CHECKSIG
      then None
      else Some \<lparr>lockTime = le_val (slice 1 4 script),
                 tl_ownerHash160 = HexLowerExact (slice 10 20 script)\<rparr>)"

definition ParseCanonicalTimeLockV1ScriptHex :: "string \<Rightarrow> CanonicalTimeLockV1Info option" where
  "ParseCanonicalTimeLockV1ScriptHex scriptHex =
     Option.bind (DecodeScriptHexStrict scriptHex) ParseCanonicalTimeLockV1Script"

definition ParseCanonicalHashLockV1ScriptHex :: "string \<Rightarrow> string option" where
  "ParseCanonicalHashLockV1ScriptHex scriptHex =
     (case DecodeScriptHexStrict scriptHex of
        None \<Rightarrow> None
      | Some script \<Rightarrow>
          if length script \<noteq> 23 \<or> script ! 0 \<noteq> OP_HASH160 \<or> script ! 1 \<noteq> 0x14 \<or>
             script ! 22 \<noteq> OP_EQUAL
          then None
          else Some (HexLowerExact (slice 2 20 script)))"

text \<open>
  The MagicLock parser walks an index; after the two length bytes it reads everything at an
  offset of the target length. \<open>pc\<close> is the index after the length operand.
\<close>

definition magic_target_length :: "bytes \<Rightarrow> (nat \<times> nat) option" where
  "magic_target_length script =
     (let lenOp = script ! 2 in
      if lenOp \<ge> OP_1 \<and> lenOp \<le> OP_16 then Some (unat (lenOp - OP_1) + 1, 3)
      else if lenOp = 0x01 then
        (if length script \<le> 3 then None
         else
           let targetLen = unat (script ! 3) in
           if targetLen \<le> 16 \<or> targetLen > 0x4b then None else Some (targetLen, 4))
      else None)"

definition ParseCanonicalMagicLockV1Script :: "bytes \<Rightarrow> CanonicalMagicLockV1Info option" where
  "ParseCanonicalMagicLockV1Script script =
     (if length script < 2 + 1 + 1 + 1 + 1 + 26 then None
      else if script ! 0 \<noteq> OP_SWAP \<or> script ! 1 \<noteq> OP_HASH256 then None
      else case magic_target_length script of
        None \<Rightarrow> None
      | Some (targetLen, pc) \<Rightarrow>
          if pc \<ge> length script \<or> script ! pc \<noteq> OP_LEFT \<or> pc + 1 \<ge> length script then None
          else if script ! (pc + 1) \<noteq> word_of_nat targetLen \<or> targetLen = 0 \<or> targetLen > 0x4b \<or>
                  targetLen > length script - (pc + 2)
          then None
          else
            let p = pc + 2 + targetLen in
            if length script - p \<noteq> 26 \<or> script ! p \<noteq> OP_EQUALVERIFY \<or> script ! (p + 1) \<noteq> OP_DUP \<or>
               script ! (p + 2) \<noteq> OP_HASH160 \<or> script ! (p + 3) \<noteq> 0x14
            then None
            else if script ! (p + 24) \<noteq> OP_EQUALVERIFY \<or> script ! (p + 25) \<noteq> OP_CHECKSIG then None
            else Some \<lparr>targetPrefix = HexLowerExact (slice (pc + 2) targetLen script),
                       ml_ownerHash160 = HexLowerExact (slice (p + 4) 20 script)\<rparr>)"

definition ParseCanonicalMagicLockV1ScriptHex :: "string \<Rightarrow> CanonicalMagicLockV1Info option" where
  "ParseCanonicalMagicLockV1ScriptHex scriptHex =
     Option.bind (DecodeScriptHexStrict scriptHex) ParseCanonicalMagicLockV1Script"

definition ParseCanonicalOracleLockV1Script :: "bytes \<Rightarrow> CanonicalOracleLockV1Info option" where
  "ParseCanonicalOracleLockV1Script script =
     (if length script \<noteq> 56 \<or> script ! 0 \<noteq> 0x12 \<or> script ! 19 \<noteq> OP_DATAFEED \<or> script ! 20 \<noteq> 0x08 \<or>
         (script ! 29 \<noteq> OP_LESSTHANOREQUAL \<and> script ! 29 \<noteq> OP_GREATERTHANOREQUAL) \<or>
         script ! 30 \<noteq> OP_VERIFY \<or> script ! 31 \<noteq> OP_DUP \<or> script ! 32 \<noteq> OP_HASH160 \<or>
         script ! 33 \<noteq> 0x14 \<or> script ! 54 \<noteq> OP_EQUALVERIFY \<or> script ! 55 \<noteq> OP_CHECKSIG
      then None
      else
        let fd = string_of_bytes (slice 1 18 script) in
        if fd \<noteq> ''chain:block_height'' \<and> fd \<noteq> ''chain:total_supply'' \<and> fd \<noteq> ''chain:block_reward''
        then None
        else Some \<lparr>feed = fd, threshold = le_val (slice 21 8 script),
                   comparator = (if script ! 29 = OP_GREATERTHANOREQUAL then ''>='' else ''<=''),
                   ol_ownerHash160 = HexLowerExact (slice 34 20 script)\<rparr>)"

definition ParseCanonicalOracleLockV1ScriptHex :: "string \<Rightarrow> CanonicalOracleLockV1Info option" where
  "ParseCanonicalOracleLockV1ScriptHex scriptHex =
     Option.bind (DecodeScriptHexStrict scriptHex) ParseCanonicalOracleLockV1Script"

subsection \<open>Script hex and P2PKH\<close>

text \<open>\<open>HexNibble\<close> returns \<open>-1\<close> for a non-digit; here \<open>None\<close>.\<close>

definition HexNibble :: "char \<Rightarrow> nat option" where
  "HexNibble ch = nibble ch"

definition ScriptHexEqual :: "string \<Rightarrow> string \<Rightarrow> bool" where
  "ScriptHexEqual a b \<longleftrightarrow>
     length a = length b \<and> length a mod 2 = 0 \<and>
     list_all2 (\<lambda>x y. HexNibble x \<noteq> None \<and> HexNibble y \<noteq> None \<and> HexNibble x = HexNibble y) a b"

definition IsCanonicalP2PKHScriptHex :: "string \<Rightarrow> bool" where
  "IsCanonicalP2PKHScriptHex scriptHex \<longleftrightarrow>
     length scriptHex = 50 \<and> list_all (\<lambda>ch. HexNibble ch \<noteq> None) scriptHex \<and>
     list_all2 (\<lambda>x y. HexNibble x = HexNibble y) (take 6 scriptHex) ''76a914'' \<and>
     list_all2 (\<lambda>x y. HexNibble x = HexNibble y) (drop 46 scriptHex) ''88ac''"

definition ExtractCanonicalP2PKHHash160Hex :: "string \<Rightarrow> string option" where
  "ExtractCanonicalP2PKHHash160Hex scriptHex =
     (if \<not> IsCanonicalP2PKHScriptHex scriptHex then None
      else
        let hash = map (\<lambda>ch. map_option hex_char (HexNibble ch)) (slice 6 40 scriptHex) in
        if \<not> list_all (\<lambda>x. x \<noteq> None) hash then None
        else if length hash = 40 then Some (map the hash) else None)"

subsection \<open>Fixed layouts\<close>

lemma drop_Cons: "i < length s \<Longrightarrow> drop i s = s ! i # drop (i + 1) s"
  by (simp add: Cons_nth_drop_Suc)

lemma drop_slice: "i + n \<le> length s \<Longrightarrow> drop i s = slice i n s @ drop (i + n) s"
  unfolding slice_def by (metis add.commute append_take_drop_id drop_drop)

lemma length_slice [simp]: "i + n \<le> length s \<Longrightarrow> length (slice i n s) = n"
  by (simp add: slice_def)

lemma slice_skip: "slice (length a) n (a @ b) = take n b"
  by (simp add: slice_def)

definition multisig_layout :: "bytes \<Rightarrow> bytes \<Rightarrow> bytes \<Rightarrow> bytes" where
  "multisig_layout a b c =
     OP_2 # 0x21 # a @ 0x21 # b @ 0x21 # c @ [OP_3, OP_CHECKMULTISIG]"

lemma multisig_layout_parts:
  assumes "length a = 33" "length b = 33" "length c = 33"
  shows "length (multisig_layout a b c) = 105" "multisig_layout a b c ! 0 = OP_2"
    "multisig_layout a b c ! 1 = 0x21" "multisig_layout a b c ! 35 = 0x21"
    "multisig_layout a b c ! 69 = 0x21" "multisig_layout a b c ! 103 = OP_3"
    "multisig_layout a b c ! 104 = OP_CHECKMULTISIG"
    "slice 2 33 (multisig_layout a b c) = a" "slice 36 33 (multisig_layout a b c) = b"
    "slice 70 33 (multisig_layout a b c) = c"
  using assms by (simp_all add: multisig_layout_def nth_append slice_def)

lemma multisig_layout_unique:
  assumes "length s = 105" "s ! 0 = OP_2" "s ! 1 = 0x21" "s ! 35 = 0x21" "s ! 69 = 0x21"
    "s ! 103 = OP_3" "s ! 104 = OP_CHECKMULTISIG"
  shows "s = multisig_layout (slice 2 33 s) (slice 36 33 s) (slice 70 33 s)"
proof -
  have "s = drop 0 s" by simp
  also have "\<dots> = s ! 0 # s ! 1 # slice 2 33 s @ s ! 35 # slice 36 33 s @ s ! 69 #
      slice 70 33 s @ s ! 103 # s ! 104 # drop 105 s"
    using assms(1) by (simp add: drop_Cons [of 0] drop_Cons [of 1] drop_slice [of 2 33]
        drop_Cons [of 35] drop_slice [of 36 33] drop_Cons [of 69] drop_slice [of 70 33]
        drop_Cons [of 103] drop_Cons [of 104] del: drop_0 drop0 One_nat_def)
  finally show ?thesis using assms by (simp add: multisig_layout_def)
qed

definition multisig_ok :: "bytes list \<Rightarrow> bool" where
  "multisig_ok ks \<longleftrightarrow>
     length ks = 3 \<and> list_all (\<lambda>k. length k = 33 \<and> IsCanonicalCompressedSecp256k1Encoding k) ks"

lemma multisig_parse_iff:
  "ParseCanonicalMultisig2of3V1Script s = Some info \<longleftrightarrow>
     (\<exists>a b c. pubkeys info = [a, b, c] \<and> multisig_ok [a, b, c] \<and> a < b \<and> b < c \<and>
        s = multisig_layout a b c)"
proof
  assume p: "ParseCanonicalMultisig2of3V1Script s = Some info"
  then have h: "length s = 105" "s ! 0 = OP_2" "s ! 1 = 0x21" "s ! 35 = 0x21" "s ! 69 = 0x21"
    "s ! 103 = OP_3" "s ! 104 = OP_CHECKMULTISIG"
    by (auto simp: ParseCanonicalMultisig2of3V1Script_def split: if_splits)
  show "\<exists>a b c. pubkeys info = [a, b, c] \<and> multisig_ok [a, b, c] \<and> a < b \<and> b < c \<and>
      s = multisig_layout a b c"
    using p h multisig_layout_unique [OF h]
    by (intro exI [of _ "slice 2 33 s"] exI [of _ "slice 36 33 s"] exI [of _ "slice 70 33 s"])
      (auto simp: ParseCanonicalMultisig2of3V1Script_def multisig_ok_def Let_def
        split: if_splits)
next
  assume "\<exists>a b c. pubkeys info = [a, b, c] \<and> multisig_ok [a, b, c] \<and> a < b \<and> b < c \<and>
      s = multisig_layout a b c"
  then obtain a b c where k: "pubkeys info = [a, b, c]" "multisig_ok [a, b, c]" "a < b" "b < c"
    and s: "s = multisig_layout a b c" by blast
  have l: "length a = 33" "length b = 33" "length c = 33" using k(2) by (auto simp: multisig_ok_def)
  have "info = \<lparr>pubkeys = [a, b, c]\<rparr>" using k(1) by (cases info) simp
  then show "ParseCanonicalMultisig2of3V1Script s = Some info"
    using k unfolding ParseCanonicalMultisig2of3V1Script_def s Let_def
    by (simp add: multisig_layout_parts [OF l] multisig_layout_parts(3) [OF l, simplified]
        multisig_ok_def)
qed

lemma multisig_build_eq:
  assumes "length ks = 3" and "\<forall>k\<in>set ks. length k = 33"
  shows "BuildCanonicalMultisig2of3V1Script ks =
    (if multisig_ok ks \<and> distinct ks
     then Some (multisig_layout (sort ks ! 0) (sort ks ! 1) (sort ks ! 2)) else None)"
proof -
  have "length (sort ks) = 3" using assms by simp
  then obtain a b c where abc: "sort ks = [a, b, c]"
    unfolding numeral_3_eq_3 length_Suc_conv by blast
  have set: "set ks = {a, b, c}" using abc by (metis set_sort set_simps(1,2))
  have le: "a \<le> b" "b \<le> c" using sorted_sort [of ks] unfolding abc by auto
  have d: "distinct ks \<longleftrightarrow> a < b \<and> b < c"
  proof -
    have "distinct ks \<longleftrightarrow> distinct [a, b, c]" using abc by (metis distinct_sort)
    then show ?thesis using le by auto
  qed
  have ok: "multisig_ok ks \<longleftrightarrow> list_all IsCanonicalCompressedSecp256k1Encoding [a, b, c]"
    "multisig_ok ks \<longleftrightarrow> multisig_ok [a, b, c]"
    using assms set by (auto simp: multisig_ok_def list_all_iff)
  have "ParseCanonicalMultisig2of3V1Script (multisig_layout a b c) = Some \<lparr>pubkeys = [a, b, c]\<rparr>"
    if "multisig_ok ks" "distinct ks"
    unfolding multisig_parse_iff using that ok d by auto
  then show ?thesis
    using ok(1) d
    by (auto simp: BuildCanonicalMultisig2of3V1Script_def abc Let_def
        simp flip: multisig_layout_def split: option.splits)
qed

text \<open>
  The 2-of-3 escrow lock is canonical. Building succeeds exactly for three distinct
  compressed keys, the script does not depend on the order in which the participants are given,
  the built script parses to the sorted participants, and every script that parses is the one
  built from its own participants.
\<close>

theorem multisig_canonical:
  assumes "length ks = 3" and "\<forall>k\<in>set ks. length k = 33"
  shows "((\<exists>s. BuildCanonicalMultisig2of3V1Script ks = Some s) \<longleftrightarrow>
           distinct ks \<and> list_all IsCanonicalCompressedSecp256k1Encoding ks) \<and>
         (mset ks = mset ks' \<longrightarrow>
           BuildCanonicalMultisig2of3V1Script ks' = BuildCanonicalMultisig2of3V1Script ks) \<and>
         (BuildCanonicalMultisig2of3V1Script ks = Some s \<longrightarrow>
           ParseCanonicalMultisig2of3V1Script s = Some \<lparr>pubkeys = sort ks\<rparr>) \<and>
         (ParseCanonicalMultisig2of3V1Script s = Some info \<longrightarrow>
           BuildCanonicalMultisig2of3V1Script (pubkeys info) = Some s)"
proof (intro conjI impI)
  show "(\<exists>s. BuildCanonicalMultisig2of3V1Script ks = Some s) \<longleftrightarrow>
      distinct ks \<and> list_all IsCanonicalCompressedSecp256k1Encoding ks"
    using assms by (auto simp: multisig_build_eq [OF assms] multisig_ok_def list_all_iff)
  show "mset ks = mset ks' \<Longrightarrow>
      BuildCanonicalMultisig2of3V1Script ks' = BuildCanonicalMultisig2of3V1Script ks"
    by (simp add: BuildCanonicalMultisig2of3V1Script_def flip: sorted_list_of_multiset_mset)
  show "BuildCanonicalMultisig2of3V1Script ks = Some s \<Longrightarrow>
      ParseCanonicalMultisig2of3V1Script s = Some \<lparr>pubkeys = sort ks\<rparr>"
  proof -
    assume b: "BuildCanonicalMultisig2of3V1Script ks = Some s"
    then obtain info where p: "ParseCanonicalMultisig2of3V1Script s = Some info"
      by (auto simp: BuildCanonicalMultisig2of3V1Script_def Let_def split: if_splits option.splits)
    then obtain a b c where abc: "pubkeys info = [a, b, c]" "multisig_ok [a, b, c]"
      "s = multisig_layout a b c" unfolding multisig_parse_iff by blast
    have s: "s = multisig_layout (sort ks ! 0) (sort ks ! 1) (sort ks ! 2)"
      using b by (simp add: multisig_build_eq [OF assms] split: if_splits)
    have l: "length (sort ks) = 3" "\<forall>k\<in>set (sort ks). length k = 33" using assms by simp_all
    then have "\<forall>j<3. length (sort ks ! j) = 33" by (metis nth_mem)
    then have l3: "length (sort ks ! 0) = 33" "length (sort ks ! 1) = 33" "length (sort ks ! 2) = 33"
      by simp_all
    have abc3: "length a = 33" "length b = 33" "length c = 33"
      using abc(2) by (simp_all add: multisig_ok_def)
    have "sort ks = [sort ks ! 0, sort ks ! 1, sort ks ! 2]"
      using l(1) by (intro nth_equalityI) (auto simp: less_Suc_eq numeral_3_eq_3 numeral_2_eq_2)
    also have "\<dots> = [a, b, c]"
      using abc(3) s multisig_layout_parts [OF l3] multisig_layout_parts [OF abc3] by metis
    finally have "pubkeys info = sort ks" using abc(1) by simp
    then show ?thesis using p by (cases info) simp
  qed
  show "ParseCanonicalMultisig2of3V1Script s = Some info \<Longrightarrow>
      BuildCanonicalMultisig2of3V1Script (pubkeys info) = Some s"
  proof -
    assume "ParseCanonicalMultisig2of3V1Script s = Some info"
    then obtain a b c where k: "pubkeys info = [a, b, c]" "multisig_ok [a, b, c]" "a < b" "b < c"
      "s = multisig_layout a b c" unfolding multisig_parse_iff by blast
    have "length [a, b, c] = 3" "\<forall>k\<in>set [a, b, c]. length k = 33"
      using k(2) by (auto simp: multisig_ok_def)
    moreover have "sort [a, b, c] = [a, b, c]" using k(3,4) by (intro sorted_sort_id) auto
    ultimately show ?thesis using multisig_build_eq [of "[a, b, c]"] k by auto
  qed
qed

theorem multisig_canonical_witness:
  "\<exists>s. BuildCanonicalMultisig2of3V1Script
     [3 # replicate 32 1, 2 # replicate 32 7, 2 # replicate 32 5] = Some s"
proof -
  let ?ks = "[3 # replicate 32 1, 2 # replicate 32 7, 2 # replicate 32 5] :: bytes list"
  have "length ?ks = 3" "\<forall>k\<in>set ?ks. length k = 33" by simp_all
  moreover have "distinct ?ks" by (simp add: numeral_eq_Suc)
  moreover have "list_all IsCanonicalCompressedSecp256k1Encoding ?ks"
    by (simp add: IsCanonicalCompressedSecp256k1Encoding_def)
  ultimately show ?thesis using multisig_canonical [of ?ks] by blast
qed

subsection \<open>HTLC round trips\<close>

definition htlc_ok :: "CanonicalHtlcAtomicSwapV1Info \<Rightarrow> bool" where
  "htlc_ok i \<longleftrightarrow>
     length (secretHash160 i) = 20 \<and> length (claimPubkey i) = 33 \<and> length (refundPubkey i) = 33 \<and>
     IsCanonicalCompressedSecp256k1Encoding (claimPubkey i) \<and>
     IsCanonicalCompressedSecp256k1Encoding (refundPubkey i) \<and>
     claimPubkey i \<noteq> refundPubkey i \<and> 500000000 \<le> refundLockTime i \<and> refundLockTime i \<le> 0x7fffffff"

definition htlc_layout :: "CanonicalHtlcAtomicSwapV1Info \<Rightarrow> bytes" where
  "htlc_layout i =
     [OP_IF, OP_HASH160, 0x14] @ secretHash160 i @ [OP_EQUALVERIFY, 0x21] @ claimPubkey i @
     [OP_CHECKSIG, OP_ELSE, 0x04] @ le_bytes 4 (refundLockTime i) @
     [OP_CHECKLOCKTIMEVERIFY, OP_DROP, 0x21] @ refundPubkey i @ [OP_CHECKSIG, OP_ENDIF]"

lemma htlc_layout_parts:
  assumes "length (secretHash160 i) = 20" "length (claimPubkey i) = 33"
    "length (refundPubkey i) = 33"
  shows "length (htlc_layout i) = 103" "htlc_layout i ! 0 = OP_IF" "htlc_layout i ! 1 = OP_HASH160"
    "htlc_layout i ! 2 = 0x14" "htlc_layout i ! 23 = OP_EQUALVERIFY" "htlc_layout i ! 24 = 0x21"
    "htlc_layout i ! 58 = OP_CHECKSIG" "htlc_layout i ! 59 = OP_ELSE" "htlc_layout i ! 60 = 0x04"
    "htlc_layout i ! 65 = OP_CHECKLOCKTIMEVERIFY" "htlc_layout i ! 66 = OP_DROP"
    "htlc_layout i ! 67 = 0x21" "htlc_layout i ! 101 = OP_CHECKSIG" "htlc_layout i ! 102 = OP_ENDIF"
    "slice 3 20 (htlc_layout i) = secretHash160 i" "slice 25 33 (htlc_layout i) = claimPubkey i"
    "slice 61 4 (htlc_layout i) = le_bytes 4 (refundLockTime i)"
    "slice 68 33 (htlc_layout i) = refundPubkey i"
  using assms by (simp_all add: htlc_layout_def nth_append slice_def)

lemma htlc_layout_unique:
  assumes "length s = 103" "s ! 0 = OP_IF" "s ! 1 = OP_HASH160" "s ! 2 = 0x14"
    "s ! 23 = OP_EQUALVERIFY" "s ! 24 = 0x21" "s ! 58 = OP_CHECKSIG" "s ! 59 = OP_ELSE"
    "s ! 60 = 0x04" "s ! 65 = OP_CHECKLOCKTIMEVERIFY" "s ! 66 = OP_DROP" "s ! 67 = 0x21"
    "s ! 101 = OP_CHECKSIG" "s ! 102 = OP_ENDIF"
  shows "s = htlc_layout \<lparr>secretHash160 = slice 3 20 s, claimPubkey = slice 25 33 s,
    refundLockTime = le_val (slice 61 4 s), refundPubkey = slice 68 33 s\<rparr>"
proof -
  have le: "le_bytes 4 (le_val (slice 61 4 s) :: u32) = slice 61 4 s"
    using assms(1) by (intro le_bytes_le_val) simp_all
  have "s = drop 0 s" by simp
  also have "\<dots> = s ! 0 # s ! 1 # s ! 2 # slice 3 20 s @ s ! 23 # s ! 24 # slice 25 33 s @
      s ! 58 # s ! 59 # s ! 60 # slice 61 4 s @ s ! 65 # s ! 66 # s ! 67 # slice 68 33 s @
      s ! 101 # s ! 102 # drop 103 s"
    using assms(1)
    by (simp add: drop_Cons [of 0] drop_Cons [of 1] drop_Cons [of 2] drop_slice [of 3 20]
        drop_Cons [of 23] drop_Cons [of 24] drop_slice [of 25 33] drop_Cons [of 58]
        drop_Cons [of 59] drop_Cons [of 60] drop_slice [of 61 4] drop_Cons [of 65]
        drop_Cons [of 66] drop_Cons [of 67] drop_slice [of 68 33] drop_Cons [of 101]
        drop_Cons [of 102] del: drop_0 drop0 One_nat_def)
  finally show ?thesis using assms by (simp add: htlc_layout_def le)
qed

lemma htlc_parse_iff:
  "ParseCanonicalHtlcAtomicSwapV1Script s = Some i \<longleftrightarrow> htlc_ok i \<and> s = htlc_layout i"
proof
  assume p: "ParseCanonicalHtlcAtomicSwapV1Script s = Some i"
  then have h: "length s = 103" "s ! 0 = OP_IF" "s ! 1 = OP_HASH160" "s ! 2 = 0x14"
    "s ! 23 = OP_EQUALVERIFY" "s ! 24 = 0x21" "s ! 58 = OP_CHECKSIG" "s ! 59 = OP_ELSE"
    "s ! 60 = 0x04" "s ! 65 = OP_CHECKLOCKTIMEVERIFY" "s ! 66 = OP_DROP" "s ! 67 = 0x21"
    "s ! 101 = OP_CHECKSIG" "s ! 102 = OP_ENDIF"
    unfolding ParseCanonicalHtlcAtomicSwapV1Script_def by (simp_all split: if_splits)
  have i: "i = \<lparr>secretHash160 = slice 3 20 s, claimPubkey = slice 25 33 s,
      refundLockTime = le_val (slice 61 4 s), refundPubkey = slice 68 33 s\<rparr>"
    using p unfolding ParseCanonicalHtlcAtomicSwapV1Script_def Let_def by (simp split: if_splits)
  have "htlc_ok i"
    using p h(1) unfolding i ParseCanonicalHtlcAtomicSwapV1Script_def Let_def htlc_ok_def
    by (simp add: TRU_CLTV_TIMESTAMP_THRESHOLD_def TRU_CLTV_TIMESTAMP_MAX_def not_less
        split: if_splits)
  then show "htlc_ok i \<and> s = htlc_layout i"
    using htlc_layout_unique [OF h] unfolding i by blast
next
  assume a: "htlc_ok i \<and> s = htlc_layout i"
  then have l: "length (secretHash160 i) = 20" "length (claimPubkey i) = 33"
    "length (refundPubkey i) = 33" by (auto simp: htlc_ok_def)
  have v: "le_val (le_bytes 4 (refundLockTime i)) = refundLockTime i"
    by (simp add: le_val_le_bytes)
  show "ParseCanonicalHtlcAtomicSwapV1Script s = Some i"
    using a unfolding ParseCanonicalHtlcAtomicSwapV1Script_def Let_def
    by (simp add: htlc_layout_parts [OF l] htlc_layout_parts(3) [OF l, simplified] v htlc_ok_def
        TRU_CLTV_TIMESTAMP_THRESHOLD_def TRU_CLTV_TIMESTAMP_MAX_def not_less)
qed

definition htlc_arrays :: "CanonicalHtlcAtomicSwapV1Info \<Rightarrow> bool" where
  "htlc_arrays i \<longleftrightarrow>
     length (secretHash160 i) = 20 \<and> length (claimPubkey i) = 33 \<and> length (refundPubkey i) = 33"

lemma htlc_build_iff:
  assumes "htlc_arrays i"
  shows "BuildCanonicalHtlcAtomicSwapV1Script (secretHash160 i) (claimPubkey i) (refundPubkey i)
      (refundLockTime i) = Some s \<longleftrightarrow> htlc_ok i \<and> s = htlc_layout i"
proof -
  have ok: "htlc_ok i \<longleftrightarrow> \<not> (refundLockTime i < TRU_CLTV_TIMESTAMP_THRESHOLD \<or>
      refundLockTime i > TRU_CLTV_TIMESTAMP_MAX \<or>
      \<not> IsCanonicalCompressedSecp256k1Encoding (claimPubkey i) \<or>
      \<not> IsCanonicalCompressedSecp256k1Encoding (refundPubkey i) \<or> claimPubkey i = refundPubkey i)"
    using assms by (auto simp: htlc_ok_def htlc_arrays_def TRU_CLTV_TIMESTAMP_THRESHOLD_def
        TRU_CLTV_TIMESTAMP_MAX_def not_less)
  have p: "ParseCanonicalHtlcAtomicSwapV1Script (htlc_layout i) = Some i" if "htlc_ok i"
    unfolding htlc_parse_iff using that by simp
  show ?thesis
    unfolding BuildCanonicalHtlcAtomicSwapV1Script_def Let_def htlc_layout_def [symmetric]
    using ok p by auto
qed

interpretation htlc: codec
  "\<lambda>i. if htlc_arrays i then BuildCanonicalHtlcAtomicSwapV1Script (secretHash160 i) (claimPubkey i)
     (refundPubkey i) (refundLockTime i) else None"
  ParseCanonicalHtlcAtomicSwapV1Script
  by unfold_locales
    (auto simp: htlc_build_iff htlc_parse_iff htlc_ok_def htlc_arrays_def split: if_splits)

text \<open>
  The HTLC lock is canonical. For 20-byte secrets and 33-byte keys a script parses to the
  given roles, secret hash and refund time exactly when the builder produces that script from
  them, and the builder refuses exactly the cases of a non-compressed key, equal claim and refund
  keys, and a refund time outside 500000000..2^31-1.
\<close>

theorem htlc_canonical:
  assumes "length secret = 20" and "length claim = 33" and "length refund = 33"
  shows "(ParseCanonicalHtlcAtomicSwapV1Script s =
            Some \<lparr>secretHash160 = secret, claimPubkey = claim, refundLockTime = t,
                  refundPubkey = refund\<rparr> \<longleftrightarrow>
          BuildCanonicalHtlcAtomicSwapV1Script secret claim refund t = Some s) \<and>
         ((\<exists>s. BuildCanonicalHtlcAtomicSwapV1Script secret claim refund t = Some s) \<longleftrightarrow>
          IsCanonicalCompressedSecp256k1Encoding claim \<and>
          IsCanonicalCompressedSecp256k1Encoding refund \<and> claim \<noteq> refund \<and>
          500000000 \<le> t \<and> unat t < 2 ^ 31)"
proof -
  let ?i = "\<lparr>secretHash160 = secret, claimPubkey = claim, refundLockTime = t, refundPubkey = refund\<rparr>"
  have arr: "htlc_arrays ?i" using assms by (simp add: htlc_arrays_def)
  have t: "t \<le> 0x7fffffff \<longleftrightarrow> unat t < 2 ^ 31" by (simp add: word_le_nat_alt less_Suc_eq_le [symmetric])
  show ?thesis
    using htlc_build_iff [OF arr] assms t by (auto simp: htlc_parse_iff htlc_ok_def)
qed

theorem htlc_canonical_witness:
  "\<exists>s. BuildCanonicalHtlcAtomicSwapV1Script (replicate 20 9) (2 # replicate 32 1)
     (3 # replicate 32 1) 1700000000 = Some s"
  using htlc_canonical [of "replicate 20 9" "2 # replicate 32 1" "3 # replicate 32 1" "[]" 1700000000]
  by (simp add: IsCanonicalCompressedSecp256k1Encoding_def)

subsection \<open>P2PKH and script text\<close>

lemma DecodeScriptHexStrict_Some:
  "DecodeScriptHexStrict h = Some b \<longleftrightarrow> h \<noteq> [] \<and> hex_decode h = Some b"
  using hex_decode_length by (auto simp: DecodeScriptHexStrict_def)

lemma nibbles_byte_inject:
  assumes "h < 16" "l < 16" "h' < 16" "l' < 16" and "nibbles_byte h l = nibbles_byte h' l'"
  shows "h = h' \<and> l = l'"
proof -
  have "h * 16 + l = h' * 16 + l'"
    using arg_cong [OF assms(5), of unat] unfolding unat_nibbles_byte [OF assms(1,2)]
      unat_nibbles_byte [OF assms(3,4)] .
  then have "(h * 16 + l) div 16 = (h' * 16 + l') div 16" "(h * 16 + l) mod 16 = (h' * 16 + l') mod 16"
    by (simp_all only:)
  then show ?thesis using assms(1-4) by simp
qed

lemma hex_decode_eq_iff:
  "length a = length b \<Longrightarrow> hex_decode a = Some x \<Longrightarrow> hex_decode b = Some y \<Longrightarrow>
     x = y \<longleftrightarrow> list_all2 (\<lambda>c d. nibble c = nibble d) a b"
proof (induction a arbitrary: b x y rule: hex_decode.induct)
  case 1
  then show ?case by simp
next
  case (3 c d s)
  then obtain c' d' s' where b: "b = c' # d' # s'"
    by (cases b; cases "tl b") auto
  from 3(3) obtain h l x' where x: "nibble c = Some h" "nibble d = Some l"
    "hex_decode s = Some x'" "x = nibbles_byte h l # x'" by (auto split: option.splits)
  from 3(4) obtain h' l' y' where y: "nibble c' = Some h'" "nibble d' = Some l'"
    "hex_decode s' = Some y'" "y = nibbles_byte h' l' # y'"
    unfolding b by (auto split: option.splits)
  have n: "nibbles_byte h l = nibbles_byte h' l' \<longleftrightarrow> h = h' \<and> l = l'"
    using nibbles_byte_inject nibble_Some(1) x(1,2) y(1,2) by blast
  have "x' = y' \<longleftrightarrow> list_all2 (\<lambda>c d. nibble c = nibble d) s s'"
    using 3(1) [OF refl x(1) x(2), of s'] x(3) y(3) 3(2) b by simp
  then show ?case using n x y by (simp add: b)
qed simp

text \<open>
  Comparing script hex ignores case only. Two texts are equal for \<open>ScriptHexEqual\<close> exactly
  when both are well-formed hex and denote the same bytes.
\<close>

lemma script_hex_equal_iff:
  "ScriptHexEqual a b \<longleftrightarrow> (\<exists>x. hex_decode a = Some x \<and> hex_decode b = Some x)"
proof
  assume e: "ScriptHexEqual a b"
  then have l: "length a = length b" "even (length a)"
    and n: "list_all2 (\<lambda>c d. nibble c = nibble d) a b"
    and d: "list_all (\<lambda>c. nibble c \<noteq> None) a" "list_all (\<lambda>c. nibble c \<noteq> None) b"
    by (auto simp: ScriptHexEqual_def HexNibble_def list_all2_conv_all_nth list_all_length)
  then obtain x y where "hex_decode a = Some x" "hex_decode b = Some y"
    using hex_decode_all_nibbles by metis
  then show "\<exists>x. hex_decode a = Some x \<and> hex_decode b = Some x"
    using hex_decode_eq_iff l(1) n by blast
next
  assume "\<exists>x. hex_decode a = Some x \<and> hex_decode b = Some x"
  then obtain x where x: "hex_decode a = Some x" "hex_decode b = Some x" by blast
  then have l: "length a = length b" "even (length a)"
    using hex_decode_length [of a x] hex_decode_length [of b x] by auto
  have "list_all2 (\<lambda>c d. nibble c = nibble d) a b" using hex_decode_eq_iff [OF l(1) x] by simp
  moreover have "list_all (\<lambda>c. nibble c \<noteq> None) a" "list_all (\<lambda>c. nibble c \<noteq> None) b"
    using hex_decode_all_nibbles l x by metis+
  ultimately show "ScriptHexEqual a b"
    using l by (auto simp: ScriptHexEqual_def HexNibble_def list_all2_conv_all_nth list_all_length)
qed

definition p2pkh_script :: "bytes \<Rightarrow> bytes" where
  "p2pkh_script h = [OP_DUP, OP_HASH160, 0x14] @ h @ [OP_EQUALVERIFY, OP_CHECKSIG]"

lemma length_p2pkh_script [simp]: "length (p2pkh_script h) = length h + 5"
  by (simp add: p2pkh_script_def)

lemma hex_encode_p2pkh: "hex_encode (p2pkh_script h) = ''76a914'' @ hex_encode h @ ''88ac''"
proof -
  have "hex_encode [OP_DUP, OP_HASH160, 0x14] = ''76a914''" by code_simp
  moreover have "hex_encode [OP_EQUALVERIFY, OP_CHECKSIG] = ''88ac''" by code_simp
  ultimately show ?thesis unfolding p2pkh_script_def hex_encode_append by simp
qed

lemma list_all2_take_drop:
  "list_all2 P s t \<longleftrightarrow>
     list_all2 P (take n s) (take n t) \<and> list_all2 P (drop n s) (drop n t)"
  by (metis append_take_drop_id list_all2_appendI list_all2_dropI list_all2_takeI)

lemma p2pkh_split:
  assumes "length s = 50" "length h = 20"
  shows "list_all2 P s (hex_encode (p2pkh_script h)) \<longleftrightarrow>
    list_all2 P (take 6 s) ''76a914'' \<and> list_all2 P (slice 6 40 s) (hex_encode h) \<and>
    list_all2 P (drop 46 s) ''88ac''"
proof -
  have t: "take 6 (hex_encode (p2pkh_script h)) = ''76a914''"
    "drop 6 (hex_encode (p2pkh_script h)) = hex_encode h @ ''88ac''"
    unfolding hex_encode_p2pkh by simp_all
  have d: "take 40 (drop 6 s) = slice 6 40 s" "drop 40 (drop 6 s) = drop 46 s"
    by (simp_all add: slice_def)
  have e: "take 40 (hex_encode h @ ''88ac'') = hex_encode h" "drop 40 (hex_encode h @ ''88ac'') = ''88ac''"
    using assms by simp_all
  show ?thesis
    unfolding list_all2_take_drop [of P s _ 6] t list_all2_take_drop [of P "drop 6 s" _ 40] d e ..
qed

lemma decode_lower:
  "hex_decode m = Some h \<Longrightarrow>
     map (\<lambda>c. map_option hex_char (nibble c)) m = map Some (hex_encode h)"
proof (induction m arbitrary: h rule: hex_decode.induct)
  case (3 c d m)
  then obtain x y h' where x: "nibble c = Some x" "nibble d = Some y" "hex_decode m = Some h'"
    "h = nibbles_byte x y # h'" by (auto split: option.splits)
  have "x < 16" "y < 16" using nibble_Some(1) x by blast+
  then show ?case using x 3(1) [OF refl x(1,2,3)] by (simp add: unat_nibbles_byte)
qed simp_all

lemma p2pkh_shape:
  assumes l: "length s = 50" and n: "list_all (\<lambda>c. nibble c \<noteq> None) s"
  obtains h where "length h = 20" "hex_decode (slice 6 40 s) = Some h"
    "IsCanonicalP2PKHScriptHex s \<longleftrightarrow> hex_decode s = Some (p2pkh_script h)"
    "\<And>h'. length h' = 20 \<Longrightarrow> hex_decode s = Some (p2pkh_script h') \<Longrightarrow> h' = h"
proof -
  let ?eq = "list_all2 (\<lambda>c d. nibble c = nibble d)"
  obtain b where d: "hex_decode s = Some b" using hex_decode_all_nibbles [of s] l n by auto
  have "list_all (\<lambda>c. nibble c \<noteq> None) (slice 6 40 s)"
    using n by (auto simp: slice_def list_all_iff dest: in_set_takeD in_set_dropD)
  then obtain h where h: "hex_decode (slice 6 40 s) = Some h"
    using hex_decode_all_nibbles [of "slice 6 40 s"] l by auto
  have h20: "length h = 20" using hex_decode_length [OF h] l by simp
  have full: "b = p2pkh_script g \<longleftrightarrow> ?eq s (hex_encode (p2pkh_script g))" if "length g = 20" for g
    using l that by (intro hex_decode_eq_iff [OF _ d]) simp_all
  have mid: "h = g \<longleftrightarrow> ?eq (slice 6 40 s) (hex_encode g)" if "length g = 20" for g
    using l that by (intro hex_decode_eq_iff [OF _ h]) simp_all
  have "IsCanonicalP2PKHScriptHex s \<longleftrightarrow> hex_decode s = Some (p2pkh_script h)"
    using mid [OF h20] n l d full [OF h20]
    by (simp add: p2pkh_split [OF l h20] IsCanonicalP2PKHScriptHex_def HexNibble_def)
  moreover have "h' = h" if h': "length h' = 20" "hex_decode s = Some (p2pkh_script h')" for h'
    using full [OF h'(1)] mid [OF h'(1)] h'(2) d by (simp add: p2pkh_split [OF l h'(1)])
  ultimately show thesis using that h h20 by blast
qed

lemma p2pkh_recognised:
  assumes "IsCanonicalP2PKHScriptHex s"
  shows "\<exists>h. length h = 20 \<and> hex_decode s = Some (p2pkh_script h)"
proof -
  have "length s = 50" "list_all (\<lambda>c. nibble c \<noteq> None) s"
    using assms unfolding IsCanonicalP2PKHScriptHex_def HexNibble_def by blast+
  then show ?thesis using p2pkh_shape [of s] assms by metis
qed

text \<open>
  Standard P2PKH recognition. A script text is accepted exactly when its bytes are
  \<open>DUP HASH160 push20 h EQUALVERIFY CHECKSIG\<close> for some 20-byte \<open>h\<close>, in any hex case, and the
  owner identity extracted from it is the lower-case hex of exactly that \<open>h\<close>.
\<close>

theorem p2pkh_owner_exact:
  "(IsCanonicalP2PKHScriptHex s \<longleftrightarrow>
      (\<exists>h. length h = 20 \<and> hex_decode s = Some (p2pkh_script h))) \<and>
   (ExtractCanonicalP2PKHHash160Hex s = Some owner \<longleftrightarrow>
      (\<exists>h. length h = 20 \<and> hex_decode s = Some (p2pkh_script h) \<and> owner = hex_encode h))"
proof (cases "length s = 50 \<and> list_all (\<lambda>c. nibble c \<noteq> None) s")
  case True
  then obtain h where h: "length h = 20" "hex_decode (slice 6 40 s) = Some h"
    "IsCanonicalP2PKHScriptHex s \<longleftrightarrow> hex_decode s = Some (p2pkh_script h)"
    "\<And>h'. length h' = 20 \<Longrightarrow> hex_decode s = Some (p2pkh_script h') \<Longrightarrow> h' = h"
    using p2pkh_shape by blast
  have "ExtractCanonicalP2PKHHash160Hex s =
      (if IsCanonicalP2PKHScriptHex s then Some (hex_encode h) else None)"
    using h(1) unfolding ExtractCanonicalP2PKHHash160Hex_def Let_def HexNibble_def
      decode_lower [OF h(2)] by (simp add: list_all_iff o_def)
  moreover have "(\<exists>g. length g = 20 \<and> hex_decode s = Some (p2pkh_script g) \<and> P g) \<longleftrightarrow>
      hex_decode s = Some (p2pkh_script h) \<and> P h" for P
    using h(1,4) by blast
  ultimately show ?thesis using h(3) by (auto simp only: option.inject simp_thms split: if_splits)
next
  case False
  have "length s = 50 \<and> list_all (\<lambda>c. nibble c \<noteq> None) s"
    if "hex_decode s = Some (p2pkh_script h)" "length h = 20" for h
  proof -
    have "length s = 50" using hex_decode_length [OF that(1)] that(2) by simp
    then show ?thesis using hex_decode_all_nibbles [of s] that(1) by simp
  qed
  then have "\<not> (\<exists>h. length h = 20 \<and> hex_decode s = Some (p2pkh_script h))" using False by blast
  moreover have c: "\<not> IsCanonicalP2PKHScriptHex s"
    using False unfolding IsCanonicalP2PKHScriptHex_def HexNibble_def by blast
  moreover have "ExtractCanonicalP2PKHHash160Hex s = None"
    using c by (simp only: ExtractCanonicalP2PKHHash160Hex_def if_True simp_thms)
  ultimately show ?thesis by (metis option.distinct(1))
qed

subsection \<open>MagicLock round trip\<close>

definition magic_layout :: "bytes \<Rightarrow> bytes \<Rightarrow> bytes" where
  "magic_layout target owner =
     [OP_SWAP, OP_HASH256] @
     (if length target \<le> 16 then [word_of_nat (0x50 + length target)]
      else [0x01, word_of_nat (length target)]) @
     [OP_LEFT, word_of_nat (length target)] @ target @ OP_EQUALVERIFY # p2pkh_script owner"

lemma magic_small_length:
  assumes "0 < n" "n \<le> 16"
  shows "(word_of_nat (0x50 + n) :: byte) \<ge> OP_1" "(word_of_nat (0x50 + n) :: byte) \<le> OP_16"
    "unat ((word_of_nat (0x50 + n) :: byte) - OP_1) = n - 1"
proof -
  have u: "unat (word_of_nat (0x50 + n) :: byte) = 0x50 + n"
    using assms by (intro unat_small) simp
  show ge: "(word_of_nat (0x50 + n) :: byte) \<ge> OP_1"
    unfolding word_le_nat_alt u using assms by simp
  show "(word_of_nat (0x50 + n) :: byte) \<le> OP_16"
    unfolding word_le_nat_alt u using assms by simp
  show "unat ((word_of_nat (0x50 + n) :: byte) - OP_1) = n - 1"
    unfolding unat_sub [OF ge] u by simp
qed

lemma magic_length_operand:
  assumes "magic_target_length s = Some (n, pc)"
  shows "(pc = 3 \<and> 0 < n \<and> n \<le> 16 \<and> s ! 2 = word_of_nat (0x50 + n)) \<or>
    (pc = 4 \<and> 16 < n \<and> n \<le> 75 \<and> s ! 2 = 0x01 \<and> s ! 3 = word_of_nat n)"
proof (cases "s ! 2 \<ge> OP_1 \<and> s ! 2 \<le> OP_16")
  case True
  then have n: "n = unat (s ! 2 - OP_1) + 1" "pc = 3"
    using assms by (auto simp: magic_target_length_def)
  have u: "unat (s ! 2 - OP_1) = unat (s ! 2) - 0x51" "0x51 \<le> unat (s ! 2)" "unat (s ! 2) \<le> 0x60"
    using True by (simp_all add: unat_sub word_le_nat_alt)
  then have "0x50 + n = unat (s ! 2)" using n by simp
  then have "word_of_nat (0x50 + n) = s ! 2" by (metis unat_byte_inverse)
  then show ?thesis using n u by simp
next
  case False
  then show ?thesis
    using assms by (auto simp: magic_target_length_def Let_def split: if_splits)
qed

lemma magic_tail:
  assumes "length s = pc + 28 + n"
  shows "drop pc s = s ! pc # s ! (pc + 1) # slice (pc + 2) n s @
    s ! (pc + 2 + n) # s ! (pc + 2 + n + 1) # s ! (pc + 2 + n + 2) # s ! (pc + 2 + n + 3) #
    slice (pc + 2 + n + 4) 20 s @ s ! (pc + 2 + n + 24) # s ! (pc + 2 + n + 25) # []"
proof -
  let ?p = "pc + 2 + n"
  have d: "drop pc s = s ! pc # drop (pc + 1) s" "drop (pc + 1) s = s ! (pc + 1) # drop (pc + 2) s"
    "drop ?p s = s ! ?p # drop (?p + 1) s" "drop (?p + 1) s = s ! (?p + 1) # drop (?p + 2) s"
    "drop (?p + 2) s = s ! (?p + 2) # drop (?p + 3) s"
    "drop (?p + 3) s = s ! (?p + 3) # drop (?p + 4) s"
    "drop (?p + 24) s = s ! (?p + 24) # drop (?p + 25) s"
    "drop (?p + 25) s = s ! (?p + 25) # drop (?p + 26) s"
    using assms drop_Cons [of pc s] drop_Cons [of "pc + 1" s] drop_Cons [of ?p s]
      drop_Cons [of "?p + 1" s] drop_Cons [of "?p + 2" s] drop_Cons [of "?p + 3" s]
      drop_Cons [of "?p + 24" s] drop_Cons [of "?p + 25" s]
    by (simp_all add: eval_nat_numeral)
  have sl: "drop (pc + 2) s = slice (pc + 2) n s @ drop ?p s"
    "drop (?p + 4) s = slice (?p + 4) 20 s @ drop (?p + 24) s"
    using assms drop_slice [of "pc + 2" n s] drop_slice [of "?p + 4" 20 s]
    by (simp_all add: add.assoc)
  have "drop (?p + 26) s = []" using assms by simp
  then show ?thesis unfolding d(1,2) sl(1) d(3-6) sl(2) d(7,8) by simp
qed

lemma magic_parse_iff:
  "ParseCanonicalMagicLockV1Script s = Some i \<longleftrightarrow>
     (\<exists>t w. 0 < length t \<and> length t \<le> 75 \<and> length w = 20 \<and> s = magic_layout t w \<and>
        i = \<lparr>targetPrefix = hex_encode t, ml_ownerHash160 = hex_encode w\<rparr>)"
proof
  assume p: "ParseCanonicalMagicLockV1Script s = Some i"
  then obtain n pc where m: "magic_target_length s = Some (n, pc)"
    by (auto simp: ParseCanonicalMagicLockV1Script_def split: if_splits option.splits)
  let ?p = "pc + 2 + n"
  have c: "s ! 0 = OP_SWAP" "s ! 1 = OP_HASH256" "s ! pc = OP_LEFT" "s ! (pc + 1) = word_of_nat n"
    "pc + 1 < length s" "n \<le> length s - (pc + 2)" "length s - ?p = 26" "s ! ?p = OP_EQUALVERIFY"
    "s ! (?p + 1) = OP_DUP" "s ! (?p + 2) = OP_HASH160" "s ! (?p + 3) = 0x14"
    "s ! (?p + 24) = OP_EQUALVERIFY" "s ! (?p + 25) = OP_CHECKSIG"
    and i: "i = \<lparr>targetPrefix = hex_encode (slice (pc + 2) n s),
      ml_ownerHash160 = hex_encode (slice (?p + 4) 20 s)\<rparr>"
    using p m by (auto simp: ParseCanonicalMagicLockV1Script_def HexLowerExact_def Let_def
        split: if_splits)
  have len: "length s = pc + 28 + n" using c(5,6,7) by linarith
  have pre: "take pc s @ [] = [OP_SWAP, OP_HASH256] @
      (if n \<le> 16 then [word_of_nat (0x50 + n)] else [0x01, word_of_nat n])"
  proof -
    have "take (Suc k) s = take k s @ [s ! k]" if "k < length s" for k
      using that by (rule take_Suc_conv_app_nth)
    then have "take 3 s = [s ! 0, s ! 1, s ! 2]" "take 4 s = [s ! 0, s ! 1, s ! 2, s ! 3]"
      using len magic_length_operand [OF m] by (simp_all add: numeral_eq_Suc)
    then show ?thesis using magic_length_operand [OF m] c(1,2) by auto
  qed
  have "s = take pc s @ drop pc s" by simp
  also have "\<dots> = magic_layout (slice (pc + 2) n s) (slice (?p + 4) 20 s)"
    using pre c len unfolding magic_tail [OF len] magic_layout_def p2pkh_script_def by simp
  finally show "\<exists>t w. 0 < length t \<and> length t \<le> 75 \<and> length w = 20 \<and> s = magic_layout t w \<and>
      i = \<lparr>targetPrefix = hex_encode t, ml_ownerHash160 = hex_encode w\<rparr>"
    using i len magic_length_operand [OF m]
    by (intro exI [of _ "slice (pc + 2) n s"] exI [of _ "slice (?p + 4) 20 s"]) auto
next
  assume "\<exists>t w. 0 < length t \<and> length t \<le> 75 \<and> length w = 20 \<and> s = magic_layout t w \<and>
      i = \<lparr>targetPrefix = hex_encode t, ml_ownerHash160 = hex_encode w\<rparr>"
  then obtain t w where t: "0 < length t" "length t \<le> 75" and w: "length w = 20"
    and s: "s = magic_layout t w"
    and i: "i = \<lparr>targetPrefix = hex_encode t, ml_ownerHash160 = hex_encode w\<rparr>" by blast
  define pc where "pc = (if length t \<le> 16 then 3 else 4 :: nat)"
  have no: "\<not> OP_1 \<le> (1 :: byte)" by (simp add: word_le_nat_alt)
  have m: "magic_target_length s = Some (length t, pc)"
    using no t magic_small_length [of "length t"] direct_push_byte [of "length t"]
      unat_small [of "length t"]
    unfolding magic_target_length_def s magic_layout_def pc_def
    by (auto simp: Let_def simp del: unat_of_nat of_nat_add)
  have len: "length s = pc + 28 + length t" using w by (simp add: s magic_layout_def pc_def)
  have nths: "s ! 0 = OP_SWAP" "s ! Suc 0 = OP_HASH256" "s ! pc = OP_LEFT"
    "s ! Suc pc = word_of_nat (length t)" "s ! (pc + 2 + length t) = OP_EQUALVERIFY"
    "s ! Suc (pc + 2 + length t) = OP_DUP" "s ! (pc + 2 + length t + 2) = OP_HASH160"
    "s ! (pc + 2 + length t + 3) = 0x14" "s ! (pc + 2 + length t + 24) = OP_EQUALVERIFY"
    "s ! (pc + 2 + length t + 25) = OP_CHECKSIG" "slice (pc + 2) (length t) s = t"
    using w by (simp_all add: s magic_layout_def p2pkh_script_def pc_def nth_append slice_def
        del: of_nat_add)
  let ?pre = "[OP_SWAP, OP_HASH256] @ (if length t \<le> 16 then [word_of_nat (0x50 + length t)]
      else [0x01, word_of_nat (length t)]) @ [OP_LEFT, word_of_nat (length t)] @ t @
      [OP_EQUALVERIFY, OP_DUP, OP_HASH160, 0x14]"
  have "s = ?pre @ w @ [OP_EQUALVERIFY, OP_CHECKSIG]"
    by (simp add: s magic_layout_def p2pkh_script_def)
  moreover have "length ?pre = pc + 2 + length t + 4" by (simp add: pc_def)
  ultimately have own: "slice (pc + 2 + length t + 4) 20 s = w"
    using w slice_skip [of ?pre 20 "w @ [OP_EQUALVERIFY, OP_CHECKSIG]"] by (simp only:) simp
  show "ParseCanonicalMagicLockV1Script s = Some i"
    unfolding ParseCanonicalMagicLockV1Script_def m Let_def
    using t len nths own by (simp add: i HexLowerExact_def pc_def)
qed

text \<open>
  The MagicLock family is byte exact. A script is accepted precisely when it is the creator's
  layout for a target of 1 to 75 bytes and a 20-byte owner, with the length operand in its
  shortest form and equal to the push length; the reported target and owner are those bytes.
\<close>

theorem magic_lock_exact:
  "ParseCanonicalMagicLockV1Script s =
     Some \<lparr>targetPrefix = hex_encode t, ml_ownerHash160 = hex_encode w\<rparr> \<longleftrightarrow>
   0 < length t \<and> length t \<le> 75 \<and> length w = 20 \<and> s = magic_layout t w"
  unfolding magic_parse_iff by auto

subsection \<open>The families do not overlap\<close>

lemma time_lock_head:
  "ParseCanonicalTimeLockV1Script s = Some i \<Longrightarrow> length s = 32 \<and> s ! 0 = 0x04"
  by (auto simp: ParseCanonicalTimeLockV1Script_def split: if_splits)

lemma oracle_lock_head:
  "ParseCanonicalOracleLockV1Script s = Some i \<Longrightarrow> length s = 56 \<and> s ! 0 = 0x12"
  by (auto simp: ParseCanonicalOracleLockV1Script_def Let_def split: if_splits)

lemma magic_lock_head: "ParseCanonicalMagicLockV1Script s = Some i \<Longrightarrow> s ! 0 = OP_SWAP"
  by (auto simp: ParseCanonicalMagicLockV1Script_def split: if_splits)

lemma multisig_head:
  "ParseCanonicalMultisig2of3V1Script s = Some i \<Longrightarrow> length s = 105 \<and> s ! 0 = OP_2"
  by (auto simp: ParseCanonicalMultisig2of3V1Script_def split: if_splits)

lemma htlc_head:
  "ParseCanonicalHtlcAtomicSwapV1Script s = Some i \<Longrightarrow> length s = 103 \<and> s ! 0 = OP_IF"
  by (auto simp: ParseCanonicalHtlcAtomicSwapV1Script_def split: if_splits)

definition lock_families :: "bytes \<Rightarrow> bool list" where
  "lock_families s =
     [ParseCanonicalMultisig2of3V1Script s \<noteq> None, ParseCanonicalHtlcAtomicSwapV1Script s \<noteq> None,
      ParseCanonicalTimeLockV1Script s \<noteq> None, ParseCanonicalMagicLockV1Script s \<noteq> None,
      ParseCanonicalOracleLockV1Script s \<noteq> None,
      ParseCanonicalHashLockV1ScriptHex (hex_encode s) \<noteq> None,
      IsCanonicalP2PKHScriptHex (hex_encode s)]"

lemma hash_lock_head:
  assumes "ParseCanonicalHashLockV1ScriptHex (hex_encode s) = Some i"
  shows "length s = 23 \<and> s ! 0 = OP_HASH160"
proof -
  have "DecodeScriptHexStrict (hex_encode s) = (if s = [] then None else Some s)"
    by (cases s) (simp_all add: DecodeScriptHexStrict_def)
  then show ?thesis
    using assms by (auto simp: ParseCanonicalHashLockV1ScriptHex_def split: if_splits)
qed

text \<open>
  The classifiers are mutually exclusive: a script belongs to at most one of the families
  multisig, HTLC, time lock, MagicLock, oracle lock, hash lock and P2PKH.
\<close>

theorem lock_families_disjoint: "length (filter id (lock_families s)) \<le> 1"
proof -
  have p: "s ! 0 = OP_DUP" if c: "IsCanonicalP2PKHScriptHex (hex_encode s)"
  proof -
    obtain h where "hex_decode (hex_encode s) = Some (p2pkh_script h)"
      using p2pkh_recognised [OF c] by blast
    then show ?thesis by (simp add: p2pkh_script_def)
  qed
  show ?thesis
    using p time_lock_head [of s] oracle_lock_head [of s] magic_lock_head [of s] multisig_head [of s]
      htlc_head [of s] hash_lock_head [of s]
    unfolding lock_families_def
    by (cases "ParseCanonicalMultisig2of3V1Script s"; cases "ParseCanonicalHtlcAtomicSwapV1Script s";
        cases "ParseCanonicalTimeLockV1Script s"; cases "ParseCanonicalMagicLockV1Script s";
        cases "ParseCanonicalOracleLockV1Script s";
        cases "ParseCanonicalHashLockV1ScriptHex (hex_encode s)")
      (auto split: if_splits)
qed

end
