(* ===== verification/Transactions.thy ===== *)
theory Transactions
  imports Codec "HOL-Library.Monad_Syntax"
begin

text \<open>
  Transactions (\<open>tx.h\<close>, \<open>tx.cpp\<close>) and the hex reader they use (\<open>address_helpers.h\<close>): the data
  model, the binary wire format, the transaction id, the signature hash with its prepared base
  and cache, the Merkle root and the fee. An exception is \<open>None\<close>.

  OpenSSL and the JSON library are not part of the repository: the hash functions, the DER reader
  and writer of signatures (the reader returns the unread rest) and the raw signature check (which
  takes the public key bytes, a digest and a signature) are the fields of a \<open>crypto\<close> record, and token metadata is a value of an arbitrary type \<open>'j\<close> with a
  \<open>dump\<close> and a \<open>parse\<close> function. \<open>int vout\<close> and \<open>int32_t version\<close> are kept as 32-bit words, which
  is how they are written and read.
\<close>

record crypto =
  SHA256 :: "bytes \<Rightarrow> bytes"
  SHA1 :: "bytes \<Rightarrow> bytes"
  RIPEMD160 :: "bytes \<Rightarrow> bytes"
  SHA3_256 :: "bytes \<Rightarrow> bytes"
  BLAKE2b :: "bytes \<Rightarrow> bytes"
  d2i_ECDSA_SIG :: "bytes \<Rightarrow> ((int \<times> int) \<times> bytes) option"
  i2d_ECDSA_SIG :: "int \<times> int \<Rightarrow> bytes"
  ECDSA_verify :: "bytes \<Rightarrow> bytes \<Rightarrow> bytes \<Rightarrow> bool"

record TxIn =
  prev_txid :: string
  prev_vout :: u32
  scriptSig :: bytes
  pubKey :: bytes
  in_scriptPubKey :: bytes
  sequence :: u32

record TxOut =
  amount :: u64
  scriptPubKey :: string

record 'j Transaction =
  isCoinbase :: bool
  txid :: string
  sender :: string
  vin :: "TxIn list"
  vout :: "TxOut list"
  version :: u32
  lockTime :: u32
  tokenMetadata :: "(string \<times> 'j) list"

subsection \<open>The hex reader\<close>

text \<open>
  \<open>hexDecode\<close> converts each pair of characters with \<open>std::stoi(pair, nullptr, 16)\<close>, which skips
  leading white space, takes an optional sign, reads the longest run of hex digits and ignores
  what follows; it throws only if there is no digit.
\<close>

definition is_cspace :: "char \<Rightarrow> bool" where
  "is_cspace c \<longleftrightarrow> c = CHR '' '' \<or> (CHR 0x09 \<le> c \<and> c \<le> CHR 0x0D)"

definition stoi_hex_pair :: "char \<Rightarrow> char \<Rightarrow> byte option" where
  "stoi_hex_pair a b =
     (case nibble a of
        Some h \<Rightarrow>
          (case nibble b of
             Some l \<Rightarrow> Some (nibbles_byte h l)
           | None \<Rightarrow> Some (word_of_nat h))
      | None \<Rightarrow>
          if is_cspace a \<or> a = CHR ''+'' then map_option word_of_nat (nibble b)
          else if a = CHR ''-'' then map_option (\<lambda>l. - word_of_nat l) (nibble b)
          else None)"

fun hexDecode :: "string \<Rightarrow> bytes option" where
  "hexDecode [] = Some []"
| "hexDecode [c] = None"
| "hexDecode (a # b # s) =
     do { x \<leftarrow> stoi_hex_pair a b; xs \<leftarrow> hexDecode s; Some (x # xs) }"

definition hexEncode :: "bytes \<Rightarrow> string" where
  "hexEncode data = hex_encode data"

lemma hexDecode_hex_decode: "hex_decode s = Some b \<Longrightarrow> hexDecode s = Some b"
  by (induction s arbitrary: b rule: hex_decode.induct)
    (auto simp: stoi_hex_pair_def split: option.splits)

lemma hexDecode_encode [simp]: "hexDecode (hex_encode b) = Some b"
  by (simp add: hexDecode_hex_decode)

text \<open>
  The hex reader of the transaction code is not strict. Beyond well-formed hex, on which it
  agrees with the strict reader, it accepts texts that are not hex: white space, a sign, or any
  character after one digit, so distinct texts that are not case variants denote the same bytes.
\<close>

theorem hexDecode_lenient:
  "(hex_decode s = Some b \<longrightarrow> hexDecode s = Some b) \<and>
   hex_decode ''1g'' = None \<and> hexDecode ''1g'' = Some [1] \<and> hexDecode '' 1'' = Some [1] \<and>
   hexDecode ''+1'' = Some [1] \<and> hexDecode ''-1'' = Some [0xFF] \<and> hexDecode ''01'' = Some [1]"
proof (intro conjI impI)
  show "hex_decode s = Some b \<Longrightarrow> hexDecode s = Some b" by (rule hexDecode_hex_decode)
qed code_simp+

theorem hexDecode_lenient_witness: "hexDecode ''ab'' = Some [0xAB]"
  using hexDecode_lenient [of "''ab''" "[0xAB]"] by (simp add: nibble_def is_digit_def
      nibbles_byte_def digit_value_def less_eq_char_def)

subsection \<open>Wire integers\<close>

definition writeVarInt :: "nat \<Rightarrow> bytes option" where
  "writeVarInt val =
     (if val < 0xFD then Some [word_of_nat val]
      else if val \<le> 0xFFFF then Some [0xFD, word_of_nat (val mod 256), word_of_nat (val div 256 mod 256)]
      else None)"

definition write32LE :: "u32 \<Rightarrow> bytes" where "write32LE val = le_bytes 4 val"
definition write64LE :: "u64 \<Rightarrow> bytes" where "write64LE val = le_bytes 8 val"
definition read32LE :: "bytes \<Rightarrow> (u32 \<times> bytes) option" where "read32LE raw = read_le 4 raw"
definition read64LE :: "bytes \<Rightarrow> (u64 \<times> bytes) option" where "read64LE raw = read_le 8 raw"

definition readVarInt :: "bytes \<Rightarrow> (nat \<times> bytes) option" where
  "readVarInt raw =
     (case raw of
        [] \<Rightarrow> None
      | c # r \<Rightarrow>
          if c < 0xFD then Some (unat c, r)
          else if c = 0xFD then map_option (\<lambda>(v :: u16, r'). (unat v, r')) (read_le 2 r)
          else if c = 0xFE then map_option (\<lambda>(v, r'). (unat v, r')) (read32LE r)
          else map_option (\<lambda>(v, r'). (unat v, r')) (read64LE r))"

primrec write_all :: "('a \<Rightarrow> bytes option) \<Rightarrow> 'a list \<Rightarrow> bytes option" where
  "write_all f [] = Some []"
| "write_all f (x # xs) = do { a \<leftarrow> f x; b \<leftarrow> write_all f xs; Some (a @ b) }"

subsection \<open>Binary serialization\<close>

definition input_txid_bytes :: "bool \<Rightarrow> TxIn \<Rightarrow> bytes option" where
  "input_txid_bytes coinbase i =
     (if coinbase then Some (replicate 32 0)
      else do { b \<leftarrow> hexDecode (prev_txid i); if length b \<noteq> 32 then None else Some b })"

definition write_input :: "bool \<Rightarrow> TxIn \<Rightarrow> bytes option" where
  "write_input coinbase i =
     do { t \<leftarrow> input_txid_bytes coinbase i;
          l \<leftarrow> writeVarInt (length (scriptSig i));
          Some (t @ write32LE (prev_vout i) @ l @ scriptSig i @ write32LE (sequence i)) }"

definition write_output :: "TxOut \<Rightarrow> bytes option" where
  "write_output u =
     do { spk \<leftarrow> hexDecode (scriptPubKey u);
          l \<leftarrow> writeVarInt (length spk);
          Some (write64LE (amount u) @ l @ spk) }"

definition write_metadata :: "((string \<times> 'j) list \<Rightarrow> string) \<Rightarrow> (string \<times> 'j) list \<Rightarrow> bytes option" where
  "write_metadata dump m =
     (if m \<noteq> [] then
        (let metaStr = dump m in
         do { l \<leftarrow> writeVarInt (length metaStr); Some ([1] @ l @ bytes_of_string metaStr) })
      else Some [0])"

definition serializeBinary ::
    "((string \<times> 'j) list \<Rightarrow> string) \<Rightarrow> 'j Transaction \<Rightarrow> bytes option" where
  "serializeBinary dump tx =
     do { nin \<leftarrow> writeVarInt (length (vin tx));
          ins \<leftarrow> write_all (write_input (isCoinbase tx)) (vin tx);
          nout \<leftarrow> writeVarInt (length (vout tx));
          outs \<leftarrow> write_all write_output (vout tx);
          meta \<leftarrow> write_metadata dump (tokenMetadata tx);
          Some (write32LE (version tx) @ nin @ ins @ nout @ outs @ write32LE (lockTime tx) @ meta) }"

definition read_input :: "bytes \<Rightarrow> ((bool \<times> TxIn) \<times> bytes) option" where
  "read_input b =
     (if length b < 32 then None
      else
        let txidBytes = take 32 b in
        do { (n, b1) \<leftarrow> read32LE (drop 32 b);
             (scriptLen, b2) \<leftarrow> readVarInt b1;
             if scriptLen > length b2 then None
             else do { (s, b3) \<leftarrow> read32LE (drop scriptLen b2);
                       Some ((list_all (\<lambda>x. x = 0) txidBytes,
                              \<lparr>prev_txid = hexEncode txidBytes, prev_vout = n,
                               scriptSig = take scriptLen b2, pubKey = [], in_scriptPubKey = [],
                               sequence = s\<rparr>), b3) } })"

definition read_output :: "bytes \<Rightarrow> (TxOut \<times> bytes) option" where
  "read_output b =
     do { (a, b1) \<leftarrow> read64LE b;
          (scriptLen, b2) \<leftarrow> readVarInt b1;
          if scriptLen > length b2 then None
          else Some (\<lparr>amount = a, scriptPubKey = hexEncode (take scriptLen b2)\<rparr>, drop scriptLen b2) }"

text \<open>A metadata trailer that cannot be read is logged and ignored, except for a bad length prefix.\<close>

definition read_metadata ::
    "(string \<Rightarrow> (string \<times> 'j) list option) \<Rightarrow> bytes \<Rightarrow> (string \<times> 'j) list option" where
  "read_metadata parse b =
     (case b of
        [] \<Rightarrow> Some []
      | hasMetadata # r \<Rightarrow>
          if hasMetadata = 1 then
            do { (metaLen, r') \<leftarrow> readVarInt r;
                 if metaLen \<le> length r'
                 then (case parse (string_of_bytes (take metaLen r')) of
                         Some m \<Rightarrow> Some m
                       | None \<Rightarrow> Some [])
                 else Some [] }
          else Some [])"

definition deserializeBinary ::
    "(string \<Rightarrow> (string \<times> 'j) list option) \<Rightarrow> bytes \<Rightarrow> 'j Transaction option" where
  "deserializeBinary parse raw =
     do { (ver, b1) \<leftarrow> read32LE raw;
          (vinCount, b2) \<leftarrow> readVarInt b1;
          (ins, b3) \<leftarrow> get_many read_input vinCount b2;
          (voutCount, b4) \<leftarrow> readVarInt b3;
          (outs, b5) \<leftarrow> get_many read_output voutCount b4;
          (lt, b6) \<leftarrow> read32LE b5;
          m \<leftarrow> read_metadata parse b6;
          Some \<lparr>isCoinbase = list_ex fst ins, txid = [], sender = [], vin = map snd ins,
                vout = outs, version = ver, lockTime = lt, tokenMetadata = m\<rparr> }"

subsection \<open>Transaction id\<close>

definition SHA256d :: "crypto \<Rightarrow> bytes \<Rightarrow> bytes" where
  "SHA256d C data = SHA256 C (SHA256 C data)"

definition doubleSha256 :: "crypto \<Rightarrow> bytes \<Rightarrow> string" where
  "doubleSha256 C data = hex_encode (SHA256d C data)"

definition computeTxId ::
    "crypto \<Rightarrow> ((string \<times> 'j) list \<Rightarrow> string) \<Rightarrow> 'j Transaction \<Rightarrow> 'j Transaction option" where
  "computeTxId C dump tx =
     (let stripped = tx\<lparr>tokenMetadata := [],
            vin := (if \<not> isCoinbase tx then map (\<lambda>i. i\<lparr>scriptSig := []\<rparr>) (vin tx) else vin tx)\<rparr> in
      do { binary \<leftarrow> serializeBinary dump stripped;
           Some (tx\<lparr>txid := doubleSha256 C binary\<rparr>) })"

subsection \<open>Signature hash\<close>

record sighash_scope =
  sh_base :: bytes
  sh_offsets :: "nat list"
  sh_identity :: bytes

fun scope_inputs :: "bool \<Rightarrow> bytes \<Rightarrow> nat list \<Rightarrow> TxIn list \<Rightarrow> (bytes \<times> nat list) option" where
  "scope_inputs coinbase base offsets [] = Some (base, offsets)"
| "scope_inputs coinbase base offsets (i # rest) =
     do { t \<leftarrow> input_txid_bytes coinbase i;
          let base1 = base @ t @ write32LE (prev_vout i);
          scope_inputs coinbase (base1 @ [0] @ write32LE (sequence i))
            (offsets @ [length base1]) rest }"

definition TruSigHashScopePerf06 ::
    "crypto \<Rightarrow> ((string \<times> 'j) list \<Rightarrow> string) \<Rightarrow> 'j Transaction \<Rightarrow> sighash_scope option" where
  "TruSigHashScopePerf06 C dump tx =
     do { nin \<leftarrow> writeVarInt (length (vin tx));
          (base, offsets) \<leftarrow> scope_inputs (isCoinbase tx) (write32LE (version tx) @ nin) [] (vin tx);
          nout \<leftarrow> writeVarInt (length (vout tx));
          outs \<leftarrow> write_all write_output (vout tx);
          meta \<leftarrow> write_metadata dump (tokenMetadata tx);
          let full = base @ nout @ outs @ write32LE (lockTime tx) @ meta;
          Some \<lparr>sh_base = full, sh_offsets = offsets, sh_identity = SHA256 C full\<rparr> }"

text \<open>The bounded cache of \<open>tru_perf06_cache.h\<close>; the evicted entry is the first one.\<close>

type_synonym perf_cache = "(bytes \<times> bytes) list"

definition cache_put :: "bytes \<Rightarrow> bytes \<Rightarrow> perf_cache \<Rightarrow> perf_cache" where
  "cache_put key val entries =
     (if length key > 256 \<or> length val > 32 then entries
      else if map_of entries key \<noteq> None then entries
      else (if length entries \<ge> 32768 then tl entries else entries) @ [(key, val)])"

definition sighash_key :: "crypto \<Rightarrow> sighash_scope \<Rightarrow> nat \<Rightarrow> bytes \<Rightarrow> bytes" where
  "sighash_key C scope inputIndex spk =
     sh_identity scope @ le_bytes 8 (word_of_nat inputIndex :: u64) @ SHA256 C spk"

definition sighash_digest :: "crypto \<Rightarrow> sighash_scope \<Rightarrow> nat \<Rightarrow> bytes \<Rightarrow> bytes option" where
  "sighash_digest C scope inputIndex spk =
     do { len \<leftarrow> writeVarInt (length spk);
          let offset = sh_offsets scope ! inputIndex;
          Some (SHA256 C (SHA256 C (take offset (sh_base scope) @ len @ spk @
                  drop (offset + 1) (sh_base scope) @ [1, 0, 0, 0]))) }"

definition getSigHash ::
    "crypto \<Rightarrow> ((string \<times> 'j) list \<Rightarrow> string) \<Rightarrow> 'j Transaction \<Rightarrow> nat \<Rightarrow> bytes \<Rightarrow> perf_cache \<Rightarrow>
       (bytes \<times> perf_cache) option" where
  "getSigHash C dump tx inputIndex spk cache =
     (if inputIndex \<ge> length (vin tx) then None
      else do { scope \<leftarrow> TruSigHashScopePerf06 C dump tx;
                let key = sighash_key C scope inputIndex spk;
                case map_of cache key of
                  Some cached \<Rightarrow> Some (cached, cache)
                | None \<Rightarrow>
                    do { r \<leftarrow> sighash_digest C scope inputIndex spk;
                         Some (r, cache_put key r cache) } })"

subsection \<open>Merkle root\<close>

fun merkle_pairs :: "crypto \<Rightarrow> string list \<Rightarrow> string list" where
  "merkle_pairs C (a # b # rest) = doubleSha256 C (bytes_of_string (a @ b)) # merkle_pairs C rest"
| "merkle_pairs C [a] = [doubleSha256 C (bytes_of_string (a @ a))]"
| "merkle_pairs C [] = []"

lemma length_merkle_pairs: "length (merkle_pairs C l) = (length l + 1) div 2"
  by (induction C l rule: merkle_pairs.induct) auto

function merkle_layers :: "crypto \<Rightarrow> string list \<Rightarrow> string" where
  "merkle_layers C layer =
     (if length layer > 1 then merkle_layers C (merkle_pairs C layer) else hd layer)"
  by auto
termination
  by (relation "measure (length \<circ> snd)") (auto simp: length_merkle_pairs)

declare merkle_layers.simps [simp del]

definition computeMerkleRoot :: "crypto \<Rightarrow> 'j Transaction list \<Rightarrow> string" where
  "computeMerkleRoot C txs =
     (if txs = [] then doubleSha256 C [] else merkle_layers C (map txid txs))"

subsection \<open>Wire round trip\<close>

lemma varint_roundtrip [codec_simps]:
  assumes "writeVarInt n = Some w"
  shows "readVarInt (w @ r) = Some (n, r)"
proof (cases "n < 0xFD")
  case True
  then have u: "unat (word_of_nat n :: byte) = n" by (intro unat_word_of_nat_less) simp
  then have "(word_of_nat n :: byte) < 0xFD" using True by (simp add: word_less_nat_alt del: unat_of_nat)
  then show ?thesis using assms True u by (auto simp: writeVarInt_def readVarInt_def)
next
  case False
  then have n: "n \<le> 0xFFFF" "w = [0xFD, word_of_nat (n mod 256), word_of_nat (n div 256 mod 256)]"
    using assms by (auto simp: writeVarInt_def split: if_splits)
  let ?f = "[word_of_nat (n mod 256), word_of_nat (n div 256 mod 256)] :: bytes"
  have "le_nat ?f = n"
  proof -
    have "unat (word_of_nat (n mod 256) :: byte) = n mod 256"
      "unat (word_of_nat (n div 256 mod 256) :: byte) = n div 256 mod 256"
      by (intro unat_word_of_nat_less; simp)+
    moreover have "n div 256 mod 256 = n div 256" using n(1) by simp
    ultimately show ?thesis by (simp del: unat_of_nat of_nat_mod of_nat_div)
  qed
  then have v: "unat (le_val ?f :: u16) = n" using unat_le_val [of ?f, where 'a = 16] by simp
  have "read_le 2 (?f @ r) = Some (le_val ?f :: u16, r)" by (simp add: read_le_def)
  then show ?thesis using n v by (simp add: readVarInt_def del: le_val.simps unat_of_nat)
qed

lemma writeVarInt_bound: "writeVarInt n = Some w \<Longrightarrow> n \<le> 0xFFFF"
  by (auto simp: writeVarInt_def split: if_splits)

lemma read32_write [codec_simps]: "read32LE (write32LE v @ r) = Some (v, r)"
  by (simp add: read32LE_def write32LE_def read_le_append)

lemma read64_write [codec_simps]: "read64LE (write64LE v @ r) = Some (v, r)"
  by (simp add: read64LE_def write64LE_def read_le_append)

lemma get_many_write_all:
  assumes "\<And>x w r. x \<in> set xs \<Longrightarrow> f x = Some w \<Longrightarrow> get (w @ r) = Some (g x, r)"
    and "write_all f xs = Some w"
  shows "get_many get (length xs) (w @ r) = Some (map g xs, r)"
  using assms
proof (induction xs arbitrary: w)
  case (Cons x xs)
  from Cons.prems(2) obtain a b where a: "f x = Some a" "write_all f xs = Some b" "w = a @ b"
    by (auto split: Option.bind_splits)
  then have "get (a @ b @ r) = Some (g x, b @ r)" using Cons.prems(1) by simp
  moreover have "get_many get (length xs) (b @ r) = Some (map g xs, r)"
    using Cons.IH [OF _ a(2)] Cons.prems(1) by simp
  ultimately show ?case using a by simp
qed simp

text \<open>
  The part of a transaction the binary format carries, and the transactions whose fields are in
  the form the format reads back.
\<close>

definition wire_input :: "TxIn \<Rightarrow> TxIn" where
  "wire_input i = i\<lparr>pubKey := [], in_scriptPubKey := []\<rparr>"

definition wire :: "'j Transaction \<Rightarrow> 'j Transaction" where
  "wire tx = tx\<lparr>txid := [], sender := [], vin := map wire_input (vin tx)\<rparr>"

definition hex_text :: "string \<Rightarrow> bool" where
  "hex_text s \<longleftrightarrow> hex_lower s \<and> even (length s)"

definition wire_ok :: "'j Transaction \<Rightarrow> bool" where
  "wire_ok tx \<longleftrightarrow>
     list_all (\<lambda>i. hex_text (prev_txid i) \<and>
       (isCoinbase tx \<longleftrightarrow> prev_txid i = replicate 64 (CHR ''0''))) (vin tx) \<and>
     (isCoinbase tx \<longrightarrow> vin tx \<noteq> []) \<and>
     list_all (\<lambda>u. hex_text (scriptPubKey u)) (vout tx)"

lemma hex_text_decode:
  assumes "hex_text s"
  shows "\<exists>b. hexDecode s = Some b \<and> hex_encode b = s"
proof -
  have "list_all (\<lambda>c. nibble c \<noteq> None) s"
    using assms is_lower_hex_nibble by (auto simp: hex_text_def hex_lower_def list_all_iff)
  then obtain b where "hex_decode s = Some b"
    using assms hex_decode_all_nibbles [of s] unfolding hex_text_def by blast
  then show ?thesis
    using assms hexDecode_hex_decode hex_encode_decode unfolding hex_text_def by blast
qed

lemma hex_encode_zeros: "hex_encode (replicate n 0) = replicate (2 * n) (CHR ''0'')"
  by (induction n) (simp_all add: hex_char_def)

lemma read_write_input:
  assumes w: "write_input cb i = Some w" and t: "hex_text (prev_txid i)"
    and cb: "cb \<longleftrightarrow> prev_txid i = replicate 64 (CHR ''0'')"
  shows "read_input (w @ r) = Some ((cb, wire_input i), r)"
proof -
  from w obtain tb l where tb: "input_txid_bytes cb i = Some tb"
    and l: "writeVarInt (length (scriptSig i)) = Some l"
    and w': "w = tb @ write32LE (prev_vout i) @ l @ scriptSig i @ write32LE (sequence i)"
    by (auto simp: write_input_def split: Option.bind_splits)
  have z: "hex_encode (replicate 32 0) = replicate 64 (CHR ''0'')"
    using hex_encode_zeros [of 32] by simp
  have len: "length tb = 32" and enc: "hex_encode tb = prev_txid i"
    and zero: "list_all (\<lambda>x. x = 0) tb \<longleftrightarrow> cb"
  proof -
    obtain b where b: "hexDecode (prev_txid i) = Some b" "hex_encode b = prev_txid i"
      using hex_text_decode [OF t] by blast
    show len: "length tb = 32"
      using tb by (auto simp: input_txid_bytes_def split: if_splits Option.bind_splits)
    show enc: "hex_encode tb = prev_txid i"
      using tb b cb z by (auto simp: input_txid_bytes_def split: if_splits)
    have "list_all (\<lambda>x. x = 0) tb \<longleftrightarrow> tb = replicate 32 0"
      using len by (auto simp: list_all_iff intro: replicate_eqI)
    also have "\<dots> \<longleftrightarrow> hex_encode tb = replicate 64 (CHR ''0'')" using z hex_encode_inject by metis
    finally show "list_all (\<lambda>x. x = 0) tb \<longleftrightarrow> cb" using enc cb by simp
  qed
  show ?thesis
    using len enc zero unfolding read_input_def w' hexEncode_def Let_def
    by (simp add: codec_simps varint_roundtrip [OF l] wire_input_def)
qed

lemma read_write_output:
  assumes "write_output u = Some w" and "hex_text (scriptPubKey u)"
  shows "read_output (w @ r) = Some (u, r)"
proof -
  obtain b where b: "hexDecode (scriptPubKey u) = Some b" "hex_encode b = scriptPubKey u"
    using hex_text_decode [OF assms(2)] by blast
  then obtain l where l: "writeVarInt (length b) = Some l" and w: "w = write64LE (amount u) @ l @ b"
    using assms(1) by (auto simp: write_output_def split: Option.bind_splits)
  then show ?thesis
    by (simp add: read_output_def codec_simps varint_roundtrip [OF l] hexEncode_def b)
qed

lemma read_write_metadata:
  assumes "write_metadata dump m = Some w" and "m \<noteq> [] \<longrightarrow> parse (dump m) = Some m"
  shows "read_metadata parse w = Some m"
  using assms
  by (auto simp: write_metadata_def read_metadata_def Let_def varint_roundtrip
      split: if_splits Option.bind_splits)

lemma deserialize_serialize:
  assumes w: "serializeBinary dump tx = Some raw" and ok: "wire_ok tx"
    and m: "tokenMetadata tx \<noteq> [] \<longrightarrow> parse (dump (tokenMetadata tx)) = Some (tokenMetadata tx)"
  shows "deserializeBinary parse raw = Some (wire tx)"
proof -
  from w obtain nin ins nout outs meta where
    nin: "writeVarInt (length (vin tx)) = Some nin" and
    ins: "write_all (write_input (isCoinbase tx)) (vin tx) = Some ins" and
    nout: "writeVarInt (length (vout tx)) = Some nout" and
    outs: "write_all write_output (vout tx) = Some outs" and
    meta: "write_metadata dump (tokenMetadata tx) = Some meta" and
    raw: "raw = write32LE (version tx) @ nin @ ins @ nout @ outs @ write32LE (lockTime tx) @ meta"
    by (auto simp: serializeBinary_def split: Option.bind_splits)
  have gi: "get_many read_input (length (vin tx)) (ins @ r) =
      Some (map (\<lambda>i. (isCoinbase tx, wire_input i)) (vin tx), r)" for r
    using ok by (intro get_many_write_all [OF _ ins] read_write_input)
      (auto simp: wire_ok_def list_all_iff)
  have go: "get_many read_output (length (vout tx)) (outs @ r) = Some (map id (vout tx), r)" for r
    using ok by (intro get_many_write_all [OF _ outs])
      (auto simp: wire_ok_def list_all_iff read_write_output)
  have cb: "list_ex fst (map (\<lambda>i. (isCoinbase tx, wire_input i)) (vin tx)) = isCoinbase tx"
    using ok by (cases "vin tx") (auto simp: wire_ok_def list_ex_iff)
  show ?thesis
    unfolding deserializeBinary_def raw
    by (simp add: codec_simps varint_roundtrip [OF nin] varint_roundtrip [OF nout] gi go cb
        read_write_metadata [OF meta, where parse = parse, OF m] wire_def o_def)
qed

text \<open>
  C14: the binary format loses nothing it carries: a transaction with canonical hex fields that
  serializes reads back as itself, except for the two cached identities and the per-input
  convenience fields, which are not on the wire. The JSON library is only assumed to read back
  the one metadata object that was written.
\<close>

theorem binary_roundtrip:
  assumes "serializeBinary dump tx = Some raw" and "wire_ok tx"
    and "tokenMetadata tx \<noteq> [] \<longrightarrow> parse (dump (tokenMetadata tx)) = Some (tokenMetadata tx)"
  shows "deserializeBinary parse raw =
    Some (tx\<lparr>txid := [], sender := [],
             vin := map (\<lambda>i. i\<lparr>pubKey := [], in_scriptPubKey := []\<rparr>) (vin tx)\<rparr>)"
  using deserialize_serialize [where parse = parse, OF assms] by (simp add: wire_def wire_input_def)

definition sample_tx :: "unit Transaction" where
  "sample_tx = \<lparr>isCoinbase = False, txid = [], sender = [],
     vin = [\<lparr>prev_txid = replicate 64 (CHR ''a''), prev_vout = 1, scriptSig = [1, 7], pubKey = [],
             in_scriptPubKey = [], sequence = 5\<rparr>],
     vout = [\<lparr>amount = 900, scriptPubKey = ''f751''\<rparr>], version = 1, lockTime = 0,
     tokenMetadata = []\<rparr>"

lemma sample_wire_ok: "wire_ok sample_tx"
  by code_simp

theorem binary_roundtrip_witness:
  "\<exists>raw. serializeBinary (\<lambda>_. []) sample_tx = Some raw \<and>
     deserializeBinary (\<lambda>_. None) raw = Some sample_tx"
proof -
  obtain raw where raw: "serializeBinary (\<lambda>_. []) sample_tx = Some raw"
    by (cases "serializeBinary (\<lambda>_. []) sample_tx") (code_simp, simp)
  have "tokenMetadata sample_tx = []" by (simp add: sample_tx_def)
  then show ?thesis
    using binary_roundtrip [OF raw sample_wire_ok, of "\<lambda>_. None"] raw by (simp add: sample_tx_def)
qed

subsection \<open>The prepared signature hash\<close>

text \<open>
  The signing preimage as the legacy code defined it: the transaction with every unlocking script
  cleared and the spent script in the place of the one being signed, then the hash type.
\<close>

definition clear_sig :: "TxIn \<Rightarrow> TxIn" where
  "clear_sig i = i\<lparr>scriptSig := []\<rparr>"

definition sighash_copy :: "'j Transaction \<Rightarrow> nat \<Rightarrow> bytes \<Rightarrow> 'j Transaction" where
  "sighash_copy tx k spk =
     tx\<lparr>vin := (map clear_sig (vin tx))[k := (vin tx ! k)\<lparr>scriptSig := spk\<rparr>]\<rparr>"

definition legacy_sighash ::
    "crypto \<Rightarrow> ((string \<times> 'j) list \<Rightarrow> string) \<Rightarrow> 'j Transaction \<Rightarrow> nat \<Rightarrow> bytes \<Rightarrow> bytes option" where
  "legacy_sighash C dump tx k spk =
     do { b \<leftarrow> serializeBinary dump (sighash_copy tx k spk); Some (SHA256d C (b @ [1, 0, 0, 0])) }"

lemma write_input_sig:
  "write_input cb (i\<lparr>scriptSig := spk\<rparr>) =
     do { t \<leftarrow> input_txid_bytes cb i; l \<leftarrow> writeVarInt (length spk);
          Some ((t @ write32LE (prev_vout i)) @ l @ spk @ write32LE (sequence i)) }"
  by (simp add: write_input_def input_txid_bytes_def)

lemma writeVarInt_0 [simp]: "writeVarInt 0 = Some [0]"
  by (simp add: writeVarInt_def)

lemma write_input_clear:
  "write_input cb (clear_sig i) =
     do { t \<leftarrow> input_txid_bytes cb i;
          Some ((t @ write32LE (prev_vout i)) @ [0] @ write32LE (sequence i)) }"
  by (simp add: clear_sig_def write_input_sig)

lemma scope_inputs_None:
  "scope_inputs cb base offs ins = None \<longleftrightarrow> write_all (write_input cb) (map clear_sig ins) = None"
  by (induction ins arbitrary: base offs)
    (auto simp: write_input_clear Let_def split: Option.bind_splits)

lemma scope_inputs_Some:
  assumes "scope_inputs cb base offs ins = Some (b, offs')"
  shows "\<exists>w ks. write_all (write_input cb) (map clear_sig ins) = Some w \<and> b = base @ w \<and>
    offs' = offs @ ks \<and> length ks = length ins \<and>
    (\<forall>k < length ins. \<exists>pre post. w = pre @ [0] @ post \<and> ks ! k = length base + length pre \<and>
       (\<forall>spk. write_all (write_input cb)
            ((map clear_sig ins)[k := (ins ! k)\<lparr>scriptSig := spk\<rparr>]) =
          do { l \<leftarrow> writeVarInt (length spk); Some (pre @ l @ spk @ post) }))"
  using assms
proof (induction ins arbitrary: base offs)
  case (Cons i rest)
  from Cons.prems obtain t where t: "input_txid_bytes cb i = Some t"
    and sc: "scope_inputs cb ((base @ t @ write32LE (prev_vout i)) @ [0] @ write32LE (sequence i))
      (offs @ [length (base @ t @ write32LE (prev_vout i))]) rest = Some (b, offs')"
    by (auto simp: Let_def split: Option.bind_splits)
  define h where "h = t @ write32LE (prev_vout i)"
  define q where "q = write32LE (sequence i)"
  from Cons.IH [OF sc] obtain w ks where w: "write_all (write_input cb) (map clear_sig rest) = Some w"
    and b: "b = base @ h @ [0] @ q @ w" and offs: "offs' = offs @ length (base @ h) # ks"
    and len: "length ks = length rest"
    and split: "\<forall>k < length rest. \<exists>pre post. w = pre @ [0] @ post \<and>
      ks ! k = length (base @ h @ [0] @ q) + length pre \<and>
      (\<forall>spk. write_all (write_input cb)
            ((map clear_sig rest)[k := (rest ! k)\<lparr>scriptSig := spk\<rparr>]) =
          do { l \<leftarrow> writeVarInt (length spk); Some (pre @ l @ spk @ post) })"
    by (auto simp: h_def q_def)
  have head: "write_input cb (clear_sig i) = Some (h @ [0] @ q)"
    by (simp add: write_input_clear t h_def q_def)
  have sig: "write_input cb (i\<lparr>scriptSig := spk\<rparr>) =
      do { l \<leftarrow> writeVarInt (length spk); Some (h @ l @ spk @ q) }" for spk
    by (simp add: write_input_sig t h_def q_def)
  let ?W = "h @ [0] @ q @ w" and ?K = "length (base @ h) # ks"
  have "\<exists>pre post. ?W = pre @ [0] @ post \<and> ?K ! k = length base + length pre \<and>
      (\<forall>spk. write_all (write_input cb)
            ((map clear_sig (i # rest))[k := ((i # rest) ! k)\<lparr>scriptSig := spk\<rparr>]) =
          do { l \<leftarrow> writeVarInt (length spk); Some (pre @ l @ spk @ post) })"
    if k: "k < length (i # rest)" for k
  proof (cases k)
    case 0
    then show ?thesis
      by (intro exI [of _ h] exI [of _ "q @ w"]) (simp add: sig w)
  next
    case (Suc j)
    then obtain pre post where p: "w = pre @ [0] @ post"
      "ks ! j = length (base @ h @ [0] @ q) + length pre"
      "\<forall>spk. write_all (write_input cb) ((map clear_sig rest)[j := (rest ! j)\<lparr>scriptSig := spk\<rparr>]) =
        do { l \<leftarrow> writeVarInt (length spk); Some (pre @ l @ spk @ post) }"
      using split k by auto
    then show ?thesis
      by (intro exI [of _ "h @ [0] @ q @ pre"] exI [of _ post]) (simp add: Suc head)
  qed
  then show ?case
    using w b offs len head by (intro exI [of _ ?W] exI [of _ ?K]) simp
qed simp

lemma sighash_digest_legacy:
  assumes k: "k < length (vin tx)" and sc: "TruSigHashScopePerf06 C dump tx = Some scope"
  shows "sighash_digest C scope k spk = legacy_sighash C dump tx k spk"
proof -
  from sc obtain nin b offs nout outs meta where
    nin: "writeVarInt (length (vin tx)) = Some nin" and
    ins: "scope_inputs (isCoinbase tx) (write32LE (version tx) @ nin) [] (vin tx) = Some (b, offs)" and
    nout: "writeVarInt (length (vout tx)) = Some nout" and
    outs: "write_all write_output (vout tx) = Some outs" and
    meta: "write_metadata dump (tokenMetadata tx) = Some meta" and
    base: "sh_base scope = b @ nout @ outs @ write32LE (lockTime tx) @ meta" and
    off: "sh_offsets scope = offs"
    by (auto simp: TruSigHashScopePerf06_def Let_def split: Option.bind_splits)
  let ?v = "write32LE (version tx) @ nin"
  from scope_inputs_Some [OF ins] k obtain pre post where b: "b = ?v @ pre @ [0] @ post"
    and o: "offs ! k = length ?v + length pre"
    and wr: "\<And>spk. write_all (write_input (isCoinbase tx))
        ((map clear_sig (vin tx))[k := (vin tx ! k)\<lparr>scriptSig := spk\<rparr>]) =
      do { l \<leftarrow> writeVarInt (length spk); Some (pre @ l @ spk @ post) }"
    by fastforce
  let ?rest = "post @ nout @ outs @ write32LE (lockTime tx) @ meta"
  have full: "sh_base scope = (?v @ pre) @ 0 # ?rest" unfolding base b by simp
  have len: "sh_offsets scope ! k = length (?v @ pre)" unfolding off o by simp
  have parts: "take (length (?v @ pre)) (sh_base scope) = ?v @ pre"
    "drop (length (?v @ pre) + 1) (sh_base scope) = ?rest"
    unfolding full by simp_all
  have "legacy_sighash C dump tx k spk =
      do { l \<leftarrow> writeVarInt (length spk); Some (SHA256d C ((?v @ pre) @ l @ spk @ ?rest @ [1, 0, 0, 0])) }"
    by (cases "writeVarInt (length spk)")
      (simp_all add: legacy_sighash_def serializeBinary_def sighash_copy_def nin nout outs meta wr)
  then show ?thesis
    unfolding sighash_digest_def Let_def len parts SHA256d_def by simp
qed

lemma sighash_scope_None:
  "TruSigHashScopePerf06 C dump tx = None \<Longrightarrow> k < length (vin tx) \<Longrightarrow>
     legacy_sighash C dump tx k spk = None"
proof -
  assume n: "TruSigHashScopePerf06 C dump tx = None" and k: "k < length (vin tx)"
  show "legacy_sighash C dump tx k spk = None"
  proof (rule ccontr)
    assume "legacy_sighash C dump tx k spk \<noteq> None"
    then obtain w where ok: "writeVarInt (length (vin tx)) \<noteq> None"
      "write_all (write_input (isCoinbase tx))
         ((map clear_sig (vin tx))[k := (vin tx ! k)\<lparr>scriptSig := spk\<rparr>]) = Some w"
      "writeVarInt (length (vout tx)) \<noteq> None" "write_all write_output (vout tx) \<noteq> None"
      "write_metadata dump (tokenMetadata tx) \<noteq> None"
      by (auto simp: legacy_sighash_def serializeBinary_def sighash_copy_def split: Option.bind_splits)
    have all: "write_all f xs = None \<longleftrightarrow> (\<exists>x\<in>set xs. f x = None)" for f :: "TxIn \<Rightarrow> bytes option" and xs
      by (induction xs) (auto split: Option.bind_splits)
    have "write_input cb (clear_sig i) \<noteq> None" if "write_input cb (i\<lparr>scriptSig := s\<rparr>) \<noteq> None" for cb i s
      using that by (auto simp: write_input_clear write_input_sig split: Option.bind_splits)
    moreover have L: "\<not> (\<exists>x\<in>set ((map clear_sig (vin tx))[k := (vin tx ! k)\<lparr>scriptSig := spk\<rparr>]).
        write_input (isCoinbase tx) x = None)" unfolding all [symmetric] ok(2) by simp
    ultimately have at: "write_input (isCoinbase tx) (clear_sig (vin tx ! j)) \<noteq> None"
      if "j < length (vin tx)" for j
    proof (cases "j = k")
      case True
      have "(vin tx ! k)\<lparr>scriptSig := spk\<rparr> \<in>
          set ((map clear_sig (vin tx))[k := (vin tx ! k)\<lparr>scriptSig := spk\<rparr>])"
        using k by (intro set_update_memI) simp
      then show ?thesis using True L \<open>\<And>s i cb. write_input cb (i\<lparr>scriptSig := s\<rparr>) \<noteq> None \<Longrightarrow>
        write_input cb (clear_sig i) \<noteq> None\<close> by blast
    next
      case False
      then have "((map clear_sig (vin tx))[k := (vin tx ! k)\<lparr>scriptSig := spk\<rparr>]) ! j =
          clear_sig (vin tx ! j)" using that by simp
      then have "clear_sig (vin tx ! j) \<in>
          set ((map clear_sig (vin tx))[k := (vin tx ! k)\<lparr>scriptSig := spk\<rparr>])"
        using that by (metis length_list_update length_map nth_mem)
      then show ?thesis using L by (metis (mono_tags, lifting))
    qed
    then have "\<forall>x\<in>set (map clear_sig (vin tx)). write_input (isCoinbase tx) x \<noteq> None"
      by (auto simp: in_set_conv_nth)
    then have "write_all (write_input (isCoinbase tx)) (map clear_sig (vin tx)) \<noteq> None"
      using all by blast
    then have "scope_inputs (isCoinbase tx) (write32LE (version tx) @ the (writeVarInt (length (vin tx))))
        [] (vin tx) \<noteq> None" unfolding scope_inputs_None .
    then show False using n ok by (auto simp: TruSigHashScopePerf06_def Let_def split: Option.bind_splits)
  qed
qed

text \<open>
  The prepared signature hash is byte identical to the legacy one: without a cached value,
  \<open>getSigHash\<close> returns exactly the double SHA-256 of the serialized copy of the transaction with
  all unlocking scripts cleared and the spent script substituted, and fails exactly when that does.
\<close>

theorem sighash_equals_legacy:
  "map_option fst (getSigHash C dump tx k spk []) =
     (if k < length (vin tx) then legacy_sighash C dump tx k spk else None)"
proof (cases "k < length (vin tx)")
  case True
  show ?thesis
  proof (cases "TruSigHashScopePerf06 C dump tx")
    case None
    then show ?thesis using sighash_scope_None [OF None True] True by (simp add: getSigHash_def)
  next
    case (Some scope)
    then show ?thesis
      using True sighash_digest_legacy [OF True Some]
      by (cases "sighash_digest C scope k spk") (simp_all add: getSigHash_def Let_def)
  qed
qed (simp add: getSigHash_def)

lemma length_input_txid: "input_txid_bytes cb i = Some t \<Longrightarrow> length t = 32"
  by (auto simp: input_txid_bytes_def split: if_splits Option.bind_splits)

lemma scope_offsets:
  assumes "scope_inputs cb base offs ins = Some (b, offs')" and "k < length ins"
  shows "offs' ! (length offs + k) = length base + 41 * k + 36"
  using assms
proof (induction ins arbitrary: base offs k)
  case (Cons i rest)
  from Cons.prems obtain t where t: "input_txid_bytes cb i = Some t"
    and sc: "scope_inputs cb ((base @ t @ write32LE (prev_vout i)) @ [0] @ write32LE (sequence i))
      (offs @ [length (base @ t @ write32LE (prev_vout i))]) rest = Some (b, offs')"
    by (auto simp: Let_def split: Option.bind_splits)
  have lt: "length t = 32" by (rule length_input_txid [OF t])
  show ?case
  proof (cases k)
    case 0
    from scope_inputs_Some [OF sc] obtain ks where
      "offs' = (offs @ [length (base @ t @ write32LE (prev_vout i))]) @ ks" by blast
    then show ?thesis using 0 lt by (simp add: nth_append write32LE_def)
  next
    case (Suc j)
    then show ?thesis using Cons.IH [OF sc, of j] Cons.prems(2) lt by (simp add: write32LE_def)
  qed
qed simp

lemma scope_shape:
  assumes "TruSigHashScopePerf06 C dump tx = Some scope" and k: "k < length (vin tx)"
  shows "\<exists>nin r. sh_base scope = write32LE (version tx) @ nin @ r \<and>
    writeVarInt (length (vin tx)) = Some nin \<and>
    sh_offsets scope ! k = 4 + length nin + 41 * k + 36 \<and>
    sh_identity scope = SHA256 C (sh_base scope)"
proof -
  from assms obtain nin b offs r where nin: "writeVarInt (length (vin tx)) = Some nin" and
    ins: "scope_inputs (isCoinbase tx) (write32LE (version tx) @ nin) [] (vin tx) = Some (b, offs)" and
    base: "sh_base scope = b @ r" "sh_identity scope = SHA256 C (sh_base scope)" and
    off: "sh_offsets scope = offs"
    by (auto simp: TruSigHashScopePerf06_def Let_def split: Option.bind_splits)
  obtain w where "b = (write32LE (version tx) @ nin) @ w" using scope_inputs_Some [OF ins] by blast
  then show ?thesis
    using nin base off scope_offsets [OF ins k]
    by (intro exI [of _ nin] exI [of _ "w @ r"]) (simp add: write32LE_def)
qed

lemma scope_same_offset:
  assumes "TruSigHashScopePerf06 C dump tx = Some scope" "k < length (vin tx)"
    and "TruSigHashScopePerf06 C dump tx' = Some scope'" "k < length (vin tx')"
    and "sh_base scope = sh_base scope'"
  shows "sh_offsets scope ! k = sh_offsets scope' ! k"
proof -
  obtain n r n' r' where n: "sh_base scope = write32LE (version tx) @ n @ r"
    "writeVarInt (length (vin tx)) = Some n" "sh_offsets scope ! k = 4 + length n + 41 * k + 36"
    and n': "sh_base scope' = write32LE (version tx') @ n' @ r'"
    "writeVarInt (length (vin tx')) = Some n'" "sh_offsets scope' ! k = 4 + length n' + 41 * k + 36"
    using scope_shape [OF assms(1,2)] scope_shape [OF assms(3,4)] by blast
  have "n @ r = n' @ r'"
    using assms(5) unfolding n n' by (simp add: write32LE_def)
  then have "length (vin tx) = length (vin tx')"
    using varint_roundtrip [OF n(2), of r] varint_roundtrip [OF n'(2), of r'] by simp
  then show ?thesis using n n' by simp
qed

definition hashed_messages ::
    "crypto \<Rightarrow> ((string \<times> 'j) list \<Rightarrow> string) \<Rightarrow> ('j Transaction \<times> nat \<times> bytes) list \<Rightarrow> bytes set" where
  "hashed_messages C dump rs =
     (\<Union>(tx, k, spk)\<in>set rs. insert spk (sh_base ` set_option (TruSigHashScopePerf06 C dump tx)))"

lemma hashed_messages_mem:
  assumes "(tx, k, spk) \<in> set rs" and "TruSigHashScopePerf06 C dump tx = Some scope"
  shows "sh_base scope \<in> hashed_messages C dump rs \<and> spk \<in> hashed_messages C dump rs"
proof -
  have "insert spk (sh_base ` set_option (TruSigHashScopePerf06 C dump tx)) \<subseteq> hashed_messages C dump rs"
    unfolding hashed_messages_def
    using UN_upper [OF assms(1), of "\<lambda>(tx, k, spk).
      insert spk (sh_base ` set_option (TruSigHashScopePerf06 C dump tx))"] by simp
  then show ?thesis using assms(2) by auto
qed

definition entry_sound ::
    "crypto \<Rightarrow> ((string \<times> 'j) list \<Rightarrow> string) \<Rightarrow> ('j Transaction \<times> nat \<times> bytes) list \<Rightarrow> bytes \<Rightarrow> bytes \<Rightarrow> bool" where
  "entry_sound C dump rs key v \<longleftrightarrow>
     (\<exists>tx k spk scope. (tx, k, spk) \<in> set rs \<and>
        TruSigHashScopePerf06 C dump tx = Some scope \<and> k < length (vin tx) \<and>
        key = sighash_key C scope k spk \<and> sighash_digest C scope k spk = Some v)"

definition cache_sound ::
    "crypto \<Rightarrow> ((string \<times> 'j) list \<Rightarrow> string) \<Rightarrow> ('j Transaction \<times> nat \<times> bytes) list \<Rightarrow> perf_cache \<Rightarrow> bool" where
  "cache_sound C dump rs cache \<longleftrightarrow> (\<forall>e\<in>set cache. entry_sound C dump rs (fst e) (snd e))"

lemma sighash_key_inject:
  assumes "sighash_key C scope k spk = sighash_key C scope' k' spk'"
    and "\<And>x. length (SHA256 C x) = 32"
    and "sh_identity scope = SHA256 C b" "sh_identity scope' = SHA256 C b'"
    and "k < 2 ^ 64" "k' < 2 ^ 64"
  shows "SHA256 C b = SHA256 C b' \<and> k = k' \<and> SHA256 C spk = SHA256 C spk'"
proof -
  have a: "SHA256 C b @ le_bytes 8 (word_of_nat k :: u64) @ SHA256 C spk =
      SHA256 C b' @ le_bytes 8 (word_of_nat k' :: u64) @ SHA256 C spk'"
    using assms(1) by (simp add: sighash_key_def assms(3,4))
  then have e: "SHA256 C b = SHA256 C b'"
    "le_bytes 8 (word_of_nat k :: u64) = le_bytes 8 (word_of_nat k' :: u64)"
    "SHA256 C spk = SHA256 C spk'"
    by (simp_all add: assms(2))
  have "(word_of_nat k :: u64) = word_of_nat k'" by (rule le_bytes_inject [OF _ e(2)]) simp
  then have "unat (word_of_nat k :: u64) = unat (word_of_nat k' :: u64)" by simp
  moreover have "unat (word_of_nat k :: u64) = k" "unat (word_of_nat k' :: u64) = k'"
    using assms(5,6) by (simp_all add: unat_word_of_nat_less del: unat_of_nat)
  ultimately show ?thesis using e by simp
qed

lemma set_cache_put: "set (cache_put key v c) \<subseteq> insert (key, v) (set c)"
  by (cases c) (auto simp: cache_put_def)

lemma cached_sighash:
  assumes inj: "inj_on (SHA256 C) (hashed_messages C dump rs)" and len: "\<And>x. length (SHA256 C x) = 32"
    and sound: "cache_sound C dump rs cache" and mem: "(tx, k, spk) \<in> set rs"
  shows "case getSigHash C dump tx k spk cache of
      None \<Rightarrow> (if k < length (vin tx) then legacy_sighash C dump tx k spk else None) = None
    | Some (r, cache') \<Rightarrow> cache_sound C dump rs cache' \<and>
        (if k < length (vin tx) then legacy_sighash C dump tx k spk else None) = Some r"
proof (cases "k < length (vin tx)")
  case k: True
  show ?thesis
  proof (cases "TruSigHashScopePerf06 C dump tx")
    case None
    then show ?thesis using sighash_scope_None [OF None k] k by (simp add: getSigHash_def)
  next
    case (Some scope)
    let ?key = "sighash_key C scope k spk"
    have dig: "sighash_digest C scope k spk = legacy_sighash C dump tx k spk"
      by (rule sighash_digest_legacy [OF k Some])
    show ?thesis
    proof (cases "map_of cache ?key")
      case miss: None
      show ?thesis
      proof (cases "legacy_sighash C dump tx k spk")
        case None
        then show ?thesis using k Some dig miss by (simp add: getSigHash_def Let_def)
      next
        case r: (Some r)
        have "entry_sound C dump rs ?key r"
          using mem Some k dig r unfolding entry_sound_def by metis
        then have "cache_sound C dump rs (cache_put ?key r cache)"
          using set_cache_put [of ?key r cache] sound unfolding cache_sound_def by auto
        then show ?thesis using k Some dig miss r by (simp add: getSigHash_def Let_def)
      qed
    next
      case (Some v)
      then have "(?key, v) \<in> set cache" by (rule map_of_SomeD)
      then obtain tx' k' spk' scope' where m': "(tx', k', spk') \<in> set rs"
        and s': "TruSigHashScopePerf06 C dump tx' = Some scope'" "k' < length (vin tx')"
        "?key = sighash_key C scope' k' spk'" "sighash_digest C scope' k' spk' = Some v"
        using sound unfolding cache_sound_def entry_sound_def by force
      have lt: "k < 2 ^ 64" "k' < 2 ^ 64"
        using k s'(2) scope_shape [OF \<open>TruSigHashScopePerf06 C dump tx = Some scope\<close> k]
          scope_shape [OF s'(1,2)] by (auto dest!: writeVarInt_bound)
      have id: "sh_identity scope = SHA256 C (sh_base scope)"
        "sh_identity scope' = SHA256 C (sh_base scope')"
        using scope_shape [OF \<open>TruSigHashScopePerf06 C dump tx = Some scope\<close> k]
          scope_shape [OF s'(1,2)] by blast+
      have same: "SHA256 C (sh_base scope) = SHA256 C (sh_base scope')" "k = k'"
        "SHA256 C spk = SHA256 C spk'"
        using sighash_key_inject [OF s'(3) len id lt] by blast+
      have "sh_base scope \<in> hashed_messages C dump rs" "sh_base scope' \<in> hashed_messages C dump rs"
        "spk \<in> hashed_messages C dump rs" "spk' \<in> hashed_messages C dump rs"
        using hashed_messages_mem [OF mem \<open>TruSigHashScopePerf06 C dump tx = Some scope\<close>]
          hashed_messages_mem [OF m' s'(1)] by blast+
      then have eq: "sh_base scope = sh_base scope'" "spk = spk'"
        using inj same by (auto dest: inj_onD)
      then have "sh_offsets scope ! k = sh_offsets scope' ! k"
        using scope_same_offset [OF \<open>TruSigHashScopePerf06 C dump tx = Some scope\<close> k s'(1)] s'(2)
          same(2) by simp
      then have "sighash_digest C scope k spk = Some v"
        using s'(4) eq same(2) by (simp add: sighash_digest_def)
      then show ?thesis
        using k dig sound \<open>TruSigHashScopePerf06 C dump tx = Some scope\<close> Some
        by (simp add: getSigHash_def Let_def)
    qed
  qed
qed (simp add: getSigHash_def)

fun run_sighash ::
    "crypto \<Rightarrow> ((string \<times> 'j) list \<Rightarrow> string) \<Rightarrow> ('j Transaction \<times> nat \<times> bytes) list \<Rightarrow> perf_cache \<Rightarrow>
       bytes option list" where
  "run_sighash C dump [] cache = []"
| "run_sighash C dump ((tx, k, spk) # rs) cache =
     (case getSigHash C dump tx k spk cache of
        None \<Rightarrow> None # run_sighash C dump rs cache
      | Some (r, cache') \<Rightarrow> Some r # run_sighash C dump rs cache')"

lemma run_sighash_sound:
  assumes "inj_on (SHA256 C) (hashed_messages C dump all)" "\<And>x. length (SHA256 C x) = 32"
    and "set rs \<subseteq> set all" "cache_sound C dump all cache"
  shows "run_sighash C dump rs cache =
    map (\<lambda>(tx, k, spk). if k < length (vin tx) then legacy_sighash C dump tx k spk else None) rs"
  using assms(3,4)
proof (induction rs arbitrary: cache)
  case (Cons q rs)
  obtain tx k spk where q: "q = (tx, k, spk)" by (cases q)
  have "(tx, k, spk) \<in> set all" using Cons.prems q by auto
  note step = cached_sighash [OF assms(1,2) Cons.prems(2) this]
  show ?case
  proof (cases "getSigHash C dump tx k spk cache")
    case None
    then show ?thesis using step Cons q by simp
  next
    case (Some p)
    then show ?thesis using step Cons q by (cases p) simp
  qed
qed simp

text \<open>
  C15: the signature-hash cache never changes an answer. Over any sequence of requests starting
  from an empty cache, across transactions, inputs and spent scripts and with evictions, every
  digest returned is the one the legacy computation gives, provided SHA-256 has no collision
  among the preimages and scripts of those very requests and yields 32 bytes.
\<close>

theorem sighash_cache_transparent:
  assumes "inj_on (SHA256 C) (hashed_messages C dump rs)" and "\<And>x. length (SHA256 C x) = 32"
  shows "run_sighash C dump rs [] =
    map (\<lambda>(tx, k, spk). if k < length (vin tx) then legacy_sighash C dump tx k spk else None) rs"
  by (rule run_sighash_sound [OF assms]) (simp_all add: cache_sound_def)

definition toy_crypto :: crypto where
  "toy_crypto = \<lparr>SHA256 = \<lambda>b. take 32 (rev b @ replicate 32 0), SHA1 = id, RIPEMD160 = id,
     SHA3_256 = id, BLAKE2b = id,
     d2i_ECDSA_SIG = \<lambda>b. Some ((int (length b), 1), []),
     i2d_ECDSA_SIG = \<lambda>(r, s). replicate (nat r) 0, ECDSA_verify = \<lambda>_ _ _. True\<rparr>"

theorem sighash_cache_transparent_witness:
  "run_sighash toy_crypto (\<lambda>_. []) [(sample_tx, 0, [1]), (sample_tx, 0, [2]), (sample_tx, 0, [1])] [] =
   map (\<lambda>(tx, k, spk). if k < length (vin tx) then legacy_sighash toy_crypto (\<lambda>_. []) tx k spk
     else None) [(sample_tx, 0, [1]), (sample_tx, 0, [2]), (sample_tx, 0, [1])]"
proof (rule sighash_cache_transparent)
  show "length (SHA256 toy_crypto x) = 32" for x by (simp add: toy_crypto_def)
  have "case TruSigHashScopePerf06 toy_crypto (\<lambda>_. []) sample_tx of None \<Rightarrow> False
    | Some b \<Rightarrow> SHA256 toy_crypto (sh_base b) \<noteq> SHA256 toy_crypto [1] \<and>
        SHA256 toy_crypto (sh_base b) \<noteq> SHA256 toy_crypto [2]" by code_simp
  then obtain b where b: "TruSigHashScopePerf06 toy_crypto (\<lambda>_. []) sample_tx = Some b"
    and h: "SHA256 toy_crypto (sh_base b) \<noteq> SHA256 toy_crypto [1]"
      "SHA256 toy_crypto (sh_base b) \<noteq> SHA256 toy_crypto [2]"
    by (auto split: option.splits)
  have "hashed_messages toy_crypto (\<lambda>_. [])
      [(sample_tx, 0, [1]), (sample_tx, 0, [2]), (sample_tx, 0, [1])] = {[1], [2], sh_base b}"
    by (auto simp: hashed_messages_def b)
  moreover have "SHA256 toy_crypto [1] \<noteq> SHA256 toy_crypto [2]" by (simp add: toy_crypto_def)
  ultimately show "inj_on (SHA256 toy_crypto) (hashed_messages toy_crypto (\<lambda>_. [])
      [(sample_tx, 0, [1]), (sample_tx, 0, [2]), (sample_tx, 0, [1])])"
    using h by (auto simp: inj_on_def)
qed

subsection \<open>What the transaction id commits to\<close>

definition txid_preimage ::
    "((string \<times> 'j) list \<Rightarrow> string) \<Rightarrow> 'j Transaction \<Rightarrow> bytes option" where
  "txid_preimage dump tx =
     serializeBinary dump (tx\<lparr>tokenMetadata := [],
       vin := (if \<not> isCoinbase tx then map (\<lambda>i. i\<lparr>scriptSig := []\<rparr>) (vin tx) else vin tx)\<rparr>)"

lemma computeTxId_eq:
  "computeTxId C dump tx =
     map_option (\<lambda>b. tx\<lparr>txid := doubleSha256 C b\<rparr>) (txid_preimage dump tx)"
  by (cases "txid_preimage dump tx") (simp_all add: computeTxId_def txid_preimage_def Let_def)

lemma serialize_ignores_ids:
  "serializeBinary dump (tx\<lparr>txid := a, sender := b\<rparr>) = serializeBinary dump tx"
  by (simp add: serializeBinary_def)

lemma write_input_wire: "write_input cb (wire_input i) = write_input cb i"
  by (simp add: write_input_def wire_input_def input_txid_bytes_def)

lemma write_all_map: "write_all f (map g xs) = write_all (\<lambda>x. f (g x)) xs"
  by (induction xs) simp_all

text \<open>What an ordinary transaction says, its unlocking scripts, keys and metadata apart.\<close>

definition signed_content :: "'j Transaction \<Rightarrow> (string \<times> u32 \<times> u32) list \<times> TxOut list \<times> u32 \<times> u32" where
  "signed_content tx =
     (map (\<lambda>i. (prev_txid i, prev_vout i, sequence i)) (vin tx), vout tx, version tx, lockTime tx)"

lemma unsigned_input_bytes:
  "write_input cb (i\<lparr>scriptSig := []\<rparr>) =
   (\<lambda>(t, n, s). write_input cb \<lparr>prev_txid = t, prev_vout = n, scriptSig = [], pubKey = [], in_scriptPubKey = [],
      sequence = s\<rparr>) (prev_txid i, prev_vout i, sequence i)"
  by (simp add: write_input_def input_txid_bytes_def)

lemma unsigned_bytes:
  "\<not> isCoinbase tx \<Longrightarrow> txid_preimage dump tx = (case signed_content tx of (is, os, v, l) \<Rightarrow>
     do { nin \<leftarrow> writeVarInt (length is);
          is \<leftarrow> write_all (\<lambda>(t, n, s). write_input False \<lparr>prev_txid = t, prev_vout = n, scriptSig = [], pubKey = [],
              in_scriptPubKey = [], sequence = s\<rparr>) is;
          nout \<leftarrow> writeVarInt (length os);
          os \<leftarrow> write_all write_output os;
          Some (write32LE v @ nin @ is @ nout @ os @ write32LE l @ [0]) })"
  by (simp add: txid_preimage_def serializeBinary_def signed_content_def write_all_map unsigned_input_bytes
      write_metadata_def)

lemma preimage_content:
  assumes "\<not> isCoinbase tx" "\<not> isCoinbase tx'" "wire_ok tx" "wire_ok tx'"
    and "txid_preimage dump tx = Some b" "txid_preimage dump tx' = Some b"
  shows "signed_content tx' = signed_content tx"
proof -
  let ?s = "\<lambda>t :: 'a Transaction. t\<lparr>tokenMetadata := [], vin := map (\<lambda>i. i\<lparr>scriptSig := []\<rparr>) (vin t)\<rparr>"
  have parsed: "deserializeBinary (\<lambda>_. None) b = Some (wire (?s t))"
    if "\<not> isCoinbase t" "wire_ok t" "txid_preimage dump t = Some b" for t
  proof (rule deserialize_serialize)
    show "serializeBinary dump (?s t) = Some b" using that(1,3) by (simp add: txid_preimage_def)
    show "wire_ok (?s t)" using that(2) by (simp add: wire_ok_def list_all_iff)
  qed simp
  have "wire (?s tx') = wire (?s tx)"
    using parsed [OF assms(1,3,5)] parsed [OF assms(2,4,6)] by simp
  moreover have "signed_content (wire (?s t)) = signed_content t" for t
    by (simp add: signed_content_def wire_def wire_input_def o_def)
  ultimately show ?thesis by (rule_tac box_equals [OF arg_cong [of _ _ signed_content]])
qed

text \<open>
  C16: the id of an ordinary transaction is fixed by what is signed, and fixes it. Two transactions
  whose ids are computed, and whose two hashed messages do not collide, have the same id exactly
  when they spend the same outpoints with the same sequences in the same order and create the same
  outputs, with the same version and lock time; the unlocking scripts, the keys and the metadata
  play no part.
\<close>

theorem txid_binds_content:
  assumes "\<not> isCoinbase tx" "\<not> isCoinbase tx'" "wire_ok tx" "wire_ok tx'"
    and "computeTxId C dump tx = Some t" "computeTxId C dump tx' = Some t'"
    and "inj_on (doubleSha256 C) (the ` txid_preimage dump ` {tx, tx'})"
  shows "txid t = txid t' \<longleftrightarrow> signed_content tx = signed_content tx'"
proof -
  obtain b b' where b: "txid_preimage dump tx = Some b" "txid_preimage dump tx' = Some b'"
    and t: "txid t = doubleSha256 C b" "txid t' = doubleSha256 C b'"
    using assms(5,6) by (auto simp: computeTxId_eq)
  have "txid t = txid t' \<longleftrightarrow> b = b'" using assms(7) t b by (auto simp: inj_on_def)
  also have "\<dots> \<longleftrightarrow> signed_content tx = signed_content tx'"
  proof
    show "b = b'" if "signed_content tx = signed_content tx'"
    proof -
      have "txid_preimage dump tx = txid_preimage dump tx'"
        by (simp only: unsigned_bytes [OF assms(1)] unsigned_bytes [OF assms(2)] that)
      then show ?thesis using b by simp
    qed
    show "signed_content tx = signed_content tx'" if "b = b'"
      using preimage_content [OF assms(2,1,4,3)] b that by simp
  qed
  finally show ?thesis .
qed

text \<open>The sample signed anew, and the sample with a later lock time.\<close>

definition resigned_tx :: "unit Transaction" where
  "resigned_tx = sample_tx\<lparr>vin := map (\<lambda>i. i\<lparr>scriptSig := [9, 9]\<rparr>) (vin sample_tx)\<rparr>"

definition delayed_tx :: "unit Transaction" where
  "delayed_tx = sample_tx\<lparr>lockTime := 7\<rparr>"

theorem txid_binds_content_witness:
  "\<exists>t t' t''. computeTxId toy_crypto (\<lambda>_. []) sample_tx = Some t \<and> computeTxId toy_crypto (\<lambda>_. []) resigned_tx = Some t' \<and>
     computeTxId toy_crypto (\<lambda>_. []) delayed_tx = Some t'' \<and> txid t' = txid t \<and> txid t'' \<noteq> txid t"
proof -
  let ?id = "computeTxId toy_crypto (\<lambda>_ :: (string \<times> unit) list. [])"
  let ?pre = "txid_preimage (\<lambda>_ :: (string \<times> unit) list. [])"
  obtain t where t: "?id sample_tx = Some t" by (cases "?id sample_tx") (code_simp, simp)
  obtain t' where t': "?id resigned_tx = Some t'" by (cases "?id resigned_tx") (code_simp, simp)
  obtain t'' where t'': "?id delayed_tx = Some t''" by (cases "?id delayed_tx") (code_simp, simp)
  have ok: "wire_ok resigned_tx" "wire_ok delayed_tx" by code_simp+
  have o: "\<not> isCoinbase sample_tx" "\<not> isCoinbase resigned_tx" "\<not> isCoinbase delayed_tx"
    by (simp_all add: resigned_tx_def delayed_tx_def sample_tx_def)
  have "the (?pre resigned_tx) = the (?pre sample_tx)" by code_simp
  then have same: "inj_on (doubleSha256 toy_crypto) (the ` ?pre ` {resigned_tx, sample_tx})" by simp
  have "doubleSha256 toy_crypto (the (?pre delayed_tx)) \<noteq> doubleSha256 toy_crypto (the (?pre sample_tx))" by code_simp
  then have apart: "inj_on (doubleSha256 toy_crypto) (the ` ?pre ` {delayed_tx, sample_tx})" by auto
  have "txid t' = txid t"
    using txid_binds_content [OF o(2,1) ok(1) sample_wire_ok t' t same]
    by (simp add: signed_content_def resigned_tx_def sample_tx_def)
  moreover have "txid t'' \<noteq> txid t"
    using txid_binds_content [OF o(3,1) ok(2) sample_wire_ok t'' t apart]
    by (simp add: signed_content_def delayed_tx_def sample_tx_def)
  ultimately show ?thesis using t t' t'' by blast
qed

subsection \<open>The Merkle root\<close>

lemma merkle_pairs_dup:
  "odd (length l) \<Longrightarrow> merkle_pairs C (l @ [last l]) = merkle_pairs C l"
proof (induction C l rule: merkle_pairs.induct)
  case (1 C a b rest)
  then have "rest \<noteq> []" by auto
  then show ?case using 1 by simp
qed simp_all

lemma merkle_layers_step:
  "length l > 1 \<Longrightarrow> merkle_layers C l = merkle_layers C (merkle_pairs C l)"
  by (subst merkle_layers.simps) simp

text \<open>
  The Merkle root alone does not fix the transaction list. Appending a second copy of the
  last transaction of a list of odd length above one leaves the root unchanged, so a validator
  that relied on the root only would accept a mutated block; the duplicate must be refused by
  another rule.
\<close>

theorem merkle_root_duplicate_tail:
  assumes "odd (length txs)" and "1 < length txs"
  shows "computeMerkleRoot C (txs @ [last txs]) = computeMerkleRoot C txs"
proof -
  have ne: "txs \<noteq> []" using assms by auto
  then have "map txid (txs @ [last txs]) = map txid txs @ [last (map txid txs)]"
    by (simp add: last_map)
  with ne have "merkle_layers C (map txid (txs @ [last txs])) =
      merkle_layers C (merkle_pairs C (map txid txs @ [last (map txid txs)]))"
    using assms ne by (subst merkle_layers_step) simp_all
  also have "\<dots> = merkle_layers C (merkle_pairs C (map txid txs))"
    using assms by (simp add: merkle_pairs_dup)
  also have "\<dots> = merkle_layers C (map txid txs)"
    using assms merkle_layers_step [of "map txid txs" C] by simp
  finally show ?thesis using ne by (simp add: computeMerkleRoot_def)
qed

theorem merkle_root_duplicate_tail_witness:
  "computeMerkleRoot toy_crypto [sample_tx, sample_tx, sample_tx, sample_tx] =
   computeMerkleRoot toy_crypto [sample_tx, sample_tx, sample_tx]"
  using merkle_root_duplicate_tail [of "[sample_tx, sample_tx, sample_tx]" toy_crypto] by simp

end
