(* ===== verification/Stateful_Shape.thy ===== *)
theory Stateful_Shape
  imports Lock_Templates Transactions
begin

text \<open>
  The transaction shapes of stateful contracts (\<open>contract_call_policy.h\<close>): the initialization
  schemas of the Voting and Token Issuer families, the creation shape and the call shape. A result
  object of the source is a record; its \<open>size_t(-1)\<close> for "no index" is \<open>None\<close>, and the early
  \<open>return result\<close> with a \<open>reason\<close> is \<open>Inl\<close> of that reason.
\<close>

definition IsCanonicalStatefulKvV1Script :: "bytes \<Rightarrow> bool" where
  "IsCanonicalStatefulKvV1Script script \<longleftrightarrow>
     length script = 2 \<and> script ! 0 = OP_STORE \<and> script ! 1 = OP_1"

datatype StatefulCreationFamily = NoFamily | KvV1 | VotingV1 | TokenIssuerV1

definition DecodeU64LEExact :: "bytes \<Rightarrow> u64 option" where
  "DecodeU64LEExact val = (if length val \<noteq> 8 then None else Some (le_val val))"

definition IsAllZeroU64 :: "bytes \<Rightarrow> bool" where
  "IsAllZeroU64 val \<longleftrightarrow> DecodeU64LEExact val = Some 0"

definition FindInitValue :: "StateInitEnvelope \<Rightarrow> string \<Rightarrow> bytes option" where
  "FindInitValue envelope key = map_of (entries envelope) key"

fun check_options :: "StateInitEnvelope \<Rightarrow> nat list \<Rightarrow> string + unit" where
  "check_options envelope [] = Inr ()"
| "check_options envelope (i # rest) =
     (let option = FindInitValue envelope (''option'' @ dec_string i);
          count = FindInitValue envelope (''count'' @ dec_string i) in
      if (case option of None \<Rightarrow> True | Some t \<Rightarrow> t = [] \<or> length t > 50)
      then Inl ''Voting V1 option text must be present and 1..50 bytes''
      else if (case count of None \<Rightarrow> True | Some c \<Rightarrow> \<not> IsAllZeroU64 c)
      then Inl ''Voting V1 option counts must initialize to uint64 zero''
      else check_options envelope rest)"

definition IsCanonicalVotingV1InitEnvelope :: "StateInitEnvelope \<Rightarrow> string + unit" where
  "IsCanonicalVotingV1InitEnvelope envelope =
     (case (FindInitValue envelope ''proposal'', FindInitValue envelope ''numoptions'',
            FindInitValue envelope ''endtime'', FindInitValue envelope ''totalvotes'') of
        (Some proposal, Some numOptions, Some endTime, Some totalVotes) \<Rightarrow>
          if proposal = [] \<or> length proposal > 200 then Inl ''Voting V1 proposal must be 1..200 bytes''
          else if length numOptions \<noteq> 1 \<or> numOptions ! 0 < 2 \<or> numOptions ! 0 > 10
          then Inl ''Voting V1 numoptions must be one byte in range 2..10''
          else if DecodeU64LEExact endTime = None \<or> DecodeU64LEExact endTime = Some 0
          then Inl ''Voting V1 endtime must be non-zero uint64 LE''
          else if \<not> IsAllZeroU64 totalVotes
          then Inl ''Voting V1 totalvotes must initialize to uint64 zero''
          else
            let n = unat (numOptions ! 0) in
            if length (entries envelope) \<noteq> 4 + 2 * n
            then Inl ''Voting V1 init contains missing or extra keys''
            else check_options envelope [0..<n]
      | _ \<Rightarrow> Inl ''Voting V1 init missing required proposal/numoptions/endtime/totalvotes'')"

definition token_name_char :: "byte \<Rightarrow> bool" where
  "token_name_char c \<longleftrightarrow>
     (byte_of_char (CHR ''A'') \<le> c \<and> c \<le> byte_of_char (CHR ''Z'')) \<or>
     (byte_of_char (CHR ''a'') \<le> c \<and> c \<le> byte_of_char (CHR ''z'')) \<or>
     (byte_of_char (CHR ''0'') \<le> c \<and> c \<le> byte_of_char (CHR ''9'')) \<or>
     c = byte_of_char (CHR ''_'') \<or> c = byte_of_char (CHR ''-'')"

definition IsCanonicalTokenIssuerV1InitEnvelope :: "StateInitEnvelope \<Rightarrow> string + unit" where
  "IsCanonicalTokenIssuerV1InitEnvelope envelope =
     (if length (entries envelope) \<noteq> 4 then Inl ''Token Issuer V1 init must contain exactly four fields''
      else if map fst (entries envelope) \<noteq>
              [''exchange_rate'', ''max_supply'', ''token_name'', ''total_issued'']
      then Inl ''Token Issuer V1 init fields are not in canonical key order''
      else case (FindInitValue envelope ''token_name'', FindInitValue envelope ''exchange_rate'',
                 FindInitValue envelope ''max_supply'', FindInitValue envelope ''total_issued'') of
        (Some tokenName, Some exchangeRate, Some maxSupply, Some totalIssued) \<Rightarrow>
          if tokenName = [] \<or> length tokenName > 10
          then Inl ''Token Issuer V1 token_name must be 1..10 bytes''
          else if \<not> list_all token_name_char tokenName
          then Inl ''Token Issuer V1 token_name must use only A-Z a-z 0-9 _ -''
          else if DecodeU64LEExact exchangeRate = None \<or> DecodeU64LEExact exchangeRate = Some 0
          then Inl ''Token Issuer V1 exchange_rate must be non-zero uint64 LE''
          else if DecodeU64LEExact maxSupply = None
          then Inl ''Token Issuer V1 max_supply must be uint64 LE''
          else if \<not> IsAllZeroU64 totalIssued
          then Inl ''Token Issuer V1 total_issued must initialize to uint64 zero''
          else Inr ()
      | _ \<Rightarrow> Inl ''Token Issuer V1 init is missing a required field'')"

subsection \<open>The creation shape\<close>

text \<open>The scan of the outputs: what the loop of \<open>ValidateStatefulCreationShape\<close> accumulates.\<close>

record creation_scan =
  statefulOutputs :: nat
  initEnvelopes :: nat
  callEnvelopes :: nat
  cs_targetVout :: "nat option"
  cs_initEnvelopeVout :: "nat option"
  cs_initEnvelope :: StateInitEnvelope

definition creation_scan_init :: creation_scan where
  "creation_scan_init = \<lparr>statefulOutputs = 0, initEnvelopes = 0, callEnvelopes = 0,
     cs_targetVout = None, cs_initEnvelopeVout = None,
     cs_initEnvelope = \<lparr>targetVout = 0, entries = []\<rparr>\<rparr>"

definition scan_op_return :: "nat \<Rightarrow> TxOut \<Rightarrow> bytes \<Rightarrow> creation_scan \<Rightarrow> string + creation_scan" where
  "scan_op_return i u script st =
     (let st1 =
        (case init_ParseOpReturnScript script of
           None \<Rightarrow> Inr st
         | Some envelope \<Rightarrow>
             if initEnvelopes st + 1 > 1 then Inl ''exactly one TRUSTATE envelope is allowed''
             else if amount u \<noteq> 0 then Inl ''TRUSTATE envelope output must have zero value''
             else Inr (st\<lparr>initEnvelopes := initEnvelopes st + 1, cs_initEnvelopeVout := Some i,
                          cs_initEnvelope := envelope\<rparr>))
      in case st1 of
        Inl e \<Rightarrow> Inl e
      | Inr st1 \<Rightarrow>
          (case call_ParseOpReturnScript script of
             None \<Rightarrow> Inr st1
           | Some _ \<Rightarrow>
               if callEnvelopes st1 + 1 > 1 then Inl ''exactly one TRUCALL envelope is allowed''
               else if amount u \<noteq> 0 then Inl ''TRUCALL envelope output must have zero value''
               else Inr (st1\<lparr>callEnvelopes := callEnvelopes st1 + 1\<rparr>)))"

definition scan_output :: "nat \<Rightarrow> TxOut \<Rightarrow> creation_scan \<Rightarrow> string + creation_scan" where
  "scan_output i u st =
     (case DecodeScriptHexStrict (scriptPubKey u) of
        None \<Rightarrow> Inl ''malformed output script hex''
      | Some script \<Rightarrow>
          if script \<noteq> [] \<and> hd script = OP_RETURN then scan_op_return i u script st
          else
            let scan = ScanStatefulContractScript script in
            if \<not> scan_valid scan then Inl ''malformed stateful locking script''
            else if \<not> usesStateDomain scan then Inr st
            else if statefulOutputs st + 1 > 1
            then Inl ''one stateful contract creation per transaction''
            else if \<not> IsCanonicalStatefulKvV1Script script
            then Inl ''only canonical f751 state-anchor creation is activated''
            else if amount u = 0 then Inl ''Stateful K/V V1 requires a non-zero state anchor''
            else Inr (st\<lparr>statefulOutputs := statefulOutputs st + 1, cs_targetVout := Some i\<rparr>))"

fun scan_outputs :: "nat \<Rightarrow> TxOut list \<Rightarrow> creation_scan \<Rightarrow> string + creation_scan" where
  "scan_outputs i [] st = Inr st"
| "scan_outputs i (u # rest) st =
     (case scan_output i u st of Inl e \<Rightarrow> Inl e | Inr st' \<Rightarrow> scan_outputs (i + 1) rest st')"

record StatefulCreationShapeResult =
  hasCreation :: bool
  hasCallCandidate :: bool
  family :: StatefulCreationFamily
  res_targetVout :: "nat option"
  initEnvelopeVout :: "nat option"
  accountedStateBytes :: nat
  initEnvelope :: StateInitEnvelope

definition creation_family :: "StateInitEnvelope \<Rightarrow> string + StatefulCreationFamily" where
  "creation_family envelope =
     (if length (entries envelope) = 1 then Inr KvV1
      else case IsCanonicalVotingV1InitEnvelope envelope of
        Inr _ \<Rightarrow> Inr VotingV1
      | Inl votingReason \<Rightarrow>
          (case IsCanonicalTokenIssuerV1InitEnvelope envelope of
             Inr _ \<Rightarrow> Inr TokenIssuerV1
           | Inl tokenReason \<Rightarrow>
               Inl (''unsupported stateful creation schema; voting='' @ votingReason @
                    ''; token_issuer='' @ tokenReason)))"

text \<open>\<open>emplace\<close> keeps the first entry of a key.\<close>

definition emplace_all :: "entries \<Rightarrow> state_map" where
  "emplace_all es =
     foldl (\<lambda>m (key, val). if map_of m key = None then m @ [(key, val)] else m) [] es"

definition ValidateStatefulCreationShape ::
    "'j Transaction \<Rightarrow> string + StatefulCreationShapeResult" where
  "ValidateStatefulCreationShape tx =
     (case scan_outputs 0 (vout tx) creation_scan_init of
        Inl e \<Rightarrow> Inl e
      | Inr st \<Rightarrow>
          let result = \<lparr>hasCreation = False, hasCallCandidate = False, family = NoFamily,
                res_targetVout = cs_targetVout st, initEnvelopeVout = cs_initEnvelopeVout st,
                accountedStateBytes = 0, initEnvelope = cs_initEnvelope st\<rparr> in
          if statefulOutputs st = 0 then
            (if initEnvelopes st \<noteq> 0 then Inl ''orphan TRUSTATE envelope without stateful output''
             else if callEnvelopes st \<noteq> 0 then Inl ''orphan TRUCALL envelope without stateful output''
             else Inr result)
          else if callEnvelopes st \<noteq> 0 then
            (if callEnvelopes st \<noteq> 1 \<or> initEnvelopes st \<noteq> 0
             then Inl ''stateful continuation requires one TRUCALL and no TRUSTATE''
             else Inr (result\<lparr>hasCallCandidate := True\<rparr>))
          else if length (vin tx) \<noteq> 1
          then Inl ''Stateful K/V V1 creation requires exactly one creator funding input''
          else if initEnvelopes st \<noteq> 1
          then Inl ''Stateful K/V V1 requires exactly one TRUSTATE envelope''
          else if Some (unat (targetVout (cs_initEnvelope st))) \<noteq> cs_targetVout st
          then Inl ''TRUSTATE targetVout does not match state anchor''
          else case creation_family (cs_initEnvelope st) of
            Inl e \<Rightarrow> Inl e
          | Inr fam \<Rightarrow>
              (case MeasureStateBytes (emplace_all (entries (cs_initEnvelope st))) of
                 None \<Rightarrow> Inl ''TRUSTATE initial state exceeds consensus limits''
               | Some n \<Rightarrow>
                   Inr (result\<lparr>family := fam, accountedStateBytes := n, hasCreation := True\<rparr>)))"

subsection \<open>The call shape\<close>

definition ComputeUnlockScriptSha256 :: "crypto \<Rightarrow> bytes \<Rightarrow> bytes" where
  "ComputeUnlockScriptSha256 C script = SHA256 C script"

record call_scan =
  matches :: nat
  matchIndex :: "nat option"
  continuationAmount :: u64
  callEnvelopeCount :: nat
  callEnvelopeVout :: "nat option"
  callEnvelope :: StateCallEnvelope

definition call_scan_init :: call_scan where
  "call_scan_init = \<lparr>matches = 0, matchIndex = None, continuationAmount = 0,
     callEnvelopeCount = 0, callEnvelopeVout = None,
     callEnvelope = \<lparr>targetInput = 0, continuationVout = 0, unlockScriptSha256 = replicate 32 0\<rparr>\<rparr>"

definition scan_call_output :: "string \<Rightarrow> nat \<Rightarrow> TxOut \<Rightarrow> call_scan \<Rightarrow> string + call_scan" where
  "scan_call_output lockingScriptHex i u st0 =
     (let st =
        (if ScriptHexEqual (scriptPubKey u) lockingScriptHex
         then st0\<lparr>matches := matches st0 + 1, matchIndex := Some i, continuationAmount := amount u\<rparr>
         else st0)
      in case DecodeScriptHexStrict (scriptPubKey u) of
        None \<Rightarrow> Inl ''malformed output script hex in stateful call''
      | Some outputScript \<Rightarrow>
          if outputScript = [] \<or> hd outputScript \<noteq> OP_RETURN then Inr st
          else case call_ParseOpReturnScript outputScript of
            None \<Rightarrow> Inr st
          | Some envelope \<Rightarrow>
              if callEnvelopeCount st + 1 > 1
              then Inl ''stateful V1 call requires exactly one TRUCALL envelope''
              else if amount u \<noteq> 0 then Inl ''TRUCALL envelope output must have zero value''
              else Inr (st\<lparr>callEnvelopeCount := callEnvelopeCount st + 1,
                           callEnvelopeVout := Some i, callEnvelope := envelope\<rparr>))"

fun scan_call_outputs :: "string \<Rightarrow> nat \<Rightarrow> TxOut list \<Rightarrow> call_scan \<Rightarrow> string + call_scan" where
  "scan_call_outputs lockingScriptHex i [] st = Inr st"
| "scan_call_outputs lockingScriptHex i (u # rest) st =
     (case scan_call_output lockingScriptHex i u st of
        Inl e \<Rightarrow> Inl e
      | Inr st' \<Rightarrow> scan_call_outputs lockingScriptHex (i + 1) rest st')"

record StatefulCallShapeResult =
  callerInputIndex :: nat
  call_continuationVout :: nat
  call_envelopeVout :: "nat option"
  callValue :: u64
  logicalKey :: string
  call_value :: bytes
  call_callEnvelope :: StateCallEnvelope

definition ValidateStatefulCallShape ::
    "crypto \<Rightarrow> 'j Transaction \<Rightarrow> nat \<Rightarrow> string \<Rightarrow> u64 \<Rightarrow> string + StatefulCallShapeResult" where
  "ValidateStatefulCallShape C tx statefulInputIndex lockingScriptHex lockedAmount =
     (if statefulInputIndex \<noteq> 0 then Inl ''state-anchor must be vin[0]''
      else if length (vin tx) \<noteq> 2 then Inl ''stateful V1 call requires exactly two inputs''
      else if prev_txid (vin tx ! 0) = prev_txid (vin tx ! 1) \<and>
              prev_vout (vin tx ! 0) = prev_vout (vin tx ! 1)
      then Inl ''caller input duplicates state-anchor input''
      else if (case DecodeScriptHexStrict lockingScriptHex of
                 None \<Rightarrow> True | Some s \<Rightarrow> \<not> IsCanonicalStatefulKvV1Script s)
      then Inl ''only canonical Stateful K/V V1 continuation calls are activated''
      else case DecodeStatefulKvV1UnlockScript (scriptSig (vin tx ! 0)) of
        None \<Rightarrow> Inl ''Stateful K/V V1 vin[0] must contain exactly two canonical pushes: key, value''
      | Some (key, val) \<Rightarrow>
          (case scan_call_outputs lockingScriptHex 0 (vout tx) call_scan_init of
             Inl e \<Rightarrow> Inl e
           | Inr st \<Rightarrow>
               if matches st \<noteq> 1
               then Inl ''stateful V1 call requires exactly one continuation output''
               else if continuationAmount st < lockedAmount
               then Inl ''stateful V1 continuation cannot decrease anchor amount''
               else if callEnvelopeCount st \<noteq> 1
               then Inl ''stateful V1 call requires exactly one TRUCALL envelope''
               else if targetInput (callEnvelope st) \<noteq> 0
               then Inl ''TRUCALL targetInput must be vin[0]''
               else if Some (unat (continuationVout (callEnvelope st))) \<noteq> matchIndex st
               then Inl ''TRUCALL continuationVout does not match continuation output''
               else if ComputeUnlockScriptSha256 C (scriptSig (vin tx ! 0)) \<noteq>
                       unlockScriptSha256 (callEnvelope st)
               then Inl ''TRUCALL unlockScriptSha256 does not bind vin[0].scriptSig''
               else Inr \<lparr>callerInputIndex = 1, call_continuationVout = the (matchIndex st),
                         call_envelopeVout = callEnvelopeVout st,
                         callValue = continuationAmount st - lockedAmount,
                         logicalKey = key, call_value = val,
                         call_callEnvelope = callEnvelope st\<rparr>))"

subsection \<open>Exactly one output\<close>

definition only_at :: "('a \<Rightarrow> bool) \<Rightarrow> 'a list \<Rightarrow> nat \<Rightarrow> bool" where
  "only_at P us j \<longleftrightarrow> j < length us \<and> P (us ! j) \<and> (\<forall>k < length us. k \<noteq> j \<longrightarrow> \<not> P (us ! k))"

lemma only_at_Cons [simp]:
  "only_at P (u # us) 0 \<longleftrightarrow> P u \<and> (\<forall>x\<in>set us. \<not> P x)"
  "only_at P (u # us) (Suc j) \<longleftrightarrow> \<not> P u \<and> only_at P us j"
  by (auto simp: only_at_def in_set_conv_nth nth_Cons' all_set_conv_all_nth split: nat.splits)

lemma filter_none: "length (filter P us) = 0 \<longleftrightarrow> (\<forall>x\<in>set us. \<not> P x)"
  by (simp add: filter_empty_conv)

subsection \<open>The call scan\<close>

definition call_of :: "TxOut \<Rightarrow> StateCallEnvelope option" where
  "call_of u = (case DecodeScriptHexStrict (scriptPubKey u) of
     None \<Rightarrow> None
   | Some s \<Rightarrow> if s = [] \<or> hd s \<noteq> OP_RETURN then None else call_ParseOpReturnScript s)"

definition same_lock :: "string \<Rightarrow> TxOut \<Rightarrow> bool" where
  "same_lock lockingScriptHex u \<longleftrightarrow> ScriptHexEqual (scriptPubKey u) lockingScriptHex"

lemma scan_call_output_Inr:
  assumes "scan_call_output L i u st = Inr st'"
  shows "matches st' = matches st + (if same_lock L u then 1 else 0)"
    and "matchIndex st' = (if same_lock L u then Some i else matchIndex st)"
    and "continuationAmount st' = (if same_lock L u then amount u else continuationAmount st)"
    and "callEnvelopeCount st' = callEnvelopeCount st + (if call_of u \<noteq> None then 1 else 0)"
    and "callEnvelope st' = (case call_of u of None \<Rightarrow> callEnvelope st | Some e \<Rightarrow> e)"
    and "call_of u \<noteq> None \<longrightarrow> amount u = 0"
  using assms
  by (auto simp: scan_call_output_def same_lock_def call_of_def Let_def split: option.splits if_splits)

lemma scan_call_outputs_Inr:
  assumes "scan_call_outputs L i us st = Inr st'"
  shows "matches st' = matches st + length (filter (same_lock L) us) \<and>
    callEnvelopeCount st' = callEnvelopeCount st + length (filter (\<lambda>u. call_of u \<noteq> None) us) \<and>
    (matches st' = matches st \<longrightarrow>
       matchIndex st' = matchIndex st \<and> continuationAmount st' = continuationAmount st) \<and>
    (matches st' = matches st + 1 \<longrightarrow>
       (\<exists>j. only_at (same_lock L) us j \<and> matchIndex st' = Some (i + j) \<and>
          continuationAmount st' = amount (us ! j))) \<and>
    (callEnvelopeCount st' = callEnvelopeCount st \<longrightarrow> callEnvelope st' = callEnvelope st) \<and>
    (callEnvelopeCount st' = callEnvelopeCount st + 1 \<longrightarrow>
       (\<exists>j. only_at (\<lambda>u. call_of u \<noteq> None) us j \<and> call_of (us ! j) = Some (callEnvelope st') \<and>
          amount (us ! j) = 0))"
  using assms
proof (induction us arbitrary: i st)
  case (Cons u us)
  from Cons.prems obtain st1 where s1: "scan_call_output L i u st = Inr st1"
    and s2: "scan_call_outputs L (i + 1) us st1 = Inr st'"
    by (auto split: sum.splits)
  note h = scan_call_output_Inr [OF s1] and IH = Cons.IH [OF s2]
  have m: "\<exists>j. only_at (same_lock L) (u # us) j \<and> matchIndex st' = Some (i + j) \<and>
      continuationAmount st' = amount ((u # us) ! j)" if one: "matches st' = matches st + 1"
  proof (cases "same_lock L u")
    case True
    then have "length (filter (same_lock L) us) = 0" using one h IH by simp
    then have "\<forall>x\<in>set us. \<not> same_lock L x" by (simp only: filter_none)
    then show ?thesis using True one h IH by (intro exI [of _ 0]) simp
  next
    case False
    then obtain j where "only_at (same_lock L) us j" "matchIndex st' = Some (i + 1 + j)"
      "continuationAmount st' = amount (us ! j)" using one h IH by auto
    then show ?thesis using False by (intro exI [of _ "Suc j"]) simp
  qed
  have e: "\<exists>j. only_at (\<lambda>u. call_of u \<noteq> None) (u # us) j \<and>
      call_of ((u # us) ! j) = Some (callEnvelope st') \<and> amount ((u # us) ! j) = 0"
    if one: "callEnvelopeCount st' = callEnvelopeCount st + 1"
  proof (cases "call_of u = None")
    case False
    then have "length (filter (\<lambda>u. call_of u \<noteq> None) us) = 0" using one h IH by simp
    then have "\<forall>x\<in>set us. \<not> call_of x \<noteq> None" by (simp only: filter_none)
    then show ?thesis using False one h IH by (intro exI [of _ 0]) auto
  next
    case True
    then obtain j where "only_at (\<lambda>u. call_of u \<noteq> None) us j"
      "call_of (us ! j) = Some (callEnvelope st')" "amount (us ! j) = 0"
      using one h IH by auto
    then show ?thesis using True by (intro exI [of _ "Suc j"]) simp
  qed
  show ?case using h IH m e by (auto split: if_splits)
qed simp

text \<open>
  C17: an accepted stateful call is bound to exactly one transition. It has two inputs that spend
  different outpoints, the anchor first and the caller second; the lock it spends is the canonical
  stateful lock, its unlock script is the canonical encoding of the reported key and value, exactly
  one output carries the same locking script and its amount is the consumed anchor plus the reported call
  value (no wrap), and exactly one zero-value output carries the envelope, which names input 0,
  that output, and the SHA-256 of that very unlock script.
\<close>

theorem call_shape_binds:
  assumes "ValidateStatefulCallShape C tx idx lockingScriptHex lockedAmount = Inr r"
  shows "idx = 0 \<and> length (vin tx) = 2 \<and> callerInputIndex r = 1 \<and>
     (prev_txid (vin tx ! 0), prev_vout (vin tx ! 0)) \<noteq> (prev_txid (vin tx ! 1), prev_vout (vin tx ! 1)) \<and>
     DecodeScriptHexStrict lockingScriptHex = Some [OP_STORE, OP_1] \<and>
     scriptSig (vin tx ! 0) = kv_script (logicalKey r) (call_value r) \<and>
     only_at (same_lock lockingScriptHex) (vout tx) (call_continuationVout r) \<and>
     unat (amount (vout tx ! call_continuationVout r)) = unat lockedAmount + unat (callValue r) \<and>
     (\<exists>j. only_at (\<lambda>u. call_of u \<noteq> None) (vout tx) j \<and> amount (vout tx ! j) = 0 \<and>
        call_of (vout tx ! j) = Some (call_callEnvelope r)) \<and>
     targetInput (call_callEnvelope r) = 0 \<and>
     unat (continuationVout (call_callEnvelope r)) = call_continuationVout r \<and>
     unlockScriptSha256 (call_callEnvelope r) = SHA256 C (scriptSig (vin tx ! 0))"
proof -
  from assms obtain key val st where kv: "DecodeStatefulKvV1UnlockScript (scriptSig (vin tx ! 0)) =
      Some (key, val)" and sc: "scan_call_outputs lockingScriptHex 0 (vout tx) call_scan_init = Inr st"
    and st: "matches st = 1" "\<not> continuationAmount st < lockedAmount" "callEnvelopeCount st = 1"
    "targetInput (callEnvelope st) = 0" "Some (unat (continuationVout (callEnvelope st))) = matchIndex st"
    "SHA256 C (scriptSig (vin tx ! 0)) = unlockScriptSha256 (callEnvelope st)"
    and r: "r = \<lparr>callerInputIndex = 1, call_continuationVout = the (matchIndex st),
        call_envelopeVout = callEnvelopeVout st, callValue = continuationAmount st - lockedAmount,
        logicalKey = key, call_value = val, call_callEnvelope = callEnvelope st\<rparr>"
    and v: "idx = 0" "length (vin tx) = 2"
      "(prev_txid (vin tx ! 0), prev_vout (vin tx ! 0)) \<noteq> (prev_txid (vin tx ! 1), prev_vout (vin tx ! 1))"
    and lock: "case DecodeScriptHexStrict lockingScriptHex of None \<Rightarrow> False | Some s \<Rightarrow> IsCanonicalStatefulKvV1Script s"
    unfolding ValidateStatefulCallShape_def ComputeUnlockScriptSha256_def
    by (simp split: if_splits option.splits prod.splits sum.splits)
  have "DecodeScriptHexStrict lockingScriptHex = Some [OP_STORE, OP_1]"
    using lock by (auto simp: IsCanonicalStatefulKvV1Script_def numeral_2_eq_2 length_Suc_conv split: option.splits)
  moreover have init: "matches call_scan_init = 0" "callEnvelopeCount call_scan_init = 0"
    by (simp_all add: call_scan_init_def)
  obtain j where j: "only_at (same_lock lockingScriptHex) (vout tx) j" "matchIndex st = Some j"
    "continuationAmount st = amount (vout tx ! j)"
    using scan_call_outputs_Inr [OF sc] st(1) init by auto
  obtain e where e: "only_at (\<lambda>u. call_of u \<noteq> None) (vout tx) e"
    "call_of (vout tx ! e) = Some (callEnvelope st)" "amount (vout tx ! e) = 0"
    using scan_call_outputs_Inr [OF sc] st(3) init by auto
  have "lockedAmount \<le> amount (vout tx ! j)" using st(2) j(3) by simp
  then have "unat (amount (vout tx ! j)) =
      unat lockedAmount + unat (amount (vout tx ! j) - lockedAmount)"
    by (simp add: unat_sub word_le_nat_alt)
  ultimately show ?thesis
    using kv st j e r v by (auto simp: kv_decode_eq)
qed

definition sample_call :: "unit Transaction" where
  "sample_call =
     (let unlock = kv_script ''k'' [7];
          anchor = \<lparr>prev_txid = replicate 64 (CHR ''a''), prev_vout = 0, scriptSig = unlock,
            pubKey = [], in_scriptPubKey = [], sequence = 0\<rparr>;
          caller = \<lparr>prev_txid = replicate 64 (CHR ''b''), prev_vout = 1, scriptSig = [],
            pubKey = [], in_scriptPubKey = [], sequence = 0\<rparr>;
          env = \<lparr>targetInput = 0, continuationVout = 0,
            unlockScriptSha256 = SHA256 toy_crypto unlock\<rparr> in
      \<lparr>isCoinbase = False, txid = [], sender = [], vin = [anchor, caller],
       vout = [\<lparr>amount = 9, scriptPubKey = ''F751''\<rparr>,
               \<lparr>amount = 0, scriptPubKey = hex_encode (the (call_BuildOpReturnScript env))\<rparr>],
       version = 1, lockTime = 0, tokenMetadata = []\<rparr>)"

theorem call_shape_binds_witness:
  "\<exists>r. ValidateStatefulCallShape toy_crypto sample_call 0 ''f751'' 5 = Inr r \<and> callValue r = 4 \<and>
     only_at (same_lock ''f751'') (vout sample_call) (call_continuationVout r)"
proof -
  have "case ValidateStatefulCallShape toy_crypto sample_call 0 ''f751'' 5 of
      Inl _ \<Rightarrow> False | Inr r \<Rightarrow> callValue r = 4" by code_simp
  then obtain r where r: "ValidateStatefulCallShape toy_crypto sample_call 0 ''f751'' 5 = Inr r"
    "callValue r = 4" by (auto split: sum.splits)
  then show ?thesis using call_shape_binds [OF r(1)] by blast
qed

subsection \<open>The creation scan\<close>

definition stateful_out :: "TxOut \<Rightarrow> bool" where
  "stateful_out u \<longleftrightarrow> (case DecodeScriptHexStrict (scriptPubKey u) of
     None \<Rightarrow> False
   | Some s \<Rightarrow> \<not> (s \<noteq> [] \<and> hd s = OP_RETURN) \<and> usesStateDomain (ScanStatefulContractScript s))"

definition init_of :: "TxOut \<Rightarrow> StateInitEnvelope option" where
  "init_of u = (case DecodeScriptHexStrict (scriptPubKey u) of
     None \<Rightarrow> None
   | Some s \<Rightarrow> if s = [] \<or> hd s \<noteq> OP_RETURN then None else init_ParseOpReturnScript s)"

lemma scan_output_Inr:
  assumes "scan_output i u st = Inr st'"
  shows "statefulOutputs st' = statefulOutputs st + (if stateful_out u then 1 else 0)"
    and "cs_targetVout st' = (if stateful_out u then Some i else cs_targetVout st)"
    and "initEnvelopes st' = initEnvelopes st + (if init_of u \<noteq> None then 1 else 0)"
    and "cs_initEnvelope st' = (case init_of u of None \<Rightarrow> cs_initEnvelope st | Some e \<Rightarrow> e)"
    and "callEnvelopes st' = callEnvelopes st + (if call_of u \<noteq> None then 1 else 0)"
    and "stateful_out u \<longrightarrow> DecodeScriptHexStrict (scriptPubKey u) = Some [OP_STORE, OP_1] \<and>
      amount u \<noteq> 0 \<and> statefulOutputs st = 0"
    and "init_of u \<noteq> None \<longrightarrow> amount u = 0"
proof -
  from assms obtain s where s: "DecodeScriptHexStrict (scriptPubKey u) = Some s"
    by (auto simp: scan_output_def split: option.splits)
  have two: "s = [OP_STORE, OP_1]" if "IsCanonicalStatefulKvV1Script s"
    using that by (auto simp: IsCanonicalStatefulKvV1Script_def numeral_2_eq_2 length_Suc_conv)
  show "statefulOutputs st' = statefulOutputs st + (if stateful_out u then 1 else 0)"
    "cs_targetVout st' = (if stateful_out u then Some i else cs_targetVout st)"
    "initEnvelopes st' = initEnvelopes st + (if init_of u \<noteq> None then 1 else 0)"
    "cs_initEnvelope st' = (case init_of u of None \<Rightarrow> cs_initEnvelope st | Some e \<Rightarrow> e)"
    "callEnvelopes st' = callEnvelopes st + (if call_of u \<noteq> None then 1 else 0)"
    "stateful_out u \<longrightarrow> DecodeScriptHexStrict (scriptPubKey u) = Some [OP_STORE, OP_1] \<and>
      amount u \<noteq> 0 \<and> statefulOutputs st = 0"
    "init_of u \<noteq> None \<longrightarrow> amount u = 0"
    using assms two
    by (auto simp: scan_output_def scan_op_return_def stateful_out_def init_of_def call_of_def s Let_def
        split: option.splits if_splits sum.splits)
qed

lemma scan_outputs_Inr:
  assumes "scan_outputs i us st = Inr st'" and "statefulOutputs st \<le> 1"
  shows "statefulOutputs st' \<le> 1 \<and>
    statefulOutputs st' = statefulOutputs st + length (filter stateful_out us) \<and>
    initEnvelopes st' = initEnvelopes st + length (filter (\<lambda>u. init_of u \<noteq> None) us) \<and>
    callEnvelopes st' = callEnvelopes st + length (filter (\<lambda>u. call_of u \<noteq> None) us) \<and>
    (statefulOutputs st' = statefulOutputs st \<longrightarrow> cs_targetVout st' = cs_targetVout st) \<and>
    (statefulOutputs st' = statefulOutputs st + 1 \<longrightarrow>
       (\<exists>j. only_at stateful_out us j \<and> cs_targetVout st' = Some (i + j) \<and> amount (us ! j) \<noteq> 0 \<and>
          DecodeScriptHexStrict (scriptPubKey (us ! j)) = Some [OP_STORE, OP_1])) \<and>
    (initEnvelopes st' = initEnvelopes st \<longrightarrow> cs_initEnvelope st' = cs_initEnvelope st) \<and>
    (initEnvelopes st' = initEnvelopes st + 1 \<longrightarrow>
       (\<exists>j. only_at (\<lambda>u. init_of u \<noteq> None) us j \<and> init_of (us ! j) = Some (cs_initEnvelope st') \<and>
          amount (us ! j) = 0))"
  using assms
proof (induction us arbitrary: i st)
  case (Cons u us)
  from Cons.prems obtain st1 where s1: "scan_output i u st = Inr st1"
    and s2: "scan_outputs (i + 1) us st1 = Inr st'"
    by (auto split: sum.splits)
  note h = scan_output_Inr [OF s1]
  have le: "statefulOutputs st1 \<le> 1" using h(1,6) Cons.prems(2) by auto
  note IH = Cons.IH [OF s2 le]
  have m: "\<exists>j. only_at stateful_out (u # us) j \<and> cs_targetVout st' = Some (i + j) \<and>
      amount ((u # us) ! j) \<noteq> 0 \<and>
      DecodeScriptHexStrict (scriptPubKey ((u # us) ! j)) = Some [OP_STORE, OP_1]"
    if one: "statefulOutputs st' = statefulOutputs st + 1"
  proof (cases "stateful_out u")
    case True
    then have "length (filter stateful_out us) = 0" using one h IH by simp
    then have "\<forall>x\<in>set us. \<not> stateful_out x" by (simp only: filter_none)
    then show ?thesis using True one h IH by (intro exI [of _ 0]) simp
  next
    case False
    then obtain j where "only_at stateful_out us j" "cs_targetVout st' = Some (i + 1 + j)"
      "amount (us ! j) \<noteq> 0" "DecodeScriptHexStrict (scriptPubKey (us ! j)) = Some [OP_STORE, OP_1]"
      using one h IH by auto
    then show ?thesis using False by (intro exI [of _ "Suc j"]) simp
  qed
  have e: "\<exists>j. only_at (\<lambda>u. init_of u \<noteq> None) (u # us) j \<and>
      init_of ((u # us) ! j) = Some (cs_initEnvelope st') \<and> amount ((u # us) ! j) = 0"
    if one: "initEnvelopes st' = initEnvelopes st + 1"
  proof (cases "init_of u = None")
    case False
    then have "length (filter (\<lambda>u. init_of u \<noteq> None) us) = 0" using one h IH by simp
    then have "\<forall>x\<in>set us. \<not> init_of x \<noteq> None" by (simp only: filter_none)
    then show ?thesis using False one h IH by (intro exI [of _ 0]) auto
  next
    case True
    then obtain j where "only_at (\<lambda>u. init_of u \<noteq> None) us j"
      "init_of (us ! j) = Some (cs_initEnvelope st')" "amount (us ! j) = 0"
      using one h IH by auto
    then show ?thesis using True by (intro exI [of _ "Suc j"]) simp
  qed
  have t: "cs_targetVout st' = cs_targetVout st" if "statefulOutputs st' = statefulOutputs st"
    using that h IH by (cases "stateful_out u") simp_all
  have v: "cs_initEnvelope st' = cs_initEnvelope st" if "initEnvelopes st' = initEnvelopes st"
    using that h IH by (cases "init_of u") simp_all
  show ?case using h IH m e t v by simp
qed simp

lemma emplace_all_distinct: "keys_distinct es \<Longrightarrow> emplace_all es = es"
proof -
  have "foldl (\<lambda>m (key, val). if map_of m key = None then m @ [(key, val)] else m) m es = m @ es"
    if "keys_distinct (m @ es)" for m es :: state_map
    using that
  proof (induction es arbitrary: m)
    case (Cons e es)
    then have "map_of m (fst e) = None" by (auto simp: map_of_eq_None_iff)
    then show ?case using Cons by (cases e) simp
  qed simp
  then show "keys_distinct es \<Longrightarrow> emplace_all es = es" by (simp add: emplace_all_def)
qed

lemma init_of_valid: "init_of u = Some e \<Longrightarrow> ValidateEntries (entries e)"
proof -
  assume "init_of u = Some e"
  then obtain s where "init_ParseOpReturnScript s = Some e"
    by (auto simp: init_of_def split: option.splits if_splits)
  then obtain p where "init_ParsePayload p = Some e"
    by (auto simp: init_ParseOpReturnScript_def split: option.splits)
  then show ?thesis using init_enc_dec init_BuildPayload_iff by blast
qed

text \<open>The parts of an accepted creation.\<close>

lemma creation_parts:
  assumes "ValidateStatefulCreationShape tx = Inr r" and "hasCreation r"
  shows "\<exists>t. res_targetVout r = Some t \<and> only_at stateful_out (vout tx) t \<and>
      DecodeScriptHexStrict (scriptPubKey (vout tx ! t)) = Some [OP_STORE, OP_1] \<and>
      amount (vout tx ! t) \<noteq> 0 \<and> length (vin tx) = 1 \<and>
      (\<exists>j. only_at (\<lambda>u. init_of u \<noteq> None) (vout tx) j \<and> amount (vout tx ! j) = 0 \<and>
         init_of (vout tx ! j) = Some (initEnvelope r)) \<and>
      unat (targetVout (initEnvelope r)) = t \<and> (\<forall>u\<in>set (vout tx). call_of u = None) \<and>
      keys_distinct (entries (initEnvelope r)) \<and> state_within_limits (entries (initEnvelope r)) \<and>
      accountedStateBytes r = state_bytes (entries (initEnvelope r)) \<and> family r \<noteq> NoFamily \<and>
      creation_family (initEnvelope r) = Inr (family r)"
proof -
  from assms obtain st fam n where sc: "scan_outputs 0 (vout tx) creation_scan_init = Inr st"
    and st: "statefulOutputs st \<noteq> 0" "callEnvelopes st = 0" "length (vin tx) = 1"
      "initEnvelopes st = 1" "Some (unat (targetVout (cs_initEnvelope st))) = cs_targetVout st"
    and fam: "creation_family (cs_initEnvelope st) = Inr fam"
    and n: "MeasureStateBytes (emplace_all (entries (cs_initEnvelope st))) = Some n"
    and r: "res_targetVout r = cs_targetVout st" "initEnvelope r = cs_initEnvelope st"
      "family r = fam" "accountedStateBytes r = n"
    unfolding ValidateStatefulCreationShape_def Let_def
    by (auto split: sum.splits if_splits option.splits)
  have init: "statefulOutputs creation_scan_init = 0" "initEnvelopes creation_scan_init = 0"
    "callEnvelopes creation_scan_init = 0"
    by (simp_all add: creation_scan_init_def)
  note h = scan_outputs_Inr [OF sc, unfolded init]
  have one: "statefulOutputs st = 1" using conjunct1 [OF h] st(1) by linarith
  obtain t where t: "only_at stateful_out (vout tx) t" "cs_targetVout st = Some t"
    "amount (vout tx ! t) \<noteq> 0" "DecodeScriptHexStrict (scriptPubKey (vout tx ! t)) = Some [OP_STORE, OP_1]"
    using h one by auto
  obtain j where j: "only_at (\<lambda>u. init_of u \<noteq> None) (vout tx) j"
    "init_of (vout tx ! j) = Some (cs_initEnvelope st)" "amount (vout tx ! j) = 0"
    using h st(4) by auto
  have v: "IsStrictlySortedUnique (entries (cs_initEnvelope st))"
    "state_within_limits (entries (cs_initEnvelope st))"
    using init_of_valid [OF j(2)] by (auto simp: ValidateEntries_iff)
  have d: "keys_distinct (entries (cs_initEnvelope st))" using v(1) by (rule strictly_sorted_distinct)
  have n': "n = state_bytes (entries (cs_initEnvelope st))"
    using n v(2) by (simp add: emplace_all_distinct [OF d] MeasureStateBytes_eq)
  have "length (filter (\<lambda>u. call_of u \<noteq> None) (vout tx)) = 0" using h st(2) by simp
  then have nc: "\<forall>u\<in>set (vout tx). call_of u = None" by (simp only: filter_none) simp
  have "fam \<noteq> NoFamily"
    using fam by (auto simp: creation_family_def split: if_splits sum.splits)
  then show ?thesis using t j st d v n' nc r fam by auto
qed

text \<open>
  C18: an accepted creation has one anchor and one initial state. Exactly one output is stateful,
  it is the script \<open>OP_STORE OP_1\<close> with a non-zero amount; there is one funding input, one
  zero-value TRUSTATE output that names the anchor, and no call envelope; the initial state has
  distinct keys, is within the state limits and is charged exactly its accounted size.
\<close>

theorem creation_shape_sound:
  assumes "ValidateStatefulCreationShape tx = Inr r" and "hasCreation r"
  shows "\<exists>t. res_targetVout r = Some t \<and> only_at stateful_out (vout tx) t \<and>
      DecodeScriptHexStrict (scriptPubKey (vout tx ! t)) = Some [OP_STORE, OP_1] \<and>
      amount (vout tx ! t) \<noteq> 0 \<and> length (vin tx) = 1 \<and>
      (\<exists>j. only_at (\<lambda>u. init_of u \<noteq> None) (vout tx) j \<and> amount (vout tx ! j) = 0 \<and>
         init_of (vout tx ! j) = Some (initEnvelope r)) \<and>
      unat (targetVout (initEnvelope r)) = t \<and> (\<forall>u\<in>set (vout tx). call_of u = None) \<and>
      keys_distinct (entries (initEnvelope r)) \<and> state_within_limits (entries (initEnvelope r)) \<and>
      accountedStateBytes r = state_bytes (entries (initEnvelope r)) \<and> family r \<noteq> NoFamily"
  using creation_parts [OF assms] by blast

definition sample_creation :: "unit Transaction" where
  "sample_creation =
     (let env = \<lparr>targetVout = 0, entries = [(''k'', [1, 2])]\<rparr> in
      \<lparr>isCoinbase = False, txid = [], sender = [],
       vin = [\<lparr>prev_txid = replicate 64 (CHR ''a''), prev_vout = 0, scriptSig = [],
               pubKey = [], in_scriptPubKey = [], sequence = 0\<rparr>],
       vout = [\<lparr>amount = 9, scriptPubKey = ''f751''\<rparr>,
               \<lparr>amount = 0, scriptPubKey = hex_encode (the (init_BuildOpReturnScript env))\<rparr>],
       version = 1, lockTime = 0, tokenMetadata = []\<rparr>)"

theorem creation_shape_sound_witness:
  "\<exists>r. ValidateStatefulCreationShape sample_creation = Inr r \<and> family r = KvV1 \<and>
     only_at stateful_out (vout sample_creation) 0"
proof -
  have "case ValidateStatefulCreationShape sample_creation of
      Inl _ \<Rightarrow> False | Inr r \<Rightarrow> family r = KvV1 \<and> hasCreation r \<and> res_targetVout r = Some 0"
    by code_simp
  then obtain r where r: "ValidateStatefulCreationShape sample_creation = Inr r" "hasCreation r"
    "family r = KvV1" "res_targetVout r = Some 0" by (auto split: sum.splits)
  then show ?thesis using creation_shape_sound [OF r(1,2)] by auto
qed

end
