(* ===== verification/Signatures.thy ===== *)
theory Signatures
  imports Transactions
begin

text \<open>
  Canonical transaction signatures (\<open>src/src/crypto_ecdsa.cpp\<close>): the strict DER and low-S test, the
  signature check, and the process-wide cache of positive answers. The order of the secp256k1 group
  is the documented constant returned by \<open>EC_GROUP_get_order\<close>; the DER reader and writer and the raw
  ECDSA check are fields of the \<open>crypto\<close> record.
\<close>

definition secp256k1_order :: int where
  "secp256k1_order = 0xFFFFFFFFFFFFFFFFFFFFFFFFFFFFFFFEBAAEDCE6AF48A03BBFD25E8CD0364141"

definition decodeStrictSecp256k1DER :: "crypto \<Rightarrow> bytes \<Rightarrow> (int \<times> int) option" where
  "decodeStrictSecp256k1DER C signature =
     (if length signature < 8 \<or> length signature > 72 then None
      else case d2i_ECDSA_SIG C signature of
        None \<Rightarrow> None
      | Some (parsed, rest) \<Rightarrow>
          if rest \<noteq> [] then None
          else if length (i2d_ECDSA_SIG C parsed) \<noteq> length signature then None
          else if i2d_ECDSA_SIG C parsed \<noteq> signature then None
          else let (r, s) = parsed in
            if r = 0 \<or> s = 0 \<or> r < 0 \<or> s < 0 then None
            else if r < secp256k1_order \<and> s < secp256k1_order \<and> s \<le> secp256k1_order div 2
            then Some (r, s) else None)"

definition isStrictDERLowS :: "crypto \<Rightarrow> bytes \<Rightarrow> bool" where
  "isStrictDERLowS C signature \<longleftrightarrow> decodeStrictSecp256k1DER C signature \<noteq> None"

definition verify :: "crypto \<Rightarrow> bytes \<Rightarrow> bytes \<Rightarrow> bytes \<Rightarrow> bool" where
  "verify C pubkey message signature \<longleftrightarrow>
     (if length message \<noteq> 32 then False else ECDSA_verify C pubkey message signature)"

definition sig_cacheable :: "bytes \<Rightarrow> bytes \<Rightarrow> bytes \<Rightarrow> bool" where
  "sig_cacheable pubkey message signature \<longleftrightarrow>
     length message = 32 \<and> length pubkey \<le> 65 \<and> length signature \<le> 72"

definition sig_key :: "bytes \<Rightarrow> bytes \<Rightarrow> bytes \<Rightarrow> bytes" where
  "sig_key pubkey message signature =
     [word_of_nat (length pubkey)] @ pubkey @ message @
     [word_of_nat (length signature)] @ signature"

definition verifyCanonicalTransactionSignature ::
    "crypto \<Rightarrow> bytes \<Rightarrow> bytes \<Rightarrow> bytes \<Rightarrow> perf_cache \<Rightarrow> bool \<times> perf_cache" where
  "verifyCanonicalTransactionSignature C pubkey message signature cache =
     (let cacheable = sig_cacheable pubkey message signature;
          key = sig_key pubkey message signature
      in if cacheable \<and> map_of cache key \<noteq> None then (True, cache)
         else if \<not> isStrictDERLowS C signature then (False, cache)
         else if \<not> verify C pubkey message signature then (False, cache)
         else (True, if cacheable then cache_put key [] cache else cache))"

text \<open>The answer without a cache.\<close>

definition canonical_signature :: "crypto \<Rightarrow> bytes \<Rightarrow> bytes \<Rightarrow> bytes \<Rightarrow> bool" where
  "canonical_signature C pubkey message signature \<longleftrightarrow>
     isStrictDERLowS C signature \<and> verify C pubkey message signature"

subsection \<open>One signature per nonce: the high-S twin is rejected\<close>

lemma decodeStrict_range:
  assumes "decodeStrictSecp256k1DER C signature = Some (r, s)"
  shows "0 < r" "r < secp256k1_order" "0 < s" "s \<le> secp256k1_order div 2"
    "i2d_ECDSA_SIG C (r, s) = signature"
  using assms by (auto simp: decodeStrictSecp256k1DER_def split: if_splits option.splits)

lemma high_s_twin_rejected:
  assumes "decodeStrictSecp256k1DER C signature = Some (r, s)"
  shows "decodeStrictSecp256k1DER C twin \<noteq> Some (r, secp256k1_order - s)"
  using decodeStrict_range [OF assms] decodeStrict_range [of C twin r "secp256k1_order - s"]
  by (auto simp: secp256k1_order_def)

lemma strict_signature_unique:
  assumes "decodeStrictSecp256k1DER C a = Some rs" "decodeStrictSecp256k1DER C b = Some rs"
  shows "a = b"
  using assms decodeStrict_range(5) by (metis surj_pair)

subsection \<open>The cache is exact\<close>

lemma sig_key_inject:
  assumes "sig_cacheable p m s" "sig_cacheable p' m' s'" "sig_key p m s = sig_key p' m' s'"
  shows "p = p' \<and> m = m' \<and> s = s'"
proof -
  have "(word_of_nat (length p) :: byte) = word_of_nat (length p')"
    using assms(3) by (simp add: sig_key_def)
  then have "unat (word_of_nat (length p) :: byte) = unat (word_of_nat (length p') :: byte)"
    by (rule arg_cong)
  moreover have "unat (word_of_nat (length p) :: byte) = length p"
    by (rule unat_word_of_nat_less) (use assms(1) in \<open>simp add: sig_cacheable_def\<close>)
  moreover have "unat (word_of_nat (length p') :: byte) = length p'"
    by (rule unat_word_of_nat_less) (use assms(2) in \<open>simp add: sig_cacheable_def\<close>)
  ultimately have "length p = length p'" by (simp only:)
  then show ?thesis
    using assms by (simp add: sig_key_def sig_cacheable_def)
qed

definition sig_cache_sound :: "crypto \<Rightarrow> perf_cache \<Rightarrow> bool" where
  "sig_cache_sound C cache \<longleftrightarrow>
     (\<forall>(k, v) \<in> set cache. \<exists>p m s. k = sig_key p m s \<and> sig_cacheable p m s \<and>
        canonical_signature C p m s)"

lemma sig_cache_sound_Nil [simp]: "sig_cache_sound C []"
  by (simp add: sig_cache_sound_def)

lemma cache_put_subset: "set (cache_put k v cache) \<subseteq> insert (k, v) (set cache)"
  by (cases cache) (auto simp: cache_put_def)

lemma sig_cache_step:
  assumes "sig_cache_sound C cache"
  shows "fst (verifyCanonicalTransactionSignature C p m s cache) = canonical_signature C p m s"
    and "sig_cache_sound C (snd (verifyCanonicalTransactionSignature C p m s cache))"
proof -
  have hit: "canonical_signature C p m s"
    if c: "sig_cacheable p m s" and n: "map_of cache (sig_key p m s) \<noteq> None"
  proof -
    from n obtain v where h: "map_of cache (sig_key p m s) = Some v" by blast
    obtain p' m' s' where "sig_key p m s = sig_key p' m' s'" "sig_cacheable p' m' s'"
      "canonical_signature C p' m' s'"
      using assms map_of_SomeD [OF h] unfolding sig_cache_sound_def by blast
    then show ?thesis using sig_key_inject c by blast
  qed
  have sound: "sig_cache_sound C (cache_put (sig_key p m s) [] cache)"
    if "sig_cacheable p m s" "canonical_signature C p m s"
    using assms that cache_put_subset [of "sig_key p m s" "[]" cache]
    unfolding sig_cache_sound_def by blast
  show "fst (verifyCanonicalTransactionSignature C p m s cache) = canonical_signature C p m s"
    using hit by (auto simp: verifyCanonicalTransactionSignature_def canonical_signature_def Let_def)
  show "sig_cache_sound C (snd (verifyCanonicalTransactionSignature C p m s cache))"
    using sound assms
    by (auto simp: verifyCanonicalTransactionSignature_def canonical_signature_def Let_def)
qed

fun run_checks :: "crypto \<Rightarrow> perf_cache \<Rightarrow> (bytes \<times> bytes \<times> bytes) list \<Rightarrow> bool list" where
  "run_checks C cache [] = []"
| "run_checks C cache ((p, m, s) # reqs) =
     (let (ok, cache') = verifyCanonicalTransactionSignature C p m s cache
      in ok # run_checks C cache' reqs)"

lemma run_checks_sound:
  "sig_cache_sound C cache \<Longrightarrow>
   run_checks C cache reqs = map (\<lambda>(p, m, s). canonical_signature C p m s) reqs"
proof (induction C cache reqs rule: run_checks.induct)
  case (2 C cache p m s reqs)
  then show ?case
    using sig_cache_step [OF "2.prems", of p m s]
    by (cases "verifyCanonicalTransactionSignature C p m s cache") simp
qed simp

text \<open>
  C19: the signature cache never changes an answer. Over any sequence of signature checks of the
  process, starting from the empty cache and whatever is evicted, each answer is the one without a
  cache: the signature is strict DER with a low S and the raw check accepts it. No assumption on
  hash functions is needed, because the cache key spells out the whole request.
\<close>

theorem signature_cache_exact:
  "run_checks C [] reqs = map (\<lambda>(p, m, s). canonical_signature C p m s) reqs"
  by (rule run_checks_sound) simp

end
