(* ===== verification/Issuance.thy ===== *)
theory Issuance
  imports Codec
begin

text \<open>
  The issuance schedule: \<open>Blockchain::calculateSubsidy\<close> (\<open>src/src/blockchain.cpp\<close>) and the
  deterministic chain values that scripts can read (\<open>chainStateDeterministic\<close> and
  \<open>oracleFeedDeterministic\<close> of \<open>src/src/script_interpreter.cpp\<close>). The chain pointer of the context is
  only tested for being null, so it is a Boolean here. The division of \<open>height - 1\<close> by 210000 rounds
  towards zero in the code and down here; both give no halving for heights below 1.
\<close>

primrec halve :: "nat \<Rightarrow> u64 \<Rightarrow> u64" where
  "halve 0 subsidy = subsidy"
| "halve (Suc n) subsidy = halve n (subsidy div 2)"

definition calculateSubsidy :: "int \<Rightarrow> u64" where
  "calculateSubsidy height = halve (nat ((height - 1) div 210000)) (50 * 100000000)"

definition HALVING_INTERVAL :: u64 where "HALVING_INTERVAL = 210000"

lemma drop_bit_less: "(reward :: u64) \<noteq> 0 \<Longrightarrow> unat (drop_bit 1 reward) < unat reward"
  by (simp add: drop_bit_eq_div unat_div unat_gt_0)

function supply_loop :: "u64 \<Rightarrow> u64 \<Rightarrow> u64 \<Rightarrow> u64 option" where
  "supply_loop remaining reward issued =
     (if remaining \<noteq> 0 \<and> reward \<noteq> 0 then
        let blocks = min remaining HALVING_INTERVAL in
        if blocks > u64_max div reward then None
        else let eraIssued = blocks * reward in
          if issued > u64_max - eraIssued then None
          else supply_loop (remaining - blocks) (drop_bit 1 reward) (issued + eraIssued)
      else Some issued)"
  by auto
termination
  by (relation "measure (\<lambda>(_, reward, _). unat reward)") (use drop_bit_less in auto)

declare supply_loop.simps [simp del]

definition chainStateDeterministic :: "bool \<Rightarrow> u32 \<Rightarrow> string \<Rightarrow> bytes" where
  "chainStateDeterministic chain execHeight key =
     (if \<not> chain then []
      else let h = ucast execHeight :: u64 in
        if key = ''block_height'' then le_bytes 8 h
        else if key = ''total_supply'' \<or> key = ''total_issued'' then
          (case supply_loop h (50 * 100000000) 0 of None \<Rightarrow> [] | Some issued \<Rightarrow> le_bytes 8 issued)
        else if key = ''block_reward'' \<or> key = ''subsidy''
        then le_bytes 8 (calculateSubsidy (sint execHeight))
        else [])"

definition oracleFeedDeterministic :: "bool \<Rightarrow> u32 \<Rightarrow> string \<Rightarrow> bytes" where
  "oracleFeedDeterministic chain execHeight key =
     (if key = ''chain:block_height'' then chainStateDeterministic chain execHeight ''block_height''
      else if key = ''chain:total_supply'' then chainStateDeterministic chain execHeight ''total_supply''
      else if key = ''chain:block_reward'' then chainStateDeterministic chain execHeight ''block_reward''
      else [])"

subsection \<open>The schedule over the natural numbers\<close>

definition era_reward :: "nat \<Rightarrow> nat" where
  "era_reward k = 5000000000 div 2 ^ k"

definition issued_from :: "nat \<Rightarrow> nat \<Rightarrow> nat" where
  "issued_from k n = (\<Sum>i<n. era_reward (k + i div 210000))"

lemma unat_halve: "unat (halve n w) = unat w div 2 ^ n"
  by (induction n arbitrary: w) (simp_all add: unat_div div_mult2_eq)

lemma subsidy_value: "unat (calculateSubsidy h) = era_reward (nat ((h - 1) div 210000))"
  by (simp add: calculateSubsidy_def unat_halve era_reward_def)

lemma era_reward_Suc: "era_reward (Suc k) = era_reward k div 2"
  by (simp only: era_reward_def power_Suc2 div_mult2_eq)

lemma era_reward_zero: "era_reward k = 0 \<Longrightarrow> era_reward (k + j) = 0"
  by (induction j) (simp_all add: era_reward_Suc)

lemma issued_from_small: "n \<le> 210000 \<Longrightarrow> issued_from k n = n * era_reward k"
  by (simp add: issued_from_def)

lemma sum_lessThan_add: "(\<Sum>i<a + b. f i) = (\<Sum>i<a. f i) + (\<Sum>i<b. f (a + i) :: nat)" for a b :: nat
  by (induction b) simp_all

lemma issued_from_split:
  assumes "210000 \<le> n"
  shows "issued_from k n = 210000 * era_reward k + issued_from (Suc k) (n - 210000)"
proof -
  have "(\<Sum>i<210000 + (n - 210000). era_reward (k + i div 210000)) =
      (\<Sum>i<210000. era_reward (k + i div 210000)) +
      (\<Sum>i<n - 210000. era_reward (k + (210000 + i) div 210000))"
    by (rule sum_lessThan_add)
  moreover have "(210000 + i) div 210000 = Suc (i div 210000)" for i :: nat by simp
  ultimately show ?thesis using assms by (simp add: issued_from_def)
qed

lemma issued_from_step:
  "issued_from k n = min n 210000 * era_reward k + issued_from (Suc k) (n - min n 210000)"
  by (cases "n \<le> 210000") (simp_all add: issued_from_small issued_from_split min_def)

lemma issued_from_zero: "era_reward k = 0 \<Longrightarrow> issued_from k n = 0"
  by (simp add: issued_from_def era_reward_zero)

lemma issued_from_bound: "issued_from k n \<le> 420000 * era_reward k"
proof (induction n arbitrary: k rule: less_induct)
  case (less n)
  show ?case
  proof (cases "n \<le> 210000")
    case True
    then show ?thesis by (simp add: issued_from_small)
  next
    case False
    then have "issued_from (Suc k) (n - 210000) \<le> 420000 * era_reward (Suc k)"
      by (intro less.IH) simp
    moreover have "2 * era_reward (Suc k) \<le> era_reward k"
      by (simp add: era_reward_Suc)
    ultimately show ?thesis using False by (simp add: issued_from_split)
  qed
qed

lemma supply_loop_exact:
  assumes "unat reward = era_reward k"
    and "unat issued + issued_from k (unat remaining) < 2 ^ 64"
  shows "\<exists>w. supply_loop remaining reward issued = Some w \<and>
    unat w = unat issued + issued_from k (unat remaining)"
  using assms
proof (induction remaining reward issued arbitrary: k rule: supply_loop.induct)
  case (1 remaining reward issued)
  let ?b = "min remaining HALVING_INTERVAL"
  show ?case
  proof (cases "remaining \<noteq> 0 \<and> reward \<noteq> 0")
    case False
    then have "issued_from k (unat remaining) = 0"
      using "1.prems"(1) issued_from_zero [of k] by (auto simp: issued_from_def)
    moreover have "supply_loop remaining reward issued = Some issued"
      by (subst supply_loop.simps) (simp only: if_not_P [OF False])
    ultimately show ?thesis by simp
  next
    case True
    let ?rest = "remaining - ?b"
    have b: "unat ?b = min (unat remaining) 210000"
      by (simp add: min_def HALVING_INTERVAL_def word_le_nat_alt)
    have rest: "unat ?rest = unat remaining - unat ?b"
      by (simp add: unat_sub)
    have step: "issued_from k (unat remaining) =
        unat ?b * unat reward + issued_from (Suc k) (unat ?rest)"
      using issued_from_step [of k "unat remaining"] "1.prems"(1) b rest by simp
    have pos: "0 < reward" using True by (simp add: word_gt_0)
    have small: "unat ?b * unat reward < 2 ^ 64" using "1.prems"(2) step by simp
    have g1: "?b \<le> u64_max div reward" using checked_mult_iff [OF pos, of ?b] small by simp
    have era: "unat (?b * reward) = unat ?b * unat reward"
      using unat_checked_mult [OF pos g1] .
    have g2: "issued \<le> u64_max - ?b * reward"
      using checked_add_iff [of issued "?b * reward"] "1.prems"(2) step era by simp
    have acc: "unat (issued + ?b * reward) = unat issued + unat ?b * unat reward"
      using unat_checked_add [OF g2] era by simp
    have next_reward: "unat (drop_bit 1 reward) = era_reward (Suc k)"
      using "1.prems"(1) by (simp add: era_reward_Suc unat_div drop_bit_eq_div)
    have "\<exists>w. supply_loop ?rest (drop_bit 1 reward) (issued + ?b * reward) = Some w \<and>
        unat w = unat (issued + ?b * reward) + issued_from (Suc k) (unat ?rest)"
    proof (rule "1.IH" [OF True refl _ refl _ next_reward])
      show "\<not> u64_max div reward < ?b" using g1 by (simp only: not_less)
      show "\<not> u64_max - ?b * reward < issued" using g2 by (simp only: not_less)
      show "unat (issued + ?b * reward) + issued_from (Suc k) (unat ?rest) < 2 ^ 64"
        using "1.prems"(2) step acc by simp
    qed
    moreover have "supply_loop remaining reward issued =
        supply_loop ?rest (drop_bit 1 reward) (issued + ?b * reward)"
      by (subst supply_loop.simps)
        (simp only: if_P [OF True] Let_def if_not_P [OF g1 [folded not_less]] if_not_P [OF g2 [folded not_less]])
    ultimately show ?thesis unfolding step acc by (simp only: add.assoc)
  qed
qed

subsection \<open>The supply that scripts see\<close>

definition subsidies_through :: "nat \<Rightarrow> nat" where
  "subsidies_through h = (\<Sum>i<h. unat (calculateSubsidy (int (i + 1))))"

lemma subsidies_through_issued: "subsidies_through h = issued_from 0 h"
  by (simp add: subsidies_through_def issued_from_def subsidy_value nat_div_distrib)

lemma supply_bound: "subsidies_through h \<le> 21000000 * 100000000"
  using issued_from_bound [of 0 h] by (simp add: subsidies_through_issued era_reward_def)

text \<open>
  C20: the supply a script can read is the schedule. At any height the value is the little-endian
  encoding of the exact sum of the block subsidies of heights 1 to that height; the checked loop of
  the code never overflows, its answer never exceeds the cap of 21 million coins, and the block
  reward it reports is the subsidy of that height.
\<close>

theorem supply_is_sum_of_subsidies:
  "\<exists>w. chainStateDeterministic True h ''total_supply'' = le_bytes 8 (w :: u64) \<and>
       oracleFeedDeterministic True h ''chain:total_supply'' = le_bytes 8 w \<and>
       unat w = subsidies_through (unat h) \<and> unat w \<le> 21000000 * 100000000 \<and>
       chainStateDeterministic True h ''block_reward'' = le_bytes 8 (calculateSubsidy (sint h))"
proof -
  have h: "unat (ucast h :: u64) = unat h"
    using unsigned_less [where 'a = nat, of h]
    by (simp add: unsigned_ucast_eq take_bit_nat_eq_self)
  have "\<exists>w. supply_loop (ucast h) (50 * 100000000) 0 = Some w \<and>
      unat w = unat (0 :: u64) + issued_from 0 (unat (ucast h :: u64))"
    by (rule supply_loop_exact) (use supply_bound [of "unat h"] h in
        \<open>simp_all add: era_reward_def subsidies_through_issued\<close>)
  then obtain w where "supply_loop (ucast h) (50 * 100000000) 0 = Some w"
    "unat w = subsidies_through (unat h)"
    using h by (auto simp: subsidies_through_issued)
  then show ?thesis
    using supply_bound [of "unat h"]
    by (intro exI [of _ w]) (simp add: chainStateDeterministic_def oracleFeedDeterministic_def Let_def)
qed

end
