(* ===== verification/Wots.thy ===== *)
theory Wots
  imports Lock_Templates Transactions
begin

text \<open>
  The one-time signature of the quantum lock: WOTS+ over SHA-256 (\<open>src/src/wots_pq01.h\<close>), the
  canonical lock script (\<open>src/src/wots_script09.h\<close>), and the key and signature loops of the quantum
  wallet (\<open>src/src/quantum_wallet_v1.h\<close>). A \<open>Node\<close> is a list of 32 bytes; \<open>unsigned\<close> counters are
  natural numbers that stay far below their width. SHA-256 is the field of the \<open>crypto\<close> record.
\<close>

type_synonym node = bytes

definition CHAINS :: nat where "CHAINS = 67"
definition SIGNATURE_BYTES :: nat where "SIGNATURE_BYTES = 2144"

definition put_word :: "node \<Rightarrow> nat \<Rightarrow> nat \<Rightarrow> node" where
  "put_word a i v = take (4 * i) a @ rev (le_bytes 4 (word_of_nat v :: u32)) @ drop (4 * i + 4) a"

definition keyed :: "crypto \<Rightarrow> byte \<Rightarrow> node \<Rightarrow> bytes \<Rightarrow> node" where
  "keyed C tag key p = SHA256 C (replicate 31 0 @ [tag] @ key @ p)"

definition wots_prf :: "crypto \<Rightarrow> node \<Rightarrow> node \<Rightarrow> node" where
  "wots_prf C seed address = keyed C 3 seed address"

definition xor_node :: "bytes \<Rightarrow> bytes \<Rightarrow> bytes" where
  "xor_node x m = map2 (XOR) x m"

text \<open>One pass of the loop of \<open>chain\<close>, at position \<open>j\<close>.\<close>

definition chain_step :: "crypto \<Rightarrow> node \<Rightarrow> nat \<Rightarrow> node \<Rightarrow> nat \<Rightarrow> node" where
  "chain_step C x j seed index =
     (let a = put_word (put_word (replicate 32 0) 5 index) 6 j;
          k = wots_prf C seed (put_word a 7 0);
          m = wots_prf C seed (put_word a 7 1)
      in keyed C 0 k (xor_node x m))"

primrec chain :: "crypto \<Rightarrow> node \<Rightarrow> nat \<Rightarrow> nat \<Rightarrow> node \<Rightarrow> nat \<Rightarrow> node" where
  "chain C x start 0 seed index = x"
| "chain C x start (Suc steps) seed index =
     chain_step C (chain C x start steps seed index) (start + steps) seed index"

definition treeHash :: "crypto \<Rightarrow> node \<Rightarrow> node \<Rightarrow> node \<Rightarrow> nat \<Rightarrow> nat \<Rightarrow> node" where
  "treeHash C l r seed height index =
     (let a = put_word (put_word (put_word (replicate 32 0) 3 1) 5 height) 6 index;
          k = wots_prf C seed (put_word a 7 0);
          m0 = wots_prf C seed (put_word a 7 1);
          m1 = wots_prf C seed (put_word a 7 2)
      in keyed C 1 k (xor_node l m0 @ xor_node r m1))"

definition tree_layer :: "crypto \<Rightarrow> node list \<Rightarrow> node \<Rightarrow> nat \<Rightarrow> node list" where
  "tree_layer C p seed h =
     map (\<lambda>i. treeHash C (p ! (2 * i)) (p ! (2 * i + 1)) seed h i) [0..<length p div 2] @
     (if odd (length p) then [p ! (length p - 1)] else [])"

lemma length_tree_layer: "length (tree_layer C p seed h) = (length p + 1) div 2"
  by (simp add: tree_layer_def)

function tree_loop :: "crypto \<Rightarrow> node list \<Rightarrow> node \<Rightarrow> nat \<Rightarrow> node" where
  "tree_loop C p seed h =
     (if length p > 1 then tree_loop C (tree_layer C p seed h) seed (h + 1) else p ! 0)"
  by auto
termination
  by (relation "measure (\<lambda>(_, p, _, _). length p)") (auto simp: length_tree_layer)

declare tree_loop.simps [simp del]

definition root :: "crypto \<Rightarrow> node list \<Rightarrow> node \<Rightarrow> node" where
  "root C p seed = tree_loop C p seed 0"

definition message_digest :: "crypto \<Rightarrow> bytes \<Rightarrow> bytes" where
  "message_digest C sighash =
     SHA256 C (SHA256 C (bytes_of_string ''TRU-WOTS-V1|21e8|'' @ sighash))"

definition nibble_digits :: "bytes \<Rightarrow> nat list" where
  "nibble_digits msg = concat (map (\<lambda>b. [unat b div 16, unat b mod 16]) msg)"

definition checksum_digits :: "nat \<Rightarrow> nat list" where
  "checksum_digits n = [n div 256 mod 16, n div 16 mod 16, n mod 16]"

definition digits :: "crypto \<Rightarrow> bytes \<Rightarrow> nat list" where
  "digits C sighash =
     (let d = nibble_digits (message_digest C sighash)
      in d @ checksum_digits (\<Sum>x\<leftarrow>d. 15 - x))"

definition verify_wots :: "crypto \<Rightarrow> bytes \<Rightarrow> bytes \<Rightarrow> bytes \<Rightarrow> bytes \<Rightarrow> bytes \<Rightarrow> bool" where
  "verify_wots C sig ver seedBytes rootBytes sighash \<longleftrightarrow>
     (if ver \<noteq> [1] \<or> length sig \<noteq> SIGNATURE_BYTES \<or> length seedBytes \<noteq> 32 \<or>
         length rootBytes \<noteq> 32 \<or> length sighash \<noteq> 32
      then False
      else let d = digits C sighash;
               pk = map (\<lambda>i. chain C (slice (i * 32) 32 sig) (d ! i) (15 - d ! i) seedBytes i)
                        [0..<CHAINS]
           in root C pk seedBytes = rootBytes)"

definition canonicalScript :: "bytes \<Rightarrow> bool" where
  "canonicalScript s \<longleftrightarrow>
     (if length s \<noteq> 69 \<and> length s \<noteq> 104 then False
      else if s ! 0 \<noteq> 0x51 \<or> s ! 1 \<noteq> 32 \<or> s ! 34 \<noteq> 32 \<or> s ! 67 \<noteq> 0xbb \<or> last s \<noteq> 0x51 then False
      else if length s = 104 \<and> (s ! 68 \<noteq> 33 \<or> (s ! 69 \<noteq> 2 \<and> s ! 69 \<noteq> 3) \<or> s ! 102 \<noteq> 0xad)
      then False
      else True)"

text \<open>
  The wallet: \<open>sk i\<close> is the secret start of chain \<open>i\<close>. \<open>wallet_receive\<close> is the lock script of a fresh
  key and \<open>wallet_sign\<close> the signature loop; the wallet re-checks the signature before using it.
\<close>

definition wallet_root :: "crypto \<Rightarrow> (nat \<Rightarrow> node) \<Rightarrow> node \<Rightarrow> node" where
  "wallet_root C sk seed = root C (map (\<lambda>i. chain C (sk i) 0 15 seed i) [0..<CHAINS]) seed"

definition wallet_receive :: "crypto \<Rightarrow> (nat \<Rightarrow> node) \<Rightarrow> node \<Rightarrow> bytes" where
  "wallet_receive C sk seed =
     [0x51, 32] @ seed @ [32] @ wallet_root C sk seed @ [0xbb, 0x51]"

definition wallet_sign :: "crypto \<Rightarrow> (nat \<Rightarrow> node) \<Rightarrow> node \<Rightarrow> bytes \<Rightarrow> bytes" where
  "wallet_sign C sk seed digest =
     (let d = digits C digest
      in concat (map (\<lambda>i. chain C (sk i) 0 (d ! i) seed i) [0..<CHAINS]))"

subsection \<open>Digits\<close>

lemma byte_halves: "(b :: nat) < 256 \<Longrightarrow> b div 16 \<le> 15" "(b :: nat) mod 16 \<le> 15"
  using less_mult_imp_div_less [of b 16 16] mod_less_divisor [of 16 b] by simp_all

lemma base16: "(x :: nat) = 256 * (x div 256) + 16 * (x div 16 mod 16) + x mod 16"
proof -
  have e: "x = 16 * q + r \<Longrightarrow> q = 16 * p + s \<Longrightarrow> x = 256 * p + 16 * s + r" for p q r s :: nat
    by simp
  have "x = 256 * (x div 16 div 16) + 16 * (x div 16 mod 16) + x mod 16"
    by (rule e [where q = "x div 16"]) (simp_all only: mult_div_mod_eq)
  then show ?thesis by (simp only: div_mult2_eq [symmetric]) simp
qed

lemma length_nibble_digits: "length (nibble_digits msg) = 2 * length msg"
  by (induction msg) (simp_all add: nibble_digits_def)

lemma nibble_digits_le: "x \<in> set (nibble_digits msg) \<Longrightarrow> x \<le> 15"
proof -
  assume "x \<in> set (nibble_digits msg)"
  then obtain b :: byte where "x = unat b div 16 \<or> x = unat b mod 16"
    by (auto simp: nibble_digits_def)
  moreover have "unat b < 256" using unsigned_less [where 'a = nat, of b] by simp
  ultimately show "x \<le> 15" using byte_halves by blast
qed

lemma checksum_digits_le: "x \<in> set (checksum_digits n) \<Longrightarrow> x \<le> 15"
  by (auto simp: checksum_digits_def)

lemma digits_le: "x \<in> set (digits C s) \<Longrightarrow> x \<le> 15"
  by (auto simp: digits_def Let_def nibble_digits_le checksum_digits_le)

lemma nibble_digits_inject:
  "length m = length m' \<Longrightarrow> nibble_digits m = nibble_digits m' \<Longrightarrow> m = m'"
proof (induction m m' rule: list_induct2)
  case (Cons x xs y ys)
  then have "unat x div 16 = unat y div 16" "unat x mod 16 = unat y mod 16"
    "nibble_digits xs = nibble_digits ys"
    by (simp_all add: nibble_digits_def)
  then have "unat x = unat y" by (metis div_mod_decomp)
  then have "x = y" by (simp only: word_unat_eq_iff)
  then show ?case using Cons by (simp add: nibble_digits_def)
qed simp

text \<open>The checksum forbids dominating every digit.\<close>

lemma sum_list_dominated:
  assumes "length a = length b" "\<And>i. i < length a \<Longrightarrow> b ! i \<le> a ! i" "\<And>x. x \<in> set a \<Longrightarrow> x \<le> 15" "a \<noteq> b"
  shows "(\<Sum>x\<leftarrow>a. 15 - x) < (\<Sum>x\<leftarrow>b. 15 - (x :: nat))"
  using assms
proof (induction a b rule: list_induct2)
  case (Cons x xs y ys)
  have le: "y \<le> x" "x \<le> 15" using Cons.prems(1) [of 0] Cons.prems(2) by auto
  have tl: "\<And>i. i < length xs \<Longrightarrow> ys ! i \<le> xs ! i" using Cons.prems(1) [of "Suc i" for i] by simp
  show ?case
  proof (cases "xs = ys")
    case True
    then have "y < x" using le Cons.prems(3) by simp
    then show ?thesis using le True by simp
  next
    case False
    then have "(\<Sum>x\<leftarrow>xs. 15 - x) < (\<Sum>x\<leftarrow>ys. 15 - x)"
      using Cons tl by simp
    then show ?thesis using le by simp
  qed
qed simp

lemma checksum_digits_less:
  assumes "m < n" "n < 4096"
  shows "\<exists>i < 3. checksum_digits m ! i < checksum_digits n ! i"
proof (rule ccontr)
  assume "\<not> ?thesis"
  then have "n div 256 mod 16 \<le> m div 256 mod 16" "n div 16 mod 16 \<le> m div 16 mod 16"
    "n mod 16 \<le> m mod 16"
    by (auto simp: checksum_digits_def not_less dest: spec [of _ 0] spec [of _ 1] spec [of _ 2])
  moreover have "m div 256 mod 16 = m div 256" "n div 256 mod 16 = n div 256"
    using assms less_mult_imp_div_less [of _ 16 256] by (simp_all add: mod_less)
  ultimately have "n div 256 \<le> m div 256" "n div 16 mod 16 \<le> m div 16 mod 16" "n mod 16 \<le> m mod 16"
    by simp_all
  moreover note base16 [of m] base16 [of n]
  ultimately have "n \<le> m"
    by (metis add_mono mult_le_mono2)
  then show False using assms by simp
qed

lemma length_message_digest:
  "(\<And>x. length (SHA256 C x) = 32) \<Longrightarrow> length (message_digest C s) = 32"
  by (simp add: message_digest_def)

lemma length_digits: "length (message_digest C s) = 32 \<Longrightarrow> length (digits C s) = 67"
  by (simp add: digits_def Let_def length_nibble_digits checksum_digits_def)

lemma digit_le: "length (message_digest C s) = 32 \<Longrightarrow> i < 67 \<Longrightarrow> digits C s ! i \<le> 15"
  by (rule digits_le [of _ C s]) (simp add: length_digits)

lemma checksum_bound: "(\<Sum>x\<leftarrow>d. 15 - x) \<le> 15 * length d"
  by (induction d) simp_all

lemma digits_incomparable:
  assumes "\<And>x. length (SHA256 C x) = 32" "message_digest C a \<noteq> message_digest C b"
  shows "\<exists>i < 67. digits C a ! i < digits C b ! i"
proof -
  define p where "p = nibble_digits (message_digest C a)"
  define q where "q = nibble_digits (message_digest C b)"
  note [simp] = length_message_digest [of C, OF assms(1)]
  have len: "length p = 64" "length q = 64"
    by (simp_all add: p_def q_def length_nibble_digits)
  have a: "digits C a = p @ checksum_digits (\<Sum>x\<leftarrow>p. 15 - x)"
    and b: "digits C b = q @ checksum_digits (\<Sum>x\<leftarrow>q. 15 - x)"
    by (simp_all add: digits_def Let_def p_def q_def)
  have "p \<noteq> q"
    using assms(2) nibble_digits_inject [of "message_digest C a" "message_digest C b"]
    by (auto simp: p_def q_def)
  show ?thesis
  proof (cases "\<exists>i < 64. p ! i < q ! i")
    case True
    then obtain i where "i < 64" "p ! i < q ! i" by blast
    then show ?thesis using len by (intro exI [of _ i]) (simp add: a b nth_append)
  next
    case False
    have "(\<Sum>x\<leftarrow>p. 15 - x) < (\<Sum>x\<leftarrow>q. 15 - x)"
    proof (rule sum_list_dominated)
      show "q ! i \<le> p ! i" if "i < length p" for i
        using that False len(1) not_less by metis
    qed (use len \<open>p \<noteq> q\<close> nibble_digits_le in \<open>auto simp: p_def\<close>)
    moreover have "(\<Sum>x\<leftarrow>q. 15 - x) < 4096" using checksum_bound [of q] len by simp
    ultimately obtain i where "i < 3"
      "checksum_digits (\<Sum>x\<leftarrow>p. 15 - x) ! i < checksum_digits (\<Sum>x\<leftarrow>q. 15 - x) ! i"
      using checksum_digits_less by blast
    then show ?thesis using len by (intro exI [of _ "64 + i"]) (simp add: a b nth_append)
  qed
qed

text \<open>
  A quantum signature covers one message. For two sighashes with different message digests,
  each digit vector exceeds the other somewhere, so the chain values released by one signature are
  past the start of some chain that the other message needs: hashing forward, which is all an
  observer can do, never turns a signature of one message into a signature of another.
\<close>

theorem wots_messages_incomparable:
  assumes "\<And>x. length (SHA256 C x) = 32" "message_digest C a \<noteq> message_digest C b"
  shows "(\<exists>i < CHAINS. digits C a ! i < digits C b ! i) \<and>
         (\<exists>i < CHAINS. digits C b ! i < digits C a ! i)"
  using digits_incomparable [OF assms(1)] assms(2) by (simp add: CHAINS_def)

theorem wots_messages_incomparable_witness:
  "\<exists>i < CHAINS. digits toy_crypto (replicate 32 1) ! i < digits toy_crypto (replicate 32 2) ! i"
proof -
  have len: "\<And>x. length (SHA256 toy_crypto x) = 32" by (simp add: toy_crypto_def)
  have ne: "message_digest toy_crypto (replicate 32 1) \<noteq> message_digest toy_crypto (replicate 32 2)"
    by code_simp
  show ?thesis using wots_messages_incomparable [OF len ne] by blast
qed

subsection \<open>Signing and checking agree\<close>

lemma chain_add: "chain C (chain C x s a seed i) (s + a) b seed i = chain C x s (a + b) seed i"
  by (induction b) (simp_all add: add.assoc)

lemma length_chain:
  assumes "\<And>x. length (SHA256 C x) = 32" "length x = 32"
  shows "length (chain C x s n seed i) = 32"
  using assms by (cases n) (simp_all add: chain_step_def Let_def keyed_def)

lemma length_tree_loop:
  assumes "\<And>x. length (SHA256 C x) = 32"
    and "p \<noteq> []" "\<forall>x\<in>set p. length x = 32"
  shows "length (tree_loop C p seed h) = 32"
  using assms
proof (induction C p seed h rule: tree_loop.induct)
  case (1 C p seed h)
  show ?case
  proof (cases "length p > 1")
    case True
    have "tree_layer C p seed h \<noteq> []"
      using True length_tree_layer [of C p seed h] by auto
    moreover have "\<forall>x\<in>set (tree_layer C p seed h). length x = 32"
      using True "1.prems" by (auto simp: tree_layer_def treeHash_def Let_def keyed_def split: if_splits)
    ultimately show ?thesis using "1.IH" True "1.prems" by (subst tree_loop.simps) simp
  next
    case False
    then show ?thesis using "1.prems" by (subst tree_loop.simps) (auto simp: neq_Nil_conv)
  qed
qed

lemma slice_concat:
  "(\<forall>x\<in>set xs. length x = n) \<Longrightarrow> i < length xs \<Longrightarrow> slice (i * n) n (concat xs) = xs ! i"
proof (induction xs arbitrary: i)
  case (Cons x xs)
  then show ?case by (cases i) (simp_all add: slice_def)
qed simp

lemma length_wallet_root:
  assumes "\<And>x. length (SHA256 C x) = 32" "\<And>i. i < CHAINS \<Longrightarrow> length (sk i) = 32"
  shows "length (wallet_root C sk seed) = 32"
  unfolding wallet_root_def root_def
  by (rule length_tree_loop) (use assms in \<open>auto simp: CHAINS_def length_chain\<close>)

lemma wallet_sign_segment:
  assumes "\<And>x. length (SHA256 C x) = 32" "\<And>i. i < CHAINS \<Longrightarrow> length (sk i) = 32" "i < CHAINS"
  shows "slice (i * 32) 32 (wallet_sign C sk seed digest) = chain C (sk i) 0 (digits C digest ! i) seed i"
proof -
  have "slice (i * 32) 32 (concat (map (\<lambda>i. chain C (sk i) 0 (digits C digest ! i) seed i) [0..<CHAINS]))
      = map (\<lambda>i. chain C (sk i) 0 (digits C digest ! i) seed i) [0..<CHAINS] ! i"
    by (rule slice_concat) (use assms in \<open>auto simp: length_chain\<close>)
  then show ?thesis using assms(3) by (simp add: wallet_sign_def Let_def)
qed

lemma length_wallet_sign:
  assumes "\<And>x. length (SHA256 C x) = 32" "\<And>i. i < CHAINS \<Longrightarrow> length (sk i) = 32"
  shows "length (wallet_sign C sk seed digest) = SIGNATURE_BYTES"
proof -
  have "map length (map (\<lambda>i. chain C (sk i) 0 (digits C digest ! i) seed i) [0..<CHAINS]) =
      replicate CHAINS 32"
    by (rule nth_equalityI) (use assms in \<open>simp_all add: length_chain\<close>)
  then show ?thesis
    by (simp add: wallet_sign_def Let_def length_concat sum_list_replicate SIGNATURE_BYTES_def CHAINS_def)
qed

lemma wallet_verifies:
  assumes "\<And>x. length (SHA256 C x) = 32" "\<And>i. i < CHAINS \<Longrightarrow> length (sk i) = 32"
    and "length seed = 32" "length digest = 32"
  shows "canonicalScript (wallet_receive C sk seed) \<and>
    verify_wots C (wallet_sign C sk seed digest) [1] (slice 2 32 (wallet_receive C sk seed))
      (slice 35 32 (wallet_receive C sk seed)) digest"
proof -
  have r: "length (wallet_root C sk seed) = 32" by (rule length_wallet_root [OF assms(1,2)])
  have s1: "slice 2 32 (wallet_receive C sk seed) = seed"
    and s2: "slice 35 32 (wallet_receive C sk seed) = wallet_root C sk seed"
    using assms(3) r by (simp_all add: slice_def wallet_receive_def)
  have m: "map (\<lambda>i. chain C (slice (i * 32) 32 (wallet_sign C sk seed digest)) (digits C digest ! i)
        (15 - digits C digest ! i) seed i) [0..<CHAINS] =
      map (\<lambda>i. chain C (sk i) 0 15 seed i) [0..<CHAINS]"
  proof (rule map_cong [OF refl])
    fix i assume "i \<in> set [0..<CHAINS]"
    then have i: "i < CHAINS" by simp
    then have d: "digits C digest ! i \<le> 15"
      using digit_le length_message_digest assms(1) by (simp add: CHAINS_def)
    show "chain C (slice (i * 32) 32 (wallet_sign C sk seed digest)) (digits C digest ! i)
        (15 - digits C digest ! i) seed i = chain C (sk i) 0 15 seed i"
      using chain_add [of C "sk i" 0 "digits C digest ! i" seed i "15 - digits C digest ! i"] d
      by (simp add: wallet_sign_segment [OF assms(1,2) i])
  qed
  have len: "length (wallet_sign C sk seed digest) = SIGNATURE_BYTES"
    by (rule length_wallet_sign [OF assms(1,2)])
  have "verify_wots C (wallet_sign C sk seed digest) [1] seed (wallet_root C sk seed) digest"
    unfolding verify_wots_def Let_def m using len assms(3,4) r by (simp add: wallet_root_def)
  moreover have "canonicalScript (wallet_receive C sk seed)"
    using assms(3) r by (simp add: canonicalScript_def wallet_receive_def nth_append)
  ultimately show ?thesis by (simp add: s1 s2)
qed

text \<open>
  The wallet's signatures are accepted. For 32-byte chain starts, seed and sighash, the lock
  script the wallet publishes is canonical, and the signature it makes passes the check of the
  consensus code against the seed and the root in that script.
\<close>

theorem wallet_signature_verifies:
  assumes "\<And>x. length (SHA256 C x) = 32" "\<And>i. i < CHAINS \<Longrightarrow> length (sk i) = 32"
    and "length seed = 32" "length digest = 32"
  shows "canonicalScript (wallet_receive C sk seed) \<and>
    verify_wots C (wallet_sign C sk seed digest) [1] (slice 2 32 (wallet_receive C sk seed))
      (slice 35 32 (wallet_receive C sk seed)) digest"
  by (rule wallet_verifies [OF assms])

theorem wallet_signature_verifies_witness:
  "canonicalScript (wallet_receive toy_crypto (\<lambda>_. replicate 32 7) (replicate 32 1))"
  using wallet_signature_verifies [of toy_crypto "\<lambda>_. replicate 32 7" "replicate 32 1" "replicate 32 2"]
  by (simp add: toy_crypto_def)

end
