(* ===== verification/Market.thy ===== *)
theory Market
  imports Consensus09 Lock_Templates Transactions "HOL-Library.AList"
begin

text \<open>
  The native market of \<open>src/src/market_lock09.h\<close>: token outputs, market terms and their lock script,
  unlock scripts, settlement layouts, and the validation of a whole transaction. Fields of type
  \<open>unsigned\<close> that hold a byte are natural numbers, money and quantities are 64-bit words. Functions
  with an out parameter return an option; \<open>validate\<close> returns the failure reason or the
  \<open>hasMarket\<close> flag. The two callbacks of \<open>validate\<close>, the confirmed parent of an input and the
  knowledge of issued token ids, are its arguments.
\<close>

definition unhex :: "string \<Rightarrow> bytes option" where [simp]: "unhex s = hex_decode s"
definition hex :: "bytes \<Rightarrow> string" where [simp]: "hex b = hex_encode b"

definition le :: "bytes \<Rightarrow> nat \<Rightarrow> nat \<Rightarrow> u64" where "le b p n = le_val (slice p n b)"
definition put :: "u64 \<Rightarrow> nat \<Rightarrow> bytes" where "put v n = le_bytes n v"

definition add :: "u64 \<Rightarrow> u64 \<Rightarrow> u64 option" where
  "add s n = (if n > u64_max - s then None else Some (s + n))"

definition pay :: "string \<Rightarrow> string" where "pay own = ''76a914'' @ own @ ''88ac''"

text \<open>Big-endian numbers of eight bytes.\<close>

definition be_val :: "bytes \<Rightarrow> u64" where "be_val b = le_val (rev b)"
definition be_bytes :: "u64 \<Rightarrow> bytes" where "be_bytes v = rev (le_bytes 8 v)"

record Asset =
  ty :: nat
  aid :: string
  meta :: string

record Token =
  asset :: Asset
  owner :: string
  tk_amount :: u64

record Terms =
  offered :: Asset
  wanted :: Asset
  seller :: string
  quantity :: u64
  price :: u64
  lot :: u64
  expiry :: u32

definition token_bytes_shape :: "bytes \<Rightarrow> bool" where
  "token_bytes_shape b \<longleftrightarrow>
     (length b = 70 \<or> length b = 66) \<and> b ! 0 = 0x6a \<and> 1 \<le> b ! 1 \<and> b ! 1 \<le> 4"

definition tokenShape :: "string \<Rightarrow> bool" where
  "tokenShape s = (case unhex s of None \<Rightarrow> False | Some b \<Rightarrow> token_bytes_shape b)"

definition token :: "string \<Rightarrow> Token option" where
  "token s =
     (case unhex s of
        None \<Rightarrow> None
      | Some b \<Rightarrow>
          if \<not> token_bytes_shape b then None
          else
            let n = (if length b = 70 then 8 else 4);
                t = unat (b ! 1);
                amt = be_val (slice (2 + n) 8 b)
            in if amt = 0 \<or> ((t = 2 \<or> t = 4) \<and> amt \<noteq> 1) then None
               else Some \<lparr>asset = \<lparr>ty = t, aid = hex (slice 2 n b), meta = hex (drop (30 + n) b)\<rparr>,
                          owner = hex (slice (10 + n) 20 b), tk_amount = amt\<rparr>)"

definition data :: "Token \<Rightarrow> string" where
  "data t =
     (case unhex (aid (asset t)) of
        None \<Rightarrow> ''''
      | Some i \<Rightarrow>
          if length i \<noteq> 4 \<and> length i \<noteq> 8 then ''''
          else case unhex (owner t) of
            None \<Rightarrow> ''''
          | Some own \<Rightarrow>
              if length own \<noteq> 20 then ''''
              else case unhex (meta (asset t)) of
                None \<Rightarrow> ''''
              | Some m \<Rightarrow>
                  if length m \<noteq> 32 then ''''
                  else hex ([0x6a, word_of_nat (ty (asset t))] @ i @ be_bytes (tk_amount t) @ own @ m))"

definition valid :: "Terms \<Rightarrow> bool" where
  "valid t \<longleftrightarrow>
     (if ty (offered t) < 1 \<or> ty (offered t) > 4 \<or> length (aid (offered t)) \<noteq> 16 \<or>
         unhex (aid (offered t)) = None \<or> length (meta (offered t)) \<noteq> 64 \<or>
         unhex (meta (offered t)) = None \<or> length (seller t) \<noteq> 40 \<or> unhex (seller t) = None \<or>
         quantity t = 0 \<or> price t = 0 \<or> lot t = 0 \<or> quantity t mod lot t \<noteq> 0 \<or> expiry t = 0
      then False
      else if (ty (offered t) = 2 \<or> ty (offered t) = 4) \<and> (quantity t \<noteq> 1 \<or> lot t \<noteq> 1) then False
      else if ty (wanted t) = 0 \<and>
              (aid (wanted t) \<noteq> replicate 16 (CHR ''0'') \<or> meta (wanted t) \<noteq> replicate 64 (CHR ''0''))
      then False
      else if ty (wanted t) \<noteq> 0 \<and>
              (ty (wanted t) > 4 \<or> aid (wanted t) = aid (offered t) \<or> length (aid (wanted t)) \<noteq> 16 \<or>
               unhex (aid (wanted t)) = None \<or> length (meta (wanted t)) \<noteq> 64 \<or>
               unhex (meta (wanted t)) = None)
      then False
      else if quantity t div lot t > u64_max div price t then False
      else if ty (wanted t) = 0 \<and> quantity t div lot t * price t > 21000000 * 100000000 then False
      else if (ty (wanted t) = 2 \<or> ty (wanted t) = 4) \<and> quantity t div lot t * price t \<noteq> 1 then False
      else True)"

definition market_tag :: bytes where
  "market_tag = bytes_of_string ''TRUMKT1'' @ [0, 1]"

text \<open>The writer appends nothing for a field that is not hex, as \<open>unhex\<close> clears its output there.\<close>

definition unhex_prefix :: "string \<Rightarrow> bytes" where
  "unhex_prefix s = (case unhex s of Some b \<Rightarrow> b | None \<Rightarrow> [])"

definition encode :: "Terms \<Rightarrow> bytes" where
  "encode t =
     market_tag @ [word_of_nat (ty (offered t))] @ unhex_prefix (aid (offered t)) @
     unhex_prefix (meta (offered t)) @ unhex_prefix (seller t) @ put (quantity t) 8 @
     [word_of_nat (ty (wanted t))] @ unhex_prefix (aid (wanted t)) @
     unhex_prefix (meta (wanted t)) @ put (price t) 8 @ put (lot t) 8 @
     put (ucast (expiry t)) 4"

definition decode :: "bytes \<Rightarrow> Terms option" where
  "decode b =
     (if length b \<noteq> 139 \<or> take 9 b \<noteq> market_tag then None
      else
        let r = \<lparr>offered = \<lparr>ty = unat (b ! 9), aid = hex (slice 10 8 b), meta = hex (slice 18 32 b)\<rparr>,
                 wanted = \<lparr>ty = unat (b ! 78), aid = hex (slice 79 8 b), meta = hex (slice 87 32 b)\<rparr>,
                 seller = hex (slice 50 20 b), quantity = le b 70 8, price = le b 119 8,
                 lot = le b 127 8, expiry = ucast (le b 135 4)\<rparr>
        in if valid r then Some r else None)"

definition script :: "Terms \<Rightarrow> string" where
  "script t =
     (if \<not> valid t then ''''
      else let b = encode t in hex ([0x4c, word_of_nat (length b)] @ b @ [0xbc, 0x51]))"

definition parseLock :: "string \<Rightarrow> Terms option" where
  "parseLock s =
     (case unhex s of
        None \<Rightarrow> None
      | Some b \<Rightarrow>
          if length b \<noteq> 143 \<or> b ! 0 \<noteq> 0x4c \<or> b ! 1 \<noteq> 139 \<or> b ! 141 \<noteq> 0xbc \<or> b ! 142 \<noteq> 0x51
          then None else decode (slice 2 139 b))"

subsection \<open>Unlocking scripts\<close>

function push_list :: "bytes \<Rightarrow> bytes list option" where
  "push_list s =
     (case s of
        [] \<Rightarrow> Some []
      | b # r \<Rightarrow>
          let n = unat b in
          if n < 1 \<or> n > 75 \<or> n > length r then None
          else map_option ((#) (take n r)) (push_list (drop n r)))"
  by pat_completeness auto
termination by (relation "measure length") auto

declare push_list.simps [simp del]

definition pushes :: "bytes \<Rightarrow> bytes list option" where
  "pushes s = (case push_list s of Some p \<Rightarrow> if length p = 3 then Some p else None | None \<Rightarrow> None)"

record Spend =
  mode :: nat
  sp_quantity :: u64
  buyer :: string
  signature :: bytes
  sp_pubkey :: bytes

definition spend :: "bytes \<Rightarrow> Spend option" where
  "spend b =
     (case pushes b of
        None \<Rightarrow> None
      | Some p \<Rightarrow>
          if length (p ! 0) \<noteq> 1 then None
          else let m = unat (p ! 0 ! 0) in
            if m = 1 then
              (if length (p ! 1) \<noteq> 8 \<or> length (p ! 2) \<noteq> 20 then None
               else Some \<lparr>mode = m, sp_quantity = le (p ! 1) 0 8, buyer = hex (p ! 2),
                          signature = [], sp_pubkey = []\<rparr>)
            else if m = 2 then
              (if length (p ! 1) < 9 \<or> length (p ! 1) > 73 \<or> length (p ! 2) \<noteq> 33 \<or>
                  (p ! 2 ! 0 \<noteq> 2 \<and> p ! 2 ! 0 \<noteq> 3) then None
               else Some \<lparr>mode = m, sp_quantity = 0, buyer = '''',
                          signature = p ! 1, sp_pubkey = p ! 2\<rparr>)
            else None)"

subsection \<open>Token and control pairs\<close>

definition branch :: "'j Transaction \<Rightarrow> nat \<Rightarrow> Token option" where
  "branch tx n =
     (if n = 0 \<or> n \<ge> length (vout tx) \<or> amount (vout tx ! (n - 1)) \<noteq> 0 then None
      else case token (scriptPubKey (vout tx ! (n - 1))) of
        None \<Rightarrow> None
      | Some t \<Rightarrow>
          if scriptPubKey (vout tx ! n) = pay (owner t) \<and> amount (vout tx ! n) > 0 then Some t
          else case parseLock (scriptPubKey (vout tx ! n)) of
            None \<Rightarrow> None
          | Some terms \<Rightarrow>
              if amount (vout tx ! n) \<noteq> 1 \<or> asset t \<noteq> offered terms \<or> owner t \<noteq> seller terms \<or>
                 tk_amount t \<noteq> quantity terms
              then None else Some t)"

definition pair :: "'j Transaction \<Rightarrow> nat \<Rightarrow> Token \<Rightarrow> string \<Rightarrow> bool" where
  "pair tx n expected control \<longleftrightarrow>
     (if n + 1 \<ge> length (vout tx) then False
      else case branch tx (n + 1) of
        None \<Rightarrow> False
      | Some t \<Rightarrow>
          if asset t \<noteq> asset expected \<or> tk_amount t \<noteq> tk_amount expected \<or> owner t \<noteq> owner expected
          then False
          else amount (vout tx ! (n + 1)) = 1 \<and>
               scriptPubKey (vout tx ! (n + 1)) =
                 (if control = '''' then pay (owner expected) else control))"

function change_ok :: "'j Transaction \<Rightarrow> Terms \<Rightarrow> Spend \<Rightarrow> string \<Rightarrow> nat \<Rightarrow> bool" where
  "change_ok tx t s own n =
     (if n \<ge> length (vout tx) then True
      else if scriptPubKey (vout tx ! n) = pay own then change_ok tx t s own (n + 1)
      else if mode s \<noteq> 1 \<or> ty (wanted t) = 0 \<or> n + 1 \<ge> length (vout tx) then False
      else case branch tx (n + 1) of
        None \<Rightarrow> False
      | Some c \<Rightarrow>
          if asset c \<noteq> wanted t \<or> owner c \<noteq> own \<or> scriptPubKey (vout tx ! (n + 1)) \<noteq> pay own
          then False else change_ok tx t s own (n + 2))"
  by auto
termination by (relation "measure (\<lambda>(tx, t, s, own, n). length (vout tx) - n)") auto

declare change_ok.simps [simp del]

definition fill_layout :: "'j Transaction \<Rightarrow> Terms \<Rightarrow> Spend \<Rightarrow> u32 \<Rightarrow> nat option" where
  "fill_layout tx t s h =
     (if h \<ge> expiry t \<or> sp_quantity s = 0 \<or> sp_quantity s > quantity t \<or>
         sp_quantity s mod lot t \<noteq> 0 then None
      else if \<not> pair tx 0 \<lparr>asset = offered t, owner = buyer s, tk_amount = sp_quantity s\<rparr> '''' then None
      else
        let due = sp_quantity s div lot t * price t;
            paid = (if ty (wanted t) = 0
                    then (if length (vout tx) < 3 \<or> amount (vout tx ! 2) \<noteq> due \<or>
                             scriptPubKey (vout tx ! 2) \<noteq> pay (seller t) then None else Some 3)
                    else (if \<not> pair tx 2 \<lparr>asset = wanted t, owner = seller t, tk_amount = due\<rparr> ''''
                          then None else Some (4 :: nat)))
        in case paid of
          None \<Rightarrow> None
        | Some end1 \<Rightarrow>
            if sp_quantity s < quantity t then
              let rest = t\<lparr>quantity := quantity t - sp_quantity s\<rparr> in
              if \<not> pair tx end1 \<lparr>asset = offered t, owner = seller t, tk_amount = quantity rest\<rparr>
                       (script rest)
              then None else Some (end1 + 2)
            else Some end1)"

definition outputs :: "'j Transaction \<Rightarrow> Terms \<Rightarrow> Spend \<Rightarrow> u32 \<Rightarrow> nat option" where
  "outputs tx t s h =
     (case (if mode s = 2 then
              (if h < expiry t \<or>
                  \<not> pair tx 0 \<lparr>asset = offered t, owner = seller t, tk_amount = quantity t\<rparr> ''''
               then None else Some 2)
            else fill_layout tx t s h) of
        None \<Rightarrow> None
      | Some end1 \<Rightarrow>
          if change_ok tx t s (if mode s = 1 then buyer s else seller t) end1 then Some end1
          else None)"

subsection \<open>Validation of a transaction\<close>

definition lower_script :: "TxOut \<Rightarrow> TxOut option" where
  "lower_script u =
     (case unhex (scriptPubKey u) of None \<Rightarrow> None | Some b \<Rightarrow> Some (u\<lparr>scriptPubKey := hex b\<rparr>))"

text \<open>The spent output of the parent and the one before it get their canonical spelling.\<close>

definition normalise_parent :: "'j Transaction \<Rightarrow> nat \<Rightarrow> 'j Transaction option" where
  "normalise_parent p n =
     (case (if n = 0 then Some (vout p)
            else case lower_script (vout p ! (n - 1)) of
              None \<Rightarrow> None | Some u \<Rightarrow> Some ((vout p)[n - 1 := u])) of
        None \<Rightarrow> None
      | Some us \<Rightarrow>
          (case lower_script (us ! n) of
             None \<Rightarrow> None | Some u \<Rightarrow> Some (p\<lparr>vout := us[n := u]\<rparr>)))"

definition tally :: "(string \<times> u64) list \<Rightarrow> string \<Rightarrow> u64 \<Rightarrow> (string \<times> u64) list option" where
  "tally m k n =
     (case add (case map_of m k of None \<Rightarrow> 0 | Some s \<Rightarrow> s) n of
        None \<Rightarrow> None | Some s \<Rightarrow> Some (AList.update k s m))"

definition type_clash :: "(string \<times> nat) list \<Rightarrow> string \<Rightarrow> nat \<Rightarrow> bool" where
  "type_clash types k t \<longleftrightarrow> (case map_of types k of None \<Rightarrow> False | Some t' \<Rightarrow> t' \<noteq> t)"

record market_in =
  ins :: "(string \<times> u64) list"
  types :: "(string \<times> nat) list"
  inputTokens :: "Token option list"
  inputScripts :: "string list"
  lockIn :: "(Terms \<times> Spend) option"

definition count_input :: "Token option \<Rightarrow> market_in \<Rightarrow> string + market_in" where
  "count_input b st =
     (case b of
        None \<Rightarrow> Inr st
      | Some t \<Rightarrow>
          (case tally (ins st) (aid (asset t)) (tk_amount t) of
             None \<Rightarrow> Inl ''token input overflow''
           | Some ins' \<Rightarrow>
               if type_clash (types st) (aid (asset t)) (ty (asset t)) then Inl ''mixed input types''
               else Inr (st\<lparr>ins := ins',
                            types := AList.update (aid (asset t)) (ty (asset t)) (types st)\<rparr>)))"

definition input_step ::
    "(nat \<Rightarrow> 'j Transaction option) \<Rightarrow> nat \<Rightarrow> TxIn \<Rightarrow> market_in \<Rightarrow> string + market_in" where
  "input_step read i inp st =
     (case read i of
        None \<Rightarrow> Inl ''missing confirmed parent''
      | Some p \<Rightarrow>
          let n = unat (prev_vout inp) in
          if sint (prev_vout inp) < 0 \<or> n \<ge> length (vout p) then Inl ''missing confirmed parent''
          else case normalise_parent p n of
            None \<Rightarrow> Inl ''malformed parent script''
          | Some p' \<Rightarrow>
              let spk = scriptPubKey (vout p' ! n); b = branch p' n in
              (case count_input b (st\<lparr>inputScripts := inputScripts st @ [spk],
                                      inputTokens := inputTokens st @ [b]\<rparr>) of
                 Inl e \<Rightarrow> Inl e
               | Inr st' \<Rightarrow>
                   (case parseLock spk of
                      None \<Rightarrow> Inr st'
                    | Some terms \<Rightarrow>
                        if i \<noteq> 0 \<or> b = None \<or> lockIn st' \<noteq> None
                        then Inl ''market input must be unique input zero''
                        else case spend (scriptSig inp) of
                          None \<Rightarrow> Inl ''noncanonical market unlock''
                        | Some action \<Rightarrow> Inr (st'\<lparr>lockIn := Some (terms, action)\<rparr>))))"

fun input_loop ::
    "(nat \<Rightarrow> 'j Transaction option) \<Rightarrow> nat \<Rightarrow> TxIn list \<Rightarrow> market_in \<Rightarrow> string + market_in" where
  "input_loop read i [] st = Inr st"
| "input_loop read i (inp # rest) st =
     (case input_step read i inp st of
        Inl e \<Rightarrow> Inl e | Inr st' \<Rightarrow> input_loop read (i + 1) rest st')"

record market_out =
  outs :: "(string \<times> u64) list"
  out_types :: "(string \<times> nat) list"
  locksOut :: nat

definition lock_output :: "'j Transaction \<Rightarrow> u32 \<Rightarrow> bool \<Rightarrow> nat \<Rightarrow> market_out \<Rightarrow> string + market_out" where
  "lock_output tx h locksIn n st =
     (case parseLock (scriptPubKey (vout tx ! n)) of
        None \<Rightarrow> Inr st
      | Some t \<Rightarrow>
          if n = 0 \<or> branch tx n = None \<or> locksOut st + 1 \<noteq> 1
          then Inl ''unpaired or duplicate market output''
          else if \<not> locksIn \<and> expiry t \<le> h then Inl ''expired new lock''
          else Inr (st\<lparr>locksOut := locksOut st + 1\<rparr>))"

definition output_step ::
    "'j Transaction \<Rightarrow> u32 \<Rightarrow> bool \<Rightarrow> nat \<Rightarrow> market_out \<Rightarrow> string + market_out" where
  "output_step tx h locksIn n st =
     (case lock_output tx h locksIn n st of
        Inl e \<Rightarrow> Inl e
      | Inr st1 \<Rightarrow>
          (case token (scriptPubKey (vout tx ! n)) of
             None \<Rightarrow>
               if tokenShape (scriptPubKey (vout tx ! n))
               then Inl ''invalid token quantity/type rules'' else Inr st1
           | Some b \<Rightarrow>
               if amount (vout tx ! n) \<noteq> 0 \<or> n + 1 \<ge> length (vout tx) \<or> branch tx (n + 1) = None
               then Inl ''token/control mismatch''
               else case tally (outs st1) (aid (asset b)) (tk_amount b) of
                 None \<Rightarrow> Inl ''token output overflow''
               | Some outs' \<Rightarrow>
                   if type_clash (out_types st1) (aid (asset b)) (ty (asset b))
                   then Inl ''token type changed''
                   else Inr (st1\<lparr>outs := outs',
                                 out_types := AList.update (aid (asset b)) (ty (asset b)) (out_types st1)\<rparr>)))"

fun output_loop ::
    "'j Transaction \<Rightarrow> u32 \<Rightarrow> bool \<Rightarrow> nat list \<Rightarrow> market_out \<Rightarrow> string + market_out" where
  "output_loop tx h locksIn [] st = Inr st"
| "output_loop tx h locksIn (n # ns) st =
     (case output_step tx h locksIn n st of
        Inl e \<Rightarrow> Inl e | Inr st' \<Rightarrow> output_loop tx h locksIn ns st')"

fun funding_loop ::
    "Terms \<Rightarrow> Spend \<Rightarrow> string \<Rightarrow> (string \<times> Token option) list \<Rightarrow> u64 \<Rightarrow> string + u64" where
  "funding_loop t s own [] paid = Inr paid"
| "funding_loop t s own ((spk, tok) # rest) paid =
     (if spk \<noteq> pay own then Inl ''funding must belong to authorized party''
      else case tok of
        None \<Rightarrow> funding_loop t s own rest paid
      | Some c \<Rightarrow>
          if mode s \<noteq> 1 \<or> asset c \<noteq> wanted t then Inl ''unexpected funding token''
          else case add paid (tk_amount c) of
            None \<Rightarrow> Inl ''unexpected funding token''
          | Some paid' \<Rightarrow> funding_loop t s own rest paid')"

definition check_settlement ::
    "'j Transaction \<Rightarrow> u32 \<Rightarrow> market_in \<Rightarrow> Terms \<Rightarrow> Spend \<Rightarrow> string + unit" where
  "check_settlement tx h st t s =
     (case outputs tx t s h of
        None \<Rightarrow> Inl ''settlement outputs mismatch''
      | Some _ \<Rightarrow>
          let own = (if mode s = 1 then buyer s else seller t) in
          if mode s = 1 \<and> length (vin tx) < 2 then Inl ''buyer authorization missing''
          else case funding_loop t s own (drop 1 (zip (inputScripts st) (inputTokens st))) 0 of
            Inl e \<Rightarrow> Inl e
          | Inr paid \<Rightarrow>
              if mode s = 1 \<and> ty (wanted t) \<noteq> 0 \<and> paid < sp_quantity s div lot t * price t
              then Inl ''payment tokens not funded'' else Inr ())"

text \<open>A new listing must be funded by the seller's own token input.\<close>

definition listing_funded :: "market_in \<Rightarrow> TxOut \<Rightarrow> bool" where
  "listing_funded st u \<longleftrightarrow>
     (case parseLock (scriptPubKey u) of
        None \<Rightarrow> True
      | Some t \<Rightarrow>
          if inputScripts st = [] \<or> inputScripts st ! 0 \<noteq> pay (seller t) then False
          else case inputTokens st ! 0 of
            None \<Rightarrow> False
          | Some c \<Rightarrow> asset c = offered t \<and> \<not> tk_amount c < quantity t)"

definition validate ::
    "'j Transaction \<Rightarrow> u32 \<Rightarrow> (nat \<Rightarrow> 'j Transaction option) \<Rightarrow> (string \<Rightarrow> bool) \<Rightarrow> string + bool" where
  "validate tx h read exist =
     (if \<not> active h MARKET_HEIGHT then Inr False
      else if \<not> list_all (\<lambda>u. case unhex (scriptPubKey u) of
                None \<Rightarrow> False | Some b \<Rightarrow> hex b = scriptPubKey u) (vout tx)
      then Inl ''noncanonical output script hex''
      else case input_loop read 0 (vin tx)
                  \<lparr>ins = [], types = [], inputTokens = [], inputScripts = [], lockIn = None\<rparr> of
        Inl e \<Rightarrow> Inl e
      | Inr st \<Rightarrow>
          (case output_loop tx h (lockIn st \<noteq> None) [0..<length (vout tx)]
                  \<lparr>outs = [], out_types = types st, locksOut = 0\<rparr> of
             Inl e \<Rightarrow> Inl e
           | Inr so \<Rightarrow>
               if \<not> list_all (\<lambda>(k, v). (case map_of (outs so) k of None \<Rightarrow> 0 | Some w \<Rightarrow> w) = v) (ins st)
               then Inl ''token conservation''
               else if list_ex (\<lambda>(k, v). map_of (ins st) k = None \<and> exist k) (outs so)
               then Inl ''unauthorized duplicate issuance''
               else case lockIn st of
                 Some (t, s) \<Rightarrow>
                   (case check_settlement tx h st t s of Inl e \<Rightarrow> Inl e | Inr _ \<Rightarrow> Inr True)
               | None \<Rightarrow>
                   if locksOut so = 0 then Inr False
                   else if list_all (listing_funded st) (vout tx) then Inr True
                   else Inl ''seller does not fund offered asset''))"

subsection \<open>The lock script is canonical\<close>

definition terms_layout ::
    "byte \<Rightarrow> bytes \<Rightarrow> bytes \<Rightarrow> bytes \<Rightarrow> u64 \<Rightarrow> byte \<Rightarrow> bytes \<Rightarrow> bytes \<Rightarrow> u64 \<Rightarrow> u64 \<Rightarrow> u32 \<Rightarrow> bytes" where
  "terms_layout oty oid om sel q wty wid wm p l e =
     market_tag @ [oty] @ oid @ om @ sel @ le_bytes 8 q @ [wty] @ wid @ wm @ le_bytes 8 p @
     le_bytes 8 l @ le_bytes 4 (ucast e :: u64)"

definition terms_of ::
    "byte \<Rightarrow> bytes \<Rightarrow> bytes \<Rightarrow> bytes \<Rightarrow> u64 \<Rightarrow> byte \<Rightarrow> bytes \<Rightarrow> bytes \<Rightarrow> u64 \<Rightarrow> u64 \<Rightarrow> u32 \<Rightarrow> Terms" where
  "terms_of oty oid om sel q wty wid wm p l e =
     \<lparr>offered = \<lparr>ty = unat oty, aid = hex_encode oid, meta = hex_encode om\<rparr>,
      wanted = \<lparr>ty = unat wty, aid = hex_encode wid, meta = hex_encode wm\<rparr>,
      seller = hex_encode sel, quantity = q, price = p, lot = l, expiry = e\<rparr>"

lemma length_market_tag [simp]: "length market_tag = 9"
  by (simp add: market_tag_def)

lemma le_val_4 [simp]: "ucast (le_val (le_bytes 4 (ucast (e :: u32) :: u64)) :: u64) = e"
  by (rule bit_word_eqI)
    (auto simp: bit_ucast_iff bit_le_val nth_le_bytes bit_drop_bit_eq div_less_iff_less_mult)

lemma le_bytes_4 [simp]:
  assumes "length x = 4"
  shows "le_bytes 4 (ucast (ucast (le_val x :: u64) :: u32) :: u64) = x"
proof -
  have "ucast (ucast (le_val x :: u64) :: u32) = (le_val x :: u64)"
    by (rule bit_word_eqI) (use assms in \<open>auto simp: bit_ucast_iff bit_le_val div_less_iff_less_mult\<close>)
  then show ?thesis using assms by (simp add: le_bytes_le_val)
qed

lemma layout_parts:
  assumes "length oid = 8" "length om = 32" "length sel = 20" "length wid = 8" "length wm = 32"
  shows "decode (terms_layout oty oid om sel q wty wid wm p l e) =
    (if valid (terms_of oty oid om sel q wty wid wm p l e)
     then Some (terms_of oty oid om sel q wty wid wm p l e) else None)"
  using assms
  by (simp add: decode_def terms_layout_def terms_of_def nth_append slice_def le_def le_val_le_bytes Let_def)

lemma decode_parts:
  assumes "decode b = Some t"
  shows "valid t" and "\<exists>oty oid om sel q wty wid wm p l e.
    length oid = 8 \<and> length om = 32 \<and> length sel = 20 \<and> length wid = 8 \<and> length wm = 32 \<and>
    b = terms_layout oty oid om sel q wty wid wm p l e \<and>
    t = terms_of oty oid om sel q wty wid wm p l e"
proof -
  have len: "length b = 139" and tag: "take 9 b = market_tag"
    and t: "t = terms_of (b ! 9) (slice 10 8 b) (slice 18 32 b) (slice 50 20 b) (le b 70 8) (b ! 78)
      (slice 79 8 b) (slice 87 32 b) (le b 119 8) (le b 127 8) (ucast (le b 135 4))"
    and v: "valid t"
    using assms by (auto simp: decode_def terms_of_def Let_def split: if_splits)
  have "b = take 9 b @ drop 9 b" by simp
  also have "drop 9 b = b ! 9 # slice 10 8 b @ slice 18 32 b @ slice 50 20 b @ slice 70 8 b @
      b ! 78 # slice 79 8 b @ slice 87 32 b @ slice 119 8 b @ slice 127 8 b @ slice 135 4 b @ drop 139 b"
    using len by (simp add: drop_Cons [of 9] drop_slice [of 10 8] drop_slice [of 18 32]
        drop_slice [of 50 20] drop_slice [of 70 8] drop_Cons [of 78] drop_slice [of 79 8]
        drop_slice [of 87 32] drop_slice [of 119 8] drop_slice [of 127 8] drop_slice [of 135 4])
  finally have "b = terms_layout (b ! 9) (slice 10 8 b) (slice 18 32 b) (slice 50 20 b) (le b 70 8)
      (b ! 78) (slice 79 8 b) (slice 87 32 b) (le b 119 8) (le b 127 8) (ucast (le b 135 4))"
    using len tag by (simp add: terms_layout_def le_def le_bytes_le_val)
  moreover have "length (slice 10 8 b) = 8" "length (slice 18 32 b) = 32" "length (slice 50 20 b) = 20"
    "length (slice 79 8 b) = 8" "length (slice 87 32 b) = 32"
    using len by simp_all
  ultimately show "valid t" and "\<exists>oty oid om sel q wty wid wm p l e.
    length oid = 8 \<and> length om = 32 \<and> length sel = 20 \<and> length wid = 8 \<and> length wm = 32 \<and>
    b = terms_layout oty oid om sel q wty wid wm p l e \<and>
    t = terms_of oty oid om sel q wty wid wm p l e"
    using v t by blast+
qed

lemma encode_layout [simp]:
  "encode (terms_of oty oid om sel q wty wid wm p l e) = terms_layout oty oid om sel q wty wid wm p l e"
  by (simp add: encode_def terms_of_def terms_layout_def unhex_prefix_def put_def)

definition lower_terms :: "Terms \<Rightarrow> bool" where
  "lower_terms t \<longleftrightarrow>
     hex_lower (aid (offered t)) \<and> hex_lower (meta (offered t)) \<and> hex_lower (seller t) \<and>
     hex_lower (aid (wanted t)) \<and> hex_lower (meta (wanted t))"

lemma lower_terms_of [simp]: "lower_terms (terms_of oty oid om sel q wty wid wm p l e)"
  by (simp add: lower_terms_def terms_of_def)

lemma hex_field:
  assumes "hex_lower s" "hex_decode s \<noteq> None" "length s = 2 * n"
  shows "\<exists>b. s = hex_encode b \<and> length b = n"
  using assms hex_encode_decode hex_decode_length by fastforce

lemma zeros_field: "\<exists>b. replicate (2 * n) (CHR ''0'') = hex_encode b \<and> length b = n"
proof (intro exI conjI)
  have z: "hex_char 0 = CHR ''0''" by (simp add: hex_char_def)
  show "replicate (2 * n) (CHR ''0'') = hex_encode (replicate n 0)"
    by (induction n) (simp_all add: z)
qed simp

lemma valid_parts:
  assumes "valid t" "lower_terms t"
  shows "\<exists>oty oid om sel q wty wid wm p l e.
    length oid = 8 \<and> length om = 32 \<and> length sel = 20 \<and> length wid = 8 \<and> length wm = 32 \<and>
    t = terms_of oty oid om sel q wty wid wm p l e"
proof -
  have o: "ty (offered t) < 256" "length (aid (offered t)) = 2 * 8" "hex_decode (aid (offered t)) \<noteq> None"
    "length (meta (offered t)) = 2 * 32" "hex_decode (meta (offered t)) \<noteq> None"
    "length (seller t) = 2 * 20" "hex_decode (seller t) \<noteq> None"
    using assms(1) unfolding valid_def by (auto split: if_splits)
  have w: "ty (wanted t) < 256" "\<exists>b. aid (wanted t) = hex_encode b \<and> length b = 8"
    "\<exists>b. meta (wanted t) = hex_encode b \<and> length b = 32"
  proof -
    show "ty (wanted t) < 256" using assms(1) unfolding valid_def by (auto split: if_splits)
    have "ty (wanted t) = 0 \<and> aid (wanted t) = replicate (2 * 8) (CHR ''0'') \<and>
        meta (wanted t) = replicate (2 * 32) (CHR ''0'') \<or>
        length (aid (wanted t)) = 2 * 8 \<and> hex_decode (aid (wanted t)) \<noteq> None \<and>
        length (meta (wanted t)) = 2 * 32 \<and> hex_decode (meta (wanted t)) \<noteq> None"
      using assms(1) unfolding valid_def by (auto split: if_splits simp del: replicate.simps)
    then show "\<exists>b. aid (wanted t) = hex_encode b \<and> length b = 8"
      "\<exists>b. meta (wanted t) = hex_encode b \<and> length b = 32"
      using zeros_field hex_field assms(2) unfolding lower_terms_def by metis+
  qed
  obtain oid om sel where
    "aid (offered t) = hex_encode oid" "length oid = 8" "meta (offered t) = hex_encode om" "length om = 32"
    "seller t = hex_encode sel" "length sel = 20"
    using o hex_field assms(2) unfolding lower_terms_def by metis
  moreover obtain wid wm where "aid (wanted t) = hex_encode wid" "length wid = 8"
    "meta (wanted t) = hex_encode wm" "length wm = 32" using w by blast
  moreover have "unat (word_of_nat (ty (offered t)) :: byte) = ty (offered t)"
    "unat (word_of_nat (ty (wanted t)) :: byte) = ty (wanted t)"
    using o(1) w(1) by (simp_all add: unat_word_of_nat_less del: unat_of_nat)
  ultimately have "t = terms_of (word_of_nat (ty (offered t))) oid om sel (quantity t)
      (word_of_nat (ty (wanted t))) wid wm (price t) (lot t) (expiry t)"
    by (simp add: terms_of_def del: unat_of_nat)
  then show ?thesis
    using \<open>length oid = 8\<close> \<open>length om = 32\<close> \<open>length sel = 20\<close> \<open>length wid = 8\<close> \<open>length wm = 32\<close>
    by blast
qed

lemma decode_iff: "decode b = Some t \<longleftrightarrow> valid t \<and> lower_terms t \<and> b = encode t"
proof
  assume "decode b = Some t"
  then show "valid t \<and> lower_terms t \<and> b = encode t" using decode_parts by fastforce
next
  assume a: "valid t \<and> lower_terms t \<and> b = encode t"
  then have v: "valid t" "lower_terms t" by simp_all
  obtain oty oid om sel q wty wid wm p l e where
    l: "length oid = 8" "length om = 32" "length sel = 20" "length wid = 8" "length wm = 32"
    and t: "t = terms_of oty oid om sel q wty wid wm p l e"
    using valid_parts [OF v] by (elim exE conjE) (rule that)
  then show "decode b = Some t" using a layout_parts [OF l] by simp
qed

interpretation market_terms: codec "\<lambda>t. if valid t \<and> lower_terms t then Some (encode t) else None" decode
  by unfold_locales (auto simp: decode_iff split: if_splits)

lemma length_encode:
  assumes "valid t" "lower_terms t"
  shows "length (encode t) = 139"
  using valid_parts [OF assms] by (auto simp: terms_layout_def)

definition lock_bytes :: "Terms \<Rightarrow> bytes" where
  "lock_bytes t = 0x4c # 139 # encode t @ [0xbc, 0x51]"

lemma script_lower:
  assumes "valid t" "lower_terms t"
  shows "script t = hex_encode (lock_bytes t)"
  using assms length_encode [OF assms] by (simp add: script_def lock_bytes_def Let_def)

lemma lock_bytes_split:
  assumes "length b = 143" "b ! 0 = 0x4c" "b ! 1 = 139" "b ! 141 = 0xbc" "b ! 142 = 0x51"
  shows "b = 0x4c # 139 # slice 2 139 b @ [0xbc, 0x51]"
proof -
  have "b = drop 0 b" by simp
  also have "\<dots> = b ! 0 # b ! 1 # slice 2 139 b @ b ! 141 # b ! 142 # drop 143 b"
    using assms(1) by (simp add: drop_Cons [of 0] drop_Cons [of 1] drop_slice [of 2 139]
        drop_Cons [of 141] drop_Cons [of 142] del: drop_0 drop0 One_nat_def)
  finally show ?thesis using assms by simp
qed

lemma parse_lock_iff:
  "parseLock s = Some t \<longleftrightarrow> valid t \<and> lower_terms t \<and> hex_decode s = Some (lock_bytes t)"
proof
  assume "parseLock s = Some t"
  then obtain b where b: "hex_decode s = Some b" "length b = 143" "b ! 0 = 0x4c" "b ! 1 = 139"
    "b ! 141 = 0xbc" "b ! 142 = 0x51" "decode (slice 2 139 b) = Some t"
    by (auto simp: parseLock_def split: option.splits if_splits)
  have "b = lock_bytes t"
    using lock_bytes_split [OF b(2-6)] b(7) by (simp add: decode_iff lock_bytes_def)
  then show "valid t \<and> lower_terms t \<and> hex_decode s = Some (lock_bytes t)"
    using b(1,7) by (simp add: decode_iff)
next
  assume a: "valid t \<and> lower_terms t \<and> hex_decode s = Some (lock_bytes t)"
  then have "length (encode t) = 139" using length_encode by blast
  then show "parseLock s = Some t"
    using a by (simp add: parseLock_def lock_bytes_def nth_append slice_def decode_iff)
qed

text \<open>
  A market lock says one thing. A script text parses to terms exactly when the terms are valid,
  their hex fields are lower case, and the text has the bytes of the script built from them; so
  building a listing and reading it back is the identity, and no two lower-case lock scripts carry
  the same terms.
\<close>

theorem market_lock_canonical:
  "parseLock s = Some t \<longleftrightarrow>
     valid t \<and> lower_terms t \<and> hex_decode s \<noteq> None \<and> hex_decode s = hex_decode (script t)"
  using parse_lock_iff [of s t] script_lower [of t] by auto

end
