(* ===== verification/Market_Settlement.thy ===== *)
theory Market_Settlement
  imports Market
begin

text \<open>
  What the market rules of \<open>Market\<close> guarantee: token conservation over a whole transaction, and exact
  delivery and payment when a listing is filled.
\<close>

subsection \<open>Checked sums per token id\<close>

definition token_sum :: "string \<Rightarrow> Token list \<Rightarrow> nat" where
  "token_sum k ts = (\<Sum>t\<leftarrow>ts. if aid (asset t) = k then unat (tk_amount t) else 0)"

lemma token_sum_append [simp]: "token_sum k (a @ b) = token_sum k a + token_sum k b"
  and token_sum_Nil [simp]: "token_sum k [] = 0"
  and token_sum_Cons [simp]: "token_sum k (t # ts) =
     (if aid (asset t) = k then unat (tk_amount t) else 0) + token_sum k ts"
  by (simp_all add: token_sum_def)

definition counted :: "(string \<times> u64) list \<Rightarrow> string \<Rightarrow> nat" where
  "counted m k = (case map_of m k of None \<Rightarrow> 0 | Some s \<Rightarrow> unat s)"

definition tallies :: "(string \<times> u64) list \<Rightarrow> Token list \<Rightarrow> bool" where
  "tallies m ts \<longleftrightarrow> (\<forall>k. counted m k = token_sum k ts)"

lemma tallies_Nil [simp]: "tallies [] []"
  by (simp add: tallies_def counted_def)

lemma add_Some: "add a n = Some s \<Longrightarrow> unat s = unat a + unat n"
  using unat_checked_add [of n a] by (auto simp: add_def not_less add.commute split: if_splits)

lemma tally_counted:
  assumes "tally m k n = Some m'"
  shows "counted m' k' = counted m k' + (if k' = k then unat n else 0)"
proof -
  obtain s where s: "add (case map_of m k of None \<Rightarrow> 0 | Some s \<Rightarrow> s) n = Some s" "m' = AList.update k s m"
    using assms by (auto simp: tally_def split: option.splits)
  have "unat s = counted m k + unat n"
    using add_Some [OF s(1)] by (simp add: counted_def split: option.splits)
  then show ?thesis by (auto simp: counted_def s(2) update_conv')
qed

lemma tally_tallies:
  assumes "tally m (aid (asset t)) (tk_amount t) = Some m'" "tallies m ts"
  shows "tallies m' (ts @ [t])"
  using assms(2) tally_counted [OF assms(1)] by (auto simp: tallies_def)

subsection \<open>The tokens a transaction spends and creates\<close>

definition spent_token :: "(nat \<Rightarrow> 'j Transaction option) \<Rightarrow> nat \<Rightarrow> TxIn \<Rightarrow> Token option" where
  "spent_token read i inp =
     (case read i of
        None \<Rightarrow> None
      | Some p \<Rightarrow>
          (case normalise_parent p (unat (prev_vout inp)) of
             None \<Rightarrow> None | Some p' \<Rightarrow> branch p' (unat (prev_vout inp))))"

fun spent_tokens :: "(nat \<Rightarrow> 'j Transaction option) \<Rightarrow> nat \<Rightarrow> TxIn list \<Rightarrow> Token list" where
  "spent_tokens read i [] = []"
| "spent_tokens read i (inp # rest) =
     (case spent_token read i inp of None \<Rightarrow> [] | Some t \<Rightarrow> [t]) @ spent_tokens read (i + 1) rest"

definition created_tokens :: "'j Transaction \<Rightarrow> Token list" where
  "created_tokens tx = List.map_filter (\<lambda>u. token (scriptPubKey u)) (vout tx)"

lemma count_input_tallies:
  assumes "count_input b st = Inr st'" "tallies (ins st) ts"
  shows "tallies (ins st') (ts @ (case b of None \<Rightarrow> [] | Some t \<Rightarrow> [t]))"
  using assms by (auto simp: count_input_def tally_tallies split: option.splits if_splits)

lemma input_step_tallies:
  assumes "input_step read i inp st = Inr st'" "tallies (ins st) ts"
  shows "tallies (ins st') (ts @ (case spent_token read i inp of None \<Rightarrow> [] | Some t \<Rightarrow> [t]))"
proof -
  let ?n = "unat (prev_vout inp)"
  obtain p p' where p: "read i = Some p" "normalise_parent p ?n = Some p'"
    using assms(1) by (auto simp: input_step_def Let_def split: option.splits if_splits)
  define b where "b = branch p' ?n"
  define st0 where "st0 = st\<lparr>inputScripts := inputScripts st @ [scriptPubKey (vout p' ! ?n)],
     inputTokens := inputTokens st @ [b]\<rparr>"
  obtain st1 where c: "count_input b st0 = Inr st1"
    using assms(1) p by (auto simp: input_step_def Let_def b_def st0_def split: if_splits sum.splits)
  have "ins st' = ins st1"
    using assms(1) p c
    by (auto simp: input_step_def Let_def b_def st0_def split: if_splits option.splits)
  moreover have "tallies (ins st1) (ts @ (case b of None \<Rightarrow> [] | Some t \<Rightarrow> [t]))"
    by (rule count_input_tallies [OF c]) (use assms(2) in \<open>simp add: st0_def\<close>)
  moreover have "spent_token read i inp = b" by (simp add: spent_token_def p b_def)
  ultimately show ?thesis by simp
qed

lemma input_loop_tallies:
  "input_loop read i inps st = Inr st' \<Longrightarrow> tallies (ins st) ts \<Longrightarrow>
     tallies (ins st') (ts @ spent_tokens read i inps)"
proof (induction inps arbitrary: i st ts)
  case (Cons inp inps)
  then obtain st1 where "input_step read i inp st = Inr st1" "input_loop read (i + 1) inps st1 = Inr st'"
    by (auto split: sum.splits)
  then show ?case using Cons.IH input_step_tallies [of read i inp st st1 ts] Cons.prems(2) by fastforce
qed simp

lemma output_step_tallies:
  assumes "output_step tx h l n st = Inr st'" "tallies (outs st) ts"
  shows "tallies (outs st') (ts @ (case token (scriptPubKey (vout tx ! n)) of None \<Rightarrow> [] | Some t \<Rightarrow> [t]))"
proof -
  obtain st1 where 1: "lock_output tx h l n st = Inr st1"
    using assms(1) by (auto simp: output_step_def split: sum.splits)
  then have "outs st1 = outs st"
    by (auto simp: lock_output_def split: option.splits if_splits)
  then show ?thesis
    using assms 1 by (auto simp: output_step_def tally_tallies split: option.splits if_splits)
qed

lemma output_loop_tallies:
  "output_loop tx h l ns st = Inr st' \<Longrightarrow> tallies (outs st) ts \<Longrightarrow>
     tallies (outs st') (ts @ List.map_filter (\<lambda>n. token (scriptPubKey (vout tx ! n))) ns)"
proof (induction ns arbitrary: st ts)
  case (Cons n ns)
  then obtain st1 where "output_step tx h l n st = Inr st1" "output_loop tx h l ns st1 = Inr st'"
    by (auto split: sum.splits)
  then have "tallies (outs st') ((ts @ (case token (scriptPubKey (vout tx ! n)) of None \<Rightarrow> [] | Some t \<Rightarrow> [t])) @
      List.map_filter (\<lambda>n. token (scriptPubKey (vout tx ! n))) ns)"
    using Cons.IH output_step_tallies [of tx h l n st st1 ts] Cons.prems(2) by blast
  then show ?case by (cases "token (scriptPubKey (vout tx ! n))") (simp_all add: map_filter_simps)
qed (simp add: map_filter_simps)

lemma map_filter_nth: "List.map_filter (\<lambda>n. f (xs ! n)) [0..<length xs] = List.map_filter f xs"
proof -
  have "List.map_filter (f \<circ> (!) xs) [0..<length xs] = List.map_filter f (map ((!) xs) [0..<length xs])"
    by (simp only: map_filter_map_filter o_def) (simp add: List.map_filter_def filter_map o_def)
  then show ?thesis by (simp add: map_nth o_def)
qed

text \<open>
  C21: the market never changes the supply of a token. In an accepted transaction above the
  activation height, the quantities of every token id in the outputs add up to exactly the
  quantities in the confirmed outputs it spends; the only exception is a first issuance, of an id
  that no input carries and that was never issued before.
\<close>

theorem market_conserves_tokens:
  assumes "validate tx h read exist = Inr m" "active h MARKET_HEIGHT"
  shows "\<forall>k. token_sum k (created_tokens tx) = token_sum k (spent_tokens read 0 (vin tx)) \<or>
             (token_sum k (spent_tokens read 0 (vin tx)) = 0 \<and> \<not> exist k)"
proof
  fix k
  obtain st so where i: "input_loop read 0 (vin tx)
      \<lparr>ins = [], types = [], inputTokens = [], inputScripts = [], lockIn = None\<rparr> = Inr st"
    and o: "output_loop tx h (lockIn st \<noteq> None) [0..<length (vout tx)]
      \<lparr>outs = [], out_types = types st, locksOut = 0\<rparr> = Inr so"
    and c: "list_all (\<lambda>(k, v). (case map_of (outs so) k of None \<Rightarrow> 0 | Some w \<Rightarrow> w) = v) (ins st)"
    and d: "\<not> list_ex (\<lambda>(k, v). map_of (ins st) k = None \<and> exist k) (outs so)"
    using assms unfolding validate_def by (auto split: if_splits sum.splits)
  have ins: "counted (ins st) k = token_sum k (spent_tokens read 0 (vin tx))"
  proof -
    have "tallies (ins st) ([] @ spent_tokens read 0 (vin tx))"
      by (rule input_loop_tallies [OF i]) simp
    then show ?thesis by (simp add: tallies_def)
  qed
  have outs: "counted (outs so) k = token_sum k (created_tokens tx)"
  proof -
    have "tallies (outs so)
        ([] @ List.map_filter (\<lambda>n. token (scriptPubKey (vout tx ! n))) [0..<length (vout tx)])"
      by (rule output_loop_tallies [OF o]) simp
    then show ?thesis
      by (simp add: tallies_def created_tokens_def map_filter_nth [of "\<lambda>u. token (scriptPubKey u)"])
  qed
  show "token_sum k (created_tokens tx) = token_sum k (spent_tokens read 0 (vin tx)) \<or>
      (token_sum k (spent_tokens read 0 (vin tx)) = 0 \<and> \<not> exist k)"
  proof (cases "map_of (ins st) k")
    case (Some v)
    then have "counted (outs so) k = counted (ins st) k"
      using c map_of_SomeD [OF Some] by (auto simp: list_all_iff counted_def split: option.splits)
    then show ?thesis using ins outs by simp
  next
    case None
    then have z: "counted (ins st) k = 0" by (simp add: counted_def)
    show ?thesis
    proof (cases "map_of (outs so) k")
      case None
      then show ?thesis using z ins outs by (simp add: counted_def)
    next
      case (Some w)
      then have "\<not> exist k" using d \<open>map_of (ins st) k = None\<close> map_of_SomeD [OF Some]
        by (auto simp: list_ex_iff)
      then show ?thesis using z ins by simp
    qed
  qed
qed

subsection \<open>Filling a listing\<close>

lemma pairD:
  assumes "pair tx n expected control"
  shows "n + 1 < length (vout tx)" "branch tx (n + 1) = Some expected" "amount (vout tx ! (n + 1)) = 1"
    "scriptPubKey (vout tx ! (n + 1)) = (if control = '''' then pay (owner expected) else control)"
  using assms by (auto simp: pair_def split: if_splits option.splits)

lemma valid_nat:
  assumes "valid t"
  shows "unat (lot t) dvd unat (quantity t)" "0 < unat (lot t)" "0 < unat (price t)" "0 < unat (quantity t)"
    "unat (quantity t) div unat (lot t) * unat (price t) < 2 ^ 64"
proof -
  have v: "quantity t mod lot t = 0" "lot t \<noteq> 0" "price t \<noteq> 0" "quantity t \<noteq> 0"
    "\<not> quantity t div lot t > u64_max div price t"
    using assms unfolding valid_def by (auto split: if_splits)
  have "unat (quantity t mod lot t) = 0" using v(1) by simp
  then show "unat (lot t) dvd unat (quantity t)" by (simp add: unat_mod dvd_eq_mod_eq_0)
  show "0 < unat (lot t)" "0 < unat (price t)" "0 < unat (quantity t)"
    using v by (simp_all add: unat_gt_0)
  have "0 < price t" using v(3) by (simp add: word_gt_0)
  then show "unat (quantity t) div unat (lot t) * unat (price t) < 2 ^ 64"
    using v(5) checked_mult_iff [of "price t" "quantity t div lot t"] by (simp add: unat_div not_less)
qed

lemma due_exact:
  assumes "valid t" "q \<le> quantity t"
  shows "unat (q div lot t * price t) = unat q div unat (lot t) * unat (price t)"
proof -
  have "unat q div unat (lot t) * unat (price t) \<le> unat (quantity t) div unat (lot t) * unat (price t)"
    using assms(2) by (simp add: div_le_mono word_le_nat_alt)
  then have "unat q div unat (lot t) * unat (price t) < 2 ^ 64"
    using valid_nat(5) [OF assms(1)] by (rule le_less_trans)
  then show ?thesis by (simp add: unat_word_ariths(2) unat_div)
qed

lemma guard_False: "(if a then False else b) \<longleftrightarrow> \<not> a \<and> b" by simp

lemma valid_rest:
  assumes "valid t" "q < quantity t" "q \<noteq> 0" "q mod lot t = 0"
  shows "valid (t\<lparr>quantity := quantity t - q\<rparr>)"
proof -
  note n = valid_nat [OF assms(1)]
  have q: "unat q < unat (quantity t)" "0 < unat q" using assms by (simp_all add: word_less_nat_alt unat_gt_0)
  have dq: "unat (lot t) dvd unat q"
    using assms(4) by (metis dvd_eq_mod_eq_0 unat_0 unat_mod)
  have r: "unat (quantity t - q) = unat (quantity t) - unat q"
    using assms(2) by (simp add: unat_sub less_imp_le)
  have mod: "(quantity t - q) mod lot t = 0"
    by (rule word_unat_eq_iff [THEN iffD2])
      (use n(1) dq in \<open>simp add: unat_mod r dvd_diff_nat dvd_eq_mod_eq_0 [symmetric]\<close>)
  have mono: "(quantity t - q) div lot t \<le> quantity t div lot t"
    by (simp add: word_le_nat_alt unat_div r div_le_mono)
  have prod: "unat ((quantity t - q) div lot t * price t) = (unat (quantity t) - unat q) div unat (lot t) * unat (price t)"
    using due_exact [OF assms(1), of "quantity t - q"] r by (simp add: word_le_nat_alt)
  have prodQ: "unat (quantity t div lot t * price t) = unat (quantity t) div unat (lot t) * unat (price t)"
    using due_exact [OF assms(1), of "quantity t"] by simp
  have le: "(quantity t - q) div lot t * price t \<le> quantity t div lot t * price t"
    unfolding word_le_nat_alt prod prodQ by (simp add: div_le_mono)
  have not1: "quantity t \<noteq> 1" using q by auto
  have notdue1: "quantity t div lot t * price t \<noteq> 1"
  proof
    assume "quantity t div lot t * price t = 1"
    then have "unat (quantity t) div unat (lot t) * unat (price t) = 1" using prodQ by simp
    then have "unat (quantity t) div unat (lot t) = 1" by simp
    then have "unat (quantity t) = unat (lot t)"
      using n(1) by (metis dvd_div_mult_self mult_1)
    then show False using q dq by (auto dest: dvd_imp_le)
  qed
  have ne: "quantity t - q \<noteq> 0" using assms(2) by auto
  have v: "\<not> quantity t div lot t > u64_max div price t"
    "ty (wanted t) = 0 \<longrightarrow> \<not> quantity t div lot t * price t > 21000000 * 100000000"
    "\<not> (ty (offered t) = 2 \<or> ty (offered t) = 4)" "\<not> (ty (wanted t) = 2 \<or> ty (wanted t) = 4)"
    using assms(1) not1 notdue1 unfolding valid_def by (auto split: if_splits)
  have g1: "\<not> (quantity t - q) div lot t > u64_max div price t" using v(1) mono by simp
  have g2: "ty (wanted t) = 0 \<longrightarrow> \<not> (quantity t - q) div lot t * price t > 21000000 * 100000000"
    using v(2) le by (meson le_less_trans not_less)
  let ?r = "t\<lparr>quantity := quantity t - q\<rparr>"
  have r_sel: "offered ?r = offered t" "wanted ?r = wanted t" "seller ?r = seller t"
    "quantity ?r = quantity t - q" "price ?r = price t" "lot ?r = lot t" "expiry ?r = expiry t"
    by simp_all
  show ?thesis
    using assms(1) mod ne v(3,4) g1 g2 unfolding valid_def guard_False r_sel by blast
qed

text \<open>
  Filling a listing is exact. When the settlement rules accept a fill of a lock's terms, the
  height is before expiry and the filled quantity is a positive multiple of the lot within the
  listing; output 1 carries that quantity of the offered token to the buyer; the seller is paid
  exactly quantity / lot * price as natural numbers, in coin at output 2 or in the wanted token at
  output 3; and a partial fill re-lists the remainder under a lock that parses to the same terms
  with the quantity reduced.
\<close>

theorem market_fill_exact:
  assumes "parseLock lock = Some t" "mode s = 1" "outputs tx t s h = Some e"
  shows "h < expiry t \<and> 0 < unat (sp_quantity s) \<and> sp_quantity s \<le> quantity t \<and>
    unat (lot t) dvd unat (sp_quantity s) \<and>
    branch tx 1 = Some \<lparr>asset = offered t, owner = buyer s, tk_amount = sp_quantity s\<rparr> \<and>
    scriptPubKey (vout tx ! 1) = pay (buyer s) \<and>
    (\<exists>due. unat due = unat (sp_quantity s) div unat (lot t) * unat (price t) \<and>
      (if ty (wanted t) = 0
       then amount (vout tx ! 2) = due \<and> scriptPubKey (vout tx ! 2) = pay (seller t)
       else branch tx 3 = Some \<lparr>asset = wanted t, owner = seller t, tk_amount = due\<rparr> \<and>
            scriptPubKey (vout tx ! 3) = pay (seller t))) \<and>
    (sp_quantity s < quantity t \<longrightarrow>
      (\<exists>n. branch tx n = Some \<lparr>asset = offered t, owner = seller t,
              tk_amount = quantity t - sp_quantity s\<rparr> \<and>
           parseLock (scriptPubKey (vout tx ! n)) =
             Some (t\<lparr>quantity := quantity t - sp_quantity s\<rparr>)))"
proof -
  let ?q = "sp_quantity s"
  have t: "valid t" "lower_terms t" using assms(1) by (simp_all add: parse_lock_iff)
  obtain e1 where f: "fill_layout tx t s h = Some e1"
    using assms(2,3) by (auto simp: outputs_def split: option.splits if_splits)
  have g: "h < expiry t" "?q \<noteq> 0" "?q \<le> quantity t" "?q mod lot t = 0"
    and p0: "pair tx 0 \<lparr>asset = offered t, owner = buyer s, tk_amount = ?q\<rparr> ''''"
    using f by (auto simp: fill_layout_def not_le not_less split: if_splits)
  have dvd: "unat (lot t) dvd unat ?q" using g(4) by (metis dvd_eq_mod_eq_0 unat_0 unat_mod)
  have due: "unat (?q div lot t * price t) = unat ?q div unat (lot t) * unat (price t)"
    by (rule due_exact [OF t(1) g(3)])
  have coin: "amount (vout tx ! 2) = ?q div lot t * price t \<and> scriptPubKey (vout tx ! 2) = pay (seller t)"
    if "ty (wanted t) = 0"
    using f g p0 that by (auto simp: fill_layout_def Let_def split: if_splits)
  have tok: "pair tx 2 \<lparr>asset = wanted t, owner = seller t, tk_amount = ?q div lot t * price t\<rparr> ''''"
    if "ty (wanted t) \<noteq> 0"
    using f g p0 that by (auto simp: fill_layout_def Let_def split: if_splits)
  have rest: "\<exists>n. branch tx n = Some \<lparr>asset = offered t, owner = seller t, tk_amount = quantity t - ?q\<rparr> \<and>
      parseLock (scriptPubKey (vout tx ! n)) = Some (t\<lparr>quantity := quantity t - ?q\<rparr>)"
    if lt: "?q < quantity t"
  proof -
    let ?r = "t\<lparr>quantity := quantity t - ?q\<rparr>"
    have v: "valid ?r" "lower_terms ?r"
      using valid_rest [OF t(1) lt g(2,4)] t(2) by (simp_all add: lower_terms_def)
    have sc: "script ?r = hex_encode (lock_bytes ?r)" by (rule script_lower [OF v])
    then have ne: "script ?r \<noteq> ''''" by (simp add: lock_bytes_def)
    obtain e2 where pr: "pair tx e2 \<lparr>asset = offered t, owner = seller t, tk_amount = quantity ?r\<rparr> (script ?r)"
      using f g p0 lt by (auto simp: fill_layout_def Let_def split: if_splits)
    have "parseLock (script ?r) = Some ?r" using v sc by (simp add: parse_lock_iff)
    then show ?thesis using pairD [OF pr] ne by (intro exI [of _ "e2 + 1"]) simp
  qed
  show ?thesis
    using g dvd due pairD [OF p0] coin pairD [OF tok] rest
    by (auto simp: unat_gt_0 intro!: exI [of _ "?q div lot t * price t"])
qed

subsection \<open>Token outputs round trip\<close>

definition token_ok :: "Token \<Rightarrow> bool" where
  "token_ok t \<longleftrightarrow>
     1 \<le> ty (asset t) \<and> ty (asset t) \<le> 4 \<and> tk_amount t \<noteq> 0 \<and>
     (ty (asset t) = 2 \<or> ty (asset t) = 4 \<longrightarrow> tk_amount t = 1) \<and>
     (\<exists>i own m. aid (asset t) = hex_encode i \<and> owner t = hex_encode own \<and> meta (asset t) = hex_encode m \<and>
        (length i = 4 \<or> length i = 8) \<and> length own = 20 \<and> length m = 32)"

lemma be_val_bytes [simp]: "be_val (be_bytes n) = n"
  by (simp add: be_val_def be_bytes_def le_val_le_bytes)

lemma length_be_bytes [simp]: "length (be_bytes n) = 8"
  by (simp add: be_bytes_def)

lemma token_data:
  assumes "token_ok t"
  shows "token (data t) = Some t"
proof -
  obtain i own m where
    e: "aid (asset t) = hex_encode i" "owner t = hex_encode own" "meta (asset t) = hex_encode m"
    and l: "length i = 4 \<or> length i = 8" "length own = 20" "length m = 32"
    and k: "1 \<le> ty (asset t)" "ty (asset t) \<le> 4" "tk_amount t \<noteq> 0"
      "ty (asset t) = 2 \<or> ty (asset t) = 4 \<longrightarrow> tk_amount t = 1"
    using assms unfolding token_ok_def by blast
  define k where "k = (word_of_nat (ty (asset t)) :: byte)"
  have uk: "unat k = ty (asset t)"
    unfolding k_def by (rule unat_word_of_nat_less) (use k in simp)
  have shape: "1 \<le> k" "k \<le> 4" using k uk by (simp_all add: word_le_nat_alt)
  define n where "n = length i"
  define b where "b = [0x6a, k] @ i @ be_bytes (tk_amount t) @ own @ m"
  have d: "data t = hex_encode b"
    using e l by (auto simp: data_def k_def b_def)
  have parts: "length b = 62 + n" "b ! 0 = 0x6a" "b ! 1 = k" "slice 2 n b = i"
    "slice (2 + n) 8 b = be_bytes (tk_amount t)" "slice (10 + n) 20 b = own" "drop (30 + n) b = m"
    using l(1) by (elim disjE; simp add: b_def n_def slice_def l(2,3))+
  have n: "n = (if length b = 70 then 8 else 4)" "length b = 70 \<or> length b = 66"
    using l(1) parts(1) by (auto simp: n_def)
  have "token (hex_encode b) = Some \<lparr>asset = \<lparr>ty = unat k, aid = hex_encode i, meta = hex_encode m\<rparr>,
      owner = hex_encode own, tk_amount = tk_amount t\<rparr>"
    unfolding token_def unhex_def hex_decode_encode option.case token_bytes_shape_def Let_def
      n(1) [symmetric] parts(2-7) using n(2) shape k uk by (simp only:) auto
  then show ?thesis unfolding d using e uk by simp
qed

subsection \<open>Concrete transactions\<close>

lemma pay_hex: "pay (hex_encode own) = hex_encode ([0x76, 0xa9, 0x14] @ own @ [0x88, 0xac])"
  by (simp add: pay_def hex_encode_append hex_char_def)

lemma lower_script_id: "scriptPubKey u = hex_encode b \<Longrightarrow> lower_script u = Some u"
  by (cases u) (simp add: lower_script_def)

lemma pay_plain:
  assumes "length own = 20"
  shows "parseLock (pay (hex_encode own)) = None" "token (pay (hex_encode own)) = None"
    "\<not> tokenShape (pay (hex_encode own))"
  unfolding pay_hex parseLock_def token_def tokenShape_def unhex_def hex_decode_encode token_bytes_shape_def
  using assms by simp_all

lemma data_hex:
  assumes "token_ok t"
  shows "\<exists>b. data t = hex_encode b \<and> length b \<noteq> 143"
proof -
  obtain i own m where
    e: "aid (asset t) = hex_encode i" "owner t = hex_encode own" "meta (asset t) = hex_encode m"
    and l: "length i = 4 \<or> length i = 8" "length own = 20" "length m = 32"
    using assms unfolding token_ok_def by blast
  define b where "b = [0x6a, word_of_nat (ty (asset t))] @ i @ be_bytes (tk_amount t) @ own @ m"
  have "data t = hex_encode b" using e l by (auto simp: data_def b_def)
  moreover have "length b \<noteq> 143" using l by (auto simp: b_def)
  ultimately show ?thesis by blast
qed

lemma data_not_lock: "token_ok t \<Longrightarrow> parseLock (data t) = None"
  using data_hex [of t] by (auto simp: parseLock_def)

lemma branch_pay:
  assumes "n + 1 < length (vout tx)" "token_ok t" "vout tx ! n = \<lparr>amount = 0, scriptPubKey = data t\<rparr>"
    "vout tx ! (n + 1) = \<lparr>amount = a, scriptPubKey = pay (owner t)\<rparr>" "0 < a"
  shows "branch tx (n + 1) = Some t"
  using assms by (simp add: branch_def token_data)

definition sample_asset :: Asset where
  "sample_asset = \<lparr>ty = 1, aid = hex_encode (replicate 8 9), meta = hex_encode (replicate 32 7)\<rparr>"

definition alice :: string where "alice = hex_encode (replicate 20 1)"
definition bob :: string where "bob = hex_encode (replicate 20 2)"

definition sample_token :: "string \<Rightarrow> u64 \<Rightarrow> Token" where
  "sample_token own n = \<lparr>asset = sample_asset, owner = own, tk_amount = n\<rparr>"

definition token_pair :: "string \<Rightarrow> u64 \<Rightarrow> TxOut list" where
  "token_pair own n =
     [\<lparr>amount = 0, scriptPubKey = data (sample_token own n)\<rparr>, \<lparr>amount = 1, scriptPubKey = pay own\<rparr>]"

definition market_tx :: "TxIn list \<Rightarrow> TxOut list \<Rightarrow> unit Transaction" where
  "market_tx i os = \<lparr>isCoinbase = False, txid = '''', sender = '''', vin = i, vout = os,
     version = 1, lockTime = 0, tokenMetadata = []\<rparr>"

lemma market_tx_sel [simp]: "vin (market_tx i os) = i" "vout (market_tx i os) = os"
  by (simp_all add: market_tx_def)

lemma sample_sel [simp]:
  "asset (sample_token own n) = sample_asset" "owner (sample_token own n) = own"
  "tk_amount (sample_token own n) = n" "ty sample_asset = 1"
  by (simp_all add: sample_token_def sample_asset_def)

lemma sample_ok:
  assumes "n \<noteq> 0" "own \<in> {alice, bob}"
  shows "token_ok (sample_token own n)"
proof -
  obtain c where own: "own = hex_encode (replicate 20 c)" using assms(2) by (auto simp: alice_def bob_def)
  show ?thesis
    unfolding token_ok_def sample_token_def sample_asset_def own using assms(1)
    by (simp del: replicate.simps)
qed

lemma people_plain:
  assumes "own \<in> {alice, bob}"
  shows "parseLock (pay own) = None" "token (pay own) = None" "\<not> tokenShape (pay own)"
    "\<exists>b. pay own = hex_encode b"
proof -
  obtain o2 where o2: "own = hex_encode o2" "length o2 = 20" using assms by (auto simp: alice_def bob_def)
  show "parseLock (pay own) = None" "token (pay own) = None" "\<not> tokenShape (pay own)"
    using pay_plain [OF o2(2)] by (simp_all only: o2(1) not_False_eq_True)
  show "\<exists>b. pay own = hex_encode b" using pay_hex [of o2] o2(1) by blast
qed

definition sample_transfer :: "unit Transaction" where
  "sample_transfer =
     market_tx [\<lparr>prev_txid = '''', prev_vout = 1, scriptSig = [], pubKey = [], in_scriptPubKey = [], sequence = 0\<rparr>]
       (token_pair bob 3 @ token_pair alice 4)"

definition sample_parent :: "unit Transaction" where
  "sample_parent = market_tx [] (token_pair alice 7)"

lemma token_pair_nth [simp]:
  "token_pair own n ! 0 = \<lparr>amount = 0, scriptPubKey = data (sample_token own n)\<rparr>"
  "token_pair own n ! Suc 0 = \<lparr>amount = 1, scriptPubKey = pay own\<rparr>"
  "length (token_pair own n) = 2"
  by (simp_all add: token_pair_def)

lemma sample_data:
  assumes "n \<noteq> 0" "own \<in> {alice, bob}"
  shows "token (data (sample_token own n)) = Some (sample_token own n)"
    "parseLock (data (sample_token own n)) = None"
    "\<exists>b. data (sample_token own n) = hex_encode b"
  using token_data [OF sample_ok [OF assms]] data_not_lock [OF sample_ok [OF assms]]
    data_hex [OF sample_ok [OF assms]] by auto

lemma sample_branch:
  assumes "n \<noteq> 0" "own \<in> {alice, bob}" "vout tx = a @ token_pair own n @ b"
  shows "branch tx (length a + 1) = Some (sample_token own n)"
  by (rule branch_pay [where a = 1]) (use assms in \<open>simp_all add: sample_ok nth_append\<close>)

lemma sample_parent_normal: "normalise_parent sample_parent 1 = Some sample_parent"
proof -
  obtain b c where bc: "data (sample_token alice 7) = hex_encode b" "pay alice = hex_encode c"
    using sample_data(3) [of 7 alice] people_plain(4) [of alice] by auto
  show ?thesis
    by (simp add: normalise_parent_def sample_parent_def token_pair_def lower_script_def bc)
qed

lemma sample_transfer_accepted:
  "validate sample_transfer 50000 (\<lambda>_. Some sample_parent) (\<lambda>_. True) = Inr False"
proof -
  have act: "active 50000 MARKET_HEIGHT" by code_simp
  have hexes: "list_all (\<lambda>u. case unhex (scriptPubKey u) of
      None \<Rightarrow> False | Some b \<Rightarrow> hex b = scriptPubKey u) (vout sample_transfer)"
    using sample_data(3) [of 3 bob] sample_data(3) [of 4 alice] people_plain(4) [of alice] people_plain(4) [of bob]
    by (auto simp: sample_transfer_def token_pair_def)
  have b: "branch sample_parent (Suc 0) = Some (sample_token alice 7)"
    "length (vout sample_parent) = 2" "scriptPubKey (vout sample_parent ! Suc 0) = pay alice"
    using sample_branch [of 7 alice sample_parent "[]" "[]"] by (simp_all add: sample_parent_def)
  have i: "input_loop (\<lambda>_. Some sample_parent) 0 (vin sample_transfer)
      \<lparr>ins = [], types = [], inputTokens = [], inputScripts = [], lockIn = None\<rparr> =
    Inr \<lparr>ins = [(aid sample_asset, 7)], types = [(aid sample_asset, 1)],
         inputTokens = [Some (sample_token alice 7)], inputScripts = [pay alice], lockIn = None\<rparr>"
    using sample_parent_normal people_plain(1) [of alice]
    by (simp add: sample_transfer_def input_step_def count_input_def tally_def add_def type_clash_def b Let_def)
  have ob: "branch sample_transfer (Suc 0) = Some (sample_token bob 3)"
    "branch sample_transfer 3 = Some (sample_token alice 4)"
    using sample_branch [of 3 bob sample_transfer "[]" "token_pair alice 4"]
      sample_branch [of 4 alice sample_transfer "token_pair bob 3" "[]"]
    by (simp_all add: sample_transfer_def)
  have o: "output_loop sample_transfer 50000 False [0..<length (vout sample_transfer)]
      \<lparr>outs = [], out_types = [(aid sample_asset, 1)], locksOut = 0\<rparr> =
    Inr \<lparr>outs = [(aid sample_asset, 7)], out_types = [(aid sample_asset, 1)], locksOut = 0\<rparr>"
    using ob [unfolded numeral_3_eq_3] people_plain [of alice] people_plain [of bob] sample_data [of 3 bob] sample_data [of 4 alice]
    by (simp add: sample_transfer_def upt_rec output_step_def lock_output_def token_pair_def
        tally_def add_def type_clash_def)
  show ?thesis
    using act hexes i o by (simp add: validate_def)
qed

theorem market_conserves_tokens_witness:
  "token_sum (aid sample_asset) (created_tokens sample_transfer) = 7 \<and>
   token_sum (aid sample_asset) (spent_tokens (\<lambda>_. Some sample_parent) 0 (vin sample_transfer)) = 7"
proof -
  have a: "active 50000 MARKET_HEIGHT" by code_simp
  have "token_sum (aid sample_asset) (created_tokens sample_transfer) = 7"
    using people_plain [of alice] people_plain [of bob] sample_data [of 3 bob] sample_data [of 4 alice]
    by (simp add: created_tokens_def sample_transfer_def token_pair_def map_filter_simps)
  then show ?thesis using market_conserves_tokens [OF sample_transfer_accepted a]
    by (auto dest: spec [of _ "aid sample_asset"])
qed

definition sample_terms :: Terms where
  "sample_terms = \<lparr>offered = sample_asset,
     wanted = \<lparr>ty = 0, aid = replicate 16 (CHR ''0''), meta = replicate 64 (CHR ''0'')\<rparr>,
     seller = alice, quantity = 10, price = 3, lot = 5, expiry = 60000\<rparr>"

text \<open>Bob takes one lot of five for three atoms; the other lot is listed again.\<close>

definition sample_fill :: "unit Transaction" where
  "sample_fill = market_tx []
     (token_pair bob 5 @ [\<lparr>amount = 3, scriptPubKey = pay alice\<rparr>] @
      take 1 (token_pair alice 5) @
      [\<lparr>amount = 1, scriptPubKey = script (sample_terms\<lparr>quantity := 5\<rparr>)\<rparr>])"

definition sample_action :: Spend where
  "sample_action = \<lparr>mode = 1, sp_quantity = 5, buyer = bob, signature = [], sp_pubkey = []\<rparr>"

lemma sample_terms_valid:
  assumes "q = 5 \<or> q = 10"
  shows "valid (sample_terms\<lparr>quantity := q\<rparr>)" "lower_terms (sample_terms\<lparr>quantity := q\<rparr>)"
proof -
  have z: "hex_lower (replicate n (CHR ''0''))" for n
    by (simp add: hex_lower_def list_all_iff is_lower_hex_def is_digit_def)
  show "valid (sample_terms\<lparr>quantity := q\<rparr>)"
    using assms by (auto simp: valid_def sample_terms_def sample_asset_def alice_def simp del: replicate.simps)
  show "lower_terms (sample_terms\<lparr>quantity := q\<rparr>)"
    using z by (simp add: lower_terms_def sample_terms_def sample_asset_def alice_def del: replicate.simps)
qed

lemma sample_lock:
  assumes "q = 5 \<or> q = 10"
  shows "parseLock (script (sample_terms\<lparr>quantity := q\<rparr>)) = Some (sample_terms\<lparr>quantity := q\<rparr>)"
    "script (sample_terms\<lparr>quantity := q\<rparr>) \<noteq> ''''" "script (sample_terms\<lparr>quantity := q\<rparr>) \<noteq> pay alice"
proof -
  show p: "parseLock (script (sample_terms\<lparr>quantity := q\<rparr>)) = Some (sample_terms\<lparr>quantity := q\<rparr>)"
    using sample_terms_valid [OF assms] script_lower [OF sample_terms_valid [OF assms]]
    by (simp add: parse_lock_iff)
  have "parseLock '''' = None" by (simp add: parseLock_def)
  then show "script (sample_terms\<lparr>quantity := q\<rparr>) \<noteq> ''''" using p by auto
  show "script (sample_terms\<lparr>quantity := q\<rparr>) \<noteq> pay alice" using p people_plain(1) [of alice] by auto
qed

lemma sample_fill_accepted: "outputs sample_fill sample_terms sample_action 50000 = Some 5"
proof -
  let ?r = "sample_terms\<lparr>quantity := 5\<rparr>"
  have sel: "offered sample_terms = sample_asset" "seller sample_terms = alice" "quantity sample_terms = 10"
    "price sample_terms = 3" "lot sample_terms = 5" "ty (wanted sample_terms) = 0" "expiry sample_terms = 60000"
    by (simp_all add: sample_terms_def)
  have act: "mode sample_action = 1" "sp_quantity sample_action = 5" "buyer sample_action = bob"
    by (simp_all add: sample_action_def)
  have v: "length (vout sample_fill) = 5"
    "vout sample_fill ! 1 = \<lparr>amount = 1, scriptPubKey = pay bob\<rparr>"
    "vout sample_fill ! 2 = \<lparr>amount = 3, scriptPubKey = pay alice\<rparr>"
    "vout sample_fill ! 3 = \<lparr>amount = 0, scriptPubKey = data (sample_token alice 5)\<rparr>"
    "vout sample_fill ! 4 = \<lparr>amount = 1, scriptPubKey = script ?r\<rparr>"
    by (simp_all add: sample_fill_def token_pair_def)
  have b1: "branch sample_fill 1 = Some (sample_token bob 5)"
    using sample_branch [of 5 bob sample_fill "[]" "drop 2 (vout sample_fill)"]
    by (simp add: sample_fill_def)
  have "alice \<in> {alice, bob}" by simp
  then have b4: "branch sample_fill 4 = Some (sample_token alice 5)"
    using sample_data [of 5 alice] sample_lock [of 5] v sel by (simp add: branch_def)
  have p1: "pair sample_fill 0 (sample_token bob 5) ''''"
    using b1 v by (simp add: pair_def)
  have p2: "pair sample_fill 3 (sample_token alice 5) (script ?r)"
    using b4 v sample_lock [of 5] by (simp add: pair_def)
  have "fill_layout sample_fill sample_terms sample_action 50000 = Some 5"
    using p1 p2 v by (simp add: fill_layout_def sel act Let_def sample_token_def)
  then show ?thesis using v by (simp add: outputs_def act change_ok.simps)
qed

theorem market_fill_exact_witness:
  "branch sample_fill 1 = Some \<lparr>asset = sample_asset, owner = bob, tk_amount = 5\<rparr> \<and>
   scriptPubKey (vout sample_fill ! 1) = pay bob \<and> amount (vout sample_fill ! 2) = 3"
proof -
  have p: "parseLock (script sample_terms) = Some sample_terms"
    using sample_lock(1) [of 10] by (simp add: sample_terms_def)
  have m: "mode sample_action = 1" by (simp add: sample_action_def)
  have "amount (vout sample_fill ! 2) = 3" by (simp add: sample_fill_def token_pair_def)
  with market_fill_exact [OF p m sample_fill_accepted] show ?thesis
    by (simp add: sample_action_def sample_terms_def)
qed

end
