(* ===== verification/Vm.thy ===== *)
theory Vm
  imports Signatures Issuance Script_Push State_Limits Lineage
begin

text \<open>
  The machine of \<open>src/src/script_interpreter.cpp\<close>: the execution context, gas, the opcode support
  table, the static resource analysis, the accounted stack and the contract-state context. A
  pointer that may be null is an option. The stack is a list with its top at the head, and so is
  \<open>execStack\<close>; the program counter is the part of the script that is left to read. A function that
  returns \<open>false\<close> or throws is \<open>None\<close>; every caller of the interpreter drops the context then. The
  callbacks of the context are those its constructor installs, over the hash functions and the
  curve of the \<open>crypto\<close> record.
\<close>

subsection \<open>Limits and context\<close>

definition MAX_SCRIPT_BYTES :: nat where "MAX_SCRIPT_BYTES = 10000"
definition MAX_SCRIPT_OPS :: u64 where "MAX_SCRIPT_OPS = 1000"
definition MAX_STACK_ITEMS :: nat where "MAX_STACK_ITEMS = 1000"
definition MAX_STACK_ITEM_BYTES :: nat where "MAX_STACK_ITEM_BYTES = 64 * 1024"
definition MAX_STACK_BYTES :: nat where "MAX_STACK_BYTES = 1 * 1024 * 1024"

lemmas vm_limit_defs =
  MAX_SCRIPT_BYTES_def MAX_SCRIPT_OPS_def MAX_STACK_ITEMS_def MAX_STACK_ITEM_BYTES_def MAX_STACK_BYTES_def

record 'j ScriptExecutionContext =
  blockTime :: u32
  medianTimePast :: u32
  ctx_tx :: "'j Transaction option"
  inputIndex :: nat
  ctx_scriptPubKey :: "bytes option"
  sighash :: bytes
  ctx_sender :: string
  outputIndex :: u64
  state :: "state_map option"
  chainCtx :: bool
  execHeight :: u32
  marketValidated09 :: bool
  gasLimit :: u64
  gasUsed :: u64
  contractAddress :: string
  execStack :: "bool list"

definition new_context :: "u64 \<Rightarrow> 'j Transaction option \<Rightarrow> u32 \<Rightarrow> 'j ScriptExecutionContext" where
  "new_context limit transaction currentBlockTime =
     \<lparr>blockTime = currentBlockTime, medianTimePast = 0, ctx_tx = transaction, inputIndex = 0,
      ctx_scriptPubKey = None, sighash = [], ctx_sender = '''', outputIndex = u64_max, state = None,
      chainCtx = False, execHeight = 0, marketValidated09 = False,
      gasLimit = (if limit = 0 then 1000000 else limit), gasUsed = 0, contractAddress = '''',
      execStack = [True]\<rparr>"

definition isSimulationMode :: "'j ScriptExecutionContext \<Rightarrow> bool" where
  "isSimulationMode c \<longleftrightarrow> ctx_tx c = None"

definition signatureCheckFunc :: "crypto \<Rightarrow> bytes \<Rightarrow> bytes \<Rightarrow> bytes \<Rightarrow> bool" where
  "signatureCheckFunc C pubkey signature message \<longleftrightarrow>
     (if length signature < 2 then False
      else if last signature \<noteq> 0x01 then False
      else if length message \<noteq> 32 then False
      else canonical_signature C pubkey message (butlast signature))"

definition delegateCheckFunc :: "bytes \<Rightarrow> bool" where
  "delegateCheckFunc sig = False"

definition computeHash160 :: "crypto \<Rightarrow> bytes \<Rightarrow> bytes" where
  "computeHash160 C b = RIPEMD160 C (SHA256 C b)"

definition consumeGas :: "u64 \<Rightarrow> 'j ScriptExecutionContext \<Rightarrow> 'j ScriptExecutionContext option" where
  "consumeGas n c =
     (if u64_max - gasUsed c < n then None
      else let newUsed = gasUsed c + n in
        if newUsed > gasLimit c then None else Some (c\<lparr>gasUsed := newUsed\<rparr>))"

subsection \<open>Opcode support and static analysis\<close>

definition supported_opcodes :: "byte list" where
  "supported_opcodes =
    [OP_0, OP_PUSHDATA1, OP_PUSHDATA2, OP_PUSHDATA4,
     OP_1, OP_2, OP_3, OP_4, OP_5, OP_6, OP_7, OP_8, OP_9, OP_10, OP_11, OP_12, OP_13, OP_14,
     OP_15, OP_16,
     OP_NOP, OP_IF, OP_NOTIF, OP_ELSE, OP_ENDIF, OP_VERIFY, OP_RETURN, OP_CHECKLOCKTIMEVERIFY,
     OP_2DUP, OP_DROP, OP_DUP, OP_NIP, OP_OVER, OP_SWAP, OP_CAT, OP_LEFT, OP_SIZE,
     OP_EQUAL, OP_EQUALVERIFY, OP_ADD, OP_MUL, OP_LESSTHAN, OP_GREATERTHAN, OP_LESSTHANOREQUAL,
     OP_GREATERTHANOREQUAL,
     OP_HASH160, OP_HASH256, OP_CHECKSIG, OP_CHECKSIGVERIFY, OP_CHECKMULTISIG,
     OP_CHECKMULTISIGVERIFY,
     OP_BLOCKTIME, OP_EXTERNALDATA, OP_DATAFEED, OP_DELEGATECHECK, OP_CHAINSTATECHECK,
     OP_HASHBLAKE2B, OP_SHA3, OP_STORE, OP_LOAD, OP_CALLER, OP_CONTRACT_ADDR, OP_GAS, OP_HALT,
     OP_REVERT, OP_OUTPUTAMOUNT,
     OP_UPGRADE_NOP1, OP_UPGRADE_NOP2, OP_UPGRADE_NOP3, OP_UPGRADE_NOP4, OP_UPGRADE_NOP5,
     OP_UPGRADE_NOP6, OP_UPGRADE_NOP7, OP_UPGRADE_NOP8]"

definition IsSupportedOpcode :: "byte \<Rightarrow> bool" where
  "IsSupportedOpcode opcode \<longleftrightarrow>
     opcode \<ge> 0x01 \<and> opcode \<le> 0x4b \<or> opcode \<in> set supported_opcodes"

text \<open>
  The operand of a push opcode: \<open>None\<close> for an opcode that pushes nothing, \<open>Some None\<close> for a length
  field that runs off the script, otherwise the length and the script behind the length field.
\<close>

definition push_span :: "byte \<Rightarrow> bytes \<Rightarrow> (nat \<times> bytes) option option" where
  "push_span opcode pc =
     (if opcode > OP_0 \<and> opcode \<le> 0x4b then Some (Some (unat opcode, pc))
      else if opcode = OP_PUSHDATA1 then Some (take_field 1 pc)
      else if opcode = OP_PUSHDATA2 then Some (take_field 2 pc)
      else if opcode = OP_PUSHDATA4 then Some (take_field 4 pc)
      else None)"

lemma push_span_length: "push_span op pc = Some (Some (n, pc')) \<Longrightarrow> length pc' \<le> length pc"
  by (auto simp: push_span_def dest: take_field_length split: if_splits)

record ScriptResourceMetrics =
  opCount :: u64
  sigOpCost :: u64

definition count_opcode :: "u32 \<Rightarrow> byte \<Rightarrow> ScriptResourceMetrics \<Rightarrow> ScriptResourceMetrics option" where
  "count_opcode h opcode m =
     (if \<not> IsSupportedOpcode opcode then None
      else if opCount m \<ge> MAX_SCRIPT_OPS then None
      else
        let m1 = m\<lparr>opCount := opCount m + 1\<rparr>;
            c1 = (if opcode = OP_CHECKSIG \<or> opcode = OP_CHECKSIGVERIFY then 1
                  else if opcode = OP_CHECKMULTISIG \<or> opcode = OP_CHECKMULTISIGVERIFY then 20 else 0);
            c2 = (if opcode = OP_CHECKWOTSVERIFY \<and> active h WOTS_HEIGHT then WOTS_SIGOPS else c1);
            sigCost = (if opcode = OP_MARKETVERIFY \<and> active h MARKET_HEIGHT then MARKET_SIGOPS else c2)
        in if sigCost > u64_max - sigOpCost m1 then None
           else Some (m1\<lparr>sigOpCost := sigOpCost m1 + sigCost\<rparr>))"

function analyze_loop :: "u32 \<Rightarrow> ScriptResourceMetrics \<Rightarrow> bytes \<Rightarrow> ScriptResourceMetrics option" where
  "analyze_loop h m script =
     (case script of
        [] \<Rightarrow> Some m
      | opcode # pc \<Rightarrow>
          (case push_span opcode pc of
             Some None \<Rightarrow> None
           | Some (Some (pushLen, pc')) \<Rightarrow>
               if pushLen > length pc' then None else analyze_loop h m (drop pushLen pc')
           | None \<Rightarrow>
               (case count_opcode h opcode m of
                  None \<Rightarrow> None | Some m' \<Rightarrow> analyze_loop h m' pc)))"
  by pat_completeness auto
termination
  by (relation "measure (\<lambda>(h, m, script). length script)") (auto dest!: push_span_length)

declare analyze_loop.simps [simp del]

lemma analyze_loop_Nil [simp]: "analyze_loop h m [] = Some m"
  by (simp add: analyze_loop.simps [of h m "[]"])

lemma analyze_loop_Cons:
  "analyze_loop h m (opcode # pc) =
     (case push_span opcode pc of
        Some None \<Rightarrow> None
      | Some (Some (n, pc')) \<Rightarrow> if n > length pc' then None else analyze_loop h m (drop n pc')
      | None \<Rightarrow> (case count_opcode h opcode m of None \<Rightarrow> None | Some m' \<Rightarrow> analyze_loop h m' pc))"
  by (simp add: analyze_loop.simps [of h m "opcode # pc"])

definition AnalyzeScriptResources :: "u32 \<Rightarrow> bytes \<Rightarrow> ScriptResourceMetrics option" where
  "AnalyzeScriptResources h script =
     (if length script > MAX_SCRIPT_BYTES then None
      else analyze_loop h \<lparr>opCount = 0, sigOpCost = 0\<rparr> script)"

subsection \<open>The accounted stack\<close>

record 'j vm =
  stack :: "bytes list"
  stackBytes :: nat
  ctx :: "'j ScriptExecutionContext"

text \<open>The scan of the inherited stack goes from its bottom to its top.\<close>

fun measure_items :: "nat \<Rightarrow> bytes list \<Rightarrow> nat option" where
  "measure_items tot [] = Some tot"
| "measure_items tot (item # rest) =
     (if length item > MAX_STACK_ITEM_BYTES then None
      else if length item > MAX_STACK_BYTES - tot then None
      else measure_items (tot + length item) rest)"

definition measureInitialStackBytes :: "bytes list \<Rightarrow> nat option" where
  "measureInitialStackBytes s =
     (if length s > MAX_STACK_ITEMS then None else measure_items 0 (rev s))"

definition gas :: "u64 \<Rightarrow> 'j vm \<Rightarrow> 'j vm option" where
  "gas n v = (case consumeGas n (ctx v) of None \<Rightarrow> None | Some c \<Rightarrow> Some (v\<lparr>ctx := c\<rparr>))"

definition pushStack :: "bytes \<Rightarrow> 'j vm \<Rightarrow> 'j vm option" where
  "pushStack item v =
     (if length item > MAX_STACK_ITEM_BYTES then None
      else if length (stack v) \<ge> MAX_STACK_ITEMS then None
      else if length item > MAX_STACK_BYTES - stackBytes v then None
      else Some (v\<lparr>stackBytes := stackBytes v + length item, stack := item # stack v\<rparr>))"

definition popStack :: "'j vm \<Rightarrow> (bytes \<times> 'j vm) option" where
  "popStack v =
     (case stack v of
        [] \<Rightarrow> None
      | item # rest \<Rightarrow> Some (item, v\<lparr>stackBytes := stackBytes v - length item, stack := rest\<rparr>))"

definition dropStack :: "'j vm \<Rightarrow> 'j vm option" where
  "dropStack v =
     (case stack v of
        [] \<Rightarrow> None
      | item # rest \<Rightarrow> Some (v\<lparr>stackBytes := stackBytes v - length item, stack := rest\<rparr>))"

definition replaceTop :: "bytes \<Rightarrow> 'j vm \<Rightarrow> 'j vm option" where
  "replaceTop item v =
     (case stack v of
        [] \<Rightarrow> None
      | old # rest \<Rightarrow>
          if length item > MAX_STACK_ITEM_BYTES then None
          else let withoutOld = stackBytes v - length old in
            if length item > MAX_STACK_BYTES - withoutOld then None
            else Some (v\<lparr>stackBytes := withoutOld + length item, stack := item # rest\<rparr>))"

text \<open>The index counts from the bottom of the stack.\<close>

definition eraseStackIndex :: "nat \<Rightarrow> 'j vm \<Rightarrow> 'j vm option" where
  "eraseStackIndex index v =
     (if index \<ge> length (stack v) then None
      else let k = length (stack v) - 1 - index in
        Some (v\<lparr>stackBytes := stackBytes v - length (stack v ! k),
                stack := take k (stack v) @ drop (k + 1) (stack v)\<rparr>))"

definition truth :: "bytes \<Rightarrow> bool" where
  "truth item \<longleftrightarrow> item \<noteq> [] \<and> item ! 0 \<noteq> 0"

definition bool_item :: "bool \<Rightarrow> bytes" where
  "bool_item b = [if b then 1 else 0]"

subsection \<open>Contract state\<close>

definition hasContractStateContext :: "'j ScriptExecutionContext \<Rightarrow> bool" where
  "hasContractStateContext c \<longleftrightarrow> state c \<noteq> None \<and> IsCanonicalContractOutpoint (contractAddress c)"

subsection \<open>Numbers\<close>

definition u64le :: "u64 \<Rightarrow> bytes" where "u64le v = le_bytes 8 v"

definition decodeU64LE :: "bytes \<Rightarrow> u64 option" where
  "decodeU64LE b = (if length b > 8 then None else Some (le_val b))"

end
