(* ===== verification/Vm_Ops.thy ===== *)
theory Vm_Ops
  imports Vm Wots Market
begin

text \<open>
  The opcode handlers of \<open>EvaluateScript\<close>, one definition per handler, the dispatch, the main loop
  and \<open>VerifyScripts\<close>.
\<close>

subsection \<open>Conditionals\<close>

definition executing :: "'j vm \<Rightarrow> bool" where
  "executing v \<longleftrightarrow> execStack (ctx v) \<noteq> [] \<and> hd (execStack (ctx v))"

definition set_branches :: "bool list \<Rightarrow> 'j vm \<Rightarrow> 'j vm" where
  "set_branches e v = v\<lparr>ctx := (ctx v)\<lparr>execStack := e\<rparr>\<rparr>"

definition op_if :: "'j vm \<Rightarrow> 'j vm option" where
  "op_if v =
     (if \<not> executing v then gas 5 (set_branches (False # execStack (ctx v)) v)
      else if stack v = [] then None
      else do { (condition, v1) \<leftarrow> popStack v;
                gas 5 (set_branches (truth condition # execStack (ctx v1)) v1) })"

definition op_notif :: "'j vm \<Rightarrow> 'j vm option" where
  "op_notif v =
     (if \<not> executing v then gas 5 (set_branches (False # execStack (ctx v)) v)
      else if stack v = [] then None
      else do { (condition, v1) \<leftarrow> popStack v;
                gas 5 (set_branches ((condition = [] \<or> condition ! 0 = 0) # execStack (ctx v1)) v1) })"

definition op_else :: "'j vm \<Rightarrow> 'j vm option" where
  "op_else v =
     (case execStack (ctx v) of
        inner # parentExecute # outer \<Rightarrow>
          gas 5 (set_branches ((parentExecute \<and> \<not> inner) # parentExecute # outer) v)
      | _ \<Rightarrow> None)"

definition op_endif :: "'j vm \<Rightarrow> 'j vm option" where
  "op_endif v =
     (if length (execStack (ctx v)) < 2 then None
      else gas 5 (set_branches (tl (execStack (ctx v))) v))"

subsection \<open>Stack\<close>

definition op_dup :: "'j vm \<Rightarrow> 'j vm option" where
  "op_dup v =
     (case stack v of
        [] \<Rightarrow> if isSimulationMode (ctx v) then do { v1 \<leftarrow> pushStack [0] v; gas 2 v1 } else None
      | item # _ \<Rightarrow> do { v1 \<leftarrow> pushStack item v; gas 2 v1 })"

definition op_0 :: "'j vm \<Rightarrow> 'j vm option" where
  "op_0 v = do { v1 \<leftarrow> pushStack [] v; gas 1 v1 }"

definition op_small_int :: "byte \<Rightarrow> 'j vm \<Rightarrow> 'j vm option" where
  "op_small_int opcode v = do { v1 \<leftarrow> pushStack [opcode - OP_1 + 1] v; gas 1 v1 }"

definition op_drop :: "'j vm \<Rightarrow> 'j vm option" where
  "op_drop v = (if stack v = [] then None else do { v1 \<leftarrow> dropStack v; gas 1 v1 })"

definition op_over :: "'j vm \<Rightarrow> 'j vm option" where
  "op_over v =
     (if length (stack v) < 2 then None
      else do { v1 \<leftarrow> pushStack (stack v ! 1) v; gas 2 v1 })"

definition op_nip :: "'j vm \<Rightarrow> 'j vm option" where
  "op_nip v =
     (if length (stack v) < 2 then None
      else do { v1 \<leftarrow> eraseStackIndex (length (stack v) - 2) v; gas 1 v1 })"

definition op_swap :: "'j vm \<Rightarrow> 'j vm option" where
  "op_swap v =
     (case stack v of
        first # second # rest \<Rightarrow> gas 1 (v\<lparr>stack := second # first # rest\<rparr>)
      | _ \<Rightarrow> None)"

definition op_2dup :: "'j vm \<Rightarrow> 'j vm option" where
  "op_2dup v =
     (if length (stack v) < 2 then None
      else if length (stack v) > MAX_STACK_ITEMS - 2 then None
      else
        let first = stack v ! 0; second = stack v ! 1 in
        if length second > MAX_STACK_BYTES - stackBytes v then None
        else let afterSecondBytes = stackBytes v + length second in
          if length first > MAX_STACK_BYTES - afterSecondBytes then None
          else do { v1 \<leftarrow> pushStack second v; v2 \<leftarrow> pushStack first v1; gas 2 v2 })"

definition op_size :: "'j vm \<Rightarrow> 'j vm option" where
  "op_size v =
     (case stack v of
        [] \<Rightarrow> None
      | item # _ \<Rightarrow>
          do { v1 \<leftarrow> pushStack (sizeValue (word_of_nat (length item)) (execHeight (ctx v))) v; gas 1 v1 })"

definition op_cat :: "'j vm \<Rightarrow> 'j vm option" where
  "op_cat v =
     (if length (stack v) < 2 then None
      else
        let lhsSize = length (stack v ! 1); rhsSize = length (stack v ! 0) in
        if lhsSize > MAX_STACK_ITEM_BYTES \<or> rhsSize > MAX_STACK_ITEM_BYTES - lhsSize then None
        else do { (rhs, v1) \<leftarrow> popStack v;
                  (lhs, v2) \<leftarrow> popStack v1;
                  v3 \<leftarrow> pushStack (lhs @ rhs) v2;
                  gas (5 + word_of_nat (lhsSize + rhsSize)) v3 })"

text \<open>The size operand is a signed 32-bit \<open>int\<close>; operands longer than four bytes read as zero.\<close>

definition left_size :: "bytes \<Rightarrow> int" where
  "left_size b =
     (if length b = 1 then uint (b ! 0)
      else if length b \<le> 4 then sint (le_val b :: u32) else 0)"

definition op_left :: "'j vm \<Rightarrow> 'j vm option" where
  "op_left v =
     (if length (stack v) < 2 then None
      else do { (size_data, v1) \<leftarrow> popStack v;
                (data, v2) \<leftarrow> popStack v1;
                let size = left_size size_data in
                if size > 0 \<and> size \<le> int (length data)
                then do { v3 \<leftarrow> pushStack (take (nat size) data) v2; gas 1 v3 }
                else None })"

subsection \<open>Arithmetic and comparison\<close>

text \<open>The operands of a binary operation: right-hand side on top.\<close>

definition pop_operands :: "'j vm \<Rightarrow> ((u64 \<times> u64) \<times> 'j vm) option" where
  "pop_operands v =
     (if length (stack v) < 2 then None
      else do { (rhsBytes, v1) \<leftarrow> popStack v;
                (lhsBytes, v2) \<leftarrow> popStack v1;
                lhs \<leftarrow> decodeU64LE lhsBytes;
                rhs \<leftarrow> decodeU64LE rhsBytes;
                Some ((lhs, rhs), v2) })"

definition op_add :: "'j vm \<Rightarrow> 'j vm option" where
  "op_add v = do {
     ((lhs, rhs), v1) \<leftarrow> pop_operands v;
     if rhs > u64_max - lhs then None
     else do { v2 \<leftarrow> pushStack (u64le (lhs + rhs)) v1; gas 5 v2 } }"

definition op_mul :: "'j vm \<Rightarrow> 'j vm option" where
  "op_mul v = do {
     ((lhs, rhs), v1) \<leftarrow> pop_operands v;
     if lhs \<noteq> 0 \<and> rhs > u64_max div lhs then None
     else do { v2 \<leftarrow> pushStack (u64le (lhs * rhs)) v1; gas 10 v2 } }"

definition op_lessthan :: "'j vm \<Rightarrow> 'j vm option" where
  "op_lessthan v = do {
     ((lhs, rhs), v1) \<leftarrow> pop_operands v;
     v2 \<leftarrow> pushStack (bool_item (lhs < rhs)) v1; gas 5 v2 }"

definition op_greaterthan :: "'j vm \<Rightarrow> 'j vm option" where
  "op_greaterthan v = do {
     ((lhs, rhs), v1) \<leftarrow> pop_operands v;
     v2 \<leftarrow> pushStack (bool_item (lhs > rhs)) v1; gas 5 v2 }"

definition op_inclusive :: "byte \<Rightarrow> 'j vm \<Rightarrow> 'j vm option" where
  "op_inclusive opcode v = do {
     ((lhs, rhs), v1) \<leftarrow> pop_operands v;
     v2 \<leftarrow> pushStack (bool_item (if opcode = OP_LESSTHANOREQUAL then lhs \<le> rhs else lhs \<ge> rhs)) v1;
     gas 5 v2 }"

definition op_verify :: "'j vm \<Rightarrow> 'j vm option" where
  "op_verify v =
     (if stack v = [] then None
      else do { (item, v1) \<leftarrow> popStack v; if \<not> truth item then None else gas 5 v1 })"

definition op_equal :: "'j vm \<Rightarrow> 'j vm option" where
  "op_equal v =
     (if length (stack v) < 2 then None
      else do { (a, v1) \<leftarrow> popStack v; (b, v2) \<leftarrow> popStack v1;
                v3 \<leftarrow> pushStack (bool_item (a = b)) v2; gas 5 v3 })"

definition op_equalverify :: "'j vm \<Rightarrow> 'j vm option" where
  "op_equalverify v =
     (if length (stack v) < 2 then None
      else do { (a, v1) \<leftarrow> popStack v; (b, v2) \<leftarrow> popStack v1;
                if a \<noteq> b then None else gas 5 v2 })"

subsection \<open>Time lock\<close>

definition op_checklocktimeverify :: "'j vm \<Rightarrow> 'j vm option" where
  "op_checklocktimeverify v =
     (case stack v of
        [] \<Rightarrow> None
      | locktimeBytes # _ \<Rightarrow>
          if length locktimeBytes \<noteq> 4 then None
          else
            let required = (le_val locktimeBytes :: u32) in
            case ctx_tx (ctx v) of
              None \<Rightarrow> None
            | Some tx \<Rightarrow>
                if required < 500000000 then None
                else if medianTimePast (ctx v) < required then None
                else if Transaction.lockTime tx < required then None
                else if inputIndex (ctx v) \<ge> length (vin tx) then None
                else if sequence (vin tx ! inputIndex (ctx v)) = 0xffffffff then None
                else gas 10 v)"

subsection \<open>Signatures\<close>

definition op_checksig :: "crypto \<Rightarrow> 'j vm \<Rightarrow> 'j vm option" where
  "op_checksig C v =
     (if length (stack v) < 2 then None
      else if isSimulationMode (ctx v)
      then do { v1 \<leftarrow> dropStack v; v2 \<leftarrow> dropStack v1; pushStack [1] v2 }
      else if ctx_scriptPubKey (ctx v) = None then None
      else do { (pubkey, v1) \<leftarrow> popStack v;
                (signature, v2) \<leftarrow> popStack v1;
                v3 \<leftarrow> pushStack (bool_item (signatureCheckFunc C pubkey signature (sighash (ctx v)))) v2;
                gas 100 v3 })"

definition op_checksigverify :: "crypto \<Rightarrow> 'j vm \<Rightarrow> 'j vm option" where
  "op_checksigverify C v =
     (if length (stack v) < 2 then None
      else if isSimulationMode (ctx v)
      then do { v1 \<leftarrow> dropStack v; v2 \<leftarrow> dropStack v1; gas 100 v2 }
      else if ctx_scriptPubKey (ctx v) = None then None
      else do { (pubkey, v1) \<leftarrow> popStack v;
                (signature, v2) \<leftarrow> popStack v1;
                v3 \<leftarrow> gas 100 v2;
                if \<not> signatureCheckFunc C pubkey signature (sighash (ctx v)) then None else Some v3 })"

text \<open>A count is the first eight bytes of an item as a signed 64-bit \<open>long\<close>.\<close>

definition popCount :: "'j vm \<Rightarrow> (int \<times> 'j vm) option" where
  "popCount v =
     (if stack v = [] then None
      else do { (b, v1) \<leftarrow> popStack v; Some (sint (le_val (take 8 b) :: u64), v1) })"

text \<open>\<open>pop_items n\<close> pops n items and restores their stack order, deepest first.\<close>

primrec pop_items :: "nat \<Rightarrow> bytes list \<Rightarrow> 'j vm \<Rightarrow> (bytes list \<times> 'j vm) option" where
  "pop_items 0 acc v = Some (acc, v)"
| "pop_items (Suc n) acc v = do { (item, v1) \<leftarrow> popStack v; pop_items n (item # acc) v1 }"

fun match_key :: "(bytes \<Rightarrow> bytes \<Rightarrow> bool) \<Rightarrow> bytes list \<Rightarrow> bytes \<Rightarrow> bytes list option" where
  "match_key check [] s = None"
| "match_key check (p # ps) s = (if check p s then Some ps else match_key check ps s)"

fun match_count :: "(bytes \<Rightarrow> bytes \<Rightarrow> bool) \<Rightarrow> bytes list \<Rightarrow> bytes list \<Rightarrow> nat" where
  "match_count check ps [] = 0"
| "match_count check ps (s # ss) =
     (case match_key check ps s of None \<Rightarrow> 0 | Some ps' \<Rightarrow> Suc (match_count check ps' ss))"

text \<open>The operands, and Bitcoin's historical extra element below them.\<close>

definition pop_counted :: "int \<Rightarrow> 'j vm \<Rightarrow> ((int \<times> bytes list) \<times> 'j vm) option" where
  "pop_counted limit v = do {
     (n, v1) \<leftarrow> popCount v;
     if n < 0 \<or> n > limit then None
     else if int (length (stack v1)) < n then None
     else do { (xs, v2) \<leftarrow> pop_items (nat n) [] v1; Some ((n, xs), v2) } }"

definition multisig_result ::
    "crypto \<Rightarrow> byte \<Rightarrow> int \<Rightarrow> bytes list \<Rightarrow> int \<Rightarrow> bytes list \<Rightarrow> 'j vm \<Rightarrow> 'j vm option" where
  "multisig_result C opcode n pks m sigs v =
     (let c = ctx v;
          sim = isSimulationMode c;
          ok = (if sim then True
                else int (match_count (\<lambda>p s. signatureCheckFunc C p s (sighash c)) pks sigs) = m)
      in do {
        v1 \<leftarrow> (if stack v \<noteq> [] then dropStack v else Some v);
        v2 \<leftarrow> gas (100 * (if n > 0 then word_of_int n else 1)) v1;
        if \<not> sim \<and> ctx_scriptPubKey c = None then None
        else if opcode = OP_CHECKMULTISIGVERIFY then (if ok then Some v2 else None)
        else pushStack (bool_item ok) v2 })"

definition op_checkmultisig :: "crypto \<Rightarrow> byte \<Rightarrow> 'j vm \<Rightarrow> 'j vm option" where
  "op_checkmultisig C opcode v = do {
     ((n, pks), v1) \<leftarrow> pop_counted 20 v;
     ((m, sigs), v2) \<leftarrow> pop_counted n v1;
     multisig_result C opcode n pks m sigs v2 }"

subsection \<open>Contract state and context\<close>

definition op_store :: "'j vm \<Rightarrow> 'j vm option" where
  "op_store v =
     (if length (stack v) < 2 then None
      else if \<not> hasContractStateContext (ctx v) then None
      else do { (val, v1) \<leftarrow> popStack v;
                (key, v2) \<leftarrow> popStack v1;
                st \<leftarrow> state (ctx v);
                let keyStr = string_of_bytes key in
                if CanApplyStateWrite st keyStr val = None then None
                else do { storeGas \<leftarrow> ComputeStoreGas (length key) (length val);
                          v3 \<leftarrow> gas storeGas v2;
                          Some (v3\<lparr>ctx := (ctx v3)\<lparr>state := Some (AList.update keyStr val st)\<rparr>\<rparr>) } })"

definition op_load :: "'j vm \<Rightarrow> 'j vm option" where
  "op_load v =
     (if stack v = [] then None
      else if \<not> hasContractStateContext (ctx v) then None
      else do { (key, v1) \<leftarrow> popStack v;
                st \<leftarrow> state (ctx v);
                let keyStr = string_of_bytes key in
                if \<not> IsLogicalKeyAllowed keyStr then None
                else do { v2 \<leftarrow> pushStack (case map_of st keyStr of Some w \<Rightarrow> w | None \<Rightarrow> []) v1;
                          gas (20 + word_of_nat (length key)) v2 } })"

definition op_caller :: "'j vm \<Rightarrow> 'j vm option" where
  "op_caller v =
     (if ctx_sender (ctx v) = '''' then None
      else do { v1 \<leftarrow> pushStack (bytes_of_string (ctx_sender (ctx v))) v; gas 10 v1 })"

definition op_contract_addr :: "'j vm \<Rightarrow> 'j vm option" where
  "op_contract_addr v =
     (if contractAddress (ctx v) = '''' then None
      else do { v1 \<leftarrow> pushStack (bytes_of_string (contractAddress (ctx v))) v; gas 10 v1 })"

definition op_gas :: "'j vm \<Rightarrow> 'j vm option" where
  "op_gas v = do { v1 \<leftarrow> pushStack (u64le (gasLimit (ctx v) - gasUsed (ctx v))) v; gas 5 v1 }"

definition op_outputamount :: "'j vm \<Rightarrow> 'j vm option" where
  "op_outputamount v =
     (case ctx_tx (ctx v) of
        None \<Rightarrow> None
      | Some tx \<Rightarrow>
          if outputIndex (ctx v) = u64_max \<or> unat (outputIndex (ctx v)) \<ge> length (vout tx) then None
          else do { v1 \<leftarrow> pushStack (u64le (amount (vout tx ! unat (outputIndex (ctx v))))) v; gas 5 v1 })"

definition op_blocktime :: "'j vm \<Rightarrow> 'j vm option" where
  "op_blocktime v = do { v1 \<leftarrow> pushStack (le_bytes 4 (blockTime (ctx v))) v; gas 5 v1 }"

definition op_datafeed :: "'j vm \<Rightarrow> 'j vm option" where
  "op_datafeed v =
     (if stack v = [] then None
      else do { (key, v1) \<leftarrow> popStack v;
                let data = oracleFeedDeterministic (chainCtx (ctx v)) (execHeight (ctx v)) (string_of_bytes key) in
                if data = [] \<or> length data \<noteq> 8 then None
                else do { v2 \<leftarrow> pushStack data v1; gas 50 v2 } })"

definition op_delegatecheck :: "'j vm \<Rightarrow> 'j vm option" where
  "op_delegatecheck v =
     (if stack v = [] then None
      else do { (sig, v1) \<leftarrow> popStack v;
                v2 \<leftarrow> pushStack (bool_item (delegateCheckFunc sig)) v1; gas 50 v2 })"

definition op_chainstatecheck :: "'j vm \<Rightarrow> 'j vm option" where
  "op_chainstatecheck v =
     (if stack v = [] then None
      else do { (key, v1) \<leftarrow> popStack v;
                let val = chainStateDeterministic (chainCtx (ctx v)) (execHeight (ctx v)) (string_of_bytes key) in
                if val = [] then None
                else do { v2 \<leftarrow> pushStack val v1; gas 20 v2 } })"

subsection \<open>Hashes\<close>

definition op_blake2b :: "crypto \<Rightarrow> 'j vm \<Rightarrow> 'j vm option" where
  "op_blake2b C v =
     (if stack v = [] then None
      else do { (item, v1) \<leftarrow> popStack v; v2 \<leftarrow> pushStack (BLAKE2b C item) v1; gas 20 v2 })"

definition op_hash160 :: "crypto \<Rightarrow> 'j vm \<Rightarrow> 'j vm option" where
  "op_hash160 C v =
     (case stack v of
        [] \<Rightarrow> None
      | item # _ \<Rightarrow> do { v1 \<leftarrow> replaceTop (computeHash160 C item) v; gas 15 v1 })"

definition op_sha3 :: "crypto \<Rightarrow> 'j vm \<Rightarrow> 'j vm option" where
  "op_sha3 C v =
     (if stack v = [] then None
      else do { (item, v1) \<leftarrow> popStack v;
                let out = SHA3_256 C item in
                if out = [] then None
                else do { v2 \<leftarrow> pushStack out v1; gas (20 + word_of_nat (length item) div 10) v2 } })"

definition op_hash256 :: "crypto \<Rightarrow> 'j vm \<Rightarrow> 'j vm option" where
  "op_hash256 C v =
     (if stack v = [] then None
      else do { (item, v1) \<leftarrow> popStack v;
                v2 \<leftarrow> pushStack (SHA256 C (SHA256 C item)) v1; gas 100 v2 })"

subsection \<open>Activated upgrade opcodes\<close>

definition op_wots :: "crypto \<Rightarrow> 'j vm \<Rightarrow> 'j vm option" where
  "op_wots C v =
     (if \<not> active (execHeight (ctx v)) WOTS_HEIGHT then gas 1 v
      else if ctx_tx (ctx v) = None \<or> length (sighash (ctx v)) \<noteq> 32 \<or> length (stack v) < 4 then None
      else do { v0 \<leftarrow> gas WOTS_GAS v;
                (rt, v1) \<leftarrow> popStack v0;
                (seed, v2) \<leftarrow> popStack v1;
                (ver, v3) \<leftarrow> popStack v2;
                (sig, v4) \<leftarrow> popStack v3;
                if \<not> verify_wots C sig ver seed rt (sighash (ctx v)) then None else Some v4 })"

definition refund_authorised :: "crypto \<Rightarrow> 'j ScriptExecutionContext \<Rightarrow> Terms \<Rightarrow> Spend \<Rightarrow> bool" where
  "refund_authorised C c terms action \<longleftrightarrow>
     (if hex (RIPEMD160 C (SHA256 C (sp_pubkey action))) \<noteq> seller terms \<or>
         length (sighash c) \<noteq> 32 \<or> last (signature action) \<noteq> 1 then False
      else canonical_signature C (sp_pubkey action) (sighash c) (butlast (signature action)))"

definition op_market :: "crypto \<Rightarrow> bytes \<Rightarrow> 'j vm \<Rightarrow> 'j vm option" where
  "op_market C scr v =
     (if \<not> active (execHeight (ctx v)) MARKET_HEIGHT then gas 1 v
      else case ctx_tx (ctx v) of
        None \<Rightarrow> None
      | Some tx \<Rightarrow>
          if \<not> marketValidated09 (ctx v) \<or> inputIndex (ctx v) \<noteq> 0 \<or>
             ctx_scriptPubKey (ctx v) \<noteq> Some scr \<or> length (stack v) \<noteq> 4 then None
          else do {
            v0 \<leftarrow> gas MARKET_GAS v;
            terms \<leftarrow> parseLock (hex scr);
            action \<leftarrow> spend (scriptSig (vin tx ! 0));
            _ \<leftarrow> outputs tx terms action (execHeight (ctx v));
            if mode action = 2 \<and> \<not> refund_authorised C (ctx v) terms action then None
            else do { v1 \<leftarrow> dropStack v0; v2 \<leftarrow> dropStack v1; v3 \<leftarrow> dropStack v2; dropStack v3 } })"

subsection \<open>Dispatch\<close>

text \<open>
  The switch of \<open>EvaluateScript\<close>, in source order. The opcodes that fail on sight (\<open>OP_REVERT\<close>,
  \<open>OP_EXTERNALDATA\<close>, the legacy bridge, \<open>OP_MINT_TOKEN\<close>, \<open>OP_1NEGATE\<close>, \<open>OP_RESERVED\<close>) share the last
  branch with the unsupported bytes.
\<close>

definition exec_op :: "crypto \<Rightarrow> bytes \<Rightarrow> byte \<Rightarrow> 'j vm \<Rightarrow> 'j vm option" where
  "exec_op C scr opcode =
     (if opcode = OP_DUP then op_dup
      else if opcode = OP_0 then op_0
      else if OP_1 \<le> opcode \<and> opcode \<le> OP_16 then op_small_int opcode
      else if opcode = OP_NOP then Some
      else if opcode = OP_CHECKLOCKTIMEVERIFY then op_checklocktimeverify
      else if opcode = OP_DROP then op_drop
      else if opcode = OP_OVER then op_over
      else if opcode = OP_ADD then op_add
      else if opcode = OP_MUL then op_mul
      else if opcode = OP_LESSTHAN then op_lessthan
      else if opcode = OP_GREATERTHAN then op_greaterthan
      else if opcode = OP_LESSTHANOREQUAL \<or> opcode = OP_GREATERTHANOREQUAL then op_inclusive opcode
      else if opcode = OP_VERIFY then op_verify
      else if opcode = OP_EQUAL then op_equal
      else if opcode = OP_EQUALVERIFY then op_equalverify
      else if opcode = OP_CHECKSIG then op_checksig C
      else if opcode = OP_CHECKSIGVERIFY then op_checksigverify C
      else if opcode = OP_CHECKMULTISIG \<or> opcode = OP_CHECKMULTISIGVERIFY then op_checkmultisig C opcode
      else if opcode = OP_STORE then op_store
      else if opcode = OP_LOAD then op_load
      else if opcode = OP_CALLER then op_caller
      else if opcode = OP_CONTRACT_ADDR then op_contract_addr
      else if opcode = OP_GAS then op_gas
      else if opcode = OP_OUTPUTAMOUNT then op_outputamount
      else if opcode = OP_BLOCKTIME then op_blocktime
      else if opcode = OP_DATAFEED then op_datafeed
      else if opcode = OP_DELEGATECHECK then op_delegatecheck
      else if opcode = OP_CHAINSTATECHECK then op_chainstatecheck
      else if opcode = OP_HASHBLAKE2B then op_blake2b C
      else if opcode = OP_HASH160 then op_hash160 C
      else if opcode = OP_SHA3 then op_sha3 C
      else if opcode = OP_UPGRADE_NOP1 then op_wots C
      else if opcode = OP_UPGRADE_NOP2 then op_market C scr
      else if OP_UPGRADE_NOP3 \<le> opcode \<and> opcode \<le> OP_UPGRADE_NOP8 then gas 1
      else if opcode = OP_SIZE then op_size
      else if opcode = OP_NIP then op_nip
      else if opcode = OP_HASH256 then op_hash256 C
      else if opcode = OP_CAT then op_cat
      else if opcode = OP_LEFT then op_left
      else if opcode = OP_SWAP then op_swap
      else if opcode = OP_2DUP then op_2dup
      else (\<lambda>v. None))"

definition exec_branch :: "byte \<Rightarrow> 'j vm \<Rightarrow> 'j vm option" where
  "exec_branch opcode =
     (if opcode = OP_IF then op_if
      else if opcode = OP_NOTIF then op_notif
      else if opcode = OP_ELSE then op_else
      else op_endif)"

subsection \<open>The main loop\<close>

text \<open>What one turn of the loop does: go on with the rest of the script, or end it with success.\<close>

datatype 'j outcome = Next bytes "'j vm" | Done "'j vm"

definition exec_push :: "nat \<Rightarrow> bytes \<Rightarrow> 'j vm \<Rightarrow> 'j outcome option" where
  "exec_push pushLen pc v =
     (if pushLen > length pc then None
      else do { v1 \<leftarrow> pushStack (take pushLen pc) v;
                v2 \<leftarrow> gas (word_of_nat pushLen) v1;
                Some (Next (drop pushLen pc) v2) })"

text \<open>In a dead branch the data of a push is stepped over, and nothing else happens.\<close>

definition skip_dead :: "byte \<Rightarrow> bytes \<Rightarrow> 'j vm \<Rightarrow> 'j outcome option" where
  "skip_dead opcode pc v =
     (case push_span opcode pc of
        Some None \<Rightarrow> None
      | Some (Some (pushLen, pc1)) \<Rightarrow>
          if pushLen > length pc1 then None else Some (Next (drop pushLen pc1) v)
      | None \<Rightarrow> Some (Next pc v))"

definition step :: "crypto \<Rightarrow> bytes \<Rightarrow> byte \<Rightarrow> bytes \<Rightarrow> 'j vm \<Rightarrow> 'j outcome option" where
  "step C scr opcode pc v0 =
     (case gas 1 v0 of
        None \<Rightarrow> None
      | Some v \<Rightarrow>
          if opcode \<in> {OP_IF, OP_NOTIF, OP_ELSE, OP_ENDIF} then map_option (Next pc) (exec_branch opcode v)
          else if executing v then
            (case push_span opcode pc of
               Some None \<Rightarrow> None
             | Some (Some (pushLen, pc1)) \<Rightarrow> exec_push pushLen pc1 v
             | None \<Rightarrow>
                 if opcode = OP_RETURN \<or> opcode = OP_HALT then Some (Done v)
                 else map_option (Next pc) (exec_op C scr opcode v))
          else skip_dead opcode pc v)"

lemmas step_defs = step_def exec_push_def skip_dead_def

lemma step_shrinks: "step C scr opcode pc v = Some (Next pc' v') \<Longrightarrow> length pc' \<le> length pc"
  by (auto simp: step_defs bind_eq_Some_conv dest!: push_span_length split: option.splits if_splits)

function eval_loop :: "crypto \<Rightarrow> bytes \<Rightarrow> bytes \<Rightarrow> 'j vm \<Rightarrow> 'j vm option" where
  "eval_loop C scr pc v =
     (case pc of
        [] \<Rightarrow> if length (execStack (ctx v)) \<noteq> 1 then None else Some v
      | opcode # pc1 \<Rightarrow>
          (case step C scr opcode pc1 v of
             None \<Rightarrow> None
           | Some (Done v1) \<Rightarrow> Some v1
           | Some (Next pc2 v1) \<Rightarrow> eval_loop C scr pc2 v1))"
  by pat_completeness auto
termination
  by (relation "measure (\<lambda>(C, scr, pc, v). length pc)") (auto dest!: step_shrinks)

declare eval_loop.simps [simp del]

lemma eval_loop_Nil: "eval_loop C scr [] v = (if length (execStack (ctx v)) \<noteq> 1 then None else Some v)"
  by (simp add: eval_loop.simps [of C scr "[]"])

lemma eval_loop_Cons:
  "eval_loop C scr (b # pc) v =
     (case step C scr b pc v of
        None \<Rightarrow> None | Some (Done v1) \<Rightarrow> Some v1 | Some (Next pc2 v1) \<Rightarrow> eval_loop C scr pc2 v1)"
  by (simp add: eval_loop.simps [of C scr "b # pc"])

definition EvaluateScript ::
    "crypto \<Rightarrow> bytes \<Rightarrow> bytes list \<Rightarrow> 'j ScriptExecutionContext \<Rightarrow>
       (bytes list \<times> 'j ScriptExecutionContext) option" where
  "EvaluateScript C scr stk c =
     (case AnalyzeScriptResources (execHeight c) scr of
        None \<Rightarrow> None
      | Some _ \<Rightarrow>
          (case measureInitialStackBytes stk of
             None \<Rightarrow> None
           | Some tot \<Rightarrow>
               if execStack c \<noteq> [True] then None
               else map_option (\<lambda>v. (stack v, ctx v))
                      (eval_loop C scr scr \<lparr>stack = stk, stackBytes = tot, ctx = c\<rparr>)))"

definition VerifyScripts ::
    "crypto \<Rightarrow> bytes \<Rightarrow> bytes \<Rightarrow> 'j ScriptExecutionContext \<Rightarrow> 'j ScriptExecutionContext option" where
  "VerifyScripts C unlock lock c = do {
     (stk, c1) \<leftarrow> EvaluateScript C unlock [] c;
     (stk2, c2) \<leftarrow> EvaluateScript C lock stk c1;
     if stk2 = [] then None
     else if truth (hd stk2) then Some c2 else None }"

end
