(* ===== verification/Vm_Invariants.thy ===== *)
theory Vm_Invariants
  imports Vm_Ops
begin

text \<open>
  Invariants of the script machine. The locale \<open>vm_invariant\<close> states what the machine's primitives
  must preserve; inside it every opcode handler, every step and the whole loop are shown to
  preserve it too. Each invariant of the machine is then an interpretation.
\<close>

subsection \<open>What the primitives leave alone\<close>

lemma gas_frame:
  assumes "gas n v = Some v'"
  shows "stack v' = stack v" "stackBytes v' = stackBytes v" "state (ctx v') = state (ctx v)"
    "execStack (ctx v') = execStack (ctx v)" "execHeight (ctx v') = execHeight (ctx v)"
    "ctx_tx (ctx v') = ctx_tx (ctx v)" "gasLimit (ctx v') = gasLimit (ctx v)"
  using assms by (auto simp: gas_def consumeGas_def Let_def split: option.splits if_splits)

lemma pop_frame: "popStack v = Some (x, v') \<Longrightarrow> ctx v' = ctx v"
  by (auto simp: popStack_def split: list.splits)

lemma push_frame: "pushStack x v = Some v' \<Longrightarrow> ctx v' = ctx v"
  by (auto simp: pushStack_def split: if_splits)

lemma drop_pop: "dropStack v = map_option snd (popStack v)"
  by (simp add: dropStack_def popStack_def split: list.splits)

lemma executing_cong: "execStack (ctx v) = execStack (ctx w) \<Longrightarrow> executing v = executing w"
  by (simp add: executing_def)

locale vm_invariant =
  fixes P :: "'j vm \<Rightarrow> bool"
  assumes gas: "gas n v = Some v' \<Longrightarrow> P v \<Longrightarrow> P v'"
    and push: "pushStack x v = Some v' \<Longrightarrow> P v \<Longrightarrow> P v'"
    and pop: "popStack v = Some (x, v') \<Longrightarrow> P v \<Longrightarrow> P v'"
    and replace: "replaceTop x v = Some v' \<Longrightarrow> P v \<Longrightarrow> P v'"
    and erase: "eraseStackIndex k v = Some v' \<Longrightarrow> P v \<Longrightarrow> P v'"
    and swap: "stack v = x # y # r \<Longrightarrow> P v \<Longrightarrow> P (v\<lparr>stack := y # x # r\<rparr>)"
    and enter: "b \<longrightarrow> executing v \<Longrightarrow> P v \<Longrightarrow> P (set_branches (b # execStack (ctx v)) v)"
    and els: "execStack (ctx v) = i # p # es \<Longrightarrow> P v \<Longrightarrow> P (set_branches ((p \<and> \<not> i) # p # es) v)"
    and leave: "length (execStack (ctx v)) \<ge> 2 \<Longrightarrow> P v \<Longrightarrow> P (set_branches (tl (execStack (ctx v))) v)"
    and store: "state (ctx v) = Some st \<Longrightarrow> CanApplyStateWrite st key w \<noteq> None \<Longrightarrow> P v \<Longrightarrow>
        P (v\<lparr>ctx := (ctx v)\<lparr>state := Some (AList.update key w st)\<rparr>\<rparr>)"
begin

lemma drop: "dropStack v = Some v' \<Longrightarrow> P v \<Longrightarrow> P v'"
  using pop by (auto simp: drop_pop)

lemmas prims = gas push pop replace erase drop

lemma stack_ops:
  "op_dup v = Some v' \<Longrightarrow> P v \<Longrightarrow> P v'" "op_0 v = Some v' \<Longrightarrow> P v \<Longrightarrow> P v'"
  "op_small_int b v = Some v' \<Longrightarrow> P v \<Longrightarrow> P v'" "op_drop v = Some v' \<Longrightarrow> P v \<Longrightarrow> P v'"
  "op_over v = Some v' \<Longrightarrow> P v \<Longrightarrow> P v'" "op_nip v = Some v' \<Longrightarrow> P v \<Longrightarrow> P v'"
  "op_swap v = Some v' \<Longrightarrow> P v \<Longrightarrow> P v'" "op_2dup v = Some v' \<Longrightarrow> P v \<Longrightarrow> P v'"
  "op_size v = Some v' \<Longrightarrow> P v \<Longrightarrow> P v'" "op_cat v = Some v' \<Longrightarrow> P v \<Longrightarrow> P v'"
  "op_left v = Some v' \<Longrightarrow> P v \<Longrightarrow> P v'"
  by (auto simp: op_dup_def op_0_def op_small_int_def op_drop_def op_over_def op_nip_def op_swap_def
      op_2dup_def op_size_def op_cat_def op_left_def bind_eq_Some_conv Let_def
      split: if_splits list.splits dest: prims swap)

lemma operands: "pop_operands v = Some (ab, v') \<Longrightarrow> P v \<Longrightarrow> P v'"
  by (auto simp: pop_operands_def bind_eq_Some_conv split: if_splits dest: prims)

lemma arith_ops:
  "op_add v = Some v' \<Longrightarrow> P v \<Longrightarrow> P v'" "op_mul v = Some v' \<Longrightarrow> P v \<Longrightarrow> P v'"
  "op_lessthan v = Some v' \<Longrightarrow> P v \<Longrightarrow> P v'" "op_greaterthan v = Some v' \<Longrightarrow> P v \<Longrightarrow> P v'"
  "op_inclusive b v = Some v' \<Longrightarrow> P v \<Longrightarrow> P v'" "op_verify v = Some v' \<Longrightarrow> P v \<Longrightarrow> P v'"
  "op_equal v = Some v' \<Longrightarrow> P v \<Longrightarrow> P v'" "op_equalverify v = Some v' \<Longrightarrow> P v \<Longrightarrow> P v'"
  "op_checklocktimeverify v = Some v' \<Longrightarrow> P v \<Longrightarrow> P v'"
  by (auto simp: op_add_def op_mul_def op_lessthan_def op_greaterthan_def op_inclusive_def op_verify_def
      op_equal_def op_equalverify_def op_checklocktimeverify_def bind_eq_Some_conv Let_def
      split: if_splits list.splits option.splits dest: prims operands)

lemma items: "pop_items n acc v = Some (xs, v') \<Longrightarrow> P v \<Longrightarrow> P v'"
  by (induction n arbitrary: acc v) (auto simp: bind_eq_Some_conv dest: pop)

lemma count: "popCount v = Some (n, v') \<Longrightarrow> P v \<Longrightarrow> P v'"
  by (auto simp: popCount_def bind_eq_Some_conv split: if_splits dest: pop)

lemma signature_ops:
  "op_checksig C v = Some v' \<Longrightarrow> P v \<Longrightarrow> P v'" "op_checksigverify C v = Some v' \<Longrightarrow> P v \<Longrightarrow> P v'"
  by (auto simp: op_checksig_def op_checksigverify_def bind_eq_Some_conv split: if_splits)
    (blast dest: prims)+

lemma counted: "pop_counted l v = Some (nx, v') \<Longrightarrow> P v \<Longrightarrow> P v'"
  by (auto simp: pop_counted_def bind_eq_Some_conv split: if_splits dest: items count)

lemma multisig_op:
  assumes "op_checkmultisig C b v = Some v'" "P v"
  shows "P v'"
proof -
  have res: "multisig_result C b n ps m ss v2 = Some v' \<Longrightarrow> P v2 \<Longrightarrow> P v'" for n ps m ss v2
    unfolding multisig_result_def Let_def
    by (auto simp: bind_eq_Some_conv split: if_splits dest: prims)
  show ?thesis
    using assms by (auto simp: op_checkmultisig_def bind_eq_Some_conv dest: counted res)
qed

lemma context_ops:
  "op_caller v = Some v' \<Longrightarrow> P v \<Longrightarrow> P v'" "op_contract_addr v = Some v' \<Longrightarrow> P v \<Longrightarrow> P v'"
  "op_gas v = Some v' \<Longrightarrow> P v \<Longrightarrow> P v'" "op_outputamount v = Some v' \<Longrightarrow> P v \<Longrightarrow> P v'"
  "op_blocktime v = Some v' \<Longrightarrow> P v \<Longrightarrow> P v'" "op_datafeed v = Some v' \<Longrightarrow> P v \<Longrightarrow> P v'"
  "op_delegatecheck v = Some v' \<Longrightarrow> P v \<Longrightarrow> P v'" "op_chainstatecheck v = Some v' \<Longrightarrow> P v \<Longrightarrow> P v'"
  "op_load v = Some v' \<Longrightarrow> P v \<Longrightarrow> P v'"
  by (auto simp: op_caller_def op_contract_addr_def op_gas_def op_outputamount_def op_blocktime_def
      op_datafeed_def op_delegatecheck_def op_chainstatecheck_def op_load_def bind_eq_Some_conv Let_def
      split: if_splits option.splits dest: prims)

lemma hash_ops:
  "op_blake2b C v = Some v' \<Longrightarrow> P v \<Longrightarrow> P v'" "op_hash160 C v = Some v' \<Longrightarrow> P v \<Longrightarrow> P v'"
  "op_sha3 C v = Some v' \<Longrightarrow> P v \<Longrightarrow> P v'" "op_hash256 C v = Some v' \<Longrightarrow> P v \<Longrightarrow> P v'"
  by (auto simp: op_blake2b_def op_hash160_def op_sha3_def op_hash256_def bind_eq_Some_conv Let_def
      split: if_splits list.splits dest: prims)

lemma upgrade_ops:
  "op_wots C v = Some v' \<Longrightarrow> P v \<Longrightarrow> P v'" "op_market C scr v = Some v' \<Longrightarrow> P v \<Longrightarrow> P v'"
  by (auto simp: op_wots_def op_market_def bind_eq_Some_conv Let_def
      split: if_splits option.splits) (blast dest: prims)+

lemma store_op:
  assumes "op_store v = Some v'" "P v"
  shows "P v'"
proof -
  obtain val key st v1 v2 v3 n where
    s: "popStack v = Some (val, v1)" "popStack v1 = Some (key, v2)" "state (ctx v) = Some st"
      "CanApplyStateWrite st (string_of_bytes key) val \<noteq> None" "gas n v2 = Some v3"
      "v' = v3\<lparr>ctx := (ctx v3)\<lparr>state := Some (AList.update (string_of_bytes key) val st)\<rparr>\<rparr>"
    using assms(1) by (auto simp: op_store_def bind_eq_Some_conv Let_def split: if_splits)
  have "P v3" using s(1,2,5) assms(2) by (blast dest: prims)
  moreover have "state (ctx v3) = Some st" using s pop_frame gas_frame(3) by metis
  ultimately show ?thesis using s(4,6) store by blast
qed

lemma branch_ops: "exec_branch b v = Some v' \<Longrightarrow> P v \<Longrightarrow> P v'"
proof -
  have ex: "P v1 \<Longrightarrow> executing v \<Longrightarrow> popStack v = Some (x, v1) \<Longrightarrow> P (set_branches (c # execStack (ctx v1)) v1)"
    for v v1 x c using enter [of c v1] executing_cong [of v1 v] pop_frame [of v x v1] by simp
  assume "exec_branch b v = Some v'" "P v"
  then show "P v'"
    by (auto simp: exec_branch_def op_if_def op_notif_def op_else_def op_endif_def bind_eq_Some_conv
        split: if_splits list.splits dest: ex gas pop intro: enter els)
      (use leave gas in force)
qed

lemma exec_op: "exec_op C scr b v = Some v' \<Longrightarrow> P v \<Longrightarrow> P v'"
  unfolding exec_op_def
  by (simp split: if_splits)
    (blast intro: stack_ops arith_ops signature_ops multisig_op context_ops hash_ops upgrade_ops store_op gas)+

lemma step_next: "step C scr b pc v = Some (Next pc' v') \<Longrightarrow> P v \<Longrightarrow> P v'"
  by (auto simp: step_defs bind_eq_Some_conv split: option.splits if_splits)
    (blast dest: prims branch_ops exec_op)+

lemma step_done: "step C scr b pc v = Some (Done v') \<Longrightarrow> P v \<Longrightarrow> P v'"
  by (auto simp: step_defs bind_eq_Some_conv split: option.splits if_splits dest: prims)

lemma loop: "eval_loop C scr pc v = Some v' \<Longrightarrow> P v \<Longrightarrow> P v'"
proof (induction C scr pc v rule: eval_loop.induct)
  case (1 C scr pc v)
  show ?case
  proof (cases pc)
    case Nil
    then show ?thesis using "1.prems" by (simp add: eval_loop_Nil split: if_splits)
  next
    case (Cons b pc1)
    then obtain r where r: "step C scr b pc1 v = Some r"
      using "1.prems" by (auto simp: eval_loop_Cons split: option.splits)
    show ?thesis
    proof (cases r)
      case (Next pc2 v1)
      then have "eval_loop C scr pc2 v1 = Some v'"
        using "1.prems"(1) Cons r by (simp add: eval_loop_Cons)
      moreover have "P v1" using step_next r Next "1.prems"(2) by blast
      ultimately show ?thesis using "1.IH" Cons r Next by blast
    next
      case (Done v1)
      then show ?thesis using "1.prems" Cons r step_done
        by (simp add: eval_loop_Cons)
    qed
  qed
qed

lemma evaluate:
  assumes "EvaluateScript C scr stk c = Some (stk', c')"
    and "\<And>tot. measureInitialStackBytes stk = Some tot \<Longrightarrow> P \<lparr>stack = stk, stackBytes = tot, ctx = c\<rparr>"
  shows "\<exists>v'. stack v' = stk' \<and> ctx v' = c' \<and> P v'"
proof -
  obtain tot v' where "measureInitialStackBytes stk = Some tot"
    "eval_loop C scr scr \<lparr>stack = stk, stackBytes = tot, ctx = c\<rparr> = Some v'" "stk' = stack v'" "c' = ctx v'"
    using assms(1) by (auto simp: EvaluateScript_def split: option.splits if_splits)
  then show ?thesis using assms(2) loop by blast
qed

end

subsection \<open>The invariants of the machine\<close>

definition stack_ok :: "'j vm \<Rightarrow> bool" where
  "stack_ok v \<longleftrightarrow>
     stackBytes v = sum_list (map length (stack v)) \<and> stackBytes v \<le> MAX_STACK_BYTES \<and>
     length (stack v) \<le> MAX_STACK_ITEMS \<and> list_all (\<lambda>i. length i \<le> MAX_STACK_ITEM_BYTES) (stack v)"

lemma set_branches_sel [simp]:
  "stack (set_branches e v) = stack v" "stackBytes (set_branches e v) = stackBytes v"
  "execStack (ctx (set_branches e v)) = e" "state (ctx (set_branches e v)) = state (ctx v)"
  "gasUsed (ctx (set_branches e v)) = gasUsed (ctx v)" "gasLimit (ctx (set_branches e v)) = gasLimit (ctx v)"
  by (simp_all add: set_branches_def)

lemma stack_ok_erase:
  assumes "eraseStackIndex k v = Some v'" "stack_ok v"
  shows "stack_ok v'"
proof -
  define j where "j = length (stack v) - 1 - k"
  have j: "j < length (stack v)" and e: "v' = v\<lparr>stackBytes := stackBytes v - length (stack v ! j),
      stack := take j (stack v) @ drop (j + 1) (stack v)\<rparr>"
    using assms(1) by (auto simp: eraseStackIndex_def j_def Let_def split: if_splits)
  have l: "stack v = take j (stack v) @ stack v ! j # drop (j + 1) (stack v)"
    using j by (simp add: id_take_nth_drop)
  have "sum_list (map length (stack v)) =
      sum_list (map length (take j (stack v))) + length (stack v ! j) + sum_list (map length (drop (j + 1) (stack v)))"
    by (subst l) simp
  moreover have "list_all (\<lambda>i. length i \<le> MAX_STACK_ITEM_BYTES) (take j (stack v) @ stack v ! j # drop (j + 1) (stack v))"
    using assms(2) l by (simp add: stack_ok_def)
  ultimately show ?thesis using assms(2) j by (auto simp: stack_ok_def e)
qed

interpretation vm_stack: vm_invariant stack_ok
proof unfold_locales
  show "eraseStackIndex k v = Some v' \<Longrightarrow> stack_ok v \<Longrightarrow> stack_ok v'" for k and v v' :: "'j vm"
    by (rule stack_ok_erase)
qed (auto simp: stack_ok_def gas_def pushStack_def popStack_def replaceTop_def Let_def
    split: option.splits if_splits list.splits)

text \<open>Gas only grows, and never past the limit.\<close>

definition gas_from :: "'j vm \<Rightarrow> 'j vm \<Rightarrow> bool" where
  "gas_from v0 v \<longleftrightarrow>
     gasUsed (ctx v0) \<le> gasUsed (ctx v) \<and> gasLimit (ctx v) = gasLimit (ctx v0) \<and>
     (gasUsed (ctx v0) \<le> gasLimit (ctx v0) \<longrightarrow> gasUsed (ctx v) \<le> gasLimit (ctx v))"

lemma gas_exact:
  assumes "gas n v = Some v'"
  shows "unat (gasUsed (ctx v')) = unat (gasUsed (ctx v)) + unat n" "gasUsed (ctx v') \<le> gasLimit (ctx v')"
proof -
  have g: "\<not> u64_max - gasUsed (ctx v) < n" "gasUsed (ctx v') = gasUsed (ctx v) + n"
    "\<not> gasUsed (ctx v) + n > gasLimit (ctx v)"
    using assms by (auto simp: gas_def consumeGas_def Let_def split: option.splits if_splits)
  then show "unat (gasUsed (ctx v')) = unat (gasUsed (ctx v)) + unat n"
    using unat_checked_add [of n "gasUsed (ctx v)"] by (simp add: not_less add.commute)
  show "gasUsed (ctx v') \<le> gasLimit (ctx v')" using g gas_frame(7) [OF assms] by (simp add: not_less)
qed

interpretation vm_gas: vm_invariant "gas_from (v0 :: 'j vm)" for v0
proof unfold_locales
  show "gas n v = Some v' \<Longrightarrow> gas_from v0 v \<Longrightarrow> gas_from v0 v'" for n and v v' :: "'j vm"
    using gas_exact [of n v v'] gas_frame(7) [of n v v'] by (auto simp: gas_from_def word_le_nat_alt)
qed (auto simp: gas_from_def pushStack_def popStack_def replaceTop_def eraseStackIndex_def Let_def
    split: option.splits if_splits list.splits)

text \<open>Every live conditional sits in live conditionals only.\<close>

definition branches_ok :: "'j vm \<Rightarrow> bool" where
  "branches_ok v \<longleftrightarrow> execStack (ctx v) \<noteq> [] \<and> last (execStack (ctx v)) \<and>
     sorted_wrt (\<lambda>inner outer. inner \<longrightarrow> outer) (execStack (ctx v))"

interpretation vm_branches: vm_invariant branches_ok
proof unfold_locales
  show "gas n v = Some v' \<Longrightarrow> branches_ok v \<Longrightarrow> branches_ok v'" for n and v v' :: "'j vm"
    by (simp add: branches_ok_def gas_frame)
  show "b \<longrightarrow> executing v \<Longrightarrow> branches_ok v \<Longrightarrow> branches_ok (set_branches (b # execStack (ctx v)) v)"
    for b and v :: "'j vm"
    by (cases "execStack (ctx v)") (auto simp: branches_ok_def executing_def)
  show "execStack (ctx v) = i # p # es \<Longrightarrow> branches_ok v \<Longrightarrow> branches_ok (set_branches ((p \<and> \<not> i) # p # es) v)"
    for i p es and v :: "'j vm"
    by (auto simp: branches_ok_def split: if_splits)
  show "length (execStack (ctx v)) \<ge> 2 \<Longrightarrow> branches_ok v \<Longrightarrow> branches_ok (set_branches (tl (execStack (ctx v))) v)"
    for v :: "'j vm"
    by (cases "execStack (ctx v)") (auto simp: branches_ok_def split: if_splits)
qed (auto simp: branches_ok_def pushStack_def popStack_def replaceTop_def eraseStackIndex_def Let_def
    split: option.splits if_splits list.splits)

text \<open>A contract state within its limits stays within them.\<close>

definition state_ok :: "'j ScriptExecutionContext \<Rightarrow> bool" where
  "state_ok c \<longleftrightarrow> (\<exists>m. state c = Some m \<and> keys_distinct m \<and> state_within_limits m)"

lemma state_ok_write:
  assumes "keys_distinct m" "CanApplyStateWrite m k w \<noteq> None"
  shows "state_within_limits (AList.update k w m)"
  using CanApplyStateWrite_Some [OF assms(1)] assms(2) by (auto simp: MeasureStateBytes_iff)

interpretation vm_state: vm_invariant "\<lambda>v. state_ok (ctx v)"
proof unfold_locales
  show "gas n v = Some v' \<Longrightarrow> state_ok (ctx v) \<Longrightarrow> state_ok (ctx v')" for n and v v' :: "'j vm"
    by (simp add: state_ok_def gas_frame)
  show "state (ctx v) = Some st \<Longrightarrow> CanApplyStateWrite st key w \<noteq> None \<Longrightarrow> state_ok (ctx v) \<Longrightarrow>
      state_ok (ctx (v\<lparr>ctx := (ctx v)\<lparr>state := Some (AList.update key w st)\<rparr>\<rparr>))"
    for st key w and v :: "'j vm"
    using state_ok_write [of st key w] by (simp add: state_ok_def)
qed (auto simp: state_ok_def pushStack_def popStack_def replaceTop_def eraseStackIndex_def Let_def
    split: option.splits if_splits list.splits)

text \<open>Everything but gas, contract state and the conditional stack is constant.\<close>

definition same_context :: "'j ScriptExecutionContext \<Rightarrow> 'j vm \<Rightarrow> bool" where
  "same_context c v \<longleftrightarrow>
     (ctx v)\<lparr>gasUsed := gasUsed c, state := state c, execStack := execStack c\<rparr> = c"

interpretation vm_frame: vm_invariant "same_context (c :: 'j ScriptExecutionContext)" for c
  by unfold_locales
    (auto simp: same_context_def set_branches_def gas_def consumeGas_def pushStack_def popStack_def
      replaceTop_def eraseStackIndex_def Let_def split: option.splits if_splits list.splits)

subsection \<open>Bounds of a run\<close>

lemma measure_items_Some:
  "measure_items tot s = Some n \<Longrightarrow> tot \<le> MAX_STACK_BYTES \<Longrightarrow>
     n = tot + sum_list (map length s) \<and> n \<le> MAX_STACK_BYTES \<and>
     list_all (\<lambda>i. length i \<le> MAX_STACK_ITEM_BYTES) s"
  by (induction tot s rule: measure_items.induct) (auto simp: not_less le_diff_conv2 add.commute split: if_splits)

lemma initial_stack_ok:
  "measureInitialStackBytes stk = Some tot \<Longrightarrow> stack_ok \<lparr>stack = stk, stackBytes = tot, ctx = c\<rparr>"
  using measure_items_Some [of 0 "rev stk" tot]
  by (auto simp: measureInitialStackBytes_def stack_ok_def sum_list.rev list_all_iff simp flip: rev_map split: if_splits)

text \<open>
  C22: a successful run respects every resource limit. The gas used grows and stays below the
  unchanged gas limit; the resulting stack has at most 1000 items of at most 64 KiB each, 1 MiB in
  all; and apart from gas, contract state and the conditional stack the context is untouched.
\<close>

theorem vm_run_bounded:
  assumes "EvaluateScript C scr stk c = Some (stk', c')" "gasUsed c \<le> gasLimit c"
  shows "gasUsed c \<le> gasUsed c' \<and> gasUsed c' \<le> gasLimit c \<and>
    length stk' \<le> 1000 \<and> sum_list (map length stk') \<le> 1048576 \<and>
    (\<forall>i\<in>set stk'. length i \<le> 65536) \<and>
    c'\<lparr>gasUsed := gasUsed c, state := state c, execStack := execStack c\<rparr> = c"
proof -
  have "\<exists>v'. stack v' = stk' \<and> ctx v' = c' \<and> stack_ok v'"
    by (rule vm_stack.evaluate [OF assms(1)]) (rule initial_stack_ok)
  moreover have "\<exists>v'. stack v' = stk' \<and> ctx v' = c' \<and> gas_from \<lparr>stack = [], stackBytes = 0, ctx = c\<rparr> v'"
    by (rule vm_gas.evaluate [OF assms(1)]) (simp add: gas_from_def)
  moreover have "\<exists>v'. stack v' = stk' \<and> ctx v' = c' \<and> same_context c v'"
    by (rule vm_frame.evaluate [OF assms(1)]) (simp add: same_context_def)
  ultimately show ?thesis
    using assms(2) by (auto simp: stack_ok_def gas_from_def same_context_def vm_limit_defs list_all_iff)
qed

lemma VerifyScripts_parts:
  assumes "VerifyScripts C unlock lock c = Some c'"
  shows "\<exists>stk c1 stk2. EvaluateScript C unlock [] c = Some (stk, c1) \<and>
    EvaluateScript C lock stk c1 = Some (stk2, c') \<and> stk2 \<noteq> [] \<and> truth (hd stk2)"
  using assms by (auto simp: VerifyScripts_def bind_eq_Some_conv split: if_splits)

text \<open>
  C23: scripts cannot break the state limits. Whatever the two scripts of an input do, a contract
  state that is within the limits of the resource policy is still within them when the input
  verifies.
\<close>

theorem vm_state_stays_within_limits:
  assumes "VerifyScripts C unlock lock c = Some c'"
    and "state c = Some m" "keys_distinct m" "state_within_limits m"
  shows "\<exists>m'. state c' = Some m' \<and> keys_distinct m' \<and> state_within_limits m'"
proof -
  obtain stk c1 stk2 where e: "EvaluateScript C unlock [] c = Some (stk, c1)"
    "EvaluateScript C lock stk c1 = Some (stk2, c')"
    using VerifyScripts_parts [OF assms(1)] by blast
  have "state_ok c" using assms(2-4) by (simp add: state_ok_def)
  then have "state_ok c1" using vm_state.evaluate [OF e(1)] by auto
  then have "state_ok c'" using vm_state.evaluate [OF e(2)] by auto
  then show ?thesis by (simp add: state_ok_def)
qed

subsection \<open>Static analysis\<close>

definition sigops_of :: "u32 \<Rightarrow> byte \<Rightarrow> nat" where
  "sigops_of h op =
     (if op = OP_MARKETVERIFY \<and> active h MARKET_HEIGHT then 20
      else if op = OP_CHECKWOTSVERIFY \<and> active h WOTS_HEIGHT then 256
      else if op = OP_CHECKSIG \<or> op = OP_CHECKSIGVERIFY then 1
      else if op = OP_CHECKMULTISIG \<or> op = OP_CHECKMULTISIGVERIFY then 20 else 0)"

lemma push_span_read:
  "ReadPushLength op b = (case push_span op b of None \<Rightarrow> Some (0, b) | Some None \<Rightarrow> None
     | Some (Some (n, b')) \<Rightarrow> if n > length b' then None else Some (n, drop n b'))"
  by (auto simp: ReadPushLength_def push_span_def Let_def split: option.splits)

lemma push_span_None: "push_span op b = None \<longleftrightarrow> \<not> is_push_opcode op"
  by (auto simp: push_span_def is_push_opcode_def)

declare opcodes_of.simps(2) [simp del]

lemma opcodes_of_span:
  "opcodes_of (op # b) = (case push_span op b of None \<Rightarrow> map_option ((#) op) (opcodes_of b)
     | Some None \<Rightarrow> None
     | Some (Some (n, b')) \<Rightarrow> if n > length b' then None else opcodes_of (drop n b'))"
  using push_span_None [of op b] by (auto simp: push_span_read opcodes_of.simps(2) split: option.splits)

lemma count_opcode_iff:
  assumes "unat (opCount m) = k" "unat (sigOpCost m) \<le> 256 * k" "k \<le> 1000"
  shows "count_opcode h op m =
    (if IsSupportedOpcode op \<and> k < 1000
     then Some \<lparr>opCount = word_of_nat (k + 1), sigOpCost = sigOpCost m + word_of_nat (sigops_of h op)\<rparr>
     else None)"
proof -
  have ge: "opCount m \<ge> MAX_SCRIPT_OPS \<longleftrightarrow> \<not> k < 1000"
    using assms(1) by (simp add: word_le_nat_alt MAX_SCRIPT_OPS_def not_less)
  have m1: "opCount m + 1 = word_of_nat (k + 1)" using assms(1) by (simp flip: assms(1))
  have room: "\<not> w > u64_max - sigOpCost m" if "unat w \<le> 256" for w :: u64
    using that assms(2,3) checked_add_iff [of w "sigOpCost m"] by (simp add: not_less)
  show ?thesis
    using ge room [of WOTS_SIGOPS] room [of MARKET_SIGOPS] room [of 1] room [of 20] room [of 0] m1
    by (cases m) (auto simp: count_opcode_def sigops_of_def Let_def WOTS_SIGOPS_def MARKET_SIGOPS_def)
qed

lemma analyze_loop_eq:
  assumes "unat (opCount m) = k" "unat (sigOpCost m) \<le> 256 * k" "k \<le> 1000"
  shows "analyze_loop h m s = (case opcodes_of s of None \<Rightarrow> None | Some ops \<Rightarrow>
     if list_all IsSupportedOpcode ops \<and> k + length ops \<le> 1000
     then Some \<lparr>opCount = word_of_nat (k + length ops),
                sigOpCost = sigOpCost m + word_of_nat (sum_list (map (sigops_of h) ops))\<rparr>
     else None)"
  using assms
proof (induction h m s arbitrary: k rule: analyze_loop.induct)
  case (1 h m s)
  show ?case
  proof (cases s)
    case Nil
    then show ?thesis using "1.prems" by (cases m) (simp flip: "1.prems"(1))
  next
    case (Cons op pc)
    show ?thesis
    proof (cases "push_span op pc")
      case (Some r)
      then show ?thesis
      proof (cases r)
        case (Some np)
        obtain n pc' where np: "np = (n, pc')" by fastforce
        note sp = \<open>push_span op pc = Some r\<close> [unfolded Some np]
        show ?thesis
        proof (cases "n > length pc'")
          case False
          then show ?thesis
            using "1.IH"(2) [OF Cons sp refl refl] "1.prems" Cons sp
            by (simp add: analyze_loop_Cons opcodes_of_span)
        qed (simp add: analyze_loop_Cons opcodes_of_span Cons sp)
      qed (simp add: analyze_loop_Cons opcodes_of_span Cons Some)
    next
      case None
      note c = count_opcode_iff [OF "1.prems", of h op]
      show ?thesis
      proof (cases "IsSupportedOpcode op \<and> k < 1000")
        case True
        define m' where "m' = \<lparr>opCount = word_of_nat (k + 1), sigOpCost = sigOpCost m + word_of_nat (sigops_of h op)\<rparr>"
        have cm: "count_opcode h op m = Some m'" using c True by (simp add: m'_def)
        have so: "sigops_of h op \<le> 256" by (simp add: sigops_of_def)
        have "unat (opCount m') = k + 1" using True by (simp add: m'_def unat_word_of_nat_less del: of_nat_Suc of_nat_add)
        moreover have "unat (sigOpCost m') \<le> 256 * (k + 1)"
        proof -
          have "unat (sigOpCost m') \<le> unat (sigOpCost m) + sigops_of h op"
            using so by (simp add: m'_def unat_word_ariths(1) unat_word_of_nat_less)
          then show ?thesis using "1.prems"(2) so by simp
        qed
        ultimately have "analyze_loop h m' pc = (case opcodes_of pc of None \<Rightarrow> None | Some ops \<Rightarrow>
           if list_all IsSupportedOpcode ops \<and> Suc k + length ops \<le> 1000
           then Some \<lparr>opCount = word_of_nat (Suc k + length ops),
                      sigOpCost = sigOpCost m' + word_of_nat (sum_list (map (sigops_of h) ops))\<rparr>
           else None)"
          using "1.IH"(1) [OF Cons None cm, of "Suc k"] True by simp
        then show ?thesis
          using True Cons None cm
          by (auto simp: analyze_loop_Cons opcodes_of_span m'_def add.assoc split: option.splits)
      next
        case False
        then show ?thesis using c Cons None
          by (auto simp: analyze_loop_Cons opcodes_of_span split: option.splits)
      qed
    qed
  qed
qed

lemma sum_sigops: "sum_list (map (sigops_of h) ops) \<le> 256 * length ops"
proof (induction ops)
  case (Cons op ops)
  have "sigops_of h op \<le> 256" by (simp add: sigops_of_def)
  then show ?case using Cons by simp
qed simp

text \<open>
  C24: the static analysis is exact. It accepts a script precisely when it is at most 10,000 bytes
  long, every push fits, every opcode byte is supported whether or not it would execute, and there
  are at most 1000 opcodes; and then it reports the number of opcodes and the sum of the signature
  costs, which never wrap.
\<close>

theorem static_analysis_exact:
  "AnalyzeScriptResources h s = Some m \<longleftrightarrow>
     length s \<le> 10000 \<and>
     (\<exists>ops. opcodes_of s = Some ops \<and> list_all IsSupportedOpcode ops \<and> length ops \<le> 1000 \<and>
        unat (opCount m) = length ops \<and> unat (sigOpCost m) = sum_list (map (sigops_of h) ops))"
proof -
  have u: "unat (word_of_nat n :: u64) = n" if "n \<le> 256000" for n
    by (rule unat_word_of_nat_less) (use that in simp)
  have eq: "M = m \<longleftrightarrow> unat (opCount m) = a \<and> unat (sigOpCost m) = b"
    if "M = \<lparr>opCount = word_of_nat a, sigOpCost = word_of_nat b\<rparr>" "a \<le> 1000" "b \<le> 256000" for a b M
    using u [of a] u [of b] that by (cases m) (auto simp del: unat_of_nat)
  show ?thesis
  proof (cases "opcodes_of s")
    case None
    then show ?thesis
      using analyze_loop_eq [of "\<lparr>opCount = 0, sigOpCost = 0\<rparr>" 0 h s] by (simp add: AnalyzeScriptResources_def)
  next
    case (Some ops)
    let ?M = "\<lparr>opCount = word_of_nat (length ops), sigOpCost = word_of_nat (sum_list (map (sigops_of h) ops))\<rparr>"
    have a: "AnalyzeScriptResources h s =
      (if length s \<le> 10000 \<and> list_all IsSupportedOpcode ops \<and> length ops \<le> 1000 then Some ?M else None)"
      using analyze_loop_eq [of "\<lparr>opCount = 0, sigOpCost = 0\<rparr>" 0 h s] Some
      by (simp add: AnalyzeScriptResources_def MAX_SCRIPT_BYTES_def)
    show ?thesis
    proof (cases "length ops \<le> 1000")
      case True
      then have "?M = m \<longleftrightarrow> unat (opCount m) = length ops \<and> unat (sigOpCost m) = sum_list (map (sigops_of h) ops)"
        using eq [OF refl, of "length ops"] sum_sigops [of h ops] by simp
      then show ?thesis using a Some True by auto
    qed (use a Some in simp)
  qed
qed

text \<open>
  Validity of an opcode does not depend on the path. A script that contains an unsupported
  opcode byte anywhere, also in a branch that never executes, is rejected before any of it runs.
\<close>

theorem unsupported_opcode_rejected:
  assumes "opcodes_of scr = Some ops" "op \<in> set ops" "\<not> IsSupportedOpcode op"
  shows "EvaluateScript C scr stk c = None"
proof -
  have "\<not> list_all IsSupportedOpcode ops" using assms(2,3) by (auto simp: list_all_iff)
  then have "AnalyzeScriptResources (execHeight c) scr = None"
    using assms(1) analyze_loop_eq [of "\<lparr>opCount = 0, sigOpCost = 0\<rparr>" 0 "execHeight c" scr]
    by (simp add: AnalyzeScriptResources_def)
  then show ?thesis by (simp add: EvaluateScript_def)
qed

theorem unsupported_opcode_rejected_witness:
  "EvaluateScript toy_crypto [OP_0, OP_IF, OP_RESERVED, OP_ENDIF] [] (new_context 0 (None :: unit Transaction option) 0) = None"
  by (rule unsupported_opcode_rejected [of _ "[OP_0, OP_IF, OP_RESERVED, OP_ENDIF]" OP_RESERVED])
    (simp_all add: opcodes_of.simps(2) is_push_opcode_def IsSupportedOpcode_def supported_opcodes_def)

subsection \<open>Concrete runs\<close>

definition plain_context :: "unit ScriptExecutionContext" where
  "plain_context = new_context 0 None 0"

theorem vm_run_bounded_witness:
  "\<exists>stk' c'. EvaluateScript toy_crypto [OP_2, OP_3, OP_ADD] [] plain_context = Some (stk', c') \<and>
     stk' = [u64le 5] \<and> gasUsed c' \<le> 1000000"
proof -
  have "case EvaluateScript toy_crypto [OP_2, OP_3, OP_ADD] [] plain_context of None \<Rightarrow> False
    | Some (s, c) \<Rightarrow> s = [u64le 5]" by code_simp
  then obtain c' where e: "EvaluateScript toy_crypto [OP_2, OP_3, OP_ADD] [] plain_context = Some ([u64le 5], c')"
    by (auto split: option.splits)
  have l: "gasLimit plain_context = 1000000" "gasUsed plain_context = 0"
    by (simp_all add: plain_context_def new_context_def)
  show ?thesis using vm_run_bounded [OF e] l e by auto
qed

definition stateful_context :: "unit ScriptExecutionContext" where
  "stateful_context = plain_context
     \<lparr>state := Some [], contractAddress := replicate 64 (CHR ''a'') @ '':0''\<rparr>"

theorem vm_state_stays_within_limits_witness:
  "\<exists>c'. VerifyScripts toy_crypto [1, 0x61, 1, 0x62] [OP_STORE, OP_1] stateful_context = Some c' \<and>
     state c' = Some [(''a'', [0x62])] \<and> state_within_limits [(''a'', [0x62])]"
proof -
  have "case VerifyScripts toy_crypto [1, 0x61, 1, 0x62] [OP_STORE, OP_1] stateful_context of None \<Rightarrow> False
    | Some c \<Rightarrow> state c = Some [(''a'', [0x62])]" by code_simp
  then obtain c' where e: "VerifyScripts toy_crypto [1, 0x61, 1, 0x62] [OP_STORE, OP_1] stateful_context = Some c'"
    and s: "state c' = Some [(''a'', [0x62])]"
    by (auto split: option.splits)
  have "state stateful_context = Some []" "state_within_limits []"
    by (simp_all add: stateful_context_def state_within_limits_def state_bytes_def)
  then show ?thesis using vm_state_stays_within_limits [OF e] s e by auto
qed

end
