(* ===== verification/Vm_Locks.thy ===== *)
theory Vm_Locks
  imports Vm_Invariants
begin

text \<open>
  What the standard locks mean when the machine runs them: exact results of \<open>VerifyScripts\<close> on
  canonical unlock scripts, computed symbolically. \<open>vm_at g s b c\<close> is the machine with \<open>g\<close> gas used,
  stack \<open>s\<close> of \<open>b\<close> bytes and otherwise context \<open>c\<close>.
\<close>

named_theorems vm_exec "symbolic execution of the machine"

definition vm_at :: "nat \<Rightarrow> bytes list \<Rightarrow> nat \<Rightarrow> 'j ScriptExecutionContext \<Rightarrow> 'j vm" where
  "vm_at g s b c = \<lparr>stack = s, stackBytes = b, ctx = c\<lparr>gasUsed := word_of_nat g\<rparr>\<rparr>"

lemma vm_at_sel [vm_exec]:
  "stack (vm_at g s b c) = s" "stackBytes (vm_at g s b c) = b"
  "ctx (vm_at g s b c) = c\<lparr>gasUsed := word_of_nat g\<rparr>"
  "executing (vm_at g s b c) \<longleftrightarrow> execStack c \<noteq> [] \<and> hd (execStack c)"
  "set_branches e (vm_at g s b c) = vm_at g s b (c\<lparr>execStack := e\<rparr>)"
  "isSimulationMode (c\<lparr>gasUsed := u\<rparr>) \<longleftrightarrow> ctx_tx c = None"
  by (simp_all add: vm_at_def executing_def set_branches_def isSimulationMode_def)

lemma gas_at [vm_exec]:
  assumes "g + unat n \<le> unat (gasLimit c)"
  shows "gas n (vm_at g s b c) = Some (vm_at (g + unat n) s b c)"
proof -
  have l: "unat (gasLimit c) < 2 ^ 64" using unsigned_less [of "gasLimit c", where 'a = nat] by simp
  have ug: "unat (word_of_nat g :: u64) = g"
    by (rule unat_word_of_nat_less) (use assms l in simp)
  have us: "unat (word_of_nat g + n) = g + unat n"
    using assms l by (simp add: unat_word_ariths(1) ug del: unat_of_nat)
  have "n \<le> u64_max - word_of_nat g"
    unfolding checked_add_iff ug using assms l by simp
  moreover have "word_of_nat g + n \<le> gasLimit c"
    unfolding word_le_nat_alt us by (rule assms)
  ultimately show ?thesis
    by (simp add: gas_def consumeGas_def vm_at_def Let_def not_less)
qed

lemma gas_to:
  assumes "k = g + unat n" "k \<le> unat (gasLimit c)"
  shows "gas n (vm_at g s b c) = Some (vm_at k s b c)"
  using gas_at [of g n c s b] assms by simp

lemma push_at [vm_exec]:
  assumes "length x \<le> MAX_STACK_ITEM_BYTES" "length s < MAX_STACK_ITEMS" "b + length x \<le> MAX_STACK_BYTES"
  shows "pushStack x (vm_at g s b c) = Some (vm_at g (x # s) (b + length x) c)"
  using assms by (simp add: pushStack_def vm_at_def not_less le_diff_conv2)

lemma pop_at [vm_exec]:
  "popStack (vm_at g (x # s) b c) = Some (x, vm_at g s (b - length x) c)"
  "dropStack (vm_at g (x # s) b c) = Some (vm_at g s (b - length x) c)"
  by (simp_all add: popStack_def dropStack_def vm_at_def)

lemma replace_at [vm_exec]:
  assumes "length x \<le> MAX_STACK_ITEM_BYTES" "b - length y + length x \<le> MAX_STACK_BYTES"
  shows "replaceTop x (vm_at g (y # s) b c) = Some (vm_at g (x # s) (b - length y + length x) c)"
  using assms by (simp add: replaceTop_def vm_at_def Let_def not_less le_diff_conv2 add.commute)

subsection \<open>Pushes\<close>

definition push_gas :: "bytes \<Rightarrow> nat" where
  "push_gas d = (if d = [] then 2 else 1 + length d)"

definition conditionals :: "byte set" where
  "conditionals = {OP_IF, OP_NOTIF, OP_ELSE, OP_ENDIF}"

lemma push_span_canonical:
  assumes "pushable d" "d \<noteq> []"
  shows "\<exists>op r. canonical_push d @ pc = op # r \<and> push_span op r = Some (Some (length d, d @ pc)) \<and>
    op \<notin> conditionals \<and> is_push_opcode op"
  using assms(1)
proof (cases rule: canonical_push_cases)
  case direct
  let ?op = "word_of_nat (length d) :: byte"
  have u: "unat ?op = length d" using direct by (intro unat_small) simp
  have s: "push_span ?op (d @ pc) = Some (Some (length d, d @ pc))" "is_push_opcode ?op"
    using direct_push_byte [OF direct(1,2)] u by (simp_all add: push_span_def is_push_opcode_def del: unat_of_nat)
  have "?op \<notin> conditionals" using direct_push_byte(2) [OF direct(1,2)] by (auto simp: conditionals_def)
  then show ?thesis using s direct by simp
next
  case one
  let ?op = "word_of_nat (length d) :: byte"
  have u: "unat ?op = length d" using one by (intro unat_small) simp
  then show ?thesis using one by (simp add: push_span_def conditionals_def is_push_opcode_def del: unat_of_nat)
next
  case two
  then show ?thesis
    using push_field_2 [of "length d" "d @ pc"] by (simp add: push_span_def conditionals_def is_push_opcode_def)
qed (use assms in simp)

lemma step_push:
  assumes "push_span op r = Some (Some (length d, d @ pc))" "op \<notin> conditionals" "pushable d"
    and "execStack c \<noteq> []" "hd (execStack c)" "length s < MAX_STACK_ITEMS" "b + length d \<le> MAX_STACK_BYTES"
    and "g + (1 + length d) \<le> unat (gasLimit c)"
  shows "step C scr op r (vm_at g s b c) = Some (Next pc (vm_at (g + 1 + length d) (d # s) (b + length d) c))"
proof -
  have u: "unat (word_of_nat (length d) :: u64) = length d"
    using assms(3) by (intro unat_word_of_nat_less) simp
  have "gas (word_of_nat (length d)) (vm_at (Suc g) (d # s) (b + length d) c) =
      Some (vm_at (Suc g + length d) (d # s) (b + length d) c)"
    using gas_at [of "Suc g" "word_of_nat (length d)" c "d # s" "b + length d"] u assms(8) by (simp del: unat_of_nat)
  moreover have "pushStack d (vm_at (Suc g) s b c) = Some (vm_at (Suc g) (d # s) (b + length d) c)"
    using assms by (intro push_at) (simp_all add: vm_limit_defs)
  moreover have "gas 1 (vm_at g s b c) = Some (vm_at (Suc g) s b c)"
    using gas_at [of g 1 c s b] assms(8) by simp
  ultimately show ?thesis
    using assms by (simp add: step_defs vm_at_sel conditionals_def)
qed

lemma eval_push [vm_exec]:
  assumes "pushable d" "execStack c \<noteq> []" "hd (execStack c)" "length s < MAX_STACK_ITEMS"
    "b + length d \<le> MAX_STACK_BYTES" "g + push_gas d \<le> unat (gasLimit c)"
  shows "eval_loop C scr (canonical_push d @ pc) (vm_at g s b c) =
    eval_loop C scr pc (vm_at (g + push_gas d) (d # s) (b + length d) c)"
proof (cases "d = []")
  case True
  have "canonical_push d @ pc = OP_0 # pc" using True by (simp add: canonical_push_def)
  moreover have "step C scr OP_0 pc (vm_at g s b c) = Some (Next pc (vm_at (g + 2) ([] # s) b c))"
    using assms True gas_at [of g 1 c s b] gas_at [of "Suc g" 1 c "[] # s" b] push_at [of "[]" s b "Suc g" c]
    by (simp add: step_defs vm_at_sel push_span_def exec_op_def op_0_def push_gas_def)
  ultimately show ?thesis using True by (simp add: eval_loop_Cons push_gas_def)
next
  case False
  obtain op r where o: "canonical_push d @ pc = op # r" "push_span op r = Some (Some (length d, d @ pc))"
    "op \<notin> conditionals"
    using push_span_canonical [OF assms(1) False, of pc] by blast
  have "step C scr op r (vm_at g s b c) = Some (Next pc (vm_at (g + 1 + length d) (d # s) (b + length d) c))"
    by (rule step_push [OF o(2,3)]) (use assms False in \<open>simp_all add: push_gas_def\<close>)
  then show ?thesis using False o(1) by (simp add: eval_loop_Cons push_gas_def)
qed

lemma opcodes_of_push [simp]:
  assumes "pushable d" "d \<noteq> []"
  shows "opcodes_of (canonical_push d @ r) = opcodes_of r"
  using push_span_canonical [OF assms, of r] by (auto simp: opcodes_of_span)

lemma opcodes_of_empty_push [simp]: "opcodes_of (canonical_push [] @ r) = map_option ((#) OP_0) (opcodes_of r)"
  by (simp add: canonical_push_def opcodes_of.simps(2) is_push_opcode_def)

lemma analysis_accepts:
  assumes "opcodes_of s = Some ops" "list_all IsSupportedOpcode ops" "length ops \<le> 1000" "length s \<le> MAX_SCRIPT_BYTES"
  shows "AnalyzeScriptResources h s \<noteq> None"
  using analyze_loop_eq [of "\<lparr>opCount = 0, sigOpCost = 0\<rparr>" 0 h s] assms
  by (simp add: AnalyzeScriptResources_def)

subsection \<open>Unlock scripts that only push\<close>

abbreviation pushes_script :: "bytes list \<Rightarrow> bytes" where
  "pushes_script ds \<equiv> concat (map canonical_push ds)"

definition pushes_gas :: "bytes list \<Rightarrow> nat" where
  "pushes_gas ds = sum_list (map push_gas ds)"

lemma pushes_gas_simps [simp]: "pushes_gas [] = 0" "pushes_gas (d # ds) = push_gas d + pushes_gas ds"
  by (simp_all add: pushes_gas_def)

definition sum_length :: "bytes list \<Rightarrow> nat" where
  "sum_length ds = sum_list (map length ds)"

lemma sum_length_simps [simp]:
  "sum_length [] = 0" "sum_length (d # ds) = length d + sum_length ds" "sum_length (rev ds) = sum_length ds"
  by (simp_all add: sum_length_def sum_list.rev flip: rev_map)

lemma eval_pushes:
  assumes "list_all pushable ds" "execStack c = [True]" "length s + length ds \<le> MAX_STACK_ITEMS"
    "b + sum_length ds \<le> MAX_STACK_BYTES" "g + pushes_gas ds \<le> unat (gasLimit c)"
  shows "eval_loop C scr (pushes_script ds) (vm_at g s b c) =
    Some (vm_at (g + pushes_gas ds) (rev ds @ s) (b + sum_length ds) c)"
  using assms
proof (induction ds arbitrary: g s b)
  case (Cons d ds)
  have "eval_loop C scr (canonical_push d @ pushes_script ds) (vm_at g s b c) =
      eval_loop C scr (pushes_script ds) (vm_at (g + push_gas d) (d # s) (b + length d) c)"
    by (rule eval_push) (use Cons.prems in auto)
  then show ?case using Cons.IH [of "d # s" "b + length d" "g + push_gas d"] Cons.prems by (simp add: add.assoc)
qed (simp add: eval_loop_Nil vm_at_sel)

lemma opcodes_of_pushes: "list_all pushable ds \<Longrightarrow> opcodes_of (pushes_script ds) = Some (replicate (count_list ds []) OP_0)"
proof (induction ds)
  case (Cons d ds)
  then show ?case by (cases "d = []") simp_all
qed simp

lemma canonical_push_length: "length d < length (canonical_push d)"
  by (simp add: canonical_push_def Let_def)

lemma pushes_script_length: "sum_length ds + length ds \<le> length (pushes_script ds)"
proof (induction ds)
  case (Cons d ds)
  then show ?case using canonical_push_length [of d] by simp
qed simp

text \<open>Inputs that are ready to be verified: outside simulation, with enough gas.\<close>

lemma evaluate_pushes:
  assumes "list_all pushable ds" "length (pushes_script ds) \<le> MAX_SCRIPT_BYTES" "length ds \<le> MAX_STACK_ITEMS"
    "execStack c = [True]" "unat (gasUsed c) + pushes_gas ds \<le> unat (gasLimit c)"
  shows "EvaluateScript C (pushes_script ds) [] c =
    Some (rev ds, c\<lparr>gasUsed := word_of_nat (unat (gasUsed c) + pushes_gas ds)\<rparr>)"
proof -
  have "AnalyzeScriptResources (execHeight c) (pushes_script ds) \<noteq> None"
    by (rule analysis_accepts [OF opcodes_of_pushes])
      (use assms count_le_length [of ds "[]"] in \<open>simp_all add: vm_limit_defs list_all_iff IsSupportedOpcode_def supported_opcodes_def\<close>)
  moreover have "eval_loop C (pushes_script ds) (pushes_script ds) (vm_at (unat (gasUsed c)) [] 0 c) =
      Some (vm_at (unat (gasUsed c) + pushes_gas ds) (rev ds @ []) (0 + sum_length ds) c)"
    by (rule eval_pushes) (use assms pushes_script_length [of ds] in \<open>simp_all add: vm_limit_defs\<close>)
  moreover have "vm_at (unat (gasUsed c)) [] 0 c = \<lparr>stack = [], stackBytes = 0, ctx = c\<rparr>"
    by (simp add: vm_at_def)
  moreover have "measureInitialStackBytes [] = Some 0" by (simp add: measureInitialStackBytes_def)
  ultimately show ?thesis using assms(4)
    by (auto simp: EvaluateScript_def vm_at_sel simp del: of_nat_add)
qed

lemma measure_initial:
  assumes "list_all (\<lambda>d. length d \<le> MAX_STACK_ITEM_BYTES) s" "length s \<le> MAX_STACK_ITEMS" "sum_length s \<le> MAX_STACK_BYTES"
  shows "measureInitialStackBytes s = Some (sum_length s)"
proof -
  have m: "measure_items t r = Some (t + sum_length r)"
    if "list_all (\<lambda>d. length d \<le> MAX_STACK_ITEM_BYTES) r" "t + sum_length r \<le> MAX_STACK_BYTES" for t r
    using that by (induction t r rule: measure_items.induct) (auto simp: not_less le_diff_conv2)
  show ?thesis using m [of "rev s" 0] assms by (simp add: measureInitialStackBytes_def)
qed

text \<open>The lock script, entered on the stack an unlock script left.\<close>

lemma evaluate_lock:
  assumes "AnalyzeScriptResources (execHeight c) scr \<noteq> None" "execStack c = [True]"
    "measureInitialStackBytes s = Some b"
  shows "EvaluateScript C scr s (c\<lparr>gasUsed := word_of_nat g\<rparr>) =
    map_option (\<lambda>v. (stack v, ctx v)) (eval_loop C scr scr (vm_at g s b c))"
  using assms by (auto simp: EvaluateScript_def vm_at_def split: option.splits)

lemma eval_op [vm_exec]:
  assumes "op \<notin> conditionals" "\<not> is_push_opcode op" "op \<noteq> OP_RETURN" "op \<noteq> OP_HALT"
    "execStack c \<noteq> []" "hd (execStack c)" "g + 1 \<le> unat (gasLimit c)"
  shows "eval_loop C scr (op # pc) (vm_at g s b c) =
    (case exec_op C scr op (vm_at (g + 1) s b c) of None \<Rightarrow> None | Some v \<Rightarrow> eval_loop C scr pc v)"
  using assms gas_at [of g 1 c s b]
  by (auto simp: eval_loop_Cons step_defs vm_at_sel conditionals_def push_span_None [THEN iffD2] split: option.splits)

subsection \<open>Single opcodes\<close>

lemma eval_dup:
  assumes "execStack c \<noteq> []" "hd (execStack c)" "length x \<le> MAX_STACK_ITEM_BYTES" "length s + 1 < MAX_STACK_ITEMS"
    "b + length x \<le> MAX_STACK_BYTES" "g + 3 \<le> unat (gasLimit c)"
  shows "eval_loop C scr (OP_DUP # pc) (vm_at g (x # s) b c) =
    eval_loop C scr pc (vm_at (g + 3) (x # x # s) (b + length x) c)"
proof -
  have "exec_op C scr OP_DUP (vm_at (g + 1) (x # s) b c) = Some (vm_at (g + 3) (x # x # s) (b + length x) c)"
    using assms push_at [of x "x # s" b "g + 1" c] gas_to [of "g + 3" "g + 1" 2 c "x # x # s" "b + length x"]
    by (simp add: exec_op_def op_dup_def vm_at_sel)
  then show ?thesis using assms eval_op [of OP_DUP c g C scr pc "x # s" b]
    by (simp add: conditionals_def is_push_opcode_def)
qed

lemma eval_hash160:
  assumes "execStack c \<noteq> []" "hd (execStack c)" "length (computeHash160 C x) = 20" "b - length x + 20 \<le> MAX_STACK_BYTES"
    "g + 16 \<le> unat (gasLimit c)"
  shows "eval_loop C scr (OP_HASH160 # pc) (vm_at g (x # s) b c) =
    eval_loop C scr pc (vm_at (g + 16) (computeHash160 C x # s) (b - length x + 20) c)"
proof -
  have "exec_op C scr OP_HASH160 (vm_at (g + 1) (x # s) b c) =
      Some (vm_at (g + 16) (computeHash160 C x # s) (b - length x + 20) c)"
    using assms replace_at [of "computeHash160 C x" b x "g + 1" s c]
      gas_to [of "g + 16" "g + 1" 15 c "computeHash160 C x # s" "b - length x + 20"]
    by (simp add: exec_op_def op_hash160_def vm_at_sel MAX_STACK_ITEM_BYTES_def)
  then show ?thesis using assms eval_op [of OP_HASH160 c g C scr pc "x # s" b]
    by (simp add: conditionals_def is_push_opcode_def)
qed

lemma eval_equalverify:
  assumes "execStack c \<noteq> []" "hd (execStack c)" "g + 6 \<le> unat (gasLimit c)"
  shows "eval_loop C scr (OP_EQUALVERIFY # pc) (vm_at g (x # y # s) b c) =
    (if x = y then eval_loop C scr pc (vm_at (g + 6) s (b - length x - length y) c) else None)"
proof -
  have "exec_op C scr OP_EQUALVERIFY (vm_at (g + 1) (x # y # s) b c) =
      (if x = y then Some (vm_at (g + 6) s (b - length x - length y) c) else None)"
    using assms gas_to [of "g + 6" "g + 1" 5 c s] by (simp add: exec_op_def op_equalverify_def vm_at_sel pop_at)
  then show ?thesis using assms eval_op [of OP_EQUALVERIFY c g C scr pc "x # y # s" b]
    by (simp add: conditionals_def is_push_opcode_def)
qed

lemma eval_checksig:
  assumes "execStack c \<noteq> []" "hd (execStack c)" "ctx_tx c \<noteq> None" "ctx_scriptPubKey c \<noteq> None"
    "length s < MAX_STACK_ITEMS" "b - length pk - length sg + 1 \<le> MAX_STACK_BYTES" "g + 101 \<le> unat (gasLimit c)"
  shows "eval_loop C scr (OP_CHECKSIG # pc) (vm_at g (pk # sg # s) b c) =
    eval_loop C scr pc (vm_at (g + 101) (bool_item (signatureCheckFunc C pk sg (sighash c)) # s)
      (b - length pk - length sg + 1) c)"
proof -
  let ?r = "bool_item (signatureCheckFunc C pk sg (sighash c))"
  obtain tx spk where "ctx_tx c = Some tx" "ctx_scriptPubKey c = Some spk" using assms(3,4) by blast
  moreover have "length ?r = 1" by (simp add: bool_item_def)
  ultimately have "exec_op C scr OP_CHECKSIG (vm_at (g + 1) (pk # sg # s) b c) =
      Some (vm_at (g + 101) (?r # s) (b - length pk - length sg + 1) c)"
    using assms push_at [of ?r s "b - length pk - length sg" "g + 1" c]
      gas_to [of "g + 101" "g + 1" 100 c "?r # s" "b - length pk - length sg + 1"]
    by (simp add: exec_op_def op_checksig_def vm_at_sel pop_at MAX_STACK_ITEM_BYTES_def)
  then show ?thesis using assms eval_op [of OP_CHECKSIG c g C scr pc "pk # sg # s" b]
    by (simp add: conditionals_def is_push_opcode_def)
qed

subsection \<open>Pay to public key hash\<close>

lemma p2pkh_script_push:
  "length h = 20 \<Longrightarrow> p2pkh_script h = OP_DUP # OP_HASH160 # canonical_push h @ [OP_EQUALVERIFY, OP_CHECKSIG]"
  by (simp add: p2pkh_script_def canonical_push_def)

lemma p2pkh_lock:
  assumes "length h = 20" "\<And>x. length (RIPEMD160 C x) = 20" "ctx_tx c \<noteq> None" "ctx_scriptPubKey c \<noteq> None"
    "execStack c = [True]" "length sg + length pk \<le> 9000" "g + 147 \<le> unat (gasLimit c)"
  shows "eval_loop C scr (p2pkh_script h) (vm_at g [pk, sg] (length pk + length sg) c) =
    (if computeHash160 C pk = h
     then Some (vm_at (g + 147) [bool_item (signatureCheckFunc C pk sg (sighash c))] 1 c) else None)"
proof -
  have h: "length (computeHash160 C x) = 20" for x using assms(2) by (simp add: computeHash160_def)
  have hn: "h \<noteq> []" using assms(1) by auto
  show ?thesis
    using assms h hn
    by (simp add: p2pkh_script_push eval_dup eval_hash160 eval_push eval_equalverify eval_checksig
        vm_limit_defs push_gas_def eval_loop_Nil vm_at_sel eq_commute [of h])
qed

text \<open>A context as block validation prepares it: a transaction, its lock, no open conditional.\<close>

definition spending :: "'j ScriptExecutionContext \<Rightarrow> bool" where
  "spending c \<longleftrightarrow> ctx_tx c \<noteq> None \<and> ctx_scriptPubKey c \<noteq> None \<and> execStack c = [True]"

text \<open>An unlock script that pushes \<open>ds\<close>, then a lock script whose run is known.\<close>

lemma verify_pushes:
  assumes "list_all pushable ds" "length (pushes_script ds) \<le> MAX_SCRIPT_BYTES" "length ds \<le> MAX_STACK_ITEMS"
    and "execStack c = [True]" "unat (gasUsed c) + pushes_gas ds \<le> unat (gasLimit c)"
    and "AnalyzeScriptResources (execHeight c) lock \<noteq> None"
  shows "VerifyScripts C (pushes_script ds) lock c =
    (case eval_loop C lock lock (vm_at (unat (gasUsed c) + pushes_gas ds) (rev ds) (sum_length ds) c) of
       None \<Rightarrow> None
     | Some v \<Rightarrow> if stack v \<noteq> [] \<and> truth (hd (stack v)) then Some (ctx v) else None)"
proof -
  have "list_all (\<lambda>d. length d \<le> MAX_STACK_ITEM_BYTES) (rev ds)"
    using assms(1) by (auto simp: list_all_iff MAX_STACK_ITEM_BYTES_def)
  then have "measureInitialStackBytes (rev ds) = Some (sum_length ds)"
    using measure_initial [of "rev ds"] assms(2,3) pushes_script_length [of ds] by (simp add: vm_limit_defs)
  then have "EvaluateScript C lock (rev ds) (c\<lparr>gasUsed := word_of_nat (unat (gasUsed c) + pushes_gas ds)\<rparr>) =
      map_option (\<lambda>v. (stack v, ctx v))
        (eval_loop C lock lock (vm_at (unat (gasUsed c) + pushes_gas ds) (rev ds) (sum_length ds) c))"
    by (rule evaluate_lock [OF assms(6,4)])
  then show ?thesis
    using evaluate_pushes [OF assms(1-5), of C]
    by (auto simp: VerifyScripts_def simp del: of_nat_add split: option.splits)
qed

lemma canonical_push_bound: "pushable d \<Longrightarrow> length (canonical_push d) \<le> length d + 3"
  by (simp add: canonical_push_def Let_def)

lemma truth_bool_item [simp]: "truth (bool_item b) \<longleftrightarrow> b"
  by (simp add: truth_def bool_item_def)

lemma p2pkh_analysis: "length h = 20 \<Longrightarrow> AnalyzeScriptResources hh (p2pkh_script h) \<noteq> None"
proof (rule analysis_accepts)
  assume h: "length h = 20"
  then have "h \<noteq> []" by auto
  with h have "opcodes_of (canonical_push h @ [OP_EQUALVERIFY, OP_CHECKSIG]) = Some [OP_EQUALVERIFY, OP_CHECKSIG]"
    using opcodes_of_push [of h "[OP_EQUALVERIFY, OP_CHECKSIG]"]
    by (auto simp: opcodes_of.simps(2) is_push_opcode_def)
  then show "opcodes_of (p2pkh_script h) = Some [OP_DUP, OP_HASH160, OP_EQUALVERIFY, OP_CHECKSIG]"
    using h by (simp add: p2pkh_script_push opcodes_of.simps(2) [of OP_DUP] opcodes_of.simps(2) [of OP_HASH160]
        is_push_opcode_def)
qed (simp_all add: IsSupportedOpcode_def supported_opcodes_def vm_limit_defs)

text \<open>
  C25: pay-to-public-key-hash means what it says. With a signature and a public key pushed
  canonically, the input verifies exactly when the key hashes to the locked hash and the signature
  is a canonical signature of the input's signature hash under that key; the gas is exact and
  nothing else of the context changes.
\<close>

theorem p2pkh_spend_exact:
  assumes "spending c" "length h = 20" "\<And>x. length (RIPEMD160 C x) = 20" "length sg + length pk \<le> 9000"
    and "unat (gasUsed c) + push_gas sg + push_gas pk + 147 \<le> unat (gasLimit c)"
  shows "VerifyScripts C (canonical_push sg @ canonical_push pk) (p2pkh_script h) c =
    (if computeHash160 C pk = h \<and> signatureCheckFunc C pk sg (sighash c)
     then Some (c\<lparr>gasUsed := word_of_nat (unat (gasUsed c) + push_gas sg + push_gas pk + 147)\<rparr>) else None)"
proof -
  let ?g = "unat (gasUsed c) + push_gas sg + push_gas pk"
  have e: "execStack c = [True]" "ctx_tx c \<noteq> None" "ctx_scriptPubKey c \<noteq> None"
    using assms(1) by (simp_all add: spending_def)
  have "VerifyScripts C (pushes_script [sg, pk]) (p2pkh_script h) c =
    (case eval_loop C (p2pkh_script h) (p2pkh_script h) (vm_at (unat (gasUsed c) + pushes_gas [sg, pk]) (rev [sg, pk]) (sum_length [sg, pk]) c) of
       None \<Rightarrow> None
     | Some v \<Rightarrow> if stack v \<noteq> [] \<and> truth (hd (stack v)) then Some (ctx v) else None)"
    by (rule verify_pushes)
      (use assms e p2pkh_analysis canonical_push_bound [of sg] canonical_push_bound [of pk] in \<open>simp_all add: vm_limit_defs\<close>)
  moreover have "eval_loop C (p2pkh_script h) (p2pkh_script h) (vm_at ?g [pk, sg] (length pk + length sg) c) =
    (if computeHash160 C pk = h
     then Some (vm_at (?g + 147) [bool_item (signatureCheckFunc C pk sg (sighash c))] 1 c) else None)"
    by (rule p2pkh_lock) (use assms e in simp_all)
  ultimately show ?thesis by (simp add: add.assoc add.commute [of "length pk"] vm_at_sel)
qed

subsection \<open>Running out of gas\<close>

lemma unat_gas_at: "g \<le> unat (gasLimit c) \<Longrightarrow> unat (word_of_nat g :: u64) = g"
  using unsigned_less [of "gasLimit c", where 'a = nat] by (intro unat_word_of_nat_less) simp

text \<open>What a run that did not fail tells about the gas it had.\<close>

lemma gas_room:
  assumes "gas n (vm_at g s b c) \<noteq> None" "g \<le> unat (gasLimit c)"
  shows "g + unat n \<le> unat (gasLimit c)"
proof -
  obtain v where v: "gas n (vm_at g s b c) = Some v" using assms(1) by blast
  have "unat (gasUsed (ctx v)) = g + unat n"
    using gas_exact(1) [OF v] unat_gas_at [OF assms(2)] by (simp add: vm_at_sel del: unat_of_nat)
  moreover have "gasUsed (ctx v) \<le> gasLimit c"
    using gas_exact(2) [OF v] gas_frame(7) [OF v] by (simp add: vm_at_sel)
  ultimately show ?thesis by (simp add: word_le_nat_alt)
qed

lemma eval_op_room:
  assumes "eval_loop C scr (op # pc) (vm_at g s b c) \<noteq> None" "g \<le> unat (gasLimit c)"
  shows "g + 1 \<le> unat (gasLimit c)"
proof -
  have "gas 1 (vm_at g s b c) \<noteq> None"
    using assms(1) by (auto simp: eval_loop_Cons step_def split: option.splits)
  then show ?thesis using gas_room [of 1 g s b c] assms(2) by simp
qed

lemma eval_push_room:
  assumes "eval_loop C scr (canonical_push d @ pc) (vm_at g s b c) \<noteq> None"
    "pushable d" "execStack c \<noteq> []" "hd (execStack c)" "length s < MAX_STACK_ITEMS"
    "b + length d \<le> MAX_STACK_BYTES" "g \<le> unat (gasLimit c)"
  shows "g + push_gas d \<le> unat (gasLimit c)"
proof (cases "d = []")
  case True
  have o: "canonical_push d @ pc = OP_0 # pc" using True by (simp add: canonical_push_def)
  have e: "eval_loop C scr (OP_0 # pc) (vm_at g s b c) \<noteq> None" using assms(1) unfolding o .
  have g1: "g + 1 \<le> unat (gasLimit c)" using eval_op_room [OF e assms(7)] .
  have "gas 1 (vm_at (Suc g) ([] # s) b c) \<noteq> None"
    using e assms(3-6) True gas_at [of g 1 c s b] push_at [of "[]" s b "Suc g" c] g1
    by (auto simp: eval_loop_Cons step_defs vm_at_sel push_span_def exec_op_def op_0_def split: option.splits)
  then show ?thesis using gas_room [of 1 "Suc g"] g1 True by (auto simp: push_gas_def)
next
  case False
  obtain op r where o: "canonical_push d @ pc = op # r" "push_span op r = Some (Some (length d, d @ pc))"
    "op \<notin> conditionals"
    using push_span_canonical [OF assms(2) False, of pc] by blast
  have u: "unat (word_of_nat (length d) :: u64) = length d"
    using assms(2) by (intro unat_word_of_nat_less) simp
  have g1: "g + 1 \<le> unat (gasLimit c)" using eval_op_room [of C scr op r] assms(1,7) by (simp add: o)
  have p: "pushStack d (vm_at (Suc g) s b c) = Some (vm_at (Suc g) (d # s) (b + length d) c)"
    using assms by (intro push_at) (simp_all add: vm_limit_defs)
  have "gas (word_of_nat (length d)) (vm_at (Suc g) (d # s) (b + length d) c) \<noteq> None"
    using assms(1,3,4) o p gas_at [of g 1 c s b] g1
    by (auto simp: eval_loop_Cons step_defs vm_at_sel conditionals_def split: option.splits Option.bind_splits)
  then show ?thesis
    using gas_room [of "word_of_nat (length d)" "Suc g" "d # s" "b + length d" c] g1 False u
    by (simp add: push_gas_def del: unat_of_nat)
qed

lemma eval_pushes_room:
  assumes "eval_loop C scr (pushes_script ds) (vm_at g s b c) \<noteq> None"
    "list_all pushable ds" "execStack c = [True]" "length s + length ds \<le> MAX_STACK_ITEMS"
    "b + sum_length ds \<le> MAX_STACK_BYTES" "g \<le> unat (gasLimit c)"
  shows "g + pushes_gas ds \<le> unat (gasLimit c)"
  using assms
proof (induction ds arbitrary: g s b)
  case (Cons d ds)
  have r: "g + push_gas d \<le> unat (gasLimit c)"
    by (rule eval_push_room [of C scr d "pushes_script ds" g s b c]) (use Cons.prems in auto)
  have "eval_loop C scr (canonical_push d @ pushes_script ds) (vm_at g s b c) =
      eval_loop C scr (pushes_script ds) (vm_at (g + push_gas d) (d # s) (b + length d) c)"
    by (rule eval_push) (use Cons.prems r in auto)
  then show ?case using Cons.IH [of "g + push_gas d" "d # s" "b + length d"] Cons.prems r
    by (simp add: add.assoc)
qed simp

lemma verify_pushes_room:
  assumes "VerifyScripts C (pushes_script ds) lock c \<noteq> None"
    "list_all pushable ds" "length (pushes_script ds) \<le> MAX_SCRIPT_BYTES" "length ds \<le> MAX_STACK_ITEMS"
    "execStack c = [True]" "unat (gasUsed c) \<le> unat (gasLimit c)"
  shows "unat (gasUsed c) + pushes_gas ds \<le> unat (gasLimit c)"
proof -
  have "vm_at (unat (gasUsed c)) [] 0 c = \<lparr>stack = [], stackBytes = 0, ctx = c\<rparr>" by (simp add: vm_at_def)
  moreover have "measureInitialStackBytes [] = Some 0" by (simp add: measureInitialStackBytes_def)
  ultimately have "eval_loop C (pushes_script ds) (pushes_script ds) (vm_at (unat (gasUsed c)) [] 0 c) \<noteq> None"
    using assms(1) by (auto simp: VerifyScripts_def EvaluateScript_def bind_eq_Some_conv split: option.splits if_splits)
  then show ?thesis
    by (rule eval_pushes_room) (use assms pushes_script_length [of ds] in \<open>simp_all add: vm_limit_defs\<close>)
qed

subsection \<open>The state anchor\<close>

lemma store_gas:
  assumes "IsLogicalKeyAllowed key" "IsValueAllowed val"
  shows "\<exists>n. ComputeStoreGas (length key) (length val) = Some n \<and> unat n = 1000 + 100 * (2 * length key + length val)"
proof -
  let ?n = "1000 + 100 * (2 * length key + length val)"
  have k: "0 < length key" "length key \<le> 128" "length val \<le> 4096"
    using assms by (auto simp: IsLogicalKeyAllowed_def IsValueAllowed_def state_limit_defs)
  then have "\<not> length key * 2 + length val > 184467440737095506" by linarith
  then have "ComputeStoreGas (length key) (length val) =
      Some (STORE_GAS_BASE + word_of_nat (length key * 2 + length val) * STORE_GAS_PER_ACCOUNTED_BYTE)"
    using k unfolding ComputeStoreGas_def Let_def unat_store_gas_bound
    by (simp only: MAX_LOGICAL_KEY_BYTES_def MAX_VALUE_BYTES_def) simp
  moreover have "STORE_GAS_BASE + word_of_nat (length key * 2 + length val) * STORE_GAS_PER_ACCOUNTED_BYTE =
      (word_of_nat ?n :: u64)"
    by (simp add: STORE_GAS_BASE_def STORE_GAS_PER_ACCOUNTED_BYTE_def algebra_simps)
  moreover have "unat (word_of_nat ?n :: u64) = ?n"
    by (rule unat_word_of_nat_less) (use k in simp)
  ultimately show ?thesis by metis
qed

lemma eval_small_1:
  assumes "execStack c \<noteq> []" "hd (execStack c)" "length s < MAX_STACK_ITEMS" "b + 1 \<le> MAX_STACK_BYTES"
    "g + 2 \<le> unat (gasLimit c)"
  shows "eval_loop C scr (OP_1 # pc) (vm_at g s b c) = eval_loop C scr pc (vm_at (g + 2) ([1] # s) (b + 1) c)"
proof -
  have "exec_op C scr OP_1 (vm_at (g + 1) s b c) = Some (vm_at (g + 2) ([1] # s) (b + 1) c)"
    using assms push_at [of "[1]" s b "g + 1" c] gas_to [of "g + 2" "g + 1" 1 c "[1] # s" "b + 1"]
    by (simp add: exec_op_def op_small_int_def MAX_STACK_ITEM_BYTES_def)
  then show ?thesis using assms eval_op [of OP_1 c g C scr pc s b]
    by (simp add: conditionals_def is_push_opcode_def)
qed

text \<open>The gas of a state call.\<close>

definition anchor_gas :: "string \<Rightarrow> bytes \<Rightarrow> nat" where
  "anchor_gas key val =
     push_gas (bytes_of_string key) + push_gas val + 1003 + 100 * (2 * length key + length val)"

definition after_call :: "string \<Rightarrow> bytes \<Rightarrow> state_map \<Rightarrow> 'j ScriptExecutionContext \<Rightarrow> 'j ScriptExecutionContext" where
  "after_call key val m c =
     c\<lparr>gasUsed := word_of_nat (unat (gasUsed c) + anchor_gas key val), state := Some (AList.update key val m)\<rparr>"

lemma anchor_analysis: "AnalyzeScriptResources h [OP_STORE, OP_1] \<noteq> None"
  by (rule analysis_accepts [of _ "[OP_STORE, OP_1]"])
    (simp_all add: opcodes_of.simps(2) is_push_opcode_def IsSupportedOpcode_def supported_opcodes_def vm_limit_defs)

lemma anchor_loop:
  assumes "execStack c = [True]" "hasContractStateContext c" "state c = Some m"
    and "ComputeStoreGas (length k) (length val) = Some n" "g + 1 \<le> unat (gasLimit c)"
  shows "eval_loop C scr [OP_STORE, OP_1] (vm_at g [val, k] (length k + length val) c) =
    (if CanApplyStateWrite m (string_of_bytes k) val = None \<or> unat (gasLimit c) < g + 1 + unat n + 2 then None
     else Some (vm_at (g + 1 + unat n + 2) [[1]] 1 (c\<lparr>state := Some (AList.update (string_of_bytes k) val m)\<rparr>)))"
proof -
  let ?key = "string_of_bytes k"
  let ?c = "c\<lparr>state := Some (AList.update ?key val m)\<rparr>"
  let ?v = "vm_at (g + 1) [val, k] (length k + length val) c"
  have op: "eval_loop C scr [OP_STORE, OP_1] (vm_at g [val, k] (length k + length val) c) =
      (case exec_op C scr OP_STORE ?v of None \<Rightarrow> None | Some v \<Rightarrow> eval_loop C scr [OP_1] v)"
    using eval_op [of OP_STORE c g C scr "[OP_1]" "[val, k]" "length k + length val"] assms(1,5)
    by (simp add: conditionals_def is_push_opcode_def)
  have ex: "exec_op C scr OP_STORE ?v =
      (if CanApplyStateWrite m ?key val = None then None
       else case gas n (vm_at (g + 1) [] 0 c) of None \<Rightarrow> None
         | Some v \<Rightarrow> Some (v\<lparr>ctx := (ctx v)\<lparr>state := Some (AList.update ?key val m)\<rparr>\<rparr>))"
    using assms(2-4)
    by (simp add: exec_op_def op_store_def vm_at_sel pop_at hasContractStateContext_def Let_def
        split: option.splits Option.bind_splits)
  have stored: "exec_op C scr OP_STORE ?v = Some (vm_at (g + 1 + unat n) [] 0 ?c)"
    if "CanApplyStateWrite m ?key val \<noteq> None" "g + 1 + unat n \<le> unat (gasLimit c)"
    using that ex gas_to [of "g + 1 + unat n" "g + 1" n c "[]" 0] by simp (simp add: vm_at_def)
  have short: "gas n (vm_at (g + 1) [] 0 c) = None" if "unat (gasLimit c) < g + 1 + unat n"
    by (rule ccontr) (use gas_room [of n "g + 1" "[]" 0 c] that assms(5) in simp)
  have one: "eval_loop C scr [OP_1] (vm_at h [] 0 ?c) =
      (if h + 2 \<le> unat (gasLimit c) then Some (vm_at (h + 2) [[1]] 1 ?c) else None)"
    if "h \<le> unat (gasLimit c)" for h
  proof (cases "h + 2 \<le> unat (gasLimit c)")
    case True
    then show ?thesis
      using eval_small_1 [of ?c "[]" 0 h C scr "[]"] assms(1) by (simp add: vm_limit_defs eval_loop_Nil vm_at_sel)
  next
    case False
    have "eval_loop C scr [OP_1] (vm_at h [] 0 ?c) = None"
    proof (rule ccontr)
      assume some: "eval_loop C scr [OP_1] (vm_at h [] 0 ?c) \<noteq> None"
      have h1: "h + 1 \<le> unat (gasLimit c)" using eval_op_room [OF some] that by simp
      have "gas 1 (vm_at (h + 1) [[1]] 1 ?c) \<noteq> None"
        using some eval_op [of OP_1 ?c h C scr "[]" "[]" 0] push_at [of "[1]" "[]" 0 "h + 1" ?c] assms(1) h1
        by (auto simp: conditionals_def is_push_opcode_def exec_op_def op_small_int_def vm_limit_defs split: option.splits)
      then show False using gas_room [of 1 "h + 1" "[[1]]" 1 ?c] h1 False by simp
    qed
    then show ?thesis using False by simp
  qed
  show ?thesis
  proof (cases "CanApplyStateWrite m ?key val = None \<or> unat (gasLimit c) < g + 1 + unat n")
    case True
    then show ?thesis using op ex short by auto
  next
    case False
    then show ?thesis using op stored one [of "g + 1 + unat n"] by (auto simp: not_less)
  qed
qed

text \<open>The run of a canonical state call, whatever gas it has.\<close>

lemma anchor_run:
  assumes "execStack c = [True]" "hasContractStateContext c" "state c = Some m"
    and "BuildStatefulKvV1UnlockScript key val = Some unlock" "gasUsed c \<le> gasLimit c"
  shows "VerifyScripts C unlock [OP_STORE, OP_1] c =
    (if CanApplyStateWrite m key val \<noteq> None \<and> unat (gasUsed c) + anchor_gas key val \<le> unat (gasLimit c)
     then Some (after_call key val m c) else None)"
proof -
  let ?k = "bytes_of_string key"
  have ok: "IsLogicalKeyAllowed key" "IsValueAllowed val" "unlock = pushes_script [?k, val]"
    using assms(4) by (auto simp: kv_build_eq kv_script_def split: if_splits)
  then have l: "0 < length key" "length key \<le> 128" "length val \<le> 4096"
    by (auto simp: IsLogicalKeyAllowed_def IsValueAllowed_def state_limit_defs)
  have u: "unat (gasUsed c) \<le> unat (gasLimit c)" using assms(5) by (simp add: word_le_nat_alt)
  obtain n where n: "ComputeStoreGas (length ?k) (length val) = Some n"
    "unat n = 1000 + 100 * (2 * length key + length val)"
    using store_gas [OF ok(1,2)] by auto
  define g where "g = unat (gasUsed c) + pushes_gas [?k, val]"
  have ps: "list_all pushable [?k, val]" "length (pushes_script [?k, val]) \<le> MAX_SCRIPT_BYTES"
    "length [?k, val] \<le> MAX_STACK_ITEMS"
    using l canonical_push_bound [of ?k] canonical_push_bound [of val] by (simp_all add: vm_limit_defs)
  have G: "unat (gasUsed c) + anchor_gas key val = g + 1 + unat n + 2"
    using n(2) by (simp add: anchor_gas_def g_def)
  show ?thesis
  proof (cases "g \<le> unat (gasLimit c)")
    case False
    then have "VerifyScripts C unlock [OP_STORE, OP_1] c = None"
      using verify_pushes_room [of C "[?k, val]" "[OP_STORE, OP_1]" c] ps assms(1) u ok(3) g_def by blast
    then show ?thesis using False G by simp
  next
    case True
    have v: "VerifyScripts C unlock [OP_STORE, OP_1] c =
      (case eval_loop C [OP_STORE, OP_1] [OP_STORE, OP_1] (vm_at g (rev [?k, val]) (sum_length [?k, val]) c) of
         None \<Rightarrow> None
       | Some v \<Rightarrow> if stack v \<noteq> [] \<and> truth (hd (stack v)) then Some (ctx v) else None)"
      unfolding ok(3) g_def
      by (rule verify_pushes [OF ps assms(1) _ anchor_analysis]) (use True g_def in simp)
    show ?thesis
    proof (cases "g + 1 \<le> unat (gasLimit c)")
      case True
      show ?thesis
        using v anchor_loop [OF assms(1-3) n(1) True, of C "[OP_STORE, OP_1]"] G
        by (auto simp: vm_at_sel truth_def after_call_def not_less)
    next
      case False
      then have "eval_loop C [OP_STORE, OP_1] [OP_STORE, OP_1] (vm_at g (rev [?k, val]) (sum_length [?k, val]) c) = None"
        using eval_op_room [of C "[OP_STORE, OP_1]" OP_STORE "[OP_1]" g] \<open>g \<le> unat (gasLimit c)\<close> by blast
      then show ?thesis using v False G by simp
    qed
  qed
qed

text \<open>
  A state call writes exactly its key. Run on the state anchor \<open>OP_STORE OP_1\<close> of a contract, the
  canonical unlock script of a key and a value verifies exactly when the write is within the
  resource policy and the gas suffices to the last unit, and its only effects are that write and
  the gas it costs.
\<close>

theorem state_anchor_exact:
  assumes "execStack c = [True]" "hasContractStateContext c" "state c = Some m"
    and "BuildStatefulKvV1UnlockScript key val = Some unlock" "gasUsed c \<le> gasLimit c"
  shows "VerifyScripts C unlock [OP_STORE, OP_1] c =
    (if CanApplyStateWrite m key val \<noteq> None \<and>
        unat (gasUsed c) + push_gas (bytes_of_string key) + push_gas val + 1003 +
          100 * (2 * length key + length val) \<le> unat (gasLimit c)
     then Some (c\<lparr>gasUsed := word_of_nat (unat (gasUsed c) + push_gas (bytes_of_string key) + push_gas val +
                                          1003 + 100 * (2 * length key + length val)),
                  state := Some (AList.update key val m)\<rparr>)
     else None)"
  unfolding anchor_run [OF assms] anchor_gas_def after_call_def by (simp add: add.assoc)

subsection \<open>Concrete spends\<close>

definition vm_crypto :: crypto where
  "vm_crypto = toy_crypto\<lparr>RIPEMD160 := \<lambda>b. take 20 (b @ replicate 20 0)\<rparr>"

definition empty_tx :: "unit Transaction" where
  "empty_tx = \<lparr>isCoinbase = False, txid = '''', sender = '''', vin = [], vout = [], version = 1,
     Transaction.lockTime = 0, tokenMetadata = []\<rparr>"

definition spend_context :: "unit ScriptExecutionContext" where
  "spend_context = plain_context\<lparr>ctx_tx := Some empty_tx, ctx_scriptPubKey := Some [], sighash := replicate 32 9\<rparr>"

lemma length_vm_ripemd [simp]: "length (RIPEMD160 vm_crypto x) = 20"
  by (simp add: vm_crypto_def)

definition toy_signature :: bytes where "toy_signature = replicate 8 0 @ [1]"

lemma toy_signature_checks: "signatureCheckFunc vm_crypto [7] toy_signature (sighash spend_context)"
  by code_simp

theorem p2pkh_spend_exact_witness:
  "\<exists>c'. VerifyScripts vm_crypto (canonical_push toy_signature @ canonical_push [7])
      (p2pkh_script (computeHash160 vm_crypto [7])) spend_context = Some c' \<and> gasUsed c' = 159"
proof -
  have s: "spending spend_context" "gasUsed spend_context = 0" "gasLimit spend_context = 1000000"
    by (simp_all add: spending_def spend_context_def plain_context_def new_context_def)
  have h: "length (computeHash160 vm_crypto [7]) = 20" by (simp add: computeHash160_def)
  have p: "push_gas toy_signature = 10" "push_gas [7] = 2" "length toy_signature = 9"
    by (simp_all add: push_gas_def toy_signature_def)
  show ?thesis
    using p2pkh_spend_exact [OF s(1) h length_vm_ripemd, of toy_signature "[7]"] toy_signature_checks
    by (simp add: p s(2,3))
qed

theorem state_anchor_exact_witness:
  "\<exists>c'. VerifyScripts toy_crypto (kv_script ''a'' [0x62]) [OP_STORE, OP_1] stateful_context = Some c' \<and>
     state c' = Some [(''a'', [0x62])]"
proof -
  have s: "execStack stateful_context = [True]" "state stateful_context = Some []"
    "gasUsed stateful_context = 0" "gasLimit stateful_context = 1000000"
    by (simp_all add: stateful_context_def plain_context_def new_context_def)
  have h: "hasContractStateContext stateful_context" by code_simp
  have b: "BuildStatefulKvV1UnlockScript ''a'' [0x62] = Some (kv_script ''a'' [0x62])"
    by (simp add: kv_build_eq IsLogicalKeyAllowed_def IsValueAllowed_def state_limit_defs)
  have w: "CanApplyStateWrite [] ''a'' [0x62] \<noteq> None"
    by (simp add: state_eval)
  have g: "push_gas (bytes_of_string ''a'') = 2" "push_gas [0x62] = 2" by (simp_all add: push_gas_def)
  have l: "gasUsed stateful_context \<le> gasLimit stateful_context" by (simp add: s(3))
  show ?thesis
    using state_anchor_exact [OF s(1) h s(2) b l, of toy_crypto] w by (simp only: g s(3,4)) simp
qed

end
