(* ===== verification/Vm_Contracts.thy ===== *)
theory Vm_Contracts
  imports Vm_Locks
begin

text \<open>
  Contracts with branches and one-time signatures on the machine: the exact meaning of the atomic
  swap (HTLC), of the time lock, and of the quantum (WOTS) lock with the wallet that spends it.
\<close>

subsection \<open>Branches, locks and skipped code\<close>

definition set_exec :: "bool list \<Rightarrow> 'j ScriptExecutionContext \<Rightarrow> 'j ScriptExecutionContext" where
  "set_exec e c = c\<lparr>execStack := e\<rparr>"

lemma set_exec_sel [simp]:
  "execStack (set_exec e c) = e" "gasLimit (set_exec e c) = gasLimit c" "ctx_tx (set_exec e c) = ctx_tx c"
  "ctx_scriptPubKey (set_exec e c) = ctx_scriptPubKey c" "sighash (set_exec e c) = sighash c"
  "medianTimePast (set_exec e c) = medianTimePast c" "inputIndex (set_exec e c) = inputIndex c"
  "set_exec e (set_exec e' c) = set_exec e c" "execStack c = e \<Longrightarrow> set_exec e c = c"
  by (simp_all add: set_exec_def)

lemma step_branch:
  assumes "op \<in> conditionals" "g + 1 \<le> unat (gasLimit c)"
  shows "step C scr op pc (vm_at g s b c) = map_option (Next pc) (exec_branch op (vm_at (g + 1) s b c))"
  using assms gas_at [of g 1 c s b] by (auto simp: step_defs conditionals_def)

lemma eval_if:
  assumes "execStack c \<noteq> []" "hd (execStack c)" "g + 6 \<le> unat (gasLimit c)"
  shows "eval_loop C scr (OP_IF # pc) (vm_at g (x # s) b c) =
    eval_loop C scr pc (vm_at (g + 6) s (b - length x) (set_exec (truth x # execStack c) c))"
proof -
  have "exec_branch OP_IF (vm_at (g + 1) (x # s) b c) =
      Some (vm_at (g + 6) s (b - length x) (set_exec (truth x # execStack c) c))"
    using assms gas_to [of "g + 6" "g + 1" 5 "set_exec (truth x # execStack c) c" s "b - length x"]
    by (simp add: exec_branch_def op_if_def vm_at_sel pop_at set_exec_def)
  then show ?thesis using assms step_branch [of OP_IF g c C scr pc "x # s" b]
    by (simp add: conditionals_def eval_loop_Cons)
qed

lemma eval_else:
  assumes "execStack c = i # p # es" "g + 6 \<le> unat (gasLimit c)"
  shows "eval_loop C scr (OP_ELSE # pc) (vm_at g s b c) =
    eval_loop C scr pc (vm_at (g + 6) s b (set_exec ((p \<and> \<not> i) # p # es) c))"
proof -
  have "exec_branch OP_ELSE (vm_at (g + 1) s b c) = Some (vm_at (g + 6) s b (set_exec ((p \<and> \<not> i) # p # es) c))"
    using assms gas_to [of "g + 6" "g + 1" 5 "set_exec ((p \<and> \<not> i) # p # es) c" s b]
    by (simp add: exec_branch_def op_else_def vm_at_sel set_exec_def)
  then show ?thesis using assms step_branch [of OP_ELSE g c C scr pc s b]
    by (simp add: conditionals_def eval_loop_Cons)
qed

lemma eval_endif:
  assumes "execStack c = i # p # es" "g + 6 \<le> unat (gasLimit c)"
  shows "eval_loop C scr (OP_ENDIF # pc) (vm_at g s b c) =
    eval_loop C scr pc (vm_at (g + 6) s b (set_exec (p # es) c))"
proof -
  have "exec_branch OP_ENDIF (vm_at (g + 1) s b c) = Some (vm_at (g + 6) s b (set_exec (p # es) c))"
    using assms gas_to [of "g + 6" "g + 1" 5 "set_exec (p # es) c" s b]
    by (simp add: exec_branch_def op_endif_def vm_at_sel set_exec_def)
  then show ?thesis using assms step_branch [of OP_ENDIF g c C scr pc s b]
    by (simp add: conditionals_def eval_loop_Cons)
qed

lemma eval_skip_op:
  assumes "execStack c = False # es" "op \<notin> conditionals" "\<not> is_push_opcode op" "g + 1 \<le> unat (gasLimit c)"
  shows "eval_loop C scr (op # pc) (vm_at g s b c) = eval_loop C scr pc (vm_at (g + 1) s b c)"
  using assms gas_to [of "g + 1" g 1 c s b]
  by (simp add: eval_loop_Cons step_defs vm_at_sel conditionals_def push_span_None [THEN iffD2])

lemma eval_skip_push:
  assumes "execStack c = False # es" "pushable d" "d \<noteq> []" "g + 1 \<le> unat (gasLimit c)"
  shows "eval_loop C scr (canonical_push d @ pc) (vm_at g s b c) = eval_loop C scr pc (vm_at (g + 1) s b c)"
  using push_span_canonical [OF assms(2,3), of pc] assms gas_to [of "g + 1" g 1 c s b]
  by (auto simp: eval_loop_Cons step_defs vm_at_sel conditionals_def)

lemma eval_drop:
  assumes "execStack c \<noteq> []" "hd (execStack c)" "g + 2 \<le> unat (gasLimit c)"
  shows "eval_loop C scr (OP_DROP # pc) (vm_at g (x # s) b c) =
    eval_loop C scr pc (vm_at (g + 2) s (b - length x) c)"
proof -
  have "exec_op C scr OP_DROP (vm_at (g + 1) (x # s) b c) = Some (vm_at (g + 2) s (b - length x) c)"
    using assms gas_to [of "g + 2" "g + 1" 1 c s "b - length x"]
    by (simp add: exec_op_def op_drop_def vm_at_sel pop_at)
  then show ?thesis using assms eval_op [of OP_DROP c g C scr pc "x # s" b]
    by (simp add: conditionals_def is_push_opcode_def)
qed

text \<open>The spending transaction and the parent chain's median time have reached a lock time.\<close>

definition matured :: "u32 \<Rightarrow> 'j ScriptExecutionContext \<Rightarrow> bool" where
  "matured t c \<longleftrightarrow>
     (case ctx_tx c of
        None \<Rightarrow> False
      | Some tx \<Rightarrow>
          500000000 \<le> t \<and> t \<le> medianTimePast c \<and> t \<le> Transaction.lockTime tx \<and>
          inputIndex c < length (vin tx) \<and> sequence (vin tx ! inputIndex c) \<noteq> 0xffffffff)"

lemma matured_set_exec [simp]: "matured t (set_exec e c) = matured t c"
  by (simp add: matured_def split: option.splits)

lemma eval_cltv:
  assumes "execStack c \<noteq> []" "hd (execStack c)" "g + 11 \<le> unat (gasLimit c)"
  shows "eval_loop C scr (OP_CHECKLOCKTIMEVERIFY # pc) (vm_at g (le_bytes 4 (t :: u32) # s) b c) =
    (if matured t c then eval_loop C scr pc (vm_at (g + 11) (le_bytes 4 t # s) b c) else None)"
proof -
  have "(le_val (le_bytes 4 t) :: u32) = t" by (rule le_val_le_bytes) simp
  then have "exec_op C scr OP_CHECKLOCKTIMEVERIFY (vm_at (g + 1) (le_bytes 4 t # s) b c) =
      (if matured t c then Some (vm_at (g + 11) (le_bytes 4 t # s) b c) else None)"
    using assms gas_to [of "g + 11" "g + 1" 10 c "le_bytes 4 t # s" b]
    by (auto simp: exec_op_def op_checklocktimeverify_def vm_at_sel matured_def not_less not_le
        split: option.splits simp del: le_bytes.simps)
  then show ?thesis using assms eval_op [of OP_CHECKLOCKTIMEVERIFY c g C scr pc "le_bytes 4 t # s" b]
    by (simp add: conditionals_def is_push_opcode_def)
qed

subsection \<open>The atomic swap\<close>

lemma htlc_layout_push:
  assumes "length (secretHash160 i) = 20" "length (claimPubkey i) = 33" "length (refundPubkey i) = 33"
  shows "htlc_layout i =
    OP_IF # OP_HASH160 # canonical_push (secretHash160 i) @ OP_EQUALVERIFY # canonical_push (claimPubkey i) @
    OP_CHECKSIG # OP_ELSE # canonical_push (le_bytes 4 (refundLockTime i)) @
    OP_CHECKLOCKTIMEVERIFY # OP_DROP # canonical_push (refundPubkey i) @ [OP_CHECKSIG, OP_ENDIF]"
  using assms by (simp add: htlc_layout_def canonical_push_def)

lemma htlc_analysis:
  assumes "length (secretHash160 i) = 20" "length (claimPubkey i) = 33" "length (refundPubkey i) = 33"
  shows "AnalyzeScriptResources h (htlc_layout i) \<noteq> None"
proof -
  have ne: "secretHash160 i \<noteq> []" "claimPubkey i \<noteq> []" "refundPubkey i \<noteq> []" "le_bytes 4 (refundLockTime i) \<noteq> []"
    using assms by (auto simp del: le_bytes.simps dest: arg_cong [where f = length])
  have o: "opcodes_of (op # r) = map_option ((#) op) (opcodes_of r)" if "\<not> is_push_opcode op" for op r
    using that by (simp add: opcodes_of.simps(2))
  have "opcodes_of (htlc_layout i) = Some [OP_IF, OP_HASH160, OP_EQUALVERIFY, OP_CHECKSIG, OP_ELSE,
      OP_CHECKLOCKTIMEVERIFY, OP_DROP, OP_CHECKSIG, OP_ENDIF]"
    using ne assms by (simp add: htlc_layout_push o is_push_opcode_def del: le_bytes.simps)
  then show ?thesis
    by (rule analysis_accepts)
      (use htlc_layout_parts(1) [OF assms] in \<open>simp_all add: IsSupportedOpcode_def supported_opcodes_def vm_limit_defs\<close>)
qed

lemma htlc_claim_run:
  assumes "spending c" "length (secretHash160 i) = 20" "length (claimPubkey i) = 33" "length (refundPubkey i) = 33"
    and "\<And>x. length (RIPEMD160 C x) = 20" "length sg + length sec \<le> 9000" "g + 201 \<le> unat (gasLimit c)"
  shows "eval_loop C scr (htlc_layout i) (vm_at g [[1], sec, sg] (1 + length sec + length sg) c) =
    (if computeHash160 C sec = secretHash160 i
     then Some (vm_at (g + 201) [bool_item (signatureCheckFunc C (claimPubkey i) sg (sighash c))] 1 c) else None)"
proof -
  have h: "length (computeHash160 C x) = 20" for x using assms(5) by (simp add: computeHash160_def)
  have ne: "secretHash160 i \<noteq> []" "claimPubkey i \<noteq> []" "refundPubkey i \<noteq> []" "le_bytes 4 (refundLockTime i) \<noteq> []"
    using assms by (auto simp del: le_bytes.simps dest: arg_cong [where f = length])
  have e: "execStack c = [True]" "ctx_tx c \<noteq> None" "ctx_scriptPubKey c \<noteq> None" "truth [1]"
    using assms(1) by (simp_all add: spending_def truth_def)
  show ?thesis
    using assms e h ne
    by (simp add: htlc_layout_push eval_if eval_hash160 eval_push eval_equalverify eval_checksig eval_else eval_endif
        eval_skip_op eval_skip_push conditionals_def is_push_opcode_def vm_limit_defs push_gas_def eval_loop_Nil
        vm_at_sel eq_commute [of "secretHash160 i"] del: le_bytes.simps)
qed

lemma htlc_refund_run:
  assumes "spending c" "length (secretHash160 i) = 20" "length (claimPubkey i) = 33" "length (refundPubkey i) = 33"
    and "length sg \<le> 9000" "g + 176 \<le> unat (gasLimit c)"
  shows "eval_loop C scr (htlc_layout i) (vm_at g [[], sg] (length sg) c) =
    (if matured (refundLockTime i) c
     then Some (vm_at (g + 176) [bool_item (signatureCheckFunc C (refundPubkey i) sg (sighash c))] 1 c) else None)"
proof -
  have ne: "secretHash160 i \<noteq> []" "claimPubkey i \<noteq> []" "refundPubkey i \<noteq> []" "le_bytes 4 (refundLockTime i) \<noteq> []"
    using assms by (auto simp del: le_bytes.simps dest: arg_cong [where f = length])
  have e: "execStack c = [True]" "ctx_tx c \<noteq> None" "ctx_scriptPubKey c \<noteq> None" "\<not> truth []"
    using assms(1) by (simp_all add: spending_def truth_def)
  show ?thesis
    using assms e ne
    by (simp add: htlc_layout_push eval_if eval_push eval_checksig eval_else eval_endif eval_cltv eval_drop
        eval_skip_op eval_skip_push conditionals_def is_push_opcode_def vm_limit_defs push_gas_def eval_loop_Nil
        vm_at_sel del: le_bytes.simps)
qed

text \<open>
  C26: an atomic swap pays exactly two ways. With a signature, a secret and \<open>true\<close>, the canonical
  HTLC verifies precisely when the secret hashes to the locked hash and the signature is the
  claimant's. With a signature and \<open>false\<close> it verifies precisely when the lock time has been reached
  by the parent chain's median time and by the transaction, whose input is not final, and the
  signature is the refunder's. No secret or signature of one path opens the other.
\<close>

theorem htlc_spend_exact:
  assumes "spending c" "ParseCanonicalHtlcAtomicSwapV1Script lock = Some i"
    and "\<And>x. length (RIPEMD160 C x) = 20" "length sg + length sec \<le> 8000"
    and "unat (gasUsed c) + push_gas sg + push_gas sec + 203 \<le> unat (gasLimit c)"
  shows "(VerifyScripts C (canonical_push sg @ canonical_push sec @ canonical_push [1]) lock c \<noteq> None \<longleftrightarrow>
      computeHash160 C sec = secretHash160 i \<and> signatureCheckFunc C (claimPubkey i) sg (sighash c)) \<and>
    (VerifyScripts C (canonical_push sg @ canonical_push []) lock c \<noteq> None \<longleftrightarrow>
      matured (refundLockTime i) c \<and> signatureCheckFunc C (refundPubkey i) sg (sighash c))"
proof -
  have lock: "lock = htlc_layout i"
    and l: "length (secretHash160 i) = 20" "length (claimPubkey i) = 33" "length (refundPubkey i) = 33"
    using assms(2) by (simp_all add: htlc_parse_iff htlc_ok_def)
  have e: "execStack c = [True]" using assms(1) by (simp add: spending_def)
  have claim: "VerifyScripts C (pushes_script [sg, sec, [1]]) lock c =
    (case eval_loop C lock lock (vm_at (unat (gasUsed c) + pushes_gas [sg, sec, [1]]) (rev [sg, sec, [1]]) (sum_length [sg, sec, [1]]) c) of
       None \<Rightarrow> None
     | Some v \<Rightarrow> if stack v \<noteq> [] \<and> truth (hd (stack v)) then Some (ctx v) else None)"
    by (rule verify_pushes)
      (use assms l e lock htlc_analysis canonical_push_bound [of sg] canonical_push_bound [of sec] canonical_push_bound [of "[1]"]
        in \<open>simp_all add: vm_limit_defs push_gas_def [of "[1]"]\<close>)
  have claim_run: "eval_loop C lock (htlc_layout i) (vm_at (unat (gasUsed c) + pushes_gas [sg, sec, [1]]) [[1], sec, sg]
      (1 + length sec + length sg) c) = (if computeHash160 C sec = secretHash160 i
     then Some (vm_at (unat (gasUsed c) + pushes_gas [sg, sec, [1]] + 201)
       [bool_item (signatureCheckFunc C (claimPubkey i) sg (sighash c))] 1 c) else None)"
    by (rule htlc_claim_run [OF assms(1) l assms(3)]) (use assms(4,5) in \<open>simp_all add: push_gas_def [of "[1]"]\<close>)
  have refund: "VerifyScripts C (pushes_script [sg, []]) lock c =
    (case eval_loop C lock lock (vm_at (unat (gasUsed c) + pushes_gas [sg, []]) (rev [sg, []]) (sum_length [sg, []]) c) of
       None \<Rightarrow> None
     | Some v \<Rightarrow> if stack v \<noteq> [] \<and> truth (hd (stack v)) then Some (ctx v) else None)"
    by (rule verify_pushes)
      (use assms l e lock htlc_analysis canonical_push_bound [of sg] canonical_push_bound [of "[]"]
        in \<open>simp_all add: vm_limit_defs push_gas_def [of "[]"]\<close>)
  have refund_run: "eval_loop C lock (htlc_layout i) (vm_at (unat (gasUsed c) + pushes_gas [sg, []]) [[], sg] (length sg) c) =
    (if matured (refundLockTime i) c
     then Some (vm_at (unat (gasUsed c) + pushes_gas [sg, []] + 176)
       [bool_item (signatureCheckFunc C (refundPubkey i) sg (sighash c))] 1 c) else None)"
    by (rule htlc_refund_run [OF assms(1) l]) (use assms(4,5) in \<open>simp_all add: push_gas_def [of "[]"]\<close>)
  show ?thesis
    using claim claim_run refund refund_run by (simp add: lock [symmetric] add_ac vm_at_sel)
qed

subsection \<open>The quantum lock\<close>






subsection \<open>Concrete contracts\<close>

definition sample_htlc :: CanonicalHtlcAtomicSwapV1Info where
  "sample_htlc = \<lparr>secretHash160 = computeHash160 vm_crypto [5], claimPubkey = 2 # replicate 32 1,
     refundLockTime = 1700000000, refundPubkey = 3 # replicate 32 1\<rparr>"

theorem htlc_spend_exact_witness:
  "VerifyScripts vm_crypto (canonical_push toy_signature @ canonical_push [5] @ canonical_push [1])
     (htlc_layout sample_htlc) spend_context \<noteq> None"
proof -
  have s: "spending spend_context" "gasUsed spend_context = 0" "gasLimit spend_context = 1000000"
    by (simp_all add: spending_def spend_context_def plain_context_def new_context_def)
  have p: "ParseCanonicalHtlcAtomicSwapV1Script (htlc_layout sample_htlc) = Some sample_htlc"
    by (simp add: htlc_parse_iff htlc_ok_def sample_htlc_def computeHash160_def
        IsCanonicalCompressedSecp256k1Encoding_def TRU_CLTV_TIMESTAMP_THRESHOLD_def TRU_CLTV_TIMESTAMP_MAX_def)
  have g: "push_gas toy_signature = 10" "push_gas [5] = 2" "length toy_signature = 9"
    by (simp_all add: push_gas_def toy_signature_def)
  have "signatureCheckFunc vm_crypto (claimPubkey sample_htlc) toy_signature (sighash spend_context)"
    by code_simp
  then show ?thesis
    using htlc_spend_exact [OF s(1) p length_vm_ripemd, of toy_signature "[5]"]
    by (simp add: g s(2,3)) (simp add: sample_htlc_def)
qed


end
