(* ===== verification/Vm_Compiler.thy ===== *)
theory Vm_Compiler
  imports Vm_Locks Stateful_Shape
begin

text \<open>
  The text assembler \<open>compileTextScript\<close> of \<open>src/src/script_interpreter.cpp\<close>: blank-separated
  opcode names and hex data. Every \<open>throw\<close> is \<open>None\<close>. A pair of data characters is read by
  \<open>std::istringstream >> std::hex\<close>, which accepts a sign and stops at the first other character.
\<close>

definition opcodeMap :: "(string \<times> byte) list" where
  "opcodeMap = [
    (''OP_0'', OP_0), (''OP_FALSE'', OP_FALSE), (''OP_1NEGATE'', OP_1NEGATE),
     (''OP_RESERVED'', OP_RESERVED), (''OP_1'', OP_1), (''OP_TRUE'', OP_TRUE), (''OP_2'', OP_2),
     (''OP_3'', OP_3), (''OP_4'', OP_4), (''OP_5'', OP_5), (''OP_6'', OP_6), (''OP_7'', OP_7),
     (''OP_8'', OP_8), (''OP_9'', OP_9), (''OP_10'', OP_10), (''OP_11'', OP_11),
     (''OP_12'', OP_12), (''OP_13'', OP_13), (''OP_14'', OP_14), (''OP_15'', OP_15),
     (''OP_16'', OP_16), (''OP_NOP'', OP_NOP), (''OP_VER'', OP_VER), (''OP_IF'', OP_IF),
     (''OP_NOTIF'', OP_NOTIF), (''OP_VERIF'', OP_VERIF), (''OP_VERNOTIF'', OP_VERNOTIF),
     (''OP_ELSE'', OP_ELSE), (''OP_ENDIF'', OP_ENDIF), (''OP_VERIFY'', OP_VERIFY),
     (''OP_RETURN'', OP_RETURN), (''OP_TOALTSTACK'', OP_TOALTSTACK),
     (''OP_FROMALTSTACK'', OP_FROMALTSTACK), (''OP_2DROP'', OP_2DROP), (''OP_2DUP'', OP_2DUP),
     (''OP_3DUP'', OP_3DUP), (''OP_2OVER'', OP_2OVER), (''OP_2ROT'', OP_2ROT),
     (''OP_2SWAP'', OP_2SWAP), (''OP_IFDUP'', OP_IFDUP), (''OP_DEPTH'', OP_DEPTH),
     (''OP_DROP'', OP_DROP), (''OP_DUP'', OP_DUP), (''OP_NIP'', OP_NIP), (''OP_OVER'', OP_OVER),
     (''OP_PICK'', OP_PICK), (''OP_ROLL'', OP_ROLL), (''OP_ROT'', OP_ROT),
     (''OP_SWAP'', OP_SWAP), (''OP_TUCK'', OP_TUCK), (''OP_CAT'', OP_CAT),
     (''OP_SUBSTR'', OP_SUBSTR), (''OP_LEFT'', OP_LEFT), (''OP_RIGHT'', OP_RIGHT),
     (''OP_SIZE'', OP_SIZE), (''OP_CHECKWOTSVERIFY'', OP_CHECKWOTSVERIFY),
     (''OP_MARKETVERIFY'', OP_MARKETVERIFY), (''OP_INVERT'', OP_INVERT), (''OP_AND'', OP_AND),
     (''OP_OR'', OP_OR), (''OP_XOR'', OP_XOR), (''OP_EQUAL'', OP_EQUAL),
     (''OP_EQUALVERIFY'', OP_EQUALVERIFY), (''OP_1ADD'', OP_1ADD), (''OP_1SUB'', OP_1SUB),
     (''OP_2MUL'', OP_2MUL), (''OP_2DIV'', OP_2DIV), (''OP_NEGATE'', OP_NEGATE),
     (''OP_ABS'', OP_ABS), (''OP_NOT'', OP_NOT), (''OP_0NOTEQUAL'', OP_0NOTEQUAL),
     (''OP_ADD'', OP_ADD), (''OP_SUB'', OP_SUB), (''OP_MUL'', OP_MUL), (''OP_DIV'', OP_DIV),
     (''OP_MOD'', OP_MOD), (''OP_LSHIFT'', OP_LSHIFT), (''OP_RSHIFT'', OP_RSHIFT),
     (''OP_BOOLAND'', OP_BOOLAND), (''OP_BOOLOR'', OP_BOOLOR), (''OP_NUMEQUAL'', OP_NUMEQUAL),
     (''OP_NUMEQUALVERIFY'', OP_NUMEQUALVERIFY), (''OP_NUMNOTEQUAL'', OP_NUMNOTEQUAL),
     (''OP_LESSTHAN'', OP_LESSTHAN), (''OP_GREATERTHAN'', OP_GREATERTHAN),
     (''OP_LESSTHANOREQUAL'', OP_LESSTHANOREQUAL),
     (''OP_GREATERTHANOREQUAL'', OP_GREATERTHANOREQUAL), (''OP_MIN'', OP_MIN),
     (''OP_MAX'', OP_MAX), (''OP_WITHIN'', OP_WITHIN), (''OP_RIPEMD160'', OP_RIPEMD160),
     (''OP_SHA1'', OP_SHA1), (''OP_SHA256'', OP_SHA256), (''OP_HASH160'', OP_HASH160),
     (''OP_HASH256'', OP_HASH256), (''OP_CODESEPARATOR'', OP_CODESEPARATOR),
     (''OP_CHECKSIG'', OP_CHECKSIG), (''OP_CHECKSIGVERIFY'', OP_CHECKSIGVERIFY),
     (''OP_CHECKMULTISIG'', OP_CHECKMULTISIG),
     (''OP_CHECKMULTISIGVERIFY'', OP_CHECKMULTISIGVERIFY),
     (''OP_CHECKLOCKTIMEVERIFY'', OP_CHECKLOCKTIMEVERIFY),
     (''OP_CHECKSEQUENCEVERIFY'', OP_CHECKSEQUENCEVERIFY), (''OP_BLOCKTIME'', OP_BLOCKTIME),
     (''OP_EXTERNALDATA'', OP_EXTERNALDATA), (''OP_DATAFEED'', OP_DATAFEED),
     (''OP_DELEGATECHECK'', OP_DELEGATECHECK), (''OP_CHAINSTATECHECK'', OP_CHAINSTATECHECK),
     (''OP_HASHBLAKE2B'', OP_HASHBLAKE2B), (''OP_SHA3'', OP_SHA3), (''OP_STORE'', OP_STORE),
     (''OP_LOAD'', OP_LOAD), (''OP_CALLER'', OP_CALLER),
     (''OP_CONTRACT_ADDR'', OP_CONTRACT_ADDR), (''OP_GAS'', OP_GAS), (''OP_HALT'', OP_HALT),
     (''OP_REVERT'', OP_REVERT), (''OP_TOKEN_BALANCE'', OP_TOKEN_BALANCE),
     (''OP_BURN_TOKEN'', OP_BURN_TOKEN), (''OP_OUTPUTAMOUNT'', OP_OUTPUTAMOUNT),
     (''OP_NOVO_GENADDR'', OP_NOVO_GENADDR), (''OP_NOVO_DEPOSIT'', OP_NOVO_DEPOSIT),
     (''OP_NOVO_REDEEM'', OP_NOVO_REDEEM), (''OP_NOVO_VERIFY'', OP_NOVO_VERIFY),
     (''OP_BSTY_GENADDR'', OP_BSTY_GENADDR), (''OP_BSTY_DEPOSIT'', OP_BSTY_DEPOSIT),
     (''OP_BSTY_REDEEM'', OP_BSTY_REDEEM), (''OP_BSTY_VERIFY'', OP_BSTY_VERIFY),
     (''OP_NOVO_ADDR'', OP_NOVO_GENADDR), (''OP_BSTY_ADDR'', OP_BSTY_GENADDR),
     (''OP_NOVO_CONFIRM'', OP_NOVO_DEPOSIT), (''OP_BSTY_CONFIRM'', OP_BSTY_DEPOSIT)]"

definition is_blank :: "char \<Rightarrow> bool" where
  "is_blank c \<longleftrightarrow> c \<in> {CHR '' '', CHR 0x09, CHR 0x0A, CHR 0x0B, CHR 0x0C, CHR 0x0D}"

function text_tokens :: "string \<Rightarrow> string list" where
  "text_tokens s =
     (case dropWhile is_blank s of
        [] \<Rightarrow> []
      | c # r \<Rightarrow> takeWhile (\<lambda>x. \<not> is_blank x) (c # r) # text_tokens (dropWhile (\<lambda>x. \<not> is_blank x) (c # r)))"
  by auto
termination
proof (relation "measure length", simp)
  fix s :: string and c r
  assume d: "dropWhile is_blank s = c # r"
  then have "\<not> is_blank c" by (metis hd_dropWhile list.sel(1) list.distinct(1))
  then have "length (dropWhile (\<lambda>x. \<not> is_blank x) (c # r)) \<le> length r"
    by (simp add: length_dropWhile_le)
  moreover have "length (c # r) \<le> length s" using length_dropWhile_le [of is_blank s] d by simp
  ultimately show "(dropWhile (\<lambda>x. \<not> is_blank x) (c # r), s) \<in> measure length" by simp
qed

declare text_tokens.simps [simp del]

definition to_upper :: "char \<Rightarrow> char" where
  "to_upper c = (if CHR ''a'' \<le> c \<and> c \<le> CHR ''z'' then char_of (of_char c - 32 :: nat) else c)"

definition toUpper :: "string \<Rightarrow> string" where
  "toUpper = map to_upper"

text \<open>\<open>ss >> std::hex >> byteVal\<close> on two characters, then the cast to a byte.\<close>

definition stream_hex_byte :: "char \<Rightarrow> char \<Rightarrow> byte" where
  "stream_hex_byte a z =
     (case nibble a of
        Some h \<Rightarrow> (case nibble z of Some l \<Rightarrow> nibbles_byte h l | None \<Rightarrow> word_of_nat h)
      | None \<Rightarrow>
          (case nibble z of
             None \<Rightarrow> 0
           | Some l \<Rightarrow>
               if a = CHR ''+'' then word_of_nat l
               else if a = CHR ''-'' then - word_of_nat l else 0))"

fun stream_hex :: "string \<Rightarrow> bytes" where
  "stream_hex (a # z # s) = stream_hex_byte a z # stream_hex s"
| "stream_hex s = []"

definition emit_push :: "bytes \<Rightarrow> bytes" where
  "emit_push d =
     (let n = length d in
      if n \<le> 0x4b then word_of_nat n # d
      else if n \<le> 0xff then [OP_PUSHDATA1, word_of_nat n] @ d
      else if n \<le> 0xffff then [OP_PUSHDATA2] @ le_bytes 2 (word_of_nat n :: u64) @ d
      else [OP_PUSHDATA4] @ le_bytes 4 (word_of_nat n :: u64) @ d)"

definition compile_token :: "string \<Rightarrow> bytes option" where
  "compile_token tok =
     (let upper = toUpper tok in
      case map_of opcodeMap upper of
        Some opcode \<Rightarrow> if \<not> IsSupportedOpcode opcode then None else Some [opcode]
      | None \<Rightarrow>
          if take 3 upper = ''OP_'' then None
          else if length tok mod 2 \<noteq> 0 then None
          else Some (emit_push (stream_hex tok)))"

fun compile_tokens :: "string list \<Rightarrow> bytes option" where
  "compile_tokens [] = Some []"
| "compile_tokens (t # ts) =
     do { a \<leftarrow> compile_token t; b \<leftarrow> compile_tokens ts; Some (a @ b) }"

definition compileTextScript :: "string \<Rightarrow> bytes option" where
  "compileTextScript scriptText =
     (case compile_tokens (text_tokens scriptText) of
        None \<Rightarrow> None
      | Some result \<Rightarrow>
          if AnalyzeScriptResources 0 result = None then None
          else let statefulScan = ScanStatefulContractScript result in
            if \<not> scan_valid statefulScan then None
            else if usesStateDomain statefulScan \<and> \<not> IsCanonicalStatefulKvV1Script result then None
            else Some result)"

subsection \<open>What the assembler emits\<close>

lemma table_no_push: "list_all (\<lambda>(n, b). \<not> is_push_opcode b) opcodeMap"
  by code_simp

lemma le_bytes_2:
  assumes "n \<le> 0xffff"
  shows "le_bytes 2 (word_of_nat n :: u64) = [word_of_nat (n mod 256), word_of_nat (n div 256 mod 256)]"
proof -
  define bs where "bs = [word_of_nat (n mod 256) :: byte, word_of_nat (n div 256 mod 256)]"
  have "le_nat bs = n mod 256 + 256 * (n div 256 mod 256)"
    by (simp add: bs_def unat_small del: unat_of_nat of_nat_mod of_nat_div)
  also have "n div 256 mod 256 = n div 256" using assms by simp
  also have "n mod 256 + 256 * (n div 256) = n" by simp
  finally have v: "le_nat bs = n" .
  have "8 * length bs \<le> LENGTH(64)" by (simp add: bs_def)
  then have "unat (le_val bs :: u64) = n" by (simp only: unat_le_val v)
  moreover have "(word_of_nat (unat (le_val bs :: u64)) :: u64) = le_val bs" by simp
  ultimately have "(le_val bs :: u64) = word_of_nat n" by simp
  moreover have "le_bytes 2 (le_val bs :: u64) = bs" by (rule le_bytes_le_val) (simp_all add: bs_def)
  ultimately show ?thesis by (simp add: bs_def)
qed

lemma emit_push_canonical: "0 < length d \<Longrightarrow> pushable d \<Longrightarrow> emit_push d = canonical_push d"
  using le_bytes_2 [of "length d"] by (simp add: emit_push_def canonical_push_def Let_def)

lemma emit_push_length: "length d \<le> length (emit_push d)"
  by (simp add: emit_push_def Let_def)

lemma compile_tokens_opcodes:
  "compile_tokens ts = Some s \<Longrightarrow> list_all (\<lambda>t. t \<noteq> []) ts \<Longrightarrow> length s \<le> 0xffff \<Longrightarrow>
     opcodes_of s = Some (List.map_filter (\<lambda>t. map_of opcodeMap (toUpper t)) ts)"
proof (induction ts arbitrary: s)
  case (Cons t ts)
  then obtain a b where ab: "compile_token t = Some a" "compile_tokens ts = Some b" "s = a @ b"
    by (auto simp: bind_eq_Some_conv)
  then have IH: "opcodes_of b = Some (List.map_filter (\<lambda>t. map_of opcodeMap (toUpper t)) ts)"
    using Cons by simp
  show ?case
  proof (cases "map_of opcodeMap (toUpper t)")
    case (Some opc)
    then have "\<not> is_push_opcode opc" using table_no_push map_of_SomeD [OF Some] by (auto simp: list_all_iff)
    then show ?thesis using ab Some IH
      by (auto simp: compile_token_def Let_def opcodes_of.simps(2) map_filter_simps split: if_splits)
  next
    case None
    then have e: "a = emit_push (stream_hex t)" "length t mod 2 = 0"
      using ab(1) by (auto simp: compile_token_def Let_def split: if_splits)
    have "t \<noteq> []" using Cons.prems by simp
    then obtain x y r where "t = x # y # r" using e(2) by (cases t rule: stream_hex.cases) auto
    then have d: "0 < length (stream_hex t)" by simp
    have "pushable (stream_hex t)" using Cons.prems(3) ab(3) e(1) emit_push_length [of "stream_hex t"] by simp
    then show ?thesis
      using d e(1) ab(3) IH None by (simp add: emit_push_canonical map_filter_simps)
  qed
qed (simp add: map_filter_simps)

lemma text_tokens_nonempty: "list_all (\<lambda>t. t \<noteq> []) (text_tokens s)"
proof (induction s rule: text_tokens.induct)
  case (1 s)
  show ?case
  proof (cases "dropWhile is_blank s")
    case (Cons c r)
    then have "\<not> is_blank c" by (metis hd_dropWhile list.sel(1) list.distinct(1))
    then show ?thesis using 1 Cons by (subst text_tokens.simps) simp
  next
    case Nil
    show ?thesis unfolding text_tokens.simps [of s] Nil by simp
  qed
qed

text \<open>
  C28: the assembler emits what is written. The executable opcodes of a compiled script are exactly
  the opcode names of the text, in order; data tokens add none; the script passes the static
  analysis; and it touches contract state only as the canonical state anchor.
\<close>

theorem compile_text_faithful:
  assumes "compileTextScript txt = Some s"
  shows "opcodes_of s = Some (List.map_filter (\<lambda>t. map_of opcodeMap (toUpper t)) (text_tokens txt)) \<and>
    AnalyzeScriptResources 0 s \<noteq> None \<and>
    (usesStateDomain (ScanStatefulContractScript s) \<longrightarrow> s = [OP_STORE, OP_1])"
proof -
  have c: "compile_tokens (text_tokens txt) = Some s" "AnalyzeScriptResources 0 s \<noteq> None"
    "usesStateDomain (ScanStatefulContractScript s) \<longrightarrow> IsCanonicalStatefulKvV1Script s"
    using assms by (auto simp: compileTextScript_def Let_def split: option.splits if_splits)
  then have "length s \<le> 0xffff"
    by (auto simp: AnalyzeScriptResources_def MAX_SCRIPT_BYTES_def split: if_splits)
  moreover have "IsCanonicalStatefulKvV1Script s \<Longrightarrow> s = [OP_STORE, OP_1]"
    by (cases s; cases "tl s") (auto simp: IsCanonicalStatefulKvV1Script_def)
  ultimately show ?thesis
    using c compile_tokens_opcodes [OF c(1) text_tokens_nonempty] by simp
qed

lemma compile_parts:
  assumes "text_tokens txt = ts" "compile_tokens ts = Some s" "opcodes_of s = Some ops"
    and "list_all (\<lambda>b. IsSupportedOpcode b \<and> b \<noteq> OP_STORE \<and> b \<noteq> OP_LOAD \<and> b \<noteq> OP_MINT_TOKEN) ops"
    and "length ops \<le> 1000" "length s \<le> 10000"
  shows "compileTextScript txt = Some s"
proof -
  have "AnalyzeScriptResources 0 s \<noteq> None"
    by (rule analysis_accepts [OF assms(3)]) (use assms in \<open>auto simp: list_all_iff MAX_SCRIPT_BYTES_def\<close>)
  moreover have scan: "ScanStatefulContractScript s = fold scan_opcode ops scan_init"
    using scan_loop_eq [where s = s and r = scan_init] assms(3) by (simp add: ScanStatefulContractScript_def)
  then have "scan_valid (ScanStatefulContractScript s)" by (simp add: fold_scan_valid scan_init_def)
  moreover have "\<not> usesStateDomain (ScanStatefulContractScript s)"
    using assms(4) by (auto simp: scan fold_scan_flags scan_init_def state_opcodes_def list_all_iff)
  ultimately show ?thesis using assms(1,2) by (simp add: compileTextScript_def Let_def)
qed

theorem compile_text_faithful_witness:
  "compileTextScript ''OP_DUP op_equal'' = Some [OP_DUP, OP_EQUAL] \<and>
   List.map_filter (\<lambda>t. map_of opcodeMap (toUpper t)) (text_tokens ''OP_DUP op_equal'') = [OP_DUP, OP_EQUAL]"
proof -
  have t: "text_tokens ''OP_DUP op_equal'' = [''OP_DUP'', ''op_equal'']" by code_simp
  have m: "map_of opcodeMap (toUpper ''OP_DUP'') = Some OP_DUP" "map_of opcodeMap (toUpper ''op_equal'') = Some OP_EQUAL"
    by code_simp+
  have c: "compile_tokens [''OP_DUP'', ''op_equal''] = Some [OP_DUP, OP_EQUAL]"
    by (simp add: compile_token_def Let_def m IsSupportedOpcode_def supported_opcodes_def)
  have o: "opcodes_of [OP_DUP, OP_EQUAL] = Some [OP_DUP, OP_EQUAL]"
    by (simp add: opcodes_of.simps(2) is_push_opcode_def)
  have r: "compileTextScript ''OP_DUP op_equal'' = Some [OP_DUP, OP_EQUAL]"
    using compile_parts [OF t c o] by (simp add: list_all_iff IsSupportedOpcode_def supported_opcodes_def)
  show ?thesis using r o compile_text_faithful [OF r] by simp
qed

text \<open>
  A data token is never checked to be hex. Text that is not hex compiles to zero bytes, a
  pair that ends in a non-hex character to its first digit, and a sign is read as one, so a typing
  error in a hash or a key yields a valid script that locks to other data.
\<close>

theorem compile_text_accepts_non_hex:
  "compileTextScript ''zz1g-1'' = Some [3, 0, 1, 0xff] \<and>
   compileTextScript ''0001ff'' = Some [3, 0, 1, 0xff]"
proof -
  have t: "text_tokens ''zz1g-1'' = [''zz1g-1'']" "text_tokens ''0001ff'' = [''0001ff'']" by code_simp+
  have m: "map_of opcodeMap (toUpper ''zz1g-1'') = None" "map_of opcodeMap (toUpper ''0001ff'') = None"
    "take 3 (toUpper ''zz1g-1'') \<noteq> ''OP_''" "take 3 (toUpper ''0001ff'') \<noteq> ''OP_''"
    by code_simp+
  have h: "stream_hex_byte CHR ''z'' CHR ''z'' = 0" "stream_hex_byte CHR ''1'' CHR ''g'' = 1"
    "stream_hex_byte CHR ''-'' CHR ''1'' = 0xff" "stream_hex_byte CHR ''0'' CHR ''0'' = 0"
    "stream_hex_byte CHR ''0'' CHR ''1'' = 1" "stream_hex_byte CHR ''f'' CHR ''f'' = 0xff"
    by code_simp+
  have c: "compile_tokens [''zz1g-1''] = Some [3, 0, 1, 0xff]" "compile_tokens [''0001ff''] = Some [3, 0, 1, 0xff]"
    using m(3,4) by (simp_all add: compile_token_def Let_def m(1,2) h emit_push_def)
  have o: "opcodes_of [3, 0, 1, 0xff] = Some []"
    by (simp add: opcodes_of.simps(2) is_push_opcode_def ReadPushLength_def)
  show ?thesis
    using compile_parts [OF t(1) c(1) o] compile_parts [OF t(2) c(2) o] by simp
qed

end
