(* ===== verification/Storage.thy ===== *)
theory Storage
  imports Transactions "HOL-Library.Char_ord" "HOL-Library.List_Lexorder" "HOL-Library.Sublist"
    "HOL-Library.Multiset"
begin

text \<open>
  The key-value layer of \<open>src/src/leveldb_storage.cpp\<close>: raw and checksummed reads and writes, the
  contract namespace with its on-read migration, and the prefix scans. LevelDB itself is a parameter
  (\<open>leveldb\<close>), of which \<open>leveldb_ok\<close> states the documented behaviour: reads see the last write, a
  batch applies as a whole, an iterator visits the keys in bytewise order. The process-wide registry
  of open databases and its mutexes are not modelled: a handle is always there.
\<close>

subsection \<open>The database underneath\<close>

datatype db_status = DbOk string | DbNotFound | DbError

datatype batch_op = BatchPut string string | BatchDelete string

record 'd leveldb =
  db_Get :: "'d \<Rightarrow> string \<Rightarrow> db_status"
  db_Write :: "'d \<Rightarrow> batch_op list \<Rightarrow> 'd option"
  db_Seek :: "'d \<Rightarrow> string \<Rightarrow> (string \<times> string) list option"

primrec apply_op :: "batch_op \<Rightarrow> (string \<rightharpoonup> string) \<Rightarrow> (string \<rightharpoonup> string)" where
  "apply_op (BatchPut k v) m = m(k \<mapsto> v)"
| "apply_op (BatchDelete k) m = m(k := None)"

definition apply_batch :: "batch_op list \<Rightarrow> (string \<rightharpoonup> string) \<Rightarrow> (string \<rightharpoonup> string)" where
  "apply_batch ops m = fold apply_op ops m"

definition leveldb_ok :: "'d leveldb \<Rightarrow> ('d \<Rightarrow> string \<rightharpoonup> string) \<Rightarrow> bool" where
  "leveldb_ok L con \<longleftrightarrow>
     (\<forall>d k. db_Get L d k \<noteq> DbError \<longrightarrow>
        db_Get L d k = (case con d k of None \<Rightarrow> DbNotFound | Some v \<Rightarrow> DbOk v)) \<and>
     (\<forall>d ops d'. db_Write L d ops = Some d' \<longrightarrow> con d' = apply_batch ops (con d)) \<and>
     (\<forall>d p es. db_Seek L d p = Some es \<longrightarrow>
        sorted (map fst es) \<and> distinct (map fst es) \<and> set es = {(k, v). con d k = Some v \<and> p \<le> k})"

subsection \<open>Checksums\<close>

definition computeChecksum :: "crypto \<Rightarrow> string \<Rightarrow> string" where
  "computeChecksum C d = hex_encode (SHA256 C (bytes_of_string d))"

definition computeDataChecksum :: "crypto \<Rightarrow> string \<Rightarrow> string" where
  "computeDataChecksum C d = hex_encode (SHA256 C (SHA256 C (bytes_of_string d)))"

text \<open>A stored record is split at its first vertical bar.\<close>

definition split_record :: "string \<Rightarrow> (string \<times> string) option" where
  "split_record raw =
     (if CHR ''|'' \<in> set raw
      then Some (takeWhile (\<lambda>c. c \<noteq> CHR ''|'') raw, tl (dropWhile (\<lambda>c. c \<noteq> CHR ''|'') raw))
      else None)"

definition actual_value :: "string \<Rightarrow> string" where
  "actual_value raw = (case split_record raw of None \<Rightarrow> raw | Some (_, rest) \<Rightarrow> rest)"

subsection \<open>Reads\<close>

definition storage_get :: "crypto \<Rightarrow> 'd leveldb \<Rightarrow> 'd \<Rightarrow> string \<Rightarrow> string option" where
  "storage_get C L d key =
     (case db_Get L d key of
        DbOk raw \<Rightarrow>
          (case split_record raw of
             None \<Rightarrow> None
           | Some (storedChecksum, dat) \<Rightarrow>
               if storedChecksum \<noteq> computeDataChecksum C dat then None else Some dat)
      | _ \<Rightarrow> None)"

definition storage_exists :: "crypto \<Rightarrow> 'd leveldb \<Rightarrow> 'd \<Rightarrow> string \<Rightarrow> bool" where
  "storage_exists C L d key \<longleftrightarrow> storage_get C L d key \<noteq> None"

definition getRaw :: "'d leveldb \<Rightarrow> 'd \<Rightarrow> string \<Rightarrow> string option option" where
  "getRaw L d key =
     (case db_Get L d key of DbOk raw \<Rightarrow> Some (Some raw) | DbNotFound \<Rightarrow> Some None | DbError \<Rightarrow> None)"

definition getWithDataChecksum :: "crypto \<Rightarrow> 'd leveldb \<Rightarrow> 'd \<Rightarrow> string \<Rightarrow> string option" where
  "getWithDataChecksum C L d key =
     (case db_Get L d key of
        DbOk payload \<Rightarrow>
          (case split_record payload of
             None \<Rightarrow> None
           | Some (storedCS, dat) \<Rightarrow> if storedCS \<noteq> computeDataChecksum C dat then None else Some dat)
      | _ \<Rightarrow> None)"

definition iteratePrefix :: "'d leveldb \<Rightarrow> 'd \<Rightarrow> string \<Rightarrow> (string \<times> string) list" where
  "iteratePrefix L d p =
     (case db_Seek L d p of
        None \<Rightarrow> []
      | Some es \<Rightarrow> map (\<lambda>(k, v). (drop (length p) k, actual_value v))
                       (takeWhile (\<lambda>(k, v). prefix p k) es))"

definition iteratePrefixPerf03 :: "'d leveldb \<Rightarrow> 'd \<Rightarrow> string \<Rightarrow> (string \<times> string) list option" where
  "iteratePrefixPerf03 L d p =
     (case db_Seek L d p of
        None \<Rightarrow> None
      | Some es \<Rightarrow> Some (map (\<lambda>(k, v). (drop (length p) k, actual_value v))
                            (takeWhile (\<lambda>(k, v). prefix p k) es)))"

subsection \<open>Writes\<close>

definition storage_put :: "crypto \<Rightarrow> 'd leveldb \<Rightarrow> 'd \<Rightarrow> string \<Rightarrow> string \<Rightarrow> 'd option" where
  "storage_put C L d key val = db_Write L d [BatchPut key (computeChecksum C val @ ''|'' @ val)]"

definition storage_del :: "'d leveldb \<Rightarrow> 'd \<Rightarrow> string \<Rightarrow> 'd option" where
  "storage_del L d key = db_Write L d [BatchDelete key]"

definition putBatch :: "'d leveldb \<Rightarrow> 'd \<Rightarrow> batch_op list \<Rightarrow> 'd option" where
  "putBatch L d batch = db_Write L d batch"

definition putWithDataChecksum :: "crypto \<Rightarrow> 'd leveldb \<Rightarrow> 'd \<Rightarrow> string \<Rightarrow> string \<Rightarrow> 'd option" where
  "putWithDataChecksum C L d key val = db_Write L d [BatchPut key (computeDataChecksum C val @ ''|'' @ val)]"

subsection \<open>The contract namespace\<close>

definition contract_key :: "string \<Rightarrow> string" where
  "contract_key key = (if take 9 key \<noteq> ''contract:'' then ''contract:'' @ key else key)"

definition putContract :: "crypto \<Rightarrow> 'd leveldb \<Rightarrow> 'd \<Rightarrow> string \<Rightarrow> string \<Rightarrow> 'd option" where
  "putContract C L d key val =
     db_Write L d [BatchPut (contract_key key) (computeDataChecksum C val @ ''|'' @ val)]"

definition strict_namespaces :: "string list" where
  "strict_namespaces =
     [''contract:TOKEN:VAH_RECON:'', ''contract:TOKEN:VAH_PENDING:'', ''contract:TOKEN:VAH_MATERIALIZED:'',
      ''contract:TOKEN:VAH_SENSOR_BATCH:'', ''contract:TOKEN:VAH_SENSOR_HEAD:'',
      ''contract:TOKEN:VAH_SENSOR_ANCHOR_PREPARED:'', ''contract:TOKEN:VAH_SENSOR_ANCHOR_WATCH:'',
      ''contract:TOKEN:VAH_AUTH:'', ''contract:TOKEN:VAH_SENSOR_CONFIRMED:'',
      ''contract:TOKEN:VAH_SENSOR_RECOVERY:'', ''contract:TOKEN:VAH_SENSOR_CHECKPOINT:'',
      ''contract:TOKEN:VAH_SENSOR_EVENT:'']"

text \<open>
  The result and the database behind it: a record under the old single hash is accepted outside the
  strict namespaces and rewritten, and a rewrite that fails is only logged.
\<close>

definition getContract :: "crypto \<Rightarrow> 'd leveldb \<Rightarrow> 'd \<Rightarrow> string \<Rightarrow> string option \<times> 'd" where
  "getContract C L d key =
     (case db_Get L d (contract_key key) of
        DbOk payload \<Rightarrow>
          (case split_record payload of
             None \<Rightarrow> (None, d)
           | Some (storedCS, dat) \<Rightarrow>
               if storedCS = computeDataChecksum C dat then (Some dat, d)
               else if list_ex (\<lambda>ns. prefix ns (contract_key key)) strict_namespaces then (None, d)
               else if storedCS \<noteq> computeChecksum C dat then (None, d)
               else (Some dat, case putContract C L d key dat of None \<Rightarrow> d | Some d' \<Rightarrow> d'))
      | _ \<Rightarrow> (None, d))"

subsection \<open>Records\<close>

lemma bar_not_hex: "CHR ''|'' \<notin> set (hex_encode b)"
proof -
  have "\<not> is_lower_hex (CHR ''|'')" by code_simp
  then show ?thesis using hex_lower_encode [of b] by (auto simp: hex_lower_def list_all_iff)
qed

lemma split_record_checksum [simp]: "split_record (hex_encode b @ CHR ''|'' # v) = Some (hex_encode b, v)"
  using takeWhile_neq_append [OF bar_not_hex] dropWhile_neq_append [OF bar_not_hex]
  by (simp add: split_record_def)

lemma actual_value_plain: "CHR ''|'' \<notin> set v \<Longrightarrow> actual_value v = v"
  by (simp add: actual_value_def split_record_def)

lemma actual_value_bar: "actual_value (a @ ''|'' @ b) = b" if "CHR ''|'' \<notin> set a"
  using that takeWhile_neq_append [of "CHR ''|''" a b] dropWhile_neq_append [of "CHR ''|''" a b]
  by (simp add: actual_value_def split_record_def)

lemma actual_value_shorter: "CHR ''|'' \<in> set v \<Longrightarrow> length (actual_value v) < length v"
proof -
  assume "CHR ''|'' \<in> set v"
  then obtain a b where "v = a @ CHR ''|'' # b" "CHR ''|'' \<notin> set a" by (meson split_list_first)
  then show ?thesis using actual_value_bar [of a b] by simp
qed

lemma apply_batch_simps [simp]:
  "apply_batch [] m = m" "apply_batch (op # ops) m = apply_batch ops (apply_op op m)"
  "apply_batch (xs @ ys) m = apply_batch ys (apply_batch xs m)"
  by (simp_all add: apply_batch_def)

lemma leveldb_get:
  "leveldb_ok L con \<Longrightarrow> db_Get L d k \<noteq> DbError \<Longrightarrow>
     db_Get L d k = (case con d k of None \<Rightarrow> DbNotFound | Some v \<Rightarrow> DbOk v)"
  by (simp add: leveldb_ok_def)

lemma leveldb_write: "leveldb_ok L con \<Longrightarrow> db_Write L d ops = Some d' \<Longrightarrow> con d' = apply_batch ops (con d)"
  by (simp add: leveldb_ok_def)

lemma getRaw_eq: "leveldb_ok L con \<Longrightarrow> db_Get L d k \<noteq> DbError \<Longrightarrow> getRaw L d k = Some (con d k)"
  using leveldb_get [of L con d k] by (simp add: getRaw_def split: option.splits)

lemma getRaw_Some: "leveldb_ok L con \<Longrightarrow> getRaw L d k = Some r \<Longrightarrow> r = con d k"
  using leveldb_get [of L con d k] by (auto simp: getRaw_def split: db_status.splits option.splits)

subsection \<open>Prefix scans\<close>

lemma prefix_between: "p \<le> k \<Longrightarrow> k \<le> k' \<Longrightarrow> prefix p k' \<Longrightarrow> prefix p k" for p :: string
proof (induction p arbitrary: k k')
  case (Cons a p)
  then obtain x ks where k: "k = x # ks" by (cases k) auto
  obtain ks' where k': "k' = a # ks'" using Cons.prems(3) by (cases k') auto
  show ?case using Cons by (auto simp: k k')
qed simp

lemma prefix_above: "prefix p k \<Longrightarrow> p \<le> k" for p :: string
proof (induction p arbitrary: k)
  case (Cons a p)
  then show ?case by (cases k) auto
qed simp

lemma scan_filter:
  "sorted (map fst es) \<Longrightarrow> \<forall>e\<in>set es. p \<le> fst e \<Longrightarrow>
     takeWhile (\<lambda>(k, v). prefix p k) es = filter (\<lambda>(k, v). prefix p k) es" for p :: string
proof (induction es)
  case (Cons e es)
  show ?case
  proof (cases "prefix p (fst e)")
    case True
    then show ?thesis using Cons by (simp add: case_prod_unfold)
  next
    case False
    have "\<not> prefix p (fst x)" if "x \<in> set es" for x
      using prefix_between [of p "fst e" "fst x"] False Cons.prems that by auto
    then show ?thesis using False by (simp add: case_prod_unfold filter_empty_conv)
  qed
qed simp

lemma scan_exact:
  assumes "leveldb_ok L con" "db_Seek L d p = Some es"
  shows "set (iteratePrefix L d p) = {(k, actual_value v) | k v. con d (p @ k) = Some v}"
    and "keys_distinct (iteratePrefix L d p)"
proof -
  have es: "sorted (map fst es)" "distinct (map fst es)" "set es = {(k, v). con d k = Some v \<and> p \<le> k}"
    using assms by (auto simp: leveldb_ok_def)
  have t: "takeWhile (\<lambda>(k, v). prefix p k) es = filter (\<lambda>(k, v). prefix p k) es"
    by (rule scan_filter [OF es(1)]) (use es(3) in auto)
  have i: "iteratePrefix L d p =
      map (\<lambda>(k, v). (drop (length p) k, actual_value v)) (filter (\<lambda>(k, v). prefix p k) es)"
    using assms(2) t by (simp add: iteratePrefix_def)
  have s: "set (filter (\<lambda>(k, v). prefix p k) es) = {(p @ k, v) | k v. con d (p @ k) = Some v}"
    using es(3) prefix_above [of p] by (auto simp: prefix_def) 
  have "set (iteratePrefix L d p) =
      (\<lambda>(k, v). (drop (length p) k, actual_value v)) ` {(p @ k, v) | k v. con d (p @ k) = Some v}"
    unfolding i by (simp only: set_map s)
  then show "set (iteratePrefix L d p) = {(k, actual_value v) | k v. con d (p @ k) = Some v}"
    by force
  have m: "map fst (iteratePrefix L d p) = map (drop (length p)) (map fst (filter (\<lambda>(k, v). prefix p k) es))"
    unfolding i by (induction es) auto
  have "inj_on (drop (length p)) (set (map fst (filter (\<lambda>(k, v). prefix p k) es)))"
    by (rule inj_onI) (auto simp: prefix_def)
  moreover have "distinct (map fst (filter (\<lambda>(k, v). prefix p k) es))"
    using es(2) by (induction es) auto
  ultimately show "keys_distinct (iteratePrefix L d p)"
    unfolding m by (subst distinct_map) (rule conjI)
qed

subsection \<open>What comes back\<close>

lemma get_after_write:
  assumes "leveldb_ok L con" "db_Write L d [BatchPut k raw] = Some d'" "db_Get L d' k \<noteq> DbError"
  shows "db_Get L d' k = DbOk raw"
  using leveldb_get [OF assms(1,3)] leveldb_write [OF assms(1,2)] by simp

text \<open>
  A value stored under its checksum comes back. After a write that succeeded, every reader of
  the key returns the value unless the database reports a read error, whatever bytes the value
  holds; the same is true of the contract namespace, where a read also leaves the database as it is.
\<close>

theorem checksummed_roundtrip:
  assumes "leveldb_ok L con"
  shows "(putWithDataChecksum C L d key val = Some d' \<longrightarrow> db_Get L d' key \<noteq> DbError \<longrightarrow>
      getWithDataChecksum C L d' key = Some val \<and> storage_get C L d' key = Some val) \<and>
    (putContract C L d key val = Some d' \<longrightarrow> db_Get L d' (contract_key key) \<noteq> DbError \<longrightarrow>
      getContract C L d' key = (Some val, d'))"
proof (intro conjI impI)
  assume "putWithDataChecksum C L d key val = Some d'" "db_Get L d' key \<noteq> DbError"
  then have "db_Get L d' key = DbOk (computeDataChecksum C val @ ''|'' @ val)"
    by (auto simp: putWithDataChecksum_def intro: get_after_write [OF assms])
  then show "getWithDataChecksum C L d' key = Some val" "storage_get C L d' key = Some val"
    by (simp_all add: getWithDataChecksum_def storage_get_def computeDataChecksum_def)
next
  assume "putContract C L d key val = Some d'" "db_Get L d' (contract_key key) \<noteq> DbError"
  then have "db_Get L d' (contract_key key) = DbOk (computeDataChecksum C val @ ''|'' @ val)"
    by (auto simp: putContract_def intro: get_after_write [OF assms])
  then show "getContract C L d' key = (Some val, d')"
    by (simp add: getContract_def computeDataChecksum_def)
qed

text \<open>
  Values stored by \<open>put\<close> never come back through \<open>get\<close>. The writer checks with one hash, the
  reader with two, so \<open>get\<close> and \<open>exists\<close> fail after every successful \<open>put\<close> of a value whose
  digest is not a fixed point of the hash.
\<close>

theorem put_is_unreadable:
  assumes "leveldb_ok L con" "storage_put C L d key val = Some d'" "db_Get L d' key \<noteq> DbError"
    and "SHA256 C (SHA256 C (bytes_of_string val)) \<noteq> SHA256 C (bytes_of_string val)"
  shows "storage_get C L d' key = None \<and> \<not> storage_exists C L d' key"
proof -
  have "db_Get L d' key = DbOk (computeChecksum C val @ ''|'' @ val)"
    using assms(2) by (intro get_after_write [OF assms(1) _ assms(3)]) (simp add: storage_put_def)
  then have "storage_get C L d' key = None"
    using assms(4) by (simp add: storage_get_def computeChecksum_def computeDataChecksum_def)
  then show ?thesis by (simp add: storage_exists_def)
qed

subsection \<open>A database in memory\<close>

definition mem_db :: "(string \<times> string) list leveldb" where
  "mem_db = \<lparr>db_Get = \<lambda>d k. (case map_of d k of None \<Rightarrow> DbNotFound | Some v \<Rightarrow> DbOk v),
     db_Write = \<lambda>d ops. Some (fold (\<lambda>op d. case op of BatchPut k v \<Rightarrow> AList.update k v d
                                                   | BatchDelete k \<Rightarrow> AList.delete k d) ops d),
     db_Seek = \<lambda>d p. Some (sort_key fst (filter (\<lambda>e. p \<le> fst e) (AList.clearjunk d)))\<rparr>"

lemma mem_db_batch:
  "map_of (fold (\<lambda>op d. case op of BatchPut k v \<Rightarrow> AList.update k v d | BatchDelete k \<Rightarrow> AList.delete k d) ops d) =
     apply_batch ops (map_of d)"
proof (induction ops arbitrary: d)
  case (Cons op ops)
  show ?case
    by (cases op) (simp_all add: Cons.IH AList.delete_conv' del: fun_upd_apply)
qed simp

lemma mem_db_entries: "(k, v) \<in> set (AList.clearjunk d) \<longleftrightarrow> map_of d k = Some v"
  using map_of_eq_Some_iff [OF distinct_clearjunk [of d], of k v] by (simp add: map_of_clearjunk)

lemma mem_db_ok: "leveldb_ok mem_db map_of"
proof -
  have "keys_distinct (filter (\<lambda>e. p \<le> fst e) (AList.clearjunk d))" for p and d :: "(string \<times> string) list"
    using distinct_clearjunk [of d] by (rule distinct_map_filter)
  moreover have "distinct (map fst (sort_key fst xs)) = distinct (map fst xs)" for xs :: "(string \<times> string) list"
    using mset_sort [of fst xs] by (metis mset_eq_imp_distinct_iff mset_map)
  ultimately show ?thesis
    by (auto simp: leveldb_ok_def mem_db_def mem_db_batch mem_db_entries)
qed

theorem checksummed_roundtrip_witness:
  "\<exists>d'. putWithDataChecksum toy_crypto mem_db [] ''k'' ''a|b'' = Some d' \<and>
     getWithDataChecksum toy_crypto mem_db d' ''k'' = Some ''a|b''"
proof -
  obtain d' where w: "putWithDataChecksum toy_crypto mem_db [] ''k'' ''a|b'' = Some d'"
    by (simp add: putWithDataChecksum_def mem_db_def)
  moreover have "db_Get mem_db d' ''k'' \<noteq> DbError" by (simp add: mem_db_def split: option.splits)
  ultimately show ?thesis using checksummed_roundtrip [OF mem_db_ok] by blast
qed

theorem put_is_unreadable_witness:
  "\<exists>d'. storage_put toy_crypto mem_db [] ''k'' ''ab'' = Some d' \<and> storage_get toy_crypto mem_db d' ''k'' = None"
proof -
  obtain d' where w: "storage_put toy_crypto mem_db [] ''k'' ''ab'' = Some d'"
    by (simp add: storage_put_def mem_db_def)
  moreover have "db_Get mem_db d' ''k'' \<noteq> DbError" by (simp add: mem_db_def split: option.splits)
  moreover have "SHA256 toy_crypto (SHA256 toy_crypto (bytes_of_string ''ab'')) \<noteq> SHA256 toy_crypto (bytes_of_string ''ab'')"
    by code_simp
  ultimately show ?thesis using put_is_unreadable [OF mem_db_ok] by blast
qed

end
