(* ===== verification/State_Runtime.thy ===== *)
theory State_Runtime
  imports Storage Vm_Locks Stateful_Shape
begin

text \<open>
  \<open>src/src/contract_state_runtime.h\<close>, first part, with \<open>src/src/script_context_builder.h\<close>: loading
  the confirmed state of a contract from the database and executing a key/value call on a copy of
  it. A state map is an association list with distinct keys; the C++ map is unordered, and no result
  but the text of an error depends on its order. The pointer \<open>chainCtx\<close> is a flag that says whether
  it is set. The families Voting and Token Issuer have theories of their own.
\<close>

subsection \<open>Execution contexts\<close>

record 'j ScriptExecutionContextSpec =
  spec_gasLimit :: u64
  spec_tx :: "'j Transaction option"
  spec_blockTime :: u32
  spec_medianTimePast :: u32
  spec_inputIndex :: nat
  spec_scriptPubKey :: "bytes option"
  spec_sighash :: bytes
  spec_chainCtx :: bool
  spec_execHeight :: u32
  spec_marketValidated09 :: bool
  spec_sender :: string
  spec_state :: "state_map option"
  spec_contractAddress :: string
  spec_outputIndex :: u64

definition default_spec :: "'j ScriptExecutionContextSpec" where
  "default_spec =
     \<lparr>spec_gasLimit = 1000000, spec_tx = None, spec_blockTime = 0, spec_medianTimePast = 0,
      spec_inputIndex = 0, spec_scriptPubKey = None, spec_sighash = [], spec_chainCtx = False,
      spec_execHeight = 0, spec_marketValidated09 = False, spec_sender = '''', spec_state = None,
      spec_contractAddress = '''', spec_outputIndex = u64_max\<rparr>"

definition BuildScriptExecutionContext :: "'j ScriptExecutionContextSpec \<Rightarrow> 'j ScriptExecutionContext" where
  "BuildScriptExecutionContext spec =
     (new_context (spec_gasLimit spec) (spec_tx spec) (spec_blockTime spec))
       \<lparr>medianTimePast := spec_medianTimePast spec, inputIndex := spec_inputIndex spec,
        ctx_scriptPubKey := spec_scriptPubKey spec, sighash := spec_sighash spec,
        ctx_sender := spec_sender spec, outputIndex := spec_outputIndex spec, state := spec_state spec,
        chainCtx := spec_chainCtx spec, execHeight := spec_execHeight spec,
        marketValidated09 := spec_marketValidated09 spec, contractAddress := spec_contractAddress spec,
        gasUsed := 0, execStack := [True]\<rparr>"

subsection \<open>Loading a confirmed domain\<close>

record ConfirmedStateDomainSnapshot =
  snap_current :: string
  snap_root :: string
  snap_ownerHash160 :: string
  snap_family :: string
  snap_state :: state_map
  snap_accountedStateBytes :: nat

definition IsCanonicalLowerHash160Hex :: "string \<Rightarrow> bool" where
  "IsCanonicalLowerHash160Hex val \<longleftrightarrow> length val = 40 \<and> list_all is_lower_hex val"

definition DecodeCanonicalLogicalKeyHex :: "string \<Rightarrow> string option" where
  "DecodeCanonicalLogicalKeyHex encoded =
     (if encoded = [] \<or> odd (length encoded) then None
      else if length encoded div 2 > MAX_LOGICAL_KEY_BYTES then None
      else if \<not> list_all is_lower_hex encoded then None
      else case hex_decode encoded of
        None \<Rightarrow> None
      | Some b \<Rightarrow>
          let k = string_of_bytes b in
          if IsLogicalKeyAllowed k \<and> HexEncodeLogicalKey k = encoded
          then Some k else None)"

fun load_entries :: "state_map \<Rightarrow> (string \<times> string) list \<Rightarrow> string + state_map" where
  "load_entries st [] = Inr st"
| "load_entries st ((encodedKey, rawValue) # rest) =
     (case DecodeCanonicalLogicalKeyHex encodedKey of
        None \<Rightarrow> Inl ''non-canonical durable contract state key''
      | Some k \<Rightarrow>
          let val = bytes_of_string rawValue in
          if \<not> IsValueAllowed val then Inl ''durable contract state value exceeds consensus limit''
          else if map_of st k \<noteq> None then Inl ''duplicate logical key in durable contract state''
          else load_entries (st @ [(k, val)]) rest)"

text \<open>A registry record that must be there.\<close>

definition read_record :: "'d leveldb \<Rightarrow> 'd \<Rightarrow> string \<Rightarrow> string \<Rightarrow> string + string" where
  "read_record L d key reason =
     (case getRaw L d key of Some (Some raw) \<Rightarrow> Inr raw | _ \<Rightarrow> Inl reason)"

definition read_family :: "'d leveldb \<Rightarrow> 'd \<Rightarrow> string \<Rightarrow> string + string" where
  "read_family L d familyKey =
     (case getRaw L d familyKey of
        None \<Rightarrow> Inl ''unable to read confirmed contract family registry''
      | Some None \<Rightarrow> Inr ''''
      | Some (Some fam) \<Rightarrow>
          if fam \<noteq> ''voting_v1'' \<and> fam \<noteq> ''token_issuer_v1'' then Inl ''unsupported confirmed contract family''
          else Inr fam)"

definition load_state :: "'d leveldb \<Rightarrow> 'd \<Rightarrow> string \<Rightarrow> string + state_map \<times> nat" where
  "load_state L d statePrefix =
     (case load_entries [] (iteratePrefix L d statePrefix) of
        Inl e \<Rightarrow> Inl e
      | Inr st \<Rightarrow>
          if st = [] then Inl ''confirmed contract state domain is unexpectedly empty''
          else case MeasureStateBytes st of
            None \<Rightarrow> Inl ''confirmed contract state exceeds consensus resource limits''
          | Some accounted \<Rightarrow> Inr (st, accounted))"

definition load_domain :: "'d leveldb \<Rightarrow> 'd \<Rightarrow> string \<Rightarrow> string \<Rightarrow> string + ConfirmedStateDomainSnapshot" where
  "load_domain L d currentOutpoint rootOutpoint =
     (if \<not> IsCanonicalContractOutpoint rootOutpoint then Inl ''stored contract lineage root is non-canonical''
      else
        let liveKey = BuildContractLiveKey rootOutpoint; ownerKey = BuildContractOwnerKey rootOutpoint;
            familyKey = BuildContractFamilyKey rootOutpoint; statePrefix = BuildContractStatePrefix rootOutpoint in
        if liveKey = [] \<or> ownerKey = [] \<or> familyKey = [] \<or> statePrefix = []
        then Inl ''unable to derive confirmed state-domain keys''
        else case read_record L d liveKey ''missing confirmed live-anchor registry'' of
          Inl e \<Rightarrow> Inl e
        | Inr live \<Rightarrow>
            if live \<noteq> currentOutpoint
            then Inl ''state-anchor is stale; contractlive does not point to vin[0]''
            else case read_record L d ownerKey ''missing confirmed contract owner binding'' of
              Inl e \<Rightarrow> Inl e
            | Inr ownerRaw \<Rightarrow>
                if \<not> IsCanonicalLowerHash160Hex ownerRaw
                then Inl ''stored contract owner binding is malformed''
                else case read_family L d familyKey of
                  Inl e \<Rightarrow> Inl e
                | Inr fam \<Rightarrow>
                    (case load_state L d statePrefix of
                       Inl e \<Rightarrow> Inl e
                     | Inr (st, accounted) \<Rightarrow>
                         Inr \<lparr>snap_current = currentOutpoint, snap_root = rootOutpoint, snap_ownerHash160 = ownerRaw,
                              snap_family = fam, snap_state = st, snap_accountedStateBytes = accounted\<rparr>))"

definition LoadConfirmedStateDomain :: "'d leveldb \<Rightarrow> 'd \<Rightarrow> string \<Rightarrow> string + ConfirmedStateDomainSnapshot" where
  "LoadConfirmedStateDomain L d currentOutpoint =
     (if \<not> IsCanonicalContractOutpoint currentOutpoint
      then Inl ''current state-anchor outpoint is not canonical''
      else
        let lineageKey = BuildContractLineageKey currentOutpoint in
        if lineageKey = [] then Inl ''unable to derive lineage key''
        else case read_record L d lineageKey ''missing confirmed contract lineage'' of
          Inl e \<Rightarrow> Inl e
        | Inr rootOutpoint \<Rightarrow> load_domain L d currentOutpoint rootOutpoint)"

subsection \<open>A key/value call\<close>

definition stateful_call_context ::
    "'j Transaction \<Rightarrow> StatefulCallShapeResult \<Rightarrow> bytes \<Rightarrow> ConfirmedStateDomainSnapshot \<Rightarrow> string \<Rightarrow>
       u32 \<Rightarrow> u32 \<Rightarrow> u64 \<Rightarrow> bool \<Rightarrow> 'j ScriptExecutionContext" where
  "stateful_call_context tx callShape lockingScript snapshot callerAddress now height limit hasChain =
     BuildScriptExecutionContext
       (default_spec\<lparr>spec_gasLimit := limit, spec_tx := Some tx, spec_blockTime := now,
          spec_inputIndex := 0, spec_scriptPubKey := Some lockingScript, spec_chainCtx := hasChain,
          spec_execHeight := height, spec_sender := callerAddress,
          spec_state := Some (snap_state snapshot), spec_contractAddress := snap_root snapshot,
          spec_outputIndex := word_of_nat (call_continuationVout callShape)\<rparr>)"

text \<open>The state and the gas the scripts of the anchor input leave.\<close>

definition run_call ::
    "crypto \<Rightarrow> 'j Transaction \<Rightarrow> StatefulCallShapeResult \<Rightarrow> bytes \<Rightarrow> ConfirmedStateDomainSnapshot \<Rightarrow> string \<Rightarrow>
       u32 \<Rightarrow> u32 \<Rightarrow> u64 \<Rightarrow> bool \<Rightarrow> (state_map \<times> u64) option" where
  "run_call C tx callShape lockingScript snapshot callerAddress now height limit hasChain =
     (case VerifyScripts C (scriptSig (vin tx ! 0)) lockingScript
             (stateful_call_context tx callShape lockingScript snapshot callerAddress now height limit hasChain) of
        None \<Rightarrow> None
      | Some c \<Rightarrow> Some (case state c of None \<Rightarrow> [] | Some st \<Rightarrow> st, gasUsed c))"

record KvCallExecutionResult =
  kv_state :: state_map
  kv_gasUsed :: u64

definition ExecuteStatefulKvV1Call ::
    "crypto \<Rightarrow> 'j Transaction \<Rightarrow> StatefulCallShapeResult \<Rightarrow> bytes \<Rightarrow> ConfirmedStateDomainSnapshot \<Rightarrow> string \<Rightarrow>
       u32 \<Rightarrow> u32 \<Rightarrow> u64 \<Rightarrow> bool \<Rightarrow> string + KvCallExecutionResult" where
  "ExecuteStatefulKvV1Call C tx callShape lockingScript snapshot callerAddress now height limit hasChain =
     (if length (vin tx) \<noteq> 2 \<or> callerInputIndex callShape \<noteq> 1 \<or>
         call_continuationVout callShape \<ge> length (vout tx) \<or>
         \<not> IsCanonicalStatefulKvV1Script lockingScript
      then Inl ''invalid Stateful K/V V1 execution parameters''
      else if snap_root snapshot = [] \<or> snap_current snapshot = [] \<or> callerAddress = []
      then Inl ''missing confirmed state/caller execution context''
      else if callValue callShape \<noteq> 0 then Inl ''Stateful K/V V1 is non-payable''
      else case run_call C tx callShape lockingScript snapshot callerAddress now height limit hasChain of
        None \<Rightarrow> Inl ''Stateful K/V V1 VM execution returned false''
      | Some (st, used) \<Rightarrow>
          if used > limit then Inl ''Stateful K/V V1 VM gas limit exceeded''
          else if map_of st (logicalKey callShape) \<noteq> Some (call_value callShape)
          then Inl ''Stateful K/V V1 VM result does not match committed call arguments''
          else case MeasureStateBytes st of
            None \<Rightarrow> Inl ''post-call state exceeds consensus resource limits''
          | Some _ \<Rightarrow> Inr \<lparr>kv_state = st, kv_gasUsed = used\<rparr>)"

subsection \<open>What loading does\<close>

lemma decode_key_iff:
  "DecodeCanonicalLogicalKeyHex e = Some k \<longleftrightarrow> IsLogicalKeyAllowed k \<and> e = hex_encode (bytes_of_string k)"
proof
  assume "DecodeCanonicalLogicalKeyHex e = Some k"
  then have "IsLogicalKeyAllowed k" "HexEncodeLogicalKey k = e"
    by (auto simp: DecodeCanonicalLogicalKeyHex_def Let_def split: if_splits option.splits)
  then show "IsLogicalKeyAllowed k \<and> e = hex_encode (bytes_of_string k)"
    using IsLogicalKeyAllowed_encode(1) [of k] by simp
next
  assume a: "IsLogicalKeyAllowed k \<and> e = hex_encode (bytes_of_string k)"
  then have k: "0 < length k" "length k \<le> 128" by (auto simp: IsLogicalKeyAllowed_def MAX_LOGICAL_KEY_BYTES_def)
  have n: "e \<noteq> []" "even (length e)" "length e div 2 = length k"
    using a k length_hex_encode [of "bytes_of_string k"] by (auto simp del: length_hex_encode)
  have "list_all is_lower_hex e" using a hex_lower_encode [of "bytes_of_string k"] by (simp add: hex_lower_def)
  then show "DecodeCanonicalLogicalKeyHex e = Some k"
    using a k n IsLogicalKeyAllowed_encode(1) [of k]
    by (simp add: DecodeCanonicalLogicalKeyHex_def Let_def MAX_LOGICAL_KEY_BYTES_def)
qed

definition loaded_entry :: "string \<times> string \<Rightarrow> string \<times> bytes" where
  "loaded_entry e = (the (DecodeCanonicalLogicalKeyHex (fst e)), bytes_of_string (snd e))"

lemma load_entries_Inr:
  "keys_distinct st \<Longrightarrow>
   load_entries st es = Inr st' \<longleftrightarrow>
     (\<forall>(e, raw)\<in>set es. DecodeCanonicalLogicalKeyHex e \<noteq> None \<and> IsValueAllowed (bytes_of_string raw)) \<and>
     st' = st @ map loaded_entry es \<and> keys_distinct st'"
proof (induction st es rule: load_entries.induct)
  case (2 st e raw rest)
  show ?case
  proof (cases "DecodeCanonicalLogicalKeyHex e")
    case (Some k)
    have "load_entries (st @ [(k, bytes_of_string raw)]) rest = Inr st' \<longleftrightarrow>
      (\<forall>(e, raw)\<in>set rest. DecodeCanonicalLogicalKeyHex e \<noteq> None \<and> IsValueAllowed (bytes_of_string raw)) \<and>
      st' = st @ [(k, bytes_of_string raw)] @ map loaded_entry rest \<and> keys_distinct st'"
      if "IsValueAllowed (bytes_of_string raw)" "map_of st k = None"
      using 2 that Some by (auto simp: map_of_eq_None_iff)
    moreover have "\<not> keys_distinct (st @ (k, bytes_of_string raw) # map loaded_entry rest)"
      if "map_of st k \<noteq> None" using that by (auto simp: map_of_eq_None_iff dest: map_of_SomeD)
    moreover have "loaded_entry (e, raw) = (k, bytes_of_string raw)" using Some by (simp add: loaded_entry_def)
    ultimately show ?thesis using Some by (auto simp: Let_def)
  qed simp
qed auto

lemma read_record_Inr: "read_record L d k e = Inr raw \<longleftrightarrow> getRaw L d k = Some (Some raw)"
  by (simp add: read_record_def split: option.splits)

text \<open>A stored value as the prefix scan hands it out.\<close>

definition cut_value :: "bytes \<Rightarrow> bytes" where
  "cut_value v = bytes_of_string (actual_value (string_of_bytes v))"

definition cut_state :: "state_map \<Rightarrow> state_map" where
  "cut_state st = map (\<lambda>(k, v). (k, cut_value v)) st"

lemma cut_state_simps [simp]:
  "map_of (cut_state st) k = map_option cut_value (map_of st k)" "map fst (cut_state st) = map fst st"
  "fst ` set (cut_state st) = fst ` set st" "cut_state st = [] \<longleftrightarrow> st = []"
  by (induction st) (auto simp: cut_state_def)

text \<open>
  What applying blocks leaves in the database for a contract. The limits hold for the values as they
  are read: the check of a call sees nothing else.
\<close>

definition domain_stored ::
    "(string \<rightharpoonup> string) \<Rightarrow> string \<Rightarrow> string \<Rightarrow> string \<Rightarrow> string \<Rightarrow> state_map \<Rightarrow> bool" where
  "domain_stored m rt cur own fam st \<longleftrightarrow>
     IsCanonicalContractOutpoint rt \<and> IsCanonicalContractOutpoint cur \<and> IsCanonicalLowerHash160Hex own \<and>
     fam \<in> {'''', ''voting_v1'', ''token_issuer_v1''} \<and>
     m (BuildContractLineageKey cur) = Some rt \<and> m (BuildContractLiveKey rt) = Some cur \<and>
     m (BuildContractOwnerKey rt) = Some own \<and>
     m (BuildContractFamilyKey rt) = (if fam = [] then None else Some fam) \<and>
     keys_distinct st \<and> st \<noteq> [] \<and> state_within_limits (cut_state st) \<and>
     (\<forall>e raw. m (BuildContractStatePrefix rt @ e) = Some raw \<longleftrightarrow>
        (\<exists>k v. map_of st k = Some v \<and> e = HexEncodeLogicalKey k \<and> raw = string_of_bytes v))"

definition db_readable :: "'d leveldb \<Rightarrow> 'd \<Rightarrow> bool" where
  "db_readable L d \<longleftrightarrow> (\<forall>k. db_Get L d k \<noteq> DbError) \<and> (\<forall>p. db_Seek L d p \<noteq> None)"

lemma length_cut: "length (cut_value v) \<le> length v"
  using actual_value_shorter [of "string_of_bytes v"] actual_value_plain [of "string_of_bytes v"]
  by (cases "CHR ''|'' \<in> set (string_of_bytes v)") (auto simp: cut_value_def less_imp_le)

lemma cut_value_id_iff: "cut_value v = v \<longleftrightarrow> 0x7c \<notin> set v"
proof -
  have bar: "CHR ''|'' \<in> set (string_of_bytes v) \<longleftrightarrow> 0x7c \<in> set v"
  proof -
    have "byte_of_char (CHR ''|'') = 0x7c" by code_simp
    then show ?thesis by (auto simp: image_iff) (metis byte_of_char_of_byte char_of_byte_of_char)+
  qed
  show ?thesis
  proof (cases "0x7c \<in> set v")
    case True
    then have "length (cut_value v) < length v"
      using actual_value_shorter [of "string_of_bytes v"] bar by (simp add: cut_value_def)
    then show ?thesis using True by auto
  next
    case False
    then show ?thesis using actual_value_plain [of "string_of_bytes v"] bar by (simp add: cut_value_def)
  qed
qed

lemma state_bytes_sum:
  assumes "keys_distinct m"
  shows "state_bytes m = (\<Sum>k\<in>fst ` set m. entry_bytes k (the (map_of m k)))"
proof -
  have d: "distinct m" and i: "inj_on fst (set m)" using assms by (simp_all add: distinct_map)
  have "state_bytes m = (\<Sum>(k, v)\<in>set m. entry_bytes k v)"
    unfolding state_bytes_def using d by (rule sum_list_distinct_conv_sum_set)
  also have "\<dots> = (\<Sum>e\<in>set m. entry_bytes (fst e) (the (map_of m (fst e))))"
    by (rule sum.cong) (auto simp: map_of_is_SomeI [OF assms])
  also have "\<dots> = (\<Sum>k\<in>fst ` set m. entry_bytes k (the (map_of m k)))"
    by (simp add: sum.reindex [OF i])
  finally show ?thesis .
qed

text \<open>The limits do not mind shorter values.\<close>

lemma limits_shrink:
  assumes "keys_distinct m" "keys_distinct m'" "state_within_limits m" "fst ` set m' = fst ` set m"
    and "\<And>k v v'. map_of m k = Some v \<Longrightarrow> map_of m' k = Some v' \<Longrightarrow> length v' \<le> length v"
  shows "state_within_limits m'"
proof -
  note dom = assms(4)
  have get: "map_of m k = Some (the (map_of m k))" if "k \<in> fst ` set m" for k
    using that by (metis dom_map_of_conv_image_fst domD option.sel)
  have "length m' = card (fst ` set m')" "length m = card (fst ` set m)"
    using assms(1,2) distinct_card [of "map fst m'"] distinct_card [of "map fst m"] by simp_all
  then have "length m' = length m" using dom by simp
  moreover have "state_bytes m' \<le> state_bytes m"
    unfolding state_bytes_sum [OF assms(1)] state_bytes_sum [OF assms(2)] dom
  proof (rule sum_mono)
    fix k assume "k \<in> fst ` set m"
    then have "map_of m k = Some (the (map_of m k))" "k \<in> fst ` set m'" using get dom by simp_all
    moreover from this(2) have "map_of m' k = Some (the (map_of m' k))"
      by (metis dom_map_of_conv_image_fst domD option.sel)
    ultimately show "entry_bytes k (the (map_of m' k)) \<le> entry_bytes k (the (map_of m k))"
      using assms(5) by (simp add: entry_bytes_def)
  qed
  moreover have "entry_ok k v" if e: "(k, v) \<in> set m'" for k v
  proof -
    have v: "map_of m' k = Some v" using e assms(2) by simp
    have "k \<in> fst ` set m" using e dom by force
    then obtain w where w: "map_of m k = Some w" using get by blast
    then have "entry_ok k w" using assms(3) by (auto simp: state_within_limits_def dest: map_of_SomeD)
    then show ?thesis using assms(5) [OF w v] by (auto simp: entry_ok_def IsValueAllowed_def)
  qed
  ultimately show ?thesis using assms(3) by (auto simp: state_within_limits_def)
qed

lemma cut_state_limits: "keys_distinct st \<Longrightarrow> state_within_limits st \<Longrightarrow> state_within_limits (cut_state st)"
  by (rule limits_shrink [of st]) (auto simp: length_cut)

lemma load_state_stored:
  assumes "leveldb_ok L con" "db_Seek L d (BuildContractStatePrefix rt) \<noteq> None" "domain_stored (con d) rt cur own fam st"
  shows "\<exists>st'. load_state L d (BuildContractStatePrefix rt) = Inr (st', state_bytes st') \<and>
    keys_distinct st' \<and> state_within_limits st' \<and> map_of st' = (\<lambda>k. map_option cut_value (map_of st k))"
proof -
  let ?p = "BuildContractStatePrefix rt"
  define es where "es = iteratePrefix L d ?p"
  define st' where "st' = map loaded_entry es"
  have ds: "keys_distinct st" "st \<noteq> []" "state_within_limits (cut_state st)"
    and rec: "con d (?p @ e) = Some raw \<longleftrightarrow>
      (\<exists>k v. map_of st k = Some v \<and> e = HexEncodeLogicalKey k \<and> raw = string_of_bytes v)" for e raw
    using assms(3) by (auto simp: domain_stored_def)
  have ok: "entry_ok k (cut_value v)" if "map_of st k = Some v" for k v
  proof -
    have "(k, cut_value v) \<in> set (cut_state st)" by (rule map_of_SomeD) (simp add: that)
    then show ?thesis using ds(3) by (auto simp: state_within_limits_def)
  qed
  obtain rows where rows: "db_Seek L d ?p = Some rows" using assms(2) by auto
  have es: "set es = {(hex_encode (bytes_of_string k), string_of_bytes (cut_value v)) | k v. map_of st k = Some v}"
    unfolding es_def scan_exact(1) [OF assms(1) rows] rec
    using ok IsLogicalKeyAllowed_encode(1) by (fastforce simp: cut_value_def entry_ok_def)
  have dec: "DecodeCanonicalLogicalKeyHex (hex_encode (bytes_of_string k)) = Some k" if "map_of st k = Some v" for k v
    using ok [OF that] by (simp add: decode_key_iff entry_ok_def)
  have set': "set st' = {(k, cut_value v) | k v. map_of st k = Some v}"
  proof -
    have "set st' = loaded_entry ` {(hex_encode (bytes_of_string k), string_of_bytes (cut_value v)) | k v. map_of st k = Some v}"
      by (simp only: st'_def set_map es)
    also have "\<dots> = {(k, cut_value v) | k v. map_of st k = Some v}"
      using dec by (force simp: loaded_entry_def)
    finally show ?thesis .
  qed
  have dist: "keys_distinct st'"
  proof -
    have "map fst st' = map (the \<circ> DecodeCanonicalLogicalKeyHex) (map fst es)"
      by (simp add: st'_def loaded_entry_def)
    moreover have "inj_on (the \<circ> DecodeCanonicalLogicalKeyHex) (set (map fst es))"
      by (rule inj_onI) (use es dec in auto)
    moreover have "distinct (map fst es)" using scan_exact(2) [OF assms(1) rows] by (simp add: es_def)
    ultimately show ?thesis by (simp only: distinct_map [of _ "map fst es"] simp_thms)
  qed
  have get: "map_of st' k = map_option cut_value (map_of st k)" for k
  proof (cases "map_of st k")
    case None
    then have "k \<notin> fst ` set st'" by (auto simp: set')
    then have "map_of st' k = None" by (simp add: map_of_eq_None_iff)
    then show ?thesis using None by simp
  next
    case (Some v)
    then have "(k, cut_value v) \<in> set st'" by (auto simp: set')
    then show ?thesis using Some dist by simp
  qed
  have lim: "state_within_limits st'"
  proof (rule limits_shrink [OF _ dist ds(3)])
    show "fst ` set st' = fst ` set (cut_state st)"
      using get by (auto simp flip: dom_map_of_conv_image_fst)
    show "keys_distinct (cut_state st)" using ds(1) by simp
    show "length v' \<le> length v" if "map_of (cut_state st) k = Some v" "map_of st' k = Some v'" for k v v'
      using that unfolding cut_state_simps get by simp
  qed
  have "load_entries [] es = Inr st'"
  proof -
    have "IsValueAllowed (cut_value v)" if "map_of st k = Some v" for k v
      using ok [OF that] by (simp add: entry_ok_def)
    then show ?thesis
      using load_entries_Inr [of "[]" es st'] dist dec es by (auto simp: st'_def)
  qed
  moreover have "st' \<noteq> []"
  proof
    assume "st' = []"
    then have "map_of st k = None" for k using get [of k] by simp
    then show False using ds(2) by (metis list.set_intros(1) map_of_eq_None_iff neq_Nil_conv image_eqI)
  qed
  ultimately have "load_state L d ?p = Inr (st', state_bytes st')"
    using lim by (simp add: load_state_def es_def MeasureStateBytes_eq)
  then show ?thesis using dist lim get by blast
qed

lemma stored_keys:
  assumes "domain_stored m rt cur own fam st"
  shows "BuildContractLineageKey cur \<noteq> []" "BuildContractLiveKey rt \<noteq> []" "BuildContractOwnerKey rt \<noteq> []"
    "BuildContractFamilyKey rt \<noteq> []" "BuildContractStatePrefix rt \<noteq> []"
  using assms by (simp_all add: domain_stored_def key_defs)

text \<open>A stored domain loads, and this is what comes out.\<close>

lemma stored_domain_loads:
  assumes "leveldb_ok L con" "db_readable L d" "domain_stored (con d) rt cur own fam st"
  shows "\<exists>s. LoadConfirmedStateDomain L d cur = Inr s \<and> snap_root s = rt \<and> snap_current s = cur \<and>
    snap_ownerHash160 s = own \<and> snap_family s = fam \<and> keys_distinct (snap_state s) \<and>
    state_within_limits (snap_state s) \<and>
    map_of (snap_state s) = (\<lambda>k. map_option cut_value (map_of st k))"
proof -
  obtain st' where st': "load_state L d (BuildContractStatePrefix rt) = Inr (st', state_bytes st')"
    "keys_distinct st'" "state_within_limits st'" "map_of st' = (\<lambda>k. map_option cut_value (map_of st k))"
    using load_state_stored [OF assms(1) _ assms(3)] assms(2) by (auto simp: db_readable_def)
  have raw: "getRaw L d k = Some (con d k)" for k
    using getRaw_eq [OF assms(1)] assms(2) by (simp add: db_readable_def)
  have rr: "read_record L d k e = Inr v" if "con d k = Some v" for k e v
    using that by (simp add: read_record_Inr raw)
  have fam: "read_family L d (BuildContractFamilyKey rt) = Inr fam"
    using assms(3) by (auto simp: read_family_def raw domain_stored_def)
  have "LoadConfirmedStateDomain L d cur = Inr \<lparr>snap_current = cur, snap_root = rt, snap_ownerHash160 = own,
      snap_family = fam, snap_state = st', snap_accountedStateBytes = state_bytes st'\<rparr>"
    using assms(3) stored_keys [OF assms(3)] st'(1) fam
    by (simp add: LoadConfirmedStateDomain_def load_domain_def Let_def rr domain_stored_def)
  then show ?thesis using st' by simp
qed

text \<open>
  C29: state values lose everything up to their first vertical bar when they are loaded. Applying a
  block stores contract values raw, the prefix scan takes what stands before a bar for a checksum.
  So a domain stored as the block phases store it always loads, with every value cut at its first
  byte \<open>0x7c\<close>, and it loads as the state that was stored exactly when no value holds that byte.
\<close>

theorem reload_cuts_values:
  assumes "leveldb_ok L con" "db_readable L d" "domain_stored (con d) rt cur own fam st"
  shows "\<exists>s. LoadConfirmedStateDomain L d cur = Inr s \<and> snap_root s = rt \<and> snap_family s = fam \<and>
    map_of (snap_state s) = (\<lambda>k. map_option cut_value (map_of st k)) \<and>
    (map_of (snap_state s) = map_of st \<longleftrightarrow> (\<forall>(k, v)\<in>set st. 0x7c \<notin> set v))"
proof -
  obtain s where s: "LoadConfirmedStateDomain L d cur = Inr s" "snap_root s = rt" "snap_family s = fam"
    "map_of (snap_state s) = (\<lambda>k. map_option cut_value (map_of st k))"
    using stored_domain_loads [OF assms] by blast
  have "keys_distinct st" using assms(3) by (simp add: domain_stored_def)
  then have "(\<forall>(k, v)\<in>set st. 0x7c \<notin> set v) \<longleftrightarrow> (\<forall>k v. map_of st k = Some v \<longrightarrow> cut_value v = v)"
    by (auto simp: cut_value_id_iff)
  also have "\<dots> \<longleftrightarrow> (\<lambda>k. map_option cut_value (map_of st k)) = map_of st"
  proof -
    have "map_option cut_value (map_of st k) = map_of st k \<longleftrightarrow> (\<forall>v. map_of st k = Some v \<longrightarrow> cut_value v = v)" for k
      by (cases "map_of st k") simp_all
    then show ?thesis by (simp add: fun_eq_iff)
  qed
  finally show ?thesis using s by auto
qed

text \<open>The records of one domain, as rows of the database.\<close>

definition domain_rows :: "string \<Rightarrow> string \<Rightarrow> string \<Rightarrow> string \<Rightarrow> state_map \<Rightarrow> (string \<times> string) list" where
  "domain_rows rt cur own fam st =
     [(BuildContractLineageKey cur, rt), (BuildContractLiveKey rt, cur), (BuildContractOwnerKey rt, own)] @
     (if fam = [] then [] else [(BuildContractFamilyKey rt, fam)]) @
     map (\<lambda>(k, v). (BuildContractStateKey rt k, string_of_bytes v)) st"

lemma state_key_prefix:
  "IsLogicalKeyAllowed k \<Longrightarrow> IsCanonicalContractOutpoint rt \<Longrightarrow>
     BuildContractStateKey rt k = BuildContractStatePrefix rt @ HexEncodeLogicalKey k"
  using IsLogicalKeyAllowed_encode [of k] by (simp add: key_defs Let_def)

lemma HexEncode_inject:
  "IsLogicalKeyAllowed k \<Longrightarrow> IsLogicalKeyAllowed k' \<Longrightarrow> HexEncodeLogicalKey k = HexEncodeLogicalKey k' \<longleftrightarrow> k = k'"
  using IsLogicalKeyAllowed_encode(1) by simp

lemma state_rows:
  assumes "keys_distinct st" "\<forall>(k, v)\<in>set st. IsLogicalKeyAllowed k" "IsCanonicalContractOutpoint rt"
  shows "map_of (map (\<lambda>(k, v). (BuildContractStateKey rt k, string_of_bytes v)) st) (BuildContractStatePrefix rt @ e) =
      Some raw \<longleftrightarrow> (\<exists>k v. map_of st k = Some v \<and> e = HexEncodeLogicalKey k \<and> raw = string_of_bytes v)"
proof -
  let ?rows = "map (\<lambda>(k, v). (BuildContractStateKey rt k, string_of_bytes v)) st"
  have "map fst ?rows = map (BuildContractStateKey rt) (map fst st)" by (induction st) auto
  moreover have "inj_on (BuildContractStateKey rt) (set (map fst st))"
  proof (rule inj_onI)
    fix k k' assume "k \<in> set (map fst st)" "k' \<in> set (map fst st)" and e: "BuildContractStateKey rt k = BuildContractStateKey rt k'"
    then have "IsLogicalKeyAllowed k" "IsLogicalKeyAllowed k'" using assms(2) by auto
    then show "k = k'" using e assms(3) HexEncode_inject by (simp add: state_key_prefix)
  qed
  ultimately have "distinct (map fst ?rows)" using assms(1) by (simp only: distinct_map [of _ "map fst st"] simp_thms)
  then have "map_of ?rows (BuildContractStatePrefix rt @ e) = Some raw \<longleftrightarrow>
      (BuildContractStatePrefix rt @ e, raw) \<in> set ?rows" by (simp only: map_of_eq_Some_iff)
  also have "\<dots> \<longleftrightarrow> (\<exists>(k, v)\<in>set st. BuildContractStatePrefix rt @ e = BuildContractStateKey rt k \<and> raw = string_of_bytes v)"
    by (simp add: image_iff case_prod_unfold)
  also have "\<dots> \<longleftrightarrow> (\<exists>(k, v)\<in>set st. e = HexEncodeLogicalKey k \<and> raw = string_of_bytes v)"
  proof (rule bex_cong [OF refl], clarify)
    fix k v assume "(k, v) \<in> set st"
    then have "BuildContractStateKey rt k = BuildContractStatePrefix rt @ HexEncodeLogicalKey k"
      using assms(2,3) by (intro state_key_prefix) auto
    then show "(BuildContractStatePrefix rt @ e = BuildContractStateKey rt k \<and> raw = string_of_bytes v) =
      (e = HexEncodeLogicalKey k \<and> raw = string_of_bytes v)" by simp
  qed
  also have "\<dots> \<longleftrightarrow> (\<exists>k v. map_of st k = Some v \<and> e = HexEncodeLogicalKey k \<and> raw = string_of_bytes v)"
    using assms(1) by auto
  finally show ?thesis .
qed

lemma rows_stored:
  assumes "IsCanonicalContractOutpoint rt" "IsCanonicalContractOutpoint cur" "IsCanonicalLowerHash160Hex own"
    "fam \<in> {'''', ''voting_v1'', ''token_issuer_v1''}" "keys_distinct st" "st \<noteq> []" "state_within_limits st"
  shows "domain_stored (map_of (domain_rows rt cur own fam st)) rt cur own fam st"
proof -
  have ok: "\<forall>(k, v)\<in>set st. IsLogicalKeyAllowed k" using assms(7) by (auto simp: state_within_limits_def entry_ok_def)
  have none: "map_of (map (\<lambda>(k, v). (BuildContractStateKey rt k, string_of_bytes v)) st) (BuildContractFamilyKey rt) = None"
    using ok assms(1) by (auto simp: map_of_eq_None_iff state_key_eq key_defs split: if_splits)
  have pre: "map_of (domain_rows rt cur own fam st) (BuildContractStatePrefix rt @ e) =
      map_of (map (\<lambda>(k, v). (BuildContractStateKey rt k, string_of_bytes v)) st) (BuildContractStatePrefix rt @ e)" for e
    using assms(1,2) by (simp add: domain_rows_def key_defs)
  have "map_of (domain_rows rt cur own fam st) (BuildContractFamilyKey rt) = (if fam = [] then None else Some fam)"
    using none assms(1,2) by (simp add: domain_rows_def key_defs)
  then show ?thesis
    using assms state_rows [OF assms(5) ok assms(1)] pre cut_state_limits [OF assms(5,7)]
    by (simp add: domain_stored_def) (simp add: domain_rows_def key_defs)
qed

definition sample_root :: string where
  "sample_root = replicate 64 (CHR ''a'') @ '':0''"

definition sample_owner :: string where
  "sample_owner = replicate 40 (CHR ''b'')"

lemma sample_domain: "IsCanonicalContractOutpoint sample_root" "IsCanonicalLowerHash160Hex sample_owner"
  by code_simp+

lemma mem_db_readable: "db_readable mem_db d"
  by (simp add: db_readable_def mem_db_def split: option.splits)

theorem reload_cuts_values_witness:
  "\<exists>s. LoadConfirmedStateDomain mem_db (domain_rows sample_root sample_root sample_owner [] [(''k'', [0x61, 0x7c, 0x62])])
      sample_root = Inr s \<and> map_of (snap_state s) ''k'' = Some [0x62]"
proof -
  have st: "domain_stored (map_of (domain_rows sample_root sample_root sample_owner [] [(''k'', [0x61, 0x7c, 0x62])]))
      sample_root sample_root sample_owner [] [(''k'', [0x61, 0x7c, 0x62])]"
    by (rule rows_stored) (simp_all add: sample_domain state_within_limits_def entry_ok_def state_bytes_def
        entry_bytes_def state_eval)
  have "cut_value [0x61, 0x7c, 0x62] = [0x62]" by code_simp
  then show ?thesis using reload_cuts_values [OF mem_db_ok mem_db_readable st] by fastforce
qed

subsection \<open>One live anchor\<close>

lemma load_inv:
  assumes "leveldb_ok L con" "LoadConfirmedStateDomain L d cur = Inr s"
  shows "snap_current s = cur" "con d (BuildContractLineageKey cur) = Some (snap_root s)"
    "con d (BuildContractLiveKey (snap_root s)) = Some cur" "IsCanonicalContractOutpoint (snap_root s)"
    "IsCanonicalContractOutpoint cur"
    "con d (BuildContractOwnerKey (snap_root s)) = Some (snap_ownerHash160 s)" "IsCanonicalLowerHash160Hex (snap_ownerHash160 s)"
    "load_state L d (BuildContractStatePrefix (snap_root s)) = Inr (snap_state s, snap_accountedStateBytes s)"
    "read_family L d (BuildContractFamilyKey (snap_root s)) = Inr (snap_family s)"
proof -
  obtain rt live own fam st n where x: "read_record L d (BuildContractLineageKey cur) ''missing confirmed contract lineage'' = Inr rt"
    "read_record L d (BuildContractLiveKey rt) ''missing confirmed live-anchor registry'' = Inr cur"
    "read_record L d (BuildContractOwnerKey rt) ''missing confirmed contract owner binding'' = Inr own"
    "IsCanonicalContractOutpoint rt" "IsCanonicalContractOutpoint cur" "IsCanonicalLowerHash160Hex own"
    "read_family L d (BuildContractFamilyKey rt) = Inr fam" "load_state L d (BuildContractStatePrefix rt) = Inr (st, n)"
    "s = \<lparr>snap_current = cur, snap_root = rt, snap_ownerHash160 = own, snap_family = fam, snap_state = st,
      snap_accountedStateBytes = n\<rparr>"
    using assms(2) by (auto simp: LoadConfirmedStateDomain_def load_domain_def Let_def split: if_splits sum.splits)
  then show "snap_current s = cur" "con d (BuildContractLineageKey cur) = Some (snap_root s)"
    "con d (BuildContractLiveKey (snap_root s)) = Some cur" "IsCanonicalContractOutpoint (snap_root s)"
    "IsCanonicalContractOutpoint cur"
    "con d (BuildContractOwnerKey (snap_root s)) = Some (snap_ownerHash160 s)" "IsCanonicalLowerHash160Hex (snap_ownerHash160 s)"
    "load_state L d (BuildContractStatePrefix (snap_root s)) = Inr (snap_state s, snap_accountedStateBytes s)"
    "read_family L d (BuildContractFamilyKey (snap_root s)) = Inr (snap_family s)"
    using getRaw_Some [OF assms(1)] by (auto simp: read_record_Inr)
qed

text \<open>What loads from a stored domain, whether or not other reads would fail.\<close>

lemma stored_domain_loaded:
  assumes "leveldb_ok L con" "domain_stored (con d) rt cur own fam st" "LoadConfirmedStateDomain L d cur = Inr s"
  shows "snap_root s = rt" "snap_ownerHash160 s = own" "snap_family s = fam"
    "map_of (snap_state s) k = map_option cut_value (map_of st k)"
proof -
  note i = load_inv [OF assms(1,3)]
  have d: "con d (BuildContractLineageKey cur) = Some rt" "con d (BuildContractOwnerKey rt) = Some own"
    "con d (BuildContractFamilyKey rt) = (if fam = [] then None else Some fam)" "fam \<in> {'''', ''voting_v1'', ''token_issuer_v1''}"
    using assms(2) by (simp_all add: domain_stored_def)
  show rt: "snap_root s = rt" using i(2) d(1) by simp
  show "snap_ownerHash160 s = own" using i(6) d(2) rt by simp
  have "getRaw L d (BuildContractFamilyKey rt) = Some None \<and> snap_family s = [] \<or>
      getRaw L d (BuildContractFamilyKey rt) = Some (Some (snap_family s)) \<and> snap_family s \<noteq> []"
    using i(9) rt by (auto simp: read_family_def split: option.splits if_splits)
  then show "snap_family s = fam"
    using getRaw_Some [OF assms(1), of d "BuildContractFamilyKey rt"] d(3) by (auto split: if_splits)
  have "db_Seek L d (BuildContractStatePrefix rt) \<noteq> None"
  proof
    assume "db_Seek L d (BuildContractStatePrefix rt) = None"
    then have "load_state L d (BuildContractStatePrefix rt) = Inl ''confirmed contract state domain is unexpectedly empty''"
      by (simp add: load_state_def iteratePrefix_def)
    then show False using i(8) rt by simp
  qed
  from load_state_stored [OF assms(1) this assms(2)] i(8) rt
  show "map_of (snap_state s) k = map_option cut_value (map_of st k)" by auto
qed

lemma load_state_wf:
  "load_state L d p = Inr (st, n) \<Longrightarrow> keys_distinct st \<and> st \<noteq> [] \<and> state_within_limits st \<and> n = state_bytes st"
  using load_entries_Inr [of "[]" "iteratePrefix L d p" st]
  by (auto simp: load_state_def MeasureStateBytes_iff split: sum.splits option.splits if_splits)

text \<open>
  A contract has one live anchor. What loads is well formed: distinct admissible keys within the
  resource limits, behind a lineage record of the outpoint and a live record that names it. Two
  outpoints that load from the same database under the same root are the same outpoint, so an anchor
  that was spent once never loads again while its successor is registered.
\<close>

theorem live_anchor_unique:
  assumes "leveldb_ok L con" "LoadConfirmedStateDomain L d cur = Inr s"
  shows "keys_distinct (snap_state s) \<and> state_within_limits (snap_state s) \<and> snap_state s \<noteq> [] \<and>
    snap_accountedStateBytes s = state_bytes (snap_state s) \<and>
    con d (BuildContractLineageKey cur) = Some (snap_root s) \<and>
    con d (BuildContractLiveKey (snap_root s)) = Some cur \<and>
    (\<forall>cur' s'. LoadConfirmedStateDomain L d cur' = Inr s' \<longrightarrow> snap_root s' = snap_root s \<longrightarrow> cur' = cur)"
proof -
  have u: "cur' = cur" if "LoadConfirmedStateDomain L d cur' = Inr s'" "snap_root s' = snap_root s" for cur' s'
    using load_inv(3) [OF assms] load_inv(3) [OF assms(1) that(1)] that(2) by simp
  show ?thesis
    using load_inv(2,3) [OF assms] load_state_wf [OF load_inv(8) [OF assms]] by (simp add: u)
qed

theorem live_anchor_unique_witness:
  "\<exists>s. LoadConfirmedStateDomain mem_db (domain_rows sample_root sample_root sample_owner [] [(''k'', [1])]) sample_root = Inr s \<and>
     state_within_limits (snap_state s)"
proof -
  have st: "domain_stored (map_of (domain_rows sample_root sample_root sample_owner [] [(''k'', [1])]))
      sample_root sample_root sample_owner [] [(''k'', [1])]"
    by (rule rows_stored) (simp_all add: sample_domain state_within_limits_def entry_ok_def state_bytes_def
        entry_bytes_def state_eval)
  obtain s where s: "LoadConfirmedStateDomain mem_db (domain_rows sample_root sample_root sample_owner [] [(''k'', [1])]) sample_root = Inr s"
    using stored_domain_loads [OF mem_db_ok mem_db_readable st] by blast
  show ?thesis using live_anchor_unique [OF mem_db_ok s] s by blast
qed

subsection \<open>What a call does\<close>

lemma call_shape_parts:
  assumes "ValidateStatefulCallShape C tx 0 lockHex locked = Inr shape"
  shows "length (vin tx) = 2" "callerInputIndex shape = 1" "call_continuationVout shape < length (vout tx)"
    "IsLogicalKeyAllowed (logicalKey shape)" "IsValueAllowed (call_value shape)"
    "scriptSig (vin tx ! 0) = kv_script (logicalKey shape) (call_value shape)"
    "DecodeScriptHexStrict lockHex = Some [OP_STORE, OP_1]"
proof -
  obtain key val st lock where p: "DecodeStatefulKvV1UnlockScript (scriptSig (vin tx ! 0)) = Some (key, val)"
    "scan_call_outputs lockHex 0 (vout tx) call_scan_init = Inr st" "matches st = 1" "length (vin tx) = 2"
    "DecodeScriptHexStrict lockHex = Some lock" "IsCanonicalStatefulKvV1Script lock"
    "callerInputIndex shape = 1" "call_continuationVout shape = the (matchIndex st)"
    "logicalKey shape = key" "call_value shape = val"
    using assms unfolding ValidateStatefulCallShape_def
    by (auto split: if_splits option.splits prod.splits sum.splits)
  have "matches call_scan_init = 0" by (simp add: call_scan_init_def)
  then obtain j where "only_at (same_lock lockHex) (vout tx) j" "matchIndex st = Some j"
    using scan_call_outputs_Inr [OF p(2)] p(3) by auto
  then show "call_continuationVout shape < length (vout tx)" using p(8) by (simp add: only_at_def)
  have "length lock = 2" "lock ! 0 = OP_STORE" "lock ! 1 = OP_1"
    using p(6) by (simp_all add: IsCanonicalStatefulKvV1Script_def)
  then have "lock = [OP_STORE, OP_1]" by (auto simp: numeral_2_eq_2 length_Suc_conv)
  then show "DecodeScriptHexStrict lockHex = Some [OP_STORE, OP_1]" using p(5) by simp
qed (use assms in \<open>auto simp: ValidateStatefulCallShape_def kv_decode_eq split: if_splits option.splits prod.splits sum.splits\<close>)

text \<open>The gas limit the context constructor settles on.\<close>

definition effective_limit :: "u64 \<Rightarrow> u64" where
  "effective_limit limit = (if limit = 0 then 1000000 else limit)"

lemma run_call_exact:
  assumes "ValidateStatefulCallShape C tx 0 lockHex locked = Inr shape" "IsCanonicalContractOutpoint (snap_root s)"
  shows "run_call C tx shape [OP_STORE, OP_1] s caller now height limit hasChain =
    (if CanApplyStateWrite (snap_state s) (logicalKey shape) (call_value shape) \<noteq> None \<and>
        anchor_gas (logicalKey shape) (call_value shape) \<le> unat (effective_limit limit)
     then Some (AList.update (logicalKey shape) (call_value shape) (snap_state s),
                word_of_nat (anchor_gas (logicalKey shape) (call_value shape)))
     else None)"
proof -
  let ?c = "stateful_call_context tx shape [OP_STORE, OP_1] s caller now height limit hasChain"
  note p = call_shape_parts [OF assms(1)]
  have c: "execStack ?c = [True]" "hasContractStateContext ?c" "state ?c = Some (snap_state s)"
    "gasUsed ?c = 0" "gasLimit ?c = effective_limit limit" "gasUsed ?c \<le> gasLimit ?c"
    using assms(2)
    by (simp_all add: stateful_call_context_def BuildScriptExecutionContext_def default_spec_def
        new_context_def hasContractStateContext_def effective_limit_def)
  have b: "BuildStatefulKvV1UnlockScript (logicalKey shape) (call_value shape) = Some (scriptSig (vin tx ! 0))"
    using p by (simp add: kv_build_eq)
  show ?thesis
    using anchor_run [OF c(1-3) b c(6), of C] c(4,5)
    by (simp add: run_call_def after_call_def split: if_splits)
qed

text \<open>
  C30: a key/value call does what it says and nothing else. For a validated call shape and a loaded
  domain the execution succeeds exactly when the call carries no value, the domain with the key
  overwritten is within the limits and the gas of one store fits; then the new state is the old one
  with that key overwritten and the gas is that of the store.
\<close>

theorem kv_call_exact:
  assumes "ValidateStatefulCallShape C tx 0 lockHex locked = Inr shape"
    and "IsCanonicalContractOutpoint (snap_root s)" "snap_current s \<noteq> []" "keys_distinct (snap_state s)"
    and "state_within_limits (snap_state s)" "callerAddress \<noteq> []" "limit \<noteq> 0"
  shows "ExecuteStatefulKvV1Call C tx shape [OP_STORE, OP_1] s callerAddress now height limit hasChain = Inr r \<longleftrightarrow>
    callValue shape = 0 \<and>
    state_within_limits (AList.update (logicalKey shape) (call_value shape) (snap_state s)) \<and>
    anchor_gas (logicalKey shape) (call_value shape) \<le> unat limit \<and>
    r = \<lparr>kv_state = AList.update (logicalKey shape) (call_value shape) (snap_state s),
         kv_gasUsed = word_of_nat (anchor_gas (logicalKey shape) (call_value shape))\<rparr>"
proof -
  let ?m = "AList.update (logicalKey shape) (call_value shape) (snap_state s)"
  let ?g = "anchor_gas (logicalKey shape) (call_value shape)"
  note p = call_shape_parts [OF assms(1)]
  have lock: "IsCanonicalStatefulKvV1Script [OP_STORE, OP_1]" by (simp add: IsCanonicalStatefulKvV1Script_def)
  have "snap_root s \<noteq> []" using canonical_colon_count [OF assms(2)] by auto
  moreover have "CanApplyStateWrite (snap_state s) (logicalKey shape) (call_value shape) \<noteq> None \<longleftrightarrow> state_within_limits ?m"
    using CanApplyStateWrite_eq [OF assms(4,5)] by simp
  moreover have "word_of_nat ?g \<le> limit" if "?g \<le> unat limit"
  proof -
    have "unat (word_of_nat ?g :: u64) = ?g"
      by (rule unat_word_of_nat_less) (use that unsigned_less [of limit, where 'a = nat] in simp)
    then show ?thesis using that by (simp add: word_le_nat_alt del: unat_of_nat)
  qed
  ultimately show ?thesis
    using p(1-3) lock assms(3,6,7) run_call_exact [OF assms(1,2), of callerAddress now height limit hasChain]
    by (auto simp: ExecuteStatefulKvV1Call_def effective_limit_def MeasureStateBytes_eq not_less)
qed

definition sample_snapshot :: "string \<Rightarrow> state_map \<Rightarrow> ConfirmedStateDomainSnapshot" where
  "sample_snapshot fam st = \<lparr>snap_current = sample_root, snap_root = sample_root, snap_ownerHash160 = sample_owner,
     snap_family = fam, snap_state = st, snap_accountedStateBytes = state_bytes st\<rparr>"

lemma sample_call_shape:
  "\<exists>r. ValidateStatefulCallShape toy_crypto sample_call 0 ''f751'' 9 = Inr r \<and> callValue r = 0 \<and>
     logicalKey r = ''k'' \<and> call_value r = [7]"
proof -
  have "case ValidateStatefulCallShape toy_crypto sample_call 0 ''f751'' 9 of
      Inl _ \<Rightarrow> False | Inr r \<Rightarrow> callValue r = 0 \<and> logicalKey r = ''k'' \<and> call_value r = [7]" by code_simp
  then show ?thesis by (auto split: sum.splits)
qed

theorem kv_call_exact_witness:
  "\<exists>shape r. ExecuteStatefulKvV1Call toy_crypto sample_call shape [OP_STORE, OP_1]
      (sample_snapshot [] [(''k'', [1])]) ''caller'' 0 1 100000 False = Inr r \<and> kv_state r = [(''k'', [7])]"
proof -
  obtain shape where sh: "ValidateStatefulCallShape toy_crypto sample_call 0 ''f751'' 9 = Inr shape" "callValue shape = 0"
    "logicalKey shape = ''k''" "call_value shape = [7]"
    using sample_call_shape by blast
  let ?s = "sample_snapshot [] [(''k'', [1])]"
  have s: "IsCanonicalContractOutpoint (snap_root ?s)" "snap_current ?s \<noteq> []" "keys_distinct (snap_state ?s)"
    by (simp_all add: sample_snapshot_def sample_domain) (simp add: sample_root_def)
  have l: "state_within_limits [(''k'', [1])]" "state_within_limits [(''k'', [7])]"
    by (simp_all add: state_within_limits_def entry_ok_def state_bytes_def entry_bytes_def state_eval)
  have g: "anchor_gas ''k'' [7] \<le> 100000" by (simp add: anchor_gas_def push_gas_def)
  have "(''caller'' :: string) \<noteq> []" "(100000 :: u64) \<noteq> 0" by simp_all
  from kv_call_exact [OF sh(1) s _ this, of 0 1 False] l g sh(2-4) show ?thesis
    by (intro exI [of _ shape]) (simp add: sample_snapshot_def)
qed

end
