(* ===== verification/Voting.thy ===== *)
theory Voting
  imports State_Runtime
begin

text \<open>
  The Voting V1 family of \<open>src/src/contract_state_runtime.h\<close>: reading and writing tallies, the check of
  a whole ballot state, and the execution of one vote. The specification is a poll: options, a closing
  time and who voted for what. Errors are the texts of the code; the one that quotes another reason
  is modelled with it. The lemmas here end in \<open>validate_iff\<close>: the check accepts exactly the states
  whose numbers are those of a poll.
\<close>

subsection \<open>The code\<close>

definition ReadVotingU64 :: "state_map \<Rightarrow> string \<Rightarrow> u64 option" where
  "ReadVotingU64 st key =
     (case map_of st key of None \<Rightarrow> None | Some v \<Rightarrow> if length v \<noteq> 8 then None else Some (le_val v))"

definition EncodeVotingU64 :: "u64 \<Rightarrow> bytes" where
  "EncodeVotingU64 v = le_bytes 8 v"

fun count_suffix :: "nat \<Rightarrow> string \<Rightarrow> nat option" where
  "count_suffix v [] = Some v"
| "count_suffix v (c # cs) =
     (if \<not> is_digit c then None
      else let v' = v * 10 + digit_value c in if v' > 9 then None else count_suffix v' cs)"

definition ParseCanonicalVotingCountKey :: "string \<Rightarrow> nat option" where
  "ParseCanonicalVotingCountKey key =
     (if length key \<le> 5 \<or> take 5 key \<noteq> ''count'' then None
      else let suffix = drop 5 key in
        if length suffix > 1 \<and> hd suffix = CHR ''0'' then None else count_suffix 0 suffix)"

text \<open>The loop over the options: the running sum and the counts read so far.\<close>

fun option_loop :: "state_map \<Rightarrow> nat list \<Rightarrow> u64 \<Rightarrow> u64 list \<Rightarrow> string + u64 \<times> u64 list" where
  "option_loop st [] summed counts = Inr (summed, counts)"
| "option_loop st (i # is) summed counts =
     (let countKey = ''count'' @ dec_string i in
      if (case map_of st (''option'' @ dec_string i) of None \<Rightarrow> True | Some t \<Rightarrow> t = [] \<or> length t > 50)
      then Inl ''Voting V1 confirmed option/count state is malformed''
      else case ReadVotingU64 st countKey of
        None \<Rightarrow> Inl ''Voting V1 confirmed option/count state is malformed''
      | Some cnt \<Rightarrow>
          if cnt > u64_max - summed then Inl ''Voting V1 option-count sum overflows uint64''
          else option_loop st is (summed + cnt) (counts @ [cnt]))"

definition voting_core_key :: "string \<Rightarrow> bool" where
  "voting_core_key key \<longleftrightarrow>
     key = ''proposal'' \<or> key = ''numoptions'' \<or> key = ''endtime'' \<or> key = ''totalvotes''"

definition voting_option_key :: "nat \<Rightarrow> string \<Rightarrow> bool" where
  "voting_option_key n key \<longleftrightarrow>
     list_ex (\<lambda>i. key = ''option'' @ dec_string i \<or> key = ''count'' @ dec_string i) [0..<n]"

text \<open>The loop over all entries: the voter markers seen and the markers of each choice.\<close>

fun marker_loop :: "nat \<Rightarrow> state_map \<Rightarrow> u64 \<Rightarrow> u64 list \<Rightarrow> string + u64 \<times> u64 list" where
  "marker_loop n [] voters marks = Inr (voters, marks)"
| "marker_loop n ((key, val) # rest) voters marks =
     (if voting_core_key key \<or> voting_option_key n key then marker_loop n rest voters marks
      else if take 6 key \<noteq> ''voted:'' \<or> length key \<noteq> 46 \<or> length val \<noteq> 1 \<or> unat (val ! 0) \<ge> n
      then Inl ''Voting V1 confirmed state contains an unknown/malformed key''
      else if \<not> list_all is_lower_hex (drop 6 key) then Inl ''Voting V1 voter marker is non-canonical''
      else
        let choice = unat (val ! 0) in
        if voters = u64_max \<or> marks ! choice = u64_max
        then Inl ''Voting V1 voter-marker tally overflows uint64''
        else marker_loop n rest (voters + 1) (marks[choice := marks ! choice + 1]))"

definition check_tally :: "state_map \<Rightarrow> nat \<Rightarrow> u64 \<Rightarrow> string + unit" where
  "check_tally st n declaredTotal =
     (case option_loop st [0..<n] 0 [] of
        Inl e \<Rightarrow> Inl e
      | Inr (summedCounts, optionCounts) \<Rightarrow>
          if summedCounts \<noteq> declaredTotal
          then Inl ''Voting V1 totalvotes does not equal the sum of option counts''
          else case marker_loop n st 0 (replicate 10 0) of
            Inl e \<Rightarrow> Inl e
          | Inr (voterMarkers, markerCounts) \<Rightarrow>
              if voterMarkers \<noteq> declaredTotal
              then Inl ''Voting V1 totalvotes does not equal the voter-marker count''
              else if \<not> list_all (\<lambda>i. markerCounts ! i = optionCounts ! i) [0..<n]
              then Inl ''Voting V1 voter markers do not match option counts''
              else Inr ())"

definition ValidateVotingV1State :: "state_map \<Rightarrow> string + nat \<times> u64" where
  "ValidateVotingV1State st =
     (case (map_of st ''proposal'', map_of st ''numoptions'', map_of st ''endtime'', map_of st ''totalvotes'') of
        (Some proposal, Some num, Some endBytes, Some totalBytes) \<Rightarrow>
          if proposal = [] \<or> length proposal > 200 \<or> length num \<noteq> 1 \<or> length endBytes \<noteq> 8 \<or>
             length totalBytes \<noteq> 8
          then Inl ''Voting V1 confirmed state is missing/malformed core fields''
          else let n = unat (num ! 0) in
            if n < 2 \<or> n > 10 then Inl ''Voting V1 confirmed numoptions is outside 2..10''
            else (case ReadVotingU64 st ''endtime'' of
                    None \<Rightarrow> Inl ''Voting V1 confirmed endtime is malformed''
                  | Some endTime \<Rightarrow>
                      if endTime = 0 then Inl ''Voting V1 confirmed endtime is malformed''
                      else case ReadVotingU64 st ''totalvotes'' of
                        None \<Rightarrow> Inl ''Voting V1 confirmed totalvotes is malformed''
                      | Some declaredTotal \<Rightarrow>
                          (case check_tally st n declaredTotal of
                             Inl e \<Rightarrow> Inl e | Inr _ \<Rightarrow> Inr (n, endTime)))
      | _ \<Rightarrow> Inl ''Voting V1 confirmed state is missing/malformed core fields'')"

record VotingCallExecutionResult =
  vote_state :: state_map
  vote_gasUsed :: u64
  vote_choice :: nat
  vote_voterKey :: string

text \<open>The checks before the machine runs: the choice, the number of options, closing time and counts.\<close>

definition vote_checks ::
    "StatefulCallShapeResult \<Rightarrow> ConfirmedStateDomainSnapshot \<Rightarrow> string \<Rightarrow> string \<Rightarrow> u32 \<Rightarrow>
       string + nat \<times> nat \<times> u64 \<times> u64 \<times> u64" where
  "vote_checks callShape snapshot callerHash160 callerAddress now =
     (if snap_family snapshot \<noteq> ''voting_v1'' then Inl ''confirmed state root is not Voting V1''
      else if \<not> IsCanonicalLowerHash160Hex callerHash160 \<or> callerAddress = []
      then Inl ''Voting V1 requires a canonical signed P2PKH voter''
      else if callValue callShape \<noteq> 0 then Inl ''Voting V1 is non-payable''
      else case ValidateVotingV1State (snap_state snapshot) of
        Inl e \<Rightarrow> Inl e
      | Inr (numOptions, endTime) \<Rightarrow>
          if ucast now > endTime then Inl ''Voting V1 ballot is closed at this block time''
          else case ParseCanonicalVotingCountKey (logicalKey callShape) of
            None \<Rightarrow> Inl ''Voting V1 calldata must target canonical countN''
          | Some choice \<Rightarrow>
              if choice \<ge> numOptions then Inl ''Voting V1 calldata must target canonical countN''
              else case (ReadVotingU64 (snap_state snapshot) (logicalKey callShape),
                         ReadVotingU64 (snap_state snapshot) ''totalvotes'') of
                (Some oldCount, Some oldTotal) \<Rightarrow>
                  if oldCount = u64_max \<or> oldTotal = u64_max
                  then Inl ''Voting V1 count arithmetic overflow/malformed state''
                  else if call_value callShape \<noteq> EncodeVotingU64 (oldCount + 1)
                  then Inl ''Voting V1 committed count must equal confirmed count + 1''
                  else if map_of (snap_state snapshot) (''voted:'' @ callerHash160) \<noteq> None
                  then Inl ''Voting V1 caller has already voted''
                  else Inr (choice, numOptions, endTime, oldCount, oldTotal)
              | _ \<Rightarrow> Inl ''Voting V1 count arithmetic overflow/malformed state'')"

text \<open>The deterministic updates after the machine: the total, the marker and their gas.\<close>

definition vote_commit ::
    "state_map \<Rightarrow> u64 \<Rightarrow> u64 \<Rightarrow> u64 \<Rightarrow> nat \<Rightarrow> string \<Rightarrow> string + state_map \<times> u64" where
  "vote_commit st used limit oldTotal choice voterKey =
     (let nextTotal = EncodeVotingU64 (oldTotal + 1); voterValue = [word_of_nat choice] in
      case (CanApplyStateWrite st ''totalvotes'' nextTotal, ComputeStoreGas 10 (length nextTotal)) of
        (Some _, Some extraGasA) \<Rightarrow>
          let st1 = AList.update ''totalvotes'' nextTotal st in
          (case (CanApplyStateWrite st1 voterKey voterValue, ComputeStoreGas (length voterKey) (length voterValue)) of
             (Some _, Some extraGasB) \<Rightarrow>
               if used > limit \<or> extraGasA > limit - used \<or> extraGasB > limit - used - extraGasA
               then Inl ''Voting V1 deterministic state updates exceed gas limit''
               else Inr (AList.update voterKey voterValue st1, used + extraGasA + extraGasB)
           | _ \<Rightarrow> Inl ''Voting V1 voter marker exceeds state/gas limits'')
      | _ \<Rightarrow> Inl ''Voting V1 totalvotes update exceeds state/gas limits'')"

definition ExecuteVotingV1Call ::
    "crypto \<Rightarrow> 'j Transaction \<Rightarrow> StatefulCallShapeResult \<Rightarrow> bytes \<Rightarrow> ConfirmedStateDomainSnapshot \<Rightarrow> string \<Rightarrow>
       string \<Rightarrow> u32 \<Rightarrow> u32 \<Rightarrow> u64 \<Rightarrow> bool \<Rightarrow> string + VotingCallExecutionResult" where
  "ExecuteVotingV1Call C tx callShape lockingScript snapshot callerHash160 callerAddress now height limit hasChain =
     (case vote_checks callShape snapshot callerHash160 callerAddress now of
        Inl e \<Rightarrow> Inl e
      | Inr (choice, numOptions, endTime, oldCount, oldTotal) \<Rightarrow>
          (case run_call C tx callShape lockingScript snapshot callerAddress now height limit hasChain of
             None \<Rightarrow> Inl ''Voting V1 VM execution returned false''
           | Some (st, used) \<Rightarrow>
               if map_of st (logicalKey callShape) \<noteq> Some (EncodeVotingU64 (oldCount + 1))
               then Inl ''Voting V1 VM did not commit the expected count increment''
               else case vote_commit st used limit oldTotal choice (''voted:'' @ callerHash160) of
                 Inl e \<Rightarrow> Inl e
               | Inr (st', gasTotal) \<Rightarrow>
                   (case ValidateVotingV1State st' of
                      Inl e \<Rightarrow> Inl (''Voting V1 post-call tally invariant failed: '' @ e)
                    | Inr (postNumOptions, postEndTime) \<Rightarrow>
                        if postNumOptions \<noteq> numOptions \<or> postEndTime \<noteq> endTime
                        then Inl ''Voting V1 post-call tally invariant failed: ''
                        else if MeasureStateBytes st' = None
                        then Inl ''Voting V1 post-call state exceeds consensus resource limits''
                        else Inr \<lparr>vote_state = st', vote_gasUsed = gasTotal, vote_choice = choice,
                                  vote_voterKey = ''voted:'' @ callerHash160\<rparr>)))"

subsection \<open>The poll it stands for\<close>

record poll =
  poll_options :: nat
  poll_closes :: u64
  poll_votes :: "string \<rightharpoonup> nat"

definition tally :: "poll \<Rightarrow> nat \<Rightarrow> nat" where
  "tally p i = card {h. poll_votes p h = Some i}"

definition turnout :: "poll \<Rightarrow> nat" where
  "turnout p = card (dom (poll_votes p))"

text \<open>One person, one vote, before the poll closes.\<close>

definition cast :: "poll \<Rightarrow> u32 \<Rightarrow> string \<Rightarrow> nat \<Rightarrow> poll option" where
  "cast p now voter choice =
     (if ucast now \<le> poll_closes p \<and> choice < poll_options p \<and> poll_votes p voter = None
      then Some (p\<lparr>poll_votes := (poll_votes p)(voter \<mapsto> choice)\<rparr>) else None)"

definition votes_of :: "state_map \<Rightarrow> string \<rightharpoonup> nat" where
  "votes_of st h =
     (if IsCanonicalLowerHash160Hex h then map_option (\<lambda>v. unat (hd v)) (map_of st (''voted:'' @ h)) else None)"

definition poll_of :: "state_map \<Rightarrow> poll" where
  "poll_of st =
     \<lparr>poll_options = (case map_of st ''numoptions'' of Some (b # _) \<Rightarrow> unat b | _ \<Rightarrow> 0),
      poll_closes = (case ReadVotingU64 st ''endtime'' of Some t \<Rightarrow> t | None \<Rightarrow> 0),
      poll_votes = votes_of st\<rparr>"

definition marker_ok :: "nat \<Rightarrow> string \<times> bytes \<Rightarrow> bool" where
  "marker_ok n e \<longleftrightarrow>
     (\<exists>h c. fst e = ''voted:'' @ h \<and> IsCanonicalLowerHash160Hex h \<and> c < n \<and> snd e = [word_of_nat c])"

text \<open>A state is a ballot when its texts are in order and its numbers are those of its poll.\<close>

definition ballot_ok :: "state_map \<Rightarrow> bool" where
  "ballot_ok st \<longleftrightarrow>
     (let p = poll_of st; n = poll_options p in
        2 \<le> n \<and> n \<le> 10 \<and> poll_closes p \<noteq> 0 \<and>
        (\<exists>t. map_of st ''proposal'' = Some t \<and> t \<noteq> [] \<and> length t \<le> 200) \<and>
        map_of st ''numoptions'' = Some [word_of_nat n] \<and>
        map_of st ''endtime'' = Some (EncodeVotingU64 (poll_closes p)) \<and>
        map_of st ''totalvotes'' = Some (EncodeVotingU64 (word_of_nat (turnout p))) \<and>
        (\<forall>i<n. (\<exists>t. map_of st (''option'' @ dec_string i) = Some t \<and> t \<noteq> [] \<and> length t \<le> 50) \<and>
               map_of st (''count'' @ dec_string i) = Some (EncodeVotingU64 (word_of_nat (tally p i)))) \<and>
        (\<forall>e\<in>set st. voting_core_key (fst e) \<or> voting_option_key n (fst e) \<or> marker_ok n e))"

subsection \<open>Numbers and keys\<close>

lemma encode_length [simp]: "length (EncodeVotingU64 v) = 8"
  by (simp add: EncodeVotingU64_def)

lemma read_u64_iff: "ReadVotingU64 st k = Some v \<longleftrightarrow> map_of st k = Some (EncodeVotingU64 v)"
proof -
  have "le_val b = v \<longleftrightarrow> b = le_bytes 8 v" if "length b = 8" for b
  proof
    assume "le_val b = v"
    then show "b = le_bytes 8 v" using le_bytes_le_val [of 8 b, where 'a = 64] that by simp
  qed (simp add: le_val_le_bytes)
  then show ?thesis by (auto simp: ReadVotingU64_def EncodeVotingU64_def split: option.splits)
qed

lemma encode_inject [simp]: "EncodeVotingU64 a = EncodeVotingU64 b \<longleftrightarrow> a = b"
  using le_bytes_inject [of 8 a b] by (auto simp: EncodeVotingU64_def)

lemma option_key_iff:
  "voting_option_key n k \<longleftrightarrow> (\<exists>i<n. k = ''option'' @ dec_string i \<or> k = ''count'' @ dec_string i)"
  by (auto simp: voting_option_key_def list_ex_iff)

lemma voted_key: "\<not> voting_core_key (''voted:'' @ h) \<and> \<not> voting_option_key n (''voted:'' @ h)"
  by (auto simp: voting_core_key_def option_key_iff)

lemma count_key [simp]: "voting_core_key (''count'' @ s) = False" "voting_core_key (''option'' @ s) = False"
  by (auto simp: voting_core_key_def)

definition markers :: "nat \<Rightarrow> state_map \<Rightarrow> state_map" where
  "markers n st = filter (\<lambda>e. \<not> voting_core_key (fst e) \<and> \<not> voting_option_key n (fst e)) st"

lemma marker_ok_iff:
  assumes "n \<le> 10"
  shows "marker_ok n (k, v) \<longleftrightarrow>
    take 6 k = ''voted:'' \<and> length k = 46 \<and> length v = 1 \<and> unat (v ! 0) < n \<and> list_all is_lower_hex (drop 6 k)"
proof
  assume "marker_ok n (k, v)"
  then obtain h c where x: "k = ''voted:'' @ h" "IsCanonicalLowerHash160Hex h" "c < n" "v = [word_of_nat c]"
    by (auto simp: marker_ok_def)
  moreover have "unat (word_of_nat c :: byte) = c" by (rule unat_word_of_nat_less) (use x(3) assms in simp)
  ultimately show "take 6 k = ''voted:'' \<and> length k = 46 \<and> length v = 1 \<and> unat (v ! 0) < n \<and> list_all is_lower_hex (drop 6 k)"
    by (simp add: IsCanonicalLowerHash160Hex_def del: unat_of_nat)
next
  assume a: "take 6 k = ''voted:'' \<and> length k = 46 \<and> length v = 1 \<and> unat (v ! 0) < n \<and> list_all is_lower_hex (drop 6 k)"
  have "k = ''voted:'' @ drop 6 k" using a append_take_drop_id [of 6 k] by metis
  moreover have "v = [word_of_nat (unat (v ! 0))]" using a by (cases v) auto
  moreover have "IsCanonicalLowerHash160Hex (drop 6 k)" using a by (simp add: IsCanonicalLowerHash160Hex_def)
  ultimately show "marker_ok n (k, v)" using a unfolding marker_ok_def by (metis fst_conv snd_conv)
qed

text \<open>The markers as a list of voters and choices.\<close>

definition vote_list :: "nat \<Rightarrow> state_map \<Rightarrow> (string \<times> nat) list" where
  "vote_list n st = map (\<lambda>e. (drop 6 (fst e), unat (hd (snd e)))) (markers n st)"

lemma vote_list_of:
  assumes "keys_distinct st" "\<forall>e\<in>set (markers n st). marker_ok n e" "n \<le> 10"
  shows "keys_distinct (vote_list n st)" "map_of (vote_list n st) = votes_of st"
    "\<forall>e\<in>set (vote_list n st). snd e < n"
proof -
  have d: "keys_distinct (markers n st)" using assms(1) unfolding markers_def by (rule distinct_map_filter)
  have k: "fst e = ''voted:'' @ drop 6 (fst e)" if "e \<in> set (markers n st)" for e
    using assms(2) that by (auto simp: marker_ok_def)
  have "map fst (vote_list n st) = map (drop 6) (map fst (markers n st))" by (simp add: vote_list_def)
  moreover have "inj_on (drop 6) (set (map fst (markers n st)))"
  proof (rule inj_onI)
    fix x y assume "x \<in> set (map fst (markers n st))" "y \<in> set (map fst (markers n st))" "drop 6 x = drop 6 y"
    moreover have "x = ''voted:'' @ drop 6 x" if "x \<in> set (map fst (markers n st))" for x using k that by auto
    ultimately show "x = y" by metis
  qed
  ultimately show dv: "keys_distinct (vote_list n st)" using d by (simp only: distinct_map [of _ "map fst _"] simp_thms)
  show "map_of (vote_list n st) = votes_of st"
  proof
    fix h
    have mk: "map_of (vote_list n st) h = Some c \<longleftrightarrow> (\<exists>v. (''voted:'' @ h, v) \<in> set (markers n st) \<and> c = unat (hd v))" for c
    proof -
      have "map_of (vote_list n st) h = Some c \<longleftrightarrow> (h, c) \<in> set (vote_list n st)" using dv by simp
      also have "\<dots> \<longleftrightarrow> (\<exists>v. (''voted:'' @ h, v) \<in> set (markers n st) \<and> c = unat (hd v))"
        using k by (force simp: vote_list_def)
      finally show ?thesis .
    qed
    have ms: "(''voted:'' @ h, v) \<in> set (markers n st) \<longleftrightarrow> map_of st (''voted:'' @ h) = Some v" for v
      using assms(1) voted_key [of h n] by (simp add: markers_def)
    have can: "IsCanonicalLowerHash160Hex h" if "map_of st (''voted:'' @ h) = Some v" for v
    proof -
      have "marker_ok n (''voted:'' @ h, v)" using that ms assms(2) by blast
      then show ?thesis by (auto simp: marker_ok_def)
    qed
    show "map_of (vote_list n st) h = votes_of st h"
    proof (cases "votes_of st h")
      case None
      then have "map_of st (''voted:'' @ h) = None"
        using can by (cases "map_of st (''voted:'' @ h)") (auto simp: votes_of_def)
      then have "map_of (vote_list n st) h \<noteq> Some c" for c using mk ms by simp
      then show ?thesis using None by auto
    next
      case (Some c)
      then show ?thesis using mk ms by (auto simp: votes_of_def split: if_splits)
    qed
  qed
  show "\<forall>e\<in>set (vote_list n st). snd e < n"
  proof
    fix e assume "e \<in> set (vote_list n st)"
    then obtain k v where "(k, v) \<in> set (markers n st)" "e = (drop 6 k, unat (hd v))" by (auto simp: vote_list_def)
    then have "marker_ok n (k, v)" using assms(2) by blast
    then have "length v = 1" "unat (v ! 0) < n" using marker_ok_iff [OF assms(3)] by auto
    then show "snd e < n" using \<open>e = _\<close> by (cases v) auto
  qed
qed

subsection \<open>The loops of the check\<close>

definition option_ok :: "state_map \<Rightarrow> nat \<Rightarrow> bool" where
  "option_ok st i \<longleftrightarrow>
     (\<exists>t. map_of st (''option'' @ dec_string i) = Some t \<and> t \<noteq> [] \<and> length t \<le> 50) \<and>
     ReadVotingU64 st (''count'' @ dec_string i) \<noteq> None"

definition count_of :: "state_map \<Rightarrow> nat \<Rightarrow> u64" where
  "count_of st i = the (ReadVotingU64 st (''count'' @ dec_string i))"

lemma option_ok_count:
  "option_ok st i \<Longrightarrow> map_of st (''count'' @ dec_string i) = Some (EncodeVotingU64 (count_of st i))"
  by (auto simp: option_ok_def count_of_def simp flip: read_u64_iff)

lemma option_loop_Inr:
  "option_loop st is s cs = Inr (s', cs') \<longleftrightarrow>
     (\<forall>i\<in>set is. option_ok st i) \<and> cs' = cs @ map (count_of st) is \<and>
     unat s' = unat s + (\<Sum>i\<leftarrow>is. unat (count_of st i))"
proof (induction "is" arbitrary: s cs)
  case Nil
  show ?case by (auto simp: word_unat_eq_iff)
next
  case (Cons i "is")
  show ?case
  proof (cases "option_ok st i")
    case False
    then show ?thesis by (auto simp: option_ok_def Let_def split: option.splits)
  next
    case True
    then have step: "option_loop st (i # is) s cs =
        (if count_of st i > u64_max - s then Inl ''Voting V1 option-count sum overflows uint64''
         else option_loop st is (s + count_of st i) (cs @ [count_of st i]))"
      by (auto simp: option_ok_def count_of_def Let_def split: option.splits)
    show ?thesis
    proof (cases "count_of st i \<le> u64_max - s")
      case True
      then have "unat (s + count_of st i) = unat s + unat (count_of st i)"
        using unat_checked_add [of "count_of st i" s] by (simp add: add.commute)
      then show ?thesis using step True \<open>option_ok st i\<close> Cons.IH [of "s + count_of st i" "cs @ [count_of st i]"]
        by (auto simp: not_less)
    next
      case False
      then have "2 ^ 64 \<le> unat s + unat (count_of st i)"
        using checked_add_iff [of "count_of st i" s] by simp
      then have "unat s' < unat s + (\<Sum>j\<leftarrow>i # is. unat (count_of st j))"
        using unsigned_less [of s', where 'a = nat] by simp
      then show ?thesis using step False by (auto simp: not_le)
    qed
  qed
qed

definition votes_for :: "nat \<Rightarrow> state_map \<Rightarrow> nat \<Rightarrow> nat" where
  "votes_for n st i = length (filter (\<lambda>e. snd e = i) (vote_list n st))"

lemma markers_Cons:
  "markers n (e # st) = (if voting_core_key (fst e) \<or> voting_option_key n (fst e) then markers n st else e # markers n st)"
  by (simp add: markers_def)

lemma marker_loop_spec:
  assumes "n \<le> 10" "length marks = 10" "unat voters + length es < 2 ^ 64 - 1"
    "\<forall>i<10. unat (marks ! i) + length es < 2 ^ 64 - 1"
  shows "case marker_loop n es voters marks of
      Inl _ \<Rightarrow> \<not> (\<forall>e\<in>set (markers n es). marker_ok n e)
    | Inr (voters', marks') \<Rightarrow> (\<forall>e\<in>set (markers n es). marker_ok n e) \<and>
        unat voters' = unat voters + length (vote_list n es) \<and> length marks' = 10 \<and>
        (\<forall>i<10. unat (marks' ! i) = unat (marks ! i) + votes_for n es i)"
  using assms
proof (induction es arbitrary: voters marks)
  case Nil
  then show ?case by (simp add: markers_def vote_list_def votes_for_def)
next
  case (Cons e es)
  obtain k v where e: "e = (k, v)" by (cases e)
  consider (skip) "voting_core_key k \<or> voting_option_key n k"
    | (bad) "\<not> (voting_core_key k \<or> voting_option_key n k)" "\<not> marker_ok n (k, v)"
    | (vote) "\<not> (voting_core_key k \<or> voting_option_key n k)" "marker_ok n (k, v)" by blast
  then show ?case
  proof cases
    case skip
    then have eqs: "marker_loop n (e # es) voters marks = marker_loop n es voters marks"
      "markers n (e # es) = markers n es" by (auto simp: e markers_Cons)
    have vs: "vote_list n (e # es) = vote_list n es" "votes_for n (e # es) = votes_for n es"
      by (auto simp: vote_list_def votes_for_def eqs(2))
    have "\<forall>i<10. unat (marks ! i) + length es < 2 ^ 64 - 1" using Cons.prems(4) by auto
    then show ?thesis unfolding eqs vs using Cons.prems by (intro Cons.IH) simp_all
  next
    case bad
    then have "\<exists>m. marker_loop n (e # es) voters marks = Inl m"
      using marker_ok_iff [OF Cons.prems(1), of k v] by (auto simp: e not_le)
    then show ?thesis using bad by (auto simp: e markers_Cons)
  next
    case vote
    let ?c = "unat (v ! 0)"
    note ok = vote(2) [unfolded marker_ok_iff [OF Cons.prems(1)]]
    have c: "?c < 10" using ok Cons.prems(1) by simp
    have max: "w \<noteq> u64_max \<and> unat (w + 1) = unat w + 1" if "unat w + length (e # es) < 2 ^ 64 - 1" for w :: u64
    proof -
      have "unat u64_max = 2 ^ 64 - 1" using unat_all_ones [where 'a = 64] by simp
      then have "w \<noteq> u64_max" using that by auto
      moreover have "unat w + 1 < 2 ^ 64" using that by simp
      ultimately show ?thesis by (simp add: unat_word_ariths(1))
    qed
    have v1: "voters \<noteq> u64_max" "unat (voters + 1) = unat voters + 1" using max [of voters] Cons.prems(3) by simp_all
    have m1: "marks ! ?c \<noteq> u64_max" "unat (marks ! ?c + 1) = unat (marks ! ?c) + 1"
      using max [of "marks ! ?c"] Cons.prems(4) c by simp_all
    let ?m = "marks[?c := marks ! ?c + 1]"
    have loop: "marker_loop n (e # es) voters marks = marker_loop n es (voters + 1) ?m"
      using vote ok v1(1) m1(1) by (simp add: e Let_def not_le)
    have mk: "markers n (e # es) = e # markers n es" using vote by (simp add: e markers_Cons)
    have hd: "unat (hd v) = ?c" using ok by (cases v) auto
    have vl: "vote_list n (e # es) = (drop 6 k, ?c) # vote_list n es" using mk hd by (simp add: vote_list_def e)
    have "\<forall>i<10. unat (?m ! i) + length es < 2 ^ 64 - 1"
    proof (intro allI impI)
      fix i :: nat assume i: "i < 10"
      have "unat (marks ! i) + length (e # es) < 2 ^ 64 - 1" using Cons.prems(4) i by blast
      then show "unat (?m ! i) + length es < 2 ^ 64 - 1"
        using Cons.prems(2) m1(2) i by (cases "i = ?c") simp_all
    qed
    then have IH: "case marker_loop n es (voters + 1) ?m of
        Inl _ \<Rightarrow> \<not> (\<forall>e\<in>set (markers n es). marker_ok n e)
      | Inr (voters', marks') \<Rightarrow> (\<forall>e\<in>set (markers n es). marker_ok n e) \<and>
          unat voters' = unat (voters + 1) + length (vote_list n es) \<and> length marks' = 10 \<and>
          (\<forall>i<10. unat (marks' ! i) = unat (?m ! i) + votes_for n es i)"
      using Cons.prems v1(2) by (intro Cons.IH) simp_all
    have vf: "unat (?m ! i) + votes_for n es i = unat (marks ! i) + votes_for n (e # es) i" if "i < 10" for i
      using that c Cons.prems(2) m1(2) by (auto simp: votes_for_def vl nth_list_update)
    have ve: "marker_ok n e" using vote(2) by (simp add: e)
    show ?thesis
      unfolding loop mk vl using IH ve v1(2) vf by (auto split: sum.splits)
  qed
qed

subsection \<open>The check is exact\<close>

lemma card_map_of:
  assumes "keys_distinct vs"
  shows "card (dom (map_of vs)) = length vs" "card {h. map_of vs h = Some i} = length (filter (\<lambda>e. snd e = i) vs)"
proof -
  show "card (dom (map_of vs)) = length vs"
    using assms distinct_card [of "map fst vs"] by (simp add: dom_map_of_conv_image_fst)
  have "{h. map_of vs h = Some i} = set (map fst (filter (\<lambda>e. snd e = i) vs))"
    using assms by (force simp: image_iff)
  moreover have "distinct (map fst (filter (\<lambda>e. snd e = i) vs))" using assms by (rule distinct_map_filter)
  ultimately show "card {h. map_of vs h = Some i} = length (filter (\<lambda>e. snd e = i) vs)"
    by (simp only: distinct_card length_map)
qed

lemma sum_filter_length:
  "\<forall>e\<in>set vs. snd e < (n :: nat) \<Longrightarrow> (\<Sum>i<n. length (filter (\<lambda>e. snd e = i) vs)) = length vs"
proof (induction vs)
  case (Cons e vs)
  have "length (filter (\<lambda>e. snd e = i) (e # vs)) = (if i = snd e then 1 else 0) + length (filter (\<lambda>e. snd e = i) vs)" for i
    by simp
  moreover have "(\<Sum>i<n. if i = snd e then 1 else 0 :: nat) = 1" using Cons.prems by (subst sum.delta) auto
  ultimately show ?case using Cons by (simp add: sum.distrib del: filter.simps sum.delta)
qed simp

lemma poll_numbers:
  assumes "keys_distinct st" "\<forall>e\<in>set (markers n st). marker_ok n e" "n \<le> 10"
  shows "turnout (poll_of st) = length (vote_list n st)" "tally (poll_of st) i = votes_for n st i"
    "(\<Sum>i<n. votes_for n st i) = length (vote_list n st)" "length (vote_list n st) \<le> length st"
  using card_map_of [OF vote_list_of(1) [OF assms]] vote_list_of [OF assms] sum_filter_length [of "vote_list n st" n]
  by (simp_all add: turnout_def tally_def poll_of_def votes_for_def) (simp add: vote_list_def markers_def)

text \<open>The parts of a state that the check looks at.\<close>

definition ballot_head :: "state_map \<Rightarrow> nat \<Rightarrow> u64 \<Rightarrow> bool" where
  "ballot_head st n t \<longleftrightarrow> 2 \<le> n \<and> n \<le> 10 \<and> t \<noteq> 0 \<and>
     (\<exists>x. map_of st ''proposal'' = Some x \<and> x \<noteq> [] \<and> length x \<le> 200) \<and>
     map_of st ''numoptions'' = Some [word_of_nat n] \<and> map_of st ''endtime'' = Some (EncodeVotingU64 t)"

lemma unat_option_count: "n \<le> 10 \<Longrightarrow> unat (word_of_nat n :: byte) = n"
  by (rule unat_word_of_nat_less) simp

lemma ballot_head_poll:
  assumes "ballot_head st n t"
  shows "poll_options (poll_of st) = n" "poll_closes (poll_of st) = t"
proof -
  have "ReadVotingU64 st ''endtime'' = Some t" using assms by (simp only: ballot_head_def read_u64_iff)
  then show "poll_options (poll_of st) = n" "poll_closes (poll_of st) = t"
    using assms unat_option_count [of n] by (simp_all add: ballot_head_def poll_of_def del: unat_of_nat)
qed

lemma validate_head:
  "ValidateVotingV1State st = Inr (n, t) \<longleftrightarrow>
     ballot_head st n t \<and> (\<exists>d. map_of st ''totalvotes'' = Some (EncodeVotingU64 d) \<and> check_tally st n d = Inr ())"
proof
  assume "ValidateVotingV1State st = Inr (n, t)"
  then obtain x b y z d where v: "map_of st ''proposal'' = Some x" "x \<noteq> []" "length x \<le> 200"
    "map_of st ''numoptions'' = Some b" "length b = 1" "n = unat (b ! 0)" "2 \<le> n" "n \<le> 10"
    "ReadVotingU64 st ''endtime'' = Some t" "t \<noteq> 0" "ReadVotingU64 st ''totalvotes'' = Some d"
    "check_tally st n d = Inr ()"
    by (auto simp: ValidateVotingV1State_def Let_def not_less split: option.splits if_splits sum.splits)
  have b: "b = [word_of_nat n]" using v(5,6) by (cases b) auto
  have e: "map_of st ''endtime'' = Some (EncodeVotingU64 t)" "map_of st ''totalvotes'' = Some (EncodeVotingU64 d)"
    using v(9,11) by (simp_all only: read_u64_iff)
  show "ballot_head st n t \<and> (\<exists>d. map_of st ''totalvotes'' = Some (EncodeVotingU64 d) \<and> check_tally st n d = Inr ())"
    using v(1-4,7,8,10,12) e unfolding ballot_head_def b by blast
next
  assume a: "ballot_head st n t \<and> (\<exists>d. map_of st ''totalvotes'' = Some (EncodeVotingU64 d) \<and> check_tally st n d = Inr ())"
  then obtain x d where v: "map_of st ''proposal'' = Some x" "x \<noteq> []" "length x \<le> 200"
    "map_of st ''numoptions'' = Some [word_of_nat n]" "map_of st ''endtime'' = Some (EncodeVotingU64 t)"
    "map_of st ''totalvotes'' = Some (EncodeVotingU64 d)" "check_tally st n d = Inr ()" "2 \<le> n" "n \<le> 10" "t \<noteq> 0"
    by (auto simp: ballot_head_def)
  then show "ValidateVotingV1State st = Inr (n, t)"
    using read_u64_iff [of st "''endtime''" t] read_u64_iff [of st "''totalvotes''" d] unat_option_count [of n]
    by (simp add: ValidateVotingV1State_def Let_def not_less del: unat_of_nat)
qed

lemma of_nat_unat_id: "word_of_nat (unat w) = (w :: u64)"
  by simp

lemma markers_all:
  "(\<forall>e\<in>set (markers n st). marker_ok n e) \<longleftrightarrow>
     (\<forall>e\<in>set st. voting_core_key (fst e) \<or> voting_option_key n (fst e) \<or> marker_ok n e)"
  unfolding markers_def by (simp add: Ball_def) blast

lemma check_tally_iff:
  assumes "keys_distinct st" "length st \<le> MAX_KEYS_PER_DOMAIN" "n \<le> 10"
  shows "check_tally st n d = Inr () \<longleftrightarrow>
    (\<forall>i<n. (\<exists>t. map_of st (''option'' @ dec_string i) = Some t \<and> t \<noteq> [] \<and> length t \<le> 50) \<and>
           map_of st (''count'' @ dec_string i) = Some (EncodeVotingU64 (word_of_nat (tally (poll_of st) i)))) \<and>
    (\<forall>e\<in>set (markers n st). marker_ok n e) \<and> d = word_of_nat (turnout (poll_of st))"
    (is "_ \<longleftrightarrow> ?R")
proof -
  have len: "length st < 2 ^ 64 - 1" using assms(2) by (simp add: MAX_KEYS_PER_DOMAIN_def)
  have spec: "case marker_loop n st 0 (replicate 10 0) of
      Inl _ \<Rightarrow> \<not> (\<forall>e\<in>set (markers n st). marker_ok n e)
    | Inr (v, m) \<Rightarrow> (\<forall>e\<in>set (markers n st). marker_ok n e) \<and> unat v = unat (0 :: u64) + length (vote_list n st) \<and>
        length m = 10 \<and> (\<forall>i<10. unat (m ! i) = unat (replicate 10 (0 :: u64) ! i) + votes_for n st i)"
    by (rule marker_loop_spec [OF assms(3)]) (use len in simp_all)
  have bound: "tally (poll_of st) i < 2 ^ 64" "turnout (poll_of st) < 2 ^ 64"
    if "\<forall>e\<in>set (markers n st). marker_ok n e" for i
  proof -
    note pn = poll_numbers [OF assms(1) that assms(3)]
    show "turnout (poll_of st) < 2 ^ 64" using pn(1,4) len by simp
    have "votes_for n st i \<le> length (vote_list n st)" by (simp add: votes_for_def)
    then show "tally (poll_of st) i < 2 ^ 64" using pn(2,4) len by simp
  qed
  show ?thesis
  proof
    assume "check_tally st n d = Inr ()"
    then obtain s cs v m where o: "option_loop st [0..<n] 0 [] = Inr (s, cs)" "s = d"
      and m: "marker_loop n st 0 (replicate 10 0) = Inr (v, m)" "v = d" "\<forall>i<n. m ! i = cs ! i"
      by (auto simp: check_tally_def list_all_iff split: sum.splits if_splits)
    have ok: "\<forall>e\<in>set (markers n st). marker_ok n e" "unat v = length (vote_list n st)"
      "\<forall>i<10. unat (m ! i) = votes_for n st i" using spec m(1) by auto
    note pn = poll_numbers [OF assms(1) ok(1) assms(3)]
    have "\<forall>i<n. option_ok st i \<and> cs ! i = count_of st i" using o(1) by (auto simp: option_loop_Inr)
    moreover have "count_of st i = word_of_nat (tally (poll_of st) i)" if "i < n" for i
    proof -
      have "unat (m ! i) = votes_for n st i" using ok(3) that assms(3) by simp
      moreover have "m ! i = count_of st i" using \<open>\<forall>i<n. option_ok st i \<and> cs ! i = count_of st i\<close> m(3) that by simp
      ultimately have "unat (count_of st i) = tally (poll_of st) i" using pn(2) [of i] by simp
      then show ?thesis by (metis of_nat_unat_id)
    qed
    moreover have "d = word_of_nat (turnout (poll_of st))"
      using ok(2) m(2) pn(1) by (metis of_nat_unat_id)
    moreover have "map_of st (''count'' @ dec_string i) = Some (EncodeVotingU64 (count_of st i))" if "i < n" for i
      using calculation(1) that option_ok_count by blast
    ultimately show ?R using ok(1) by (simp add: option_ok_def)
  next
    assume r: ?R
    then have ok: "\<forall>e\<in>set (markers n st). marker_ok n e" by blast
    note pn = poll_numbers [OF assms(1) ok assms(3)]
    have opt: "option_ok st i" "count_of st i = word_of_nat (tally (poll_of st) i)" if "i < n" for i
    proof -
      have "ReadVotingU64 st (''count'' @ dec_string i) = Some (word_of_nat (tally (poll_of st) i))"
        using r that by (simp only: read_u64_iff)
      then show "option_ok st i" "count_of st i = word_of_nat (tally (poll_of st) i)"
        using r that by (auto simp: option_ok_def count_of_def)
    qed
    have u: "unat (count_of st i) = tally (poll_of st) i" if "i < n" for i
      unfolding opt(2) [OF that] by (rule unat_word_of_nat_less) (use bound(1) [OF ok, of i] in simp)
    have ud: "unat d = turnout (poll_of st)"
    proof -
      have "unat (word_of_nat (turnout (poll_of st)) :: u64) = turnout (poll_of st)"
        by (rule unat_word_of_nat_less) (use bound(2) [OF ok] in simp)
      then show ?thesis using r by (simp del: unat_of_nat)
    qed
    have sum: "(\<Sum>i\<leftarrow>[0..<n]. unat (count_of st i)) = turnout (poll_of st)"
    proof -
      have "(\<Sum>i\<leftarrow>[0..<n]. unat (count_of st i)) = (\<Sum>i<n. unat (count_of st i))"
        by (simp add: interv_sum_list_conv_sum_set_nat atLeast0LessThan)
      also have "\<dots> = (\<Sum>i<n. votes_for n st i)" using u pn(2) by (intro sum.cong) auto
      finally show ?thesis using pn(1,3) by simp
    qed
    have "option_loop st [0..<n] 0 [] = Inr (d, map (count_of st) [0..<n])"
      using opt(1) sum ud by (simp add: option_loop_Inr)
    moreover obtain v m where m: "marker_loop n st 0 (replicate 10 0) = Inr (v, m)" "unat v = length (vote_list n st)"
      "\<forall>i<10. unat (m ! i) = votes_for n st i"
      using spec ok by (auto split: sum.splits)
    moreover have "v = d" using m(2) ud pn(1) by (simp add: word_unat_eq_iff)
    moreover have "m ! i = count_of st i" if "i < n" for i
      using m(3) u [OF that] pn(2) [of i] that assms(3) by (simp add: word_unat_eq_iff)
    ultimately show "check_tally st n d = Inr ()" by (simp add: check_tally_def list_all_iff)
  qed
qed

lemma validate_iff:
  assumes "keys_distinct st" "length st \<le> MAX_KEYS_PER_DOMAIN"
  shows "ValidateVotingV1State st = Inr (n, t) \<longleftrightarrow>
    ballot_ok st \<and> n = poll_options (poll_of st) \<and> t = poll_closes (poll_of st)"
proof
  assume "ValidateVotingV1State st = Inr (n, t)"
  then obtain d where h: "ballot_head st n t" "map_of st ''totalvotes'' = Some (EncodeVotingU64 d)" "check_tally st n d = Inr ()"
    by (auto simp: validate_head)
  note p = ballot_head_poll [OF h(1)]
  have "n \<le> 10" using h(1) by (simp add: ballot_head_def)
  then have "ballot_ok st"
    using h check_tally_iff [OF assms, of n d] p
    by (auto simp: ballot_ok_def Let_def ballot_head_def markers_all)
  then show "ballot_ok st \<and> n = poll_options (poll_of st) \<and> t = poll_closes (poll_of st)" using p by simp
next
  assume a: "ballot_ok st \<and> n = poll_options (poll_of st) \<and> t = poll_closes (poll_of st)"
  then have "ballot_head st n t" "n \<le> 10" by (auto simp: ballot_ok_def Let_def ballot_head_def)
  moreover have "map_of st ''totalvotes'' = Some (EncodeVotingU64 (word_of_nat (turnout (poll_of st))))"
    "check_tally st n (word_of_nat (turnout (poll_of st))) = Inr ()"
    using a check_tally_iff [OF assms \<open>n \<le> 10\<close>] by (simp_all add: ballot_ok_def Let_def markers_all)
  ultimately show "ValidateVotingV1State st = Inr (n, t)" by (auto simp: validate_head)
qed

end
