(* ===== verification/Voting_Calls.thy ===== *)
theory Voting_Calls
  imports Voting
begin

text \<open>
  What a call on a voting contract does: one vote on the poll behind the state, its exact conditions
  and gas, how many votes a ballot holds, and how a stored ballot stops working at 124 votes.
\<close>

subsection \<open>One vote\<close>

lemma count_suffix_big: "v \<ge> 1 \<Longrightarrow> count_suffix v (c # cs) = None"
  by (simp add: Let_def)

lemma dec_string_digit: "n < 10 \<Longrightarrow> dec_string n = [char_of (48 + n)]"
  by (simp add: dec_string.simps)

lemma count_key_iff:
  "ParseCanonicalVotingCountKey key = Some c \<longleftrightarrow> c \<le> 9 \<and> key = ''count'' @ dec_string c"
proof
  assume p: "ParseCanonicalVotingCountKey key = Some c"
  let ?s = "drop 5 key"
  have t: "take 5 key = ''count''" using p by (auto simp: ParseCanonicalVotingCountKey_def split: if_splits)
  have k1: "key = ''count'' @ ?s" using append_take_drop_id [of 5 key] unfolding t by (rule sym)
  have k: "?s \<noteq> []" "length ?s > 1 \<Longrightarrow> hd ?s \<noteq> CHR ''0''" "count_suffix 0 ?s = Some c"
    using p by (auto simp: ParseCanonicalVotingCountKey_def Let_def split: if_splits)
  obtain d ds where s: "?s = d # ds" using k(1) by (cases ?s) auto
  have d: "is_digit d" "count_suffix (digit_value d) ds = Some c" using k(3) s by (auto simp: Let_def split: if_splits)
  have "ds = []"
  proof (rule ccontr)
    assume "ds \<noteq> []"
    then obtain e es where ds: "ds = e # es" by (cases ds) auto
    have "d \<noteq> CHR ''0''" using k(2) s ds by simp
    moreover have "char_of (48 :: nat) = CHR ''0''" by code_simp
    ultimately have "digit_value d \<ge> 1" using char_of_digit_value [OF d(1)] by (cases "digit_value d") auto
    then show False using d(2) ds count_suffix_big by simp
  qed
  then have "c = digit_value d" using d(2) by simp
  then show "c \<le> 9 \<and> key = ''count'' @ dec_string c"
    using k1 s \<open>ds = []\<close> digit_value_less [OF d(1)] char_of_digit_value [OF d(1)] dec_string_digit [of c] by simp
next
  assume a: "c \<le> 9 \<and> key = ''count'' @ dec_string c"
  then have "is_digit (char_of (48 + c))" "digit_value (char_of (48 + c)) = c" using digit_char [of c] by simp_all
  then show "ParseCanonicalVotingCountKey key = Some c"
    using a dec_string_digit [of c] by (simp add: ParseCanonicalVotingCountKey_def Let_def)
qed

definition after_vote :: "nat \<Rightarrow> string \<Rightarrow> state_map \<Rightarrow> state_map" where
  "after_vote c h st =
     AList.update (''voted:'' @ h) [word_of_nat c]
       (AList.update ''totalvotes'' (EncodeVotingU64 (word_of_nat (turnout (poll_of st)) + 1))
         (AList.update (''count'' @ dec_string c) (EncodeVotingU64 (word_of_nat (tally (poll_of st) c) + 1)) st))"

lemma after_vote_map:
  "map_of (after_vote c h st) k =
     (if k = ''voted:'' @ h then Some [word_of_nat c]
      else if k = ''totalvotes'' then Some (EncodeVotingU64 (word_of_nat (turnout (poll_of st)) + 1))
      else if k = ''count'' @ dec_string c then Some (EncodeVotingU64 (word_of_nat (tally (poll_of st) c) + 1))
      else map_of st k)"
  by (simp add: after_vote_def)

lemma ballot_finite:
  assumes "keys_distinct st" "ballot_ok st"
  shows "finite (dom (poll_votes (poll_of st)))"
proof -
  have "\<forall>e\<in>set (markers (poll_options (poll_of st)) st). marker_ok (poll_options (poll_of st)) e" "poll_options (poll_of st) \<le> 10"
    using assms(2) by (auto simp: ballot_ok_def Let_def markers_all)
  from vote_list_of(2) [OF assms(1) this] show ?thesis
    using finite_dom_map_of [of "vote_list (poll_options (poll_of st)) st"] by (simp add: poll_of_def)
qed

lemma after_vote_poll:
  assumes "IsCanonicalLowerHash160Hex h" "c \<le> 9"
  shows "poll_of (after_vote c h st) = (poll_of st)\<lparr>poll_votes := (poll_votes (poll_of st))(h \<mapsto> c)\<rparr>"
proof -
  have "votes_of (after_vote c h st) = (votes_of st)(h \<mapsto> c)"
    using assms unat_option_count [of c]
    by (auto simp: fun_eq_iff votes_of_def after_vote_map simp del: unat_of_nat)
  then show ?thesis by (simp add: poll_of_def after_vote_map ReadVotingU64_def)
qed

lemma after_vote_ok:
  assumes "keys_distinct st" "ballot_ok st" "IsCanonicalLowerHash160Hex h" "c < poll_options (poll_of st)"
    "poll_votes (poll_of st) h = None"
  shows "ballot_ok (after_vote c h st)"
proof -
  let ?p = "poll_of st" and ?p' = "poll_of (after_vote c h st)"
  have n: "2 \<le> poll_options ?p" "poll_options ?p \<le> 10" using assms(2) by (auto simp: ballot_ok_def Let_def)
  have p': "?p' = ?p\<lparr>poll_votes := (poll_votes ?p)(h \<mapsto> c)\<rparr>" using after_vote_poll assms(3,4) n by simp
  have fin: "finite (dom (poll_votes ?p))" by (rule ballot_finite [OF assms(1,2)])
  have turn: "turnout ?p' = turnout ?p + 1"
    using fin assms(5) by (simp add: p' turnout_def card_insert_if domIff)
  have tal: "tally ?p' i = (if i = c then tally ?p i + 1 else tally ?p i)" for i
  proof -
    have s: "{x. ((poll_votes ?p)(h \<mapsto> c)) x = Some i} =
        (if i = c then insert h {x. poll_votes ?p x = Some i} else {x. poll_votes ?p x = Some i})"
      using assms(5) by auto
    have "finite {x. poll_votes ?p x = Some i}" by (rule finite_subset [OF _ fin]) auto
    moreover have "poll_votes ?p' = (poll_votes ?p)(h \<mapsto> c)" by (simp add: p' del: fun_upd_apply)
    ultimately show ?thesis unfolding tally_def using assms(5) by (auto simp: s card_insert_if simp del: fun_upd_apply)
  qed
  have dk: "keys_distinct (after_vote c h st)" using assms(1) by (simp add: after_vote_def)
  have ents: "voting_core_key (fst e) \<or> voting_option_key (poll_options ?p) (fst e) \<or> marker_ok (poll_options ?p) e"
    if e: "e \<in> set (after_vote c h st)" for e
  proof -
    obtain k v where kv: "e = (k, v)" by (cases e)
    have m: "map_of (after_vote c h st) k = Some v" using e kv dk by simp
    consider "k = ''voted:'' @ h" | "k = ''totalvotes''" | "k = ''count'' @ dec_string c"
      | "k \<noteq> ''voted:'' @ h" "k \<noteq> ''totalvotes''" "k \<noteq> ''count'' @ dec_string c" by blast
    then show ?thesis
    proof cases
      case 1
      then have "v = [word_of_nat c]" using m by (simp only: after_vote_map simp_thms if_True option.inject)
      then show ?thesis using assms(3,4) kv 1 by (auto simp: marker_ok_def)
    next
      case 2
      then show ?thesis using kv by (simp add: voting_core_key_def)
    next
      case 3
      then show ?thesis using kv assms(4) by (auto simp: option_key_iff)
    next
      case 4
      then have "map_of st k = Some v" using m by (simp only: after_vote_map if_False simp_thms)
      then have "(k, v) \<in> set st" by (rule map_of_SomeD)
      then show ?thesis using assms(2) kv by (auto simp: ballot_ok_def Let_def)
    qed
  qed
  have same: "map_of (after_vote c h st) ''proposal'' = map_of st ''proposal''"
    "map_of (after_vote c h st) ''numoptions'' = map_of st ''numoptions''"
    "map_of (after_vote c h st) ''endtime'' = map_of st ''endtime''"
    "map_of (after_vote c h st) (''option'' @ dec_string i) = map_of st (''option'' @ dec_string i)"
    "map_of (after_vote c h st) ''totalvotes'' = Some (EncodeVotingU64 (word_of_nat (turnout ?p')))"
    "map_of (after_vote c h st) (''count'' @ dec_string i) =
       (if i = c then Some (EncodeVotingU64 (word_of_nat (tally ?p' c))) else map_of st (''count'' @ dec_string i))" for i
    by (simp_all add: after_vote_map turn tal add.commute)
  have po: "poll_options ?p' = poll_options ?p" "poll_closes ?p' = poll_closes ?p" by (simp_all add: p')
  have b: "poll_closes ?p \<noteq> 0" "\<exists>t. map_of st ''proposal'' = Some t \<and> t \<noteq> [] \<and> length t \<le> 200"
    "map_of st ''numoptions'' = Some [word_of_nat (poll_options ?p)]" "map_of st ''endtime'' = Some (EncodeVotingU64 (poll_closes ?p))"
    using assms(2) by (simp_all add: ballot_ok_def Let_def)
  have cnt: "(\<exists>t. map_of st (''option'' @ dec_string i) = Some t \<and> t \<noteq> [] \<and> length t \<le> 50) \<and>
      map_of (after_vote c h st) (''count'' @ dec_string i) = Some (EncodeVotingU64 (word_of_nat (tally ?p' i)))"
    if "i < poll_options ?p" for i
  proof -
    have "(\<exists>t. map_of st (''option'' @ dec_string i) = Some t \<and> t \<noteq> [] \<and> length t \<le> 50) \<and>
      map_of st (''count'' @ dec_string i) = Some (EncodeVotingU64 (word_of_nat (tally ?p i)))"
      using assms(2) that unfolding ballot_ok_def Let_def by blast
    then show ?thesis by (simp only: same(6)) (auto simp: tal)
  qed
  show ?thesis
    unfolding ballot_ok_def Let_def po same(1-5) using n b cnt ents by blast
qed

subsection \<open>The size of a ballot\<close>

lemma refresh_limits:
  assumes "keys_distinct m" "state_within_limits m" "map_of m k = Some u" "length v = length u"
  shows "state_within_limits (AList.update k v m)" "state_bytes (AList.update k v m) = state_bytes m"
proof -
  have "entry_ok k u" using assms(2,3) by (auto simp: state_within_limits_def dest: map_of_SomeD)
  then have "entry_ok k v" using assms(4) by (simp add: entry_ok_def IsValueAllowed_def)
  moreover show "state_bytes (AList.update k v m) = state_bytes m"
    using state_bytes_update [OF assms(1), of k v] assms(3,4) by (simp add: entry_bytes_def)
  ultimately show "state_within_limits (AList.update k v m)"
    using assms by (simp add: update_within_limits) (simp add: state_within_limits_def)
qed

definition ballot_keys :: "nat \<Rightarrow> string list" where
  "ballot_keys n = [''proposal'', ''numoptions'', ''endtime'', ''totalvotes''] @
     map (\<lambda>i. ''option'' @ dec_string i) [0..<n] @ map (\<lambda>i. ''count'' @ dec_string i) [0..<n]"

lemma ballot_keys_iff: "k \<in> set (ballot_keys n) \<longleftrightarrow> voting_core_key k \<or> voting_option_key n k"
proof -
  have "set (ballot_keys n) = {''proposal'', ''numoptions'', ''endtime'', ''totalvotes''} \<union>
      (\<lambda>i. ''option'' @ dec_string i) ` {..<n} \<union> (\<lambda>i. ''count'' @ dec_string i) ` {..<n}"
    by (simp only: ballot_keys_def set_append list.set set_map set_upt atLeast0LessThan Un_assoc)
  then show ?thesis unfolding voting_core_key_def option_key_iff by blast
qed

lemma distinct_indexed: "distinct (map (\<lambda>i. s @ dec_string i) [0..<n])"
  by (simp add: distinct_map inj_on_def)

lemma ballot_keys_distinct: "distinct (ballot_keys n)"
  unfolding ballot_keys_def using distinct_indexed [of "''option''" n] distinct_indexed [of "''count''" n]
  by (simp only: distinct_append) auto

lemma ballot_keys_present:
  assumes "ballot_ok st" "k \<in> set (ballot_keys (poll_options (poll_of st)))"
  shows "k \<in> fst ` set st"
proof -
  have "map_of st k \<noteq> None"
    using assms by (auto simp: ballot_ok_def Let_def ballot_keys_iff voting_core_key_def option_key_iff)
  then show ?thesis by (simp add: map_of_eq_None_iff)
qed

text \<open>A ballot has four core entries, two for every option and one for every vote.\<close>

lemma ballot_length:
  assumes "keys_distinct st" "ballot_ok st"
  shows "length st = 4 + 2 * poll_options (poll_of st) + turnout (poll_of st)"
proof -
  let ?n = "poll_options (poll_of st)" and ?K = "\<lambda>e. voting_core_key (fst e) \<or> voting_option_key (poll_options (poll_of st)) (fst e)"
  have "length st = length (filter ?K st) + length (filter (\<lambda>e. \<not> ?K e) st)"
    by (rule sum_length_filter_compl [symmetric])
  moreover have "filter (\<lambda>e. \<not> ?K e) st = markers ?n st" by (simp add: markers_def)
  moreover have "length (filter ?K st) = 4 + 2 * ?n"
  proof -
    have "length (filter ?K st) = card (set (map fst (filter ?K st)))"
      using distinct_card [OF distinct_map_filter [OF assms(1)], of ?K] by simp
    also have "set (map fst (filter ?K st)) = set (ballot_keys ?n)"
    proof (rule set_eqI)
      fix k
      have "k \<in> set (map fst (filter ?K st)) \<longleftrightarrow> k \<in> fst ` set st \<and> k \<in> set (ballot_keys ?n)"
        unfolding ballot_keys_iff by (auto simp: image_iff intro: bexI [of _ "(k, _)"])
      then show "k \<in> set (map fst (filter ?K st)) \<longleftrightarrow> k \<in> set (ballot_keys ?n)"
        using ballot_keys_present [OF assms(2), of k] by blast
    qed
    also have "card (set (ballot_keys ?n)) = length (ballot_keys ?n)"
      using ballot_keys_distinct by (rule distinct_card)
    finally show ?thesis by (simp add: ballot_keys_def)
  qed
  moreover have "length (markers ?n st) = turnout (poll_of st)"
  proof -
    have "\<forall>e\<in>set (markers ?n st). marker_ok ?n e" "?n \<le> 10"
      using assms(2) by (auto simp: ballot_ok_def Let_def markers_all)
    from poll_numbers(1) [OF assms(1) this] show ?thesis by (simp add: vote_list_def)
  qed
  ultimately show ?thesis by simp
qed

lemma ballot_entry_bytes:
  assumes "ballot_ok st" "map_of st k = Some v"
  shows "entry_bytes k v \<le> 216"
proof -
  let ?n = "poll_options (poll_of st)"
  have n: "?n \<le> 10" using assms(1) by (simp add: ballot_ok_def Let_def)
  have "(k, v) \<in> set st" using assms(2) by (rule map_of_SomeD)
  then consider (core) "voting_core_key k" | (opt) "voting_option_key ?n k" | (mark) "marker_ok ?n (k, v)"
    using assms(1) by (auto simp: ballot_ok_def Let_def)
  then show ?thesis
  proof cases
    case core
    then show ?thesis using assms by (auto simp: voting_core_key_def ballot_ok_def Let_def entry_bytes_def)
  next
    case opt
    then obtain i where i: "i < ?n" "k = ''option'' @ dec_string i \<or> k = ''count'' @ dec_string i"
      by (auto simp: option_key_iff)
    moreover have "length (dec_string i) = 1" using dec_string_digit [of i] i(1) n by simp
    ultimately show ?thesis
      using assms by (auto simp: ballot_ok_def Let_def entry_bytes_def)
  next
    case mark
    then have "length k = 46" "length v = 1" using marker_ok_iff [OF n] by auto
    then show ?thesis by (simp add: entry_bytes_def)
  qed
qed

lemma ballot_limits:
  assumes "keys_distinct st" "ballot_ok st" "length st \<le> MAX_KEYS_PER_DOMAIN"
  shows "state_bytes st \<le> MAX_TOTAL_STATE_BYTES"
proof -
  have "(\<Sum>(k, v)\<leftarrow>st. entry_bytes k v) \<le> (\<Sum>e\<leftarrow>st. 216)"
    by (rule sum_list_mono) (use assms ballot_entry_bytes in auto)
  also have "\<dots> = length st * 216" by (simp add: sum_list_triv)
  finally show ?thesis using assms(3) by (simp add: state_bytes_def state_limit_defs)
qed

text \<open>There is room for a vote exactly when a key is free.\<close>

lemma after_vote_limits:
  assumes "keys_distinct st" "state_within_limits st" "ballot_ok st" "IsCanonicalLowerHash160Hex h"
    "c < poll_options (poll_of st)" "poll_votes (poll_of st) h = None"
  shows "state_within_limits (after_vote c h st) \<longleftrightarrow> length st < MAX_KEYS_PER_DOMAIN"
proof -
  have dk: "keys_distinct (after_vote c h st)" using assms(1) by (simp add: after_vote_def)
  have none: "map_of st (''voted:'' @ h) = None" using assms(4,6) by (simp add: poll_of_def votes_of_def)
  have old: "map_of st (''count'' @ dec_string c) \<noteq> None" "map_of st ''totalvotes'' \<noteq> None"
    using assms(3,5) by (auto simp: ballot_ok_def Let_def)
  have len: "length (after_vote c h st) = Suc (length st)"
    unfolding after_vote_def using none old by (simp add: length_update)
  show ?thesis
  proof
    assume "state_within_limits (after_vote c h st)"
    then show "length st < MAX_KEYS_PER_DOMAIN" using len by (simp add: state_within_limits_def)
  next
    assume room: "length st < MAX_KEYS_PER_DOMAIN"
    have "entry_ok k v" if "(k, v) \<in> set (after_vote c h st)" for k v
    proof -
      have "map_of (after_vote c h st) k = Some v" using that dk by simp
      then have "entry_bytes k v \<le> 216" using ballot_entry_bytes [OF after_vote_ok [OF assms(1,3-6)]] by blast
      moreover have "k \<noteq> []"
      proof (cases "map_of st k = Some v")
        case True
        then show ?thesis using assms(2) by (auto simp: state_within_limits_def entry_ok_def IsLogicalKeyAllowed_def dest: map_of_SomeD)
      next
        case False
        then show ?thesis using \<open>map_of (after_vote c h st) k = Some v\<close> by (auto simp: after_vote_map split: if_splits)
      qed
      ultimately show ?thesis
        by (auto simp: entry_ok_def IsLogicalKeyAllowed_def IsValueAllowed_def entry_bytes_def state_limit_defs)
    qed
    moreover have "length (after_vote c h st) \<le> MAX_KEYS_PER_DOMAIN" using room len by simp
    ultimately show "state_within_limits (after_vote c h st)"
      using ballot_limits [OF dk after_vote_ok [OF assms(1,3-6)]] by (auto simp: state_within_limits_def)
  qed
qed

subsection \<open>What a vote call does\<close>

lemma ballot_small:
  assumes "keys_distinct st" "ballot_ok st" "length st \<le> MAX_KEYS_PER_DOMAIN"
  shows "turnout (poll_of st) < 4096" "tally (poll_of st) i < 4096"
proof -
  show t: "turnout (poll_of st) < 4096"
    using ballot_length [OF assms(1,2)] assms(3) by (simp add: state_limit_defs)
  have "tally (poll_of st) i \<le> turnout (poll_of st)"
    unfolding tally_def turnout_def by (rule card_mono [OF ballot_finite [OF assms(1,2)]]) auto
  then show "tally (poll_of st) i < 4096" using t by simp
qed

lemma small_not_max: "n < 4096 \<Longrightarrow> (word_of_nat n :: u64) \<noteq> u64_max"
proof
  assume n: "n < 4096" and "(word_of_nat n :: u64) = u64_max"
  then have "unat (word_of_nat n :: u64) = unat u64_max" by (simp only:)
  moreover have "unat (word_of_nat n :: u64) = n" by (rule unat_word_of_nat_less) (use n in simp)
  ultimately show False using n unat_all_ones [where 'a = 64] by simp
qed

text \<open>The call that asks for the next count of an option.\<close>

definition vote_call :: "StatefulCallShapeResult \<Rightarrow> state_map \<Rightarrow> nat \<Rightarrow> bool" where
  "vote_call callShape st c \<longleftrightarrow>
     logicalKey callShape = ''count'' @ dec_string c \<and>
     call_value callShape = EncodeVotingU64 (word_of_nat (tally (poll_of st) c) + 1)"

lemma vote_call_unique: "vote_call sh st c \<Longrightarrow> vote_call sh st c' \<Longrightarrow> c' = c"
  by (simp add: vote_call_def)

definition may_vote :: "StatefulCallShapeResult \<Rightarrow> state_map \<Rightarrow> string \<Rightarrow> u32 \<Rightarrow> nat \<Rightarrow> bool" where
  "may_vote callShape st h now c \<longleftrightarrow>
     callValue callShape = 0 \<and> IsCanonicalLowerHash160Hex h \<and> ballot_ok st \<and> vote_call callShape st c \<and>
     cast (poll_of st) now h c \<noteq> None"

lemma vote_checks_iff:
  assumes "keys_distinct (snap_state s)" "length (snap_state s) \<le> MAX_KEYS_PER_DOMAIN"
  shows "vote_checks sh s h addr now = Inr (c, n, t, cnt, tot) \<longleftrightarrow>
    snap_family s = ''voting_v1'' \<and> addr \<noteq> [] \<and> may_vote sh (snap_state s) h now c \<and>
    n = poll_options (poll_of (snap_state s)) \<and> t = poll_closes (poll_of (snap_state s)) \<and>
    cnt = word_of_nat (tally (poll_of (snap_state s)) c) \<and> tot = word_of_nat (turnout (poll_of (snap_state s)))"
    (is "_ \<longleftrightarrow> ?R")
proof -
  let ?st = "snap_state s" and ?p = "poll_of (snap_state s)"
  have none: "map_of ?st (''voted:'' @ h) = None \<longleftrightarrow> poll_votes ?p h = None" if "IsCanonicalLowerHash160Hex h"
    using that by (simp add: poll_of_def votes_of_def)
  have nine: "c \<le> 9" if "ballot_ok ?st" "c < poll_options ?p" for c
    using that by (auto simp: ballot_ok_def Let_def)
  have rd: "ReadVotingU64 ?st (''count'' @ dec_string c) = Some (word_of_nat (tally ?p c))"
    "ReadVotingU64 ?st ''totalvotes'' = Some (word_of_nat (turnout ?p))"
    if "ballot_ok ?st" "c < poll_options ?p" for c
    using that unfolding read_u64_iff ballot_ok_def Let_def by blast+
  have max: "word_of_nat (tally ?p c) \<noteq> u64_max" "word_of_nat (turnout ?p) \<noteq> u64_max" if "ballot_ok ?st" for c
    using ballot_small [OF assms(1) that assms(2)] small_not_max by blast+
  show ?thesis
  proof
    assume l: "vote_checks sh s h addr now = Inr (c, n, t, cnt, tot)"
    then have f: "snap_family s = ''voting_v1''" "IsCanonicalLowerHash160Hex h" "addr \<noteq> []" "callValue sh = 0"
      "ValidateVotingV1State ?st = Inr (n, t)" "ucast now \<le> t" "ParseCanonicalVotingCountKey (logicalKey sh) = Some c" "c < n"
      "ReadVotingU64 ?st (logicalKey sh) = Some cnt" "ReadVotingU64 ?st ''totalvotes'' = Some tot"
      "call_value sh = EncodeVotingU64 (cnt + 1)" "map_of ?st (''voted:'' @ h) = None"
      by (auto simp: vote_checks_def not_less split: if_splits sum.splits option.splits)
    have ok: "ballot_ok ?st" "n = poll_options ?p" "t = poll_closes ?p" using f(5) validate_iff [OF assms] by auto
    have key: "logicalKey sh = ''count'' @ dec_string c" using f(7) by (simp only: count_key_iff)
    have "cnt = word_of_nat (tally ?p c)" "tot = word_of_nat (turnout ?p)"
      using rd [OF ok(1), of c] f(8-10) ok(2) key by simp_all
    then show ?R using f ok key none [OF f(2)] unfolding may_vote_def vote_call_def cast_def by simp
  next
    assume r: ?R
    then have ok: "ballot_ok ?st" "c < poll_options ?p" "IsCanonicalLowerHash160Hex h" "ucast now \<le> poll_closes ?p"
      "poll_votes ?p h = None" "callValue sh = 0"
      and key: "logicalKey sh = ''count'' @ dec_string c" "call_value sh = EncodeVotingU64 (word_of_nat (tally ?p c) + 1)"
      by (auto simp: may_vote_def vote_call_def cast_def split: if_splits)
    have v: "ValidateVotingV1State ?st = Inr (poll_options ?p, poll_closes ?p)" using validate_iff [OF assms] ok(1) by simp
    have p: "ParseCanonicalVotingCountKey (logicalKey sh) = Some c"
      using nine [OF ok(1,2)] by (simp only: key(1) count_key_iff simp_thms)
    have rd': "ReadVotingU64 ?st (logicalKey sh) = Some (word_of_nat (tally ?p c))" using rd [OF ok(1,2)] key(1) by simp
    have nn: "map_of ?st (''voted:'' @ h) = None" using none [OF ok(3)] ok(5) by blast
    show "vote_checks sh s h addr now = Inr (c, n, t, cnt, tot)"
      using r ok v p rd' rd(2) [OF ok(1,2)] max [OF ok(1)] key(2) nn by (simp add: vote_checks_def not_less)
  qed
qed

text \<open>The gas of a vote: the machine, the total and the marker.\<close>

definition vote_gas :: nat where
  "vote_gas = 17119"

lemma count_key_length: "c \<le> 9 \<Longrightarrow> length (''count'' @ dec_string c) = 6"
  using dec_string_digit [of c] by simp

lemma vote_anchor_gas: "c \<le> 9 \<Longrightarrow> anchor_gas (''count'' @ dec_string c) (EncodeVotingU64 v) = 3019"
proof -
  assume "c \<le> 9"
  then have "length (''count'' @ dec_string c) = 6" by (rule count_key_length)
  moreover have "EncodeVotingU64 v \<noteq> []" using encode_length [of v] by (cases "EncodeVotingU64 v") simp_all
  ultimately show ?thesis by (simp add: anchor_gas_def push_gas_def)
qed

lemma vote_store_gas: "ComputeStoreGas 10 8 = Some 3800" "ComputeStoreGas 46 (Suc 0) = Some 10300"
  by code_simp+

lemma gas_fits:
  fixes limit :: u64
  shows "\<not> (3019 > limit \<or> 3800 > limit - 3019 \<or> 10300 > limit - 3019 - 3800) \<longleftrightarrow> vote_gas \<le> unat limit"
proof (cases "3019 \<le> limit \<and> 3800 \<le> limit - 3019")
  case True
  have a: "unat (limit - 3019) = unat limit - 3019" using True by (simp add: unat_sub)
  have "unat (limit - 3019 - 3800) = unat (limit - 3019) - unat (3800 :: u64)" using True by (simp only: unat_sub)
  then show ?thesis using True a by (auto simp: word_less_nat_alt word_le_nat_alt not_less vote_gas_def)
next
  case False
  have "unat limit < 6819"
  proof (cases "3019 \<le> limit")
    case True
    then have "unat (limit - 3019) < 3800" using False by (simp add: word_le_nat_alt)
    then show ?thesis using True by (simp add: unat_sub)
  next
    case False
    then show ?thesis by (simp add: word_le_nat_alt)
  qed
  then show ?thesis using False by (auto simp: not_less vote_gas_def)
qed

definition counted :: "nat \<Rightarrow> state_map \<Rightarrow> state_map" where
  "counted c st = AList.update (''count'' @ dec_string c) (EncodeVotingU64 (word_of_nat (tally (poll_of st) c) + 1)) st"

definition totalled :: "nat \<Rightarrow> state_map \<Rightarrow> state_map" where
  "totalled c st = AList.update ''totalvotes'' (EncodeVotingU64 (word_of_nat (turnout (poll_of st)) + 1)) (counted c st)"

lemma after_vote_totalled: "after_vote c h st = AList.update (''voted:'' @ h) [word_of_nat c] (totalled c st)"
  by (simp add: after_vote_def totalled_def counted_def)

lemma counted_limits:
  assumes "keys_distinct st" "state_within_limits st" "ballot_ok st" "c < poll_options (poll_of st)"
  shows "keys_distinct (counted c st)" "state_within_limits (counted c st)"
    "keys_distinct (totalled c st)" "state_within_limits (totalled c st)"
proof -
  have old: "map_of st (''count'' @ dec_string c) = Some (EncodeVotingU64 (word_of_nat (tally (poll_of st) c)))"
    "map_of (counted c st) ''totalvotes'' = Some (EncodeVotingU64 (word_of_nat (turnout (poll_of st))))"
    using assms(3,4) by (auto simp: ballot_ok_def Let_def counted_def)
  show d: "keys_distinct (counted c st)" "keys_distinct (totalled c st)" using assms(1) by (simp_all add: counted_def totalled_def)
  show l: "state_within_limits (counted c st)"
    unfolding counted_def by (rule refresh_limits(1) [OF assms(1,2) old(1)]) simp
  show "state_within_limits (totalled c st)"
    unfolding totalled_def by (rule refresh_limits(1) [OF d(1) l old(2)]) simp
qed

text \<open>The updates behind the machine, for a call that passed the checks.\<close>

lemma vote_commit_exact:
  assumes "keys_distinct st" "state_within_limits st" "may_vote sh st h now c"
  shows "vote_commit (counted c st) 3019 limit (word_of_nat (turnout (poll_of st))) c (''voted:'' @ h) = Inr x \<longleftrightarrow>
    length st < MAX_KEYS_PER_DOMAIN \<and> vote_gas \<le> unat limit \<and> x = (after_vote c h st, 17119)"
proof -
  let ?v = "EncodeVotingU64 (word_of_nat (turnout (poll_of st)) + 1)"
  have m: "ballot_ok st" "c < poll_options (poll_of st)" "IsCanonicalLowerHash160Hex h" "poll_votes (poll_of st) h = None"
    using assms(3) by (auto simp: may_vote_def cast_def split: if_splits)
  note l = counted_limits [OF assms(1,2) m(1,2)]
  have a: "CanApplyStateWrite (counted c st) ''totalvotes'' ?v \<noteq> None"
    using CanApplyStateWrite_eq [OF l(1,2)] l(4) by (simp add: totalled_def)
  have b: "CanApplyStateWrite (totalled c st) (''voted:'' @ h) [word_of_nat c] \<noteq> None \<longleftrightarrow> length st < MAX_KEYS_PER_DOMAIN"
    using CanApplyStateWrite_eq [OF l(3,4)] after_vote_limits [OF assms(1,2) m(1,3,2,4)] by (simp add: after_vote_totalled)
  have len: "length (''voted:'' @ h) = 46" using m(3) by (simp add: IsCanonicalLowerHash160Hex_def)
  have "vote_commit (counted c st) 3019 limit (word_of_nat (turnout (poll_of st))) c (''voted:'' @ h) =
    (case CanApplyStateWrite (totalled c st) (''voted:'' @ h) [word_of_nat c] of
       None \<Rightarrow> Inl ''Voting V1 voter marker exceeds state/gas limits''
     | Some _ \<Rightarrow>
         if 3019 > limit \<or> 3800 > limit - 3019 \<or> 10300 > limit - 3019 - 3800
         then Inl ''Voting V1 deterministic state updates exceed gas limit''
         else Inr (after_vote c h st, 17119))"
    unfolding vote_commit_def Let_def totalled_def [symmetric] after_vote_totalled [symmetric] len encode_length
      vote_store_gas list.size add_0 One_nat_def [symmetric]
    using a vote_store_gas by (auto simp: totalled_def after_vote_totalled split: option.splits)
  then show ?thesis using b gas_fits [of limit] by (auto split: option.splits)
qed

lemma vote_run:
  assumes "ValidateStatefulCallShape C tx 0 lockHex locked = Inr sh" "IsCanonicalContractOutpoint (snap_root s)"
    "keys_distinct (snap_state s)" "state_within_limits (snap_state s)" "may_vote sh (snap_state s) h now' c"
  shows "run_call C tx sh [OP_STORE, OP_1] s addr now height limit hasChain =
    (if 3019 \<le> unat (effective_limit limit) then Some (counted c (snap_state s), 3019) else None)"
proof -
  have m: "ballot_ok (snap_state s)" "c < poll_options (poll_of (snap_state s))" "vote_call sh (snap_state s) c"
    using assms(5) by (auto simp: may_vote_def cast_def split: if_splits)
  have "c \<le> 9" using m(1,2) by (auto simp: ballot_ok_def Let_def)
  then have g: "anchor_gas (logicalKey sh) (call_value sh) = 3019"
    using m(3) vote_anchor_gas by (simp only: vote_call_def)
  have w: "AList.update (logicalKey sh) (call_value sh) (snap_state s) = counted c (snap_state s)"
    using m(3) by (simp only: vote_call_def counted_def)
  have "CanApplyStateWrite (snap_state s) (logicalKey sh) (call_value sh) \<noteq> None"
    using CanApplyStateWrite_eq [OF assms(3,4)] counted_limits(2) [OF assms(3,4) m(1,2)] by (simp add: w)
  then show ?thesis using run_call_exact [OF assms(1,2)] by (simp add: g w)
qed

lemma vote_exact:
  assumes "ValidateStatefulCallShape C tx 0 lockHex locked = Inr sh" "IsCanonicalContractOutpoint (snap_root s)"
    and "keys_distinct (snap_state s)" "state_within_limits (snap_state s)"
  shows "ExecuteVotingV1Call C tx sh [OP_STORE, OP_1] s h addr now height limit hasChain = Inr r \<longleftrightarrow>
    snap_family s = ''voting_v1'' \<and> addr \<noteq> [] \<and> length (snap_state s) < MAX_KEYS_PER_DOMAIN \<and> vote_gas \<le> unat limit \<and>
    (\<exists>c. may_vote sh (snap_state s) h now c \<and>
      r = \<lparr>vote_state = after_vote c h (snap_state s), vote_gasUsed = 17119, vote_choice = c, vote_voterKey = ''voted:'' @ h\<rparr>)"
    (is "?E = Inr r \<longleftrightarrow> ?R")
proof -
  let ?st = "snap_state s"
  have len: "length ?st \<le> MAX_KEYS_PER_DOMAIN" using assms(4) by (simp add: state_within_limits_def)
  note checks = vote_checks_iff [OF assms(3) len, of sh h addr now]
  have ok: "?E = Inr r \<longleftrightarrow> length ?st < MAX_KEYS_PER_DOMAIN \<and> vote_gas \<le> unat limit \<and>
      r = \<lparr>vote_state = after_vote c h ?st, vote_gasUsed = 17119, vote_choice = c, vote_voterKey = ''voted:'' @ h\<rparr>"
    if f: "snap_family s = ''voting_v1''" "addr \<noteq> []" "may_vote sh ?st h now c" for c
  proof -
    have vc: "vote_checks sh s h addr now = Inr (c, poll_options (poll_of ?st), poll_closes (poll_of ?st),
        word_of_nat (tally (poll_of ?st) c), word_of_nat (turnout (poll_of ?st)))"
      using f by (simp add: checks)
    have m: "ballot_ok ?st" "c < poll_options (poll_of ?st)" "IsCanonicalLowerHash160Hex h" "poll_votes (poll_of ?st) h = None"
      "logicalKey sh = ''count'' @ dec_string c"
      using f(3) by (auto simp: may_vote_def cast_def vote_call_def split: if_splits)
    have c: "c \<le> 9" using m(1,2) by (auto simp: ballot_ok_def Let_def)
    note commit = vote_commit_exact [OF assms(3,4) f(3), of limit]
    have key: "map_of (counted c ?st) (logicalKey sh) = Some (EncodeVotingU64 (word_of_nat (tally (poll_of ?st) c) + 1))"
      by (simp only: m(5) counted_def map_of_update fun_upd_same)
    show ?thesis
    proof (cases "length ?st < MAX_KEYS_PER_DOMAIN \<and> vote_gas \<le> unat limit")
      case True
      have "3019 \<le> unat (effective_limit limit)" using True by (simp add: vote_gas_def effective_limit_def)
      then have run: "run_call C tx sh [OP_STORE, OP_1] s addr now height limit hasChain = Some (counted c ?st, 3019)"
        using vote_run [OF assms(1-4) f(3)] by simp
      have vcm: "vote_commit (counted c ?st) 3019 limit (word_of_nat (turnout (poll_of ?st))) c (''voted:'' @ h) =
          Inr (after_vote c h ?st, 17119)"
        using commit True by blast
      have lim: "state_within_limits (after_vote c h ?st)" using after_vote_limits [OF assms(3,4) m(1,3,2,4)] True by blast
      have dk: "keys_distinct (after_vote c h ?st)" using assms(3) by (simp add: after_vote_def)
      have "length (after_vote c h ?st) \<le> MAX_KEYS_PER_DOMAIN" using lim by (simp add: state_within_limits_def)
      then have val: "ValidateVotingV1State (after_vote c h ?st) = Inr (poll_options (poll_of ?st), poll_closes (poll_of ?st))"
        using validate_iff [OF dk] after_vote_ok [OF assms(3) m(1,3,2,4)] after_vote_poll [OF m(3) c] by simp
      show ?thesis
        using True vcm by (auto simp: ExecuteVotingV1Call_def vc run key val MeasureStateBytes_eq lim)
    next
      case False
      then have "vote_commit (counted c ?st) 3019 limit (word_of_nat (turnout (poll_of ?st))) c (''voted:'' @ h) \<noteq> Inr x" for x
        using commit by blast
      then obtain e where no: "vote_commit (counted c ?st) 3019 limit (word_of_nat (turnout (poll_of ?st))) c (''voted:'' @ h) = Inl e"
        by (cases "vote_commit (counted c ?st) 3019 limit (word_of_nat (turnout (poll_of ?st))) c (''voted:'' @ h)") blast+
      have "?E \<noteq> Inr r"
        using no by (auto simp: ExecuteVotingV1Call_def vc vote_run [OF assms(1-4) f(3)] key)
      then show ?thesis using False by blast
    qed
  qed
  show ?thesis
  proof
    assume e: "?E = Inr r"
    then obtain x where "vote_checks sh s h addr now = Inr x"
      by (auto simp: ExecuteVotingV1Call_def split: sum.splits)
    then obtain c n t cnt tot where "vote_checks sh s h addr now = Inr (c, n, t, cnt, tot)" by (cases x) auto
    then have f: "snap_family s = ''voting_v1''" "addr \<noteq> []" "may_vote sh ?st h now c" by (simp_all add: checks)
    then show ?R using e ok [OF f] by blast
  next
    assume ?R
    then show "?E = Inr r" using ok by blast
  qed
qed

text \<open>
  C31: a vote call implements the poll. Whenever the code accepts a call, the state it commits is
  again a ballot, and the poll it stands for is the old poll with exactly this vote cast, which the
  rules allowed: before closing time, for an option of the poll, by somebody who had not voted. Every
  entry but the count of that option, the total and the marker of the voter is untouched.
\<close>

theorem vote_refines_poll:
  assumes "ValidateStatefulCallShape C tx 0 lockHex locked = Inr sh" "IsCanonicalContractOutpoint (snap_root s)"
    and "keys_distinct (snap_state s)" "state_within_limits (snap_state s)"
    and "ExecuteVotingV1Call C tx sh [OP_STORE, OP_1] s h addr now height limit hasChain = Inr r"
  shows "cast (poll_of (snap_state s)) now h (vote_choice r) = Some (poll_of (vote_state r)) \<and>
    ballot_ok (snap_state s) \<and> ballot_ok (vote_state r) \<and> keys_distinct (vote_state r) \<and> state_within_limits (vote_state r) \<and>
    (\<forall>k. k \<notin> {logicalKey sh, ''totalvotes'', vote_voterKey r} \<longrightarrow> map_of (vote_state r) k = map_of (snap_state s) k)"
proof -
  obtain c where c: "may_vote sh (snap_state s) h now c" "length (snap_state s) < MAX_KEYS_PER_DOMAIN"
    "r = \<lparr>vote_state = after_vote c h (snap_state s), vote_gasUsed = 17119, vote_choice = c, vote_voterKey = ''voted:'' @ h\<rparr>"
    using assms(5) vote_exact [OF assms(1-4)] by blast
  have m: "ballot_ok (snap_state s)" "c < poll_options (poll_of (snap_state s))" "IsCanonicalLowerHash160Hex h"
    "poll_votes (poll_of (snap_state s)) h = None" "logicalKey sh = ''count'' @ dec_string c"
    "cast (poll_of (snap_state s)) now h c \<noteq> None"
    using c(1) by (auto simp: may_vote_def cast_def vote_call_def split: if_splits)
  have "c \<le> 9" using m(1,2) by (auto simp: ballot_ok_def Let_def)
  then have "cast (poll_of (snap_state s)) now h c = Some (poll_of (after_vote c h (snap_state s)))"
    using after_vote_poll [OF m(3)] m(6) by (simp add: cast_def split: if_splits)
  moreover have "state_within_limits (after_vote c h (snap_state s))"
    using after_vote_limits [OF assms(3,4) m(1,3,2,4)] c(2) by blast
  moreover have "keys_distinct (after_vote c h (snap_state s))" using assms(3) by (simp add: after_vote_def)
  moreover have "\<forall>k. k \<notin> {logicalKey sh, ''totalvotes'', ''voted:'' @ h} \<longrightarrow>
      map_of (after_vote c h (snap_state s)) k = map_of (snap_state s) k"
    unfolding after_vote_map m(5) by simp
  ultimately show ?thesis
    using after_vote_ok [OF assms(3) m(1,3,2,4)] m(1) unfolding c(3) by simp
qed

text \<open>
  C32: an eligible vote always counts. The code accepts a call on a voting contract exactly when it
  carries no value, asks for the next count of an option, comes from somebody entitled to vote now, has the
  fixed 17119 gas, and the ballot holds fewer than 4092 entries of options (two each) and votes.
\<close>

theorem vote_accepted_iff:
  assumes "ValidateStatefulCallShape C tx 0 lockHex locked = Inr sh" "IsCanonicalContractOutpoint (snap_root s)"
    and "keys_distinct (snap_state s)" "state_within_limits (snap_state s)"
    and "snap_family s = ''voting_v1''" "ballot_ok (snap_state s)" "addr \<noteq> []"
  shows "(\<exists>r. ExecuteVotingV1Call C tx sh [OP_STORE, OP_1] s h addr now height limit hasChain = Inr r \<and> vote_gasUsed r = 17119)
    \<longleftrightarrow> callValue sh = 0 \<and> IsCanonicalLowerHash160Hex h \<and>
        (\<exists>c p. vote_call sh (snap_state s) c \<and> cast (poll_of (snap_state s)) now h c = Some p) \<and>
        2 * poll_options (poll_of (snap_state s)) + turnout (poll_of (snap_state s)) < 4092 \<and> 17119 \<le> unat limit"
proof -
  have "length (snap_state s) < MAX_KEYS_PER_DOMAIN \<longleftrightarrow>
      2 * poll_options (poll_of (snap_state s)) + turnout (poll_of (snap_state s)) < 4092"
    using ballot_length [OF assms(3,6)] by (auto simp: MAX_KEYS_PER_DOMAIN_def)
  moreover have "may_vote sh (snap_state s) h now c \<longleftrightarrow> callValue sh = 0 \<and> IsCanonicalLowerHash160Hex h \<and>
      vote_call sh (snap_state s) c \<and> (\<exists>p. cast (poll_of (snap_state s)) now h c = Some p)" for c
    using assms(6) by (simp add: may_vote_def)
  ultimately show ?thesis
    using assms(5,7) unfolding vote_exact [OF assms(1-4)] vote_gas_def by (metis VotingCallExecutionResult.select_convs(2))
qed

subsection \<open>A sample ballot\<close>

definition sample_tx :: "string \<Rightarrow> bytes \<Rightarrow> u64 \<Rightarrow> unit Transaction" where
  "sample_tx key val amt =
     (let unlock = kv_script key val;
          anchor = \<lparr>prev_txid = replicate 64 (CHR ''a''), prev_vout = 0, scriptSig = unlock,
            pubKey = [], in_scriptPubKey = [], sequence = 0\<rparr>;
          caller = \<lparr>prev_txid = replicate 64 (CHR ''b''), prev_vout = 1, scriptSig = [],
            pubKey = [], in_scriptPubKey = [], sequence = 0\<rparr>;
          env = \<lparr>targetInput = 0, continuationVout = 0, unlockScriptSha256 = SHA256 toy_crypto unlock\<rparr> in
      \<lparr>isCoinbase = False, txid = replicate 64 (CHR ''c''), sender = [], vin = [anchor, caller],
       vout = [\<lparr>amount = amt, scriptPubKey = ''f751''\<rparr>,
               \<lparr>amount = 0, scriptPubKey = hex_encode (the (call_BuildOpReturnScript env))\<rparr>],
       version = 1, lockTime = 0, tokenMetadata = []\<rparr>)"

definition sample_ballot :: state_map where
  "sample_ballot = [(''proposal'', [1]), (''numoptions'', [2]), (''endtime'', EncodeVotingU64 100),
     (''totalvotes'', EncodeVotingU64 0), (''option0'', [1]), (''count0'', EncodeVotingU64 0),
     (''option1'', [1]), (''count1'', EncodeVotingU64 0)]"

lemma sample_poll: "poll_of sample_ballot = \<lparr>poll_options = 2, poll_closes = 100, poll_votes = Map.empty\<rparr>"
proof -
  have "map_of sample_ballot (''voted:'' @ h) = None" for h by (simp add: sample_ballot_def)
  then have "votes_of sample_ballot = Map.empty" by (simp add: votes_of_def fun_eq_iff)
  moreover have "ReadVotingU64 sample_ballot ''endtime'' = Some 100"
    by (simp only: read_u64_iff) (simp add: sample_ballot_def)
  ultimately show ?thesis by (simp add: poll_of_def) (simp add: sample_ballot_def)
qed

lemma sample_ballot_ok: "keys_distinct sample_ballot" "state_within_limits sample_ballot" "ballot_ok sample_ballot"
proof -
  show "keys_distinct sample_ballot" by code_simp
  show "state_within_limits sample_ballot"
    by (simp add: sample_ballot_def state_within_limits_def entry_ok_def state_bytes_def entry_bytes_def state_eval)
  have dec: "dec_string 0 = ''0''" "dec_string (Suc 0) = ''1''" by code_simp+
  have keys: "voting_option_key 2 ''option0''" "voting_option_key 2 ''option1''" "voting_option_key 2 ''count0''"
    "voting_option_key 2 ''count1''" by code_simp+
  have i: "i < 2 \<longleftrightarrow> i = 0 \<or> i = Suc 0" for i :: nat by auto
  have opt: "(\<exists>t. map_of sample_ballot (''option'' @ dec_string i) = Some t \<and> t \<noteq> [] \<and> length t \<le> 50) \<and>
      map_of sample_ballot (''count'' @ dec_string i) = Some (EncodeVotingU64 0)" if "i < 2" for i
    using that unfolding i by (auto simp: sample_ballot_def dec)
  have "\<forall>e\<in>set sample_ballot. voting_core_key (fst e) \<or> voting_option_key 2 (fst e)"
    using keys by (simp add: sample_ballot_def voting_core_key_def)
  moreover have "map_of sample_ballot ''proposal'' = Some [1]" "map_of sample_ballot ''numoptions'' = Some [2]"
    "map_of sample_ballot ''endtime'' = Some (EncodeVotingU64 100)" "map_of sample_ballot ''totalvotes'' = Some (EncodeVotingU64 0)"
    by (simp_all add: sample_ballot_def)
  ultimately show "ballot_ok sample_ballot"
    using opt by (simp add: ballot_ok_def sample_poll turnout_def tally_def) blast
qed

lemma sample_vote_shape:
  "\<exists>sh. ValidateStatefulCallShape toy_crypto (sample_tx ''count1'' (EncodeVotingU64 1) 9) 0 ''f751'' 9 = Inr sh \<and>
     callValue sh = 0 \<and> vote_call sh sample_ballot 1"
proof -
  have "case ValidateStatefulCallShape toy_crypto (sample_tx ''count1'' (EncodeVotingU64 1) 9) 0 ''f751'' 9 of
      Inl _ \<Rightarrow> False | Inr r \<Rightarrow> callValue r = 0 \<and> logicalKey r = ''count1'' \<and> call_value r = EncodeVotingU64 1" by code_simp
  moreover have "tally (poll_of sample_ballot) 1 = 0" by (simp add: tally_def sample_poll)
  moreover have "''count'' @ dec_string 1 = ''count1''" by code_simp
  ultimately show ?thesis by (auto simp: vote_call_def split: sum.splits)
qed

lemma sample_vote_snapshot:
  "IsCanonicalContractOutpoint (snap_root (sample_snapshot fam st))" "snap_state (sample_snapshot fam st) = st"
  "snap_family (sample_snapshot fam st) = fam"
  by (simp_all add: sample_snapshot_def sample_domain)

theorem vote_accepted_iff_witness:
  "\<exists>sh r. ExecuteVotingV1Call toy_crypto (sample_tx ''count1'' (EncodeVotingU64 1) 9) sh [OP_STORE, OP_1]
     (sample_snapshot ''voting_v1'' sample_ballot) sample_owner ''caller'' 50 1 20000 False = Inr r \<and> vote_gasUsed r = 17119"
proof -
  obtain sh where sh: "ValidateStatefulCallShape toy_crypto (sample_tx ''count1'' (EncodeVotingU64 1) 9) 0 ''f751'' 9 = Inr sh"
    "callValue sh = 0" "vote_call sh sample_ballot 1" using sample_vote_shape by blast
  have "turnout (poll_of sample_ballot) = 0" by (simp add: turnout_def sample_poll)
  moreover have "\<exists>p. cast (poll_of sample_ballot) 50 sample_owner 1 = Some p"
    by (simp add: cast_def sample_ballot_ok sample_poll)
  ultimately show ?thesis
    using vote_accepted_iff [OF sh(1), of "sample_snapshot ''voting_v1'' sample_ballot" "''caller''" sample_owner 50 1 20000 False]
      sh(2,3) sample_domain(2) by (auto simp: sample_vote_snapshot sample_ballot_ok sample_poll)
qed

theorem vote_refines_poll_witness:
  "\<exists>sh r. ExecuteVotingV1Call toy_crypto (sample_tx ''count1'' (EncodeVotingU64 1) 9) sh [OP_STORE, OP_1]
     (sample_snapshot ''voting_v1'' sample_ballot) sample_owner ''caller'' 50 1 20000 False = Inr r \<and>
     cast (poll_of sample_ballot) 50 sample_owner (vote_choice r) = Some (poll_of (vote_state r))"
proof -
  let ?s = "sample_snapshot ''voting_v1'' sample_ballot"
  obtain sh where sh: "ValidateStatefulCallShape toy_crypto (sample_tx ''count1'' (EncodeVotingU64 1) 9) 0 ''f751'' 9 = Inr sh"
    "callValue sh = 0" "vote_call sh sample_ballot 1" using sample_vote_shape by blast
  have s: "IsCanonicalContractOutpoint (snap_root ?s)" "keys_distinct (snap_state ?s)" "state_within_limits (snap_state ?s)"
    by (simp_all add: sample_vote_snapshot sample_ballot_ok)
  have "may_vote sh sample_ballot sample_owner 50 1"
    using sh(2,3) sample_domain(2) by (simp add: may_vote_def sample_ballot_ok cast_def sample_poll)
  moreover have "length sample_ballot < MAX_KEYS_PER_DOMAIN" by (simp add: sample_ballot_def MAX_KEYS_PER_DOMAIN_def)
  ultimately obtain r where r: "ExecuteVotingV1Call toy_crypto (sample_tx ''count1'' (EncodeVotingU64 1) 9) sh [OP_STORE, OP_1]
      ?s sample_owner ''caller'' 50 1 20000 False = Inr r"
    using vote_exact [OF sh(1) s, of sample_owner "''caller''" 50 1 20000 False] by (auto simp: sample_vote_snapshot vote_gas_def)
  then show ?thesis using vote_refines_poll [OF sh(1) s r] by (auto simp: sample_vote_snapshot)
qed

subsection \<open>The end of a poll\<close>

text \<open>
  A poll dies at 124 votes. Once 124 votes are cast in all, or for one option, the little-endian
  number starts with the byte \<open>0x7c\<close>, which loading takes for the end of a checksum: the domain still
  loads, but the field comes back one byte short and the code rejects every further vote.
\<close>

theorem poll_dies_at_124:
  assumes "leveldb_ok L con" "db_readable L d" "domain_stored (con d) rt cur own ''voting_v1'' st"
    and "ballot_ok st" "turnout (poll_of st) = 124 \<or> (\<exists>i<poll_options (poll_of st). tally (poll_of st) i = 124)"
  shows "\<exists>s. LoadConfirmedStateDomain L d cur = Inr s \<and>
    (\<forall>C tx sh lock h addr now height limit hasChain.
       \<exists>e. ExecuteVotingV1Call C tx sh lock s h addr now height limit hasChain = Inl e)"
proof -
  obtain s where s: "LoadConfirmedStateDomain L d cur = Inr s" "keys_distinct (snap_state s)" "state_within_limits (snap_state s)"
    "map_of (snap_state s) = (\<lambda>k. map_option cut_value (map_of st k))"
    using stored_domain_loads [OF assms(1-3)] by blast
  have cut: "cut_value (EncodeVotingU64 124) = [0, 0, 0, 0, 0, 0, 0]" by code_simp
  have bad: "\<not> (\<exists>v. map_of (snap_state s) k = Some (EncodeVotingU64 v))" if "map_of st k = Some (EncodeVotingU64 124)" for k
  proof
    assume "\<exists>v. map_of (snap_state s) k = Some (EncodeVotingU64 v)"
    moreover have "map_of (snap_state s) k = Some [0, 0, 0, 0, 0, 0, 0]" by (simp only: s(4) that cut option.map)
    ultimately obtain v where "[0, 0, 0, 0, 0, 0, 0] = EncodeVotingU64 v" by auto
    then have "length ([0, 0, 0, 0, 0, 0, 0] :: bytes) = length (EncodeVotingU64 v)" by (simp only:)
    then show False by simp
  qed
  have no: "\<not> ballot_ok (snap_state s)"
  proof
    assume ok: "ballot_ok (snap_state s)"
    have "poll_options (poll_of (snap_state s)) = poll_options (poll_of st)"
    proof -
      have "map_of st ''numoptions'' = Some [word_of_nat (poll_options (poll_of st))]"
        "map_of (snap_state s) ''numoptions'' = Some [word_of_nat (poll_options (poll_of (snap_state s)))]"
        "poll_options (poll_of st) \<le> 10" "poll_options (poll_of (snap_state s)) \<le> 10"
        using assms(4) ok by (simp_all add: ballot_ok_def Let_def)
      moreover have "cut_value [b] = [b] \<or> cut_value [b] = []" for b :: byte
      proof (cases "b = 0x7c")
        case True
        have "cut_value [0x7c] = []" by code_simp
        then show ?thesis using True by simp
      qed (simp add: cut_value_id_iff)
      ultimately have "word_of_nat (poll_options (poll_of st)) = (word_of_nat (poll_options (poll_of (snap_state s))) :: byte)"
        using s(4) by (metis list.inject option.inject option.simps(9) list.distinct(1))
      then show ?thesis
        using unat_option_count \<open>poll_options (poll_of st) \<le> 10\<close> \<open>poll_options (poll_of (snap_state s)) \<le> 10\<close> by metis
    qed
    then have *: "\<exists>v. map_of (snap_state s) ''totalvotes'' = Some (EncodeVotingU64 v)"
      "\<exists>v. map_of (snap_state s) (''count'' @ dec_string i) = Some (EncodeVotingU64 v)" if "i < poll_options (poll_of st)" for i
      using ok that by (auto simp: ballot_ok_def Let_def)
    have "2 \<le> poll_options (poll_of st)" using assms(4) by (simp add: ballot_ok_def Let_def)
    then have pos: "0 < poll_options (poll_of st)" by linarith
    show False
    proof (cases "turnout (poll_of st) = 124")
      case True
      then have "map_of st ''totalvotes'' = Some (EncodeVotingU64 124)" using assms(4) by (simp add: ballot_ok_def Let_def)
      then show False using bad *(1) [OF pos] by blast
    next
      case False
      then obtain i where i: "i < poll_options (poll_of st)" "tally (poll_of st) i = 124" using assms(5) by blast
      then have "map_of st (''count'' @ dec_string i) = Some (EncodeVotingU64 (word_of_nat 124))"
        using assms(4) unfolding ballot_ok_def Let_def by metis
      then have "map_of st (''count'' @ dec_string i) = Some (EncodeVotingU64 124)" by simp
      then show False using bad *(2) [OF i(1)] by blast
    qed
  qed
  have "length (snap_state s) \<le> MAX_KEYS_PER_DOMAIN" using s(3) by (simp add: state_within_limits_def)
  then have bad_call: "vote_checks sh s h addr now \<noteq> Inr (c, n, t, cnt, tot)" for sh h addr now c n t cnt tot
    using no vote_checks_iff [OF s(2)] unfolding may_vote_def by blast
  have "\<exists>e. vote_checks sh s h addr now = Inl e" for sh h addr now
  proof (cases "vote_checks sh s h addr now")
    case (Inr x)
    obtain c n t cnt tot where "x = (c, n, t, cnt, tot)" by (cases x)
    then show ?thesis using Inr bad_call [of sh h addr now c n t cnt tot] by simp
  qed simp
  then have inl: "\<exists>e. vote_checks sh s h addr now = Inl e" for sh h addr now by blast
  have "\<exists>e. ExecuteVotingV1Call C tx sh lock s h addr now height limit hasChain = Inl e"
    for C tx sh lock h addr now height limit hasChain
  proof -
    obtain e where "vote_checks sh s h addr now = Inl e" using inl by blast
    then show ?thesis by (simp add: ExecuteVotingV1Call_def)
  qed
  then show ?thesis using s(1) by blast
qed

lemma many_votes:
  assumes "distinct hs" "\<forall>h\<in>set hs. IsCanonicalLowerHash160Hex h" "length hs \<le> 1000"
  shows "keys_distinct (foldr (after_vote 0) hs sample_ballot) \<and> state_within_limits (foldr (after_vote 0) hs sample_ballot) \<and>
    ballot_ok (foldr (after_vote 0) hs sample_ballot) \<and>
    poll_of (foldr (after_vote 0) hs sample_ballot) = (poll_of sample_ballot)\<lparr>poll_votes := (\<lambda>h. if h \<in> set hs then Some 0 else None)\<rparr>"
  using assms
proof (induction hs)
  case Nil
  then show ?case by (simp add: sample_ballot_ok sample_poll)
next
  case (Cons h hs)
  let ?st = "foldr (after_vote 0) hs sample_ballot"
  have IH: "keys_distinct ?st" "state_within_limits ?st" "ballot_ok ?st"
    "poll_of ?st = (poll_of sample_ballot)\<lparr>poll_votes := (\<lambda>h. if h \<in> set hs then Some 0 else None)\<rparr>"
    using Cons by simp_all
  have h: "IsCanonicalLowerHash160Hex h" "0 < poll_options (poll_of ?st)" "poll_votes (poll_of ?st) h = None"
    using Cons.prems by (simp_all add: IH(4) sample_poll)
  have "turnout (poll_of ?st) = card (set hs)" by (simp add: IH(4) turnout_def dom_def)
  then have "length ?st < MAX_KEYS_PER_DOMAIN"
    using ballot_length [OF IH(1,3)] Cons.prems distinct_card [of hs] by (simp add: IH(4) sample_poll MAX_KEYS_PER_DOMAIN_def)
  then have "state_within_limits (after_vote 0 h ?st)" using after_vote_limits [OF IH(1-3) h] by simp
  moreover have "keys_distinct (after_vote 0 h ?st)" using IH(1) by (simp add: after_vote_def)
  moreover have "poll_of (after_vote 0 h ?st) =
      (poll_of sample_ballot)\<lparr>poll_votes := (\<lambda>x. if x \<in> set (h # hs) then Some 0 else None)\<rparr>"
    unfolding after_vote_poll [OF h(1) le0] IH(4) by (auto simp: fun_eq_iff)
  ultimately show ?case using after_vote_ok [OF IH(1,3) h] by (simp del: poll.select_convs)
qed

definition sample_voters :: "nat \<Rightarrow> string list" where
  "sample_voters n = map (\<lambda>i. hex_encode (replicate 19 0 @ [word_of_nat i])) [0..<n]"

lemma sample_voters_ok: "n \<le> 256 \<Longrightarrow> distinct (sample_voters n)" "\<forall>h\<in>set (sample_voters n). IsCanonicalLowerHash160Hex h"
proof -
  show "\<forall>h\<in>set (sample_voters n). IsCanonicalLowerHash160Hex h"
    using hex_lower_encode by (auto simp: sample_voters_def IsCanonicalLowerHash160Hex_def hex_lower_def)
  assume n: "n \<le> 256"
  have w: "unat (word_of_nat i :: byte) = i" if "i < n" for i by (rule unat_word_of_nat_less) (use that n in simp)
  have "i = j" if "i < n" "j < n" "(word_of_nat i :: byte) = word_of_nat j" for i j
    using w that by metis
  then have "inj_on (\<lambda>i. hex_encode (replicate 19 0 @ [word_of_nat i])) {..<n}"
    unfolding inj_on_def hex_encode_inject append_same_eq list.inject append_eq_append_conv by blast
  then show "distinct (sample_voters n)" by (simp only: sample_voters_def distinct_map set_upt atLeast0LessThan distinct_upt simp_thms)
qed

theorem poll_dies_at_124_witness:
  "\<exists>st s. turnout (poll_of st) = 124 \<and>
     LoadConfirmedStateDomain mem_db (domain_rows sample_root sample_root sample_owner ''voting_v1'' st) sample_root = Inr s \<and>
     (\<forall>h. \<exists>e. ExecuteVotingV1Call toy_crypto (sample_tx ''count1'' (EncodeVotingU64 1) 9) undefined [OP_STORE, OP_1]
        s h ''caller'' 50 1 20000 False = Inl e)"
proof -
  define st where "st = foldr (after_vote 0) (sample_voters 124) sample_ballot"
  have len: "length (sample_voters 124) = 124" by (simp add: sample_voters_def)
  have d: "distinct (sample_voters 124)" by (rule sample_voters_ok(1)) simp
  have st: "keys_distinct st" "state_within_limits st" "ballot_ok st"
    "poll_of st = (poll_of sample_ballot)\<lparr>poll_votes := (\<lambda>h. if h \<in> set (sample_voters 124) then Some 0 else None)\<rparr>"
    using many_votes [OF d sample_voters_ok(2)] unfolding len st_def by simp_all
  have t: "turnout (poll_of st) = 124"
    using distinct_card [OF d] len by (simp add: st(4) turnout_def dom_def)
  have "st \<noteq> []" using ballot_length [OF st(1,3)] by auto
  then have "domain_stored (map_of (domain_rows sample_root sample_root sample_owner ''voting_v1'' st))
      sample_root sample_root sample_owner ''voting_v1'' st"
    by (intro rows_stored) (simp_all add: sample_domain st)
  from mem_db_ok mem_db_readable this st(3) disjI1 [OF t]
  have "\<exists>s. LoadConfirmedStateDomain mem_db (domain_rows sample_root sample_root sample_owner ''voting_v1'' st) sample_root = Inr s \<and>
    (\<forall>C (tx :: unit Transaction) sh lock h addr now height limit hasChain.
       \<exists>e. ExecuteVotingV1Call C tx sh lock s h addr now height limit hasChain = Inl e)"
    by (rule poll_dies_at_124 [where con = map_of and L = mem_db])
  then obtain s where "LoadConfirmedStateDomain mem_db (domain_rows sample_root sample_root sample_owner ''voting_v1'' st) sample_root = Inr s"
    "\<forall>C (tx :: unit Transaction) sh lock h addr now height limit hasChain.
       \<exists>e. ExecuteVotingV1Call C tx sh lock s h addr now height limit hasChain = Inl e" by (elim exE conjE)
  then show ?thesis by (intro exI [of _ st] exI [of _ s] conjI t) (simp_all only: simp_thms)
qed

end
