(* ===== verification/Token_Issuer.thy ===== *)
theory Token_Issuer
  imports Voting_Calls
begin

text \<open>
  The Token Issuer V1 family of \<open>src/src/contract_state_runtime.h\<close>: the check of a whole issuer state,
  the check of what a purchase changed, and the execution of a purchase. The specification is an issuer
  with a rate, a cap and a balance for every buyer. A state map is an association list; no result but
  the text of an error depends on its order.
\<close>

subsection \<open>The code\<close>

definition ReadTokenIssuerU64 :: "state_map \<Rightarrow> string \<Rightarrow> u64 option" where
  "ReadTokenIssuerU64 st key = ReadVotingU64 st key"

definition EncodeTokenIssuerU64 :: "u64 \<Rightarrow> bytes" where
  "EncodeTokenIssuerU64 v = EncodeVotingU64 v"

definition IsCanonicalTokenBalanceKey :: "string \<Rightarrow> bool" where
  "IsCanonicalTokenBalanceKey key \<longleftrightarrow>
     length key = 8 + 40 \<and> take 8 key = ''balance:'' \<and> IsCanonicalLowerHash160Hex (drop 8 key)"

definition token_name_char :: "byte \<Rightarrow> bool" where
  "token_name_char c \<longleftrightarrow>
     0x41 \<le> c \<and> c \<le> 0x5a \<or> 0x61 \<le> c \<and> c \<le> 0x7a \<or> 0x30 \<le> c \<and> c \<le> 0x39 \<or> c = 0x5f \<or> c = 0x2d"

definition issuer_core_key :: "string \<Rightarrow> bool" where
  "issuer_core_key key \<longleftrightarrow>
     key = ''token_name'' \<or> key = ''exchange_rate'' \<or> key = ''max_supply'' \<or> key = ''total_issued''"

fun balance_loop :: "state_map \<Rightarrow> state_map \<Rightarrow> u64 \<Rightarrow> string + u64" where
  "balance_loop st [] balanceSum = Inr balanceSum"
| "balance_loop st ((key, val) # rest) balanceSum =
     (if issuer_core_key key then balance_loop st rest balanceSum
      else if \<not> IsCanonicalTokenBalanceKey key \<or> length val \<noteq> 8
      then Inl ''Token Issuer V1 confirmed state contains unknown/malformed key''
      else case ReadTokenIssuerU64 st key of
        None \<Rightarrow> Inl ''Token Issuer V1 balance sum overflow/malformed balance''
      | Some bal \<Rightarrow>
          if bal > u64_max - balanceSum
          then Inl ''Token Issuer V1 balance sum overflow/malformed balance''
          else balance_loop st rest (balanceSum + bal))"

definition ValidateTokenIssuerV1State :: "state_map \<Rightarrow> string + u64 \<times> u64 \<times> u64" where
  "ValidateTokenIssuerV1State st =
     (case (map_of st ''token_name'', map_of st ''exchange_rate'', map_of st ''max_supply'', map_of st ''total_issued'') of
        (Some name, Some rateBytes, Some maxBytes, Some issuedBytes) \<Rightarrow>
          if name = [] \<or> length name > 10 \<or> length rateBytes \<noteq> 8 \<or> length maxBytes \<noteq> 8 \<or> length issuedBytes \<noteq> 8
          then Inl ''Token Issuer V1 confirmed state is missing/malformed core fields''
          else if \<not> list_all token_name_char name then Inl ''Token Issuer V1 token_name is non-canonical''
          else (case (ReadTokenIssuerU64 st ''exchange_rate'', ReadTokenIssuerU64 st ''max_supply'',
                      ReadTokenIssuerU64 st ''total_issued'') of
                  (Some rate, Some cap, Some issued) \<Rightarrow>
                    if rate = 0 then Inl ''Token Issuer V1 numeric state is malformed''
                    else if cap \<noteq> 0 \<and> issued > cap then Inl ''Token Issuer V1 total_issued exceeds max_supply''
                    else (case balance_loop st st 0 of
                            Inl e \<Rightarrow> Inl e
                          | Inr balanceSum \<Rightarrow>
                              if balanceSum \<noteq> issued
                              then Inl ''Token Issuer V1 total_issued does not equal persisted balance sum''
                              else Inr (rate, cap, issued))
                | _ \<Rightarrow> Inl ''Token Issuer V1 numeric state is malformed'')
      | _ \<Rightarrow> Inl ''Token Issuer V1 confirmed state is missing/malformed core fields'')"

text \<open>How many keys a call changed; any other key than the two admitted ones is an error.\<close>

fun changed_loop :: "state_map \<Rightarrow> string \<Rightarrow> state_map \<Rightarrow> nat \<Rightarrow> string + nat" where
  "changed_loop prior balanceKey [] changedKeys = Inr changedKeys"
| "changed_loop prior balanceKey ((key, val) # rest) changedKeys =
     (if map_of prior key = Some val then changed_loop prior balanceKey rest changedKeys
      else if key \<noteq> ''total_issued'' \<and> key \<noteq> balanceKey
      then Inl ''Token Issuer V1 call changed a non-issuance state key''
      else changed_loop prior balanceKey rest (changedKeys + 1))"

definition ValidateTokenIssuerV1CallDelta ::
    "state_map \<Rightarrow> state_map \<Rightarrow> string \<Rightarrow> bytes \<Rightarrow> bytes \<Rightarrow> string + unit" where
  "ValidateTokenIssuerV1CallDelta prior after balanceKey expectedTotal expectedBalance =
     (if \<not> IsCanonicalTokenBalanceKey balanceKey \<or> length expectedTotal \<noteq> 8 \<or> length expectedBalance \<noteq> 8
      then Inl ''Token Issuer V1 delta expectation is malformed''
      else if map_of after ''total_issued'' \<noteq> Some expectedTotal \<or> map_of after balanceKey \<noteq> Some expectedBalance
      then Inl ''Token Issuer V1 exact total/balance delta values are missing''
      else if \<not> list_all (\<lambda>e. map_of after (fst e) \<noteq> None) prior
      then Inl ''Token Issuer V1 state deletion is not permitted''
      else case changed_loop prior balanceKey after 0 of
        Inl e \<Rightarrow> Inl e
      | Inr changedKeys \<Rightarrow>
          if changedKeys \<noteq> 2
          then Inl ''Token Issuer V1 call must change exactly total_issued and buyer balance''
          else Inr ())"

record TokenIssuerCallExecutionResult =
  issue_state :: state_map
  issue_gasUsed :: u64
  issue_callValue :: u64
  issue_minted :: u64
  issue_newTotalIssued :: u64
  issue_balanceKey :: string

record issue_plan =
  plan_rate :: u64
  plan_cap :: u64
  plan_minted :: u64
  plan_newTotal :: u64
  plan_newBalance :: u64

text \<open>The checks and the checked arithmetic before the machine runs.\<close>

definition issue_checks ::
    "StatefulCallShapeResult \<Rightarrow> ConfirmedStateDomainSnapshot \<Rightarrow> string \<Rightarrow> string \<Rightarrow> string + issue_plan" where
  "issue_checks callShape snapshot callerHash160 callerAddress =
     (if snap_family snapshot \<noteq> ''token_issuer_v1'' then Inl ''confirmed state root is not Token Issuer V1''
      else if \<not> IsCanonicalLowerHash160Hex callerHash160 \<or> callerAddress = []
      then Inl ''Token Issuer V1 requires a canonical signed P2PKH buyer''
      else if callValue callShape = 0 then Inl ''Token Issuer V1 requires positive economic call value''
      else if logicalKey callShape \<noteq> ''total_issued''
      then Inl ''Token Issuer V1 calldata must target total_issued''
      else case ValidateTokenIssuerV1State (snap_state snapshot) of
        Inl e \<Rightarrow> Inl e
      | Inr (rate, cap, oldTotal) \<Rightarrow>
          if callValue callShape > u64_max div rate then Inl ''Token Issuer V1 callValue * exchange_rate overflow''
          else
            let minted = callValue callShape * rate in
            if minted = 0 \<or> minted > u64_max - oldTotal then Inl ''Token Issuer V1 total_issued addition overflow''
            else
              let newTotal = oldTotal + minted in
              if cap \<noteq> 0 \<and> newTotal > cap then Inl ''Token Issuer V1 purchase exceeds max_supply''
              else if call_value callShape \<noteq> EncodeTokenIssuerU64 newTotal
              then Inl ''Token Issuer V1 committed total_issued must equal checked issuance result''
              else case (if map_of (snap_state snapshot) (''balance:'' @ callerHash160) = None then Some 0
                         else ReadTokenIssuerU64 (snap_state snapshot) (''balance:'' @ callerHash160)) of
                None \<Rightarrow> Inl ''Token Issuer V1 existing buyer balance is malformed''
              | Some oldBalance \<Rightarrow>
                  if minted > u64_max - oldBalance then Inl ''Token Issuer V1 buyer balance addition overflow''
                  else Inr \<lparr>plan_rate = rate, plan_cap = cap, plan_minted = minted, plan_newTotal = newTotal,
                            plan_newBalance = oldBalance + minted\<rparr>)"

text \<open>The update of the balance behind the machine, and its gas.\<close>

definition issue_commit :: "state_map \<Rightarrow> u64 \<Rightarrow> u64 \<Rightarrow> string \<Rightarrow> bytes \<Rightarrow> string + state_map \<times> u64" where
  "issue_commit st used limit balanceKey newBalanceBytes =
     (case (CanApplyStateWrite st balanceKey newBalanceBytes,
            ComputeStoreGas (length balanceKey) (length newBalanceBytes)) of
        (Some _, Some balanceGas) \<Rightarrow>
          if used > limit \<or> balanceGas > limit - used
          then Inl ''Token Issuer V1 deterministic balance update exceeds gas limit''
          else Inr (AList.update balanceKey newBalanceBytes st, used + balanceGas)
      | _ \<Rightarrow> Inl ''Token Issuer V1 buyer balance update exceeds state/gas limits'')"

definition ExecuteTokenIssuerV1Call ::
    "crypto \<Rightarrow> 'j Transaction \<Rightarrow> StatefulCallShapeResult \<Rightarrow> bytes \<Rightarrow> ConfirmedStateDomainSnapshot \<Rightarrow> string \<Rightarrow>
       string \<Rightarrow> u32 \<Rightarrow> u32 \<Rightarrow> u64 \<Rightarrow> bool \<Rightarrow> string + TokenIssuerCallExecutionResult" where
  "ExecuteTokenIssuerV1Call C tx callShape lockingScript snapshot callerHash160 callerAddress now height limit hasChain =
     (case issue_checks callShape snapshot callerHash160 callerAddress of
        Inl e \<Rightarrow> Inl e
      | Inr plan \<Rightarrow>
          let expectedTotal = EncodeTokenIssuerU64 (plan_newTotal plan);
              balanceKey = ''balance:'' @ callerHash160;
              newBalanceBytes = EncodeTokenIssuerU64 (plan_newBalance plan) in
          (case run_call C tx callShape lockingScript snapshot callerAddress now height limit hasChain of
             None \<Rightarrow> Inl ''Token Issuer V1 VM execution returned false''
           | Some (st, used) \<Rightarrow>
               if map_of st ''total_issued'' \<noteq> Some expectedTotal
               then Inl ''Token Issuer V1 VM did not commit the expected total_issued''
               else case issue_commit st used limit balanceKey newBalanceBytes of
                 Inl e \<Rightarrow> Inl e
               | Inr (st', gasTotal) \<Rightarrow>
                   (case ValidateTokenIssuerV1CallDelta (snap_state snapshot) st' balanceKey expectedTotal newBalanceBytes of
                      Inl e \<Rightarrow> Inl (''Token Issuer V1 delta invariant failed: '' @ e)
                    | Inr _ \<Rightarrow>
                        (case ValidateTokenIssuerV1State st' of
                           Inl e \<Rightarrow> Inl (''Token Issuer V1 post-call invariant failed: '' @ e)
                         | Inr (checkedRate, checkedMax, checkedTotal) \<Rightarrow>
                             if checkedRate \<noteq> plan_rate plan \<or> checkedMax \<noteq> plan_cap plan \<or>
                                checkedTotal \<noteq> plan_newTotal plan
                             then Inl ''Token Issuer V1 immutable/numeric state changed unexpectedly''
                             else Inr \<lparr>issue_state = st', issue_gasUsed = gasTotal,
                                       issue_callValue = callValue callShape, issue_minted = plan_minted plan,
                                       issue_newTotalIssued = plan_newTotal plan, issue_balanceKey = balanceKey\<rparr>))))"

subsection \<open>The issuer it stands for\<close>

record issuer =
  iss_rate :: nat
  iss_cap :: nat
  iss_balances :: "string \<rightharpoonup> nat"

definition issued_sum :: "issuer \<Rightarrow> nat" where
  "issued_sum i = (\<Sum>h\<in>dom (iss_balances i). the (iss_balances i h))"

text \<open>A buyer pays, and gets the value times the rate, as long as the cap is kept.\<close>

definition buy :: "issuer \<Rightarrow> string \<Rightarrow> nat \<Rightarrow> issuer option" where
  "buy i h paid =
     (let minted = paid * iss_rate i; has = (case iss_balances i h of None \<Rightarrow> 0 | Some b \<Rightarrow> b) in
      if 0 < paid \<and> issued_sum i + minted < 2 ^ 64 \<and> (iss_cap i \<noteq> 0 \<longrightarrow> issued_sum i + minted \<le> iss_cap i)
      then Some (i\<lparr>iss_balances := (iss_balances i)(h \<mapsto> has + minted)\<rparr>) else None)"

definition read_nat :: "state_map \<Rightarrow> string \<Rightarrow> nat" where
  "read_nat st k = (case ReadVotingU64 st k of Some v \<Rightarrow> unat v | None \<Rightarrow> 0)"

definition balances_of :: "state_map \<Rightarrow> string \<rightharpoonup> nat" where
  "balances_of st h =
     (if IsCanonicalLowerHash160Hex h then map_option unat (ReadVotingU64 st (''balance:'' @ h)) else None)"

definition issuer_of :: "state_map \<Rightarrow> issuer" where
  "issuer_of st = \<lparr>iss_rate = read_nat st ''exchange_rate'', iss_cap = read_nat st ''max_supply'', iss_balances = balances_of st\<rparr>"

definition balance_ok :: "string \<times> bytes \<Rightarrow> bool" where
  "balance_ok e \<longleftrightarrow> (\<exists>h v. IsCanonicalLowerHash160Hex h \<and> e = (''balance:'' @ h, EncodeVotingU64 v))"

definition issuer_ok :: "state_map \<Rightarrow> bool" where
  "issuer_ok st \<longleftrightarrow>
     (let i = issuer_of st in
        (\<exists>t. map_of st ''token_name'' = Some t \<and> t \<noteq> [] \<and> length t \<le> 10 \<and> list_all token_name_char t) \<and>
        map_of st ''exchange_rate'' = Some (EncodeVotingU64 (word_of_nat (iss_rate i))) \<and> iss_rate i \<noteq> 0 \<and>
        map_of st ''max_supply'' = Some (EncodeVotingU64 (word_of_nat (iss_cap i))) \<and>
        map_of st ''total_issued'' = Some (EncodeVotingU64 (word_of_nat (issued_sum i))) \<and>
        issued_sum i < 2 ^ 64 \<and> (iss_cap i \<noteq> 0 \<longrightarrow> issued_sum i \<le> iss_cap i) \<and>
        (\<forall>e\<in>set st. issuer_core_key (fst e) \<or> balance_ok e))"

subsection \<open>Sums of balances\<close>

lemma sum_map_of:
  fixes vs :: "('k \<times> nat) list"
  assumes "keys_distinct vs"
  shows "(\<Sum>h\<in>dom (map_of vs). the (map_of vs h)) = (\<Sum>(h, b)\<leftarrow>vs. b)"
proof -
  have i: "inj_on fst (set vs)" and d: "distinct vs" using assms by (simp_all add: distinct_map)
  have "(\<Sum>h\<in>dom (map_of vs). the (map_of vs h)) = (\<Sum>e\<in>set vs. the (map_of vs (fst e)))"
    by (simp add: dom_map_of_conv_image_fst sum.reindex [OF i])
  also have "\<dots> = (\<Sum>e\<in>set vs. snd e)" by (rule sum.cong) (auto simp: map_of_is_SomeI [OF assms])
  also have "\<dots> = (\<Sum>e\<leftarrow>vs. snd e)" by (rule sum_list_distinct_conv_sum_set [OF d, symmetric])
  finally show ?thesis by (simp add: case_prod_unfold)
qed

lemma issued_sum_upd:
  assumes "finite (dom (iss_balances i))"
  shows "issued_sum (i\<lparr>iss_balances := (iss_balances i)(h \<mapsto> (case iss_balances i h of None \<Rightarrow> 0 | Some b \<Rightarrow> b) + m)\<rparr>) =
    issued_sum i + m"
proof -
  let ?b = "iss_balances i"
  have rest: "(\<Sum>x\<in>dom ?b - {h}. the ((?b(h \<mapsto> v)) x)) = (\<Sum>x\<in>dom ?b - {h}. the (?b x))" for v
    by (rule sum.cong) auto
  have "(\<Sum>x\<in>dom (?b(h \<mapsto> v)). the ((?b(h \<mapsto> v)) x)) = v + (\<Sum>x\<in>dom ?b - {h}. the (?b x))" for v
    using assms rest [of v] by (simp add: sum.insert_remove del: fun_upd_apply) simp
  moreover have "issued_sum i = (case ?b h of None \<Rightarrow> 0 | Some b \<Rightarrow> b) + (\<Sum>x\<in>dom ?b - {h}. the (?b x))"
    unfolding issued_sum_def using assms sum.remove [of "dom ?b" h "\<lambda>x. the (?b x)"]
    by (cases "?b h") (auto simp: domIff)
  ultimately show ?thesis by (simp add: issued_sum_def del: fun_upd_apply)
qed

subsection \<open>The check is exact\<close>

definition holdings :: "state_map \<Rightarrow> state_map" where
  "holdings st = filter (\<lambda>e. \<not> issuer_core_key (fst e)) st"

lemma balance_key_iff:
  "IsCanonicalTokenBalanceKey k \<longleftrightarrow> (\<exists>h. IsCanonicalLowerHash160Hex h \<and> k = ''balance:'' @ h)"
proof
  assume a: "IsCanonicalTokenBalanceKey k"
  then have "k = ''balance:'' @ drop 8 k"
    using append_take_drop_id [of 8 k] by (simp add: IsCanonicalTokenBalanceKey_def)
  then show "\<exists>h. IsCanonicalLowerHash160Hex h \<and> k = ''balance:'' @ h"
    using a by (auto simp: IsCanonicalTokenBalanceKey_def)
qed (auto simp: IsCanonicalTokenBalanceKey_def IsCanonicalLowerHash160Hex_def)

lemma le_val_encode: "length v = 8 \<Longrightarrow> EncodeVotingU64 (le_val v) = v"
  using le_bytes_le_val [of 8 v, where 'a = 64] by (simp add: EncodeVotingU64_def)

lemma balance_ok_iff:
  "balance_ok (k, v) \<longleftrightarrow> IsCanonicalTokenBalanceKey k \<and> length v = 8"
proof
  assume "balance_ok (k, v)"
  then show "IsCanonicalTokenBalanceKey k \<and> length v = 8" by (auto simp: balance_ok_def balance_key_iff)
next
  assume a: "IsCanonicalTokenBalanceKey k \<and> length v = 8"
  then obtain h where "IsCanonicalLowerHash160Hex h" "k = ''balance:'' @ h" by (auto simp: balance_key_iff)
  moreover have "v = EncodeVotingU64 (le_val v)" using a le_val_encode [of v] by simp
  ultimately show "balance_ok (k, v)" unfolding balance_ok_def by blast
qed

definition held :: "string \<times> bytes \<Rightarrow> nat" where
  "held e = unat (le_val (snd e) :: u64)"

lemma balance_loop_Inr:
  assumes "\<forall>e\<in>set es. map_of st (fst e) = Some (snd e)"
  shows "balance_loop st es s = Inr s' \<longleftrightarrow>
    (\<forall>e\<in>set (holdings es). balance_ok e) \<and> unat s' = unat s + (\<Sum>e\<leftarrow>holdings es. held e)"
  using assms
proof (induction es arbitrary: s)
  case Nil
  show ?case by (auto simp: holdings_def word_unat_eq_iff)
next
  case (Cons e es)
  obtain k v where e: "e = (k, v)" by (cases e)
  have IH: "balance_loop st es t = Inr s' \<longleftrightarrow>
    (\<forall>e\<in>set (holdings es). balance_ok e) \<and> unat s' = unat t + (\<Sum>e\<leftarrow>holdings es. held e)" for t
    using Cons by simp
  consider (core) "issuer_core_key k" | (bad) "\<not> issuer_core_key k" "\<not> balance_ok (k, v)"
    | (ok) "\<not> issuer_core_key k" "balance_ok (k, v)" by blast
  then show ?case
  proof cases
    case core
    then show ?thesis using IH by (simp add: e holdings_def)
  next
    case bad
    then have "\<exists>x. balance_loop st ((k, v) # es) s = Inl x" by (auto simp: balance_ok_iff)
    then show ?thesis using bad by (auto simp: e holdings_def)
  next
    case ok
    then have p: "IsCanonicalTokenBalanceKey k" "length v = 8" by (simp_all add: balance_ok_iff)
    have "map_of st k = Some v" using Cons.prems by (simp add: e)
    then have rd: "ReadTokenIssuerU64 st k = Some (le_val v)"
      using p(2) by (simp add: ReadTokenIssuerU64_def ReadVotingU64_def)
    have loop: "balance_loop st (e # es) s =
        (if le_val v > u64_max - s then Inl ''Token Issuer V1 balance sum overflow/malformed balance''
         else balance_loop st es (s + le_val v))"
      using ok(1) p rd by (simp add: e)
    have hs: "holdings (e # es) = e # holdings es" using ok(1) by (simp add: e holdings_def)
    show ?thesis
    proof (cases "le_val v \<le> u64_max - s")
      case True
      then have "unat (s + le_val v) = unat s + unat (le_val v :: u64)"
        using unat_checked_add [of "le_val v" s] by (simp add: add.commute)
      then show ?thesis unfolding loop hs using True ok(2) by (auto simp: IH held_def e not_less)
    next
      case False
      then have "2 ^ 64 \<le> unat s + unat (le_val v :: u64)" using checked_add_iff [of "le_val v" s] by simp
      then have "unat s' < unat s + (\<Sum>x\<leftarrow>holdings (e # es). held x)"
        unfolding hs using unsigned_less [of s', where 'a = nat] by (simp add: held_def e)
      then show ?thesis unfolding loop using False by (auto simp: not_le)
    qed
  qed
qed

text \<open>The balances as a list.\<close>

definition balance_list :: "state_map \<Rightarrow> (string \<times> nat) list" where
  "balance_list st = map (\<lambda>e. (drop 8 (fst e), held e)) (holdings st)"

lemma balance_key_core: "\<not> issuer_core_key (''balance:'' @ h)"
  by (simp add: issuer_core_key_def)

lemma balance_list_of:
  assumes "keys_distinct st" "\<forall>e\<in>set (holdings st). balance_ok e"
  shows "keys_distinct (balance_list st)" "map_of (balance_list st) = balances_of st"
proof -
  have d: "keys_distinct (holdings st)" using assms(1) unfolding holdings_def by (rule distinct_map_filter)
  have k: "fst e = ''balance:'' @ drop 8 (fst e)" if "e \<in> set (holdings st)" for e
    using assms(2) that by (auto simp: balance_ok_def)
  have "map fst (balance_list st) = map (drop 8) (map fst (holdings st))" by (simp add: balance_list_def)
  moreover have "inj_on (drop 8) (set (map fst (holdings st)))"
  proof (rule inj_onI)
    fix x y assume "x \<in> set (map fst (holdings st))" "y \<in> set (map fst (holdings st))" "drop 8 x = drop 8 y"
    moreover have "x = ''balance:'' @ drop 8 x" if "x \<in> set (map fst (holdings st))" for x using k that by auto
    ultimately show "x = y" by metis
  qed
  ultimately show db: "keys_distinct (balance_list st)" using d by (simp only: distinct_map [of _ "map fst _"] simp_thms)
  show "map_of (balance_list st) = balances_of st"
  proof
    fix h
    have hs: "(''balance:'' @ h, v) \<in> set (holdings st) \<longleftrightarrow> map_of st (''balance:'' @ h) = Some v" for v
      using assms(1) balance_key_core [of h] by (simp add: holdings_def)
    have mk: "map_of (balance_list st) h = Some c \<longleftrightarrow> (\<exists>v. map_of st (''balance:'' @ h) = Some v \<and> c = unat (le_val v :: u64))" for c
    proof -
      have "map_of (balance_list st) h = Some c \<longleftrightarrow> (h, c) \<in> set (balance_list st)" using db by simp
      also have "\<dots> \<longleftrightarrow> (\<exists>v. (''balance:'' @ h, v) \<in> set (holdings st) \<and> c = unat (le_val v :: u64))"
        using k by (force simp: balance_list_def held_def)
      finally show ?thesis by (simp only: hs)
    qed
    have can: "IsCanonicalLowerHash160Hex h \<and> length v = 8" if "map_of st (''balance:'' @ h) = Some v" for v
    proof -
      have "balance_ok (''balance:'' @ h, v)" using that hs assms(2) by blast
      then show ?thesis by (auto simp: balance_ok_def)
    qed
    show "map_of (balance_list st) h = balances_of st h"
    proof (cases "map_of st (''balance:'' @ h)")
      case None
      then have "map_of (balance_list st) h \<noteq> Some c" for c using mk by simp
      then show ?thesis using None by (auto simp: balances_of_def ReadVotingU64_def)
    next
      case (Some v)
      then have "map_of (balance_list st) h = Some (unat (le_val v :: u64))" using mk by blast
      then show ?thesis using Some can [OF Some] by (simp add: balances_of_def ReadVotingU64_def)
    qed
  qed
qed

lemma issued_sum_holdings:
  assumes "keys_distinct st" "\<forall>e\<in>set (holdings st). balance_ok e"
  shows "issued_sum (issuer_of st) = (\<Sum>e\<leftarrow>holdings st. held e)" "finite (dom (balances_of st))"
proof -
  note b = balance_list_of [OF assms]
  show "issued_sum (issuer_of st) = (\<Sum>e\<leftarrow>holdings st. held e)"
    using sum_map_of [OF b(1)] unfolding b(2)
    by (simp add: issued_sum_def issuer_of_def balance_list_def case_prod_unfold comp_def)
  show "finite (dom (balances_of st))" using finite_dom_map_of [of "balance_list st"] by (simp only: b(2))
qed

lemma read_nat_Some: "map_of st k = Some (EncodeVotingU64 v) \<Longrightarrow> read_nat st k = unat v"
proof -
  assume "map_of st k = Some (EncodeVotingU64 v)"
  then have "ReadVotingU64 st k = Some v" by (simp only: read_u64_iff)
  then show ?thesis by (simp add: read_nat_def)
qed

lemma holdings_all:
  "(\<forall>e\<in>set (holdings st). balance_ok e) \<longleftrightarrow> (\<forall>e\<in>set st. issuer_core_key (fst e) \<or> balance_ok e)"
  unfolding holdings_def by (simp add: Ball_def) blast

lemma balance_sum:
  assumes "keys_distinct st" "\<forall>e\<in>set (holdings st). balance_ok e"
  shows "balance_loop st st 0 = Inr s \<longleftrightarrow> unat s = issued_sum (issuer_of st)"
  using balance_loop_Inr [of st st 0 s] assms issued_sum_holdings(1) [OF assms] by simp

lemma issuer_validate_iff:
  assumes "keys_distinct st"
  shows "ValidateTokenIssuerV1State st = Inr (r, c, t) \<longleftrightarrow> issuer_ok st \<and>
    r = word_of_nat (iss_rate (issuer_of st)) \<and> c = word_of_nat (iss_cap (issuer_of st)) \<and>
    t = word_of_nat (issued_sum (issuer_of st))"
proof
  assume "ValidateTokenIssuerV1State st = Inr (r, c, t)"
  then obtain name where v: "map_of st ''token_name'' = Some name" "name \<noteq> []" "length name \<le> 10" "list_all token_name_char name"
    "ReadVotingU64 st ''exchange_rate'' = Some r" "r \<noteq> 0" "ReadVotingU64 st ''max_supply'' = Some c"
    "ReadVotingU64 st ''total_issued'' = Some t" "c \<noteq> 0 \<longrightarrow> t \<le> c" "balance_loop st st 0 = Inr t"
    by (auto simp: ValidateTokenIssuerV1State_def ReadTokenIssuerU64_def not_less
        split: option.splits if_splits sum.splits)
  have m: "map_of st ''exchange_rate'' = Some (EncodeVotingU64 r)" "map_of st ''max_supply'' = Some (EncodeVotingU64 c)"
    "map_of st ''total_issued'' = Some (EncodeVotingU64 t)" using v(5,7,8) by (simp_all only: read_u64_iff)
  have h: "\<forall>e\<in>set (holdings st). balance_ok e" using v(10) balance_loop_Inr [of st st 0 t] assms by simp
  have n: "iss_rate (issuer_of st) = unat r" "iss_cap (issuer_of st) = unat c"
    using read_nat_Some [OF m(1)] read_nat_Some [OF m(2)] by (simp_all add: issuer_of_def)
  have s: "issued_sum (issuer_of st) = unat t" using v(10) balance_sum [OF assms h] by simp
  have "unat r \<noteq> 0" using v(6) by (simp add: unat_eq_0)
  moreover have "unat c \<noteq> 0 \<longrightarrow> unat t \<le> unat c" using v(9) by (auto simp: word_le_nat_alt)
  moreover have "unat t < 2 ^ 64" using unsigned_less [of t, where 'a = nat] by simp
  ultimately show "issuer_ok st \<and> r = word_of_nat (iss_rate (issuer_of st)) \<and> c = word_of_nat (iss_cap (issuer_of st)) \<and>
    t = word_of_nat (issued_sum (issuer_of st))"
    using v(1-4) m h unfolding issuer_ok_def Let_def n s of_nat_unat_id holdings_all by blast
next
  assume a: "issuer_ok st \<and> r = word_of_nat (iss_rate (issuer_of st)) \<and> c = word_of_nat (iss_cap (issuer_of st)) \<and>
    t = word_of_nat (issued_sum (issuer_of st))"
  then have h: "\<forall>e\<in>set (holdings st). balance_ok e" by (auto simp: issuer_ok_def Let_def holdings_all)
  have m: "map_of st ''exchange_rate'' = Some (EncodeVotingU64 r)" "map_of st ''max_supply'' = Some (EncodeVotingU64 c)"
    "map_of st ''total_issued'' = Some (EncodeVotingU64 t)" using a by (simp_all add: issuer_ok_def Let_def)
  have n: "iss_rate (issuer_of st) = unat r" "iss_cap (issuer_of st) = unat c"
    using read_nat_Some [OF m(1)] read_nat_Some [OF m(2)] by (simp_all add: issuer_of_def)
  have s: "issued_sum (issuer_of st) = unat t"
    using a unat_word_of_nat_less [of "issued_sum (issuer_of st)", where 'a = 64] by (simp add: issuer_ok_def Let_def)
  have "r \<noteq> 0" "c \<noteq> 0 \<longrightarrow> t \<le> c"
    using a n s by (auto simp: issuer_ok_def Let_def word_le_nat_alt unat_eq_0 simp del: unat_of_nat)
  moreover have "ReadVotingU64 st ''exchange_rate'' = Some r" "ReadVotingU64 st ''max_supply'' = Some c"
    "ReadVotingU64 st ''total_issued'' = Some t" using m by (simp_all only: read_u64_iff)
  moreover obtain name where "map_of st ''token_name'' = Some name" "name \<noteq> []" "length name \<le> 10" "list_all token_name_char name"
    using a by (auto simp: issuer_ok_def Let_def)
  moreover have "balance_loop st st 0 = Inr t" using s balance_sum [OF assms h] by simp
  ultimately show "ValidateTokenIssuerV1State st = Inr (r, c, t)"
    using m by (auto simp: ValidateTokenIssuerV1State_def ReadTokenIssuerU64_def not_less)
qed

end
