(* ===== verification/Token_Issuer_Calls.thy ===== *)
theory Token_Issuer_Calls
  imports Token_Issuer
begin

text \<open>
  What a purchase from a token issuer does: one \<open>buy\<close> on the issuer behind the state, its exact
  conditions and gas, the conservation of the issued total, and how a stored issuer stops working as
  soon as one of its numbers holds the byte \<open>0x7c\<close>.
\<close>

subsection \<open>One purchase\<close>

definition minted_by :: "StatefulCallShapeResult \<Rightarrow> state_map \<Rightarrow> nat" where
  "minted_by callShape st = unat (callValue callShape) * iss_rate (issuer_of st)"

definition holding :: "state_map \<Rightarrow> string \<Rightarrow> nat" where
  "holding st h = (case balances_of st h of None \<Rightarrow> 0 | Some b \<Rightarrow> b)"

definition may_buy :: "StatefulCallShapeResult \<Rightarrow> state_map \<Rightarrow> string \<Rightarrow> bool" where
  "may_buy callShape st h \<longleftrightarrow>
     IsCanonicalLowerHash160Hex h \<and> issuer_ok st \<and> logicalKey callShape = ''total_issued'' \<and>
     call_value callShape = EncodeVotingU64 (word_of_nat (issued_sum (issuer_of st) + minted_by callShape st)) \<and>
     buy (issuer_of st) h (unat (callValue callShape)) \<noteq> None"

lemma issuer_finite:
  assumes "keys_distinct st" "issuer_ok st"
  shows "finite (dom (iss_balances (issuer_of st)))"
  using assms issued_sum_holdings(2) [OF assms(1)] by (simp add: issuer_of_def issuer_ok_def Let_def holdings_all)

lemma holding_le:
  assumes "keys_distinct st" "issuer_ok st"
  shows "holding st h \<le> issued_sum (issuer_of st)"
proof (cases "balances_of st h")
  case (Some b)
  then have "h \<in> dom (iss_balances (issuer_of st))" by (auto simp: issuer_of_def)
  then have "the (iss_balances (issuer_of st) h) \<le> issued_sum (issuer_of st)"
    unfolding issued_sum_def by (rule member_le_sum) (simp_all add: issuer_finite [OF assms])
  then show ?thesis using Some by (simp add: holding_def issuer_of_def)
qed (simp add: holding_def)

text \<open>The numbers of an issuer as the words of its state.\<close>

lemma issuer_words:
  assumes "keys_distinct st" "issuer_ok st"
  shows "unat (word_of_nat (iss_rate (issuer_of st)) :: u64) = iss_rate (issuer_of st)"
    "unat (word_of_nat (iss_cap (issuer_of st)) :: u64) = iss_cap (issuer_of st)"
    "unat (word_of_nat (issued_sum (issuer_of st)) :: u64) = issued_sum (issuer_of st)"
    "unat (word_of_nat (holding st h) :: u64) = holding st h"
proof -
  have "read_nat st k < 2 ^ 64" for k
  proof (cases "ReadVotingU64 st k")
    case (Some v)
    then show ?thesis using unsigned_less [of v, where 'a = nat] by (simp add: read_nat_def)
  qed (simp add: read_nat_def)
  moreover have "issued_sum (issuer_of st) < 2 ^ 64" using assms(2) by (simp add: issuer_ok_def Let_def)
  ultimately show "unat (word_of_nat (iss_rate (issuer_of st)) :: u64) = iss_rate (issuer_of st)"
    "unat (word_of_nat (iss_cap (issuer_of st)) :: u64) = iss_cap (issuer_of st)"
    "unat (word_of_nat (issued_sum (issuer_of st)) :: u64) = issued_sum (issuer_of st)"
    "unat (word_of_nat (holding st h) :: u64) = holding st h"
    using holding_le [OF assms, of h] by (auto simp: issuer_of_def intro!: unat_word_of_nat_less)
qed

lemma old_balance:
  assumes "keys_distinct st" "issuer_ok st" "IsCanonicalLowerHash160Hex h"
  shows "(if map_of st (''balance:'' @ h) = None then Some 0 else ReadTokenIssuerU64 st (''balance:'' @ h)) =
    Some (word_of_nat (holding st h))"
proof (cases "map_of st (''balance:'' @ h)")
  case None
  then have "holding st h = 0" using assms(3) by (simp add: holding_def balances_of_def ReadVotingU64_def)
  then show ?thesis using None by simp
next
  case (Some v)
  then have "(''balance:'' @ h, v) \<in> set st" by (rule map_of_SomeD)
  then have "issuer_core_key (''balance:'' @ h) \<or> balance_ok (''balance:'' @ h, v)"
    using assms(2) by (auto simp: issuer_ok_def Let_def)
  then have "length v = 8" using balance_key_core [of h] by (auto simp: balance_ok_def)
  then have rd: "ReadVotingU64 st (''balance:'' @ h) = Some (le_val v)" using Some by (simp add: ReadVotingU64_def)
  then have "holding st h = unat (le_val v :: u64)" using assms(3) by (simp add: holding_def balances_of_def)
  then have "word_of_nat (holding st h) = (le_val v :: u64)" by simp
  then show ?thesis using rd Some by (simp add: ReadTokenIssuerU64_def)
qed

definition plan_for :: "StatefulCallShapeResult \<Rightarrow> state_map \<Rightarrow> string \<Rightarrow> issue_plan" where
  "plan_for callShape st h =
     (let i = issuer_of st; m = minted_by callShape st in
      \<lparr>plan_rate = word_of_nat (iss_rate i), plan_cap = word_of_nat (iss_cap i), plan_minted = word_of_nat m,
       plan_newTotal = word_of_nat (issued_sum i + m), plan_newBalance = word_of_nat (holding st h + m)\<rparr>)"

text \<open>The checked arithmetic is the arithmetic of the issuer.\<close>

lemma mint_words:
  fixes v r t :: u64
  assumes "r \<noteq> 0" "v \<noteq> 0"
  shows "v \<le> u64_max div r \<and> v * r \<noteq> 0 \<and> v * r \<le> u64_max - t \<longleftrightarrow> unat t + unat v * unat r < 2 ^ 64"
    (is "?L \<longleftrightarrow> ?R")
proof -
  have pos: "0 < r" using assms(1) by (simp add: word_neq_0_conv)
  have nz: "0 < unat v * unat r" using assms by (simp add: unat_gt_0)
  show ?thesis
  proof
    assume l: ?L
    then have "unat (v * r) = unat v * unat r" using unat_checked_mult [OF pos] by blast
    then show ?R using l checked_add_iff [of "v * r" t] by simp
  next
    assume r: ?R
    then have v: "v \<le> u64_max div r" using checked_mult_iff [OF pos, of v] by simp
    then have u: "unat (v * r) = unat v * unat r" by (rule unat_checked_mult [OF pos])
    have "v * r \<noteq> 0"
    proof
      assume "v * r = 0"
      then have "unat (v * r) = 0" by (simp only: unat_0)
      then have "unat v * unat r = 0" unfolding u .
      with gr_implies_not0 [OF nz] show False by (rule notE)
    qed
    moreover have "(2 :: nat) ^ LENGTH(64) = 2 ^ 64" by simp
    then have "unat (v * r) + unat t < 2 ^ LENGTH(64)" unfolding u by (subst add.commute) (simp only: r)
    then have "v * r \<le> u64_max - t" by (simp only: checked_add_iff)
    ultimately show ?L using v by blast
  qed
qed

lemma buy_iff:
  "buy i h paid \<noteq> None \<longleftrightarrow> 0 < paid \<and> issued_sum i + paid * iss_rate i < 2 ^ 64 \<and>
     (iss_cap i \<noteq> 0 \<longrightarrow> issued_sum i + paid * iss_rate i \<le> iss_cap i)"
  by (simp add: buy_def Let_def)

lemma buy_nothing: "buy i h 0 = None"
  by (simp add: buy_def)

lemma issue_checks_iff:
  assumes "keys_distinct (snap_state s)"
  shows "issue_checks sh s h addr = Inr plan \<longleftrightarrow>
    snap_family s = ''token_issuer_v1'' \<and> addr \<noteq> [] \<and> may_buy sh (snap_state s) h \<and> plan = plan_for sh (snap_state s) h"
    (is "_ \<longleftrightarrow> ?R")
proof (cases "snap_family s = ''token_issuer_v1'' \<and> addr \<noteq> [] \<and> IsCanonicalLowerHash160Hex h \<and> callValue sh \<noteq> 0 \<and>
    logicalKey sh = ''total_issued'' \<and> issuer_ok (snap_state s)")
  case False
  then have "\<not> ?R" by (auto simp: may_buy_def buy_nothing)
  moreover have "issue_checks sh s h addr \<noteq> Inr plan"
  proof
    assume l: "issue_checks sh s h addr = Inr plan"
    then have f: "snap_family s = ''token_issuer_v1''" "IsCanonicalLowerHash160Hex h" "addr \<noteq> []" "callValue sh \<noteq> 0"
      "logicalKey sh = ''total_issued''" by (auto simp: issue_checks_def split: if_splits)
    from l f obtain x where "ValidateTokenIssuerV1State (snap_state s) = Inr x"
      by (auto simp: issue_checks_def split: sum.splits)
    then obtain r c t where "ValidateTokenIssuerV1State (snap_state s) = Inr (r, c, t)" by (cases x) auto
    then have "issuer_ok (snap_state s)" using issuer_validate_iff [OF assms] by blast
    then show False using False f by blast
  qed
  ultimately show ?thesis by blast
next
  case True
  let ?st = "snap_state s" and ?i = "issuer_of (snap_state s)"
  define r c t b :: u64 where "r = word_of_nat (iss_rate ?i)" and "c = word_of_nat (iss_cap ?i)"
    and "t = word_of_nat (issued_sum ?i)" and "b = word_of_nat (holding ?st h)"
  have ok: "issuer_ok ?st" using True by blast
  note w = issuer_words(1-3) [OF assms ok, folded r_def c_def t_def] issuer_words(4) [OF assms ok, of h, folded b_def]
  have rate: "r \<noteq> 0" using w(1) ok by (auto simp: issuer_ok_def Let_def)
  have v: "ValidateTokenIssuerV1State ?st = Inr (r, c, t)"
    using issuer_validate_iff [OF assms] ok by (simp add: r_def c_def t_def)
  note old = old_balance [OF assms ok, of h, folded b_def]
  have le: "unat b \<le> unat t" using holding_le [OF assms ok, of h] w by simp
  have m: "minted_by sh ?st = unat (callValue sh) * unat r" by (simp add: minted_by_def w)
  show ?thesis
  proof (cases "unat t + unat (callValue sh) * unat r < 2 ^ 64")
    case fits: True
    then have g: "callValue sh \<le> u64_max div r" "callValue sh * r \<noteq> 0" "callValue sh * r \<le> u64_max - t"
      using mint_words [OF rate, of "callValue sh" t] True by blast+
    have um: "unat (callValue sh * r) = unat (callValue sh) * unat r"
      using unat_checked_mult [of r "callValue sh"] g(1) rate by (simp add: word_neq_0_conv)
    have gb: "callValue sh * r \<le> u64_max - b"
      using fits le um checked_add_iff [of "callValue sh * r" b] by simp
    have ut: "unat (t + callValue sh * r) = unat t + unat (callValue sh) * unat r"
      using unat_checked_add [OF g(3)] um by (simp add: add.commute)
    have wt: "word_of_nat (issued_sum ?i + minted_by sh ?st) = t + callValue sh * r"
      using um by (simp add: t_def m flip: um)
    have wb: "word_of_nat (holding ?st h + minted_by sh ?st) = b + callValue sh * r"
      "word_of_nat (minted_by sh ?st) = callValue sh * r"
      using um by (simp_all add: b_def m flip: um)
    have cap: "c \<noteq> 0 \<and> t + callValue sh * r > c \<longleftrightarrow> \<not> (iss_cap ?i \<noteq> 0 \<longrightarrow> issued_sum ?i + minted_by sh ?st \<le> iss_cap ?i)"
      using ut w(2,3) m unat_eq_0 [of c] by (auto simp: word_less_nat_alt)
    have buy: "buy ?i h (unat (callValue sh)) \<noteq> None \<longleftrightarrow> \<not> (c \<noteq> 0 \<and> t + callValue sh * r > c)"
      unfolding cap buy_iff using True fits w m by (auto simp: minted_by_def unat_gt_0)
    show ?thesis
      using True old buy wt wb g gb
      by (auto simp: issue_checks_def v Let_def not_less not_le may_buy_def plan_for_def EncodeTokenIssuerU64_def
          r_def [symmetric] c_def [symmetric])
  next
    case False
    then have no: "\<not> (callValue sh \<le> u64_max div r \<and> callValue sh * r \<noteq> 0 \<and> callValue sh * r \<le> u64_max - t)"
      using mint_words [OF rate, of "callValue sh" t] True by blast
    have "buy ?i h (unat (callValue sh)) = None"
      using False w m buy_iff [of ?i h "unat (callValue sh)"] by (auto simp: minted_by_def)
    then show ?thesis
      using True no by (auto simp: issue_checks_def v Let_def not_le may_buy_def)
  qed
qed

subsection \<open>The state after a purchase\<close>

definition minted_state :: "state_map \<Rightarrow> nat \<Rightarrow> state_map" where
  "minted_state st m = AList.update ''total_issued'' (EncodeVotingU64 (word_of_nat (issued_sum (issuer_of st) + m))) st"

definition after_buy :: "string \<Rightarrow> nat \<Rightarrow> state_map \<Rightarrow> state_map" where
  "after_buy h m st =
     AList.update (''balance:'' @ h) (EncodeVotingU64 (word_of_nat (holding st h + m))) (minted_state st m)"

lemma after_buy_map:
  "map_of (after_buy h m st) k =
     (if k = ''balance:'' @ h then Some (EncodeVotingU64 (word_of_nat (holding st h + m)))
      else if k = ''total_issued'' then Some (EncodeVotingU64 (word_of_nat (issued_sum (issuer_of st) + m)))
      else map_of st k)"
  by (simp add: after_buy_def minted_state_def)

lemma after_buy_distinct: "keys_distinct st \<Longrightarrow> keys_distinct (after_buy h m st)"
  by (simp add: after_buy_def minted_state_def)

lemma read_encoded: "map_of st k = Some (EncodeVotingU64 v) \<Longrightarrow> ReadVotingU64 st k = Some v"
  by (simp only: read_u64_iff)

lemma after_buy_issuer:
  assumes "IsCanonicalLowerHash160Hex h" "holding st h + m < 2 ^ 64"
  shows "issuer_of (after_buy h m st) = (issuer_of st)\<lparr>iss_balances := (iss_balances (issuer_of st))(h \<mapsto> holding st h + m)\<rparr>"
proof -
  have "balances_of (after_buy h m st) x = ((balances_of st)(h \<mapsto> holding st h + m)) x" for x
  proof (cases "x = h")
    case True
    have "ReadVotingU64 (after_buy h m st) (''balance:'' @ h) = Some (word_of_nat (holding st h + m))"
      by (rule read_encoded) (simp only: after_buy_map if_True simp_thms)
    then show ?thesis
      using True assms unat_word_of_nat_less [of "holding st h + m", where 'a = 64] by (simp add: balances_of_def)
  next
    case False
    then have "map_of (after_buy h m st) (''balance:'' @ x) = map_of st (''balance:'' @ x)" by (simp add: after_buy_map)
    then show ?thesis using False by (simp add: balances_of_def ReadVotingU64_def)
  qed
  moreover have "map_of (after_buy h m st) ''exchange_rate'' = map_of st ''exchange_rate''"
    "map_of (after_buy h m st) ''max_supply'' = map_of st ''max_supply''" by (simp_all add: after_buy_map)
  ultimately show ?thesis by (auto simp: issuer_of_def read_nat_def ReadVotingU64_def fun_eq_iff)
qed

lemma after_buy_sum:
  assumes "keys_distinct st" "issuer_ok st" "IsCanonicalLowerHash160Hex h" "issued_sum (issuer_of st) + m < 2 ^ 64"
  shows "issued_sum (issuer_of (after_buy h m st)) = issued_sum (issuer_of st) + m"
proof -
  have "holding st h + m < 2 ^ 64" using holding_le [OF assms(1,2), of h] assms(4) by linarith
  then show ?thesis
    using after_buy_issuer [OF assms(3)] issued_sum_upd [OF issuer_finite [OF assms(1,2)], of h m]
    by (simp add: holding_def issuer_of_def)
qed

lemma after_buy_ok:
  assumes "keys_distinct st" "issuer_ok st" "IsCanonicalLowerHash160Hex h"
    "issued_sum (issuer_of st) + m < 2 ^ 64" "iss_cap (issuer_of st) \<noteq> 0 \<longrightarrow> issued_sum (issuer_of st) + m \<le> iss_cap (issuer_of st)"
  shows "issuer_ok (after_buy h m st)"
proof -
  let ?a = "after_buy h m st"
  have "holding st h + m < 2 ^ 64" using holding_le [OF assms(1,2), of h] assms(4) by linarith
  then have i: "iss_rate (issuer_of ?a) = iss_rate (issuer_of st)" "iss_cap (issuer_of ?a) = iss_cap (issuer_of st)"
    using after_buy_issuer [OF assms(3)] by simp_all
  have same: "map_of ?a ''token_name'' = map_of st ''token_name''" "map_of ?a ''exchange_rate'' = map_of st ''exchange_rate''"
    "map_of ?a ''max_supply'' = map_of st ''max_supply''"
    "map_of ?a ''total_issued'' = Some (EncodeVotingU64 (word_of_nat (issued_sum (issuer_of st) + m)))"
    by (simp_all add: after_buy_map)
  have "issuer_core_key (fst e) \<or> balance_ok e" if e: "e \<in> set ?a" for e
  proof -
    obtain k v where kv: "e = (k, v)" by (cases e)
    have mv: "map_of ?a k = Some v" using e kv after_buy_distinct [OF assms(1)] by simp
    consider "k = ''balance:'' @ h" | "k = ''total_issued''" | "map_of st k = Some v"
      using mv by (auto simp: after_buy_map split: if_splits)
    then show ?thesis
    proof cases
      case 1
      then have "v = EncodeVotingU64 (word_of_nat (holding st h + m))"
        using mv by (simp only: after_buy_map if_True simp_thms option.inject)
      then show ?thesis using 1 kv assms(3) unfolding balance_ok_def by blast
    next
      case 2
      then show ?thesis by (simp add: kv issuer_core_key_def)
    next
      case 3
      then have "(k, v) \<in> set st" by (rule map_of_SomeD)
      then show ?thesis using assms(2) kv by (auto simp: issuer_ok_def Let_def)
    qed
  qed
  then show ?thesis
    using assms(2,4,5) after_buy_sum [OF assms(1-4)] unfolding issuer_ok_def Let_def i same by simp
qed

subsection \<open>The size of an issuer\<close>

lemma issuer_entry_bytes:
  assumes "issuer_ok st" "map_of st k = Some v"
  shows "entry_bytes k v \<le> 104" "k \<noteq> []"
proof -
  have "(k, v) \<in> set st" using assms(2) by (rule map_of_SomeD)
  then consider (core) "issuer_core_key k" | (bal) "balance_ok (k, v)"
    using assms(1) by (auto simp: issuer_ok_def Let_def)
  then have "entry_bytes k v \<le> 104 \<and> k \<noteq> []"
  proof cases
    case core
    then show ?thesis using assms by (auto simp: issuer_core_key_def issuer_ok_def Let_def entry_bytes_def)
  next
    case bal
    then show ?thesis by (auto simp: balance_ok_iff IsCanonicalTokenBalanceKey_def entry_bytes_def)
  qed
  then show "entry_bytes k v \<le> 104" "k \<noteq> []" by simp_all
qed

lemma issuer_limits:
  assumes "keys_distinct st" "issuer_ok st"
  shows "state_within_limits st \<longleftrightarrow> length st \<le> MAX_KEYS_PER_DOMAIN"
proof
  assume len: "length st \<le> MAX_KEYS_PER_DOMAIN"
  have e: "entry_bytes k v \<le> 104 \<and> k \<noteq> []" if "(k, v) \<in> set st" for k v
    using issuer_entry_bytes [OF assms(2), of k v] that assms(1) by simp
  have "(\<Sum>(k, v)\<leftarrow>st. entry_bytes k v) \<le> (\<Sum>e\<leftarrow>st. 104)" by (rule sum_list_mono) (use e in auto)
  also have "\<dots> = length st * 104" by (simp add: sum_list_triv)
  finally have "state_bytes st \<le> MAX_TOTAL_STATE_BYTES" using len by (simp add: state_bytes_def state_limit_defs)
  moreover have "entry_ok k v" if "(k, v) \<in> set st" for k v
    using e [OF that] by (auto simp: entry_ok_def IsLogicalKeyAllowed_def IsValueAllowed_def entry_bytes_def state_limit_defs)
  ultimately show "state_within_limits st" using len by (auto simp: state_within_limits_def)
qed (simp add: state_within_limits_def)

lemma issuer_core_present:
  assumes "issuer_ok st"
  shows "map_of st ''token_name'' \<noteq> None" "map_of st ''exchange_rate'' \<noteq> None" "map_of st ''max_supply'' \<noteq> None"
    "map_of st ''total_issued'' \<noteq> None"
  using assms by (auto simp: issuer_ok_def Let_def)

lemma issuer_length:
  assumes "keys_distinct st" "issuer_ok st"
  shows "length st = 4 + card (dom (iss_balances (issuer_of st)))"
proof -
  have h: "\<forall>e\<in>set (holdings st). balance_ok e" using assms(2) by (simp add: issuer_ok_def Let_def holdings_all)
  have "length (filter (\<lambda>e. issuer_core_key (fst e)) st) = card (set (map fst (filter (\<lambda>e. issuer_core_key (fst e)) st)))"
    using distinct_card [OF distinct_map_filter [OF assms(1)], of "\<lambda>e. issuer_core_key (fst e)"] by simp
  also have "set (map fst (filter (\<lambda>e. issuer_core_key (fst e)) st)) = {''token_name'', ''exchange_rate'', ''max_supply'', ''total_issued''}"
  proof -
    let ?S = "{''token_name'', ''exchange_rate'', ''max_supply'', ''total_issued''}"
    have core: "issuer_core_key k \<longleftrightarrow> k \<in> ?S" for k by (simp only: issuer_core_key_def insert_iff empty_iff simp_thms)
    have present: "?S \<subseteq> fst ` set st" using issuer_core_present [OF assms(2)] by (simp add: map_of_eq_None_iff)
    have "fst ` {x \<in> set st. fst x \<in> A} = A \<inter> fst ` set st" for A by blast
    then show ?thesis unfolding set_map set_filter core using present by (simp only: Int_absorb2)
  qed
  finally have "length (filter (\<lambda>e. issuer_core_key (fst e)) st) = 4" by simp
  moreover have "length (holdings st) = card (dom (balances_of st))"
    using card_map_of(1) [OF balance_list_of(1) [OF assms(1) h]] unfolding balance_list_of(2) [OF assms(1) h]
    by (simp add: balance_list_def)
  ultimately show ?thesis
    using sum_length_filter_compl [of "\<lambda>e. issuer_core_key (fst e)" st] by (simp add: holdings_def issuer_of_def)
qed

lemma after_buy_length:
  assumes "issuer_ok st" "IsCanonicalLowerHash160Hex h"
  shows "length (after_buy h m st) = (if iss_balances (issuer_of st) h = None then Suc (length st) else length st)"
proof -
  have "map_of st (''balance:'' @ h) = None \<longleftrightarrow> iss_balances (issuer_of st) h = None"
  proof -
    have "length v = 8" if "map_of st (''balance:'' @ h) = Some v" for v
    proof -
      have "(''balance:'' @ h, v) \<in> set st" using that by (rule map_of_SomeD)
      then have "balance_ok (''balance:'' @ h, v)"
        using assms(1) balance_key_core [of h] unfolding issuer_ok_def Let_def by (metis fst_conv)
      then show ?thesis by (simp only: balance_ok_iff)
    qed
    then show ?thesis using assms(2) by (auto simp: issuer_of_def balances_of_def ReadVotingU64_def split: option.splits)
  qed
  moreover have "map_of (minted_state st m) (''balance:'' @ h) = map_of st (''balance:'' @ h)"
    by (simp add: minted_state_def)
  moreover have "length (minted_state st m) = length st"
    unfolding minted_state_def length_update using issuer_core_present(4) [OF assms(1)] by simp
  ultimately show ?thesis unfolding after_buy_def length_update by simp
qed

subsection \<open>What a purchase call does\<close>

lemma changed_loop_Inr:
  "changed_loop prior key es n = Inr c \<longleftrightarrow>
     (\<forall>e\<in>set es. map_of prior (fst e) = Some (snd e) \<or> fst e = ''total_issued'' \<or> fst e = key) \<and>
     c = n + length (filter (\<lambda>e. map_of prior (fst e) \<noteq> Some (snd e)) es)"
  by (induction prior key es n rule: changed_loop.induct) auto

lemma word_of_nat_differs:
  assumes "a + m < 2 ^ 64" "0 < m"
  shows "(word_of_nat (a + m) :: u64) \<noteq> word_of_nat a"
proof
  assume "(word_of_nat (a + m) :: u64) = word_of_nat a"
  then have "unat (word_of_nat (a + m) :: u64) = unat (word_of_nat a :: u64)" by (simp only:)
  moreover have "unat (word_of_nat (a + m) :: u64) = a + m" "unat (word_of_nat a :: u64) = a"
    by (rule unat_word_of_nat_less, use assms in simp)+
  ultimately show False using assms(2) by linarith
qed

text \<open>A purchase changes exactly the total and the balance of the buyer.\<close>

lemma buy_delta:
  assumes "keys_distinct st" "issuer_ok st" "IsCanonicalLowerHash160Hex h" "0 < m" "issued_sum (issuer_of st) + m < 2 ^ 64"
  shows "ValidateTokenIssuerV1CallDelta st (after_buy h m st) (''balance:'' @ h)
    (EncodeVotingU64 (word_of_nat (issued_sum (issuer_of st) + m))) (EncodeVotingU64 (word_of_nat (holding st h + m))) = Inr ()"
proof -
  let ?a = "after_buy h m st" and ?k = "''balance:'' @ h"
  have hm: "holding st h + m < 2 ^ 64" using holding_le [OF assms(1,2), of h] assms(5) by linarith
  have dk: "keys_distinct ?a" using assms(1) by (rule after_buy_distinct)
  have key: "IsCanonicalTokenBalanceKey ?k" using assms(3) by (auto simp: balance_key_iff)
  have total_changed: "map_of st ''total_issued'' \<noteq> Some (EncodeVotingU64 (word_of_nat (issued_sum (issuer_of st) + m)))"
    using assms(2) word_of_nat_differs [OF assms(5,4)] by (auto simp: issuer_ok_def Let_def)
  have bal_changed: "map_of st ?k \<noteq> Some (EncodeVotingU64 (word_of_nat (holding st h + m)))"
  proof
    assume m: "map_of st ?k = Some (EncodeVotingU64 (word_of_nat (holding st h + m)))"
    then have "ReadTokenIssuerU64 st ?k = Some (word_of_nat (holding st h + m))"
      unfolding ReadTokenIssuerU64_def by (rule read_encoded)
    then have "(word_of_nat (holding st h + m) :: u64) = word_of_nat (holding st h)"
      using old_balance [OF assms(1-3)] m by simp
    then show False using word_of_nat_differs [OF hm assms(4)] by blast
  qed
  have ch: "map_of st k = Some v \<longleftrightarrow> k \<noteq> ''total_issued'' \<and> k \<noteq> ?k" if "map_of ?a k = Some v" for k v
    using that total_changed bal_changed by (auto simp: after_buy_map split: if_splits)
  have loop: "changed_loop st ?k ?a 0 = Inr 2"
  proof -
    have c: "map_of st (fst e) = Some (snd e) \<longleftrightarrow> fst e \<noteq> ''total_issued'' \<and> fst e \<noteq> ?k" if "e \<in> set ?a" for e
      using ch [of "fst e" "snd e"] that dk by simp
    have "length (filter (\<lambda>e. map_of st (fst e) \<noteq> Some (snd e)) ?a) =
        card (set (map fst (filter (\<lambda>e. map_of st (fst e) \<noteq> Some (snd e)) ?a)))"
      using distinct_card [OF distinct_map_filter [OF dk], of "\<lambda>e. map_of st (fst e) \<noteq> Some (snd e)"] by simp
    also have "set (map fst (filter (\<lambda>e. map_of st (fst e) \<noteq> Some (snd e)) ?a)) = {''total_issued'', ?k}"
    proof -
      have "{''total_issued'', ?k} \<subseteq> fst ` set ?a"
      proof -
        have "map_of ?a ''total_issued'' \<noteq> None" "map_of ?a ?k \<noteq> None" by (auto simp: after_buy_map)
        then show ?thesis by (simp add: map_of_eq_None_iff)
      qed
      moreover have "{x \<in> set ?a. map_of st (fst x) \<noteq> Some (snd x)} = {x \<in> set ?a. fst x \<in> {''total_issued'', ?k}}"
        using c by blast
      moreover have "fst ` {x \<in> set ?a. fst x \<in> A} = A \<inter> fst ` set ?a" for A by blast
      ultimately show ?thesis unfolding set_map set_filter by (simp only: Int_absorb2)
    qed
    also have "card {''total_issued'', ?k} = 2" by simp
    finally have "length (filter (\<lambda>e. map_of st (fst e) \<noteq> Some (snd e)) ?a) = 2" .
    then show ?thesis using c unfolding changed_loop_Inr by fastforce
  qed
  have "map_of ?a (fst e) \<noteq> None" if "e \<in> set st" for e
  proof -
    have "map_of st (fst e) \<noteq> None" using that by (simp add: map_of_eq_None_iff)
    then show ?thesis by (auto simp: after_buy_map)
  qed
  then have "list_all (\<lambda>e. map_of ?a (fst e) \<noteq> None) st" by (simp add: list_all_iff)
  moreover have "map_of ?a ''total_issued'' = Some (EncodeVotingU64 (word_of_nat (issued_sum (issuer_of st) + m)))"
    "map_of ?a ?k = Some (EncodeVotingU64 (word_of_nat (holding st h + m)))" by (simp_all add: after_buy_map)
  ultimately show ?thesis using key loop unfolding ValidateTokenIssuerV1CallDelta_def by simp
qed

text \<open>The gas of a purchase: the machine and the balance.\<close>

definition issue_gas :: nat where
  "issue_gas = 15625"

lemma issue_anchor_gas: "anchor_gas ''total_issued'' (EncodeVotingU64 v) = 4225"
proof -
  have "EncodeVotingU64 v \<noteq> []" using encode_length [of v] by (cases "EncodeVotingU64 v") simp_all
  then show ?thesis by (simp add: anchor_gas_def push_gas_def)
qed

lemma issue_store_gas: "ComputeStoreGas 48 8 = Some 11400"
  by code_simp

lemma two_charges:
  fixes limit :: u64
  shows "\<not> (4225 > limit \<or> 11400 > limit - 4225) \<longleftrightarrow> issue_gas \<le> unat limit"
proof (cases "4225 \<le> limit")
  case True
  then have "unat (limit - 4225) = unat limit - 4225" by (simp add: unat_sub)
  then show ?thesis using True by (auto simp: word_less_nat_alt word_le_nat_alt not_less issue_gas_def)
next
  case False
  then show ?thesis by (auto simp: not_le word_less_nat_alt issue_gas_def)
qed

definition has_room :: "state_map \<Rightarrow> string \<Rightarrow> bool" where
  "has_room st h \<longleftrightarrow> iss_balances (issuer_of st) h \<noteq> None \<or> card (dom (iss_balances (issuer_of st))) < 4092"

lemma may_buy_parts:
  assumes "may_buy sh st h"
  shows "IsCanonicalLowerHash160Hex h" "issuer_ok st" "logicalKey sh = ''total_issued''"
    "call_value sh = EncodeVotingU64 (word_of_nat (issued_sum (issuer_of st) + minted_by sh st))"
    "0 < minted_by sh st" "issued_sum (issuer_of st) + minted_by sh st < 2 ^ 64"
    "iss_cap (issuer_of st) \<noteq> 0 \<longrightarrow> issued_sum (issuer_of st) + minted_by sh st \<le> iss_cap (issuer_of st)" "callValue sh \<noteq> 0"
proof -
  have b: "buy (issuer_of st) h (unat (callValue sh)) \<noteq> None" using assms by (simp add: may_buy_def)
  note p = iffD1 [OF buy_iff b]
  show "IsCanonicalLowerHash160Hex h" and ok: "issuer_ok st" and "logicalKey sh = ''total_issued''"
    and "call_value sh = EncodeVotingU64 (word_of_nat (issued_sum (issuer_of st) + minted_by sh st))"
    using assms by (simp_all add: may_buy_def)
  have "iss_rate (issuer_of st) \<noteq> 0" using ok by (simp add: issuer_ok_def Let_def)
  then show "0 < minted_by sh st" using p by (simp add: minted_by_def)
  show "issued_sum (issuer_of st) + minted_by sh st < 2 ^ 64" "callValue sh \<noteq> 0"
    "iss_cap (issuer_of st) \<noteq> 0 \<longrightarrow> issued_sum (issuer_of st) + minted_by sh st \<le> iss_cap (issuer_of st)"
    using p by (auto simp: minted_by_def)
qed

lemma after_buy_limits:
  assumes "keys_distinct st" "state_within_limits st" "may_buy sh st h"
  shows "state_within_limits (after_buy h (minted_by sh st) st) \<longleftrightarrow> has_room st h"
    "state_within_limits (minted_state st (minted_by sh st))"
proof -
  note m = may_buy_parts [OF assms(3)]
  have "state_within_limits (after_buy h (minted_by sh st) st) \<longleftrightarrow>
      length (after_buy h (minted_by sh st) st) \<le> MAX_KEYS_PER_DOMAIN"
    by (rule issuer_limits [OF after_buy_distinct [OF assms(1)] after_buy_ok [OF assms(1) m(2,1,6,7)]])
  moreover have "length st = 4 + card (dom (iss_balances (issuer_of st)))" by (rule issuer_length [OF assms(1) m(2)])
  moreover have "length st \<le> MAX_KEYS_PER_DOMAIN" using assms(2) by (simp add: state_within_limits_def)
  ultimately show "state_within_limits (after_buy h (minted_by sh st) st) \<longleftrightarrow> has_room st h"
    by (auto simp: after_buy_length [OF m(2,1)] has_room_def MAX_KEYS_PER_DOMAIN_def)
  have "map_of st ''total_issued'' = Some (EncodeVotingU64 (word_of_nat (issued_sum (issuer_of st))))"
    using m(2) by (simp add: issuer_ok_def Let_def)
  then show "state_within_limits (minted_state st (minted_by sh st))"
    unfolding minted_state_def by (rule refresh_limits(1) [OF assms(1,2)]) simp
qed

lemma issue_commit_exact:
  assumes "keys_distinct st" "state_within_limits st" "may_buy sh st h"
  shows "issue_commit (minted_state st (minted_by sh st)) 4225 limit (''balance:'' @ h)
      (EncodeVotingU64 (word_of_nat (holding st h + minted_by sh st))) = Inr x \<longleftrightarrow>
    has_room st h \<and> issue_gas \<le> unat limit \<and> x = (after_buy h (minted_by sh st) st, 15625)"
proof -
  let ?m = "minted_by sh st"
  have dk: "keys_distinct (minted_state st ?m)" using assms(1) by (simp add: minted_state_def)
  have len: "length (''balance:'' @ h) = 48" using may_buy_parts(1) [OF assms(3)] by (simp add: IsCanonicalLowerHash160Hex_def)
  have room: "CanApplyStateWrite (minted_state st ?m) (''balance:'' @ h) (EncodeVotingU64 (word_of_nat (holding st h + ?m))) \<noteq> None
      \<longleftrightarrow> has_room st h"
    using CanApplyStateWrite_eq [OF dk after_buy_limits(2) [OF assms]] after_buy_limits(1) [OF assms]
    by (simp add: after_buy_def)
  show ?thesis
    unfolding issue_commit_def len encode_length issue_store_gas after_buy_def [symmetric]
    using room two_charges [of limit] by (auto split: option.splits)
qed

lemma issue_run:
  assumes "ValidateStatefulCallShape C tx 0 lockHex locked = Inr sh" "IsCanonicalContractOutpoint (snap_root s)"
    "keys_distinct (snap_state s)" "state_within_limits (snap_state s)" "may_buy sh (snap_state s) h"
  shows "run_call C tx sh [OP_STORE, OP_1] s addr now height limit hasChain =
    (if 4225 \<le> unat (effective_limit limit) then Some (minted_state (snap_state s) (minted_by sh (snap_state s)), 4225) else None)"
proof -
  note m = may_buy_parts [OF assms(5)]
  have g: "anchor_gas (logicalKey sh) (call_value sh) = 4225" unfolding m(3,4) by (rule issue_anchor_gas)
  have w: "AList.update (logicalKey sh) (call_value sh) (snap_state s) = minted_state (snap_state s) (minted_by sh (snap_state s))"
    unfolding m(3,4) minted_state_def ..
  have "CanApplyStateWrite (snap_state s) (logicalKey sh) (call_value sh) \<noteq> None"
    using CanApplyStateWrite_eq [OF assms(3,4)] after_buy_limits(2) [OF assms(3-5)] by (simp add: w)
  then show ?thesis using run_call_exact [OF assms(1,2)] by (simp add: g w)
qed

definition issue_result :: "StatefulCallShapeResult \<Rightarrow> state_map \<Rightarrow> string \<Rightarrow> TokenIssuerCallExecutionResult" where
  "issue_result sh st h =
     \<lparr>issue_state = after_buy h (minted_by sh st) st, issue_gasUsed = 15625, issue_callValue = callValue sh,
      issue_minted = word_of_nat (minted_by sh st),
      issue_newTotalIssued = word_of_nat (issued_sum (issuer_of st) + minted_by sh st), issue_balanceKey = ''balance:'' @ h\<rparr>"

lemma issue_exact:
  assumes "ValidateStatefulCallShape C tx 0 lockHex locked = Inr sh" "IsCanonicalContractOutpoint (snap_root s)"
    and "keys_distinct (snap_state s)" "state_within_limits (snap_state s)"
  shows "ExecuteTokenIssuerV1Call C tx sh [OP_STORE, OP_1] s h addr now height limit hasChain = Inr r \<longleftrightarrow>
    snap_family s = ''token_issuer_v1'' \<and> addr \<noteq> [] \<and> may_buy sh (snap_state s) h \<and> has_room (snap_state s) h \<and>
    issue_gas \<le> unat limit \<and> r = issue_result sh (snap_state s) h"
    (is "?E = Inr r \<longleftrightarrow> ?R")
proof (cases "snap_family s = ''token_issuer_v1'' \<and> addr \<noteq> [] \<and> may_buy sh (snap_state s) h")
  case False
  then have "issue_checks sh s h addr \<noteq> Inr plan" for plan using issue_checks_iff [OF assms(3)] by blast
  then obtain e where "issue_checks sh s h addr = Inl e" by (cases "issue_checks sh s h addr") blast+
  then have "?E \<noteq> Inr r" by (simp add: ExecuteTokenIssuerV1Call_def)
  then show ?thesis using False by blast
next
  case True
  let ?st = "snap_state s" and ?m = "minted_by sh (snap_state s)"
  have buy: "may_buy sh ?st h" using True by blast
  note m = may_buy_parts [OF buy]
  have checks: "issue_checks sh s h addr = Inr (plan_for sh ?st h)" using True issue_checks_iff [OF assms(3)] by blast
  have key: "map_of (minted_state ?st ?m) ''total_issued'' = Some (EncodeVotingU64 (word_of_nat (issued_sum (issuer_of ?st) + ?m)))"
    by (simp only: minted_state_def map_of_update fun_upd_same)
  have plan: "EncodeTokenIssuerU64 (plan_newTotal (plan_for sh ?st h)) = EncodeVotingU64 (word_of_nat (issued_sum (issuer_of ?st) + ?m))"
    "EncodeTokenIssuerU64 (plan_newBalance (plan_for sh ?st h)) = EncodeVotingU64 (word_of_nat (holding ?st h + ?m))"
    by (simp_all add: plan_for_def EncodeTokenIssuerU64_def Let_def)
  have sel: "plan_rate (plan_for sh ?st h) = word_of_nat (iss_rate (issuer_of ?st))"
    "plan_cap (plan_for sh ?st h) = word_of_nat (iss_cap (issuer_of ?st))"
    "plan_minted (plan_for sh ?st h) = word_of_nat ?m"
    "plan_newTotal (plan_for sh ?st h) = word_of_nat (issued_sum (issuer_of ?st) + ?m)"
    "plan_newBalance (plan_for sh ?st h) = word_of_nat (holding ?st h + ?m)"
    by (simp_all add: plan_for_def Let_def)
  note commit = issue_commit_exact [OF assms(3,4) buy, of limit]
  note run = issue_run [OF assms buy, of addr now height limit hasChain]
  show ?thesis
  proof (cases "has_room ?st h \<and> issue_gas \<le> unat limit")
    case fits: True
    then have "4225 \<le> unat (effective_limit limit)" by (simp add: issue_gas_def effective_limit_def)
    then have r: "run_call C tx sh [OP_STORE, OP_1] s addr now height limit hasChain = Some (minted_state ?st ?m, 4225)"
      using run by simp
    have c: "issue_commit (minted_state ?st ?m) 4225 limit (''balance:'' @ h) (EncodeVotingU64 (word_of_nat (holding ?st h + ?m))) =
        Inr (after_buy h ?m ?st, 15625)" using commit fits by blast
    have d: "ValidateTokenIssuerV1CallDelta ?st (after_buy h ?m ?st) (''balance:'' @ h)
        (EncodeVotingU64 (word_of_nat (issued_sum (issuer_of ?st) + ?m))) (EncodeVotingU64 (word_of_nat (holding ?st h + ?m))) = Inr ()"
      by (rule buy_delta [OF assms(3) m(2,1,5,6)])
    have "holding ?st h + ?m < 2 ^ 64" using holding_le [OF assms(3) m(2), of h] m(6) by linarith
    then have v: "ValidateTokenIssuerV1State (after_buy h ?m ?st) =
        Inr (word_of_nat (iss_rate (issuer_of ?st)), word_of_nat (iss_cap (issuer_of ?st)), word_of_nat (issued_sum (issuer_of ?st) + ?m))"
      using issuer_validate_iff [OF after_buy_distinct [OF assms(3)]] after_buy_ok [OF assms(3) m(2,1,6,7)]
        after_buy_issuer [OF m(1)] after_buy_sum [OF assms(3) m(2,1,6)] by simp
    show ?thesis
      using True fits c d
      by (auto simp: ExecuteTokenIssuerV1Call_def Let_def checks EncodeTokenIssuerU64_def r key v sel issue_result_def)
  next
    case False
    then have "issue_commit (minted_state ?st ?m) 4225 limit (''balance:'' @ h)
        (EncodeVotingU64 (word_of_nat (holding ?st h + ?m))) \<noteq> Inr x" for x using commit by blast
    then obtain e where "issue_commit (minted_state ?st ?m) 4225 limit (''balance:'' @ h)
        (EncodeVotingU64 (word_of_nat (holding ?st h + ?m))) = Inl e"
      by (cases "issue_commit (minted_state ?st ?m) 4225 limit (''balance:'' @ h)
        (EncodeVotingU64 (word_of_nat (holding ?st h + ?m)))") blast+
    then have "?E \<noteq> Inr r"
      using key by (auto simp: ExecuteTokenIssuerV1Call_def Let_def checks plan run)
    then show ?thesis using False by blast
  qed
qed

lemma buy_result:
  assumes "keys_distinct st" "may_buy sh st h"
  shows "buy (issuer_of st) h (unat (callValue sh)) = Some (issuer_of (after_buy h (minted_by sh st) st))"
proof -
  note m = may_buy_parts [OF assms(2)]
  have "holding st h + minted_by sh st < 2 ^ 64" using holding_le [OF assms(1) m(2), of h] m(6) by linarith
  moreover have "buy (issuer_of st) h (unat (callValue sh)) \<noteq> None" using assms(2) by (simp add: may_buy_def)
  moreover have "holding st h = (case iss_balances (issuer_of st) h of None \<Rightarrow> 0 | Some b \<Rightarrow> b)"
    by (simp add: holding_def issuer_of_def)
  ultimately show ?thesis
    using after_buy_issuer [OF m(1)] by (auto simp: buy_def Let_def minted_by_def split: if_splits)
qed

text \<open>
  C33: a purchase mints exactly what was paid for. Whenever the code accepts a call on a token issuer,
  the state it commits is again an issuer, the one that the abstract purchase gives: the buyer holds
  the paid value times the rate more, the recorded total is still the sum of all balances and not above
  the cap, and no entry but the total and that balance has changed.
\<close>

theorem issue_refines_issuer:
  assumes "ValidateStatefulCallShape C tx 0 lockHex locked = Inr sh" "IsCanonicalContractOutpoint (snap_root s)"
    and "keys_distinct (snap_state s)" "state_within_limits (snap_state s)"
    and "ExecuteTokenIssuerV1Call C tx sh [OP_STORE, OP_1] s h addr now height limit hasChain = Inr r"
  shows "buy (issuer_of (snap_state s)) h (unat (callValue sh)) = Some (issuer_of (issue_state r)) \<and>
    issuer_ok (snap_state s) \<and> issuer_ok (issue_state r) \<and> keys_distinct (issue_state r) \<and> state_within_limits (issue_state r) \<and>
    unat (issue_minted r) = unat (callValue sh) * iss_rate (issuer_of (snap_state s)) \<and>
    issued_sum (issuer_of (issue_state r)) = issued_sum (issuer_of (snap_state s)) + unat (issue_minted r) \<and>
    unat (issue_newTotalIssued r) = issued_sum (issuer_of (issue_state r)) \<and>
    (\<forall>k. k \<notin> {''total_issued'', issue_balanceKey r} \<longrightarrow> map_of (issue_state r) k = map_of (snap_state s) k)"
proof -
  let ?st = "snap_state s" and ?m = "minted_by sh (snap_state s)"
  have e: "may_buy sh ?st h" "has_room ?st h" "r = issue_result sh ?st h"
    using assms(5) issue_exact [OF assms(1-4)] by blast+
  note m = may_buy_parts [OF e(1)]
  have u: "unat (word_of_nat ?m :: u64) = ?m" "unat (word_of_nat (issued_sum (issuer_of ?st) + ?m) :: u64) = issued_sum (issuer_of ?st) + ?m"
    by (rule unat_word_of_nat_less, use m(6) in simp)+
  have "\<forall>k. k \<notin> {''total_issued'', ''balance:'' @ h} \<longrightarrow> map_of (after_buy h ?m ?st) k = map_of ?st k"
    unfolding after_buy_map by simp
  then show ?thesis
    using buy_result [OF assms(3) e(1)] m(2) after_buy_ok [OF assms(3) m(2,1,6,7)] after_buy_distinct [OF assms(3), of h ?m]
      after_buy_limits(1) [OF assms(3,4) e(1)] e(2) after_buy_sum [OF assms(3) m(2,1,6)] u
    unfolding e(3) issue_result_def minted_by_def [symmetric] by simp
qed

text \<open>
  A purchase within the cap always goes through. The code accepts a call on a token issuer exactly
  when the committed total is the old one plus the minted amount, the abstract purchase is allowed
  (something is paid, no overflow, not above the cap), the buyer has a balance or fewer than 4092
  buyers have, and the fixed 15625 gas are there.
\<close>

theorem issue_accepted_iff:
  assumes "ValidateStatefulCallShape C tx 0 lockHex locked = Inr sh" "IsCanonicalContractOutpoint (snap_root s)"
    and "keys_distinct (snap_state s)" "state_within_limits (snap_state s)"
    and "snap_family s = ''token_issuer_v1''" "issuer_ok (snap_state s)" "addr \<noteq> []"
  shows "(\<exists>r. ExecuteTokenIssuerV1Call C tx sh [OP_STORE, OP_1] s h addr now height limit hasChain = Inr r \<and>
      issue_gasUsed r = 15625) \<longleftrightarrow>
    IsCanonicalLowerHash160Hex h \<and> logicalKey sh = ''total_issued'' \<and>
    call_value sh = EncodeTokenIssuerU64 (word_of_nat (issued_sum (issuer_of (snap_state s)) +
      unat (callValue sh) * iss_rate (issuer_of (snap_state s)))) \<and>
    buy (issuer_of (snap_state s)) h (unat (callValue sh)) \<noteq> None \<and>
    (iss_balances (issuer_of (snap_state s)) h \<noteq> None \<or> card (dom (iss_balances (issuer_of (snap_state s)))) < 4092) \<and>
    15625 \<le> unat limit"
proof -
  have "may_buy sh (snap_state s) h \<longleftrightarrow> IsCanonicalLowerHash160Hex h \<and> logicalKey sh = ''total_issued'' \<and>
    call_value sh = EncodeTokenIssuerU64 (word_of_nat (issued_sum (issuer_of (snap_state s)) +
      unat (callValue sh) * iss_rate (issuer_of (snap_state s)))) \<and>
    buy (issuer_of (snap_state s)) h (unat (callValue sh)) \<noteq> None"
    using assms(6) unfolding may_buy_def minted_by_def EncodeTokenIssuerU64_def by blast
  moreover have "issue_gasUsed (issue_result sh (snap_state s) h) = 15625" by (simp add: issue_result_def)
  ultimately show ?thesis
    using assms(5,7) unfolding issue_exact [OF assms(1-4)] has_room_def issue_gas_def by blast
qed

subsection \<open>A sample issuer\<close>

definition sample_issuer :: state_map where
  "sample_issuer = [(''token_name'', [0x41]), (''exchange_rate'', EncodeVotingU64 2), (''max_supply'', EncodeVotingU64 1000),
     (''total_issued'', EncodeVotingU64 0)]"

lemma sample_issuer_of: "issuer_of sample_issuer = \<lparr>iss_rate = 2, iss_cap = 1000, iss_balances = Map.empty\<rparr>"
proof -
  have "map_of sample_issuer (''balance:'' @ h) = None" for h by (simp add: sample_issuer_def)
  then have "balances_of sample_issuer = Map.empty" by (simp add: balances_of_def ReadVotingU64_def fun_eq_iff)
  moreover have "ReadVotingU64 sample_issuer ''exchange_rate'' = Some 2" "ReadVotingU64 sample_issuer ''max_supply'' = Some 1000"
    by (simp_all only: read_u64_iff) (simp_all add: sample_issuer_def)
  ultimately show ?thesis by (simp add: issuer_of_def read_nat_def)
qed

lemma sample_issuer_ok: "keys_distinct sample_issuer" "issuer_ok sample_issuer" "state_within_limits sample_issuer"
proof -
  show d: "keys_distinct sample_issuer" by code_simp
  have "token_name_char 0x41" by code_simp
  then show ok: "issuer_ok sample_issuer"
    by (simp add: issuer_ok_def sample_issuer_of issued_sum_def) (simp add: sample_issuer_def issuer_core_key_def)
  show "state_within_limits sample_issuer"
    using issuer_limits [OF d ok] by (simp add: sample_issuer_def MAX_KEYS_PER_DOMAIN_def)
qed

lemma sample_buy_shape:
  "\<exists>sh. ValidateStatefulCallShape toy_crypto (sample_tx ''total_issued'' (EncodeVotingU64 10) 14) 0 ''f751'' 9 = Inr sh \<and>
     callValue sh = 5 \<and> may_buy sh sample_issuer sample_owner"
proof -
  have "case ValidateStatefulCallShape toy_crypto (sample_tx ''total_issued'' (EncodeVotingU64 10) 14) 0 ''f751'' 9 of
      Inl _ \<Rightarrow> False | Inr r \<Rightarrow> callValue r = 5 \<and> logicalKey r = ''total_issued'' \<and> call_value r = EncodeVotingU64 10" by code_simp
  then obtain sh where sh: "ValidateStatefulCallShape toy_crypto (sample_tx ''total_issued'' (EncodeVotingU64 10) 14) 0 ''f751'' 9 = Inr sh"
    "callValue sh = 5" "logicalKey sh = ''total_issued''" "call_value sh = EncodeVotingU64 10" by (auto split: sum.splits)
  then have "may_buy sh sample_issuer sample_owner"
    using sample_domain(2) sample_issuer_ok(2) by (simp add: may_buy_def buy_def minted_by_def sample_issuer_of issued_sum_def)
  then show ?thesis using sh by blast
qed

lemma sample_buy:
  "\<exists>sh r. ValidateStatefulCallShape toy_crypto (sample_tx ''total_issued'' (EncodeVotingU64 10) 14) 0 ''f751'' 9 = Inr sh \<and>
     callValue sh = 5 \<and> may_buy sh sample_issuer sample_owner \<and>
     ExecuteTokenIssuerV1Call toy_crypto (sample_tx ''total_issued'' (EncodeVotingU64 10) 14) sh [OP_STORE, OP_1]
       (sample_snapshot ''token_issuer_v1'' sample_issuer) sample_owner ''caller'' 50 1 20000 False = Inr r"
proof -
  obtain sh where sh: "ValidateStatefulCallShape toy_crypto (sample_tx ''total_issued'' (EncodeVotingU64 10) 14) 0 ''f751'' 9 = Inr sh"
    "callValue sh = 5" "may_buy sh sample_issuer sample_owner" using sample_buy_shape by blast
  have "has_room sample_issuer sample_owner" by (simp add: has_room_def sample_issuer_of)
  then show ?thesis
    using sh issue_exact [OF sh(1), of "sample_snapshot ''token_issuer_v1'' sample_issuer" sample_owner "''caller''" 50 1 20000 False]
    by (simp add: sample_vote_snapshot sample_issuer_ok issue_gas_def)
qed

theorem issue_refines_issuer_witness:
  "\<exists>sh r. ExecuteTokenIssuerV1Call toy_crypto (sample_tx ''total_issued'' (EncodeVotingU64 10) 14) sh [OP_STORE, OP_1]
       (sample_snapshot ''token_issuer_v1'' sample_issuer) sample_owner ''caller'' 50 1 20000 False = Inr r \<and>
     buy (issuer_of sample_issuer) sample_owner 5 = Some (issuer_of (issue_state r))"
proof -
  obtain sh r where sh: "ValidateStatefulCallShape toy_crypto (sample_tx ''total_issued'' (EncodeVotingU64 10) 14) 0 ''f751'' 9 = Inr sh"
    "callValue sh = 5" and r: "ExecuteTokenIssuerV1Call toy_crypto (sample_tx ''total_issued'' (EncodeVotingU64 10) 14) sh [OP_STORE, OP_1]
       (sample_snapshot ''token_issuer_v1'' sample_issuer) sample_owner ''caller'' 50 1 20000 False = Inr r"
    using sample_buy by blast
  have s: "IsCanonicalContractOutpoint (snap_root (sample_snapshot ''token_issuer_v1'' sample_issuer))"
    "keys_distinct (snap_state (sample_snapshot ''token_issuer_v1'' sample_issuer))"
    "state_within_limits (snap_state (sample_snapshot ''token_issuer_v1'' sample_issuer))"
    by (simp_all add: sample_vote_snapshot sample_issuer_ok)
  show ?thesis using issue_refines_issuer [OF sh(1) s r] r sh(2) by (auto simp: sample_vote_snapshot)
qed

theorem issue_accepted_iff_witness:
  "\<exists>sh r. ExecuteTokenIssuerV1Call toy_crypto (sample_tx ''total_issued'' (EncodeVotingU64 10) 14) sh [OP_STORE, OP_1]
       (sample_snapshot ''token_issuer_v1'' sample_issuer) sample_owner ''caller'' 50 1 20000 False = Inr r \<and>
     issue_gasUsed r = 15625"
proof -
  obtain sh where sh: "ValidateStatefulCallShape toy_crypto (sample_tx ''total_issued'' (EncodeVotingU64 10) 14) 0 ''f751'' 9 = Inr sh"
    "callValue sh = 5" "may_buy sh sample_issuer sample_owner" using sample_buy_shape by blast
  note m = may_buy_parts [OF sh(3)]
  have "buy (issuer_of sample_issuer) sample_owner 5 \<noteq> None" by (simp add: buy_def sample_issuer_of issued_sum_def)
  then show ?thesis
    using issue_accepted_iff [OF sh(1), of "sample_snapshot ''token_issuer_v1'' sample_issuer" "''caller''" sample_owner 50 1 20000 False]
      m(1,3,4) sh(2)
    by (simp add: sample_vote_snapshot sample_issuer_ok sample_issuer_of minted_by_def EncodeTokenIssuerU64_def) blast
qed

subsection \<open>The end of an issuer\<close>

lemma issuer_name_no_bar:
  assumes "issuer_ok st" "map_of st ''token_name'' = Some v"
  shows "0x7c \<notin> set v"
proof -
  have "list_all token_name_char v" using assms by (auto simp: issuer_ok_def Let_def)
  moreover have "\<not> token_name_char 0x7c" by code_simp
  ultimately show ?thesis unfolding list_all_iff by blast
qed

lemma issuer_number_length:
  assumes "issuer_ok st" "map_of st k = Some v" "k \<noteq> ''token_name''"
  shows "length v = 8"
proof -
  have core: "map_of st ''exchange_rate'' = Some (EncodeVotingU64 (word_of_nat (iss_rate (issuer_of st))))"
    "map_of st ''max_supply'' = Some (EncodeVotingU64 (word_of_nat (iss_cap (issuer_of st))))"
    "map_of st ''total_issued'' = Some (EncodeVotingU64 (word_of_nat (issued_sum (issuer_of st))))"
    using assms(1) by (simp_all add: issuer_ok_def Let_def)
  have "(k, v) \<in> set st" using assms(2) by (rule map_of_SomeD)
  then have "issuer_core_key k \<or> balance_ok (k, v)" using assms(1) unfolding issuer_ok_def Let_def by (metis fst_conv)
  then consider "k = ''exchange_rate''" | "k = ''max_supply''" | "k = ''total_issued''" | "balance_ok (k, v)"
    using assms(3) unfolding issuer_core_key_def by blast
  then show ?thesis
  proof cases
    case 1
    then show ?thesis using core(1) assms(2) by (metis encode_length option.inject)
  next
    case 2
    then show ?thesis using core(2) assms(2) by (metis encode_length option.inject)
  next
    case 3
    then show ?thesis using core(3) assms(2) by (metis encode_length option.inject)
  qed (simp only: balance_ok_iff)
qed

text \<open>
  An issuer lives as long as none of its numbers holds the byte \<open>0x7c\<close>. A stored issuer without
  that byte loads as it was stored; with it, in the rate, the cap, the total or any balance, it loads with a
  number cut short and the code rejects every purchase from then on.
\<close>

theorem issuer_stops_at_bar:
  assumes "leveldb_ok L con" "db_readable L d" "domain_stored (con d) rt cur own ''token_issuer_v1'' st" "issuer_ok st"
  shows "\<exists>s. LoadConfirmedStateDomain L d cur = Inr s \<and>
    (if \<forall>(k, v)\<in>set st. 0x7c \<notin> set v then map_of (snap_state s) = map_of st
     else \<forall>C tx sh lock h addr now height limit hasChain.
       \<exists>e. ExecuteTokenIssuerV1Call C tx sh lock s h addr now height limit hasChain = Inl e)"
proof -
  obtain s where s: "LoadConfirmedStateDomain L d cur = Inr s" "keys_distinct (snap_state s)"
    "map_of (snap_state s) = (\<lambda>k. map_option cut_value (map_of st k))"
    using stored_domain_loads [OF assms(1-3)] by blast
  have dst: "keys_distinct st" using assms(3) by (simp add: domain_stored_def)
  show ?thesis
  proof (cases "\<forall>(k, v)\<in>set st. 0x7c \<notin> set v")
    case True
    have "map_option cut_value (map_of st k) = map_of st k" for k
      using True by (cases "map_of st k") (auto simp: cut_value_id_iff dest!: map_of_SomeD)
    then show ?thesis using s True by (intro exI [of _ s]) auto
  next
    case False
    then obtain k v where kv: "map_of st k = Some v" "0x7c \<in> set v" using dst by auto
    then have name: "k \<noteq> ''token_name''" using issuer_name_no_bar [OF assms(4)] by blast
    then have len: "length v = 8" using issuer_number_length [OF assms(4) kv(1)] by blast
    have short: "length (cut_value v) \<noteq> 8"
    proof -
      have "cut_value v \<noteq> v" using kv(2) by (simp add: cut_value_id_iff)
      moreover have "length (cut_value v) = length v \<longrightarrow> cut_value v = v"
        using actual_value_shorter [of "string_of_bytes v"] actual_value_plain [of "string_of_bytes v"]
        by (cases "CHR ''|'' \<in> set (string_of_bytes v)") (auto simp: cut_value_def)
      ultimately show ?thesis using len by auto
    qed
    have no: "\<not> issuer_ok (snap_state s)"
    proof
      assume "issuer_ok (snap_state s)"
      moreover have "map_of (snap_state s) k = Some (cut_value v)" using s(3) kv(1) by simp
      ultimately show False using issuer_number_length [of "snap_state s" k "cut_value v"] short name by blast
    qed
    then have bad_call: "issue_checks sh s h addr \<noteq> Inr plan" for sh h addr plan
      using issue_checks_iff [OF s(2), of sh h addr plan] by (auto simp: may_buy_def)
    have "\<exists>e. ExecuteTokenIssuerV1Call C tx sh lock s h addr now height limit hasChain = Inl e"
      for C tx sh lock h addr now height limit hasChain
    proof -
      obtain e where "issue_checks sh s h addr = Inl e" using bad_call by (cases "issue_checks sh s h addr") blast+
      then show ?thesis by (simp add: ExecuteTokenIssuerV1Call_def)
    qed
    then show ?thesis unfolding if_not_P [OF False] using s(1) by blast
  qed
qed

theorem issuer_stops_at_bar_witness:
  "\<exists>st s. issued_sum (issuer_of st) = 124 \<and>
     LoadConfirmedStateDomain mem_db (domain_rows sample_root sample_root sample_owner ''token_issuer_v1'' st) sample_root = Inr s \<and>
     (\<forall>sh h. \<exists>e. ExecuteTokenIssuerV1Call toy_crypto (sample_tx ''total_issued'' (EncodeVotingU64 10) 14) sh [OP_STORE, OP_1]
        s h ''caller'' 50 1 20000 False = Inl e)"
proof -
  define st where "st = after_buy sample_owner 124 sample_issuer"
  have sum: "issued_sum (issuer_of sample_issuer) + 124 < 2 ^ 64" "issued_sum (issuer_of sample_issuer) + 124 \<le> 1000"
    by (simp_all add: sample_issuer_of issued_sum_def)
  have ok: "issuer_ok st" "keys_distinct st"
    unfolding st_def using after_buy_ok [OF sample_issuer_ok(1,2) sample_domain(2) sum(1)] sum(2)
      after_buy_distinct [OF sample_issuer_ok(1)] by (simp_all add: sample_issuer_of)
  have t: "issued_sum (issuer_of st) = 124"
    using after_buy_sum [OF sample_issuer_ok(1,2) sample_domain(2) sum(1)] by (simp add: st_def sample_issuer_of issued_sum_def)
  have len: "length st \<le> MAX_KEYS_PER_DOMAIN"
    unfolding st_def after_buy_length [OF sample_issuer_ok(2) sample_domain(2)]
    by (simp add: sample_issuer_def MAX_KEYS_PER_DOMAIN_def)
  have total: "map_of st ''total_issued'' = Some (EncodeVotingU64 124)"
    using ok(1) t by (simp add: issuer_ok_def Let_def)
  have bar: "\<not> (\<forall>(k, v)\<in>set st. 0x7c \<notin> set v)"
  proof -
    have "0x7c \<in> set (EncodeVotingU64 124)" by code_simp
    then show ?thesis using map_of_SomeD [OF total] by blast
  qed
  have "st \<noteq> []" using total by auto
  then have dom: "domain_stored (map_of (domain_rows sample_root sample_root sample_owner ''token_issuer_v1'' st))
      sample_root sample_root sample_owner ''token_issuer_v1'' st"
    using issuer_limits [OF ok(2,1)] len by (intro rows_stored) (simp_all add: sample_domain ok)
  from mem_db_ok mem_db_readable dom ok(1)
  have "\<exists>s. LoadConfirmedStateDomain mem_db (domain_rows sample_root sample_root sample_owner ''token_issuer_v1'' st) sample_root = Inr s \<and>
    (if \<forall>(k, v)\<in>set st. 0x7c \<notin> set v then map_of (snap_state s) = map_of st
     else \<forall>C (tx :: unit Transaction) sh lock h addr now height limit hasChain.
       \<exists>e. ExecuteTokenIssuerV1Call C tx sh lock s h addr now height limit hasChain = Inl e)"
    by (rule issuer_stops_at_bar [where con = map_of and L = mem_db])
  then obtain s where "LoadConfirmedStateDomain mem_db (domain_rows sample_root sample_root sample_owner ''token_issuer_v1'' st) sample_root = Inr s"
    "\<forall>C (tx :: unit Transaction) sh lock h addr now height limit hasChain.
       \<exists>e. ExecuteTokenIssuerV1Call C tx sh lock s h addr now height limit hasChain = Inl e"
    unfolding if_not_P [OF bar] by (elim exE conjE)
  then show ?thesis by (intro exI [of _ st] exI [of _ s] conjI t) (simp_all only: simp_thms)
qed

end
