(* ===== verification/Utxo.thy ===== *)
theory Utxo
  imports Storage
begin

text \<open>
  Unspent outputs (\<open>src/src/utxo.h\<close>, \<open>src/src/utxo.cpp\<close>): the key of an outpoint, the text record
  \<open>height=H|amount|script[|cb=1]\<close> that applying a transaction writes, and its reader \<open>getUTXO\<close>. The
  number parsers of the C++ library accept blanks, a sign and a prefix of digits; they are modelled
  as they behave. The rest of the class (indexes, token records, balances) is not modelled.
\<close>

subsection \<open>Text\<close>

text \<open>\<open>std::stoull\<close> in base ten.\<close>

definition stoull :: "string \<Rightarrow> u64 option" where
  "stoull s =
     (let t = dropWhile is_cspace s;
          neg = (t \<noteq> [] \<and> hd t = CHR ''-'');
          u = (if t \<noteq> [] \<and> (hd t = CHR ''-'' \<or> hd t = CHR ''+'') then tl t else t);
          ds = takeWhile is_digit u in
      if ds = [] then None
      else if dec_value ds \<ge> 2 ^ 64 then None
      else Some (if neg then - word_of_nat (dec_value ds) else word_of_nat (dec_value ds)))"

text \<open>\<open>std::getline\<close> with a bar until the stream ends.\<close>

function bar_parts :: "string \<Rightarrow> string list" where
  "bar_parts s =
     (if s = [] then []
      else takeWhile (\<lambda>c. c \<noteq> CHR ''|'') s # bar_parts (tl (dropWhile (\<lambda>c. c \<noteq> CHR ''|'') s)))"
  by auto
termination
proof (relation "measure length")
  fix s :: string
  assume "s \<noteq> []"
  moreover have "length (tl (dropWhile (\<lambda>c. c \<noteq> CHR ''|'') s)) \<le> length s - 1"
    using length_dropWhile_le [of "\<lambda>c. c \<noteq> CHR ''|''" s] by simp
  ultimately have "length (tl (dropWhile (\<lambda>c. c \<noteq> CHR ''|'') s)) < length s"
    by (cases s) (simp_all del: length_tl)
  then show "(tl (dropWhile (\<lambda>c. c \<noteq> CHR ''|'') s), s) \<in> measure length" by simp
qed simp

declare bar_parts.simps [simp del]

subsection \<open>Records\<close>

record UTXO =
  utxo_txid :: string
  utxo_vout :: u32
  utxo_amount :: u64
  utxo_scriptPubKey :: string
  createdAtHeight :: u32
  utxo_isCoinbase :: bool

definition makeUTXOKey :: "string \<Rightarrow> u32 \<Rightarrow> string" where
  "makeUTXOKey tid n = tid @ '':'' @ dec_string (unat n)"

definition buildValue :: "nat \<Rightarrow> u64 \<Rightarrow> string \<Rightarrow> bool \<Rightarrow> string" where
  "buildValue blockHeight amt scriptHex coinbase =
     ''height='' @ dec_string blockHeight @ ''|'' @ dec_string (unat amt) @ ''|'' @ scriptHex @
     (if coinbase then ''|cb=1'' else '''')"

text \<open>The height behind the first equals sign; without one it stays 0.\<close>

definition parse_height :: "string \<Rightarrow> u32 option" where
  "parse_height partHeight =
     (if CHR ''='' \<notin> set partHeight then Some 0
      else map_option ucast (stoull (tl (dropWhile (\<lambda>c. c \<noteq> CHR ''='') partHeight))))"

definition parse_utxo :: "string \<Rightarrow> u32 \<Rightarrow> string \<Rightarrow> UTXO option" where
  "parse_utxo tid n raw =
     (let parts = bar_parts raw in
      if length parts < 3 \<or> length parts > 4 then None
      else if parts ! 1 = [] then None
      else case stoull (parts ! 1) of
        None \<Rightarrow> None
      | Some atoms \<Rightarrow>
          (case parse_height (parts ! 0) of
             None \<Rightarrow> None
           | Some h \<Rightarrow>
               Some \<lparr>utxo_txid = tid, utxo_vout = n, utxo_amount = atoms, utxo_scriptPubKey = parts ! 2,
                     createdAtHeight = h, utxo_isCoinbase = (length parts \<ge> 4 \<and> parts ! 3 = ''cb=1'')\<rparr>))"

definition getUTXO :: "crypto \<Rightarrow> 'd leveldb \<Rightarrow> 'd \<Rightarrow> string \<Rightarrow> u32 \<Rightarrow> UTXO option" where
  "getUTXO C L d tid n =
     (case getWithDataChecksum C L d (''utxo:'' @ makeUTXOKey tid n) of
        None \<Rightarrow> None
      | Some raw \<Rightarrow> parse_utxo tid n raw)"

subsection \<open>Numbers and records come back\<close>

lemma digit_no_space: "is_digit c \<Longrightarrow> \<not> is_cspace c \<and> c \<noteq> CHR ''-'' \<and> c \<noteq> CHR ''+'' \<and> c \<noteq> CHR ''|'' \<and> c \<noteq> CHR ''=''"
  using order_trans [of "CHR ''0''" c "CHR 0x0D"] by (auto simp: is_digit_def is_cspace_def)

lemma stoull_dec:
  assumes "n < 2 ^ 64"
  shows "stoull (dec_string n) = Some (word_of_nat n)"
proof -
  have d: "list_all is_digit (dec_string n)" by (rule dec_string_digits)
  obtain c cs where s: "dec_string n = c # cs" using dec_string_nonempty [of n] by (cases "dec_string n") auto
  have c: "is_digit c" using d s by simp
  have t: "takeWhile is_digit (dec_string n) = dec_string n" using d by (simp add: list_all_iff)
  have w: "dropWhile is_cspace (dec_string n) = dec_string n" using digit_no_space [OF c] by (simp add: s)
  have h: "hd (dec_string n) = c" using s by simp
  show ?thesis
    using assms digit_no_space [OF c] dec_string_nonempty [of n] by (simp add: stoull_def Let_def not_le t w h)
qed

lemma bar_parts_step:
  assumes "CHR ''|'' \<notin> set a"
  shows "bar_parts (a @ CHR ''|'' # b) = a # bar_parts b"
  using takeWhile_neq_append [OF assms, of b] dropWhile_neq_append [OF assms, of b]
  by (subst bar_parts.simps) simp

lemma bar_parts_last:
  assumes "CHR ''|'' \<notin> set a" "a \<noteq> []"
  shows "bar_parts a = [a]"
proof -
  have t: "takeWhile (\<lambda>c. c \<noteq> CHR ''|'') a = a" and d: "dropWhile (\<lambda>c. c \<noteq> CHR ''|'') a = []"
    using assms(1) by (auto simp: takeWhile_eq_all_conv dropWhile_eq_Nil_conv)
  have "bar_parts [] = []" by (simp add: bar_parts.simps)
  then show ?thesis using assms(2) by (subst bar_parts.simps) (simp add: t d)
qed

lemma dec_string_plain: "CHR ''|'' \<notin> set (dec_string n)" "CHR ''='' \<notin> set (dec_string n)"
  using dec_string_digits [of n] digit_no_space by (auto simp: list_all_iff)

lemma parse_height_value:
  assumes "n < 2 ^ 32"
  shows "parse_height (''height='' @ dec_string n) = Some (word_of_nat n)"
proof -
  have "tl (dropWhile (\<lambda>c. c \<noteq> CHR ''='') (''height='' @ dec_string n)) = dec_string n" by simp
  moreover have "stoull (dec_string n) = Some (word_of_nat n)" by (rule stoull_dec) (use assms in simp)
  moreover have "ucast (word_of_nat n :: u64) = (word_of_nat n :: u32)" using assms by (simp add: unsigned_of_nat take_bit_nat_eq_self)
  ultimately show ?thesis by (simp add: parse_height_def)
qed

lemma parse_build:
  assumes "h < 2 ^ 32" "CHR ''|'' \<notin> set scr" "scr \<noteq> []"
  shows "parse_utxo tid n (buildValue h amt scr cb) =
    Some \<lparr>utxo_txid = tid, utxo_vout = n, utxo_amount = amt, utxo_scriptPubKey = scr,
          createdAtHeight = word_of_nat h, utxo_isCoinbase = cb\<rparr>"
proof -
  have bar: "CHR ''|'' \<notin> set (''height='' @ dec_string h)" using dec_string_plain by simp
  have amt: "stoull (dec_string (unat amt)) = Some amt"
    using stoull_dec [of "unat amt"] unsigned_less [of amt, where 'a = nat] by simp
  have "bar_parts (buildValue h amt scr cb) =
      [''height='' @ dec_string h, dec_string (unat amt), scr] @ (if cb then [''cb=1''] else [])"
  proof (cases cb)
    case True
    have "buildValue h amt scr cb = (''height='' @ dec_string h) @ CHR ''|'' # dec_string (unat amt) @ CHR ''|'' # scr @ CHR ''|'' # ''cb=1''"
      using True by (simp add: buildValue_def)
    moreover have "bar_parts ''cb=1'' = [''cb=1'']" by (rule bar_parts_last) simp_all
    ultimately show ?thesis
      using True by (simp only: bar_parts_step [OF bar] bar_parts_step [OF dec_string_plain(1)] bar_parts_step [OF assms(2)]) simp
  next
    case False
    have "buildValue h amt scr cb = (''height='' @ dec_string h) @ CHR ''|'' # dec_string (unat amt) @ CHR ''|'' # scr"
      using False by (simp add: buildValue_def)
    then show ?thesis
      using False by (simp only: bar_parts_step [OF bar] bar_parts_step [OF dec_string_plain(1)] bar_parts_last [OF assms(2,3)]) simp
  qed
  then show ?thesis
    using amt parse_height_value [OF assms(1)] dec_string_nonempty by (cases cb) (simp_all add: parse_utxo_def Let_def)
qed

text \<open>A stored output is read back.\<close>

lemma stored_utxo:
  assumes "leveldb_ok L con" "db_Get L d (''utxo:'' @ makeUTXOKey tid n) \<noteq> DbError"
    and "con d (''utxo:'' @ makeUTXOKey tid n) =
      Some (computeDataChecksum C (buildValue h amt scr cb) @ ''|'' @ buildValue h amt scr cb)"
    and "h < 2 ^ 32" "CHR ''|'' \<notin> set scr" "scr \<noteq> []"
  shows "getUTXO C L d tid n =
    Some \<lparr>utxo_txid = tid, utxo_vout = n, utxo_amount = amt, utxo_scriptPubKey = scr,
          createdAtHeight = word_of_nat h, utxo_isCoinbase = cb\<rparr>"
proof -
  have "db_Get L d (''utxo:'' @ makeUTXOKey tid n) =
      DbOk (computeDataChecksum C (buildValue h amt scr cb) @ ''|'' @ buildValue h amt scr cb)"
    using leveldb_get [OF assms(1,2)] assms(3) by simp
  then have "getWithDataChecksum C L d (''utxo:'' @ makeUTXOKey tid n) = Some (buildValue h amt scr cb)"
    by (simp add: getWithDataChecksum_def computeDataChecksum_def)
  then show ?thesis using parse_build [OF assms(4-6)] by (simp add: getUTXO_def)
qed

end
