(* ===== verification/Addresses.thy ===== *)
theory Addresses
  imports Utxo Market Wots
begin

text \<open>
  Addresses (\<open>src/src/address_helpers.h\<close> and \<open>extractAddressFromScriptPubKey\<close> of
  \<open>src/src/tokens.cpp\<close>): Base58 with its long division and multiplication loops, Base58Check, the
  lock script an address stands for and the address of a lock script. An exception is \<open>None\<close>. The
  owner recorded in a token script is a parameter (\<open>parseExtendedTokenScript\<close> is not modelled).
\<close>

subsection \<open>Base58\<close>

definition BASE58_ALPHABET :: string where
  "BASE58_ALPHABET = ''123456789ABCDEFGHJKLMNPQRSTUVWXYZabcdefghijkmnopqrstuvwxyz''"

text \<open>One long division by 58: the quotient bytes and the remainder.\<close>

fun div58 :: "nat \<Rightarrow> bytes \<Rightarrow> bytes \<times> nat" where
  "div58 carry [] = ([], carry)"
| "div58 carry (b # rest) =
     (let val = unat b + carry * 256; (q, r) = div58 (val mod 58) rest in
      (word_of_nat (val div 58) # q, r))"

primrec be_nat :: "bytes \<Rightarrow> nat" where
  "be_nat [] = 0"
| "be_nat (b # bs) = unat b * 256 ^ length bs + be_nat bs"

lemma be_nat_less: "be_nat bs < 256 ^ length bs"
proof (induction bs)
  case (Cons b bs)
  have "unat b * 256 ^ length bs + be_nat bs < unat b * 256 ^ length bs + 256 ^ length bs" using Cons by simp
  also have "\<dots> = (unat b + 1) * 256 ^ length bs" by (simp add: algebra_simps)
  also have "\<dots> \<le> 256 * 256 ^ length bs" using unat_byte_less [of b] by (intro mult_right_mono) linarith+
  finally show ?case by simp
qed simp

lemma div58_value:
  "carry < 58 \<Longrightarrow> div58 carry bs = (q, r) \<Longrightarrow>
     length q = length bs \<and> r < 58 \<and> carry * 256 ^ length bs + be_nat bs = 58 * be_nat q + r"
proof (induction bs arbitrary: carry q)
  case (Cons b bs)
  let ?v = "unat b + carry * 256"
  obtain q' where d: "div58 (?v mod 58) bs = (q', r)" "q = word_of_nat (?v div 58) # q'"
    using Cons.prems(2) by (auto simp: Let_def split: prod.splits)
  have IH: "length q' = length bs" "r < 58" "?v mod 58 * 256 ^ length bs + be_nat bs = 58 * be_nat q' + r"
    using Cons.IH [OF _ d(1)] by simp_all
  have v: "?v < 58 * 256" using unat_byte_less [of b] Cons.prems(1) by linarith
  then have "unat (word_of_nat (?v div 58) :: byte) = ?v div 58"
    by (intro unat_word_of_nat_less) (simp add: less_mult_imp_div_less mult.commute)
  then have q: "length q = length (b # bs)" "be_nat q = ?v div 58 * 256 ^ length bs + be_nat q'"
    using d(2) IH(1) by simp_all
  have "carry * 256 ^ length (b # bs) + be_nat (b # bs) = ?v * 256 ^ length bs + be_nat bs"
    by (simp add: algebra_simps)
  moreover have "?v * 256 ^ length bs = 58 * (?v div 58 * 256 ^ length bs) + ?v mod 58 * 256 ^ length bs"
    by (subst mult.assoc [symmetric], subst add_mult_distrib [symmetric]) simp
  ultimately have "carry * 256 ^ length (b # bs) + be_nat (b # bs) = 58 * be_nat q + r"
    using IH(3) q(2) by linarith
  then show ?case using q(1) IH(2) by blast
qed simp

lemma be_nat_zeros: "be_nat bs = 0 \<longleftrightarrow> (\<forall>b\<in>set bs. b = 0)"
  by (induction bs) (auto simp: word_unat_eq_iff)

lemma be_nat_drop: "be_nat (dropWhile (\<lambda>b. b = 0) bs) = be_nat bs"
  by (induction bs) auto

text \<open>The characters in the order they are pushed, as digits: the least significant first.\<close>

function b58_digits :: "bytes \<Rightarrow> nat list" where
  "b58_digits dat =
     (if dat = [] then []
      else let (q, r) = div58 0 dat in r # b58_digits (dropWhile (\<lambda>b. b = 0) q))"
  by auto
termination
proof (relation "measure (\<lambda>d. be_nat d + length d)")
  fix dat x q r
  assume dat: "dat \<noteq> []" and x: "x = div58 0 dat" "(q, r) = x"
  have v: "length q = length dat" "be_nat dat = 58 * be_nat q + r" using div58_value [of 0 dat q r] x by auto
  have len: "length (dropWhile (\<lambda>b. b = 0) q) \<le> length dat" using length_dropWhile_le v(1) by metis
  show "(dropWhile (\<lambda>b. b = 0) q, dat) \<in> measure (\<lambda>d. be_nat d + length d)"
  proof (cases "be_nat q = 0")
    case True
    then have "dropWhile (\<lambda>b. b = 0) q = []" using be_nat_zeros [of q] by (simp add: dropWhile_eq_Nil_conv)
    then show ?thesis using dat by (simp only: in_measure) simp
  next
    case False
    then show ?thesis using v(2) len by (simp add: be_nat_drop)
  qed
qed simp

declare b58_digits.simps [simp del]

definition base58Encode :: "bytes \<Rightarrow> string" where
  "base58Encode input =
     (let zeroCount = length (takeWhile (\<lambda>b. b = 0) input) in
      rev (map (\<lambda>r. BASE58_ALPHABET ! r) (b58_digits (drop zeroCount input)) @ replicate zeroCount (CHR ''1'')))"

text \<open>\<open>strchr\<close> also finds the terminator of the alphabet, as digit 58.\<close>

definition b58_digit :: "char \<Rightarrow> nat option" where
  "b58_digit c =
     (let n = length (takeWhile (\<lambda>x. x \<noteq> c) (BASE58_ALPHABET @ [CHR 0x00])) in if n < 59 then Some n else None)"

fun push_carry :: "nat \<Rightarrow> bytes" where
  "push_carry carry = (if carry = 0 then [] else word_of_nat carry # push_carry (carry div 256))"

declare push_carry.simps [simp del]

text \<open>The little-endian result times 58 plus a digit.\<close>

fun mul58 :: "nat \<Rightarrow> bytes \<Rightarrow> bytes" where
  "mul58 carry [] = push_carry carry"
| "mul58 carry (b # rest) = (let val = unat b * 58 + carry in word_of_nat val # mul58 (val div 256) rest)"

fun b58_accumulate :: "bytes \<Rightarrow> string \<Rightarrow> bytes option" where
  "b58_accumulate result [] = Some result"
| "b58_accumulate result (c # rest) =
     (case b58_digit c of None \<Rightarrow> None | Some digit \<Rightarrow> b58_accumulate (mul58 digit result) rest)"

definition base58Decode :: "string \<Rightarrow> bytes option" where
  "base58Decode input =
     (case b58_accumulate [] input of
        None \<Rightarrow> None
      | Some result \<Rightarrow> Some (replicate (length (takeWhile (\<lambda>c. c = CHR ''1'') input)) 0 @ rev result))"

subsection \<open>Base58 loses nothing\<close>

lemma le_nat_append: "le_nat (a @ b) = le_nat a + 256 ^ length a * le_nat b"
  by (induction a) (simp_all add: algebra_simps)

lemma le_nat_rev: "le_nat (rev bs) = be_nat bs"
  by (induction bs) (simp_all add: le_nat_append)

lemma le_nat_push: "le_nat (push_carry n) = n"
proof (induction n rule: push_carry.induct)
  case (1 n)
  have "unat (word_of_nat n :: byte) = n mod 256" by (simp add: unat_of_nat)
  then show ?case using 1 by (simp add: push_carry.simps)
qed

lemma le_nat_mul58: "le_nat (mul58 c bs) = 58 * le_nat bs + c"
proof (induction bs arbitrary: c)
  case (Cons b bs)
  let ?v = "unat b * 58 + c"
  have "unat (word_of_nat ?v :: byte) = ?v mod 256" using unat_of_nat [where 'a = 8, of ?v] by simp
  then have "le_nat (mul58 c (b # bs)) = ?v mod 256 + 256 * (58 * le_nat bs + ?v div 256)"
    using Cons [of "?v div 256"] by (simp only: mul58.simps Let_def le_nat.simps)
  moreover have "m + 256 * (y + d) = v + 256 * y" if "256 * d + m = v" for d m v y :: nat using that by simp
  ultimately have "le_nat (mul58 c (b # bs)) = ?v + 256 * (58 * le_nat bs)" by (metis mult_div_mod_eq)
  then show ?case by simp
qed (simp add: le_nat_push)

text \<open>No leading zero: the last byte of a little-endian number.\<close>

definition trimmed :: "bytes \<Rightarrow> bool" where
  "trimmed bs \<longleftrightarrow> bs = [] \<or> last bs \<noteq> 0"

lemma trimmed_push: "trimmed (push_carry n)"
proof (induction n rule: push_carry.induct)
  case (1 n)
  show ?case
  proof (cases "n = 0")
    case True
    then show ?thesis by (simp add: trimmed_def push_carry.simps)
  next
    case False
    have "push_carry n = word_of_nat n # push_carry (n div 256)" using False by (subst push_carry.simps) simp
    moreover have "(word_of_nat n :: byte) \<noteq> 0" if "push_carry (n div 256) = []"
    proof -
      have "n div 256 = 0" using that by (metis le_nat.simps(1) le_nat_push)
      then have "n < 256" by simp
      then have "unat (word_of_nat n :: byte) = n" by (intro unat_word_of_nat_less) simp
      then show ?thesis using False by (metis unat_0)
    qed
    ultimately show ?thesis using 1 [OF False] by (auto simp: trimmed_def)
  qed
qed

lemma trimmed_mul58: "trimmed bs \<Longrightarrow> trimmed (mul58 c bs)"
proof (induction bs arbitrary: c)
  case (Cons b bs)
  let ?v = "unat b * 58 + c"
  have m: "mul58 c (b # bs) = word_of_nat ?v # mul58 (?v div 256) bs" by (simp add: Let_def)
  show ?case
  proof (cases "mul58 (?v div 256) bs = []")
    case True
    then have z: "bs = []" "?v div 256 = 0"
      by (metis list.exhaust list.discI mul58.simps(2)) (metis True add_eq_0_iff_both_eq_0 le_nat.simps(1) le_nat_mul58)
    then have "b \<noteq> 0" "?v < 256" using Cons.prems by (auto simp: trimmed_def)
    then have "unat (word_of_nat ?v :: byte) = ?v" "0 < unat b"
      by (auto intro: unat_word_of_nat_less simp: unat_gt_0 simp del: of_nat_add of_nat_mult)
    then have "(word_of_nat ?v :: byte) \<noteq> 0" by (metis add_gr_0 mult_pos_pos not_less_zero unat_0 zero_less_numeral)
    then show ?thesis by (simp only: m True trimmed_def last.simps) simp
  next
    case False
    have "trimmed bs" using Cons.prems by (auto simp: trimmed_def split: if_splits)
    then show ?thesis using Cons.IH [of "?v div 256"] False unfolding m trimmed_def by simp
  qed
qed (simp add: trimmed_push)

lemma trimmed_unique: "trimmed a \<Longrightarrow> trimmed b \<Longrightarrow> le_nat a = le_nat b \<Longrightarrow> a = b"
proof (induction a arbitrary: b)
  have pos: "0 < le_nat b" if "trimmed b" "b \<noteq> []" for b
  proof -
    have "b = butlast b @ [last b]" using that(2) by simp
    then have "le_nat b = le_nat (butlast b) + 256 ^ length (butlast b) * unat (last b)"
      by (metis add.right_neutral le_nat.simps le_nat_append mult_0_right)
    moreover have "0 < unat (last b)" using that by (simp add: trimmed_def unat_gt_0)
    ultimately show ?thesis by simp
  qed
  {
    case Nil
    then show ?case using pos [of b] by fastforce
  next
    case (Cons x a)
    then obtain y c where b: "b = y # c" using pos [of "x # a"] by (cases b) auto
    have e: "unat x + 256 * le_nat a = unat y + 256 * le_nat c" using Cons.prems(3) b by simp
    then have "(unat x + 256 * le_nat a) mod 256 = (unat y + 256 * le_nat c) mod 256" by simp
    then have xy: "unat x = unat y" using unat_byte_less [of x] unat_byte_less [of y] by simp
    moreover have "trimmed a" "trimmed c" using Cons.prems(1,2) b by (auto simp: trimmed_def split: if_splits)
    ultimately show ?case using Cons.IH [of c] e b by (simp add: word_unat_eq_iff)
  }
qed

lemma alphabet_index:
  assumes "r < 58"
  shows "b58_digit (BASE58_ALPHABET ! r) = Some r" "BASE58_ALPHABET ! r = CHR ''1'' \<longleftrightarrow> r = 0"
proof -
  have len: "length BASE58_ALPHABET = 58" by (simp add: BASE58_ALPHABET_def)
  have d: "distinct BASE58_ALPHABET" by (simp add: BASE58_ALPHABET_def)
  have first: "BASE58_ALPHABET ! 0 = CHR ''1''" by (simp add: BASE58_ALPHABET_def)
  have "length (takeWhile (\<lambda>x. x \<noteq> BASE58_ALPHABET ! r) (BASE58_ALPHABET @ [CHR 0x00])) = r"
  proof -
    have "BASE58_ALPHABET ! r \<notin> set (take r BASE58_ALPHABET)"
      using d assms len by (auto simp: in_set_conv_nth nth_eq_iff_index_eq)
    moreover have "BASE58_ALPHABET = take r BASE58_ALPHABET @ BASE58_ALPHABET ! r # drop (Suc r) BASE58_ALPHABET"
      using assms len by (intro id_take_nth_drop) simp
    then have e: "BASE58_ALPHABET @ [CHR 0x00] =
        take r BASE58_ALPHABET @ BASE58_ALPHABET ! r # drop (Suc r) BASE58_ALPHABET @ [CHR 0x00]"
      by (metis append.assoc append_Cons)
    ultimately have "takeWhile (\<lambda>x. x \<noteq> BASE58_ALPHABET ! r) (BASE58_ALPHABET @ [CHR 0x00]) = take r BASE58_ALPHABET"
      unfolding e by (intro takeWhile_neq_append)
    then show ?thesis using assms len by simp
  qed
  then show "b58_digit (BASE58_ALPHABET ! r) = Some r" using assms by (simp add: b58_digit_def)
  show "BASE58_ALPHABET ! r = CHR ''1'' \<longleftrightarrow> r = 0"
    using nth_eq_iff_index_eq [OF d, of r 0] assms len first by simp
qed

definition digits_value :: "nat list \<Rightarrow> nat" where
  "digits_value ds = foldr (\<lambda>d n. d + 58 * n) ds 0"

lemma digits_value_simps [simp]: "digits_value [] = 0" "digits_value (d # ds) = d + 58 * digits_value ds"
  by (simp_all add: digits_value_def)

lemma b58_digits_value:
  "be_nat dat = digits_value (b58_digits dat) \<and> list_all (\<lambda>r. r < 58) (b58_digits dat) \<and>
     (dat \<noteq> [] \<and> hd dat \<noteq> 0 \<longrightarrow> last (b58_digits dat) \<noteq> 0)"
proof (induction dat rule: b58_digits.induct)
  case (1 dat)
  show ?case
  proof (cases "dat = []")
    case True
    then show ?thesis by (simp add: b58_digits.simps)
  next
    case False
    obtain q r where d: "div58 0 dat = (q, r)" by fastforce
    let ?rest = "dropWhile (\<lambda>b. b = 0) q"
    have v: "length q = length dat" "r < 58" "be_nat dat = 58 * be_nat q + r" using div58_value [OF _ d] by simp_all
    have IH: "be_nat ?rest = digits_value (b58_digits ?rest)" "list_all (\<lambda>r. r < 58) (b58_digits ?rest)"
      "?rest \<noteq> [] \<and> hd ?rest \<noteq> 0 \<longrightarrow> last (b58_digits ?rest) \<noteq> 0"
      using 1 [OF False d [symmetric] refl] by blast+
    have b: "b58_digits dat = r # b58_digits ?rest" using False d by (subst b58_digits.simps) simp
    have "last (b58_digits dat) \<noteq> 0" if "hd dat \<noteq> 0"
    proof (cases "?rest = []")
      case True
      then have "be_nat q = 0" using be_nat_drop [of q] by (metis be_nat.simps(1))
      moreover have "be_nat dat \<noteq> 0" using that False by (cases dat) (auto simp: unat_eq_zero)
      ultimately have "r \<noteq> 0" using v(3) by simp
      then show ?thesis using b True by (simp add: b58_digits.simps)
    next
      case ne: False
      then have "hd ?rest \<noteq> 0" using hd_dropWhile [of "\<lambda>b. b = 0" q] by blast
      moreover have "b58_digits ?rest \<noteq> []" using ne by (subst b58_digits.simps) (simp split: prod.splits)
      ultimately show ?thesis using IH(3) ne b by simp
    qed
    then show ?thesis using IH v b be_nat_drop [of q] by simp
  qed
qed

lemma accumulate_digits:
  assumes "list_all (\<lambda>r. r < 58) ds"
  shows "\<exists>out. b58_accumulate res (map (\<lambda>r. BASE58_ALPHABET ! r) (rev ds)) = Some out \<and>
    le_nat out = 58 ^ length ds * le_nat res + digits_value ds \<and> (trimmed res \<longrightarrow> trimmed out)"
  using assms
proof (induction ds arbitrary: res)
  case (Cons d ds)
  have app: "b58_accumulate res (a @ b) = Option.bind (b58_accumulate res a) (\<lambda>x. b58_accumulate x b)" for res a b
    by (induction res a rule: b58_accumulate.induct) (auto split: option.splits)
  obtain out where out: "b58_accumulate res (map (\<lambda>r. BASE58_ALPHABET ! r) (rev ds)) = Some out"
    "le_nat out = 58 ^ length ds * le_nat res + digits_value ds" "trimmed res \<longrightarrow> trimmed out"
    using Cons by auto
  then show ?case
    using Cons.prems alphabet_index(1) [of d] by (simp add: app le_nat_mul58 trimmed_mul58 algebra_simps)
qed simp

lemma base58_decode_encode: "base58Decode (base58Encode bs) = Some bs"
proof -
  define z where "z = length (takeWhile (\<lambda>b. b = 0) bs)"
  define dat where "dat = dropWhile (\<lambda>b. b = 0) bs"
  define ds where "ds = b58_digits dat"
  have dat: "drop z bs = dat" by (simp add: z_def dat_def dropWhile_eq_drop)
  have bs: "bs = replicate z 0 @ dat"
  proof -
    have "takeWhile (\<lambda>b. b = 0) bs = replicate z 0"
      unfolding z_def by (rule replicate_length_same [symmetric]) (auto dest: set_takeWhileD)
    then show ?thesis using takeWhile_dropWhile_id [of "\<lambda>b. b = 0" bs] by (simp add: dat_def)
  qed
  have hd0: "dat \<noteq> [] \<Longrightarrow> hd dat \<noteq> 0" using hd_dropWhile [of "\<lambda>b. b = 0" bs] by (simp add: dat_def)
  have v: "be_nat dat = digits_value ds" "list_all (\<lambda>r. r < 58) ds" "dat \<noteq> [] \<Longrightarrow> last ds \<noteq> 0"
    using b58_digits_value [of dat] hd0 by (simp_all add: ds_def)
  have ne: "ds = [] \<longleftrightarrow> dat = []" unfolding ds_def by (subst b58_digits.simps) (simp split: prod.splits)
  let ?e = "replicate z (CHR ''1'') @ map (\<lambda>r. BASE58_ALPHABET ! r) (rev ds)"
  have enc: "base58Encode bs = ?e" by (simp add: base58Encode_def z_def [symmetric] dat ds_def rev_map)
  have one: "b58_digit (CHR ''1'') = Some 0" by code_simp
  have ones: "b58_accumulate [] (replicate n (CHR ''1'') @ s) = b58_accumulate [] s" for n s
    by (induction n) (simp_all add: one push_carry.simps)
  have lead: "takeWhile (\<lambda>c. c = CHR ''1'') ?e = replicate z (CHR ''1'')"
  proof (cases "ds = []")
    case False
    then have "BASE58_ALPHABET ! last ds \<noteq> CHR ''1''"
      using v(2,3) ne alphabet_index(2) [of "last ds"] by (simp add: list_all_iff)
    then have "takeWhile (\<lambda>c. c = CHR ''1'') (map (\<lambda>r. BASE58_ALPHABET ! r) (rev ds)) = []"
      using False by (cases ds rule: rev_cases) auto
    then show ?thesis by (simp add: takeWhile_append)
  qed simp
  obtain out where out: "b58_accumulate [] (map (\<lambda>r. BASE58_ALPHABET ! r) (rev ds)) = Some out"
    "le_nat out = digits_value ds" "trimmed out"
    using accumulate_digits [OF v(2), of "[]"] by (auto simp: trimmed_def)
  have "trimmed (rev dat)" using hd0 by (cases dat) (auto simp: trimmed_def)
  then have "out = rev dat" using trimmed_unique [OF out(3)] out(2) v(1) by (simp add: le_nat_rev)
  then have "base58Decode ?e = Some (replicate z 0 @ dat)"
    using out(1) unfolding base58Decode_def lead ones by simp
  then show ?thesis unfolding enc using bs by simp
qed

subsection \<open>Addresses\<close>

definition MAINNET_P2PKH_VERSION :: byte where "MAINNET_P2PKH_VERSION = 0x41"

definition decodeBase58Check :: "crypto \<Rightarrow> string \<Rightarrow> bytes option" where
  "decodeBase58Check C base58Addr =
     (case base58Decode base58Addr of
        None \<Rightarrow> None
      | Some raw \<Rightarrow>
          if length raw < 4 then None
          else
            let dat = take (length raw - 4) raw; cksum = drop (length raw - 4) raw in
            if take 4 (SHA256 C (SHA256 C dat)) \<noteq> cksum then None else Some raw)"

definition encodeBase58Check :: "crypto \<Rightarrow> bytes \<Rightarrow> string" where
  "encodeBase58Check C dat = base58Encode (dat @ take 4 (SHA256 C (SHA256 C dat)))"

definition isValidAddress :: "crypto \<Rightarrow> string \<Rightarrow> bool" where
  "isValidAddress C addr =
     (case decodeBase58Check C addr of
        None \<Rightarrow> False | Some decoded \<Rightarrow> length decoded = 25 \<and> decoded ! 0 = MAINNET_P2PKH_VERSION)"

definition computeHash160 :: "crypto \<Rightarrow> bytes \<Rightarrow> bytes" where
  "computeHash160 C dat = RIPEMD160 C (SHA256 C dat)"

definition createP2PKHScriptHexFromAddress :: "crypto \<Rightarrow> string \<Rightarrow> string option" where
  "createP2PKHScriptHexFromAddress C base58Addr =
     (case decodeBase58Check C base58Addr of
        None \<Rightarrow> None
      | Some decoded \<Rightarrow>
          if length decoded \<noteq> 25 then None
          else if decoded ! 0 \<noteq> MAINNET_P2PKH_VERSION then None
          else Some (hex_encode ([0x76, 0xa9, 0x14] @ slice 1 20 decoded @ [0x88, 0xac])))"

definition doesPubKeyMatchAddress :: "crypto \<Rightarrow> bytes \<Rightarrow> string \<Rightarrow> bool option" where
  "doesPubKeyMatchAddress C pubkey base58Addr =
     (case decodeBase58Check C base58Addr of
        None \<Rightarrow> None
      | Some decoded \<Rightarrow>
          if length decoded \<noteq> 25 \<or> decoded ! 0 \<noteq> MAINNET_P2PKH_VERSION then Some False
          else Some (take (length (computeHash160 C pubkey)) (drop 1 decoded) = computeHash160 C pubkey))"

definition pubkeyToAddress :: "crypto \<Rightarrow> bytes \<Rightarrow> string" where
  "pubkeyToAddress C pubkey = encodeBase58Check C (MAINNET_P2PKH_VERSION # computeHash160 C pubkey)"

text \<open>\<open>isxdigit\<close> in the C locale.\<close>

definition isContractAddress :: "string \<Rightarrow> bool" where
  "isContractAddress addr \<longleftrightarrow>
     (let tid = takeWhile (\<lambda>c. c \<noteq> CHR '':'') addr; rest = dropWhile (\<lambda>c. c \<noteq> CHR '':'') addr in
      if rest = [] then False
      else if length tid \<noteq> 64 then False
      else if \<not> list_all (\<lambda>c. nibble c \<noteq> None) tid then False
      else stoull (tl rest) \<noteq> None)"

definition isValidAddressOrContract :: "crypto \<Rightarrow> string \<Rightarrow> bool" where
  "isValidAddressOrContract C addr \<longleftrightarrow> isValidAddress C addr \<or> isContractAddress addr"

subsection \<open>The address of a lock script\<close>

fun find_sub :: "string \<Rightarrow> string \<Rightarrow> nat option" where
  "find_sub p [] = (if p = [] then Some 0 else None)"
| "find_sub p (c # s) = (if prefix p (c # s) then Some 0 else map_option Suc (find_sub p s))"

text \<open>The regular expression \<open>(f7|f8|f9|fa|fb|fc|fd)\<close>, case ignored.\<close>

fun mentions_stateful :: "string \<Rightarrow> bool" where
  "mentions_stateful (a # b # s) \<longleftrightarrow>
     (nibble a = Some 15 \<and> (\<exists>n\<in>{7..13}. nibble b = Some n)) \<or> mentions_stateful (b # s)"
| "mentions_stateful _ \<longleftrightarrow> False"

definition p2pkh_hex :: "string \<Rightarrow> bool" where
  "p2pkh_hex scriptHex \<longleftrightarrow>
     length scriptHex = 50 \<and> take 6 scriptHex = ''76a914'' \<and> drop 46 scriptHex = ''88ac''"

definition p2pkh_address :: "crypto \<Rightarrow> string \<Rightarrow> string option" where
  "p2pkh_address C scriptHex =
     map_option (\<lambda>hash. encodeBase58Check C (MAINNET_P2PKH_VERSION # hash)) (hexDecode (slice 6 40 scriptHex))"

definition outpoint_name :: "string \<Rightarrow> u32 \<Rightarrow> string" where
  "outpoint_name tid n = tid @ '':'' @ dec_string (unat n)"

lemma parseLock_shape: "parseLock s = Some t \<Longrightarrow> length s = 286 \<and> length (seller t) = 40"
proof -
  assume "parseLock s = Some t"
  then obtain b where b: "hex_decode s = Some b" "length b = 143" "decode (slice 2 139 b) = Some t"
    by (auto simp: parseLock_def split: option.splits if_splits)
  then have "valid t" by (auto simp: decode_def Let_def split: if_splits)
  then have "length (seller t) = 40" unfolding valid_def by presburger
  then show ?thesis using hex_decode_length [OF b(1)] b(2) by simp
qed

definition extract_measure :: "string \<Rightarrow> nat" where
  "extract_measure s =
     (if p2pkh_hex s then 0 else if prefix ''76a914'' s \<and> length s < 50 then 50 - length s else 51)"

lemma pay_p2pkh: "length h = 40 \<Longrightarrow> p2pkh_hex (pay h)"
  by (simp add: p2pkh_hex_def pay_def)

lemma find_sub_Some: "find_sub p s = Some n \<Longrightarrow> prefix p (drop n s) \<and> n \<le> length s"
proof (induction s arbitrary: n)
  case (Cons c s)
  then show ?case by (cases n) (auto split: if_splits)
qed (auto split: if_splits)

lemma find_sub_prefix: "prefix p s \<Longrightarrow> find_sub p s = Some 0"
  by (cases s) simp_all

lemma extract_smaller:
  assumes "\<not> p2pkh_hex s" "find_sub ''76a914'' s = Some p"
  shows "extract_measure (pay (take 40 (drop (p + 6) s))) < extract_measure s"
proof -
  have len: "length s = p + 6 + length (drop (p + 6) s)"
    using find_sub_Some [OF assms(2)] prefix_length_le [of "''76a914''" "drop p s"] by simp
  show ?thesis
  proof (cases "40 \<le> length (drop (p + 6) s)")
    case True
    then have "p2pkh_hex (pay (take 40 (drop (p + 6) s)))" by (intro pay_p2pkh) simp
    then show ?thesis using assms(1) by (simp add: extract_measure_def)
  next
    case False
    let ?h = "drop (p + 6) s"
    have t: "take 40 ?h = ?h" using False by simp
    have m: "extract_measure (pay ?h) = 40 - length ?h"
      using False by (simp add: extract_measure_def p2pkh_hex_def pay_def)
    have "40 - length ?h < extract_measure s"
    proof (cases "prefix ''76a914'' s")
      case True
      then have "p = 0" using assms(2) find_sub_prefix [of "''76a914''" s] by (simp only: option.inject)
      then have n: "length s = 6 + length ?h" using len by linarith
      then have "length s < 50" using False by linarith
      then have "extract_measure s = 50 - length s"
        unfolding extract_measure_def using assms(1) True by (simp only: if_False if_True simp_thms)
      then show ?thesis using n False by linarith
    qed (use assms(1) in \<open>simp add: extract_measure_def\<close>)
    then show ?thesis by (simp only: t m)
  qed
qed

text \<open>
  \<open>tokenOwner\<close> stands for \<open>parseExtendedTokenScript\<close>: the owner a token script records, if it parses.
  The recursive call for a lock that mentions \<open>b1\<close> takes the default height 0.
\<close>

function extractAddressFromScriptPubKey ::
    "crypto \<Rightarrow> (string \<Rightarrow> string \<Rightarrow> string option) \<Rightarrow> string \<Rightarrow> string \<Rightarrow> u32 \<Rightarrow> u32 \<Rightarrow> string option" where
  "extractAddressFromScriptPubKey C tokenOwner scriptHex tid n outputHeight =
     (case (if active outputHeight MARKET_HEIGHT then parseLock scriptHex else None) of
        Some market09 \<Rightarrow> extractAddressFromScriptPubKey C tokenOwner (pay (seller market09)) tid n outputHeight
      | None \<Rightarrow>
          if active outputHeight WOTS_HEIGHT \<and>
             (case unhex scriptHex of None \<Rightarrow> False | Some s \<Rightarrow> canonicalScript s)
          then Some (outpoint_name tid n)
          else if prefix ''6a'' scriptHex
          then Some (case tokenOwner scriptHex tid of Some own \<Rightarrow> own | None \<Rightarrow> outpoint_name tid n)
          else if p2pkh_hex scriptHex then p2pkh_address C scriptHex
          else case (find_sub ''b1'' scriptHex, find_sub ''76a914'' scriptHex) of
            (Some _, Some p) \<Rightarrow>
              extractAddressFromScriptPubKey C tokenOwner (pay (take 40 (drop (p + 6) scriptHex))) tid n 0
          | _ \<Rightarrow> if mentions_stateful scriptHex then Some (outpoint_name tid n) else Some '''')"
  by auto
termination
proof (relation "measure (\<lambda>(C, T, s, tid, n, h). extract_measure s)")
  fix C :: crypto and T :: "string \<Rightarrow> string \<Rightarrow> string option" and s tid :: string and n h :: u32 and t
  assume "(if active h MARKET_HEIGHT then parseLock s else None) = Some t"
  then have "length s = 286" "length (seller t) = 40" using parseLock_shape by (auto split: if_splits)
  then have "extract_measure (pay (seller t)) = 0" "extract_measure s = 51"
    using pay_p2pkh by (simp_all add: extract_measure_def) (simp add: p2pkh_hex_def)
  then show "((C, T, pay (seller t), tid, n, h), (C, T, s, tid, n, h)) \<in> measure (\<lambda>(C, T, s, tid, n, h). extract_measure s)"
    by simp
next
  fix C :: crypto and T :: "string \<Rightarrow> string \<Rightarrow> string option" and s tid :: string and n h :: u32 and b1 p z q
  assume "\<not> p2pkh_hex s" "(b1, q) = (find_sub ''b1'' s, find_sub ''76a914'' s)" "q = Some p"
  then show "((C, T, pay (take 40 (drop (p + 6) s)), tid, n, 0), (C, T, s, tid, n, h)) \<in> measure (\<lambda>(C, T, s, tid, n, h). extract_measure s)"
    using extract_smaller [of s p] by simp
qed simp

declare extractAddressFromScriptPubKey.simps [simp del]

subsection \<open>Locks and their addresses\<close>

text \<open>The digest of OpenSSL has 32 bytes.\<close>

definition sha256_ok :: "crypto \<Rightarrow> bool" where
  "sha256_ok C \<longleftrightarrow> (\<forall>x. length (SHA256 C x) = 32)"

lemma decode_check_encode:
  assumes "sha256_ok C"
  shows "decodeBase58Check C (encodeBase58Check C dat) = Some (dat @ take 4 (SHA256 C (SHA256 C dat)))"
  using assms by (simp add: decodeBase58Check_def encodeBase58Check_def base58_decode_encode sha256_ok_def)

text \<open>The address of a 20-byte key hash.\<close>

definition hash_address :: "crypto \<Rightarrow> bytes \<Rightarrow> string" where
  "hash_address C h = encodeBase58Check C (MAINNET_P2PKH_VERSION # h)"

lemma decode_hash_address:
  assumes "sha256_ok C" "length h = 20"
  shows "\<exists>c. decodeBase58Check C (hash_address C h) = Some ((MAINNET_P2PKH_VERSION # h) @ c) \<and> length c = 4"
  using decode_check_encode [OF assms(1)] assms(1) by (simp add: hash_address_def sha256_ok_def)

lemma address_of_p2pkh:
  assumes "length h = 20"
  shows "extractAddressFromScriptPubKey C tokenOwner (hex_encode (p2pkh_script h)) tid n outputHeight =
    Some (hash_address C h)"
proof -
  let ?s = "hex_encode (p2pkh_script h)"
  have len: "length ?s = 50" using assms by simp
  have s: "take 6 ?s = ''76a914''" "drop 46 ?s = ''88ac''" "slice 6 40 ?s = hex_encode h"
    using assms unfolding hex_encode_p2pkh by (simp_all add: slice_def)
  have "parseLock ?s = None" using parseLock_shape [of ?s] len by (cases "parseLock ?s") auto
  moreover have "\<not> canonicalScript (p2pkh_script h)" using assms by (simp add: canonicalScript_def)
  moreover have "\<not> prefix ''6a'' ?s" unfolding hex_encode_p2pkh by simp
  moreover have "p2pkh_hex ?s" using s len by (simp only: p2pkh_hex_def simp_thms)
  moreover have "p2pkh_address C ?s = Some (hash_address C h)" by (simp add: p2pkh_address_def s(3) hash_address_def)
  ultimately show ?thesis by (subst extractAddressFromScriptPubKey.simps) simp
qed

lemma hash_address_nonempty: "hash_address C h \<noteq> []"
proof
  assume "hash_address C h = []"
  moreover have "base58Decode (hash_address C h) =
      Some (MAINNET_P2PKH_VERSION # h @ take 4 (SHA256 C (SHA256 C (MAINNET_P2PKH_VERSION # h))))"
    by (simp add: hash_address_def encodeBase58Check_def base58_decode_encode)
  moreover have "base58Decode [] = Some []" by (simp add: base58Decode_def)
  ultimately show False by simp
qed

text \<open>
  C34: a P2PKH lock and its address determine each other. The address the code shows for the lock of
  a key hash, at any height, is a valid address, the lock built from it is the same lock again, it
  matches exactly the public keys with that hash, and two hashes never share an address.
\<close>

theorem p2pkh_address_roundtrip:
  assumes "sha256_ok C" "length h = 20"
  shows "\<exists>addr. (\<forall>outputHeight. extractAddressFromScriptPubKey C tokenOwner (hex_encode (p2pkh_script h)) tid n outputHeight = Some addr) \<and>
    isValidAddress C addr \<and> createP2PKHScriptHexFromAddress C addr = Some (hex_encode (p2pkh_script h)) \<and>
    (length (computeHash160 C pk) = 20 \<longrightarrow> doesPubKeyMatchAddress C pk addr = Some (computeHash160 C pk = h)) \<and>
    (computeHash160 C pk = h \<longrightarrow> pubkeyToAddress C pk = addr)"
proof -
  obtain c where c: "decodeBase58Check C (hash_address C h) = Some ((MAINNET_P2PKH_VERSION # h) @ c)" "length c = 4"
    using decode_hash_address [OF assms] by blast
  have sl: "slice 1 20 ((MAINNET_P2PKH_VERSION # h) @ c) = h" using assms(2) by (simp add: slice_def)
  have "isValidAddress C (hash_address C h)" using c assms(2) by (simp add: isValidAddress_def)
  moreover have "createP2PKHScriptHexFromAddress C (hash_address C h) = Some (hex_encode (p2pkh_script h))"
    using c assms(2) by (simp only: createP2PKHScriptHexFromAddress_def option.case sl) (simp add: p2pkh_script_def)
  moreover have "doesPubKeyMatchAddress C pk (hash_address C h) = Some (computeHash160 C pk = h)"
    if "length (computeHash160 C pk) = 20"
    using c assms(2) that by (auto simp: doesPubKeyMatchAddress_def)
  moreover have "pubkeyToAddress C pk = hash_address C h" if "computeHash160 C pk = h"
    using that by (simp add: pubkeyToAddress_def hash_address_def)
  ultimately show ?thesis using address_of_p2pkh [OF assms(2)] by (intro exI [of _ "hash_address C h"]) blast
qed

definition pad_crypto :: crypto where
  "pad_crypto = toy_crypto\<lparr>SHA256 := \<lambda>x. take 32 (x @ replicate 32 0), RIPEMD160 := take 20\<rparr>"

lemma pad_crypto_ok: "sha256_ok pad_crypto"
  by (simp add: sha256_ok_def pad_crypto_def min_def)

theorem p2pkh_address_roundtrip_witness:
  "\<exists>addr. extractAddressFromScriptPubKey pad_crypto (\<lambda>_ _. None) (hex_encode (p2pkh_script (replicate 20 7))) [] 0 1 = Some addr \<and>
     isValidAddress pad_crypto addr \<and> pubkeyToAddress pad_crypto (replicate 33 7) = addr"
proof -
  have l: "length (replicate 20 7 :: bytes) = 20" by simp
  have h: "computeHash160 pad_crypto (replicate 33 7) = replicate 20 7"
    by (simp add: computeHash160_def pad_crypto_def)
  from p2pkh_address_roundtrip [OF pad_crypto_ok l, of "\<lambda>_ _. None" "[]" 0 "replicate 33 7"] h show ?thesis by blast
qed

subsection \<open>The search ends\<close>

text \<open>
  The search as the code runs it, on a stack with room for \<open>k\<close> nested calls; \<open>None\<close> when it runs out.
\<close>

fun extract_fuel ::
    "nat \<Rightarrow> crypto \<Rightarrow> (string \<Rightarrow> string \<Rightarrow> string option) \<Rightarrow> string \<Rightarrow> string \<Rightarrow> u32 \<Rightarrow> u32 \<Rightarrow> string option option" where
  "extract_fuel 0 C tokenOwner scriptHex tid n outputHeight = None"
| "extract_fuel (Suc k) C tokenOwner scriptHex tid n outputHeight =
     (case (if active outputHeight MARKET_HEIGHT then parseLock scriptHex else None) of
        Some market09 \<Rightarrow> extract_fuel k C tokenOwner (pay (seller market09)) tid n outputHeight
      | None \<Rightarrow>
          if active outputHeight WOTS_HEIGHT \<and>
             (case unhex scriptHex of None \<Rightarrow> False | Some s \<Rightarrow> canonicalScript s)
          then Some (Some (outpoint_name tid n))
          else if prefix ''6a'' scriptHex
          then Some (Some (case tokenOwner scriptHex tid of Some own \<Rightarrow> own | None \<Rightarrow> outpoint_name tid n))
          else if p2pkh_hex scriptHex then Some (p2pkh_address C scriptHex)
          else case (find_sub ''b1'' scriptHex, find_sub ''76a914'' scriptHex) of
            (Some _, Some p) \<Rightarrow>
              extract_fuel k C tokenOwner (pay (take 40 (drop (p + 6) scriptHex))) tid n 0
          | _ \<Rightarrow> Some (if mentions_stateful scriptHex then Some (outpoint_name tid n) else Some ''''))"

lemma extract_fuel_enough:
  "extract_measure s < k \<Longrightarrow> extract_fuel k C T s tid n h = Some (extractAddressFromScriptPubKey C T s tid n h)"
proof (induction k arbitrary: s h)
  case (Suc k)
  show ?case
  proof (cases "if active h MARKET_HEIGHT then parseLock s else None")
    case (Some t)
    then have "length s = 286" "length (seller t) = 40" using parseLock_shape by (auto split: if_splits)
    then have m: "extract_measure (pay (seller t)) = 0" "extract_measure s = 51"
      using pay_p2pkh by (simp_all add: extract_measure_def) (simp add: p2pkh_hex_def)
    then have "extract_fuel k C T (pay (seller t)) tid n h = Some (extractAddressFromScriptPubKey C T (pay (seller t)) tid n h)"
      using Suc.prems by (intro Suc.IH) simp
    then show ?thesis by (simp add: extractAddressFromScriptPubKey.simps [of C T s] Some del: if_split)
  next
    case None
    have "extract_fuel k C T (pay (take 40 (drop (p + 6) s))) tid n 0 =
        Some (extractAddressFromScriptPubKey C T (pay (take 40 (drop (p + 6) s))) tid n 0)"
      if "\<not> p2pkh_hex s" "find_sub ''76a914'' s = Some p" for p
      using Suc.prems extract_smaller [OF that] by (intro Suc.IH) simp
    then show ?thesis
      by (simp add: extractAddressFromScriptPubKey.simps [of C T s] None split: option.split)
  qed
qed simp

text \<open>
  C40: finding the address of an output ends. Whatever the script, and however its nested locks refer back to
  scripts, the search for the address makes at most 52 nested calls, and then gives its result.
\<close>

theorem address_search_ends:
  "extract_fuel 52 C T s tid n h = Some (extractAddressFromScriptPubKey C T s tid n h)"
proof (rule extract_fuel_enough)
  have "50 - length s < 52" by linarith
  then show "extract_measure s < 52" by (simp add: extract_measure_def)
qed

end
