(* ===== verification/State_Commit.thy ===== *)
theory State_Commit
  imports Voting_Calls Token_Issuer_Calls Addresses
begin

text \<open>
  What \<open>Blockchain::applyBlock\<close> (\<open>src/src/blockchain.cpp\<close>) does with contract state: phase 3.5 creates
  the roots of a block, phase 3.6 executes its calls again and queues their changes. Both read the
  database as it was before the block and append to the batch that is written at the end; the other
  phases append records under other keys. \<open>utxos\<close> is the reader of unspent outputs (\<open>getUTXO\<close>),
  \<open>tokenOwner\<close> the owner of a token script. A failure makes the whole block fail.
\<close>

type_synonym utxo_view = "string \<Rightarrow> u32 \<Rightarrow> UTXO option"

subsection \<open>Phase 3.5: creating roots\<close>

text \<open>A read that fails counts as a key that exists.\<close>

definition key_absent :: "'d leveldb \<Rightarrow> 'd \<Rightarrow> string \<Rightarrow> bool" where
  "key_absent L d key \<longleftrightarrow> getRaw L d key = Some None"

fun init_puts :: "'d leveldb \<Rightarrow> 'd \<Rightarrow> string \<Rightarrow> entries \<Rightarrow> string + batch_op list" where
  "init_puts L d rt [] = Inr []"
| "init_puts L d rt ((k, v) # rest) =
     (let stateKey = BuildContractStateKey rt k in
      if stateKey = [] then Inl ''invalid durable state key''
      else if \<not> key_absent L d stateKey then Inl (''initial contract state key already exists: '' @ stateKey)
      else case init_puts L d rt rest of
        Inl e \<Rightarrow> Inl e
      | Inr puts \<Rightarrow> Inr (BatchPut stateKey (string_of_bytes v) # puts))"

definition family_puts :: "StatefulCreationFamily \<Rightarrow> string \<Rightarrow> batch_op list" where
  "family_puts fam familyKey =
     (if fam = VotingV1 then [BatchPut familyKey ''voting_v1'']
      else if fam = TokenIssuerV1 then [BatchPut familyKey ''token_issuer_v1''] else [])"

text \<open>The registry records and the state of one root.\<close>

definition root_puts ::
    "'d leveldb \<Rightarrow> 'd \<Rightarrow> string \<Rightarrow> string \<Rightarrow> StatefulCreationShapeResult \<Rightarrow> string + batch_op list" where
  "root_puts L d rt creatorHash160 stateCreation =
     (let lineageKey = BuildContractLineageKey rt; liveKey = BuildContractLiveKey rt;
          ownerKey = BuildContractOwnerKey rt; familyKey = BuildContractFamilyKey rt in
      case find (\<lambda>key. \<not> key_absent L d key) [lineageKey, liveKey, ownerKey, familyKey] of
        Some key \<Rightarrow> Inl (''state root registry key already exists: '' @ key)
      | None \<Rightarrow>
          (case init_puts L d rt (entries (initEnvelope stateCreation)) of
             Inl e \<Rightarrow> Inl e
           | Inr puts \<Rightarrow>
               Inr ([BatchPut lineageKey rt, BatchPut liveKey rt, BatchPut ownerKey creatorHash160] @
                    family_puts (family stateCreation) familyKey @ puts)))"

definition create_root ::
    "'d leveldb \<Rightarrow> 'd \<Rightarrow> utxo_view \<Rightarrow> 'j Transaction \<Rightarrow> StatefulCreationShapeResult \<Rightarrow> string list \<Rightarrow>
       string + string \<times> batch_op list" where
  "create_root L d utxos tx stateCreation createdStateRoots =
     (case res_targetVout stateCreation of
        None \<Rightarrow> Inl ''stateful target vout exceeds uint32_t''
      | Some t \<Rightarrow>
          if t > 2 ^ 32 - 1 then Inl ''stateful target vout exceeds uint32_t''
          else
            let rt = BuildCanonicalContractOutpoint (txid tx) (word_of_nat t) in
            if rt = [] \<or> rt \<in> set createdStateRoots then Inl (''invalid/duplicate state root: '' @ rt)
            else if BuildContractLineageKey rt = [] \<or> BuildContractLiveKey rt = [] \<or>
                    BuildContractOwnerKey rt = [] \<or> BuildContractFamilyKey rt = []
            then Inl ''unable to derive state root registry keys''
            else if length (vin tx) \<noteq> 1 then Inl ''stateful V1 root lacks one creator input''
            else case utxos (prev_txid (vin tx ! 0)) (prev_vout (vin tx ! 0)) of
              None \<Rightarrow> Inl ''unable to reload creator funding UTXO before commit''
            | Some creatorUtxo \<Rightarrow>
                (case ExtractCanonicalP2PKHHash160Hex (utxo_scriptPubKey creatorUtxo) of
                   None \<Rightarrow> Inl ''creator funding UTXO is not canonical P2PKH''
                 | Some creatorHash160 \<Rightarrow>
                     (case root_puts L d rt creatorHash160 stateCreation of
                        Inl e \<Rightarrow> Inl e | Inr puts \<Rightarrow> Inr (rt, puts))))"

fun create_roots ::
    "'d leveldb \<Rightarrow> 'd \<Rightarrow> utxo_view \<Rightarrow> string list \<Rightarrow> 'j Transaction list \<Rightarrow> string + batch_op list" where
  "create_roots L d utxos createdStateRoots [] = Inr []"
| "create_roots L d utxos createdStateRoots (tx # txs) =
     (case ValidateStatefulCreationShape tx of
        Inl reason \<Rightarrow> Inl (''stateful creation shape diverged from validation: '' @ reason)
      | Inr stateCreation \<Rightarrow>
          if \<not> hasCreation stateCreation then create_roots L d utxos createdStateRoots txs
          else case create_root L d utxos tx stateCreation createdStateRoots of
            Inl e \<Rightarrow> Inl e
          | Inr (rt, puts) \<Rightarrow>
              (case create_roots L d utxos (rt # createdStateRoots) txs of
                 Inl e \<Rightarrow> Inl e | Inr rest \<Rightarrow> Inr (puts @ rest)))"

subsection \<open>Phase 3.6: committing calls\<close>

text \<open>The index of an input is a signed integer in the code.\<close>

definition negative_vout :: "TxIn \<Rightarrow> bool" where
  "negative_vout i \<longleftrightarrow> prev_vout i \<ge> 0x80000000"

definition MAX_SCRIPT_GAS_PER_INPUT :: u64 where "MAX_SCRIPT_GAS_PER_INPUT = 1000000"

text \<open>
  The three ways to execute a call again: the state behind it and, for a token issuer, the key of the
  balance it changes. Only the owner may write to a store.
\<close>

definition reexecute_kv ::
    "crypto \<Rightarrow> 'j Transaction \<Rightarrow> StatefulCallShapeResult \<Rightarrow> bytes \<Rightarrow> ConfirmedStateDomainSnapshot \<Rightarrow> string \<Rightarrow>
       string \<Rightarrow> u32 \<Rightarrow> u32 \<Rightarrow> string + state_map \<times> string" where
  "reexecute_kv C tx callShape anchorScript snapshot callerHash160 callerAddress now height =
     (if callerHash160 \<noteq> snap_ownerHash160 snapshot then Inl ''Stateful K/V caller owner binding mismatch''
      else case ExecuteStatefulKvV1Call C tx callShape anchorScript snapshot callerAddress now height
                  MAX_SCRIPT_GAS_PER_INPUT True of
        Inl reason \<Rightarrow> Inl (''Stateful K/V V1 commit re-execution failed: '' @ reason)
      | Inr r \<Rightarrow> Inr (kv_state r, []))"

definition reexecute_vote ::
    "crypto \<Rightarrow> 'j Transaction \<Rightarrow> StatefulCallShapeResult \<Rightarrow> bytes \<Rightarrow> ConfirmedStateDomainSnapshot \<Rightarrow> string \<Rightarrow>
       string \<Rightarrow> u32 \<Rightarrow> u32 \<Rightarrow> string + state_map \<times> string" where
  "reexecute_vote C tx callShape anchorScript snapshot callerHash160 callerAddress now height =
     (case ExecuteVotingV1Call C tx callShape anchorScript snapshot callerHash160 callerAddress now height
             MAX_SCRIPT_GAS_PER_INPUT True of
        Inl reason \<Rightarrow> Inl (''Voting V1 commit re-execution failed: '' @ reason)
      | Inr r \<Rightarrow> Inr (vote_state r, []))"

definition reexecute_issue ::
    "crypto \<Rightarrow> 'j Transaction \<Rightarrow> StatefulCallShapeResult \<Rightarrow> bytes \<Rightarrow> ConfirmedStateDomainSnapshot \<Rightarrow> string \<Rightarrow>
       string \<Rightarrow> u32 \<Rightarrow> u32 \<Rightarrow> string + state_map \<times> string" where
  "reexecute_issue C tx callShape anchorScript snapshot callerHash160 callerAddress now height =
     (case ExecuteTokenIssuerV1Call C tx callShape anchorScript snapshot callerHash160 callerAddress now height
             MAX_SCRIPT_GAS_PER_INPUT True of
        Inl reason \<Rightarrow> Inl (''Token Issuer V1 commit re-execution failed: '' @ reason)
      | Inr r \<Rightarrow> Inr (issue_state r, issue_balanceKey r))"

definition reexecute ::
    "crypto \<Rightarrow> 'j Transaction \<Rightarrow> StatefulCallShapeResult \<Rightarrow> bytes \<Rightarrow> ConfirmedStateDomainSnapshot \<Rightarrow> string \<Rightarrow>
       string \<Rightarrow> u32 \<Rightarrow> u32 \<Rightarrow> string + state_map \<times> string" where
  "reexecute C tx callShape anchorScript snapshot callerHash160 callerAddress now height =
     (if snap_family snapshot = [] then
        reexecute_kv C tx callShape anchorScript snapshot callerHash160 callerAddress now height
      else if snap_family snapshot = ''voting_v1'' then
        reexecute_vote C tx callShape anchorScript snapshot callerHash160 callerAddress now height
      else if snap_family snapshot = ''token_issuer_v1'' then
        reexecute_issue C tx callShape anchorScript snapshot callerHash160 callerAddress now height
      else Inl ''unsupported stateful family during commit'')"

fun state_puts :: "string \<Rightarrow> (string \<Rightarrow> bool) \<Rightarrow> entries \<Rightarrow> string + batch_op list" where
  "state_puts rt allowed [] = Inr []"
| "state_puts rt allowed ((k, v) # rest) =
     (if \<not> allowed k then Inl ''invalid Token Issuer V1 state delta key''
      else if BuildContractStateKey rt k = [] then Inl ''invalid durable state delta key''
      else case state_puts rt allowed rest of
        Inl e \<Rightarrow> Inl e
      | Inr puts \<Rightarrow> Inr (BatchPut (BuildContractStateKey rt k) (string_of_bytes v) # puts))"

definition changed_entries :: "state_map \<Rightarrow> state_map \<Rightarrow> entries" where
  "changed_entries prior committed = filter (\<lambda>(k, v). map_of prior k \<noteq> Some v) committed"

definition commit_delta ::
    "StatefulCallShapeResult \<Rightarrow> ConfirmedStateDomainSnapshot \<Rightarrow> state_map \<Rightarrow> string \<Rightarrow> string + batch_op list" where
  "commit_delta callShape snapshot committedState tokenBalanceKey =
     (let rt = snap_root snapshot; changed = changed_entries (snap_state snapshot) committedState in
      if snap_family snapshot = ''voting_v1'' then
        (case state_puts rt (\<lambda>_. True) changed of
           Inl e \<Rightarrow> Inl e
         | Inr puts \<Rightarrow>
             if length changed \<noteq> 3 then Inl ''Voting V1 must commit exactly three state deltas'' else Inr puts)
      else if snap_family snapshot = ''token_issuer_v1'' then
        (case state_puts rt (\<lambda>k. k = ''total_issued'' \<or> k = tokenBalanceKey) changed of
           Inl e \<Rightarrow> Inl e
         | Inr puts \<Rightarrow>
             if length changed \<noteq> 2 then Inl ''Token Issuer V1 must commit exactly two state deltas'' else Inr puts)
      else if map_of committedState (logicalKey callShape) \<noteq> Some (call_value callShape)
      then Inl ''Stateful K/V execution delta missing at commit''
      else state_puts rt (\<lambda>_. True) [(logicalKey callShape, call_value callShape)])"

text \<open>The caller: its key hash and its address.\<close>

definition call_caller ::
    "crypto \<Rightarrow> utxo_view \<Rightarrow> (string \<Rightarrow> string \<Rightarrow> string option) \<Rightarrow> TxIn \<Rightarrow> string + string \<times> string" where
  "call_caller C utxos tokenOwner callerVin =
     (if negative_vout callerVin then Inl ''malformed stateful caller vout''
      else case utxos (prev_txid callerVin) (prev_vout callerVin) of
        None \<Rightarrow> Inl ''missing stateful caller funding UTXO''
      | Some callerUtxo \<Rightarrow>
          (case ExtractCanonicalP2PKHHash160Hex (utxo_scriptPubKey callerUtxo) of
             None \<Rightarrow> Inl ''stateful caller is not canonical P2PKH''
           | Some callerHash160 \<Rightarrow>
               (case extractAddressFromScriptPubKey C tokenOwner (utxo_scriptPubKey callerUtxo)
                       (prev_txid callerVin) (prev_vout callerVin) 0 of
                  None \<Rightarrow> Inl ''unable to derive stateful caller address''
                | Some callerAddress \<Rightarrow>
                    if callerAddress = [] then Inl ''unable to derive stateful caller address''
                    else Inr (callerHash160, callerAddress))))"

text \<open>The rollover of the anchor and the changes of the state.\<close>

definition rollover ::
    "'d leveldb \<Rightarrow> 'd \<Rightarrow> 'j Transaction \<Rightarrow> StatefulCallShapeResult \<Rightarrow> ConfirmedStateDomainSnapshot \<Rightarrow>
       state_map \<times> string \<Rightarrow> string + batch_op list" where
  "rollover L d tx callShape snapshot executed =
     (let newCurrent = BuildCanonicalContractOutpoint (txid tx) (word_of_nat (call_continuationVout callShape));
          newLineageKey = BuildContractLineageKey newCurrent; liveKey = BuildContractLiveKey (snap_root snapshot) in
      if newCurrent = [] \<or> newLineageKey = [] \<or> liveKey = [] then Inl ''unable to derive stateful rollover keys''
      else if \<not> key_absent L d newLineageKey
      then Inl (''new continuation lineage key already exists: '' @ newLineageKey)
      else case commit_delta callShape snapshot (fst executed) (snd executed) of
        Inl e \<Rightarrow> Inl e
      | Inr puts \<Rightarrow> Inr (puts @ [BatchPut newLineageKey (snap_root snapshot), BatchPut liveKey newCurrent]))"

definition commit_state_call ::
    "'d leveldb \<Rightarrow> 'd \<Rightarrow> crypto \<Rightarrow> utxo_view \<Rightarrow> (string \<Rightarrow> string \<Rightarrow> string option) \<Rightarrow> u32 \<Rightarrow> u32 \<Rightarrow> 'j Transaction \<Rightarrow>
       UTXO \<Rightarrow> bytes \<Rightarrow> string list \<Rightarrow> string + string \<times> batch_op list" where
  "commit_state_call L d C utxos tokenOwner now height tx anchorUtxo anchorScript appliedStateCallRoots =
     (case ValidateStatefulCallShape C tx 0 (utxo_scriptPubKey anchorUtxo) (utxo_amount anchorUtxo) of
        Inl reason \<Rightarrow> Inl (''stateful call shape diverged during commit: '' @ reason)
      | Inr callShape \<Rightarrow>
          let current = BuildCanonicalContractOutpoint (prev_txid (vin tx ! 0)) (prev_vout (vin tx ! 0)) in
          if current = [] then Inl ''confirmed state-domain load diverged during commit: ''
          else case LoadConfirmedStateDomain L d current of
            Inl reason \<Rightarrow> Inl (''confirmed state-domain load diverged during commit: '' @ reason)
          | Inr snapshot \<Rightarrow>
              if snap_root snapshot \<in> set appliedStateCallRoots
              then Inl (''duplicate stateful root mutation in block: '' @ snap_root snapshot)
              else case call_caller C utxos tokenOwner (vin tx ! callerInputIndex callShape) of
                Inl e \<Rightarrow> Inl e
              | Inr (callerHash160, callerAddress) \<Rightarrow>
                  (case reexecute C tx callShape anchorScript snapshot callerHash160 callerAddress now height of
                     Inl e \<Rightarrow> Inl e
                   | Inr executed \<Rightarrow>
                       (case rollover L d tx callShape snapshot executed of
                          Inl e \<Rightarrow> Inl e | Inr puts \<Rightarrow> Inr (snap_root snapshot, puts))))"

text \<open>\<open>None\<close>: the transaction has no state anchor in its first input.\<close>

definition commit_call ::
    "'d leveldb \<Rightarrow> 'd \<Rightarrow> crypto \<Rightarrow> utxo_view \<Rightarrow> (string \<Rightarrow> string \<Rightarrow> string option) \<Rightarrow> u32 \<Rightarrow> u32 \<Rightarrow> 'j Transaction \<Rightarrow>
       string list \<Rightarrow> string + (string \<times> batch_op list) option" where
  "commit_call L d C utxos tokenOwner now height tx appliedStateCallRoots =
     (if isCoinbase tx \<or> vin tx = [] then Inr None
      else if negative_vout (vin tx ! 0) then Inr None
      else case utxos (prev_txid (vin tx ! 0)) (prev_vout (vin tx ! 0)) of
        None \<Rightarrow> Inr None
      | Some anchorUtxo \<Rightarrow>
          (case hexDecode (utxo_scriptPubKey anchorUtxo) of
             None \<Rightarrow> Inl ''unable to decode possible state-anchor script''
           | Some anchorScript \<Rightarrow>
               let statefulScan = ScanStatefulContractScript anchorScript in
               if \<not> scan_valid statefulScan then Inl ''malformed stateful anchor during commit''
               else if \<not> usesStateDomain statefulScan then Inr None
               else case commit_state_call L d C utxos tokenOwner now height tx anchorUtxo anchorScript
                           appliedStateCallRoots of
                 Inl e \<Rightarrow> Inl e | Inr r \<Rightarrow> Inr (Some r)))"

fun commit_calls ::
    "'d leveldb \<Rightarrow> 'd \<Rightarrow> crypto \<Rightarrow> utxo_view \<Rightarrow> (string \<Rightarrow> string \<Rightarrow> string option) \<Rightarrow> u32 \<Rightarrow> u32 \<Rightarrow> string list \<Rightarrow>
       'j Transaction list \<Rightarrow> string + batch_op list" where
  "commit_calls L d C utxos tokenOwner now height appliedStateCallRoots [] = Inr []"
| "commit_calls L d C utxos tokenOwner now height appliedStateCallRoots (tx # txs) =
     (case commit_call L d C utxos tokenOwner now height tx appliedStateCallRoots of
        Inl e \<Rightarrow> Inl e
      | Inr None \<Rightarrow> commit_calls L d C utxos tokenOwner now height appliedStateCallRoots txs
      | Inr (Some (rt, puts)) \<Rightarrow>
          (case commit_calls L d C utxos tokenOwner now height (rt # appliedStateCallRoots) txs of
             Inl e \<Rightarrow> Inl e | Inr rest \<Rightarrow> Inr (puts @ rest)))"

text \<open>Both phases: what they append to the batch of the block.\<close>

definition contract_phases ::
    "'d leveldb \<Rightarrow> 'd \<Rightarrow> crypto \<Rightarrow> utxo_view \<Rightarrow> (string \<Rightarrow> string \<Rightarrow> string option) \<Rightarrow> u32 \<Rightarrow> u32 \<Rightarrow> 'j Transaction list \<Rightarrow>
       string + batch_op list" where
  "contract_phases L d C utxos tokenOwner now height txs =
     (case create_roots L d utxos [] txs of
        Inl e \<Rightarrow> Inl e
      | Inr created \<Rightarrow>
          (case commit_calls L d C utxos tokenOwner now height [] txs of
             Inl e \<Rightarrow> Inl e | Inr called \<Rightarrow> Inr (created @ called)))"

end
