(* ===== verification/State_Ledger.thy ===== *)
theory State_Ledger
  imports State_Commit
begin

text \<open>
  What the contract phases of a block mean. The database stands for a ledger of contracts: each root
  has a live anchor, an owner and a value, which is a store, a poll or an issuer. Creating roots and
  committing calls implements the steps of that ledger.
\<close>

subsection \<open>New polls and issuers\<close>

lemma zero_u64_iff: "IsAllZeroU64 v \<longleftrightarrow> v = EncodeVotingU64 0"
proof
  assume "IsAllZeroU64 v"
  then have "length v = 8" "(le_val v :: u64) = 0" by (auto simp: IsAllZeroU64_def DecodeU64LEExact_def split: if_splits)
  then show "v = EncodeVotingU64 0" using le_val_encode [of v] by simp
next
  assume "v = EncodeVotingU64 0"
  then show "IsAllZeroU64 v" by (simp add: IsAllZeroU64_def DecodeU64LEExact_def EncodeVotingU64_def le_val_le_bytes)
qed

lemma decode_u64_iff: "DecodeU64LEExact v = Some w \<longleftrightarrow> v = EncodeVotingU64 w"
proof
  assume "DecodeU64LEExact v = Some w"
  then have "length v = 8" "le_val v = w" by (auto simp: DecodeU64LEExact_def split: if_splits)
  then show "v = EncodeVotingU64 w" using le_val_encode [of v] by simp
next
  assume "v = EncodeVotingU64 w"
  then show "DecodeU64LEExact v = Some w" by (simp add: DecodeU64LEExact_def EncodeVotingU64_def le_val_le_bytes)
qed

lemma check_options_Inr:
  "check_options env is = Inr u \<longleftrightarrow>
     (\<forall>i\<in>set is. (\<exists>t. map_of (entries env) (''option'' @ dec_string i) = Some t \<and> t \<noteq> [] \<and> length t \<le> 50) \<and>
        map_of (entries env) (''count'' @ dec_string i) = Some (EncodeVotingU64 0))"
proof (induction "is")
  case (Cons i "is")
  then show ?case by (auto simp: FindInitValue_def Let_def zero_u64_iff not_less split: option.splits)
qed simp

lemma voting_init_parts:
  assumes "IsCanonicalVotingV1InitEnvelope env = Inr u"
  obtains p b t n where "map_of (entries env) ''proposal'' = Some p" "p \<noteq> []" "length p \<le> 200"
    "map_of (entries env) ''numoptions'' = Some [b]" "n = unat b" "2 \<le> n" "n \<le> 10"
    "map_of (entries env) ''endtime'' = Some (EncodeVotingU64 t)" "t \<noteq> 0"
    "map_of (entries env) ''totalvotes'' = Some (EncodeVotingU64 0)" "length (entries env) = 4 + 2 * n"
    "\<And>i. i < n \<Longrightarrow> (\<exists>t. map_of (entries env) (''option'' @ dec_string i) = Some t \<and> t \<noteq> [] \<and> length t \<le> 50) \<and>
        map_of (entries env) (''count'' @ dec_string i) = Some (EncodeVotingU64 0)"
proof -
  obtain p o1 e z where v: "map_of (entries env) ''proposal'' = Some p" "map_of (entries env) ''numoptions'' = Some o1"
    "map_of (entries env) ''endtime'' = Some e" "map_of (entries env) ''totalvotes'' = Some z"
    "p \<noteq> []" "length p \<le> 200" "length o1 = 1" "2 \<le> o1 ! 0" "o1 ! 0 \<le> 10" "DecodeU64LEExact e \<noteq> None"
    "DecodeU64LEExact e \<noteq> Some 0" "IsAllZeroU64 z" "length (entries env) = 4 + 2 * unat (o1 ! 0)"
    "check_options env [0..<unat (o1 ! 0)] = Inr u"
    using assms by (auto simp: IsCanonicalVotingV1InitEnvelope_def FindInitValue_def Let_def not_less
        split: option.splits if_splits)
  obtain b where b: "o1 = [b]" using v(7) by (auto simp: length_Suc_conv)
  obtain t where t: "DecodeU64LEExact e = Some t" using v(10) by blast
  have n: "2 \<le> unat b" "unat b \<le> 10" using v(8,9) by (simp_all add: b word_le_nat_alt)
  show thesis
    by (rule that [of p b "unat b" t]) (use v b t n in \<open>auto simp: decode_u64_iff zero_u64_iff check_options_Inr\<close>)
qed

lemma voting_init_ok:
  assumes "IsCanonicalVotingV1InitEnvelope env = Inr u" "keys_distinct (entries env)"
  shows "ballot_ok (entries env) \<and> poll_votes (poll_of (entries env)) = Map.empty"
proof -
  let ?st = "entries env"
  obtain p b t n where v: "map_of ?st ''proposal'' = Some p" "p \<noteq> []" "length p \<le> 200"
    "map_of ?st ''numoptions'' = Some [b]" "n = unat b" "2 \<le> n" "n \<le> 10"
    "map_of ?st ''endtime'' = Some (EncodeVotingU64 t)" "t \<noteq> 0"
    "map_of ?st ''totalvotes'' = Some (EncodeVotingU64 0)" "length ?st = 4 + 2 * n"
    "\<And>i. i < n \<Longrightarrow> (\<exists>t. map_of ?st (''option'' @ dec_string i) = Some t \<and> t \<noteq> [] \<and> length t \<le> 50) \<and>
        map_of ?st (''count'' @ dec_string i) = Some (EncodeVotingU64 0)"
    using assms(1) by (rule voting_init_parts) blast
  have keys: "set (ballot_keys n) = fst ` set ?st"
  proof (rule card_subset_eq)
    show "set (ballot_keys n) \<subseteq> fst ` set ?st"
    proof
      fix k assume "k \<in> set (ballot_keys n)"
      then have "map_of ?st k \<noteq> None"
        using v(1,4,8,10,12) by (auto simp: ballot_keys_iff voting_core_key_def option_key_iff)
      then show "k \<in> fst ` set ?st" by (simp add: map_of_eq_None_iff)
    qed
    have "card (fst ` set ?st) = length ?st" using assms(2) distinct_card [of "map fst ?st"] by simp
    moreover have "card (set (ballot_keys n)) = length (ballot_keys n)" by (rule distinct_card) (rule ballot_keys_distinct)
    ultimately show "card (set (ballot_keys n)) = card (fst ` set ?st)" using v(11) by (simp add: ballot_keys_def)
  qed simp
  have rd: "ReadVotingU64 ?st ''endtime'' = Some t" using v(8) by (simp only: read_u64_iff)
  have none: "votes_of ?st h = None" for h
  proof -
    have "''voted:'' @ h \<notin> fst ` set ?st" unfolding keys [symmetric] ballot_keys_iff using voted_key by blast
    then show ?thesis by (simp add: votes_of_def map_of_eq_None_iff)
  qed
  then have po: "poll_of ?st = \<lparr>poll_options = n, poll_closes = t, poll_votes = Map.empty\<rparr>"
    using v(4,5) rd by (simp add: poll_of_def fun_eq_iff)
  have "\<forall>e\<in>set ?st. voting_core_key (fst e) \<or> voting_option_key n (fst e) \<or> marker_ok n e"
    using keys ballot_keys_iff [of _ n] by blast
  moreover have "[b] = [word_of_nat n]" using v(5) by simp
  ultimately show ?thesis
    using v by (simp add: ballot_ok_def Let_def po Voting.tally_def turnout_def)
qed

lemma issuer_init_ok:
  assumes "IsCanonicalTokenIssuerV1InitEnvelope env = Inr u"
  shows "issuer_ok (entries env) \<and> iss_balances (issuer_of (entries env)) = Map.empty"
proof -
  let ?st = "entries env"
  obtain n r m z where v: "map fst ?st = [''exchange_rate'', ''max_supply'', ''token_name'', ''total_issued'']"
    "map_of ?st ''token_name'' = Some n" "map_of ?st ''exchange_rate'' = Some r" "map_of ?st ''max_supply'' = Some m"
    "map_of ?st ''total_issued'' = Some z" "n \<noteq> []" "length n \<le> 10" "list_all Stateful_Shape.token_name_char n"
    "DecodeU64LEExact r \<noteq> None" "DecodeU64LEExact r \<noteq> Some 0" "DecodeU64LEExact m \<noteq> None" "IsAllZeroU64 z"
    using assms unfolding IsCanonicalTokenIssuerV1InitEnvelope_def FindInitValue_def
    by (auto simp: not_less split: option.splits if_splits)
  obtain r' m' where n: "r = EncodeVotingU64 r'" "m = EncodeVotingU64 m'" "z = EncodeVotingU64 0" "r' \<noteq> 0"
    using v(9-12) by (auto simp: decode_u64_iff zero_u64_iff)
  have core: "issuer_core_key (fst e)" if "e \<in> set ?st" for e
  proof -
    have "fst e \<in> set (map fst ?st)" using that by simp
    then show ?thesis unfolding v(1) issuer_core_key_def by auto
  qed
  have none: "balances_of ?st h = None" for h
  proof -
    have "''balance:'' @ h \<notin> fst ` set ?st" using core balance_key_core [of h] by force
    then have "map_of ?st (''balance:'' @ h) = None" by (simp only: map_of_eq_None_iff not_False_eq_True)
    then show ?thesis by (simp add: balances_of_def ReadVotingU64_def)
  qed
  then have i: "issuer_of ?st = \<lparr>iss_rate = unat r', iss_cap = unat m', iss_balances = Map.empty\<rparr>"
    using v(3,4) n read_nat_Some [of ?st "''exchange_rate''" r'] read_nat_Some [of ?st "''max_supply''" m']
    by (simp add: issuer_of_def fun_eq_iff)
  have "byte_of_char (CHR ''A'') = 0x41" "byte_of_char (CHR ''Z'') = 0x5A" "byte_of_char (CHR ''a'') = 0x61"
    "byte_of_char (CHR ''z'') = 0x7A" "byte_of_char (CHR ''0'') = 0x30" "byte_of_char (CHR ''9'') = 0x39"
    "byte_of_char (CHR ''_'') = 0x5F" "byte_of_char (CHR ''-'') = 0x2D" by code_simp+
  then have same: "Stateful_Shape.token_name_char = Token_Issuer.token_name_char"
    by (simp add: fun_eq_iff Stateful_Shape.token_name_char_def Token_Issuer.token_name_char_def)
  show ?thesis
    using v n core by (simp add: issuer_ok_def Let_def i issued_sum_def same unat_gt_0)
qed

subsection \<open>The ledger\<close>

datatype contract_value = Store "string \<rightharpoonup> bytes" | Poll poll | Issuer issuer

record contract =
  live_anchor :: string
  owned_by :: string
  holds :: contract_value

type_synonym ledger = "string \<rightharpoonup> contract"

text \<open>
  What one call does to the value of its contract: the owner writes the key and value of the call, a voter
  votes for the option the key names, a buyer buys for what the call pays.
\<close>

inductive value_step :: "string \<Rightarrow> string \<Rightarrow> u32 \<Rightarrow> StatefulCallShapeResult \<Rightarrow> contract_value \<Rightarrow> contract_value \<Rightarrow> bool"
  for own caller :: string and now :: u32 and sh :: StatefulCallShapeResult where
  owner_write: "caller = own \<Longrightarrow> value_step own caller now sh (Store s) (Store (s(logicalKey sh \<mapsto> call_value sh)))"
| vote: "logicalKey sh = ''count'' @ dec_string choice \<Longrightarrow> cast p now caller choice = Some p' \<Longrightarrow>
     value_step own caller now sh (Poll p) (Poll p')"
| purchase: "buy i caller (unat (callValue sh)) = Some i' \<Longrightarrow> value_step own caller now sh (Issuer i) (Issuer i')"

inductive_cases value_step_StoreE: "value_step own caller now sh (Store s) v"
inductive_cases value_step_PollE: "value_step own caller now sh (Poll p) v"
inductive_cases value_step_IssuerE: "value_step own caller now sh (Issuer i) v"

fun fresh_value :: "contract_value \<Rightarrow> bool" where
  "fresh_value (Store s) \<longleftrightarrow> s \<noteq> Map.empty"
| "fresh_value (Poll p) \<longleftrightarrow> poll_votes p = Map.empty"
| "fresh_value (Issuer i) \<longleftrightarrow> iss_balances i = Map.empty"

text \<open>The value and the invariant of a stored state.\<close>

definition value_of :: "string \<Rightarrow> state_map \<Rightarrow> contract_value" where
  "value_of fam st =
     (if fam = ''voting_v1'' then Poll (poll_of st)
      else if fam = ''token_issuer_v1'' then Issuer (issuer_of st) else Store (map_of st))"

definition value_ok :: "string \<Rightarrow> state_map \<Rightarrow> bool" where
  "value_ok fam st \<longleftrightarrow> (fam = ''voting_v1'' \<longrightarrow> ballot_ok st) \<and> (fam = ''token_issuer_v1'' \<longrightarrow> issuer_ok st)"

text \<open>
  What a transaction does to the ledger. The coin behind an input names its holder; a transaction that creates
  a contract opens it under the holder of its only input, with the value its envelope declares; a
  transaction that spends the live anchor of a contract calls it in the name of the holder of its second
  input, and moves the anchor to its own continuation output. The rules leave nothing open: the contract, the
  caller, what the call asks for and the new anchor are those of the transaction.
\<close>

definition family_text :: "StatefulCreationFamily \<Rightarrow> string" where
  "family_text fam =
     (if fam = VotingV1 then ''voting_v1'' else if fam = TokenIssuerV1 then ''token_issuer_v1'' else [])"

definition coin_holder :: "utxo_view \<Rightarrow> TxIn \<Rightarrow> string option" where
  "coin_holder utxos i =
     (case utxos (prev_txid i) (prev_vout i) of
        None \<Rightarrow> None | Some u \<Rightarrow> ExtractCanonicalP2PKHHash160Hex (utxo_scriptPubKey u))"

definition opens_contract :: "'j Transaction \<Rightarrow> bool" where
  "opens_contract tx \<longleftrightarrow> (case ValidateStatefulCreationShape tx of Inl _ \<Rightarrow> False | Inr sc \<Rightarrow> hasCreation sc)"

definition calls_contract :: "utxo_view \<Rightarrow> 'j Transaction \<Rightarrow> bool" where
  "calls_contract utxos tx \<longleftrightarrow>
     \<not> isCoinbase tx \<and> vin tx \<noteq> [] \<and> \<not> negative_vout (vin tx ! 0) \<and>
     (case utxos (prev_txid (vin tx ! 0)) (prev_vout (vin tx ! 0)) of
        None \<Rightarrow> False
      | Some u \<Rightarrow> (case hexDecode (utxo_scriptPubKey u) of None \<Rightarrow> False | Some scr \<Rightarrow> usesStateDomain (ScanStatefulContractScript scr)))"

inductive open_step :: "utxo_view \<Rightarrow> 'j Transaction \<Rightarrow> ledger \<Rightarrow> ledger \<Rightarrow> bool" for utxos :: utxo_view and tx :: "'j Transaction" where
  open_contract: "ValidateStatefulCreationShape tx = Inr sc \<Longrightarrow> hasCreation sc \<Longrightarrow> res_targetVout sc = Some n \<Longrightarrow>
     length (vin tx) = 1 \<Longrightarrow> coin_holder utxos (vin tx ! 0) = Some own \<Longrightarrow>
     rt = BuildCanonicalContractOutpoint (txid tx) (word_of_nat n) \<Longrightarrow> l rt = None \<Longrightarrow>
     v = value_of (family_text (family sc)) (entries (initEnvelope sc)) \<Longrightarrow> fresh_value v \<Longrightarrow>
     open_step utxos tx l (l(rt \<mapsto> \<lparr>live_anchor = rt, owned_by = own, holds = v\<rparr>))"

inductive call_step :: "crypto \<Rightarrow> utxo_view \<Rightarrow> u32 \<Rightarrow> 'j Transaction \<Rightarrow> ledger \<Rightarrow> ledger \<Rightarrow> bool"
  for C :: crypto and utxos :: utxo_view and now :: u32 and tx :: "'j Transaction" where
  call_contract: "calls_contract utxos tx \<Longrightarrow> utxos (prev_txid (vin tx ! 0)) (prev_vout (vin tx ! 0)) = Some u \<Longrightarrow>
     ValidateStatefulCallShape C tx 0 (utxo_scriptPubKey u) (utxo_amount u) = Inr sh \<Longrightarrow>
     l rt = Some c \<Longrightarrow> live_anchor c = BuildCanonicalContractOutpoint (prev_txid (vin tx ! 0)) (prev_vout (vin tx ! 0)) \<Longrightarrow>
     coin_holder utxos (vin tx ! 1) = Some caller \<Longrightarrow> value_step (owned_by c) caller now sh (holds c) v \<Longrightarrow>
     new = BuildCanonicalContractOutpoint (txid tx) (word_of_nat (call_continuationVout sh)) \<Longrightarrow>
     call_step C utxos now tx l (l(rt \<mapsto> c\<lparr>live_anchor := new, holds := v\<rparr>))"

text \<open>A list of transactions, each of which takes its step exactly when it is concerned.\<close>

inductive ledger_run :: "('j Transaction \<Rightarrow> bool) \<Rightarrow> ('j Transaction \<Rightarrow> ledger \<Rightarrow> ledger \<Rightarrow> bool) \<Rightarrow>
    'j Transaction list \<Rightarrow> ledger \<Rightarrow> ledger \<Rightarrow> bool" for concerned moves where
  run_done: "ledger_run concerned moves [] l l"
| run_idle: "\<not> concerned tx \<Longrightarrow> ledger_run concerned moves txs l l' \<Longrightarrow> ledger_run concerned moves (tx # txs) l l'"
| run_step: "concerned tx \<Longrightarrow> moves tx l l1 \<Longrightarrow> ledger_run concerned moves txs l1 l' \<Longrightarrow> ledger_run concerned moves (tx # txs) l l'"

text \<open>A block: all contracts are opened, then all calls are made, in the order of the transactions.\<close>

definition ledger_block :: "crypto \<Rightarrow> utxo_view \<Rightarrow> u32 \<Rightarrow> 'j Transaction list \<Rightarrow> ledger \<Rightarrow> ledger \<Rightarrow> bool" where
  "ledger_block C utxos now txs l l' \<longleftrightarrow>
     (\<exists>l1. ledger_run opens_contract (open_step utxos) txs l l1 \<and> ledger_run (calls_contract utxos) (call_step C utxos now) txs l1 l')"

text \<open>What holds of every step, whoever takes it.\<close>

inductive ledger_step :: "u32 \<Rightarrow> ledger \<Rightarrow> ledger \<Rightarrow> bool" for now :: u32 where
  some_open: "l rt = None \<Longrightarrow> fresh_value v \<Longrightarrow>
     ledger_step now l (l(rt \<mapsto> \<lparr>live_anchor = rt, owned_by = own, holds = v\<rparr>))"
| some_call: "l rt = Some c \<Longrightarrow> value_step (owned_by c) caller now sh (holds c) v \<Longrightarrow>
     ledger_step now l (l(rt \<mapsto> c\<lparr>live_anchor := new, holds := v\<rparr>))"

lemma step_is_ledger_step:
  "open_step utxos tx l l' \<Longrightarrow> ledger_step now l l'" "call_step C utxos now tx l l' \<Longrightarrow> ledger_step now l l'"
  by (erule open_step.cases, auto intro: some_open) (erule call_step.cases, auto intro: some_call)

lemma run_is_ledger_steps:
  assumes "ledger_run concerned moves txs l l'" "\<And>tx l l'. moves tx l l' \<Longrightarrow> ledger_step now l l'"
  shows "(ledger_step now)\<^sup>*\<^sup>* l l'"
  using assms(1) by induction (auto intro: converse_rtranclp_into_rtranclp assms(2))

lemma block_is_ledger_steps: "ledger_block C utxos now txs l l' \<Longrightarrow> (ledger_step now)\<^sup>*\<^sup>* l l'"
  unfolding ledger_block_def
  by (elim exE conjE) (rule rtranclp_trans; erule run_is_ledger_steps; erule step_is_ledger_step)

subsection \<open>Which keys belong to which contract\<close>

definition contract_keys :: "string \<Rightarrow> string set" where
  "contract_keys rt =
     {BuildContractLiveKey rt, BuildContractOwnerKey rt, BuildContractFamilyKey rt} \<union>
     range (\<lambda>e. BuildContractStatePrefix rt @ e)"

lemma domain_prefix_split:
  assumes "IsCanonicalContractOutpoint d" "IsCanonicalContractOutpoint d'" "d @ '':'' @ h = d' @ '':'' @ h'"
  shows "d = d'"
proof -
  obtain t n where d: "d = t @ '':'' @ dec_string (unat (n :: u32))" "CHR '':'' \<notin> set t"
    using assms(1) lower_hex_no_colon by (auto simp: canonical_outpoint_iff outpoint_text_def)
  obtain t' n' where d': "d' = t' @ '':'' @ dec_string (unat (n' :: u32))" "CHR '':'' \<notin> set t'"
    using assms(2) lower_hex_no_colon by (auto simp: canonical_outpoint_iff outpoint_text_def)
  have nc: "CHR '':'' \<notin> set (dec_string m)" for m using digits_no_colon [OF dec_string_digits] .
  have split: "a = a' \<and> b = b'" if "a @ CHR '':'' # b = a' @ CHR '':'' # b'" "CHR '':'' \<notin> set a" "CHR '':'' \<notin> set a'"
    for a a' b b' :: string
  proof -
    have "a = a'" using arg_cong [OF that(1), of "takeWhile (\<lambda>x. x \<noteq> CHR '':'')"] that(2,3)
      by (simp add: takeWhile_neq_append)
    then show ?thesis using that(1) by simp
  qed
  have e: "t @ CHR '':'' # dec_string (unat n) @ CHR '':'' # h = t' @ CHR '':'' # dec_string (unat n') @ CHR '':'' # h'"
    using assms(3) d(1) d'(1) by simp
  then have "t = t'" "dec_string (unat n) @ CHR '':'' # h = dec_string (unat n') @ CHR '':'' # h'"
    using split [OF e d(2) d'(2)] by blast+
  moreover from split [OF this(2) nc nc] have "dec_string (unat n) = dec_string (unat n')" by blast
  ultimately show ?thesis by (simp add: d d')
qed

lemma contract_keys_disjoint:
  assumes "IsCanonicalContractOutpoint rt" "IsCanonicalContractOutpoint rt'" "k \<in> contract_keys rt" "k \<in> contract_keys rt'"
  shows "rt = rt'"
proof -
  have shape: "\<exists>tag body. k = tag @ CHR '':'' # body \<and> CHR '':'' \<notin> set tag \<and>
      (if tag = ''contractstate'' then \<exists>e. body = rt @ '':'' @ e else body = rt)"
    if k: "k \<in> contract_keys rt" and c: "IsCanonicalContractOutpoint rt" for rt
  proof -
    consider "k = ''contractlive:'' @ rt" | "k = ''contractowner:'' @ rt" | "k = ''contractfamily:'' @ rt"
      | e where "k = ''contractstate:'' @ (rt @ '':'' @ e)"
      using k c unfolding contract_keys_def key_defs by auto
    then show ?thesis
    proof cases
      case 1
      then show ?thesis by (intro exI [of _ "''contractlive''"] exI [of _ rt]) simp
    next
      case 2
      then show ?thesis by (intro exI [of _ "''contractowner''"] exI [of _ rt]) simp
    next
      case 3
      then show ?thesis by (intro exI [of _ "''contractfamily''"] exI [of _ rt]) simp
    next
      case 4
      then show ?thesis by (intro exI [of _ "''contractstate''"] exI [of _ "rt @ '':'' @ e"]) simp
    qed
  qed
  obtain tag body where a: "k = tag @ CHR '':'' # body" "CHR '':'' \<notin> set tag"
    "if tag = ''contractstate'' then \<exists>e. body = rt @ '':'' @ e else body = rt"
    using shape [OF assms(3,1)] by blast
  obtain tag' body' where b: "k = tag' @ CHR '':'' # body'" "CHR '':'' \<notin> set tag'"
    "if tag' = ''contractstate'' then \<exists>e. body' = rt' @ '':'' @ e else body' = rt'"
    using shape [OF assms(4,2)] by blast
  have "tag = tag'" using arg_cong [OF trans [OF a(1) [symmetric] b(1)], of "takeWhile (\<lambda>x. x \<noteq> CHR '':'')"] a(2) b(2)
    by (simp only: takeWhile_neq_append simp_thms)
  moreover from this have "body = body'" using a(1) b(1) by simp
  ultimately show ?thesis using a(3) b(3) domain_prefix_split [OF assms(1,2)] domain_prefix_split [OF assms(2,1)]
    by (auto split: if_splits)
qed

lemma lineage_not_contract:
  "IsCanonicalContractOutpoint rt' \<Longrightarrow> IsCanonicalContractOutpoint rt \<Longrightarrow> BuildContractLineageKey rt' \<notin> contract_keys rt"
  by (auto simp: contract_keys_def key_defs)

lemma lineage_key_inject:
  "IsCanonicalContractOutpoint a \<Longrightarrow> IsCanonicalContractOutpoint b \<Longrightarrow>
     BuildContractLineageKey a = BuildContractLineageKey b \<longleftrightarrow> a = b"
  by (simp add: key_defs)

lemma state_key_mem:
  "IsLogicalKeyAllowed k \<Longrightarrow> IsCanonicalContractOutpoint rt \<Longrightarrow> BuildContractStateKey rt k \<in> contract_keys rt"
  unfolding contract_keys_def by (simp only: state_key_prefix) blast

text \<open>A stored domain lies in the keys of its root and the lineage of its live anchor.\<close>

lemma domain_stored_cong:
  assumes "\<And>k. k \<in> contract_keys rt \<Longrightarrow> m' k = m k" "m' (BuildContractLineageKey cur) = m (BuildContractLineageKey cur)"
  shows "domain_stored m' rt cur own fam st \<longleftrightarrow> domain_stored m rt cur own fam st"
proof -
  have "m' (BuildContractLiveKey rt) = m (BuildContractLiveKey rt)" "m' (BuildContractOwnerKey rt) = m (BuildContractOwnerKey rt)"
    "m' (BuildContractFamilyKey rt) = m (BuildContractFamilyKey rt)"
    "\<And>e. m' (BuildContractStatePrefix rt @ e) = m (BuildContractStatePrefix rt @ e)"
    by (rule assms(1), simp add: contract_keys_def)+
  then show ?thesis unfolding domain_stored_def assms(2) by simp
qed

definition contract_absent :: "(string \<rightharpoonup> string) \<Rightarrow> string \<Rightarrow> bool" where
  "contract_absent m rt \<longleftrightarrow> (\<forall>k\<in>contract_keys rt. m k = None)"

subsection \<open>What the database stands for\<close>

definition represents :: "(string \<rightharpoonup> string) \<Rightarrow> ledger \<Rightarrow> bool" where
  "represents m l \<longleftrightarrow>
     (\<forall>rt c. l rt = Some c \<longrightarrow> (\<exists>fam st. domain_stored m rt (live_anchor c) (owned_by c) fam st \<and>
        value_ok fam st \<and> holds c = value_of fam st)) \<and>
     (\<forall>rt. l rt = None \<longrightarrow> IsCanonicalContractOutpoint rt \<longrightarrow> contract_absent m rt)"

definition op_key :: "batch_op \<Rightarrow> string" where
  "op_key b = (case b of BatchPut k _ \<Rightarrow> k | BatchDelete k \<Rightarrow> k)"

lemma apply_batch_frame: "k \<notin> op_key ` set ops \<Longrightarrow> apply_batch ops m k = m k"
  by (induction ops arbitrary: m) (auto simp: op_key_def split: batch_op.splits)

text \<open>A batch that touches one contract and one new lineage record leaves all others alone.\<close>

lemma represents_update:
  assumes rep: "represents m l" and ops: "op_key ` set ops \<subseteq> insert (BuildContractLineageKey new) (contract_keys rt)"
    and can: "IsCanonicalContractOutpoint rt" "IsCanonicalContractOutpoint new"
    and fresh: "m (BuildContractLineageKey new) = None"
    and st: "domain_stored (apply_batch ops m) rt (live_anchor c) (owned_by c) fam st" "value_ok fam st" "holds c = value_of fam st"
  shows "represents (apply_batch ops m) (l(rt \<mapsto> c))"
proof -
  have same: "apply_batch ops m k = m k" if "k \<in> contract_keys rt'" "IsCanonicalContractOutpoint rt'" "rt' \<noteq> rt" for k rt'
  proof (rule apply_batch_frame)
    show "k \<notin> op_key ` set ops"
    proof
      assume "k \<in> op_key ` set ops"
      then consider "k = BuildContractLineageKey new" | "k \<in> contract_keys rt" using ops by blast
      then show False
      proof cases
        case 1
        then show ?thesis using lineage_not_contract [OF can(2) that(2)] that(1) by (simp only:)
      next
        case 2
        then show ?thesis using contract_keys_disjoint [OF can(1) that(2) 2 that(1)] that(3) by (simp only:)
      qed
    qed
  qed
  have "\<exists>fam st. domain_stored (apply_batch ops m) rt' (live_anchor c') (owned_by c') fam st \<and> value_ok fam st \<and> holds c' = value_of fam st"
    if lc: "l rt' = Some c'" and ne: "rt' \<noteq> rt" for rt' c'
  proof -
    obtain fam st where d: "domain_stored m rt' (live_anchor c') (owned_by c') fam st" "value_ok fam st" "holds c' = value_of fam st"
      using rep lc unfolding represents_def by blast
    have canon: "IsCanonicalContractOutpoint rt'" "IsCanonicalContractOutpoint (live_anchor c')"
      and lin: "m (BuildContractLineageKey (live_anchor c')) = Some rt'"
      using d(1) by (simp_all add: domain_stored_def)
    have "BuildContractLineageKey (live_anchor c') \<noteq> BuildContractLineageKey new" using lin fresh by auto
    then have "BuildContractLineageKey (live_anchor c') \<notin> op_key ` set ops"
      using ops lineage_not_contract [OF canon(2) can(1)] by blast
    then have "apply_batch ops m (BuildContractLineageKey (live_anchor c')) = m (BuildContractLineageKey (live_anchor c'))"
      by (rule apply_batch_frame)
    then have "domain_stored (apply_batch ops m) rt' (live_anchor c') (owned_by c') fam st"
      using d(1) domain_stored_cong [of rt' "apply_batch ops m" m] same [OF _ canon(1) ne] by blast
    then show ?thesis using d(2,3) by blast
  qed
  moreover have "contract_absent (apply_batch ops m) rt'" if "l rt' = None" "IsCanonicalContractOutpoint rt'" "rt' \<noteq> rt" for rt'
    using rep that same [OF _ that(2,3)] by (simp add: represents_def contract_absent_def)
  ultimately show ?thesis using st unfolding represents_def by (auto split: if_splits)
qed

subsection \<open>Writing entries\<close>

definition entry_puts :: "string \<Rightarrow> entries \<Rightarrow> batch_op list" where
  "entry_puts rt es = map (\<lambda>(k, v). BatchPut (BuildContractStateKey rt k) (string_of_bytes v)) es"

definition keys_allowed :: "entries \<Rightarrow> bool" where
  "keys_allowed es \<longleftrightarrow> (\<forall>(k, v)\<in>set es. IsLogicalKeyAllowed k)"

lemma state_puts_Inr:
  assumes "state_puts rt allowed es = Inr puts"
  shows "puts = entry_puts rt es \<and> keys_allowed es \<and> (\<forall>(k, v)\<in>set es. allowed k)"
  using assms
proof (induction es arbitrary: puts)
  case (Cons e es)
  obtain k v where e: "e = (k, v)" by (cases e)
  show ?case
    using Cons by (auto simp: e entry_puts_def keys_allowed_def state_key_eq split: if_splits sum.splits)
qed (simp add: entry_puts_def keys_allowed_def)

lemma init_puts_Inr:
  assumes "init_puts L d rt es = Inr puts"
  shows "puts = entry_puts rt es \<and> keys_allowed es"
  using assms
proof (induction es arbitrary: puts)
  case (Cons e es)
  obtain k v where e: "e = (k, v)" by (cases e)
  show ?case
    using Cons by (auto simp: e entry_puts_def keys_allowed_def state_key_eq Let_def split: if_splits sum.splits)
qed (simp add: entry_puts_def keys_allowed_def)

lemma entry_puts_keys:
  "keys_allowed es \<Longrightarrow> IsCanonicalContractOutpoint rt \<Longrightarrow> op_key ` set (entry_puts rt es) \<subseteq> range (\<lambda>e. BuildContractStatePrefix rt @ e)"
  by (auto simp: entry_puts_def op_key_def keys_allowed_def state_key_prefix)

lemma apply_puts:
  "distinct (map fst rows) \<Longrightarrow>
     apply_batch (map (\<lambda>(k, v). BatchPut k v) rows) m k = (case map_of rows k of None \<Rightarrow> m k | Some v \<Rightarrow> Some v)"
proof (induction rows arbitrary: m)
  case (Cons r rows)
  obtain a b where r: "r = (a, b)" by (cases r)
  have "map_of rows a = None" using Cons.prems by (simp add: r map_of_eq_None_iff)
  then show ?case using Cons by (auto simp: r split: option.splits)
qed simp

lemma apply_entry_puts:
  assumes "keys_distinct es" "keys_allowed es" "IsCanonicalContractOutpoint rt"
  shows "apply_batch (entry_puts rt es) m (BuildContractStatePrefix rt @ e) = Some raw \<longleftrightarrow>
    (\<exists>k v. map_of es k = Some v \<and> e = HexEncodeLogicalKey k \<and> raw = string_of_bytes v) \<or>
    m (BuildContractStatePrefix rt @ e) = Some raw \<and> (\<nexists>k. map_of es k \<noteq> None \<and> e = HexEncodeLogicalKey k)"
proof -
  let ?rows = "map (\<lambda>(k, v). (BuildContractStateKey rt k, string_of_bytes v)) es" and ?p = "BuildContractStatePrefix rt @ e"
  have al: "\<forall>(k, v)\<in>set es. IsLogicalKeyAllowed k" using assms(2) by (simp add: keys_allowed_def)
  have "distinct (map fst ?rows)"
  proof -
    have "map fst ?rows = map (BuildContractStateKey rt) (map fst es)" by (induction es) auto
    moreover have "inj_on (BuildContractStateKey rt) (set (map fst es))"
    proof (rule inj_onI)
      fix k k' assume "k \<in> set (map fst es)" "k' \<in> set (map fst es)" and e: "BuildContractStateKey rt k = BuildContractStateKey rt k'"
      then have "IsLogicalKeyAllowed k" "IsLogicalKeyAllowed k'" using al by auto
      then show "k = k'" using e assms(3) HexEncode_inject by (simp add: state_key_prefix)
    qed
    ultimately show ?thesis using assms(1) by (simp only: distinct_map [of _ "map fst es"] simp_thms)
  qed
  moreover have "entry_puts rt es = map (\<lambda>(k, v). BatchPut k v) ?rows" by (simp add: entry_puts_def case_prod_unfold)
  ultimately have a: "apply_batch (entry_puts rt es) m ?p = (case map_of ?rows ?p of None \<Rightarrow> m ?p | Some v \<Rightarrow> Some v)"
    by (simp only: apply_puts)
  note rows = state_rows [OF assms(1) al assms(3), of e]
  show ?thesis
  proof (cases "map_of ?rows ?p")
    case None
    then have nkv: "\<nexists>k v. map_of es k = Some v \<and> e = HexEncodeLogicalKey k" using rows by (metis option.distinct(1))
    then have "\<nexists>k. map_of es k \<noteq> None \<and> e = HexEncodeLogicalKey k" by (metis not_None_eq)
    then show ?thesis unfolding a None option.case using nkv by blast
  next
    case (Some r)
    then obtain k v where kv: "map_of es k = Some v" "e = HexEncodeLogicalKey k" "r = string_of_bytes v" using rows by blast
    have "r = raw \<longleftrightarrow> (\<exists>k v. map_of es k = Some v \<and> e = HexEncodeLogicalKey k \<and> raw = string_of_bytes v)"
      using rows [of raw] Some by auto
    moreover have "\<exists>k. map_of es k \<noteq> None \<and> e = HexEncodeLogicalKey k" using kv by blast
    ultimately show ?thesis unfolding a Some option.case by blast
  qed
qed

lemma cut_limits_keys:
  "state_within_limits (cut_state st) \<Longrightarrow> map_of st k = Some v \<Longrightarrow> IsLogicalKeyAllowed k"
proof -
  assume l: "state_within_limits (cut_state st)" and m: "map_of st k = Some v"
  have "(k, cut_value v) \<in> set (cut_state st)" by (rule map_of_SomeD) (simp add: m)
  then show ?thesis using l by (auto simp: state_within_limits_def entry_ok_def)
qed

text \<open>New entries over old ones.\<close>

lemma rows_after_puts:
  assumes "keys_distinct es" "keys_allowed es" "IsCanonicalContractOutpoint rt"
    and st: "\<And>k v. map_of st k = Some v \<Longrightarrow> IsLogicalKeyAllowed k"
    and old: "\<And>raw. m (BuildContractStatePrefix rt @ e) = Some raw \<longleftrightarrow>
      (\<exists>k v. map_of st k = Some v \<and> e = HexEncodeLogicalKey k \<and> raw = string_of_bytes v)"
    and st': "map_of st' = map_of st ++ map_of es"
  shows "apply_batch (entry_puts rt es) m (BuildContractStatePrefix rt @ e) = Some raw \<longleftrightarrow>
    (\<exists>k v. map_of st' k = Some v \<and> e = HexEncodeLogicalKey k \<and> raw = string_of_bytes v)"
proof -
  have al: "IsLogicalKeyAllowed k" if "map_of es k = Some v" for k v
    using assms(2) map_of_SomeD [OF that] by (auto simp: keys_allowed_def)
  have new: "map_of st' k = Some v \<longleftrightarrow> map_of es k = Some v \<or> map_of es k = None \<and> map_of st k = Some v" for k v
    by (auto simp: st' map_add_def split: option.splits)
  have inj: "k = k'" if "map_of es k = Some v" "map_of st k' = Some v'" "HexEncodeLogicalKey k = HexEncodeLogicalKey k'" for k v k' v'
    using HexEncode_inject [OF al [OF that(1)] st [OF that(2)]] that(3) by blast
  show ?thesis
    unfolding apply_entry_puts [OF assms(1-3)] old new
  proof (intro iffI, goal_cases)
    case 1
    then show ?case by (metis option.exhaust)
  next
    case 2
    then obtain k v where kv: "map_of es k = Some v \<or> map_of es k = None \<and> map_of st k = Some v"
      "e = HexEncodeLogicalKey k" "raw = string_of_bytes v" by blast
    from kv(1) show ?case
    proof
      assume "map_of es k = None \<and> map_of st k = Some v"
      then show ?thesis using kv(2,3) inj by (metis option.exhaust)
    qed (use kv in blast)
  qed
qed

subsection \<open>A call moves one contract\<close>

lemma stored_after_puts:
  assumes dom: "domain_stored m rt cur own fam st" and es: "keys_distinct es" "keys_allowed es"
    and st': "keys_distinct st'" "map_of st' = map_of st ++ map_of es" "state_within_limits (cut_state st')"
    and can: "IsCanonicalContractOutpoint new"
  shows "domain_stored (apply_batch (entry_puts rt es @ [BatchPut (BuildContractLineageKey new) rt, BatchPut (BuildContractLiveKey rt) new]) m)
    rt new own fam st'"
proof -
  let ?m1 = "apply_batch (entry_puts rt es) m"
  let ?m = "apply_batch (entry_puts rt es @ [BatchPut (BuildContractLineageKey new) rt, BatchPut (BuildContractLiveKey rt) new]) m"
  have d: "IsCanonicalContractOutpoint rt" "IsCanonicalLowerHash160Hex own" "fam \<in> {'''', ''voting_v1'', ''token_issuer_v1''}"
    "m (BuildContractOwnerKey rt) = Some own" "m (BuildContractFamilyKey rt) = (if fam = [] then None else Some fam)"
    "st \<noteq> []" "state_within_limits (cut_state st)"
    and rows: "m (BuildContractStatePrefix rt @ e) = Some raw \<longleftrightarrow>
      (\<exists>k v. map_of st k = Some v \<and> e = HexEncodeLogicalKey k \<and> raw = string_of_bytes v)" for e raw
    using dom by (auto simp: domain_stored_def)
  have m: "?m = ?m1(BuildContractLineageKey new \<mapsto> rt, BuildContractLiveKey rt \<mapsto> new)" by simp
  have keys: "op_key ` set (entry_puts rt es) \<subseteq> range (\<lambda>e. BuildContractStatePrefix rt @ e)"
    by (rule entry_puts_keys [OF es(2) d(1)])
  have frame: "?m1 (BuildContractOwnerKey rt) = m (BuildContractOwnerKey rt)" "?m1 (BuildContractFamilyKey rt) = m (BuildContractFamilyKey rt)"
    by (rule apply_batch_frame, use keys d(1) in \<open>force simp: key_defs\<close>)+
  have "?m (BuildContractOwnerKey rt) = Some own" "?m (BuildContractFamilyKey rt) = (if fam = [] then None else Some fam)"
    "?m (BuildContractLineageKey new) = Some rt" "?m (BuildContractLiveKey rt) = Some new"
    unfolding m using frame d(1,4,5) can by (simp_all add: key_defs)
  moreover have "?m (BuildContractStatePrefix rt @ e) = Some raw \<longleftrightarrow>
      (\<exists>k v. map_of st' k = Some v \<and> e = HexEncodeLogicalKey k \<and> raw = string_of_bytes v)" for e raw
  proof -
    have "?m (BuildContractStatePrefix rt @ e) = ?m1 (BuildContractStatePrefix rt @ e)"
      unfolding m using d(1) can by (simp add: key_defs)
    then show ?thesis
      using rows_after_puts [where m = m and e = e and raw = raw, OF es d(1) cut_limits_keys [OF d(7)] rows st'(2)] by simp
  qed
  moreover have "st' \<noteq> []"
  proof
    assume "st' = []"
    then have "(map_of st ++ map_of es) k = None" for k using st'(2) by (metis map_of.simps(1))
    then have "map_of st = Map.empty" by (auto simp only: map_add_None fun_eq_iff)
    then show False using d(6) by simp
  qed
  ultimately show ?thesis using d st' can unfolding domain_stored_def by blast
qed

text \<open>
  The contract of a family: re-executing an accepted call and taking its changes gives entries that,
  put over the stored state, are again a state of the family, one step of its value further. The
  state the code works on is the stored one as it is read.
\<close>

definition delta_sound ::
    "string \<Rightarrow> ConfirmedStateDomainSnapshot \<Rightarrow> string \<Rightarrow> u32 \<Rightarrow> StatefulCallShapeResult \<Rightarrow> state_map \<Rightarrow> batch_op list \<Rightarrow> bool" where
  "delta_sound fam s caller now sh st puts \<longleftrightarrow>
     (\<exists>es st'. puts = entry_puts (snap_root s) es \<and> keys_distinct es \<and> keys_allowed es \<and> keys_distinct st' \<and>
        map_of st' = map_of st ++ map_of es \<and> state_within_limits (cut_state st') \<and> value_ok fam st' \<and>
        value_step (snap_ownerHash160 s) caller now sh (value_of fam st) (value_of fam st'))"

definition reads_as :: "ConfirmedStateDomainSnapshot \<Rightarrow> state_map \<Rightarrow> bool" where
  "reads_as s st \<longleftrightarrow>
     IsCanonicalContractOutpoint (snap_root s) \<and> snap_current s \<noteq> [] \<and> keys_distinct (snap_state s) \<and>
     state_within_limits (snap_state s) \<and> (\<forall>k. map_of (snap_state s) k = map_option cut_value (map_of st k))"

locale contract_family =
  fixes fam :: string
    and exec :: "crypto \<Rightarrow> 'j Transaction \<Rightarrow> StatefulCallShapeResult \<Rightarrow> bytes \<Rightarrow> ConfirmedStateDomainSnapshot \<Rightarrow> string \<Rightarrow>
      string \<Rightarrow> u32 \<Rightarrow> u32 \<Rightarrow> string + state_map \<times> string"
  assumes exec_sound: "ValidateStatefulCallShape C tx 0 lockHex locked = Inr sh \<Longrightarrow>
      exec C tx sh [OP_STORE, OP_1] s caller addr now height = Inr r \<Longrightarrow> addr \<noteq> [] \<Longrightarrow>
      commit_delta sh s (fst r) (snd r) = Inr puts \<Longrightarrow> snap_family s = fam \<Longrightarrow> reads_as s st \<Longrightarrow>
      keys_distinct st \<Longrightarrow> value_ok fam st \<Longrightarrow> delta_sound fam s caller now sh st puts"
begin

lemma call_moves:
  assumes "ValidateStatefulCallShape C tx 0 lockHex locked = Inr sh"
    and "exec C tx sh [OP_STORE, OP_1] s caller addr now height = Inr r" "addr \<noteq> []"
    and "commit_delta sh s (fst r) (snd r) = Inr puts" "snap_family s = fam" "reads_as s st"
    and "domain_stored m (snap_root s) cur (snap_ownerHash160 s) fam st" "value_ok fam st"
    and "IsCanonicalContractOutpoint new"
    and "ops = puts @ [BatchPut (BuildContractLineageKey new) (snap_root s), BatchPut (BuildContractLiveKey (snap_root s)) new]"
  shows "\<exists>st'. domain_stored (apply_batch ops m) (snap_root s) new (snap_ownerHash160 s) fam st' \<and> value_ok fam st' \<and>
    value_step (snap_ownerHash160 s) caller now sh (value_of fam st) (value_of fam st') \<and>
    op_key ` set ops \<subseteq> insert (BuildContractLineageKey new) (contract_keys (snap_root s))"
proof -
  have "keys_distinct st" using assms(7) by (simp add: domain_stored_def)
  then obtain es st' where e: "puts = entry_puts (snap_root s) es" "keys_distinct es" "keys_allowed es" "keys_distinct st'"
    "map_of st' = map_of st ++ map_of es" "state_within_limits (cut_state st')" "value_ok fam st'"
    "value_step (snap_ownerHash160 s) caller now sh (value_of fam st) (value_of fam st')"
    using exec_sound [OF assms(1-6) _ assms(8)] unfolding delta_sound_def by blast
  have rt: "IsCanonicalContractOutpoint (snap_root s)" using assms(6) by (simp add: reads_as_def)
  have "domain_stored (apply_batch ops m) (snap_root s) new (snap_ownerHash160 s) fam st'"
    unfolding assms(10) e(1) by (rule stored_after_puts [OF assms(7) e(2-6) assms(9)])
  moreover have "op_key ` set ops \<subseteq> insert (BuildContractLineageKey new) (contract_keys (snap_root s))"
    unfolding assms(10) e(1) using entry_puts_keys [OF e(3) rt] by (auto simp: op_key_def contract_keys_def)
  ultimately show ?thesis using e(7,8) by blast
qed

end

subsection \<open>Stores, polls and issuers are families\<close>

lemma cut_keeps_length: "length (cut_value v) = length v \<Longrightarrow> cut_value v = v"
proof -
  assume l: "length (cut_value v) = length v"
  have "CHR ''|'' \<notin> set (string_of_bytes v)"
    using actual_value_shorter [of "string_of_bytes v"] l by (auto simp: cut_value_def)
  then show ?thesis using actual_value_plain [of "string_of_bytes v"] by (simp add: cut_value_def)
qed

lemma reads_same:
  assumes "reads_as s st" "map_of (snap_state s) k = Some v" "map_of st k = Some w" "length v = length w"
  shows "v = w"
  using assms cut_keeps_length [of w] by (auto simp: reads_as_def)

lemma reads_dom: "reads_as s st \<Longrightarrow> map_of (snap_state s) k = None \<longleftrightarrow> map_of st k = None"
  by (simp add: reads_as_def)

text \<open>The limits of the state as read, after the same entries were put over both.\<close>

lemma delta_limits:
  assumes "reads_as s st" "keys_distinct committed" "keys_distinct st'" "state_within_limits committed"
    and "map_of committed = map_of (snap_state s) ++ map_of es" "map_of st' = map_of st ++ map_of es"
  shows "state_within_limits (cut_state st')"
proof (rule limits_shrink [OF assms(2) _ assms(4)])
  show "keys_distinct (cut_state st')" using assms(3) by simp
  have "map_of committed k = None \<longleftrightarrow> map_of st' k = None" for k
    using reads_dom [OF assms(1)] by (simp add: assms(5,6))
  then have "dom (map_of committed) = dom (map_of st')" by (simp add: dom_def)
  then show "fst ` set (cut_state st') = fst ` set committed" by (simp add: dom_map_of_conv_image_fst)
  fix k v v' assume a: "map_of committed k = Some v" "map_of (cut_state st') k = Some v'"
  obtain w where w: "map_of st' k = Some w" "v' = cut_value w" using a(2) by auto
  show "length v' \<le> length v"
  proof (cases "map_of es k")
    case None
    then have "map_of (snap_state s) k = Some v" "map_of st k = Some w" using a(1) w(1) assms(5,6) by (simp_all add: map_add_def)
    then show ?thesis using assms(1) w(2) by (auto simp: reads_as_def)
  next
    case (Some u)
    then have "v = u" "w = u" using a(1) w(1) assms(5,6) by (simp_all add: map_add_def)
    then show ?thesis using w(2) length_cut by simp
  qed
qed

lemma changed_entries_map:
  assumes "keys_distinct committed" "\<And>k. map_of prior k \<noteq> None \<Longrightarrow> map_of committed k \<noteq> None"
  shows "keys_distinct (changed_entries prior committed)"
    "map_of committed = map_of prior ++ map_of (changed_entries prior committed)"
proof -
  let ?c = "changed_entries prior committed"
  show d: "keys_distinct ?c" unfolding changed_entries_def by (rule distinct_map_filter [OF assms(1)])
  have m: "map_of ?c k = Some v \<longleftrightarrow> map_of committed k = Some v \<and> map_of prior k \<noteq> Some v" for k v
  proof -
    have "map_of ?c k = Some v \<longleftrightarrow> (k, v) \<in> set ?c" using d by simp
    also have "\<dots> \<longleftrightarrow> (k, v) \<in> set committed \<and> map_of prior k \<noteq> Some v" by (simp add: changed_entries_def)
    finally show ?thesis using assms(1) by simp
  qed
  show "map_of committed = map_of prior ++ map_of ?c"
  proof
    fix k
    show "map_of committed k = (map_of prior ++ map_of ?c) k"
    proof (cases "map_of ?c k")
      case None
      show ?thesis
      proof (cases "map_of committed k")
        case (Some v)
        then show ?thesis using m [of k v] None by (simp add: map_add_def)
      next
        case no: None
        then have "map_of prior k = None" using assms(2) [of k] by blast
        then show ?thesis using no None by (simp add: map_add_def)
      qed
    next
      case (Some v)
      then show ?thesis using m [of k v] by (simp add: map_add_def)
    qed
  qed
qed

lemma value_of_simps [simp]:
  "value_of ''voting_v1'' st = Poll (poll_of st)" "value_of ''token_issuer_v1'' st = Issuer (issuer_of st)"
  "value_of [] st = Store (map_of st)" "value_ok [] st" "value_ok ''voting_v1'' st \<longleftrightarrow> ballot_ok st"
  "value_ok ''token_issuer_v1'' st \<longleftrightarrow> issuer_ok st"
  by (simp_all add: value_of_def value_ok_def)

lemma kv_sound:
  assumes "ValidateStatefulCallShape C tx 0 lockHex locked = Inr sh"
    and "reexecute_kv C tx sh [OP_STORE, OP_1] s caller addr now height = Inr r"
    and "commit_delta sh s (fst r) (snd r) = Inr puts" "snap_family s = []" "reads_as s st" "keys_distinct st"
  shows "delta_sound [] s caller now sh st puts"
proof -
  let ?k = "logicalKey sh" and ?v = "call_value sh"
  obtain x where own: "caller = snap_ownerHash160 s" and r: "r = (kv_state x, [])"
    and ex: "ExecuteStatefulKvV1Call C tx sh [OP_STORE, OP_1] s addr now height MAX_SCRIPT_GAS_PER_INPUT True = Inr x"
    using assms(2) by (auto simp: reexecute_kv_def split: if_splits sum.splits)
  obtain after used where run: "run_call C tx sh [OP_STORE, OP_1] s addr now height MAX_SCRIPT_GAS_PER_INPUT True = Some (after, used)"
    "kv_state x = after" "state_within_limits after"
    using ex by (auto simp: ExecuteStatefulKvV1Call_def MeasureStateBytes_iff split: if_splits option.splits prod.splits)
  have rt: "IsCanonicalContractOutpoint (snap_root s)" "keys_distinct (snap_state s)" using assms(5) by (simp_all add: reads_as_def)
  have after: "after = AList.update ?k ?v (snap_state s)"
    using run(1) unfolding run_call_exact [OF assms(1) rt(1)] by (simp split: if_splits)
  have "puts = entry_puts (snap_root s) [(?k, ?v)] \<and> keys_allowed [(?k, ?v)]"
    using assms(3) state_puts_Inr [of "snap_root s" "\<lambda>_. True" "[(?k, ?v)]" puts]
    by (simp add: commit_delta_def assms(4) Let_def split: if_splits)
  moreover have "map_of (AList.update ?k ?v st) = map_of st ++ map_of [(?k, ?v)]" by simp
  moreover have "state_within_limits (cut_state (AList.update ?k ?v st))"
    by (rule delta_limits [OF assms(5) _ _ run(3), of _ "[(?k, ?v)]"]) (use rt(2) assms(6) after in simp_all)
  moreover have "value_step (snap_ownerHash160 s) caller now sh (value_of [] st) (value_of [] (AList.update ?k ?v st))"
    using own value_step.owner_write [of caller _ now sh "map_of st"] by simp
  ultimately show ?thesis
    unfolding delta_sound_def using assms(6)
    by (intro exI [of _ "[(?k, ?v)]"] exI [of _ "AList.update ?k ?v st"]) simp
qed

interpretation store_family: contract_family "[]" reexecute_kv
  by unfold_locales (rule kv_sound)

text \<open>A ballot reads as the same poll, whatever happened to its texts.\<close>

lemma poll_reads:
  assumes r: "reads_as s st" and ok: "ballot_ok st" "ballot_ok (snap_state s)"
  shows "poll_of (snap_state s) = poll_of st"
    "k = ''totalvotes'' \<or> k = ''numoptions'' \<or> k = ''endtime'' \<or> (\<exists>i<poll_options (poll_of st). k = ''count'' @ dec_string i) \<Longrightarrow>
      map_of (snap_state s) k = map_of st k"
proof -
  let ?cs = "snap_state s"
  have n1: "\<exists>b. map_of st ''numoptions'' = Some [b]" "\<exists>b. map_of ?cs ''numoptions'' = Some [b]"
    using ok by (simp_all add: ballot_ok_def Let_def)
  then have n: "map_of ?cs ''numoptions'' = map_of st ''numoptions''" using reads_same [OF r] by fastforce
  have po: "poll_options (poll_of ?cs) = poll_options (poll_of st)" unfolding poll_of_def poll.simps n ..
  have eight: "map_of ?cs k = map_of st k" if "\<exists>a. map_of st k = Some (EncodeVotingU64 a)" "\<exists>a. map_of ?cs k = Some (EncodeVotingU64 a)" for k
    using that reads_same [OF r] by (metis encode_length)
  have e: "map_of ?cs ''endtime'' = map_of st ''endtime''" by (rule eight) (use ok in \<open>auto simp: ballot_ok_def Let_def\<close>)
  have t: "map_of ?cs ''totalvotes'' = map_of st ''totalvotes''" by (rule eight) (use ok in \<open>auto simp: ballot_ok_def Let_def\<close>)
  have c: "map_of ?cs (''count'' @ dec_string i) = map_of st (''count'' @ dec_string i)" if "i < poll_options (poll_of st)" for i
  proof (rule eight)
    show "\<exists>a. map_of st (''count'' @ dec_string i) = Some (EncodeVotingU64 a)"
      using ok(1) that unfolding ballot_ok_def Let_def by blast
    show "\<exists>a. map_of ?cs (''count'' @ dec_string i) = Some (EncodeVotingU64 a)"
      using ok(2) that unfolding ballot_ok_def Let_def po by blast
  qed
  show "map_of ?cs k = map_of st k"
    if "k = ''totalvotes'' \<or> k = ''numoptions'' \<or> k = ''endtime'' \<or> (\<exists>i<poll_options (poll_of st). k = ''count'' @ dec_string i)"
    using that n e t c by (elim disjE exE conjE) (simp_all only:)
  have one: "length v = 1" if "map_of x (''voted:'' @ h) = Some v" "ballot_ok x" for x h v
  proof -
    have "(''voted:'' @ h, v) \<in> set x" using that(1) by (rule map_of_SomeD)
    then have "marker_ok (poll_options (poll_of x)) (''voted:'' @ h, v)"
      using that(2) voted_key [of h "poll_options (poll_of x)"] unfolding ballot_ok_def Let_def by fastforce
    then show ?thesis by (auto simp: marker_ok_def)
  qed
  have v: "map_of ?cs (''voted:'' @ h) = map_of st (''voted:'' @ h)" for h
  proof (cases "map_of st (''voted:'' @ h)")
    case None
    then show ?thesis using reads_dom [OF r] by metis
  next
    case (Some w)
    then obtain u where u: "map_of ?cs (''voted:'' @ h) = Some u" using reads_dom [OF r] by (metis not_None_eq)
    then have "u = w" using reads_same [OF r u Some] one [OF u ok(2)] one [OF Some ok(1)] by simp
    then show ?thesis using u Some by (simp only:)
  qed
  have "votes_of ?cs h = votes_of st h" for h unfolding votes_of_def v ..
  then have "votes_of ?cs = votes_of st" by (rule ext)
  then show "poll_of ?cs = poll_of st" unfolding poll_of_def ReadVotingU64_def n e by simp
qed

lemma vote_sound:
  assumes "ValidateStatefulCallShape C tx 0 lockHex locked = Inr sh"
    and "reexecute_vote C tx sh [OP_STORE, OP_1] s caller addr now height = Inr r"
    and "commit_delta sh s (fst r) (snd r) = Inr puts" "snap_family s = ''voting_v1''" "reads_as s st" "keys_distinct st"
    and "ballot_ok st"
  shows "delta_sound ''voting_v1'' s caller now sh st puts"
proof -
  let ?cs = "snap_state s"
  have rt: "IsCanonicalContractOutpoint (snap_root s)" "keys_distinct ?cs" "state_within_limits ?cs"
    using assms(5) by (simp_all add: reads_as_def)
  obtain x where x: "ExecuteVotingV1Call C tx sh [OP_STORE, OP_1] s caller addr now height MAX_SCRIPT_GAS_PER_INPUT True = Inr x"
    and r: "r = (vote_state x, [])"
    using assms(2) by (auto simp: reexecute_vote_def split: sum.splits)
  obtain c where c: "may_vote sh ?cs caller now c" "length ?cs < MAX_KEYS_PER_DOMAIN" "vote_state x = after_vote c caller ?cs"
    using x unfolding vote_exact [OF assms(1) rt] by auto
  have m: "ballot_ok ?cs" "c < poll_options (poll_of ?cs)" "IsCanonicalLowerHash160Hex caller" "poll_votes (poll_of ?cs) caller = None"
    "cast (poll_of ?cs) now caller c \<noteq> None"
    using c(1) by (auto simp: may_vote_def cast_def split: if_splits)
  note same = poll_reads [OF assms(5,7) m(1)]
  let ?a = "after_vote c caller ?cs" and ?st' = "after_vote c caller st"
  let ?es = "changed_entries ?cs ?a"
  have dk: "keys_distinct ?a" "keys_distinct ?st'" using rt(2) assms(6) by (simp_all add: after_vote_def)
  have grow: "map_of ?a k \<noteq> None" if "map_of ?cs k \<noteq> None" for k using that by (simp add: after_vote_map)
  note ch = changed_entries_map [OF dk(1) grow]
  have puts: "puts = entry_puts (snap_root s) ?es \<and> keys_allowed ?es"
    using assms(3) state_puts_Inr [of "snap_root s" "\<lambda>_. True" ?es]
    by (auto simp: commit_delta_def assms(4) Let_def r c(3) split: sum.splits if_splits)
  have "map_of ?st' k = (map_of st ++ map_of ?es) k" for k
  proof -
    have a: "map_of ?a k = (map_of ?cs ++ map_of ?es) k" using ch(2) by metis
    have number: "map_of ?cs k = map_of st k" if "k = ''totalvotes'' \<or> k = ''count'' @ dec_string c"
      using same(2) [of k] that m(2) same(1) by auto
    have mark: "map_of ?cs (''voted:'' @ caller) = None"
      using m(3,4) by (simp add: poll_of_def votes_of_def)
    have glue: "map_of ?st' k = map_of ?a k \<Longrightarrow> map_of ?cs k = map_of st k \<Longrightarrow> map_of ?st' k = (map_of st ++ map_of ?es) k"
      using a by (simp only: map_add_def)
    consider "k = ''voted:'' @ caller" | "k = ''totalvotes'' \<or> k = ''count'' @ dec_string c"
      | "k \<noteq> ''voted:'' @ caller" "k \<noteq> ''totalvotes''" "k \<noteq> ''count'' @ dec_string c" by blast
    then show ?thesis
    proof cases
      case 1
      then have "map_of st k = None" using mark reads_dom [OF assms(5)] by metis
      moreover have "map_of ?cs k = None" using mark 1 by (simp only:)
      moreover have "map_of ?st' k = map_of ?a k" unfolding 1 after_vote_map by simp
      ultimately show ?thesis using glue by metis
    next
      case 2
      have "map_of ?st' k = map_of ?a k" using 2 unfolding after_vote_map same(1) by auto
      then show ?thesis using glue number [OF 2] by blast
    next
      case 3
      have st: "map_of ?st' k = map_of st k" "map_of ?a k = map_of ?cs k"
        unfolding after_vote_map using 3 by (simp_all only: if_False)
      have "map_of ?es k = None"
      proof (cases "map_of ?es k")
        case (Some v)
        then have "(k, v) \<in> set ?es" by (rule map_of_SomeD)
        then have "(k, v) \<in> set ?a" "map_of ?cs k \<noteq> Some v" by (simp_all add: changed_entries_def)
        then show ?thesis using dk(1) st(2) by simp
      qed
      then show ?thesis using st(1) by (simp add: map_add_def)
    qed
  qed
  then have st': "map_of ?st' = map_of st ++ map_of ?es" by (rule ext)
  have lim: "state_within_limits ?a" using after_vote_limits [OF rt(2,3) m(1,3,2,4)] c(2) by blast
  have "state_within_limits (cut_state ?st')" by (rule delta_limits [OF assms(5) dk lim ch(2) st'])
  moreover have "ballot_ok ?st'"
    using after_vote_ok [OF assms(6,7) m(3)] m(2,4) unfolding same(1) by blast
  moreover have "c \<le> 9" using m(1,2) by (auto simp: ballot_ok_def Let_def)
  then have "cast (poll_of st) now caller c = Some (poll_of ?st')"
    using after_vote_poll [OF m(3)] m(5) unfolding same(1) by (simp add: cast_def split: if_splits)
  then have "value_step (snap_ownerHash160 s) caller now sh (value_of ''voting_v1'' st) (value_of ''voting_v1'' ?st')"
    using c(1) by (simp add: value_step.vote may_vote_def vote_call_def)
  ultimately show ?thesis
    unfolding delta_sound_def using puts ch(1) dk(2) st' by (intro exI [of _ ?es] exI [of _ ?st']) simp
qed

interpretation poll_family: contract_family "''voting_v1''" reexecute_vote
  by unfold_locales (rule vote_sound, simp_all)

text \<open>An issuer is read as it was stored: its name has no bar and its numbers keep their length.\<close>

lemma issuer_reads:
  assumes r: "reads_as s st" and ok: "issuer_ok st" "issuer_ok (snap_state s)"
  shows "map_of (snap_state s) = map_of st"
proof
  fix k
  show "map_of (snap_state s) k = map_of st k"
  proof (cases "map_of st k")
    case None
    then show ?thesis using reads_dom [OF r] by metis
  next
    case (Some w)
    obtain v where v: "map_of (snap_state s) k = Some v" using Some reads_dom [OF r] by (metis not_None_eq)
    have "v = w"
    proof (cases "k = ''token_name''")
      case True
      then have "0x7c \<notin> set w" using issuer_name_no_bar [OF ok(1), of w] Some by metis
      then have "cut_value w = w" by (simp only: cut_value_id_iff simp_thms)
      then show ?thesis using r v Some by (auto simp: reads_as_def)
    next
      case False
      then show ?thesis
        using reads_same [OF r v Some] issuer_number_length [OF ok(1) Some False] issuer_number_length [OF ok(2) v False] by simp
    qed
    then show ?thesis using v Some by simp
  qed
qed

lemma issuer_of_cong: "map_of a = map_of b \<Longrightarrow> issuer_of a = issuer_of b \<and> holding a h = holding b h"
  by (simp add: issuer_of_def read_nat_def ReadVotingU64_def holding_def fun_eq_iff balances_of_def)

lemma issue_sound:
  assumes "ValidateStatefulCallShape C tx 0 lockHex locked = Inr sh"
    and "reexecute_issue C tx sh [OP_STORE, OP_1] s caller addr now height = Inr r"
    and "commit_delta sh s (fst r) (snd r) = Inr puts" "snap_family s = ''token_issuer_v1''" "reads_as s st" "keys_distinct st"
    and "issuer_ok st"
  shows "delta_sound ''token_issuer_v1'' s caller now sh st puts"
proof -
  let ?cs = "snap_state s"
  have rt: "IsCanonicalContractOutpoint (snap_root s)" "keys_distinct ?cs" "state_within_limits ?cs"
    using assms(5) by (simp_all add: reads_as_def)
  obtain x where x: "ExecuteTokenIssuerV1Call C tx sh [OP_STORE, OP_1] s caller addr now height MAX_SCRIPT_GAS_PER_INPUT True = Inr x"
    and r: "r = (issue_state x, issue_balanceKey x)"
    using assms(2) by (auto simp: reexecute_issue_def split: sum.splits)
  have b: "may_buy sh ?cs caller" "has_room ?cs caller" and xr: "x = issue_result sh ?cs caller"
    using x unfolding issue_exact [OF assms(1) rt] by blast+
  note m = may_buy_parts [OF b(1)]
  have same: "map_of ?cs = map_of st" by (rule issuer_reads [OF assms(5,7) m(2)])
  have io: "issuer_of ?cs = issuer_of st" and hold: "holding ?cs caller = holding st caller"
    using issuer_of_cong [OF same] by blast+
  have mb: "minted_by sh ?cs = minted_by sh st" by (simp add: minted_by_def io)
  have buy: "may_buy sh st caller" using b(1) assms(7) unfolding may_buy_def io mb by blast
  let ?m = "minted_by sh st"
  let ?a = "after_buy caller ?m ?cs" and ?st' = "after_buy caller ?m st"
  let ?es = "changed_entries ?cs ?a"
  have dk: "keys_distinct ?a" "keys_distinct ?st'" using rt(2) assms(6) by (simp_all add: after_buy_distinct)
  have grow: "map_of ?a k \<noteq> None" if "map_of ?cs k \<noteq> None" for k using that by (simp add: after_buy_map)
  note ch = changed_entries_map [where prior = ?cs, OF dk(1) grow]
  have eq: "map_of ?st' = map_of ?a" by (rule ext) (simp add: after_buy_map io hold same)
  have "map_of ?a = map_of ?cs ++ map_of ?es" by (rule ch(2))
  then have st': "map_of ?st' = map_of st ++ map_of ?es" unfolding eq same .
  have a: "issue_state x = ?a" by (simp add: xr issue_result_def mb)
  have puts: "puts = entry_puts (snap_root s) ?es \<and> keys_allowed ?es"
    using assms(3) state_puts_Inr [of "snap_root s" "\<lambda>k. k = ''total_issued'' \<or> k = issue_balanceKey x" ?es]
    by (auto simp: commit_delta_def assms(4) Let_def r a split: sum.splits if_splits)
  have lim: "state_within_limits ?a" using after_buy_limits(1) [OF rt(2,3) b(1)] b(2) by (simp add: mb)
  have "state_within_limits (cut_state ?st')" by (rule delta_limits [OF assms(5) dk lim ch(2) st'])
  moreover note p = may_buy_parts [OF buy]
  moreover have "issuer_ok ?st'" by (rule after_buy_ok [OF assms(6,7) p(1,6,7)])
  moreover have "value_step (snap_ownerHash160 s) caller now sh (value_of ''token_issuer_v1'' st) (value_of ''token_issuer_v1'' ?st')"
    using buy_result [OF assms(6) buy] by (simp add: value_step.purchase)
  ultimately show ?thesis
    unfolding delta_sound_def using puts ch(1) dk(2) st' by (intro exI [of _ ?es] exI [of _ ?st']) simp
qed

interpretation issuer_family: contract_family "''token_issuer_v1''" reexecute_issue
  by unfold_locales (rule issue_sound, simp_all)

end
