(* ===== verification/Block_Contracts.thy ===== *)
theory Block_Contracts
  imports State_Ledger
begin

text \<open>
  The contract phases of a block against the ledger of contracts, over any number of blocks: a new
  root opens a contract, a committed call moves one contract, nothing else changes. The writes of the
  other phases of a block are arbitrary, except that they stay off the five kinds of contract keys.
\<close>

subsection \<open>Creating a root opens a contract\<close>

lemma created_value:
  assumes "creation_family env = Inr fam" "keys_distinct (entries env)"
  shows "value_ok (family_text fam) (entries env) \<and> fresh_value (value_of (family_text fam) (entries env)) \<and> entries env \<noteq> []"
proof -
  consider "fam = KvV1" "length (entries env) = 1" | u where "fam = VotingV1" "IsCanonicalVotingV1InitEnvelope env = Inr u"
    | u where "fam = TokenIssuerV1" "IsCanonicalTokenIssuerV1InitEnvelope env = Inr u"
    using assms(1) by (auto simp: creation_family_def split: if_splits sum.splits)
  then show ?thesis
  proof cases
    case 1
    then show ?thesis by (cases "entries env") (auto simp: family_text_def)
  next
    case 2
    moreover have "entries env \<noteq> []" using voting_init_parts [OF 2(2)] by fastforce
    ultimately show ?thesis using voting_init_ok [OF 2(2) assms(2)] by (simp add: family_text_def)
  next
    case 3
    have "entries env \<noteq> []" using issuer_init_ok [OF 3(2)] by (auto simp: issuer_ok_def Let_def)
    then show ?thesis using issuer_init_ok [OF 3(2)] by (simp add: 3(1) family_text_def)
  qed
qed

lemma canonical_build: "BuildCanonicalContractOutpoint t n \<noteq> [] \<Longrightarrow> IsCanonicalContractOutpoint (BuildCanonicalContractOutpoint t n)"
  using parse_build_outpoint [of t n] LowerHex64_nonempty [of t] LowerHex64_id [of "LowerHex64 t"]
  by (auto simp: IsCanonicalContractOutpoint_def BuildCanonicalContractOutpoint_def Let_def split: if_splits)

lemma build_txid: "BuildCanonicalContractOutpoint t n = BuildCanonicalContractOutpoint t' n' \<Longrightarrow>
    BuildCanonicalContractOutpoint t n \<noteq> [] \<Longrightarrow> LowerHex64 t = LowerHex64 t'"
proof -
  assume e: "BuildCanonicalContractOutpoint t n = BuildCanonicalContractOutpoint t' n'" "BuildCanonicalContractOutpoint t n \<noteq> []"
  then have "LowerHex64 t \<noteq> []" "LowerHex64 t' \<noteq> []" by (auto simp: BuildCanonicalContractOutpoint_def Let_def split: if_splits)
  then show ?thesis using parse_build_outpoint [of t n] parse_build_outpoint [of t' n'] e(1) by simp
qed

lemma hash160_text: "length h = 20 \<Longrightarrow> IsCanonicalLowerHash160Hex (hex_encode h)"
  using hex_lower_encode [of h] by (simp add: IsCanonicalLowerHash160Hex_def hex_lower_def)

definition root_rows :: "string \<Rightarrow> string \<Rightarrow> StatefulCreationFamily \<Rightarrow> batch_op list" where
  "root_rows rt own fam =
     [BatchPut (BuildContractLineageKey rt) rt, BatchPut (BuildContractLiveKey rt) rt, BatchPut (BuildContractOwnerKey rt) own] @
     family_puts fam (BuildContractFamilyKey rt)"

lemma create_root_parts:
  assumes "create_root L d utxos tx sc created = Inr (rt, puts)" "leveldb_ok L con"
  obtains own n where "rt = BuildCanonicalContractOutpoint (txid tx) (word_of_nat n)" "IsCanonicalContractOutpoint rt" "rt \<notin> set created"
    "length (vin tx) = 1" "IsCanonicalLowerHash160Hex own" "res_targetVout sc = Some n" "coin_holder utxos (vin tx ! 0) = Some own"
    "puts = root_rows rt own (family sc) @ entry_puts rt (entries (initEnvelope sc))" "keys_allowed (entries (initEnvelope sc))"
    "con d (BuildContractLineageKey rt) = None" "con d (BuildContractLiveKey rt) = None"
proof -
  obtain t where t: "res_targetVout sc = Some t" using assms(1) by (auto simp: create_root_def split: option.splits)
  obtain u where u: "utxos (prev_txid (vin tx ! 0)) (prev_vout (vin tx ! 0)) = Some u"
    using assms(1) by (auto simp: create_root_def Let_def t split: option.splits if_splits)
  obtain own where own: "ExtractCanonicalP2PKHHash160Hex (utxo_scriptPubKey u) = Some own"
    using assms(1) by (auto simp: create_root_def Let_def t u split: option.splits if_splits)
  have p: "rt = BuildCanonicalContractOutpoint (txid tx) (word_of_nat t)" "rt \<noteq> []" "rt \<notin> set created"
    "length (vin tx) = 1" "root_puts L d rt own sc = Inr puts"
    using assms(1) by (auto simp: create_root_def Let_def t u own split: if_splits sum.splits)
  have can: "IsCanonicalContractOutpoint rt" unfolding p(1) by (rule canonical_build) (use p(1,2) in simp)
  obtain h where "length h = 20" "own = hex_encode h" using own p2pkh_owner_exact by blast
  then have h: "IsCanonicalLowerHash160Hex own" using hash160_text by blast
  let ?keys = "[BuildContractLineageKey rt, BuildContractLiveKey rt, BuildContractOwnerKey rt, BuildContractFamilyKey rt]"
  obtain es where es: "find (\<lambda>key. \<not> key_absent L d key) ?keys = None" "init_puts L d rt (entries (initEnvelope sc)) = Inr es"
    "puts = root_rows rt own (family sc) @ es"
    using p(5) by (auto simp: root_puts_def root_rows_def Let_def split: option.splits sum.splits if_splits)
  have "con d k = None" if "k \<in> set ?keys" for k
  proof -
    have "key_absent L d k" using es(1) that by (metis find_None_iff)
    then show ?thesis using getRaw_Some [OF assms(2)] by (metis key_absent_def)
  qed
  then show thesis
    using that [OF p(1) can p(3,4) h t] es(3) init_puts_Inr [OF es(2)] by (simp add: coin_holder_def u own)
qed

lemma root_rows_map:
  assumes "IsCanonicalContractOutpoint rt"
  shows "apply_batch (root_rows rt own fam) m = (let m' = m(BuildContractLineageKey rt \<mapsto> rt, BuildContractLiveKey rt \<mapsto> rt,
      BuildContractOwnerKey rt \<mapsto> own) in if family_text fam = [] then m' else m'(BuildContractFamilyKey rt \<mapsto> family_text fam))"
  by (simp add: root_rows_def family_puts_def family_text_def Let_def)

lemma opened_domain:
  assumes can: "IsCanonicalContractOutpoint rt" "IsCanonicalLowerHash160Hex own"
    and es: "keys_distinct es" "keys_allowed es" "es \<noteq> []" "state_within_limits es"
    and m: "contract_absent m rt"
  shows "domain_stored (apply_batch (root_rows rt own fam @ entry_puts rt es) m) rt rt own (family_text fam) es"
proof -
  let ?m1 = "apply_batch (root_rows rt own fam) m" and ?m = "apply_batch (root_rows rt own fam @ entry_puts rt es) m"
  have m2: "?m = apply_batch (entry_puts rt es) ?m1" by simp
  have keys: "op_key ` set (entry_puts rt es) \<subseteq> range (\<lambda>e. BuildContractStatePrefix rt @ e)"
    by (rule entry_puts_keys [OF es(2) can(1)])
  have frame: "?m (BuildContractLineageKey rt) = ?m1 (BuildContractLineageKey rt)" "?m (BuildContractLiveKey rt) = ?m1 (BuildContractLiveKey rt)"
    "?m (BuildContractOwnerKey rt) = ?m1 (BuildContractOwnerKey rt)" "?m (BuildContractFamilyKey rt) = ?m1 (BuildContractFamilyKey rt)"
    unfolding m2 by (rule apply_batch_frame, use keys can(1) in \<open>force simp: key_defs\<close>)+
  have none: "m (BuildContractFamilyKey rt) = None" "m (BuildContractStatePrefix rt @ e) = None" for e
    using m by (auto simp: contract_absent_def contract_keys_def)
  have "?m1 (BuildContractLineageKey rt) = Some rt" "?m1 (BuildContractLiveKey rt) = Some rt" "?m1 (BuildContractOwnerKey rt) = Some own"
    "?m1 (BuildContractFamilyKey rt) = (if family_text fam = [] then None else Some (family_text fam))"
    using can(1) none(1) unfolding root_rows_map [OF can(1)] Let_def key_defs by (simp_all split: if_split)
  then have regs: "?m (BuildContractLineageKey rt) = Some rt" "?m (BuildContractLiveKey rt) = Some rt" "?m (BuildContractOwnerKey rt) = Some own"
    "?m (BuildContractFamilyKey rt) = (if family_text fam = [] then None else Some (family_text fam))"
    by (simp_all only: frame)
  have "?m1 (BuildContractStatePrefix rt @ e) = None" for e
    using can(1) none(2) [of e] by (simp add: root_rows_map Let_def key_defs)
  then have "?m (BuildContractStatePrefix rt @ e) = Some raw \<longleftrightarrow>
      (\<exists>k v. map_of es k = Some v \<and> e = HexEncodeLogicalKey k \<and> raw = string_of_bytes v)" for e raw
    unfolding m2 apply_entry_puts [OF es(1,2) can(1)] by simp
  moreover have "family_text fam \<in> {'''', ''voting_v1'', ''token_issuer_v1''}" by (simp add: family_text_def)
  ultimately show ?thesis
    using regs can es cut_state_limits [OF es(1,4)] unfolding domain_stored_def by blast
qed

lemma root_ops_keys:
  assumes "IsCanonicalContractOutpoint rt" "keys_allowed es"
  shows "op_key ` set (root_rows rt own fam @ entry_puts rt es) \<subseteq> insert (BuildContractLineageKey rt) (contract_keys rt)"
  using entry_puts_keys [OF assms(2,1)]
  by (auto simp: root_rows_def family_puts_def op_key_def contract_keys_def)

subsection \<open>A block in progress\<close>

text \<open>
  \<open>m\<close> is what the database will hold after the writes so far, \<open>base\<close> what it held before the block:
  contracts outside \<open>R\<close> are untouched, and so are lineage records outside \<open>W\<close>, which had none before.
  The live anchor of a contract is its old one or lies in \<open>W\<close>.
\<close>

definition block_inv ::
    "(string \<rightharpoonup> string) \<Rightarrow> ledger \<Rightarrow> string set \<Rightarrow> string set \<Rightarrow> (string \<rightharpoonup> string) \<Rightarrow> ledger \<Rightarrow> bool" where
  "block_inv base l0 R W m l \<longleftrightarrow>
     represents m l \<and>
     (\<forall>rt. IsCanonicalContractOutpoint rt \<longrightarrow> rt \<notin> R \<longrightarrow> l rt = l0 rt \<and> (\<forall>k\<in>contract_keys rt. m k = base k)) \<and>
     (\<forall>a. IsCanonicalContractOutpoint a \<longrightarrow> a \<notin> W \<longrightarrow> m (BuildContractLineageKey a) = base (BuildContractLineageKey a)) \<and>
     (\<forall>a\<in>W. base (BuildContractLineageKey a) = None) \<and>
     (\<forall>rt c. l rt = Some c \<longrightarrow> live_anchor c \<in> W \<or> (\<exists>c0. l0 rt = Some c0 \<and> live_anchor c0 = live_anchor c))"

lemma block_inv_start: "represents m l \<Longrightarrow> block_inv m l {} {} m l"
  by (simp add: block_inv_def)

lemma block_inv_step:
  assumes inv: "block_inv base l0 R W m l" and ops: "op_key ` set ops \<subseteq> insert (BuildContractLineageKey new) (contract_keys rt)"
    and can: "IsCanonicalContractOutpoint rt" "IsCanonicalContractOutpoint new"
    and fresh: "new \<notin> W" "base (BuildContractLineageKey new) = None"
    and st: "domain_stored (apply_batch ops m) rt (live_anchor c) (owned_by c) fam st" "value_ok fam st" "holds c = value_of fam st"
    and live: "live_anchor c = new"
  shows "block_inv base l0 (insert rt R) (insert new W) (apply_batch ops m) (l(rt \<mapsto> c))"
proof -
  have lin: "m (BuildContractLineageKey new) = None" using inv fresh can(2) by (simp add: block_inv_def)
  have rep: "represents m l" using inv by (simp add: block_inv_def)
  have "represents (apply_batch ops m) (l(rt \<mapsto> c))" by (rule represents_update [OF rep ops can lin st])
  moreover have "apply_batch ops m k = base k"
    if k: "k \<in> contract_keys rt'" and c: "IsCanonicalContractOutpoint rt'" "rt' \<notin> insert rt R" for k rt'
  proof -
    have "k \<noteq> BuildContractLineageKey new" using lineage_not_contract [OF can(2) c(1)] k by metis
    moreover have "k \<notin> contract_keys rt" using contract_keys_disjoint [OF can(1) c(1) _ k] c(2) by blast
    ultimately have "apply_batch ops m k = m k" using ops by (intro apply_batch_frame) blast
    then show ?thesis using inv k c by (simp add: block_inv_def)
  qed
  moreover have "apply_batch ops m (BuildContractLineageKey a) = base (BuildContractLineageKey a)"
    if a: "IsCanonicalContractOutpoint a" "a \<notin> insert new W" for a
  proof -
    have "BuildContractLineageKey a \<notin> insert (BuildContractLineageKey new) (contract_keys rt)"
      using lineage_not_contract [OF a(1) can(1)] lineage_key_inject [OF a(1) can(2)] a(2) by blast
    then have "apply_batch ops m (BuildContractLineageKey a) = m (BuildContractLineageKey a)"
      using ops by (intro apply_batch_frame) blast
    then show ?thesis using inv a by (simp add: block_inv_def)
  qed
  ultimately show ?thesis using inv fresh(2) live unfolding block_inv_def by auto
qed

lemma block_inv_absent: "block_inv base l0 R W m l \<Longrightarrow> l rt = None \<Longrightarrow> IsCanonicalContractOutpoint rt \<Longrightarrow> contract_absent m rt"
  by (simp add: block_inv_def represents_def)

lemma ledger_live:
  assumes "represents m l" "l rt = Some c"
  shows "m (BuildContractLiveKey rt) = Some (live_anchor c)"
  using assms by (auto simp: represents_def domain_stored_def)

lemma ledger_of_live:
  assumes "represents m l" "IsCanonicalContractOutpoint rt" "m (BuildContractLiveKey rt) = Some cur"
  obtains c where "l rt = Some c" "live_anchor c = cur"
proof (cases "l rt")
  case None
  then have "contract_absent m rt" using assms(1,2) by (simp add: represents_def)
  then show thesis using assms(3) by (simp add: contract_absent_def contract_keys_def)
next
  case (Some c)
  then show thesis using ledger_live [OF assms(1) Some] assms(3) that by simp
qed

subsection \<open>Phase 3.5\<close>

lemma create_root_sound:
  assumes cr: "create_root L d utxos tx sc created = Inr (rt, puts)" and L: "leveldb_ok L con"
    and shape: "ValidateStatefulCreationShape tx = Inr sc" "hasCreation sc"
    and inv: "block_inv (con d) l0 (set created) (set created) m l" and rep: "represents (con d) l0"
  shows "\<exists>l'. open_step utxos tx l l' \<and> block_inv (con d) l0 (set (rt # created)) (set (rt # created)) (apply_batch puts m) l' \<and>
    l0 rt = None \<and> (\<exists>n. rt = BuildCanonicalContractOutpoint (txid tx) n) \<and> IsCanonicalContractOutpoint rt \<and> length (vin tx) = 1"
proof -
  let ?es = "entries (initEnvelope sc)" and ?fam = "family_text (family sc)"
  obtain own n where p: "rt = BuildCanonicalContractOutpoint (txid tx) (word_of_nat n)" "IsCanonicalContractOutpoint rt" "rt \<notin> set created"
    "length (vin tx) = 1" "IsCanonicalLowerHash160Hex own" "puts = root_rows rt own (family sc) @ entry_puts rt ?es" "keys_allowed ?es"
    "con d (BuildContractLineageKey rt) = None" "con d (BuildContractLiveKey rt) = None"
    "res_targetVout sc = Some n" "coin_holder utxos (vin tx ! 0) = Some own"
    using create_root_parts [OF cr L] by blast
  have l0: "l0 rt = None" using ledger_live [OF rep, of rt] p(9) by (cases "l0 rt") auto
  then have l: "l rt = None" using inv p(2,3) by (simp add: block_inv_def)
  have e: "keys_distinct ?es" "state_within_limits ?es" "creation_family (initEnvelope sc) = Inr (family sc)"
    using creation_parts [OF shape] by blast+
  note v = created_value [OF e(3,1)]
  let ?c = "\<lparr>live_anchor = rt, owned_by = own, holds = value_of ?fam ?es\<rparr>"
  have st: "domain_stored (apply_batch puts m) rt rt own ?fam ?es"
    unfolding p(6) using v by (intro opened_domain p(2,5,7) e(1,2) block_inv_absent [OF inv l]) blast
  have ops: "op_key ` set puts \<subseteq> insert (BuildContractLineageKey rt) (contract_keys rt)"
    unfolding p(6) by (rule root_ops_keys [OF p(2,7)])
  have "block_inv (con d) l0 (insert rt (set created)) (insert rt (set created)) (apply_batch puts m) (l(rt \<mapsto> ?c))"
    by (rule block_inv_step [OF inv ops p(2,2,3,8)]) (use st v in simp_all)
  moreover have "open_step utxos tx l (l(rt \<mapsto> ?c))"
  proof (rule open_contract)
    show "l rt = None" "length (vin tx) = 1" by (rule l, rule p(4))
  qed (use v shape p(1,10,11) in simp_all)
  ultimately show ?thesis using l0 p(1,2,4) by auto
qed

lemma create_roots_sound:
  assumes "create_roots L d utxos created txs = Inr puts" "leveldb_ok L con" "represents (con d) l0"
    and "block_inv (con d) l0 (set created) (set created) m l"
  shows "\<exists>l' made. ledger_run opens_contract (open_step utxos) txs l l' \<and> block_inv (con d) l0 (set made) (set made) (apply_batch puts m) l' \<and>
    (\<forall>rt\<in>set made - set created. l0 rt = None \<and> IsCanonicalContractOutpoint rt \<and>
       (\<exists>tx\<in>set txs. \<exists>n. rt = BuildCanonicalContractOutpoint (txid tx) n \<and> length (vin tx) = 1))"
  using assms(1,4)
proof (induction txs arbitrary: created m l puts)
  case Nil
  then show ?case by (intro exI [of _ l] exI [of _ created]) (simp add: run_done)
next
  case (Cons tx txs)
  obtain sc where sc: "ValidateStatefulCreationShape tx = Inr sc" using Cons.prems(1) by (auto split: sum.splits)
  show ?case
  proof (cases "hasCreation sc")
    case False
    then have "create_roots L d utxos created txs = Inr puts" using Cons.prems(1) sc by simp
    then obtain l' made where i: "ledger_run opens_contract (open_step utxos) txs l l'" "block_inv (con d) l0 (set made) (set made) (apply_batch puts m) l'"
      "\<forall>rt\<in>set made - set created. l0 rt = None \<and> IsCanonicalContractOutpoint rt \<and>
         (\<exists>tx\<in>set txs. \<exists>n. rt = BuildCanonicalContractOutpoint (txid tx) n \<and> length (vin tx) = 1)"
      using Cons.IH [OF _ Cons.prems(2)] by blast
    have "ledger_run opens_contract (open_step utxos) (tx # txs) l l'"
      using i(1) sc False by (intro run_idle) (simp_all add: opens_contract_def)
    then show ?thesis using i(2,3) by (intro exI [of _ l'] exI [of _ made]) auto
  next
    case True
    obtain rt ps rest where c: "create_root L d utxos tx sc created = Inr (rt, ps)"
      "create_roots L d utxos (rt # created) txs = Inr rest" "puts = ps @ rest"
      using Cons.prems(1) sc True by (auto split: sum.splits)
    obtain l1 n where s: "open_step utxos tx l l1" "block_inv (con d) l0 (set (rt # created)) (set (rt # created)) (apply_batch ps m) l1"
      "l0 rt = None" "rt = BuildCanonicalContractOutpoint (txid tx) n" "IsCanonicalContractOutpoint rt" "length (vin tx) = 1"
      using create_root_sound [OF c(1) assms(2) sc True Cons.prems(2) assms(3)] by blast
    obtain l' made where i: "ledger_run opens_contract (open_step utxos) txs l1 l'"
      "block_inv (con d) l0 (set made) (set made) (apply_batch rest (apply_batch ps m)) l'"
      "\<forall>rt\<in>set made - set (rt # created). l0 rt = None \<and> IsCanonicalContractOutpoint rt \<and>
         (\<exists>tx\<in>set txs. \<exists>n. rt = BuildCanonicalContractOutpoint (txid tx) n \<and> length (vin tx) = 1)"
      using Cons.IH [OF c(2) s(2)] by blast
    show ?thesis
    proof (intro exI conjI)
      show "ledger_run opens_contract (open_step utxos) (tx # txs) l l'"
        using s(1) i(1) sc True by (intro run_step) (simp_all add: opens_contract_def)
      show "block_inv (con d) l0 (set made) (set made) (apply_batch puts m) l'" using i(2) by (simp add: c(3))
      show "\<forall>rt\<in>set made - set created. l0 rt = None \<and> IsCanonicalContractOutpoint rt \<and>
         (\<exists>tx'\<in>set (tx # txs). \<exists>n. rt = BuildCanonicalContractOutpoint (txid tx') n \<and> length (vin tx') = 1)"
        using i(3) s(3-6) by auto
    qed
  qed
qed

subsection \<open>Phase 3.6\<close>

lemma canonical_not_empty: "IsCanonicalContractOutpoint a \<Longrightarrow> a \<noteq> []"
  by (auto simp: canonical_outpoint_iff outpoint_text_def)

lemma loaded_reads_as:
  assumes "leveldb_ok L con" "domain_stored (con d) rt cur own fam st" "LoadConfirmedStateDomain L d cur = Inr s"
  shows "reads_as s st"
proof -
  note i = load_inv [OF assms(1,3)]
  show ?thesis
    using i(1,4) canonical_not_empty [OF i(5)] load_state_wf [OF i(8)] stored_domain_loaded(4) [OF assms]
    unfolding reads_as_def by simp
qed

text \<open>Whatever the family, a call moves the value of its contract one step.\<close>

lemma reexecute_moves:
  assumes "ValidateStatefulCallShape C tx 0 lockHex locked = Inr sh"
    and "reexecute C tx sh [OP_STORE, OP_1] s caller addr now height = Inr r" "addr \<noteq> []"
    and "commit_delta sh s (fst r) (snd r) = Inr puts" "reads_as s st"
    and "domain_stored m (snap_root s) cur (snap_ownerHash160 s) (snap_family s) st" "value_ok (snap_family s) st"
    and "IsCanonicalContractOutpoint new"
    and "ops = puts @ [BatchPut (BuildContractLineageKey new) (snap_root s), BatchPut (BuildContractLiveKey (snap_root s)) new]"
  shows "\<exists>st'. domain_stored (apply_batch ops m) (snap_root s) new (snap_ownerHash160 s) (snap_family s) st' \<and>
    value_ok (snap_family s) st' \<and>
    value_step (snap_ownerHash160 s) caller now sh (value_of (snap_family s) st) (value_of (snap_family s) st') \<and>
    op_key ` set ops \<subseteq> insert (BuildContractLineageKey new) (contract_keys (snap_root s))"
proof -
  consider "snap_family s = []" "reexecute_kv C tx sh [OP_STORE, OP_1] s caller addr now height = Inr r"
    | "snap_family s = ''voting_v1''" "reexecute_vote C tx sh [OP_STORE, OP_1] s caller addr now height = Inr r"
    | "snap_family s = ''token_issuer_v1''" "reexecute_issue C tx sh [OP_STORE, OP_1] s caller addr now height = Inr r"
    using assms(2) unfolding reexecute_def by (auto split: if_splits)
  then show ?thesis
  proof cases
    case 1
    show ?thesis
      using store_family.call_moves [OF assms(1) 1(2) assms(3,4) 1(1) assms(5) _ _ assms(8,9)] assms(6,7) unfolding 1(1) by blast
  next
    case 2
    show ?thesis
      using poll_family.call_moves [OF assms(1) 2(2) assms(3,4) 2(1) assms(5) _ _ assms(8,9)] assms(6,7) unfolding 2(1) by blast
  next
    case 3
    show ?thesis
      using issuer_family.call_moves [OF assms(1) 3(2) assms(3,4) 3(1) assms(5) _ _ assms(8,9)] assms(6,7) unfolding 3(1) by blast
  qed
qed

lemma commit_call_concerned: "commit_call L d C utxos tokenOwner now height tx applied = Inr r \<Longrightarrow> r \<noteq> None \<longleftrightarrow> calls_contract utxos tx"
  by (auto simp: commit_call_def calls_contract_def Let_def split: option.splits if_splits sum.splits)

lemma commit_call_parts:
  assumes "commit_call L d C utxos tokenOwner now height tx applied = Inr (Some (rt, puts))"
  obtains u sh cur s caller addr r ps n where
    "ValidateStatefulCallShape C tx 0 (utxo_scriptPubKey u) (utxo_amount u) = Inr sh" "LoadConfirmedStateDomain L d cur = Inr s" "rt = snap_root s"
    "snap_root s \<notin> set applied" "addr \<noteq> []" "reexecute C tx sh [OP_STORE, OP_1] s caller addr now height = Inr r"
    "commit_delta sh s (fst r) (snd r) = Inr ps" "BuildCanonicalContractOutpoint (txid tx) n \<noteq> []"
    "getRaw L d (BuildContractLineageKey (BuildCanonicalContractOutpoint (txid tx) n)) = Some None"
    "puts = ps @ [BatchPut (BuildContractLineageKey (BuildCanonicalContractOutpoint (txid tx) n)) (snap_root s),
       BatchPut (BuildContractLiveKey (snap_root s)) (BuildCanonicalContractOutpoint (txid tx) n)]"
    "calls_contract utxos tx" "utxos (prev_txid (vin tx ! 0)) (prev_vout (vin tx ! 0)) = Some u"
    "cur = BuildCanonicalContractOutpoint (prev_txid (vin tx ! 0)) (prev_vout (vin tx ! 0))"
    "coin_holder utxos (vin tx ! 1) = Some caller" "n = word_of_nat (call_continuationVout sh)"
proof -
  obtain u scr where c: "commit_state_call L d C utxos tokenOwner now height tx u scr applied = Inr (rt, puts)"
    and scr: "hexDecode (utxo_scriptPubKey u) = Some scr"
    and u: "utxos (prev_txid (vin tx ! 0)) (prev_vout (vin tx ! 0)) = Some u"
    using assms unfolding commit_call_def Let_def by (auto split: option.splits if_splits sum.splits)
  let ?lock = "utxo_scriptPubKey u"
  let ?cur = "BuildCanonicalContractOutpoint (prev_txid (vin tx ! 0)) (prev_vout (vin tx ! 0))"
  obtain sh where sh: "ValidateStatefulCallShape C tx 0 ?lock (utxo_amount u) = Inr sh"
    using c by (auto simp: commit_state_call_def split: sum.splits)
  obtain s where s: "LoadConfirmedStateDomain L d ?cur = Inr s"
    using c by (auto simp: commit_state_call_def Let_def sh split: sum.splits if_splits)
  obtain caller addr where a: "call_caller C utxos tokenOwner (vin tx ! callerInputIndex sh) = Inr (caller, addr)"
    using c by (auto simp: commit_state_call_def Let_def sh s split: sum.splits if_splits)
  obtain r where r: "reexecute C tx sh scr s caller addr now height = Inr r"
    using c by (auto simp: commit_state_call_def Let_def sh s a split: sum.splits if_splits)
  have p: "rollover L d tx sh s r = Inr puts" "rt = snap_root s" "snap_root s \<notin> set applied"
    using c by (auto simp: commit_state_call_def Let_def sh s a r split: sum.splits if_splits)
  have "calls_contract utxos tx" by (rule commit_call_concerned [THEN iffD1, OF assms]) simp
  moreover have "coin_holder utxos (vin tx ! 1) = Some caller"
    using a call_shape_parts(2) [OF sh] by (auto simp: call_caller_def coin_holder_def split: option.splits if_splits)
  moreover have "addr \<noteq> []" using a by (auto simp: call_caller_def split: option.splits if_splits)
  moreover have "scr = [OP_STORE, OP_1]"
    using call_shape_parts(7) [OF sh] scr hexDecode_hex_decode by (simp add: DecodeScriptHexStrict_Some)
  moreover let ?new = "BuildCanonicalContractOutpoint (txid tx) (word_of_nat (call_continuationVout sh))"
  obtain ps where "commit_delta sh s (fst r) (snd r) = Inr ps" "?new \<noteq> []" "getRaw L d (BuildContractLineageKey ?new) = Some None"
    "puts = ps @ [BatchPut (BuildContractLineageKey ?new) (snap_root s), BatchPut (BuildContractLiveKey (snap_root s)) ?new]"
    using p(1) unfolding rollover_def Let_def key_absent_def by (auto split: if_splits sum.splits)
  ultimately show thesis using that [OF sh s p(2,3) _ _ _ _ _ _ _ u refl _ refl] r by blast
qed

lemma commit_call_sound:
  assumes cc: "commit_call L d C utxos tokenOwner now height tx applied = Inr (Some (rt, puts))" and L: "leveldb_ok L con"
    and inv: "block_inv (con d) l0 R W m l" and rep: "represents (con d) l0"
    and R: "\<forall>rt\<in>R. l0 rt = None \<or> rt \<in> set applied" and W: "\<forall>n. BuildCanonicalContractOutpoint (txid tx) n \<notin> W"
  shows "\<exists>l' n. call_step C utxos now tx l l' \<and>
    block_inv (con d) l0 (insert rt R) (insert (BuildCanonicalContractOutpoint (txid tx) n) W) (apply_batch puts m) l' \<and>
    IsCanonicalContractOutpoint (BuildCanonicalContractOutpoint (txid tx) n) \<and> length (vin tx) = 2"
proof -
  obtain u sh cur s caller addr r ps n where
    p: "ValidateStatefulCallShape C tx 0 (utxo_scriptPubKey u) (utxo_amount u) = Inr sh" "LoadConfirmedStateDomain L d cur = Inr s" "rt = snap_root s"
    "snap_root s \<notin> set applied" "addr \<noteq> []" "reexecute C tx sh [OP_STORE, OP_1] s caller addr now height = Inr r"
    "commit_delta sh s (fst r) (snd r) = Inr ps" "BuildCanonicalContractOutpoint (txid tx) n \<noteq> []"
    "getRaw L d (BuildContractLineageKey (BuildCanonicalContractOutpoint (txid tx) n)) = Some None"
    "puts = ps @ [BatchPut (BuildContractLineageKey (BuildCanonicalContractOutpoint (txid tx) n)) (snap_root s),
       BatchPut (BuildContractLiveKey (snap_root s)) (BuildCanonicalContractOutpoint (txid tx) n)]"
    "calls_contract utxos tx" "utxos (prev_txid (vin tx ! 0)) (prev_vout (vin tx ! 0)) = Some u"
    "cur = BuildCanonicalContractOutpoint (prev_txid (vin tx ! 0)) (prev_vout (vin tx ! 0))"
    "coin_holder utxos (vin tx ! 1) = Some caller" "n = word_of_nat (call_continuationVout sh)"
    using cc by (rule commit_call_parts)
  let ?new = "BuildCanonicalContractOutpoint (txid tx) n"
  note i = load_inv [OF L p(2)]
  have can: "IsCanonicalContractOutpoint rt" "IsCanonicalContractOutpoint ?new" using i(4) p(3) canonical_build [OF p(8)] by simp_all
  have fresh: "con d (BuildContractLineageKey ?new) = None" using getRaw_Some [OF L p(9)] by simp
  have live: "con d (BuildContractLiveKey rt) = Some cur" using i(3) p(3) by simp
  obtain c where c: "l0 rt = Some c" "live_anchor c = cur" using ledger_of_live [OF rep can(1) live] by blast
  obtain fam st where st: "domain_stored (con d) rt cur (owned_by c) fam st" "value_ok fam st" "holds c = value_of fam st"
    using rep c unfolding represents_def by blast
  have same: "rt = snap_root s" "owned_by c = snap_ownerHash160 s" "fam = snap_family s"
    using stored_domain_loaded(1-3) [OF L st(1) p(2)] by simp_all
  have "rt \<notin> R" using R c(1) p(3,4) by auto
  then have l: "l rt = Some c" and eq: "\<And>k. k \<in> contract_keys rt \<Longrightarrow> m k = con d k" using inv can(1) c(1) by (simp_all add: block_inv_def)
  have "m (BuildContractLineageKey cur) = con d (BuildContractLineageKey cur)"
  proof -
    have "represents m l" using inv by (simp add: block_inv_def)
    then have "m (BuildContractLineageKey cur) = Some rt" using l c(2) by (auto simp: represents_def domain_stored_def)
    then show ?thesis using st(1) by (simp add: domain_stored_def)
  qed
  then have dm: "domain_stored m rt cur (owned_by c) fam st" using domain_stored_cong [of rt m "con d" cur] eq st(1) by blast
  obtain st' where st': "domain_stored (apply_batch puts m) rt ?new (owned_by c) fam st'" "value_ok fam st'"
    "value_step (owned_by c) caller now sh (value_of fam st) (value_of fam st')"
    "op_key ` set puts \<subseteq> insert (BuildContractLineageKey ?new) (contract_keys rt)"
    using reexecute_moves [OF p(1,6,5,7) loaded_reads_as [OF L st(1) p(2)], of m cur ?new puts] dm st(2) can(2) p(10)
    unfolding same by blast
  let ?c = "c\<lparr>live_anchor := ?new, holds := value_of fam st'\<rparr>"
  have "?new \<notin> W" using W by blast
  have "block_inv (con d) l0 (insert rt R) (insert ?new W) (apply_batch puts m) (l(rt \<mapsto> ?c))"
    by (rule block_inv_step [OF inv st'(4) can \<open>?new \<notin> W\<close> fresh]) (use st' in simp_all)
  moreover have "call_step C utxos now tx l (l(rt \<mapsto> ?c))"
  proof (rule call_contract)
    show "calls_contract utxos tx" "l rt = Some c" by (rule p(11), rule l)
    show "utxos (prev_txid (vin tx ! 0)) (prev_vout (vin tx ! 0)) = Some u" by (rule p(12))
    show "ValidateStatefulCallShape C tx 0 (utxo_scriptPubKey u) (utxo_amount u) = Inr sh" by (rule p(1))
    show "coin_holder utxos (vin tx ! 1) = Some caller" by (rule p(14))
    show "value_step (owned_by c) caller now sh (holds c) (value_of fam st')" using st(3) st'(3) by simp
  qed (use c(2) p(13,15) in simp_all)
  ultimately show ?thesis using can(2) call_shape_parts(1) [OF p(1)] by blast
qed

text \<open>A call makes an outpoint of its own transaction, which no other transaction of the block makes.\<close>

definition unmade :: "string set \<Rightarrow> 'j Transaction list \<Rightarrow> bool" where
  "unmade W txs \<longleftrightarrow> (\<forall>tx\<in>set txs. length (vin tx) = 2 \<longrightarrow> (\<forall>n. BuildCanonicalContractOutpoint (txid tx) n \<notin> W))"

definition ids_distinct :: "'j Transaction list \<Rightarrow> bool" where
  "ids_distinct txs \<longleftrightarrow> distinct (map (\<lambda>tx. LowerHex64 (txid tx)) txs)"

lemma unmade_insert:
  assumes "unmade W (tx # txs)" "ids_distinct (tx # txs)" "IsCanonicalContractOutpoint (BuildCanonicalContractOutpoint (txid tx) n)"
  shows "unmade (insert (BuildCanonicalContractOutpoint (txid tx) n) W) txs"
proof -
  have "BuildCanonicalContractOutpoint (txid tx') n' \<noteq> BuildCanonicalContractOutpoint (txid tx) n" if "tx' \<in> set txs" for tx' n'
    using build_txid [of "txid tx" n "txid tx'" n'] canonical_not_empty [OF assms(3)] assms(2) that
    by (auto simp: ids_distinct_def)
  then show ?thesis using assms(1) by (auto simp: unmade_def)
qed

lemma commit_calls_sound:
  assumes "commit_calls L d C utxos tokenOwner now height applied txs = Inr puts" "leveldb_ok L con" "represents (con d) l0"
    and "block_inv (con d) l0 R W m l" "\<forall>rt\<in>R. l0 rt = None \<or> rt \<in> set applied" "unmade W txs" "ids_distinct txs"
  shows "\<exists>l' R' W'. ledger_run (calls_contract utxos) (call_step C utxos now) txs l l' \<and> block_inv (con d) l0 R' W' (apply_batch puts m) l'"
  using assms(1,4-7)
proof (induction txs arbitrary: applied m l puts R W)
  case Nil
  then show ?case using run_done by fastforce
next
  case (Cons tx txs)
  have tl: "unmade W txs" "ids_distinct txs" using Cons.prems(4,5) by (simp_all add: unmade_def ids_distinct_def)
  obtain x where x: "commit_call L d C utxos tokenOwner now height tx applied = Inr x" using Cons.prems(1) by (auto split: sum.splits)
  show ?case
  proof (cases x)
    case None
    then have "commit_calls L d C utxos tokenOwner now height applied txs = Inr puts" using Cons.prems(1) x by simp
    then obtain l' R' W' where i: "ledger_run (calls_contract utxos) (call_step C utxos now) txs l l'"
      "block_inv (con d) l0 R' W' (apply_batch puts m) l'" using Cons.IH Cons.prems(2,3) tl by blast
    have "\<not> calls_contract utxos tx" using commit_call_concerned [OF x] None by blast
    then show ?thesis using run_idle [OF _ i(1)] i(2) by blast
  next
    case (Some y)
    obtain rt ps rest where c: "x = Some (rt, ps)" "commit_calls L d C utxos tokenOwner now height (rt # applied) txs = Inr rest"
      "puts = ps @ rest"
      using Cons.prems(1) x Some by (auto split: sum.splits prod.splits)
    show ?thesis
    proof (cases "length (vin tx) = 2")
      case True
      then have "\<forall>n. BuildCanonicalContractOutpoint (txid tx) n \<notin> W" using Cons.prems(4) by (simp add: unmade_def)
      then obtain l1 n where s: "call_step C utxos now tx l l1"
        "block_inv (con d) l0 (insert rt R) (insert (BuildCanonicalContractOutpoint (txid tx) n) W) (apply_batch ps m) l1"
        "IsCanonicalContractOutpoint (BuildCanonicalContractOutpoint (txid tx) n)"
        using commit_call_sound [OF _ assms(2) Cons.prems(2) assms(3) Cons.prems(3)] x c(1) by blast
      have "\<forall>rt'\<in>insert rt R. l0 rt' = None \<or> rt' \<in> set (rt # applied)" using Cons.prems(3) by auto
      then obtain l' R' W' where i: "ledger_run (calls_contract utxos) (call_step C utxos now) txs l1 l'" "block_inv (con d) l0 R' W' (apply_batch rest (apply_batch ps m)) l'"
        using Cons.IH [OF c(2) s(2) _ unmade_insert [OF Cons.prems(4,5) s(3)] tl(2)] by blast
      have "calls_contract utxos tx" using commit_call_concerned [OF x] Some by blast
      then have "ledger_run (calls_contract utxos) (call_step C utxos now) (tx # txs) l l'" using s(1) i(1) by (rule run_step)
      then show ?thesis using i(2) by (auto simp: c(3))
    next
      case False
      have cc: "commit_call L d C utxos tokenOwner now height tx applied = Inr (Some (rt, ps))" using x c(1) by simp
      have "length (vin tx) = 2" by (rule commit_call_parts [OF cc]) (rule call_shape_parts(1))
      then show ?thesis using False by blast
    qed
  qed
qed

text \<open>Both phases.\<close>

lemma phases_sound:
  assumes "contract_phases L d C utxos tokenOwner now height txs = Inr ops" "leveldb_ok L con" "represents (con d) l0" "ids_distinct txs"
  shows "\<exists>l R W. ledger_block C utxos now txs l0 l \<and> block_inv (con d) l0 R W (apply_batch ops (con d)) l"
proof -
  obtain made called where o: "create_roots L d utxos [] txs = Inr made" "commit_calls L d C utxos tokenOwner now height [] txs = Inr called"
    "ops = made @ called"
    using assms(1) by (auto simp: contract_phases_def split: sum.splits)
  have "block_inv (con d) l0 (set []) (set []) (con d) l0" using block_inv_start [OF assms(3)] by simp
  then obtain l1 rts where c: "ledger_run opens_contract (open_step utxos) txs l0 l1" "block_inv (con d) l0 (set rts) (set rts) (apply_batch made (con d)) l1"
    "\<forall>rt\<in>set rts - set []. l0 rt = None \<and> IsCanonicalContractOutpoint rt \<and>
       (\<exists>tx\<in>set txs. \<exists>n. rt = BuildCanonicalContractOutpoint (txid tx) n \<and> length (vin tx) = 1)"
    using create_roots_sound [OF o(1) assms(2,3), of "con d" l0] by blast
  have "unmade (set rts) txs"
    unfolding unmade_def
  proof (intro ballI impI allI notI)
    fix tx n assume tx: "tx \<in> set txs" "length (vin tx) = 2" and m: "BuildCanonicalContractOutpoint (txid tx) n \<in> set rts"
    obtain tx' n' where t: "tx' \<in> set txs" "length (vin tx') = 1"
      "BuildCanonicalContractOutpoint (txid tx) n = BuildCanonicalContractOutpoint (txid tx') n'"
      "IsCanonicalContractOutpoint (BuildCanonicalContractOutpoint (txid tx) n)"
      using c(3) m by fastforce
    then have "LowerHex64 (txid tx) = LowerHex64 (txid tx')" using build_txid canonical_not_empty by metis
    moreover have "inj_on (\<lambda>tx. LowerHex64 (txid tx)) (set txs)" using assms(4) by (simp add: ids_distinct_def distinct_map)
    ultimately have "tx = tx'" using tx(1) t(1) by (auto dest: inj_onD)
    then show False using tx(2) t(2) by simp
  qed
  then obtain l R W where "ledger_run (calls_contract utxos) (call_step C utxos now) txs l1 l" "block_inv (con d) l0 R W (apply_batch called (apply_batch made (con d))) l"
    using commit_calls_sound [OF o(2) assms(2,3) c(2) _ _ assms(4)] c(3) by auto
  then show ?thesis using c(1) unfolding ledger_block_def o(3) by auto
qed

end
