(* ===== verification/Contract_History.thy ===== *)
theory Contract_History
  imports Block_Contracts
begin

text \<open>
  Contracts over any number of blocks. A block is what the contract phases read and write of it; the
  batch of a block is written at once, so a block changes the database completely or not at all.
\<close>

subsection \<open>Blocks\<close>

record 'j contract_block =
  blk_time :: u32
  blk_height :: u32
  blk_utxos :: utxo_view
  blk_txs :: "'j Transaction list"
  blk_before :: "batch_op list"
  blk_after :: "batch_op list"

text \<open>The batch of a block: what the earlier phases queued, the contract phases, the later phases.\<close>

definition apply_contract_block ::
    "'d leveldb \<Rightarrow> crypto \<Rightarrow> (string \<Rightarrow> string \<Rightarrow> string option) \<Rightarrow> 'd \<Rightarrow> 'j contract_block \<Rightarrow> 'd option" where
  "apply_contract_block L C tokenOwner d b =
     (case contract_phases L d C (blk_utxos b) tokenOwner (blk_time b) (blk_height b) (blk_txs b) of
        Inl e \<Rightarrow> None
      | Inr ops \<Rightarrow> db_Write L d (blk_before b @ ops @ blk_after b))"

fun apply_contract_blocks ::
    "'d leveldb \<Rightarrow> crypto \<Rightarrow> (string \<Rightarrow> string \<Rightarrow> string option) \<Rightarrow> 'd \<Rightarrow> 'j contract_block list \<Rightarrow> 'd option" where
  "apply_contract_blocks L C tokenOwner d [] = Some d"
| "apply_contract_blocks L C tokenOwner d (b # bs) =
     (case apply_contract_block L C tokenOwner d b of
        None \<Rightarrow> None | Some d' \<Rightarrow> apply_contract_blocks L C tokenOwner d' bs)"

text \<open>
  The keys of the contract store. The other phases of a block stay off them, and the identifiers of
  its transactions are distinct.
\<close>

definition contract_tags :: "string list" where
  "contract_tags = [''contractlineage:'', ''contractlive:'', ''contractowner:'', ''contractfamily:'', ''contractstate:'']"

definition contract_record :: "string \<Rightarrow> bool" where
  "contract_record key \<longleftrightarrow> list_ex (\<lambda>tag. take (length tag) key = tag) contract_tags"

definition contract_block_ok :: "'j contract_block \<Rightarrow> bool" where
  "contract_block_ok b \<longleftrightarrow>
     ids_distinct (blk_txs b) \<and> list_all (\<lambda>op. \<not> contract_record (op_key op)) (blk_before b @ blk_after b)"

definition no_contracts :: "(string \<rightharpoonup> string) \<Rightarrow> bool" where
  "no_contracts m \<longleftrightarrow> (\<forall>k. contract_record k \<longrightarrow> m k = None)"

subsection \<open>The other phases do not matter\<close>

lemma tagged_record: "tag \<in> set contract_tags \<Longrightarrow> contract_record (tag @ r)"
  unfolding contract_record_def list_ex_iff by (rule bexI [of _ tag]) simp_all

lemma contract_key_record:
  assumes "IsCanonicalContractOutpoint rt"
  shows "k \<in> contract_keys rt \<Longrightarrow> contract_record k" "contract_record (BuildContractLineageKey rt)"
proof -
  have t: "contract_record (''contractlineage:'' @ r)" "contract_record (''contractlive:'' @ r)" "contract_record (''contractowner:'' @ r)"
    "contract_record (''contractfamily:'' @ r)" "contract_record (''contractstate:'' @ r)" for r
    by (rule tagged_record, simp add: contract_tags_def)+
  show "contract_record (BuildContractLineageKey rt)" using t(1) assms by (simp only: BuildContractLineageKey_def simp_thms if_False)
  assume "k \<in> contract_keys rt"
  then consider "k = ''contractlive:'' @ rt" | "k = ''contractowner:'' @ rt" | "k = ''contractfamily:'' @ rt"
    | e where "k = ''contractstate:'' @ (rt @ '':'' @ e)"
    using assms unfolding contract_keys_def key_defs by auto
  then show "contract_record k" by cases (simp_all only: t)
qed

lemma apply_batch_cong: "m k = m' k \<Longrightarrow> apply_batch ops m k = apply_batch ops m' k"
proof (induction ops arbitrary: m m')
  case (Cons op ops)
  have "apply_op op m k = apply_op op m' k" using Cons.prems by (cases op) auto
  then show ?case unfolding apply_batch_simps by (rule Cons.IH)
qed simp

lemma block_inv_cong:
  assumes "block_inv base l0 R W m l" "\<And>k. contract_record k \<Longrightarrow> m' k = m k"
  shows "block_inv base l0 R W m' l"
proof -
  have keys: "m' k = m k" if "IsCanonicalContractOutpoint rt" "k \<in> contract_keys rt" for rt k
    using assms(2) contract_key_record(1) [OF that] by blast
  have lin: "m' (BuildContractLineageKey a) = m (BuildContractLineageKey a)" if "IsCanonicalContractOutpoint a" for a
    using assms(2) contract_key_record(2) [OF that] by blast
  have "represents m' l"
    unfolding represents_def
  proof (intro conjI allI impI)
    fix rt c assume "l rt = Some c"
    then obtain fam st where d: "domain_stored m rt (live_anchor c) (owned_by c) fam st" "value_ok fam st" "holds c = value_of fam st"
      using assms(1) unfolding block_inv_def represents_def by blast
    moreover have "IsCanonicalContractOutpoint rt" "IsCanonicalContractOutpoint (live_anchor c)"
      using d(1) by (simp_all add: domain_stored_def)
    note domain_stored_cong [where m = m and m' = m', OF keys [OF this(1)] lin [OF this(2)]]
    ultimately have "domain_stored m' rt (live_anchor c) (owned_by c) fam st" by simp
    then show "\<exists>fam st. domain_stored m' rt (live_anchor c) (owned_by c) fam st \<and> value_ok fam st \<and> holds c = value_of fam st"
      using d by blast
  next
    fix rt assume "l rt = None" "IsCanonicalContractOutpoint rt"
    then show "contract_absent m' rt" using assms(1) keys by (simp add: block_inv_def represents_def contract_absent_def)
  qed
  then show ?thesis using assms(1) keys lin unfolding block_inv_def by simp
qed

lemma block_sound:
  assumes "leveldb_ok L con" "represents (con d) l" "contract_block_ok b" "apply_contract_block L C tokenOwner d b = Some d'"
  shows "\<exists>l' R W. ledger_block C (blk_utxos b) (blk_time b) (blk_txs b) l l' \<and> block_inv (con d) l R W (con d') l'"
proof -
  obtain ops where o: "contract_phases L d C (blk_utxos b) tokenOwner (blk_time b) (blk_height b) (blk_txs b) = Inr ops"
    "db_Write L d (blk_before b @ ops @ blk_after b) = Some d'"
    using assms(4) by (auto simp: apply_contract_block_def split: sum.splits)
  obtain l' R W where s: "ledger_block C (blk_utxos b) (blk_time b) (blk_txs b) l l'" "block_inv (con d) l R W (apply_batch ops (con d)) l'"
    using phases_sound [OF o(1) assms(1,2)] assms(3) by (auto simp: contract_block_ok_def)
  have "con d' k = apply_batch ops (con d) k" if k: "contract_record k" for k
  proof -
    have off: "k \<notin> op_key ` set (blk_before b)" "k \<notin> op_key ` set (blk_after b)"
      using assms(3) k by (auto simp: contract_block_ok_def list_all_iff)
    have "con d' k = apply_batch ops (apply_batch (blk_before b) (con d)) k"
      using leveldb_write [OF assms(1) o(2)] apply_batch_frame [OF off(2)] by simp
    also have "\<dots> = apply_batch ops (con d) k" by (rule apply_batch_cong) (rule apply_batch_frame [OF off(1)])
    finally show ?thesis .
  qed
  then show ?thesis using s block_inv_cong [OF s(2)] by blast
qed

lemma no_contracts_represent: "no_contracts m \<Longrightarrow> represents m Map.empty"
  using contract_key_record(1) by (auto simp: represents_def no_contracts_def contract_absent_def)

text \<open>Any property that the ledger steps and the lineage records keep, over many blocks.\<close>

lemma blocks_induct:
  assumes "apply_contract_blocks L C tokenOwner d bs = Some d'" "leveldb_ok L con" "list_all contract_block_ok bs"
    and "represents (con d) l" "P d l"
    and step: "\<And>d l d' l' now R W. represents (con d) l \<Longrightarrow> P d l \<Longrightarrow> (ledger_step now)\<^sup>*\<^sup>* l l' \<Longrightarrow>
      block_inv (con d) l R W (con d') l' \<Longrightarrow> P d' l'"
  shows "\<exists>l'. represents (con d') l' \<and> P d' l'"
  using assms(1,3,4,5)
proof (induction bs arbitrary: d l)
  case (Cons b bs)
  obtain d1 where d1: "apply_contract_block L C tokenOwner d b = Some d1" "apply_contract_blocks L C tokenOwner d1 bs = Some d'"
    using Cons.prems(1) by (auto split: option.splits)
  obtain l1 R W where s: "(ledger_step (blk_time b))\<^sup>*\<^sup>* l l1" "block_inv (con d) l R W (con d1) l1"
    using block_sound [OF assms(2) Cons.prems(3) _ d1(1)] Cons.prems(2) block_is_ledger_steps by fastforce
  have "represents (con d1) l1" using s(2) by (simp add: block_inv_def)
  then show ?case using Cons.IH [OF d1(2)] Cons.prems(2) step [OF Cons.prems(3,4) s] by simp
qed auto

lemma blocks_represent:
  assumes "apply_contract_blocks L C tokenOwner d bs = Some d'" "leveldb_ok L con" "list_all contract_block_ok bs" "no_contracts (con d)"
  shows "\<exists>l. represents (con d') l"
  using blocks_induct [where P = "\<lambda>_ _. True", OF assms(1-3) no_contracts_represent [OF assms(4)]] by simp

subsection \<open>What no block undoes\<close>

text \<open>A poll only gains votes, an issuer only gains balances, a store only gains keys; the rest is constant.\<close>

fun value_grows :: "contract_value \<Rightarrow> contract_value \<Rightarrow> bool" where
  "value_grows (Store s) (Store s') \<longleftrightarrow> dom s \<subseteq> dom s'"
| "value_grows (Poll p) (Poll p') \<longleftrightarrow>
     poll_options p' = poll_options p \<and> poll_closes p' = poll_closes p \<and> (\<forall>h i. poll_votes p h = Some i \<longrightarrow> poll_votes p' h = Some i)"
| "value_grows (Issuer i) (Issuer i') \<longleftrightarrow>
     iss_rate i' = iss_rate i \<and> iss_cap i' = iss_cap i \<and>
     (\<forall>h b. iss_balances i h = Some b \<longrightarrow> (\<exists>b'\<ge>b. iss_balances i' h = Some b'))"
| "value_grows _ _ \<longleftrightarrow> False"

lemma value_grows_refl: "value_grows v v"
  by (cases v) auto

lemma value_grows_trans: "value_grows u v \<Longrightarrow> value_grows v w \<Longrightarrow> value_grows u w"
  by (cases u; cases v; cases w) (auto, meson order_trans)

lemma value_step_grows: "value_step own caller now sh v w \<Longrightarrow> value_grows v w"
proof (induction rule: value_step.induct)
  case (vote choice p p')
  then show ?case by (auto simp: cast_def split: if_splits)
next
  case (purchase i i')
  then show ?case by (auto simp: buy_def Let_def split: if_splits option.splits)
qed auto

lemma ledger_steps_grow:
  assumes "(ledger_step now)\<^sup>*\<^sup>* l l'" "l rt = Some c"
  shows "\<exists>c'. l' rt = Some c' \<and> owned_by c' = owned_by c \<and> value_grows (holds c) (holds c')"
  using assms
proof (induction rule: rtranclp_induct)
  case base
  then show ?case using value_grows_refl by blast
next
  case (step l1 l2)
  then obtain c1 where c1: "l1 rt = Some c1" "owned_by c1 = owned_by c" "value_grows (holds c) (holds c1)" by blast
  from step.hyps(2) show ?case
  proof cases
    case (some_open rt' v own)
    then show ?thesis using c1 by auto
  next
    case (some_call rt' c' caller sh v new)
    show ?thesis
    proof (cases "rt' = rt")
      case True
      then have "c' = c1" using some_call(2) c1(1) by simp
      then show ?thesis
        using some_call(1,3) c1(2,3) value_step_grows value_grows_trans True by (auto intro: exI)
    next
      case False
      then show ?thesis using some_call(1) c1 by simp
    qed
  qed
qed

lemma stored_unique:
  assumes "domain_stored m rt cur own fam st" "domain_stored m rt cur' own' fam' st'"
  shows "cur = cur'" "own = own'" "fam = fam'" "map_of st = map_of st'"
proof -
  have sub: "map_of st2 k = Some v" if a: "map_of st1 k = Some v" "domain_stored m rt c1 o1 f1 st1" "domain_stored m rt c2 o2 f2 st2"
    for c1 o1 f1 st1 c2 o2 f2 st2 k v
  proof -
    have "m (BuildContractStatePrefix rt @ HexEncodeLogicalKey k) = Some (string_of_bytes v)"
      using a(1,2) unfolding domain_stored_def by blast
    then obtain k' v' where kv: "map_of st2 k' = Some v'" "HexEncodeLogicalKey k = HexEncodeLogicalKey k'" "string_of_bytes v = string_of_bytes v'"
      using a(3) unfolding domain_stored_def by blast
    have "IsLogicalKeyAllowed k" "IsLogicalKeyAllowed k'"
      using cut_limits_keys [OF _ a(1)] cut_limits_keys [OF _ kv(1)] a(2,3) unfolding domain_stored_def by blast+
    then have "k = k'" using HexEncode_inject kv(2) by blast
    moreover have "v = v'" using arg_cong [OF kv(3), of bytes_of_string] by simp
    ultimately show ?thesis using kv(1) by simp
  qed
  show "map_of st = map_of st'"
  proof
    fix k
    show "map_of st k = map_of st' k"
      using sub [OF _ assms(1,2), of k] sub [OF _ assms(2,1), of k] by (cases "map_of st k"; cases "map_of st' k") auto
  qed
  show "cur = cur'" "own = own'" "fam = fam'" using assms unfolding domain_stored_def by (auto split: if_splits)
qed

lemma value_of_cong: "map_of st = map_of st' \<Longrightarrow> value_of fam st = value_of fam st'"
  using issuer_of_cong [of st st']
  by (simp add: value_of_def poll_of_def ReadVotingU64_def votes_of_def fun_eq_iff)

text \<open>A stored domain is the contract the ledger has.\<close>

lemma ledger_of_stored:
  assumes "represents m l" "domain_stored m rt cur own fam st"
  obtains c where "l rt = Some c" "live_anchor c = cur" "owned_by c = own" "holds c = value_of fam st"
proof -
  have "IsCanonicalContractOutpoint rt" "m (BuildContractLiveKey rt) = Some cur" using assms(2) by (simp_all add: domain_stored_def)
  then obtain c where c: "l rt = Some c" using ledger_of_live [OF assms(1)] by blast
  then obtain fam' st' where d: "domain_stored m rt (live_anchor c) (owned_by c) fam' st'" "holds c = value_of fam' st'"
    using assms(1) unfolding represents_def by blast
  note u = stored_unique [OF assms(2) d(1)]
  show thesis by (rule that [OF c]) (use u d(2) value_of_cong [OF u(4)] in simp_all)
qed

lemma value_of_grows_family:
  "value_grows (value_of fam st) (value_of fam' st') \<Longrightarrow> fam \<in> {[], ''voting_v1'', ''token_issuer_v1''} \<Longrightarrow>
    fam' \<in> {[], ''voting_v1'', ''token_issuer_v1''} \<Longrightarrow> fam = fam'"
  by (auto simp: value_of_def split: if_splits)

subsection \<open>Properties\<close>

text \<open>
  C2: the contract phases of a block refine the ledger. Whatever transactions a block has, and
  whatever its other phases write off the contract keys, a block that is applied takes a database that
  stands for a ledger to one that stands for the ledger its transactions lead to: every transaction that
  creates a contract opens it, under the holder of its coin and with the value its envelope declares, and
  every transaction that spends an anchor makes its call, in order, on the contract with that anchor and in the
  name of the holder of its second input: a write of the owner, one vote, one purchase.
\<close>

theorem phases_refine_ledger:
  assumes "leveldb_ok L con" "represents (con d) l" "contract_block_ok b" "apply_contract_block L C tokenOwner d b = Some d'"
  shows "\<exists>l'. ledger_block C (blk_utxos b) (blk_time b) (blk_txs b) l l' \<and> represents (con d') l'"
  using block_sound [OF assms] unfolding block_inv_def by blast

text \<open>
  C7: contract state stays well formed. In any database reached from one without contracts, a live
  record of a canonical root belongs to a complete domain: owner, family and lineage records agree, its
  keys are distinct, within the limits as they are read, and a ballot or an issuer is a valid one.
\<close>

theorem contracts_stay_well_formed:
  assumes "leveldb_ok L con" "no_contracts (con d)" "list_all contract_block_ok bs"
    and "apply_contract_blocks L C tokenOwner d bs = Some d'"
    and "IsCanonicalContractOutpoint rt" "con d' (BuildContractLiveKey rt) = Some cur"
  shows "\<exists>own fam st. domain_stored (con d') rt cur own fam st \<and> value_ok fam st"
proof -
  obtain l where l: "represents (con d') l" using blocks_represent [OF assms(4,1,3,2)] by blast
  obtain c where "l rt = Some c" "live_anchor c = cur" using ledger_of_live [OF l assms(5,6)] .
  then show ?thesis using l unfolding represents_def by blast
qed

text \<open>
  C5: no block takes anything back. A contract keeps its root, owner and family; a poll keeps its
  options, its closing time and every vote cast; an issuer keeps its rate and its cap and no balance
  shrinks; a store keeps its keys. The state stays valid, so the balances stay within the cap.
\<close>

theorem contracts_only_grow:
  assumes "leveldb_ok L con" "no_contracts (con d0)" "list_all contract_block_ok bs" "list_all contract_block_ok bs'"
    and "apply_contract_blocks L C tokenOwner d0 bs = Some d" "apply_contract_blocks L C tokenOwner d bs' = Some d'"
    and "domain_stored (con d) rt cur own fam st"
  shows "\<exists>cur' st'. domain_stored (con d') rt cur' own fam st' \<and> value_ok fam st' \<and>
    value_grows (value_of fam st) (value_of fam st')"
proof -
  let ?P = "\<lambda>d l. \<exists>c. l rt = Some c \<and> owned_by c = own \<and> value_grows (value_of fam st) (holds c)"
  obtain l where l: "represents (con d) l" using blocks_represent [OF assms(5,1,3,2)] by blast
  obtain c where c: "l rt = Some c" "owned_by c = own" "holds c = value_of fam st" by (rule ledger_of_stored [OF l assms(7)])
  have "?P d l" using c value_grows_refl by simp
  moreover have "?P d' l'" if "?P d l" "(ledger_step now)\<^sup>*\<^sup>* l l'" for d l d' l' now
    using that(1) ledger_steps_grow [OF that(2)] value_grows_trans by metis
  ultimately obtain l' c' where g: "represents (con d') l'" "l' rt = Some c'" "owned_by c' = own" "value_grows (value_of fam st) (holds c')"
    using blocks_induct [where P = ?P, OF assms(6,1,4) l] by blast
  obtain fam' st' where s: "domain_stored (con d') rt (live_anchor c') own fam' st'" "value_ok fam' st'" "holds c' = value_of fam' st'"
    using g(1-3) unfolding represents_def by blast
  have "fam = fam'"
    by (rule value_of_grows_family [of fam st fam' st']) (use g(4) s(1,3) assms(7) in \<open>simp_all add: domain_stored_def\<close>)
  then show ?thesis using s g(4) by auto
qed

text \<open>
  C6: a spent anchor is dead. Once the live record of a contract has moved on from an outpoint that
  loaded, that outpoint never loads again, whatever blocks follow: no call can be replayed.
\<close>

theorem spent_anchor_dead:
  assumes "leveldb_ok L con" "no_contracts (con d0)"
    and "list_all contract_block_ok bs" "list_all contract_block_ok bs1" "list_all contract_block_ok bs2"
    and "apply_contract_blocks L C tokenOwner d0 bs = Some d" "LoadConfirmedStateDomain L d cur = Inr s"
    and "apply_contract_blocks L C tokenOwner d bs1 = Some d1" "con d1 (BuildContractLiveKey (snap_root s)) \<noteq> Some cur"
    and "apply_contract_blocks L C tokenOwner d1 bs2 = Some d2"
  shows "\<exists>e. LoadConfirmedStateDomain L d2 cur = Inl e"
proof -
  let ?lin = "BuildContractLineageKey cur" and ?rt = "snap_root s"
  note i = load_inv [OF assms(1,7)]
  obtain l where l: "represents (con d) l" using blocks_represent [OF assms(6,1,3,2)] by blast
  have keep: "con d' ?lin = Some ?rt" if "con d ?lin = Some ?rt" "block_inv (con d) l R W (con d') l'" for d d' l l' R W
    using that i(5) unfolding block_inv_def by fastforce
  obtain l1 where l1: "represents (con d1) l1" "con d1 ?lin = Some ?rt"
    using blocks_induct [where P = "\<lambda>d l. con d ?lin = Some ?rt", OF assms(8,1,4) l i(2)] keep by blast
  let ?P = "\<lambda>d l. con d ?lin = Some ?rt \<and> (\<forall>c. l ?rt = Some c \<longrightarrow> live_anchor c \<noteq> cur)"
  have p1: "?P d1 l1" using l1(2) ledger_live [OF l1(1)] assms(9) by auto
  have step: "?P d' l'" if "?P d l" "block_inv (con d) l R W (con d') l'" for d d' l l' R W
  proof -
    have "cur \<notin> W" using that unfolding block_inv_def by auto
    moreover have "live_anchor c \<in> W \<or> (\<exists>c0. l ?rt = Some c0 \<and> live_anchor c0 = live_anchor c)" if "l' ?rt = Some c" for c
      using \<open>block_inv (con d) l R W (con d') l'\<close> that unfolding block_inv_def by blast
    ultimately show ?thesis using that(1) keep [OF _ that(2)] by metis
  qed
  obtain l2 where l2: "represents (con d2) l2" "?P d2 l2"
    using blocks_induct [where P = ?P, OF assms(10,1,5) l1(1) p1] step by blast
  show ?thesis
  proof (cases "LoadConfirmedStateDomain L d2 cur")
    case (Inr s2)
    note j = load_inv [OF assms(1) Inr]
    have "snap_root s2 = ?rt" using j(2) l2(2) by simp
    then obtain c where "l2 ?rt = Some c" "live_anchor c = cur" using ledger_of_live [OF l2(1) j(4,3)] by auto
    then show ?thesis using l2(2) by blast
  qed blast
qed

subsection \<open>A sample history\<close>

definition sample_hash :: string where "sample_hash = hex_encode (replicate 20 7)"
definition sample_lock :: string where "sample_lock = hex_encode (p2pkh_script (replicate 20 7))"
definition sample_anchor :: UTXO where
  "sample_anchor = \<lparr>utxo_txid = replicate 64 (CHR ''a''), utxo_vout = 0, utxo_amount = 9, utxo_scriptPubKey = ''f751'',
     createdAtHeight = 1, utxo_isCoinbase = False\<rparr>"

definition sample_utxos :: utxo_view where
  "sample_utxos t n =
     (if t = replicate 64 (CHR ''a'') \<and> n = 0 then Some sample_anchor
      else Some \<lparr>utxo_txid = t, utxo_vout = n, utxo_amount = 50, utxo_scriptPubKey = sample_lock, createdAtHeight = 1,
        utxo_isCoinbase = False\<rparr>)"

definition creation_tx :: "unit Transaction" where
  "creation_tx = sample_creation\<lparr>txid := replicate 64 (CHR ''a''),
     vin := [(hd (vin sample_creation))\<lparr>prev_txid := replicate 64 (CHR ''d'')\<rparr>]\<rparr>"

definition call_tx :: "unit Transaction" where
  "call_tx = Voting_Calls.sample_tx ''k'' [7] 9"

definition sample_block :: "u32 \<Rightarrow> 'j Transaction \<Rightarrow> 'j contract_block" where
  "sample_block now tx = \<lparr>blk_time = now, blk_height = 5, blk_utxos = sample_utxos, blk_txs = [tx], blk_before = [], blk_after = []\<rparr>"

definition next_anchor :: string where "next_anchor = replicate 64 (CHR ''c'') @ '':0''"

definition rows1 :: "(string \<times> string) list" where
  "rows1 = domain_rows sample_root sample_root sample_hash [] [(''k'', [1, 2])]"

definition rows2 :: "(string \<times> string) list" where
  "rows2 = (domain_rows sample_root sample_root sample_hash [] [(''k'', [7])])[1 := (BuildContractLiveKey sample_root, next_anchor)] @
     [(BuildContractLineageKey next_anchor, sample_root)]"

lemma sample_texts: "IsCanonicalContractOutpoint next_anchor" "IsCanonicalLowerHash160Hex sample_hash" "IsLogicalKeyAllowed ''k''"
  "sample_root \<noteq> []" "next_anchor \<noteq> []" "next_anchor \<noteq> sample_root"
  "BuildCanonicalContractOutpoint (replicate 64 (CHR ''a'')) 0 = sample_root"
  "BuildCanonicalContractOutpoint (replicate 64 (CHR ''c'')) 0 = next_anchor"
  by code_simp+

lemma sample_limits: "state_within_limits [(''k'', [1, 2])]" "state_within_limits [(''k'', [7])]"
  by (simp_all add: state_within_limits_def entry_ok_def state_bytes_def entry_bytes_def state_eval)

lemma sample_keys:
  "BuildContractLineageKey sample_root = ''contractlineage:'' @ sample_root" "BuildContractLiveKey sample_root = ''contractlive:'' @ sample_root"
  "BuildContractOwnerKey sample_root = ''contractowner:'' @ sample_root" "BuildContractFamilyKey sample_root = ''contractfamily:'' @ sample_root"
  "BuildContractLineageKey next_anchor = ''contractlineage:'' @ next_anchor"
  "BuildContractStateKey sample_root ''k'' = ''contractstate:'' @ (sample_root @ '':'' @ HexEncodeLogicalKey ''k'')"
  using sample_domain sample_texts(1,3) IsLogicalKeyAllowed_encode [of "''k''"] by (simp_all add: key_defs Let_def)

lemma mem_absent: "key_absent mem_db d k \<longleftrightarrow> map_of d k = None"
  by (simp add: key_absent_def getRaw_def mem_db_def split: option.splits)

lemma sample_owner_hash: "ExtractCanonicalP2PKHHash160Hex sample_lock = Some sample_hash"
  by code_simp

lemma creation_tx_fields: "txid creation_tx = replicate 64 (CHR ''a'')" "length (vin creation_tx) = 1" "\<not> isCoinbase creation_tx"
  "prev_txid (vin creation_tx ! 0) = replicate 64 (CHR ''d'')" "prev_vout (vin creation_tx ! 0) = 0"
  by (simp_all add: creation_tx_def sample_creation_def Let_def)

lemma lock_scan: "hexDecode sample_lock = Some (p2pkh_script (replicate 20 7))"
  "scan_valid (ScanStatefulContractScript (p2pkh_script (replicate 20 7)))"
  "\<not> usesStateDomain (ScanStatefulContractScript (p2pkh_script (replicate 20 7)))"
  unfolding sample_lock_def by (rule hexDecode_encode) code_simp+

lemma first_block: "apply_contract_block mem_db toy_crypto (\<lambda>_ _. None) [] (sample_block 10 creation_tx) = Some rows1"
proof -
  have "case ValidateStatefulCreationShape creation_tx of Inl _ \<Rightarrow> False
    | Inr r \<Rightarrow> hasCreation r \<and> family r = KvV1 \<and> res_targetVout r = Some 0 \<and> entries (initEnvelope r) = [(''k'', [1, 2])]"
    by code_simp
  then obtain r where r: "ValidateStatefulCreationShape creation_tx = Inr r" "hasCreation r" "family r = KvV1" "res_targetVout r = Some 0"
    "entries (initEnvelope r) = [(''k'', [1, 2])]" by (auto split: sum.splits)
  let ?ops = "[BatchPut (BuildContractLineageKey sample_root) sample_root, BatchPut (BuildContractLiveKey sample_root) sample_root,
    BatchPut (BuildContractOwnerKey sample_root) sample_hash, BatchPut (BuildContractStateKey sample_root ''k'') (string_of_bytes [1, 2])]"
  have u: "sample_utxos (replicate 64 (CHR ''d'')) 0 = Some \<lparr>utxo_txid = replicate 64 (CHR ''d''), utxo_vout = 0, utxo_amount = 50,
      utxo_scriptPubKey = sample_lock, createdAtHeight = 1, utxo_isCoinbase = False\<rparr>"
    by (simp add: sample_utxos_def)
  have "root_puts mem_db [] sample_root sample_hash r = Inr ?ops"
    by (simp add: root_puts_def Let_def mem_absent r family_puts_def sample_keys)
  then have "create_root mem_db [] sample_utxos creation_tx r [] = Inr (sample_root, ?ops)"
    using sample_keys sample_texts(4,7) by (simp add: create_root_def Let_def r creation_tx_fields u sample_owner_hash)
  then have "create_roots mem_db [] sample_utxos [] [creation_tx] = Inr ?ops" by (simp add: r)
  moreover have "vin creation_tx \<noteq> []" using creation_tx_fields(2) by auto
  then have "commit_calls mem_db [] toy_crypto sample_utxos (\<lambda>_ _. None) 10 5 [] [creation_tx] = Inr []"
    by (simp add: commit_call_def creation_tx_fields negative_vout_def u lock_scan)
  ultimately have "contract_phases mem_db [] toy_crypto sample_utxos (\<lambda>_ _. None) 10 5 [creation_tx] = Inr ?ops"
    unfolding contract_phases_def by (simp only: sum.case append_Nil2)
  moreover have "db_Write mem_db [] ?ops = Some rows1"
    by (simp add: mem_db_def rows1_def domain_rows_def sample_keys)
  ultimately show ?thesis by (simp add: apply_contract_block_def sample_block_def)
qed

lemma rows1_stored: "domain_stored (map_of rows1) sample_root sample_root sample_hash [] [(''k'', [1, 2])]"
  unfolding rows1_def by (rule rows_stored) (use sample_domain(1) sample_texts(2) sample_limits in simp_all)

lemma rows1_loads:
  obtains s where "LoadConfirmedStateDomain mem_db rows1 sample_root = Inr s" "snap_root s = sample_root" "snap_current s = sample_root"
    "snap_ownerHash160 s = sample_hash" "snap_family s = []" "snap_state s = [(''k'', [1, 2])]"
proof -
  obtain s where s: "LoadConfirmedStateDomain mem_db rows1 sample_root = Inr s" "snap_root s = sample_root" "snap_current s = sample_root"
    "snap_ownerHash160 s = sample_hash" "snap_family s = []" "keys_distinct (snap_state s)"
    "map_of (snap_state s) = (\<lambda>k. map_option cut_value (map_of [(''k'', [1, 2])] k))"
    using stored_domain_loads [OF mem_db_ok mem_db_readable rows1_stored] by blast
  have "cut_value [1, 2] = [1, 2]" by (simp add: cut_value_id_iff)
  then have "map_of (snap_state s) = [''k'' \<mapsto> [1, 2]]" using s(7) by (auto simp: fun_eq_iff)
  then have "set (snap_state s) = set [(''k'', [1, 2])]" using s(6) map_of_inject_set [of "snap_state s" "[(''k'', [1, 2])]"] by simp
  moreover have "distinct (snap_state s)" using s(6) by (simp add: distinct_map)
  ultimately have "snap_state s = [(''k'', [1, 2])]" by (metis distinct_singleton set_eq_iff_mset_eq_distinct mset_single_iff_right mset.simps(1,2))
  then show thesis using that s(1-5) by blast
qed

lemma call_tx_fields: "txid call_tx = replicate 64 (CHR ''c'')" "\<not> isCoinbase call_tx" "vin call_tx \<noteq> []"
  "prev_txid (vin call_tx ! 0) = replicate 64 (CHR ''a'')" "prev_vout (vin call_tx ! 0) = 0"
  "prev_txid (vin call_tx ! Suc 0) = replicate 64 (CHR ''b'')" "prev_vout (vin call_tx ! Suc 0) = 1"
  by (simp_all add: call_tx_def Voting_Calls.sample_tx_def Let_def)

lemma call_tx_shape:
  obtains sh where "ValidateStatefulCallShape toy_crypto call_tx 0 ''f751'' 9 = Inr sh"
    "callValue sh = 0" "logicalKey sh = ''k''" "call_value sh = [7]" "callerInputIndex sh = 1" "call_continuationVout sh = 0"
proof -
  have "case ValidateStatefulCallShape toy_crypto call_tx 0 ''f751'' 9 of Inl _ \<Rightarrow> False
    | Inr r \<Rightarrow> callValue r = 0 \<and> logicalKey r = ''k'' \<and> call_value r = [7] \<and> callerInputIndex r = 1 \<and> call_continuationVout r = 0"
    by code_simp
  then show thesis using that by (auto split: sum.splits)
qed

lemma call_tx_caller:
  "\<exists>addr. addr \<noteq> [] \<and> call_caller toy_crypto sample_utxos (\<lambda>_ _. None) (vin call_tx ! 1) = Inr (sample_hash, addr)"
proof -
  have ok: "sha256_ok toy_crypto" by (simp add: sha256_ok_def toy_crypto_def min_def)
  have ne: "hash_address toy_crypto (replicate 20 7) \<noteq> []"
  proof
    assume "hash_address toy_crypto (replicate 20 7) = []"
    moreover have "decodeBase58Check toy_crypto [] = None" by code_simp
    ultimately show False using decode_hash_address [OF ok, of "replicate 20 7"] by simp
  qed
  have addr: "extractAddressFromScriptPubKey toy_crypto (\<lambda>_ _. None) sample_lock tid n 0 = Some (hash_address toy_crypto (replicate 20 7))"
    for tid n unfolding sample_lock_def by (rule address_of_p2pkh) simp
  show ?thesis
    using ne by (simp add: call_caller_def negative_vout_def sample_utxos_def call_tx_fields sample_owner_hash addr word_le_nat_alt)
qed

lemma call_tx_runs:
  assumes sh: "ValidateStatefulCallShape toy_crypto tx 0 ''f751'' 9 = Inr sh" "callValue sh = 0" "logicalKey sh = ''k''" "call_value sh = [7]"
    and s: "snap_root s = sample_root" "snap_current s = sample_root" "snap_ownerHash160 s = sample_hash" "snap_family s = []"
    "snap_state s = [(''k'', [1, 2])]" and addr: "addr \<noteq> []"
  shows "reexecute toy_crypto tx sh [OP_STORE, OP_1] s sample_hash addr now height = Inr ([(''k'', [7])], [])"
proof -
  note p = call_shape_parts [OF sh(1)]
  have w: "CanApplyStateWrite [(''k'', [1, 2])] ''k'' [7] \<noteq> None"
    using CanApplyStateWrite_eq [of "[(''k'', [1, 2])]" "''k''" "[7]"] sample_limits by simp
  have g: "anchor_gas ''k'' [7] = 1307" by (simp add: anchor_gas_def push_gas_def)
  have rt: "IsCanonicalContractOutpoint (snap_root s)" by (simp add: s sample_domain)
  have run: "run_call toy_crypto tx sh [OP_STORE, OP_1] s addr now height MAX_SCRIPT_GAS_PER_INPUT True = Some ([(''k'', [7])], 1307)"
    unfolding run_call_exact [OF sh(1) rt] using w g
    by (simp add: sh(3,4) s effective_limit_def MAX_SCRIPT_GAS_PER_INPUT_def)
  have lock: "IsCanonicalStatefulKvV1Script [OP_STORE, OP_1]" by (simp add: IsCanonicalStatefulKvV1Script_def)
  have "ExecuteStatefulKvV1Call toy_crypto tx sh [OP_STORE, OP_1] s addr now height MAX_SCRIPT_GAS_PER_INPUT True =
      Inr \<lparr>kv_state = [(''k'', [7])], kv_gasUsed = 1307\<rparr>"
    unfolding ExecuteStatefulKvV1Call_def run using p(1-3) lock sample_texts(4) sample_limits(2) sh(2-4) addr
    by (simp add: s MeasureStateBytes_eq MAX_SCRIPT_GAS_PER_INPUT_def)
  then show ?thesis by (simp add: reexecute_def reexecute_kv_def s)
qed

lemma second_block: "apply_contract_block mem_db toy_crypto (\<lambda>_ _. None) rows1 (sample_block 11 call_tx) = Some rows2"
proof -
  obtain sh where sh: "ValidateStatefulCallShape toy_crypto call_tx 0 ''f751'' 9 = Inr sh"
    "callValue sh = 0" "logicalKey sh = ''k''" "call_value sh = [7]" "callerInputIndex sh = 1" "call_continuationVout sh = 0"
    by (rule call_tx_shape)
  obtain addr where addr: "addr \<noteq> []" "call_caller toy_crypto sample_utxos (\<lambda>_ _. None) (vin call_tx ! 1) = Inr (sample_hash, addr)"
    using call_tx_caller by blast
  obtain s where s: "LoadConfirmedStateDomain mem_db rows1 sample_root = Inr s" "snap_root s = sample_root" "snap_current s = sample_root"
    "snap_ownerHash160 s = sample_hash" "snap_family s = []" "snap_state s = [(''k'', [1, 2])]" by (rule rows1_loads)
  let ?ops = "[BatchPut (BuildContractStateKey sample_root ''k'') (string_of_bytes [7]),
    BatchPut (BuildContractLineageKey next_anchor) sample_root, BatchPut (BuildContractLiveKey sample_root) next_anchor]"
  have scan: "hexDecode ''f751'' = Some [OP_STORE, OP_1]" "scan_valid (ScanStatefulContractScript [OP_STORE, OP_1])"
    "usesStateDomain (ScanStatefulContractScript [OP_STORE, OP_1])" by code_simp+
  have "case ValidateStatefulCreationShape call_tx of Inl _ \<Rightarrow> False | Inr r \<Rightarrow> \<not> hasCreation r" by code_simp
  then obtain r where "ValidateStatefulCreationShape call_tx = Inr r" "\<not> hasCreation r" by (auto split: sum.splits)
  then have creation: "create_roots mem_db rows1 sample_utxos [] [call_tx] = Inr []" by simp
  have "map_of rows1 (BuildContractLineageKey next_anchor) = None"
    using sample_texts(6) by (simp add: rows1_def domain_rows_def sample_keys)
  then have roll: "rollover mem_db rows1 call_tx sh s ([(''k'', [7])], []) = Inr ?ops"
    using sample_keys sample_texts(5) by (simp add: rollover_def Let_def call_tx_fields sh sample_texts(8) commit_delta_def s mem_absent)
  have u: "sample_utxos (replicate 64 (CHR ''a'')) 0 = Some sample_anchor" by (simp add: sample_utxos_def)
  have "commit_state_call mem_db rows1 toy_crypto sample_utxos (\<lambda>_ _. None) 11 5 call_tx sample_anchor [OP_STORE, OP_1] [] =
      Inr (sample_root, ?ops)"
    using sh(1) addr(2) sample_texts(4) unfolding commit_state_call_def call_tx_fields sample_texts(7) Let_def
    by (simp add: sample_anchor_def s sh(5) call_tx_runs [OF sh(1-4) s(2-6) addr(1)] roll)
  then have "commit_calls mem_db rows1 toy_crypto sample_utxos (\<lambda>_ _. None) 11 5 [] [call_tx] = Inr ?ops"
    using scan by (simp add: commit_call_def negative_vout_def call_tx_fields u sample_anchor_def)
  then have "contract_phases mem_db rows1 toy_crypto sample_utxos (\<lambda>_ _. None) 11 5 [call_tx] = Inr ?ops"
    unfolding contract_phases_def creation by (simp only: sum.case append_Nil)
  moreover have "db_Write mem_db rows1 ?ops = Some rows2"
    using sample_texts(6) by (simp add: mem_db_def rows1_def rows2_def domain_rows_def sample_keys)
  ultimately show ?thesis by (simp add: apply_contract_block_def sample_block_def)
qed

lemma sample_blocks_ok: "contract_block_ok (sample_block now tx)" "no_contracts (map_of [])"
  by (simp_all add: contract_block_ok_def ids_distinct_def sample_block_def no_contracts_def)

lemma sample_run:
  "apply_contract_blocks mem_db toy_crypto (\<lambda>_ _. None) [] [sample_block 10 creation_tx] = Some rows1"
  "apply_contract_blocks mem_db toy_crypto (\<lambda>_ _. None) rows1 [sample_block 11 call_tx] = Some rows2"
  "apply_contract_blocks mem_db toy_crypto (\<lambda>_ _. None) [] [sample_block 10 creation_tx, sample_block 11 call_tx] = Some rows2"
  by (simp_all add: first_block second_block)

lemma rows2_live: "map_of rows2 (BuildContractLiveKey sample_root) = Some next_anchor"
  by (simp add: rows2_def domain_rows_def sample_keys)

theorem phases_refine_ledger_witness:
  "\<exists>l l'. represents (map_of rows1) l \<and> ledger_block toy_crypto sample_utxos 11 [call_tx] l l' \<and> represents (map_of rows2) l'"
proof -
  obtain l where l: "represents (map_of rows1) l"
    using blocks_represent [OF sample_run(1) mem_db_ok _ sample_blocks_ok(2)] sample_blocks_ok(1) by auto
  show ?thesis
    using l phases_refine_ledger [OF mem_db_ok l sample_blocks_ok(1) second_block] by (auto simp: sample_block_def)
qed

theorem contracts_stay_well_formed_witness:
  "\<exists>own fam st. domain_stored (map_of rows2) sample_root next_anchor own fam st \<and> value_ok fam st"
  using contracts_stay_well_formed [OF mem_db_ok sample_blocks_ok(2) _ sample_run(3) sample_domain(1) rows2_live]
  by (simp add: sample_blocks_ok(1))

theorem contracts_only_grow_witness:
  "\<exists>cur st. domain_stored (map_of rows2) sample_root cur sample_hash [] st"
  using contracts_only_grow [OF mem_db_ok sample_blocks_ok(2) _ _ sample_run(1,2) rows1_stored] by (auto simp: sample_blocks_ok(1))

theorem spent_anchor_dead_witness: "\<exists>e. LoadConfirmedStateDomain mem_db rows2 sample_root = Inl e"
proof -
  obtain s where s: "LoadConfirmedStateDomain mem_db rows1 sample_root = Inr s" "snap_root s = sample_root" by (rule rows1_loads)
  show ?thesis
  proof (rule spent_anchor_dead [OF mem_db_ok sample_blocks_ok(2) _ _ _ sample_run(1) s(1) sample_run(2)])
    show "map_of rows2 (BuildContractLiveKey (snap_root s)) \<noteq> Some sample_root"
      using rows2_live sample_texts(6) by (simp add: s(2))
    show "apply_contract_blocks mem_db toy_crypto (\<lambda>_ _. None) rows2 [] = Some rows2" by simp
  qed (simp_all add: sample_blocks_ok(1))
qed

end
