(* ===== verification/Proof_Of_Work.thy ===== *)
theory Proof_Of_Work
  imports Addresses
begin

text \<open>
  Block headers and proof of work: the 80-byte header and the block hash (\<open>src/src/block.cpp\<close>), compact
  targets, the work of a block, the check of a header against its target, the retarget rule and the
  median time of a candidate's ancestors (\<open>src/src/blockchain.cpp\<close>). \<open>ChainWork256\<close> is boost's unchecked
  \<open>uint256_t\<close>, so it wraps. A thrown error is \<open>Inl\<close>, or \<open>None\<close> where only one is possible.
\<close>

unbundle bit_operations_syntax

subsection \<open>The header and its hash\<close>

record BlockHeader =
  hdr_version :: u32
  prevHash :: string
  merkleRoot :: string
  hdr_timestamp :: u32
  bits :: u32
  nonce :: u64

text \<open>\<open>sscanf\<close> with \<open>%02x\<close> reads two characters as \<open>stoi\<close> does.\<close>

definition hexToLE32 :: "string \<Rightarrow> bytes option" where
  "hexToLE32 hexStr = (if length hexStr \<noteq> 64 then None else map_option rev (hexDecode hexStr))"

definition buildBlockHeader80 :: "BlockHeader \<Rightarrow> bytes option" where
  "buildBlockHeader80 hdr =
     (case hexToLE32 (prevHash hdr) of
        None \<Rightarrow> None
      | Some p \<Rightarrow>
          (case hexToLE32 (merkleRoot hdr) of
             None \<Rightarrow> None
           | Some m \<Rightarrow>
               Some (le_bytes 4 (hdr_version hdr) @ p @ m @ le_bytes 4 (hdr_timestamp hdr) @ le_bytes 4 (bits hdr) @
                 le_bytes 4 (ucast (nonce hdr) :: u32))))"

text \<open>The last four bytes of a digest, read big-endian, are shifted by \<open>0x21E8\<close>.\<close>

definition inject_21E8 :: "bytes \<Rightarrow> bytes" where
  "inject_21E8 h = take 28 h @ rev (le_bytes 4 ((le_val (rev (drop 28 h)) :: u32) + 0x21E8))"

definition header_hash :: "crypto \<Rightarrow> BlockHeader \<Rightarrow> bytes option" where
  "header_hash C hdr = map_option (\<lambda>b. inject_21E8 (SHA256 C (SHA256 C b))) (buildBlockHeader80 hdr)"

definition computeHash :: "crypto \<Rightarrow> BlockHeader \<Rightarrow> string option" where
  "computeHash C hdr = map_option hex_encode (header_hash C hdr)"

subsection \<open>Compact targets\<close>

type_synonym ChainWork256 = "256 word"

definition TRU_POW_LIMIT_BITS :: u32 where "TRU_POW_LIMIT_BITS = 0x1e00ffff"

text \<open>The index of the most significant bit, as boost's \<open>msb\<close>.\<close>

fun msb_index :: "nat \<Rightarrow> nat" where
  "msb_index n = (if n \<le> 1 then 0 else Suc (msb_index (n div 2)))"

declare msb_index.simps [simp del]

definition target256ToCompact :: "ChainWork256 \<Rightarrow> u32" where
  "target256ToCompact target =
     (if target = 0 then 0
      else
        let size = (msb_index (unat target) + 8) div 8;
            compactValue = (if size \<le> 3 then push_bit (8 * (3 - size)) target else drop_bit (8 * (size - 3)) target);
            mantissa = (ucast compactValue :: u32) AND 0x00ffffff;
            (mantissa, size) = (if mantissa AND 0x00800000 \<noteq> 0 then (drop_bit 8 mantissa, size + 1) else (mantissa, size)) in
        push_bit 24 (word_of_nat size) OR (mantissa AND 0x007fffff))"

definition compactToTarget256Strict :: "u32 \<Rightarrow> ChainWork256 option" where
  "compactToTarget256Strict bts =
     (let exponent = drop_bit 24 bts; mantissa = bts AND 0x007fffff; negative = (bts AND 0x00800000 \<noteq> 0) in
      if negative \<or> mantissa = 0 \<or> exponent = 0 then None
      else if exponent > 34 \<or> mantissa > 0xff \<and> exponent > 33 \<or> mantissa > 0xffff \<and> exponent > 32 then None
      else
        let target = (if exponent \<le> 3 then drop_bit (8 * (3 - unat exponent)) (ucast mantissa :: ChainWork256)
                      else push_bit (8 * (unat exponent - 3)) (ucast mantissa)) in
        if target = 0 then None
        else if target256ToCompact target \<noteq> bts then None
        else Some target)"

text \<open>\<open>std::logic_error\<close> when the limit were not canonical; it is.\<close>

definition truPowLimitTarget256 :: ChainWork256 where
  "truPowLimitTarget256 = the (compactToTarget256Strict TRU_POW_LIMIT_BITS)"

definition target256ToLE32 :: "ChainWork256 \<Rightarrow> bytes" where
  "target256ToLE32 target = le_bytes 32 target"

definition computeBlockWork256 :: "u32 \<Rightarrow> ChainWork256 option" where
  "computeBlockWork256 bts =
     (case compactToTarget256Strict bts of
        None \<Rightarrow> None
      | Some target \<Rightarrow>
          if target > truPowLimitTarget256 then None
          else let max256 = - 1 in Some ((max256 - target) div (target + 1) + 1))"

definition addChainWorkChecked :: "ChainWork256 \<Rightarrow> ChainWork256 \<Rightarrow> ChainWork256 option" where
  "addChainWorkChecked parentWork blockWork =
     (let max256 = - 1 in if parentWork > max256 - blockWork then None else Some (parentWork + blockWork))"

text \<open>From byte 31 down; the first difference decides.\<close>

fun compare_be :: "bytes \<Rightarrow> bytes \<Rightarrow> bool" where
  "compare_be (h # hs) (t # ts) = (if h < t then True else if h > t then False else compare_be hs ts)"
| "compare_be _ _ = True"

definition compare256LE :: "bytes \<Rightarrow> bytes \<Rightarrow> bool" where
  "compare256LE hashVal targetVal = compare_be (rev hashVal) (rev targetVal)"

definition verifyBlockDifficulty :: "crypto \<Rightarrow> BlockHeader \<Rightarrow> bool" where
  "verifyBlockDifficulty C hdr =
     (case compactToTarget256Strict (bits hdr) of
        None \<Rightarrow> False
      | Some target \<Rightarrow>
          if target > truPowLimitTarget256 then False
          else case header_hash C hdr of
            None \<Rightarrow> False
          | Some hash2 \<Rightarrow> compare256LE hash2 (target256ToLE32 target))"

subsection \<open>Compact targets as numbers\<close>

text \<open>
  A number of \<open>s\<close> bytes is written with its three most significant bytes, and with one byte less when
  those would set the sign bit.
\<close>

definition compact_parts :: "nat \<Rightarrow> nat \<times> nat" where
  "compact_parts n =
     (let s = (msb_index n + 8) div 8; m = (if s \<le> 3 then n * 256 ^ (3 - s) else n div 256 ^ (s - 3)) in
      if m \<ge> 2 ^ 23 then (s + 1, m div 256) else (s, m))"

definition compact_number :: "nat \<times> nat \<Rightarrow> nat" where
  "compact_number c = (case c of (e, m) \<Rightarrow> if e \<le> 3 then m div 256 ^ (3 - e) else m * 256 ^ (e - 3))"

lemma pow2_iff: "(2::nat) ^ a < 2 ^ b \<longleftrightarrow> a < b" "(2::nat) ^ a \<le> 2 ^ b \<longleftrightarrow> a \<le> b"
  by simp_all

lemma power2_thresholds: "(2::nat) ^ 15 = 32768" "(2::nat) ^ 16 = 65536" "(2::nat) ^ 23 = 8388608" "(2::nat) ^ 24 = 16777216"
  by simp_all

lemma msb_index_bounds: "0 < n \<Longrightarrow> 2 ^ msb_index n \<le> n \<and> n < 2 ^ Suc (msb_index n)"
proof (induction n rule: msb_index.induct)
  case (1 n)
  show ?case
  proof (cases "n \<le> 1")
    case True
    then show ?thesis using 1(2) by (simp add: msb_index.simps [of n])
  next
    case False
    then have "2 ^ msb_index (n div 2) \<le> n div 2 \<and> n div 2 < 2 ^ Suc (msb_index (n div 2))" using 1(1) by simp
    then have "2 * 2 ^ msb_index (n div 2) \<le> n \<and> n < 4 * 2 ^ msb_index (n div 2)" by simp linarith
    then show ?thesis using False by (simp add: msb_index.simps [of n])
  qed
qed

lemma msb_index_unique: "2 ^ k \<le> n \<Longrightarrow> n < 2 ^ Suc k \<Longrightarrow> msb_index n = k"
proof -
  assume n: "2 ^ k \<le> n" "n < 2 ^ Suc k"
  then have "0 < n" by (metis less_le_trans zero_less_numeral zero_less_power)
  note b = msb_index_bounds [OF this]
  have "(2::nat) ^ k < 2 ^ Suc (msb_index n)" "(2::nat) ^ msb_index n < 2 ^ Suc k" using n b by linarith+
  then have "k < Suc (msb_index n)" "msb_index n < Suc k" by (simp_all only: pow2_iff)
  then show ?thesis by simp
qed

text \<open>The number of bytes.\<close>

lemma byte_size:
  assumes "0 < n"
  shows "256 ^ ((msb_index n + 8) div 8 - 1) \<le> n" "n < 256 ^ ((msb_index n + 8) div 8)"
proof -
  let ?s = "(msb_index n + 8) div 8"
  note b = msb_index_bounds [OF assms]
  have p: "(256::nat) ^ k = 2 ^ (8 * k)" for k by (simp add: power_mult)
  have "8 * (?s - 1) \<le> msb_index n" "Suc (msb_index n) \<le> 8 * ?s" by presburger+
  then have "(2::nat) ^ (8 * (?s - 1)) \<le> 2 ^ msb_index n" "(2::nat) ^ Suc (msb_index n) \<le> 2 ^ (8 * ?s)"
    by (simp_all only: pow2_iff)
  then show "256 ^ (?s - 1) \<le> n" "n < 256 ^ ?s" unfolding p using b by linarith+
qed

lemma byte_size_unique:
  assumes "256 ^ s \<le> n" "n < 256 ^ Suc s"
  shows "(msb_index n + 8) div 8 = Suc s"
proof -
  have p: "(256::nat) ^ k = 2 ^ (8 * k)" for k by (simp add: power_mult)
  have n: "0 < n" using assms(1) by (metis less_le_trans zero_less_numeral zero_less_power)
  note b = msb_index_bounds [OF n]
  have "(2::nat) ^ (8 * s) < 2 ^ Suc (msb_index n)" "(2::nat) ^ msb_index n < 2 ^ (8 * Suc s)"
    using assms b unfolding p by linarith+
  then have h: "8 * s < Suc (msb_index n)" "msb_index n < 8 * Suc s" by (simp_all only: pow2_iff)
  have "msb_index n div 8 = s" by (rule div_nat_eqI) (use h in simp_all)
  then show ?thesis by simp
qed

lemma byte_size_le: "0 < n \<Longrightarrow> n < 256 ^ k \<Longrightarrow> (msb_index n + 8) div 8 \<le> k"
proof -
  assume n: "0 < n" "n < 256 ^ k"
  have "(256::nat) ^ ((msb_index n + 8) div 8 - 1) < 256 ^ k" using byte_size(1) [OF n(1)] n(2) by linarith
  then have "(msb_index n + 8) div 8 - 1 < k" by (rule power_less_imp_less_exp [of 256, rotated]) simp
  then show ?thesis by linarith
qed

text \<open>The three most significant bytes, as the code computes them.\<close>

lemma top_bytes:
  fixes n :: nat
  assumes "0 < n" "s = (msb_index n + 8) div 8" "m = (if s \<le> 3 then n * 256 ^ (3 - s) else n div 256 ^ (s - 3))"
  shows "1 \<le> s" "2 ^ 16 \<le> m" "m < 2 ^ 24" "s \<le> 3 \<Longrightarrow> n = m div 256 ^ (3 - s)"
    "3 < s \<Longrightarrow> m * 256 ^ (s - 3) \<le> n \<and> n < (m + 1) * 256 ^ (s - 3)"
proof -
  note b = byte_size [OF assms(1), folded assms(2)]
  show s: "1 \<le> s" unfolding assms(2) by presburger
  have pw: "(256::nat) ^ (s - 1) * 256 ^ (3 - s) = 2 ^ 16" "(256::nat) ^ s * 256 ^ (3 - s) = 2 ^ 24" if "s \<le> 3"
    using that s by (simp_all add: power_add [symmetric])
  have pw': "(256::nat) ^ (s - 1) = 2 ^ 16 * 256 ^ (s - 3)" "(256::nat) ^ s = 2 ^ 24 * 256 ^ (s - 3)" if "3 < s"
  proof -
    have "s - 1 = 2 + (s - 3)" "s = 3 + (s - 3)" using that by simp_all
    then have "(256::nat) ^ (s - 1) = 256 ^ 2 * 256 ^ (s - 3)" "(256::nat) ^ s = 256 ^ 3 * 256 ^ (s - 3)" by (metis power_add)+
    then show "(256::nat) ^ (s - 1) = 2 ^ 16 * 256 ^ (s - 3)" "(256::nat) ^ s = 2 ^ 24 * 256 ^ (s - 3)" by simp_all
  qed
  show "2 ^ 16 \<le> m"
  proof (cases "s \<le> 3")
    case True
    then show ?thesis using pw(1) [OF True] mult_le_mono1 [OF b(1), of "256 ^ (3 - s)"] by (simp add: assms(3))
  next
    case False
    then have "2 ^ 16 * 256 ^ (s - 3) \<le> n" using b(1) pw'(1) by simp
    then show ?thesis using False by (simp add: assms(3) less_eq_div_iff_mult_less_eq)
  qed
  show "m < 2 ^ 24"
  proof (cases "s \<le> 3")
    case True
    have "n * 256 ^ (3 - s) < 256 ^ s * 256 ^ (3 - s)" by (rule mult_strict_right_mono [OF b(2)]) simp
    then show ?thesis using pw(2) [OF True] True by (simp add: assms(3))
  next
    case False
    then have "n < 2 ^ 24 * 256 ^ (s - 3)" using b(2) pw'(2) by simp
    then show ?thesis using False by (simp add: assms(3) less_mult_imp_div_less)
  qed
  show "s \<le> 3 \<Longrightarrow> n = m div 256 ^ (3 - s)" by (simp add: assms(3))
  show "m * 256 ^ (s - 3) \<le> n \<and> n < (m + 1) * 256 ^ (s - 3)" if "3 < s"
  proof
    show "m * 256 ^ (s - 3) \<le> n" using that by (simp add: assms(3))
    have "n < 256 ^ (s - 3) + n div 256 ^ (s - 3) * 256 ^ (s - 3)" by (rule dividend_less_div_times) simp
    then show "n < (m + 1) * 256 ^ (s - 3)" using that by (simp add: assms(3))
  qed
qed

text \<open>What a number loses when it is written and read again, and that it loses nothing the second time.\<close>

lemma compact_parts_of:
  assumes "256 ^ s \<le> n" "n < 256 ^ Suc s" "m = (if Suc s \<le> 3 then n * 256 ^ (3 - Suc s) else n div 256 ^ (Suc s - 3))"
  shows "compact_parts n = (if m \<ge> 2 ^ 23 then (Suc (Suc s), m div 256) else (Suc s, m))"
  unfolding compact_parts_def byte_size_unique [OF assms(1,2)] Let_def assms(3) [symmetric] by simp

lemma compact_number_exact:
  assumes "0 < n" "compact_parts n = (e, m)"
  shows "1 \<le> e" "0 < m" "m < 2 ^ 23" "0 < compact_number (e, m)" "compact_number (e, m) \<le> n"
    "(n - compact_number (e, m)) * 2 ^ 15 < n" "compact_parts (compact_number (e, m)) = (e, m)"
    "n < 2 ^ 256 \<Longrightarrow> e \<le> 33 \<and> (e = 33 \<longrightarrow> m < 2 ^ 16)"
proof -
  define s where "s = (msb_index n + 8) div 8"
  define k where "k = (if s \<le> 3 then n * 256 ^ (3 - s) else n div 256 ^ (s - 3))"
  note t = top_bytes [OF assms(1) s_def k_def]
  have em: "(e, m) = (if k \<ge> 2 ^ 23 then (s + 1, k div 256) else (s, k))"
    using assms(2) unfolding compact_parts_def Let_def s_def [symmetric] k_def [symmetric] by simp
  show "1 \<le> e" "0 < m" "m < 2 ^ 23" using em t(1-3) by (auto split: if_splits)
  have size: "256 ^ (s - 1) \<le> n" "n < 256 ^ Suc (s - 1)" using byte_size [OF assms(1), folded s_def] t(1) by simp_all
  have small: "s \<le> 32" if "n < 2 ^ 256"
  proof -
    have "n < 256 ^ 32" using that by simp
    then show ?thesis unfolding s_def by (rule byte_size_le [OF assms(1)])
  qed
  then show "n < 2 ^ 256 \<Longrightarrow> e \<le> 33 \<and> (e = 33 \<longrightarrow> m < 2 ^ 16)" using em t(3) by (auto split: if_splits)
  let ?P = "256 ^ (s - 3) :: nat"
  have pw: "(256::nat) ^ (s - 1) = 2 ^ 16 * ?P" "(256::nat) ^ Suc (s - 1) = 2 ^ 24 * ?P" if s3: "3 \<le> s"
  proof -
    obtain j where "s = 3 + j" using le_Suc_ex [OF s3] by blast
    then have j: "s - 1 = 2 + j" "Suc (s - 1) = 3 + j" "s - 3 = j" by simp_all
    show "(256::nat) ^ (s - 1) = 2 ^ 16 * ?P" "(256::nat) ^ Suc (s - 1) = 2 ^ 24 * ?P" unfolding j power_add by simp_all
  qed
  consider (little) "s \<le> 3" "compact_number (e, m) = n"
    | (plain) "3 < s" "k < 2 ^ 23" "e = s" "m = k" "compact_number (e, m) = k * ?P"
    | (high) "3 \<le> s" "2 ^ 23 \<le> k" "e = s + 1" "m = k div 256" "compact_number (e, m) = k div 256 * 256 * ?P"
  proof (cases "k < 2 ^ 23")
    case True
    then have e: "e = s" "m = k" using em by simp_all
    show thesis
    proof (cases "s \<le> 3")
      case True
      show thesis by (rule little [OF True]) (simp add: compact_number_def e t(4) [OF True, symmetric] True)
    next
      case False
      show thesis by (rule plain) (use True False e in \<open>simp_all add: compact_number_def\<close>)
    qed
  next
    case False
    then have e: "e = s + 1" "m = k div 256" using em by simp_all
    show thesis
    proof (cases "s \<le> 2")
      case True
      have "k div 256 div 256 ^ (3 - (s + 1)) = k div 256 ^ (3 - s)"
      proof -
        have "3 - s = Suc (3 - (s + 1))" using True by simp
        then show ?thesis by (metis div_mult2_eq power_Suc)
      qed
      then have "compact_number (e, m) = n" using True t(4) by (simp add: compact_number_def e)
      then show thesis using little True by simp
    next
      case False
      have "s + 1 - 3 = Suc (s - 3)" using False by simp
      then have "compact_number (e, m) = k div 256 * 256 * ?P" using False by (simp add: compact_number_def e)
      then show thesis using high False \<open>\<not> k < 2 ^ 23\<close> e by simp
    qed
  qed
  then have "0 < compact_number (e, m) \<and> compact_number (e, m) \<le> n \<and> (n - compact_number (e, m)) * 2 ^ 15 < n \<and>
    compact_parts (compact_number (e, m)) = (e, m)"
  proof cases
    case little
    then show ?thesis using assms by simp
  next
    case plain
    have n: "k * ?P \<le> n" "n < (k + 1) * ?P" using t(5) [OF plain(1)] by simp_all
    have P: "0 < ?P" by simp
    have lo: "2 ^ 16 * ?P \<le> k * ?P" using t(2) by simp
    have "n - k * ?P < ?P" using n by simp
    then have "(n - k * ?P) * 2 ^ 15 < n" using lo n(1) unfolding power2_thresholds by linarith
    moreover have "compact_parts (k * ?P) = (e, m)"
    proof -
      show ?thesis
        using compact_parts_of [of "s - 1" "k * ?P" k] t(3) lo plain pw by simp
    qed
    ultimately show ?thesis using plain n P lo by simp
  next
    case high
    let ?k = "k div 256 * 256"
    have n: "k * ?P \<le> n" "n < (k + 1) * ?P"
      using t(5) t(4) high(1) by (cases "s = 3"; simp)+
    have "32768 \<le> k div 256" using div_le_mono [OF high(2), of 256] by simp
    then have k: "2 ^ 23 \<le> ?k" "?k \<le> k" "k < ?k + 256" by simp_all
    have lo: "2 ^ 23 * ?P \<le> ?k * ?P" "?k * ?P \<le> k * ?P" "(k + 1) * ?P \<le> (?k + 256) * ?P"
      using k by (intro mult_le_mono1; linarith)+
    have "(?k + 256) * ?P = ?k * ?P + 256 * ?P" by (rule add_mult_distrib)
    then have d: "n - ?k * ?P < 256 * ?P" "?k * ?P \<le> n" using n lo by linarith+
    then have "(n - ?k * ?P) * 2 ^ 15 < n" using lo(1) unfolding power2_thresholds by linarith
    moreover have "compact_parts (?k * ?P) = (e, m)"
    proof -
      have "?k * ?P < 2 ^ 24 * ?P" using k t(3) by simp
      moreover have "2 ^ 16 * ?P \<le> ?k * ?P" using lo(1) unfolding power2_thresholds by linarith
      moreover have "?k = (if Suc (s - 1) \<le> 3 then ?k * ?P * 256 ^ (3 - Suc (s - 1)) else ?k * ?P div 256 ^ (Suc (s - 1) - 3))"
        using high(1) by auto
      ultimately show ?thesis
        using compact_parts_of [of "s - 1" "?k * ?P" ?k] k(1) high pw by simp
    qed
    ultimately show ?thesis using d lo high k by simp
  qed
  then show "0 < compact_number (e, m)" "compact_number (e, m) \<le> n" "(n - compact_number (e, m)) * 2 ^ 15 < n"
    "compact_parts (compact_number (e, m)) = (e, m)" by blast+
qed

subsection \<open>The words\<close>

lemma and_mask_nat:
  "unat ((w :: u32) AND 0x007fffff) = unat w mod 2 ^ 23" "unat ((w :: u32) AND 0x00ffffff) = unat w mod 2 ^ 24"
proof -
  have "w AND 0x007fffff = take_bit 23 w" "w AND 0x00ffffff = take_bit 24 w"
    by (simp_all add: take_bit_eq_mask mask_eq_exp_minus_1)
  then show "unat (w AND 0x007fffff) = unat w mod 2 ^ 23" "unat (w AND 0x00ffffff) = unat w mod 2 ^ 24"
    by (simp_all only: unsigned_take_bit_eq) (simp_all add: take_bit_eq_mod)
qed

lemma sign_bit_nat: "(w :: u32) AND 0x00800000 = 0 \<longleftrightarrow> unat w div 2 ^ 23 mod 2 = 0"
proof -
  have "(0x00800000 :: u32) = 2 ^ 23" by simp
  then have "w AND 0x00800000 = 0 \<longleftrightarrow> \<not> bit w 23" by (simp only: and_exp_eq_0_iff_not_bit)
  also have "bit w 23 \<longleftrightarrow> bit (unat w) 23" by (simp add: bit_unsigned_iff)
  also have "\<dots> \<longleftrightarrow> odd (unat w div 2 ^ 23)" by (rule bit_iff_odd)
  finally show ?thesis by presburger
qed

lemma unat_push_bit: "unat (push_bit k (w :: 'a::len word)) = unat w * 2 ^ k mod 2 ^ LENGTH('a)"
  unfolding unsigned_push_bit_eq by (simp add: take_bit_eq_mod push_bit_eq_mult)

lemma unat_drop_bit: "unat (drop_bit k (w :: 'a::len word)) = unat w div 2 ^ k"
  unfolding unat_drop_bit_eq by (simp add: drop_bit_eq_div)

lemma compact_word:
  assumes "e < 256" "m < 2 ^ 23"
  shows "unat (push_bit 24 (word_of_nat e) OR (word_of_nat m AND 0x007fffff) :: u32) = e * 2 ^ 24 + m"
proof -
  let ?x = "push_bit 24 (word_of_nat e) :: u32" and ?y = "word_of_nat m AND 0x007fffff :: u32"
  have y: "unat ?y = m" using assms(2) by (simp add: and_mask_nat unsigned_of_nat take_bit_eq_mod)
  have x: "unat ?x = e * 2 ^ 24" using assms(1) unfolding unat_push_bit by (simp add: unsigned_of_nat take_bit_eq_mod)
  have "?x AND ?y = 0"
  proof -
    have "?y = take_bit 23 (word_of_nat m)" by (simp add: take_bit_eq_mask mask_eq_exp_minus_1)
    then show ?thesis by (auto simp: bit_eq_iff bit_and_iff bit_push_bit_iff bit_take_bit_iff)
  qed
  then have "?x OR ?y = ?x + ?y" using word_plus_and_or [of ?x ?y] by simp
  moreover have "unat (?x + ?y) = unat ?x + unat ?y"
    by (subst unat_add_lem [symmetric]) (use assms in \<open>simp add: x y\<close>)
  ultimately show ?thesis using x y by simp
qed

lemma target256ToCompact_nat:
  assumes "t \<noteq> 0" "compact_parts (unat t) = (e, m)"
  shows "unat (target256ToCompact t) = e * 2 ^ 24 + m"
proof -
  define s where "s = (msb_index (unat t) + 8) div 8"
  define k where "k = (if s \<le> 3 then unat t * 256 ^ (3 - s) else unat t div 256 ^ (s - 3))"
  have n: "0 < unat t" using assms(1) by (simp add: unat_gt_0)
  have lt: "unat t < 2 ^ 256" using unsigned_less [of t, where 'a = nat] by simp
  note b = top_bytes [OF n s_def k_def]
  have em: "(e, m) = (if k \<ge> 2 ^ 23 then (s + 1, k div 256) else (s, k))"
    using assms(2) unfolding compact_parts_def Let_def s_def [symmetric] k_def [symmetric] by simp
  let ?cv = "if s \<le> 3 then push_bit (8 * (3 - s)) t else drop_bit (8 * (s - 3)) t"
  have p: "(256::nat) ^ j = 2 ^ (8 * j)" for j by (simp add: power_mult)
  have "unat ?cv = k"
  proof (cases "s \<le> 3")
    case True
    then have "unat t * 256 ^ (3 - s) < 2 ^ 256" using b(3) by (simp add: k_def)
    then show ?thesis unfolding if_P [OF True] unat_push_bit k_def p by simp
  next
    case False
    then show ?thesis unfolding if_not_P [OF False] unat_drop_bit k_def p by simp
  qed
  then have "unat ((ucast ?cv :: u32) AND 0x00ffffff) = k"
    using b(3) unfolding and_mask_nat by (simp add: unsigned_ucast_eq take_bit_eq_mod)
  moreover have k32: "unat (word_of_nat k :: u32) = k" using b(3) by (intro unat_word_of_nat_less) simp
  ultimately have man: "(ucast ?cv :: u32) AND 0x00ffffff = word_of_nat k" by (simp only: word_unat_eq_iff)
  have sign: "(word_of_nat k :: u32) AND 0x00800000 \<noteq> 0 \<longleftrightarrow> k \<ge> 2 ^ 23"
  proof -
    have "k div 2 ^ 23 < 2" using b(3) by (simp add: less_mult_imp_div_less)
    moreover have "k div 2 ^ 23 = 0 \<longleftrightarrow> k < 2 ^ 23" by (simp add: div_eq_0_iff)
    ultimately show ?thesis unfolding sign_bit_nat k32 by (metis less_2_cases mod_less nat_less_le not_le one_less_numeral_iff semiring_norm(76) zero_neq_one)
  qed
  have d8: "drop_bit 8 (word_of_nat k :: u32) = word_of_nat (k div 256)"
    unfolding word_unat_eq_iff unat_drop_bit k32 using b(3) by (simp add: unsigned_of_nat take_bit_eq_mod)
  have "target256ToCompact t = push_bit 24 (word_of_nat e) OR (word_of_nat m AND 0x007fffff)"
    unfolding target256ToCompact_def Let_def s_def [symmetric] man using assms(1) em sign d8 by (simp split: if_splits)
  moreover have "e < 256" "m < 2 ^ 23" using compact_number_exact(3,8) [OF n assms(2)] lt by simp_all
  ultimately show ?thesis using compact_word by simp
qed

text \<open>Reading, without overflow.\<close>

lemma decoded_target:
  fixes e m :: u32
  assumes "unat m < 2 ^ 23" "\<not> (e > 34 \<or> m > 0xff \<and> e > 33 \<or> m > 0xffff \<and> e > 32)"
  shows "unat (if e \<le> 3 then drop_bit (8 * (3 - unat e)) (ucast m :: ChainWork256) else push_bit (8 * (unat e - 3)) (ucast m)) =
    compact_number (unat e, unat m)"
proof -
  have p: "(256::nat) ^ j = 2 ^ (8 * j)" for j by (simp add: power_mult)
  have u: "unat (ucast m :: ChainWork256) = unat m"
    unfolding unsigned_ucast_eq using assms(1) by (simp add: take_bit_nat_eq_self)
  have le: "e \<le> 3 \<longleftrightarrow> unat e \<le> 3" by (simp add: word_le_nat_alt)
  show ?thesis
  proof (cases "e \<le> 3")
    case True
    then show ?thesis unfolding if_P [OF True] unat_drop_bit u by (simp add: compact_number_def le p)
  next
    case False
    have o: "unat e \<le> 34" "unat m > 255 \<longrightarrow> unat e \<le> 33" "unat m > 65535 \<longrightarrow> unat e \<le> 32"
      using assms(2) by (auto simp: word_less_nat_alt not_less)
    have big: "unat m * 2 ^ (8 * (unat e - 3)) < 2 ^ 256" if "unat m < 2 ^ j" "j + 8 * (unat e - 3) \<le> 256" for j
    proof -
      have "unat m * 2 ^ (8 * (unat e - 3)) < 2 ^ j * 2 ^ (8 * (unat e - 3))" using that(1) by simp
      also have "\<dots> = 2 ^ (j + 8 * (unat e - 3))" by (simp only: power_add)
      also have "\<dots> \<le> 2 ^ 256" using that(2) by (simp only: pow2_iff)
      finally show ?thesis .
    qed
    have "unat m * 2 ^ (8 * (unat e - 3)) < 2 ^ 256"
    proof (cases "unat m \<le> 255")
      case True
      show ?thesis by (rule big [of 8]) (use True o in simp_all)
    next
      case f: False
      show ?thesis
      proof (cases "unat m \<le> 65535")
        case True
        show ?thesis by (rule big [of 16]) (use True f o in simp_all)
      next
        case False
        show ?thesis by (rule big [of 23]) (use False f o assms(1) in simp_all)
      qed
    qed
    then show ?thesis unfolding if_not_P [OF False] unat_push_bit u using False by (simp add: compact_number_def le p)
  qed
qed

lemma compact_fields:
  fixes b :: u32
  assumes "unat b = e * 2 ^ 24 + m" "m < 2 ^ 23"
  shows "unat (drop_bit 24 b) = e" "unat (b AND 0x007fffff) = m" "b AND 0x00800000 = 0"
proof -
  have "m div 2 ^ 24 = 0" using assms(2) by simp
  then show "unat (drop_bit 24 b) = e" unfolding unat_drop_bit assms(1) by simp
  have "e * 2 ^ 24 mod 2 ^ 23 = (0::nat)" by simp
  then show "unat (b AND 0x007fffff) = m" unfolding and_mask_nat assms(1) using assms(2) by (metis add_0 mod_add_left_eq mod_less)
  have "unat b = m + 2 * e * 2 ^ 23" unfolding assms(1) by simp
  then have "unat b div 2 ^ 23 = 2 * e" using assms(2) by simp
  then show "b AND 0x00800000 = 0" unfolding sign_bit_nat by simp
qed

text \<open>The strict reader accepts exactly the encodings the writer produces, of the numbers it does not round.\<close>

lemma compact_decode:
  "compactToTarget256Strict b = Some t \<longleftrightarrow>
     t \<noteq> 0 \<and> target256ToCompact t = b \<and> compact_number (compact_parts (unat t)) = unat t"
proof
  let ?e = "drop_bit 24 b" and ?m = "b AND 0x007fffff"
  assume "compactToTarget256Strict b = Some t"
  then have c: "\<not> (?e > 34 \<or> ?m > 0xff \<and> ?e > 33 \<or> ?m > 0xffff \<and> ?e > 32)"
    "t = (if ?e \<le> 3 then drop_bit (8 * (3 - unat ?e)) (ucast ?m) else push_bit (8 * (unat ?e - 3)) (ucast ?m))"
    "t \<noteq> 0" "target256ToCompact t = b"
    unfolding compactToTarget256Strict_def Let_def by (simp_all split: if_split_asm)
  have n: "unat t = compact_number (unat ?e, unat ?m)"
    unfolding c(2) by (rule decoded_target [OF _ c(1)]) (simp add: and_mask_nat)
  obtain e m where em: "compact_parts (unat t) = (e, m)" by fastforce
  have "0 < unat t" using c(3) by (simp add: unat_gt_0)
  then have "m < 2 ^ 23" using compact_number_exact(3) em by blast
  moreover have "unat b = e * 2 ^ 24 + m" using target256ToCompact_nat [OF c(3) em] c(4) by simp
  ultimately have "unat ?e = e" "unat ?m = m" by (simp_all only: compact_fields)
  then show "t \<noteq> 0 \<and> target256ToCompact t = b \<and> compact_number (compact_parts (unat t)) = unat t"
    using c(3,4) n em by simp
next
  let ?e = "drop_bit 24 b" and ?m = "b AND 0x007fffff"
  assume a: "t \<noteq> 0 \<and> target256ToCompact t = b \<and> compact_number (compact_parts (unat t)) = unat t"
  obtain e m where em: "compact_parts (unat t) = (e, m)" by fastforce
  have n: "0 < unat t" "unat t < 2 ^ 256" using a unsigned_less [of t, where 'a = nat] by (simp_all add: unat_gt_0)
  note x = compact_number_exact [OF n(1) em]
  have b: "unat b = e * 2 ^ 24 + m" using target256ToCompact_nat [OF _ em] a by simp
  note f = compact_fields [OF b x(3)]
  have ov: "\<not> (?e > 34 \<or> ?m > 0xff \<and> ?e > 33 \<or> ?m > 0xffff \<and> ?e > 32)"
    using x(8) [OF n(2)] f(1,2) by (auto simp: word_less_nat_alt)
  have pos: "?e \<noteq> 0" "?m \<noteq> 0" using x(1,2) f(1,2) by (metis not_one_le_zero unsigned_0, metis less_irrefl unsigned_0)
  let ?t = "if ?e \<le> 3 then drop_bit (8 * (3 - unat ?e)) (ucast ?m) else push_bit (8 * (unat ?e - 3)) (ucast ?m) :: ChainWork256"
  have "unat ?t = unat t"
    using decoded_target [OF _ ov] f(1,2) x(3) a em by simp
  then have t: "?t = t" by (simp only: word_unat_eq_iff)
  show "compactToTarget256Strict b = Some t"
    unfolding compactToTarget256Strict_def Let_def t using a ov pos f(3) by simp
qed

lemma compact_canonical:
  assumes "t \<noteq> 0"
  obtains t' where "compactToTarget256Strict (target256ToCompact t) = Some t'" "t' \<le> t" "(unat t - unat t') * 2 ^ 15 < unat t"
proof -
  obtain e m where em: "compact_parts (unat t) = (e, m)" by fastforce
  have n: "0 < unat t" "unat t < 2 ^ 256" using assms unsigned_less [of t, where 'a = nat] by (simp_all add: unat_gt_0)
  note x = compact_number_exact [OF n(1) em]
  define t' where "t' = (word_of_nat (compact_number (e, m)) :: ChainWork256)"
  have u: "unat t' = compact_number (e, m)"
    unfolding t'_def by (rule unat_word_of_nat_less) (use x(5) n(2) in simp)
  have "t' \<noteq> 0" using x(4) u by (metis less_irrefl unsigned_0)
  moreover have "target256ToCompact t' = target256ToCompact t"
    using target256ToCompact_nat [OF assms em] target256ToCompact_nat [OF \<open>t' \<noteq> 0\<close>, of e m] x(7) u
    by (simp add: word_unat_eq_iff)
  ultimately have "compactToTarget256Strict (target256ToCompact t) = Some t'"
    unfolding compact_decode using x(7) u by simp
  then show thesis using that x(5,6) u by (simp add: word_le_nat_alt)
qed

subsection \<open>The limit\<close>

lemma pow_limit: "compactToTarget256Strict TRU_POW_LIMIT_BITS = Some (word_of_nat (65535 * 2 ^ 216))"
  "unat truPowLimitTarget256 = 65535 * 2 ^ 216"
proof -
  let ?n = "65535 * 2 ^ 216 :: nat" and ?t = "word_of_nat (65535 * 2 ^ 216) :: ChainWork256"
  have u: "unat ?t = ?n" by (rule unat_word_of_nat_less) simp
  have parts: "compact_parts ?n = (30, 65535)"
    using compact_parts_of [of 28 ?n "65535 * 256"] by simp
  have nz: "?t \<noteq> 0" using u by (metis mult_is_0 power_not_zero unsigned_0 zero_neq_numeral)
  have "unat (target256ToCompact ?t) = 30 * 2 ^ 24 + 65535" by (rule target256ToCompact_nat [OF nz]) (simp only: u parts)
  then have "target256ToCompact ?t = TRU_POW_LIMIT_BITS" by (simp add: word_unat_eq_iff TRU_POW_LIMIT_BITS_def)
  moreover have "compact_number (compact_parts (unat ?t)) = unat ?t" unfolding u parts by (simp add: compact_number_def)
  ultimately show d: "compactToTarget256Strict TRU_POW_LIMIT_BITS = Some ?t" unfolding compact_decode using nz by blast
  show "unat truPowLimitTarget256 = ?n" unfolding truPowLimitTarget256_def d option.sel by (rule u)
qed

subsection \<open>Comparing\<close>

lemma compare_be_nat: "length hs = length ts \<Longrightarrow> compare_be hs ts \<longleftrightarrow> le_nat (rev hs) \<le> le_nat (rev ts)"
proof (induction hs ts rule: list_induct2)
  case (Cons h hs t ts)
  have app: "le_nat (xs @ [x]) = le_nat xs + 256 ^ length xs * unat x" for xs x
    by (induction xs) (simp_all add: algebra_simps)
  have b: "le_nat (rev hs) < 256 ^ length hs" "le_nat (rev ts) < 256 ^ length hs"
    using le_nat_less [of "rev hs"] le_nat_less [of "rev ts"] Cons.hyps by simp_all
  have lt: "le_nat a + 256 ^ k * x < le_nat z + 256 ^ k * y" if "le_nat a < 256 ^ k" "x < y" for a z k and x y :: nat
  proof -
    have "le_nat a + 256 ^ k * x < 256 ^ k + 256 ^ k * x" using that(1) by simp
    also have "\<dots> = 256 ^ k * Suc x" by simp
    also have "\<dots> \<le> 256 ^ k * y" using that(2) by (intro mult_le_mono2) simp
    finally show ?thesis by simp
  qed
  consider "unat h < unat t" | "unat t < unat h" | "h = t" by (metis linorder_neqE_nat word_unat_eq_iff)
  then show ?case
  proof cases
    case 1
    then show ?thesis using lt [OF b(1) 1, of "rev ts"] Cons.hyps by (simp add: app word_less_nat_alt)
  next
    case 2
    then show ?thesis using lt [OF b(2) 2, of "rev hs"] Cons.hyps by (simp add: app word_less_nat_alt)
  next
    case 3
    then show ?thesis using Cons by (simp add: app)
  qed
qed simp

lemma compare256LE_nat: "length h = length t \<Longrightarrow> compare256LE h t \<longleftrightarrow> le_nat h \<le> le_nat t"
  using compare_be_nat [of "rev h" "rev t"] by (simp add: compare256LE_def)

lemma le_nat_target: "le_nat (target256ToLE32 t) = unat t"
proof -
  have "unat (le_val (target256ToLE32 t) :: ChainWork256) = le_nat (target256ToLE32 t)"
    by (rule unat_le_val) (simp add: target256ToLE32_def)
  moreover have "(le_val (target256ToLE32 t) :: ChainWork256) = t" unfolding target256ToLE32_def by (rule le_val_le_bytes) simp
  ultimately show ?thesis by simp
qed

lemma inject_length: "length h = 32 \<Longrightarrow> length (inject_21E8 h) = 32"
  by (simp add: inject_21E8_def)

lemma header_hash_length: "sha256_ok C \<Longrightarrow> header_hash C hdr = Some h \<Longrightarrow> length h = 32"
  by (auto simp: header_hash_def sha256_ok_def inject_length)

subsection \<open>Properties\<close>

text \<open>
  C36: compact targets. The strict reader accepts exactly the canonical encodings: what it reads is
  written back as the same bits, so no target has two encodings; and every non-zero target is written
  as bits that it accepts, for a target that is at most the original and less than one part in
  32768 below it.
\<close>

theorem compact_target_canonical:
  "(compactToTarget256Strict b = Some t \<longrightarrow> t \<noteq> 0 \<and> target256ToCompact t = b) \<and>
   (u = 0 \<or> (\<exists>u'. compactToTarget256Strict (target256ToCompact u) = Some u' \<and> u' \<le> u \<and>
      (unat u - unat u') * 2 ^ 15 < unat u))"
proof (intro conjI impI)
  assume "compactToTarget256Strict b = Some t"
  then have "t \<noteq> 0 \<and> target256ToCompact t = b \<and> compact_number (compact_parts (unat t)) = unat t" by (rule iffD1 [OF compact_decode])
  then show "t \<noteq> 0" "target256ToCompact t = b" by blast+
next
  show "u = 0 \<or> (\<exists>u'. compactToTarget256Strict (target256ToCompact u) = Some u' \<and> u' \<le> u \<and>
      (unat u - unat u') * 2 ^ 15 < unat u)"
  proof (cases "u = 0")
    case False
    obtain u' where "compactToTarget256Strict (target256ToCompact u) = Some u'" "u' \<le> u" "(unat u - unat u') * 2 ^ 15 < unat u"
      using False by (rule compact_canonical)
    then show ?thesis by blast
  qed simp
qed

theorem compact_target_canonical_witness:
  "target256ToCompact (word_of_nat (65535 * 2 ^ 216)) = TRU_POW_LIMIT_BITS"
  using compact_target_canonical [of TRU_POW_LIMIT_BITS "word_of_nat (65535 * 2 ^ 216)" 0] pow_limit(1) by blast

text \<open>
  C35: proof of work. A header passes exactly when its bits are a canonical target within the limit and
  the block hash, the double SHA-256 of the 80 bytes with the last word shifted, read as a
  little-endian number, does not exceed that target.
\<close>

theorem proof_of_work_exact:
  assumes "sha256_ok C"
  shows "verifyBlockDifficulty C hdr \<longleftrightarrow>
    (\<exists>t h. compactToTarget256Strict (bits hdr) = Some t \<and> unat t \<le> 65535 * 2 ^ 216 \<and>
       computeHash C hdr = Some (hex_encode h) \<and> length h = 32 \<and> le_nat h \<le> unat t)"
proof (cases "compactToTarget256Strict (bits hdr)")
  case (Some t)
  have lim: "t > truPowLimitTarget256 \<longleftrightarrow> \<not> unat t \<le> 65535 * 2 ^ 216" by (simp only: word_less_nat_alt pow_limit(2) not_le)
  show ?thesis
  proof (cases "header_hash C hdr")
    case h: (Some h)
    note l = header_hash_length [OF assms h]
    have "length (target256ToLE32 t) = 32" by (simp add: target256ToLE32_def)
    then have "compare256LE h (target256ToLE32 t) \<longleftrightarrow> le_nat h \<le> unat t"
      using compare256LE_nat [of h "target256ToLE32 t"] l by (simp add: le_nat_target)
    then show ?thesis using l by (auto simp: verifyBlockDifficulty_def Some h lim computeHash_def)
  qed (simp add: verifyBlockDifficulty_def Some computeHash_def)
qed (simp add: verifyBlockDifficulty_def)

text \<open>
  C37: the work of a block is the exact quotient of \<open>2 ^ 256\<close> by the target plus one, although that
  dividend does not fit, and cumulative work never wraps: the checked sum is the sum or an error.
\<close>

theorem chain_work_exact:
  "computeBlockWork256 b = Some w \<longrightarrow>
     (\<exists>t. compactToTarget256Strict b = Some t \<and> unat w = 2 ^ 256 div (unat t + 1) \<and> 0 < unat w \<and>
        (addChainWorkChecked p w = (if unat p + unat w < 2 ^ 256 then Some (p + w) else None)) \<and>
        (unat p + unat w < 2 ^ 256 \<longrightarrow> unat (p + w) = unat p + unat w))"
proof
  assume a: "computeBlockWork256 b = Some w"
  obtain t where t: "compactToTarget256Strict b = Some t" "\<not> t > truPowLimitTarget256" "w = (- 1 - t) div (t + 1) + 1"
    using a by (auto simp: computeBlockWork256_def Let_def split: option.splits if_splits)
  let ?N = "2 ^ 256 :: nat"
  have le: "unat t \<le> 65535 * 2 ^ 216" using t(2) by (simp add: word_less_nat_alt pow_limit(2))
  have pos: "0 < unat t" using t(1) by (simp add: compact_decode unat_gt_0)
  have s1: "unat (t + 1) = unat t + 1" using le by (simp add: unat_word_ariths)
  have s2: "unat (- 1 - t) = ?N - 1 - unat t" using unat_minus_one_sub [of t] by simp
  have q: "(?N - 1 - unat t) div (unat t + 1) + 1 = ?N div (unat t + 1)"
  proof -
    have "?N = (?N - 1 - unat t) + (unat t + 1)" using le by simp
    then show ?thesis by (metis add_gr_0 div_add_self2 less_numeral_extra(1) not_gr_zero)
  qed
  have "?N div (unat t + 1) \<le> ?N div 2" using pos by (intro div_le_mono2) simp_all
  then have "?N div (unat t + 1) < ?N" by (rule le_less_trans) simp
  moreover have d: "unat ((- 1 - t) div (t + 1)) = (?N - 1 - unat t) div (unat t + 1)" by (simp only: unat_div s1 s2)
  ultimately have "unat ((- 1 - t) div (t + 1)) + 1 < ?N" using q by simp
  then have w: "unat w = ?N div (unat t + 1)" using d q unfolding t(3) by (simp add: unat_word_ariths)
  moreover have "0 < ?N div (unat t + 1)" using le by (simp add: div_greater_zero_iff)
  moreover have "addChainWorkChecked p w = (if unat p + unat w < ?N then Some (p + w) else None)"
    using unsigned_less [of w, where 'a = nat]
    by (auto simp: addChainWorkChecked_def Let_def word_less_nat_alt unat_minus_one_sub)
  moreover have "unat p + unat w < ?N \<longrightarrow> unat (p + w) = unat p + unat w" by (simp add: unat_word_ariths)
  ultimately show "\<exists>t. compactToTarget256Strict b = Some t \<and> unat w = ?N div (unat t + 1) \<and> 0 < unat w \<and>
        (addChainWorkChecked p w = (if unat p + unat w < ?N then Some (p + w) else None)) \<and>
        (unat p + unat w < ?N \<longrightarrow> unat (p + w) = unat p + unat w)" using t(1) by auto
qed

theorem chain_work_exact_witness: "\<exists>w. computeBlockWork256 TRU_POW_LIMIT_BITS = Some w \<and> 0 < unat w"
proof -
  have "\<not> word_of_nat (65535 * 2 ^ 216) > truPowLimitTarget256"
    unfolding truPowLimitTarget256_def pow_limit(1) option.sel by simp
  then obtain w where w: "computeBlockWork256 TRU_POW_LIMIT_BITS = Some w"
    by (simp add: computeBlockWork256_def pow_limit(1) Let_def)
  then show ?thesis using chain_work_exact [of TRU_POW_LIMIT_BITS w 0] by blast
qed

text \<open>Any header with a hash that is small enough.\<close>

theorem proof_of_work_exact_witness:
  "verifyBlockDifficulty (toy_crypto\<lparr>SHA256 := \<lambda>_. replicate 28 0 @ [0xFF, 0xFF, 0xDE, 0x18]\<rparr>)
     \<lparr>hdr_version = 1, prevHash = replicate 64 (CHR ''0''), merkleRoot = replicate 64 (CHR ''0''), hdr_timestamp = 5,
      bits = TRU_POW_LIMIT_BITS, nonce = 0\<rparr>"
proof -
  let ?C = "toy_crypto\<lparr>SHA256 := \<lambda>_. replicate 28 0 @ [0xFF, 0xFF, 0xDE, 0x18]\<rparr>"
  let ?h = "\<lparr>hdr_version = 1, prevHash = replicate 64 (CHR ''0''), merkleRoot = replicate 64 (CHR ''0''), hdr_timestamp = 5,
      bits = TRU_POW_LIMIT_BITS, nonce = 0\<rparr>"
  have C: "sha256_ok ?C" by (simp add: sha256_ok_def)
  have h: "computeHash ?C ?h = Some (hex_encode (replicate 32 0))" by code_simp
  have u: "unat (word_of_nat (65535 * 2 ^ 216) :: ChainWork256) = 65535 * 2 ^ 216"
    using pow_limit(2) unfolding truPowLimitTarget256_def pow_limit(1) option.sel .
  have z: "le_nat (replicate 32 0) = 0" by code_simp
  show ?thesis
    unfolding proof_of_work_exact [OF C]
    by (rule exI [of _ "word_of_nat (65535 * 2 ^ 216)"], rule exI [of _ "replicate 32 0"]) (use h pow_limit(1) u z in simp)
qed

end
