(* ===== verification/Chain_Rules.thy ===== *)
theory Chain_Rules
  imports Proof_Of_Work
begin

text \<open>
  The rules that read the ancestors of a candidate block (\<open>src/src/blockchain.cpp\<close>): the expected
  difficulty bits and the median time past. \<open>index\<close> is \<open>blockIndex\<close>, by block hash. The bits are
  returned as a number; the code prints them in hex and the caller parses that.
\<close>

subsection \<open>The block index\<close>

record BlockIndexEntry =
  entry_header :: BlockHeader
  entry_blockHash :: string
  block_height :: int
  entry_height :: int
  parentHash :: string

type_synonym block_index = "string \<rightharpoonup> BlockIndexEntry"

definition DIFFICULTY_RETARGET_INTERVAL :: nat where "DIFFICULTY_RETARGET_INTERVAL = 60"
definition DIFFICULTY_TARGET_SPACING :: u64 where "DIFFICULTY_TARGET_SPACING = 60"

subsection \<open>Expected bits\<close>

text \<open>The walk to the first block of the window.\<close>

fun retarget_walk :: "block_index \<Rightarrow> nat \<Rightarrow> BlockIndexEntry \<Rightarrow> string + BlockIndexEntry" where
  "retarget_walk index 0 startEntry = Inr startEntry"
| "retarget_walk index (Suc n) startEntry =
     (if entry_height startEntry \<le> 1 then Inl ''insufficient candidate ancestry for difficulty retarget''
      else case index (prevHash (entry_header startEntry)) of
        None \<Rightarrow> Inl ''missing candidate ancestor for difficulty: ''
      | Some ancestor \<Rightarrow>
          if entry_height ancestor \<noteq> entry_height startEntry - 1 \<or> block_height ancestor \<noteq> entry_height ancestor \<or>
             entry_blockHash ancestor \<noteq> prevHash (entry_header startEntry)
          then Inl ''non-contiguous candidate ancestry while calculating difficulty''
          else retarget_walk index n ancestor)"

text \<open>The time the window took, between half and twice the desired time.\<close>

definition DESIRED_TIMESPAN :: u64 where
  "DESIRED_TIMESPAN = of_nat DIFFICULTY_RETARGET_INTERVAL * DIFFICULTY_TARGET_SPACING"

definition actual_timespan :: "u32 \<Rightarrow> u32 \<Rightarrow> u64" where
  "actual_timespan parentTime startTime =
     (let signedSpan = int (unat parentTime) - int (unat startTime);
          actualTime = (if signedSpan > 0 then word_of_int signedSpan else 1);
          actualTime = (if actualTime < DESIRED_TIMESPAN div 2 then DESIRED_TIMESPAN div 2 else actualTime) in
      if actualTime > DESIRED_TIMESPAN * 2 then DESIRED_TIMESPAN * 2 else actualTime)"

definition next_target :: "ChainWork256 \<Rightarrow> u64 \<Rightarrow> ChainWork256" where
  "next_target parentTarget actualTime =
     (let scaled = (ucast parentTarget :: 512 word) * ucast actualTime div ucast DESIRED_TIMESPAN in
      if scaled > ucast truPowLimitTarget256 then truPowLimitTarget256 else ucast scaled)"

definition retarget_bits :: "ChainWork256 \<Rightarrow> u64 \<Rightarrow> string + u32" where
  "retarget_bits parentTarget actualTime =
     (let nextTarget = next_target parentTarget actualTime in
      if nextTarget = 0 then Inl ''retarget produced zero target''
      else
        let nextBits = target256ToCompact nextTarget in
        case compactToTarget256Strict nextBits of
          None \<Rightarrow> Inl ''retarget produced non-canonical/out-of-range compact bits''
        | Some roundTrip \<Rightarrow>
            if roundTrip > truPowLimitTarget256
            then Inl ''retarget produced non-canonical/out-of-range compact bits'' else Inr nextBits)"

definition calculateExpectedBits :: "block_index \<Rightarrow> u32 \<Rightarrow> string \<Rightarrow> int \<Rightarrow> string + u32" where
  "calculateExpectedBits index difficulty parent_hash candidateHeight =
     (if candidateHeight \<le> 1 then Inr difficulty
      else case index parent_hash of
        None \<Rightarrow> Inl (''candidate parent not indexed for difficulty: '' @ parent_hash)
      | Some parent \<Rightarrow>
          if entry_height parent \<noteq> candidateHeight - 1 \<or> block_height parent \<noteq> candidateHeight - 1
          then Inl ''candidate parent height mismatch for difficulty''
          else if entry_blockHash parent \<noteq> parent_hash
          then Inl (''candidate parent hash/index mismatch for difficulty: '' @ parent_hash)
          else case compactToTarget256Strict (bits (entry_header parent)) of
            None \<Rightarrow> Inl ''candidate parent has invalid/non-canonical difficulty bits''
          | Some parentTarget \<Rightarrow>
              if parentTarget > truPowLimitTarget256
              then Inl ''candidate parent has invalid/non-canonical difficulty bits''
              else if candidateHeight mod int DIFFICULTY_RETARGET_INTERVAL \<noteq> 0 \<or>
                      entry_height parent < int DIFFICULTY_RETARGET_INTERVAL
              then Inr (bits (entry_header parent))
              else case retarget_walk index (DIFFICULTY_RETARGET_INTERVAL - 1) parent of
                Inl e \<Rightarrow> Inl e
              | Inr startEntry \<Rightarrow>
                  retarget_bits parentTarget
                    (actual_timespan (hdr_timestamp (entry_header parent)) (hdr_timestamp (entry_header startEntry))))"

subsection \<open>Median time past\<close>

fun mtp_walk :: "block_index \<Rightarrow> nat \<Rightarrow> BlockIndexEntry \<Rightarrow> string + u32 list" where
  "mtp_walk index 0 current = Inr [hdr_timestamp (entry_header current)]"
| "mtp_walk index (Suc n) current =
     (if entry_height current \<le> 1 then Inl ''insufficient candidate ancestry for MTP window''
      else if parentHash current \<noteq> prevHash (entry_header current)
      then Inl ''blockIndex/header parent mismatch while walking MTP ancestry''
      else case index (prevHash (entry_header current)) of
        None \<Rightarrow> Inl ''missing candidate ancestor for MTP: ''
      | Some ancestor \<Rightarrow>
          if entry_height ancestor \<noteq> entry_height current - 1 \<or> block_height ancestor \<noteq> entry_height ancestor \<or>
             entry_blockHash ancestor \<noteq> prevHash (entry_header current)
          then Inl ''non-contiguous candidate ancestry while calculating MTP''
          else case mtp_walk index n ancestor of
            Inl e \<Rightarrow> Inl e
          | Inr ts \<Rightarrow> Inr (hdr_timestamp (entry_header current) # ts))"

definition getMedianTimePast :: "block_index \<Rightarrow> string \<Rightarrow> int \<Rightarrow> string + u32" where
  "getMedianTimePast index parent_hash candidateHeight =
     (if candidateHeight \<le> 1 then Inr 0
      else case index parent_hash of
        None \<Rightarrow> Inl (''candidate parent not indexed for MTP: '' @ parent_hash)
      | Some current \<Rightarrow>
          if entry_height current \<noteq> candidateHeight - 1 \<or> block_height current \<noteq> candidateHeight - 1 \<or>
             entry_blockHash current \<noteq> parent_hash
          then Inl ''candidate parent height/hash mismatch for MTP''
          else if entry_height current \<le> 11 then Inr 0
          else case mtp_walk index 10 current of
            Inl e \<Rightarrow> Inl e
          | Inr timestamps \<Rightarrow>
              if length timestamps \<noteq> 11 then Inl ''incomplete candidate MTP window''
              else Inr (sort timestamps ! (length timestamps div 2)))"

subsection \<open>The ancestors of an entry\<close>

text \<open>The first \<open>n + 1\<close> blocks of a chain, the youngest first, each linked to the next by hash and height.\<close>

fun ancestry :: "block_index \<Rightarrow> BlockIndexEntry list \<Rightarrow> bool" where
  "ancestry index [] \<longleftrightarrow> True"
| "ancestry index [e] \<longleftrightarrow> True"
| "ancestry index (e # a # es) \<longleftrightarrow>
     index (prevHash (entry_header e)) = Some a \<and> entry_blockHash a = prevHash (entry_header e) \<and>
     entry_height a = entry_height e - 1 \<and> block_height a = entry_height a \<and> ancestry index (a # es)"

lemma mtp_walk_Inr:
  assumes "mtp_walk index n current = Inr ts"
  shows "\<exists>es. ancestry index (current # es) \<and> length es = n \<and> ts = map (hdr_timestamp \<circ> entry_header) (current # es)"
  using assms
proof (induction n arbitrary: current ts)
  case (Suc n)
  obtain a rest where a: "index (prevHash (entry_header current)) = Some a" "entry_height a = entry_height current - 1"
    "block_height a = entry_height a" "entry_blockHash a = prevHash (entry_header current)" "mtp_walk index n a = Inr rest"
    "ts = hdr_timestamp (entry_header current) # rest"
    using Suc.prems by (auto split: if_splits option.splits sum.splits)
  obtain es where es: "ancestry index (a # es)" "length es = n" "rest = map (hdr_timestamp \<circ> entry_header) (a # es)"
    using Suc.IH [OF a(5)] by blast
  show ?case by (rule exI [of _ "a # es"]) (use a es in simp)
qed auto

lemma retarget_walk_Inr:
  assumes "retarget_walk index n e = Inr s"
  shows "\<exists>es. ancestry index (e # es) \<and> length es = n \<and> s = last (e # es)"
  using assms
proof (induction n arbitrary: e)
  case (Suc n)
  obtain a where a: "index (prevHash (entry_header e)) = Some a" "entry_height a = entry_height e - 1"
    "block_height a = entry_height a" "entry_blockHash a = prevHash (entry_header e)" "retarget_walk index n a = Inr s"
    using Suc.prems by (auto split: if_splits option.splits)
  obtain es where es: "ancestry index (a # es)" "length es = n" "s = last (a # es)" using Suc.IH [OF a(5)] by blast
  show ?case by (rule exI [of _ "a # es"]) (use a es in simp)
qed auto

subsection \<open>The retarget\<close>

lemma timespan_value: "unat DESIRED_TIMESPAN = 3600" "unat (DESIRED_TIMESPAN div 2) = 1800" "unat (DESIRED_TIMESPAN * 2) = 7200"
  by (simp_all add: DESIRED_TIMESPAN_def DIFFICULTY_RETARGET_INTERVAL_def DIFFICULTY_TARGET_SPACING_def unat_div)

lemma actual_timespan_range: "1800 \<le> unat (actual_timespan a b)" "unat (actual_timespan a b) \<le> 7200"
  by (auto simp: actual_timespan_def Let_def word_less_nat_alt timespan_value)

lemma next_target_nat:
  assumes "unat t \<le> 65535 * 2 ^ 216" "unat a \<le> 7200"
  shows "unat (next_target t a) = min (unat t * unat a div 3600) (65535 * 2 ^ 216)"
proof -
  let ?s = "(ucast t :: 512 word) * ucast a div ucast DESIRED_TIMESPAN"
  have t: "unat (ucast t :: 512 word) = unat t" and a: "unat (ucast a :: 512 word) = unat a"
    and d: "unat (ucast DESIRED_TIMESPAN :: 512 word) = 3600"
    and l: "unat (ucast truPowLimitTarget256 :: 512 word) = 65535 * 2 ^ 216"
    using assms unfolding unsigned_ucast_eq by (simp_all add: take_bit_nat_eq_self timespan_value pow_limit(2))
  have prod: "unat t * unat a \<le> 65535 * 2 ^ 216 * 7200" using assms by (rule mult_le_mono)
  also have "\<dots> < 2 ^ 512" by simp
  finally have "unat ((ucast t :: 512 word) * ucast a) = unat t * unat a"
    using unat_mult_lem [of "ucast t :: 512 word" "ucast a"] t a by simp
  then have s: "unat ?s = unat t * unat a div 3600" by (simp only: unat_div d)
  show ?thesis
  proof (cases "?s > ucast truPowLimitTarget256")
    case True
    then show ?thesis unfolding next_target_def Let_def if_P [OF True] using s l by (simp add: word_less_nat_alt pow_limit(2))
  next
    case False
    then have "unat t * unat a div 3600 \<le> 65535 * 2 ^ 216" using s l by (simp add: word_less_nat_alt)
    moreover from this have "unat (ucast ?s :: ChainWork256) = unat t * unat a div 3600"
      unfolding unsigned_ucast_eq s by (simp add: take_bit_nat_eq_self)
    ultimately show ?thesis unfolding next_target_def Let_def if_not_P [OF False] by simp
  qed
qed

lemma retarget_bits_exact:
  assumes "unat t \<le> 65535 * 2 ^ 216" "unat a \<le> 7200" "1800 \<le> unat a"
  shows "retarget_bits t a = Inr b \<longleftrightarrow> next_target t a \<noteq> 0 \<and> b = target256ToCompact (next_target t a)"
    "2 \<le> unat t \<Longrightarrow> next_target t a \<noteq> 0"
    "retarget_bits t a = Inr b \<Longrightarrow> \<exists>t'. compactToTarget256Strict b = Some t' \<and> unat t' \<le> 65535 * 2 ^ 216 \<and> unat t' \<le> 2 * unat t \<and>
       (unat t div 2 - unat t') * 2 ^ 15 \<le> unat t div 2"
proof -
  let ?n = "next_target t a"
  note v = next_target_nat [OF assms(1,2)]
  have lo: "unat t div 2 \<le> unat t * unat a div 3600"
  proof -
    have "unat t * 1800 div 3600 \<le> unat t * unat a div 3600" using assms(3) by (intro div_le_mono mult_le_mono2)
    then show ?thesis by simp
  qed
  have hi: "unat t * unat a div 3600 \<le> 2 * unat t"
  proof -
    have "unat t * unat a div 3600 \<le> unat t * 7200 div 3600" using assms(2) by (intro div_le_mono mult_le_mono2)
    then show ?thesis by simp
  qed
  have half: "unat t div 2 \<le> unat ?n" "unat ?n \<le> 2 * unat t" "unat ?n \<le> 65535 * 2 ^ 216" using lo hi assms(1) unfolding v by simp_all
  have trip: "\<exists>t'. compactToTarget256Strict (target256ToCompact ?n) = Some t' \<and> \<not> t' > truPowLimitTarget256 \<and> unat t' \<le> unat ?n \<and>
    (unat ?n - unat t') * 2 ^ 15 < unat ?n" if nz: "?n \<noteq> 0"
  proof -
    obtain t' where t': "compactToTarget256Strict (target256ToCompact ?n) = Some t'" "t' \<le> ?n" "(unat ?n - unat t') * 2 ^ 15 < unat ?n"
      using nz by (rule compact_canonical)
    then have "unat t' \<le> unat ?n" by (simp add: word_le_nat_alt)
    moreover from this have "\<not> t' > truPowLimitTarget256" using half(3) by (simp add: word_less_nat_alt pow_limit(2))
    ultimately show ?thesis using t' by blast
  qed
  show ex: "retarget_bits t a = Inr b \<longleftrightarrow> ?n \<noteq> 0 \<and> b = target256ToCompact ?n"
    using trip by (cases "?n = 0") (auto simp: retarget_bits_def Let_def)
  show "2 \<le> unat t \<Longrightarrow> ?n \<noteq> 0"
    using half(1) by (metis div_greater_zero_iff le_zero_eq not_gr_zero unsigned_0 zero_less_numeral)
  show "\<exists>t'. compactToTarget256Strict b = Some t' \<and> unat t' \<le> 65535 * 2 ^ 216 \<and> unat t' \<le> 2 * unat t \<and>
       (unat t div 2 - unat t') * 2 ^ 15 \<le> unat t div 2" if r: "retarget_bits t a = Inr b"
  proof -
    have n: "?n \<noteq> 0" "b = target256ToCompact ?n" using r ex by blast+
    obtain t' where t': "compactToTarget256Strict b = Some t'" "unat t' \<le> unat ?n" "(unat ?n - unat t') * 2 ^ 15 < unat ?n"
      using trip [OF n(1)] n(2) by blast
    have "(unat t div 2 - unat t') * 2 ^ 15 \<le> unat t div 2" using t'(3) half(1) unfolding power2_thresholds by linarith
    then show ?thesis using t' half by (intro exI [of _ t']) simp
  qed
qed

subsection \<open>Medians\<close>

lemma sorted_median:
  fixes ts :: "'a::linorder list"
  assumes "length ts = 11"
  shows "sort ts ! 5 \<in> set ts" "6 \<le> length (filter (\<lambda>x. x \<le> sort ts ! 5) ts)" "6 \<le> length (filter (\<lambda>x. sort ts ! 5 \<le> x) ts)"
proof -
  let ?s = "sort ts"
  have l: "length ?s = 11" using assms by simp
  have "5 < length ?s" unfolding l by simp
  then have "?s ! 5 \<in> set ?s" by (rule nth_mem)
  then show "?s ! 5 \<in> set ts" by simp
  have cnt: "length (filter P ts) = length (filter P ?s)" for P :: "'a \<Rightarrow> bool"
    by (metis mset_filter mset_sort size_mset)
  have part: "length (filter P xs) \<le> length (filter P ?s)" if "?s = as @ xs @ bs" for P :: "'a \<Rightarrow> bool" and as xs bs
    using that by simp
  have all: "length (filter P xs) = length xs" if "\<forall>x\<in>set xs. P x" for P :: "'a \<Rightarrow> bool" and xs using that by simp
  have srt: "sorted ?s" by simp
  have "\<forall>x\<in>set (take 6 ?s). x \<le> ?s ! 5"
  proof
    fix x assume "x \<in> set (take 6 ?s)"
    then obtain i where "i < 6" "x = ?s ! i" by (auto simp: in_set_conv_nth)
    then show "x \<le> ?s ! 5" using sorted_nth_mono [OF srt, of i 5] l by simp
  qed
  then have "length (filter (\<lambda>x. x \<le> ?s ! 5) (take 6 ?s)) = 6" using all [of "take 6 ?s" "\<lambda>x. x \<le> ?s ! 5"] l by simp
  then show "6 \<le> length (filter (\<lambda>x. x \<le> ?s ! 5) ts)"
    unfolding cnt using part [of "[]" "take 6 ?s" "drop 6 ?s" "\<lambda>x. x \<le> ?s ! 5"] by simp
  have "\<forall>x\<in>set (drop 5 ?s). ?s ! 5 \<le> x"
  proof
    fix x assume "x \<in> set (drop 5 ?s)"
    then obtain i where "i < 6" "x = ?s ! (5 + i)" using l by (auto simp: in_set_conv_nth)
    then show "?s ! 5 \<le> x" using sorted_nth_mono [OF srt, of 5 "5 + i"] l by simp
  qed
  then have "length (filter (\<lambda>x. ?s ! 5 \<le> x) (drop 5 ?s)) = 6" using all [of "drop 5 ?s" "\<lambda>x. ?s ! 5 \<le> x"] l by simp
  then show "6 \<le> length (filter (\<lambda>x. ?s ! 5 \<le> x) ts)"
    unfolding cnt using part [of "take 5 ?s" "drop 5 ?s" "[]" "\<lambda>x. ?s ! 5 \<le> x"] by simp
qed

subsection \<open>Properties\<close>

text \<open>
  C38: the retarget is bounded. The expected bits of a block after the first decode to a target within
  the limit; it is at most twice the target of the parent and, up to the rounding of the compact form,
  at least half of it, and outside retarget heights the bits of the parent. From a parent target of two
  or more the computation never fails, so the errors for a zero or non-canonical result cannot occur.
\<close>

theorem retarget_bounded:
  assumes "calculateExpectedBits index difficulty ph h = Inr b" "1 < h"
  shows "\<exists>parent t t'. index ph = Some parent \<and> compactToTarget256Strict (bits (entry_header parent)) = Some t \<and>
    compactToTarget256Strict b = Some t' \<and> unat t' \<le> 65535 * 2 ^ 216 \<and> unat t' \<le> 2 * unat t \<and>
    (unat t div 2 - unat t') * 2 ^ 15 \<le> unat t div 2 \<and>
    (h mod 60 \<noteq> 0 \<or> h \<le> 60 \<longrightarrow> b = bits (entry_header parent)) \<and>
    (2 \<le> unat t \<longrightarrow> (\<forall>x y. \<exists>b'. retarget_bits t (actual_timespan x y) = Inr b'))"
proof -
  obtain parent t where p: "index ph = Some parent" "entry_height parent = h - 1"
    "compactToTarget256Strict (bits (entry_header parent)) = Some t" "\<not> t > truPowLimitTarget256"
    using assms by (auto simp: calculateExpectedBits_def split: option.splits if_splits)
  have t: "unat t \<le> 65535 * 2 ^ 216" using p(4) by (simp add: word_less_nat_alt pow_limit(2))
  note r = retarget_bits_exact [OF t actual_timespan_range(2,1)]
  have total: "\<exists>b'. retarget_bits t (actual_timespan x y) = Inr b'" if "2 \<le> unat t" for x y
    using r(1,2) that by blast
  have I: "int DIFFICULTY_RETARGET_INTERVAL = 60" by (simp add: DIFFICULTY_RETARGET_INTERVAL_def)
  show ?thesis
  proof (cases "h mod 60 \<noteq> 0 \<or> h \<le> 60")
    case True
    then have "b = bits (entry_header parent)"
      using assms p by (auto simp: calculateExpectedBits_def I split: option.splits if_splits)
    then show ?thesis using p t total by (intro exI [of _ parent] exI [of _ t] conjI) simp_all
  next
    case False
    obtain x y where "retarget_bits t (actual_timespan x y) = Inr b"
      using assms p False by (auto simp: calculateExpectedBits_def I split: option.splits if_splits sum.splits)
    from r(3) [OF this] obtain t' where "compactToTarget256Strict b = Some t'" "unat t' \<le> 65535 * 2 ^ 216"
      "unat t' \<le> 2 * unat t" "(unat t div 2 - unat t') * 2 ^ 15 \<le> unat t div 2" by blast
    then show ?thesis using p False total by (intro exI [of _ parent] exI [of _ t] exI [of _ t'] conjI) simp_all
  qed
qed

text \<open>
  The median time past of a candidate above height 12 is the median of the timestamps of its eleven
  youngest ancestors, which are linked to one another by hash and height: six of them are not later and
  six not earlier.
\<close>

theorem median_time_past_exact:
  assumes "getMedianTimePast index ph h = Inr m" "12 < h"
  shows "\<exists>es. length es = 11 \<and> index ph = Some (hd es) \<and> entry_height (hd es) = h - 1 \<and> ancestry index es \<and>
    m \<in> set (map (hdr_timestamp \<circ> entry_header) es) \<and>
    6 \<le> length (filter (\<lambda>e. hdr_timestamp (entry_header e) \<le> m) es) \<and>
    6 \<le> length (filter (\<lambda>e. m \<le> hdr_timestamp (entry_header e)) es)"
proof -
  obtain e ts where e: "index ph = Some e" "entry_height e = h - 1" "mtp_walk index 10 e = Inr ts" "length ts = 11"
    "m = sort ts ! (length ts div 2)"
    using assms by (auto simp: getMedianTimePast_def split: option.splits if_splits sum.splits)
  obtain es where es: "ancestry index (e # es)" "length es = 10" "ts = map (hdr_timestamp \<circ> entry_header) (e # es)"
    using mtp_walk_Inr [OF e(3)] by blast
  have m: "m = sort ts ! 5" using e(4,5) by simp
  note s = sorted_median [OF e(4), folded m]
  show ?thesis
  proof (intro exI [of _ "e # es"] conjI)
    show "m \<in> set (map (hdr_timestamp \<circ> entry_header) (e # es))" using s(1) by (simp only: es(3))
    show "6 \<le> length (filter (\<lambda>e. hdr_timestamp (entry_header e) \<le> m) (e # es))"
      using s(2) unfolding es(3) filter_map length_map comp_def .
    show "6 \<le> length (filter (\<lambda>e. m \<le> hdr_timestamp (entry_header e)) (e # es))"
      using s(3) unfolding es(3) filter_map length_map comp_def .
  qed (use e es in simp_all)
qed

subsection \<open>A sample chain\<close>

definition sample_entry :: "nat \<Rightarrow> BlockIndexEntry" where
  "sample_entry i =
     \<lparr>entry_header = \<lparr>hdr_version = 1, prevHash = dec_string (i - 1), merkleRoot = [], hdr_timestamp = word_of_nat (100 * i),
        bits = TRU_POW_LIMIT_BITS, nonce = 0\<rparr>,
      entry_blockHash = dec_string i, block_height = int i, entry_height = int i, parentHash = dec_string (i - 1)\<rparr>"

definition sample_index :: "nat \<Rightarrow> block_index" where
  "sample_index n = map_of (map (\<lambda>i. (dec_string i, sample_entry i)) [1..<Suc n])"

lemma sample_lookup: "1 \<le> i \<Longrightarrow> i \<le> n \<Longrightarrow> sample_index n (dec_string i) = Some (sample_entry i)"
proof -
  assume i: "1 \<le> i" "i \<le> n"
  let ?xs = "map (\<lambda>i. (dec_string i, sample_entry i)) [1..<Suc n]"
  have "map fst ?xs = map dec_string [1..<Suc n]" by (simp add: comp_def)
  then have "distinct (map fst ?xs)" by (simp only: distinct_map) (simp add: inj_on_def)
  moreover have "i \<in> set [1..<Suc n]" using i by (simp del: upt_Suc)
  then have "(dec_string i, sample_entry i) \<in> set ?xs" unfolding set_map by (rule image_eqI [rotated]) (rule refl)
  ultimately show ?thesis unfolding sample_index_def by (rule map_of_is_SomeI)
qed

lemma sample_walk:
  "k < i \<Longrightarrow> i \<le> n \<Longrightarrow> retarget_walk (sample_index n) k (sample_entry i) = Inr (sample_entry (i - k))"
proof (induction k arbitrary: i)
  case (Suc k)
  then have "sample_index n (dec_string (i - 1)) = Some (sample_entry (i - 1))" by (intro sample_lookup) simp_all
  moreover have "retarget_walk (sample_index n) k (sample_entry (i - 1)) = Inr (sample_entry (i - 1 - k))"
    using Suc.prems by (intro Suc.IH) simp_all
  moreover have "prevHash (entry_header (sample_entry i)) = dec_string (i - 1)" "entry_height (sample_entry i) = int i"
    "entry_height (sample_entry (i - 1)) = int (i - 1)" "block_height (sample_entry (i - 1)) = int (i - 1)"
    "entry_blockHash (sample_entry (i - 1)) = dec_string (i - 1)"
    by (simp_all add: sample_entry_def)
  ultimately show ?case using Suc.prems by simp
qed simp

lemma sample_mtp:
  "k < i \<Longrightarrow> i \<le> n \<Longrightarrow> \<exists>ts. mtp_walk (sample_index n) k (sample_entry i) = Inr ts \<and> length ts = Suc k"
proof (induction k arbitrary: i)
  case (Suc k)
  have l: "sample_index n (dec_string (i - 1)) = Some (sample_entry (i - 1))" using Suc.prems by (intro sample_lookup) simp_all
  obtain ts where "mtp_walk (sample_index n) k (sample_entry (i - 1)) = Inr ts" "length ts = Suc k"
    using Suc.IH [of "i - 1"] Suc.prems by (metis Suc_less_eq2 diff_Suc_1 diff_le_self le_trans)
  moreover have "prevHash (entry_header (sample_entry i)) = dec_string (i - 1)" "entry_height (sample_entry i) = int i"
    "entry_height (sample_entry (i - 1)) = int (i - 1)" "block_height (sample_entry (i - 1)) = int (i - 1)"
    "entry_blockHash (sample_entry (i - 1)) = dec_string (i - 1)" "parentHash (sample_entry i) = dec_string (i - 1)"
    by (simp_all add: sample_entry_def)
  ultimately show ?case using Suc.prems l by simp
qed simp

theorem retarget_bounded_witness:
  "\<exists>b t'. calculateExpectedBits (sample_index 119) 0 (dec_string 119) 120 = Inr b \<and>
     compactToTarget256Strict b = Some t' \<and> unat t' \<le> 65535 * 2 ^ 216"
proof -
  have l: "sample_index 119 (dec_string 119) = Some (sample_entry 119)" by (rule sample_lookup) simp_all
  let ?t = "word_of_nat (65535 * 2 ^ 216) :: ChainWork256"
  have u: "truPowLimitTarget256 = ?t" unfolding truPowLimitTarget256_def pow_limit(1) by simp
  have un: "unat ?t = 65535 * 2 ^ 216" using pow_limit(2) unfolding u .
  let ?a = "actual_timespan (hdr_timestamp (entry_header (sample_entry 119))) (hdr_timestamp (entry_header (sample_entry 60)))"
  have le: "unat ?t \<le> 65535 * 2 ^ 216" using un by simp
  have "next_target ?t ?a \<noteq> 0"
    by (rule retarget_bits_exact(2) [OF le actual_timespan_range(2,1)]) (simp only: un, simp)
  then obtain b where "retarget_bits ?t ?a = Inr b"
    using retarget_bits_exact(1) [OF le actual_timespan_range(2,1)] by blast
  then have b: "calculateExpectedBits (sample_index 119) 0 (dec_string 119) 120 = Inr b"
    using sample_walk [of 59 119 119]
    by (simp add: calculateExpectedBits_def l DIFFICULTY_RETARGET_INTERVAL_def pow_limit(1) u sample_entry_def [of 119])
  then show ?thesis using retarget_bounded [OF b] by auto
qed

theorem median_time_past_exact_witness:
  "\<exists>m es. getMedianTimePast (sample_index 15) (dec_string 15) 16 = Inr m \<and> length es = 11 \<and> ancestry (sample_index 15) es"
proof -
  have l: "sample_index 15 (dec_string 15) = Some (sample_entry 15)" by (rule sample_lookup) simp_all
  obtain ts where "mtp_walk (sample_index 15) 10 (sample_entry 15) = Inr ts" "length ts = Suc 10"
    using sample_mtp [of 10 15 15] by auto
  then obtain m where m: "getMedianTimePast (sample_index 15) (dec_string 15) 16 = Inr m"
    by (simp add: getMedianTimePast_def l) (simp add: sample_entry_def)
  then show ?thesis using median_time_past_exact [OF m] by auto
qed

end
