(* ===== verification/Block_Text.thy ===== *)
theory Block_Text
  imports Chain_Rules
begin

text \<open>
  Blocks (\<open>src/src/block.h\<close>) and the text form in which blocks and transactions are stored and sent:
  \<open>serialize\<close> and \<open>deserialize\<close> of \<open>src/src/tx.cpp\<close> and \<open>src/src/block.cpp\<close>. The JSON library is the record
  \<open>json\<close>, its constructors, tests, printer and parser. An exception is \<open>None\<close>. Positions and lengths are
  64 bits wide and wrap. The height of a block is the integer its 32 bits stand for, the time of the parent
  (\<open>previousBlockTime\<close>) is left out.
\<close>

record 'j json =
  json_object :: "(string \<times> 'j) list \<Rightarrow> 'j"
  json_array :: "'j list \<Rightarrow> 'j"
  json_str :: "string \<Rightarrow> 'j"
  json_items :: "'j \<Rightarrow> (string \<times> 'j) list option"
  json_elems :: "'j \<Rightarrow> 'j list option"
  json_string :: "'j \<Rightarrow> string option"
  json_number :: "'j \<Rightarrow> u64 option"
  json_dump :: "'j \<Rightarrow> string"
  json_parse :: "string \<Rightarrow> 'j option"

definition json_dump_map :: "'j json \<Rightarrow> (string \<times> 'j) list \<Rightarrow> string" where
  "json_dump_map J m = json_dump J (json_object J m)"

definition json_is_object :: "'j json \<Rightarrow> 'j \<Rightarrow> bool" where
  "json_is_object J v \<longleftrightarrow> json_items J v \<noteq> None"

record 'j Block =
  blk_header :: BlockHeader
  blk_hash :: string
  blk_chainWork :: u64
  blk_parentHash :: string
  blk_height :: int
  transactions :: "'j Transaction list"
  blk_metadata :: "(string \<times> 'j) list"

subsection \<open>Numbers\<close>

definition dec_int :: "int \<Rightarrow> string" where
  "dec_int i = (if i < 0 then CHR ''-'' # dec_string (nat (- i)) else dec_string (nat i))"

text \<open>\<open>std::stoll\<close> and \<open>std::stoi\<close> in base ten.\<close>

definition stoll :: "string \<Rightarrow> int option" where
  "stoll s =
     (let t = dropWhile is_cspace s;
          neg = (t \<noteq> [] \<and> hd t = CHR ''-'');
          u = (if t \<noteq> [] \<and> (hd t = CHR ''-'' \<or> hd t = CHR ''+'') then tl t else t);
          ds = takeWhile is_digit u;
          v = (if neg then - int (dec_value ds) else int (dec_value ds)) in
      if ds = [] \<or> v < - (2 ^ 63) \<or> v > 2 ^ 63 - 1 then None else Some v)"

definition stoi :: "string \<Rightarrow> int option" where
  "stoi s =
     (case stoll s of
        None \<Rightarrow> None | Some v \<Rightarrow> if v < - (2 ^ 31) \<or> v > 2 ^ 31 - 1 then None else Some v)"

subsection \<open>Writing a transaction\<close>

fun join_bar :: "string list \<Rightarrow> string" where
  "join_bar [] = []"
| "join_bar [f] = f"
| "join_bar (f # fs) = f @ CHR ''|'' # join_bar fs"

definition input_fields :: "bool \<Rightarrow> TxIn \<Rightarrow> string list" where
  "input_fields null_txid i =
     [if null_txid then replicate 64 (CHR ''0'') else prev_txid i, dec_int (sint (prev_vout i)),
      hexEncode (scriptSig i), hexEncode (pubKey i), dec_string (unat (sequence i))]"

definition output_fields :: "TxOut \<Rightarrow> string list" where
  "output_fields u = [dec_string (unat (amount u)), scriptPubKey u]"

definition all_input_fields :: "'j Transaction \<Rightarrow> string list" where
  "all_input_fields tx =
     (case vin tx of
        [] \<Rightarrow> []
      | i # rest \<Rightarrow> input_fields (isCoinbase tx) i @ concat (map (input_fields False) rest))"

definition core_field :: "'j Transaction \<Rightarrow> string list" where
  "core_field tx =
     (if version tx \<noteq> 1 \<or> Transaction.lockTime tx \<noteq> 0
      then [''TXCORE:'' @ dec_int (sint (version tx)) @ CHR '':'' # dec_string (unat (Transaction.lockTime tx))] else [])"

definition metadata_trailer :: "string \<Rightarrow> string" where
  "metadata_trailer s = ''|METADATA:'' @ dec_string (length s) @ CHR '':'' # s"

definition tx_fields :: "'j Transaction \<Rightarrow> string list" where
  "tx_fields tx =
     [txid tx, if isCoinbase tx then ''1'' else ''0'', dec_string (length (vin tx)), dec_string (length (vout tx))] @
     all_input_fields tx @ concat (map output_fields (vout tx)) @ core_field tx"

definition tx_serialize :: "'j json \<Rightarrow> 'j Transaction \<Rightarrow> string" where
  "tx_serialize J tx =
     join_bar (tx_fields tx) @
     (if tokenMetadata tx \<noteq> [] then metadata_trailer (json_dump_map J (tokenMetadata tx)) else [])"

subsection \<open>Reading a transaction\<close>

definition before_colon :: "string \<Rightarrow> string" where
  "before_colon s = takeWhile (\<lambda>c. c \<noteq> CHR '':'') s"

definition from_colon :: "string \<Rightarrow> string" where
  "from_colon s = dropWhile (\<lambda>c. c \<noteq> CHR '':'') s"

text \<open>The metadata of a framed text and what stands before it.\<close>

definition framed_metadata :: "'j json \<Rightarrow> string \<Rightarrow> ((string \<times> 'j) list \<times> string) option" where
  "framed_metadata J txt =
     (case find_sub ''|METADATA:'' txt of
        None \<Rightarrow> Some ([], txt)
      | Some m \<Rightarrow>
          let r = drop (m + 10) txt; len = before_colon r; body = tl (from_colon r) in
          if from_colon r = [] then None
          else if len = [] \<or> \<not> list_all is_digit len then None
          else case stoull len of
            None \<Rightarrow> None
          | Some n \<Rightarrow>
              if unat n \<noteq> length body then None
              else case json_parse J body of
                None \<Rightarrow> None
              | Some v \<Rightarrow> map_option (\<lambda>ms. (ms, take m txt)) (json_items J v))"

definition split_metadata :: "string list \<Rightarrow> string list" where
  "split_metadata parts =
     (if parts = [] then []
      else case find_sub ''METADATA:'' (last parts) of
        None \<Rightarrow> parts
      | Some p \<Rightarrow> if p = 0 then parts else butlast parts @ [take p (last parts), drop p (last parts)])"

definition read_hex_field :: "string \<Rightarrow> bytes option" where
  "read_hex_field s = (if s = [] then Some [] else hexDecode s)"

fun text_inputs :: "nat \<Rightarrow> string list \<Rightarrow> (TxIn list \<times> string list) option" where
  "text_inputs 0 parts = Some ([], parts)"
| "text_inputs (Suc n) (t # v # s # p # q # rest) =
     do { vo \<leftarrow> stoull v;
          sg \<leftarrow> read_hex_field s;
          pk \<leftarrow> read_hex_field p;
          sq \<leftarrow> stoull q;
          (inputs, r) \<leftarrow> text_inputs n rest;
          Some (\<lparr>prev_txid = t, prev_vout = ucast vo, scriptSig = sg, pubKey = pk, in_scriptPubKey = [],
                 sequence = ucast sq\<rparr> # inputs, r) }"
| "text_inputs (Suc n) _ = None"

fun text_outputs :: "nat \<Rightarrow> string list \<Rightarrow> (TxOut list \<times> string list) option" where
  "text_outputs 0 parts = Some ([], parts)"
| "text_outputs (Suc n) (a # s # rest) =
     do { am \<leftarrow> stoull a;
          (us, r) \<leftarrow> text_outputs n rest;
          Some (\<lparr>amount = am, scriptPubKey = s\<rparr> # us, r) }"
| "text_outputs (Suc n) _ = None"

definition text_core :: "string \<Rightarrow> 'j Transaction \<Rightarrow> 'j Transaction option" where
  "text_core e tx =
     (let r = drop 7 e in
      if length (from_colon r) \<le> 1 then None
      else do { v \<leftarrow> stoll (before_colon r);
                l \<leftarrow> stoull (tl (from_colon r));
                if v < - 2147483648 \<or> v > 2147483647 \<or> l > 0xffffffff then None
                else Some (tx\<lparr>version := word_of_int v, Transaction.lockTime := ucast l\<rparr>) })"

definition text_metadata :: "'j json \<Rightarrow> string \<Rightarrow> 'j Transaction \<Rightarrow> 'j Transaction option" where
  "text_metadata J e tx =
     (let r = drop 9 e; dataStart = 9 + length (before_colon r) + 1 in
      if from_colon r = [] then Some tx
      else case stoull (before_colon r) of
        None \<Rightarrow> None
      | Some n \<Rightarrow>
          if unat (word_of_nat dataStart + n :: u64) \<le> length e then
            (case json_parse J (take (unat n) (drop dataStart e)) of
               None \<Rightarrow> Some tx
             | Some v \<Rightarrow>
                 (case json_items J v of None \<Rightarrow> Some tx | Some ms \<Rightarrow> Some (tx\<lparr>tokenMetadata := ms\<rparr>)))
          else Some tx)"

fun text_extras :: "'j json \<Rightarrow> string list \<Rightarrow> 'j Transaction \<Rightarrow> 'j Transaction option" where
  "text_extras J [] tx = Some tx"
| "text_extras J (e # es) tx =
     (case (if prefix ''TXCORE:'' e then text_core e tx
            else if prefix ''METADATA:'' e then text_metadata J e tx else Some tx) of
        None \<Rightarrow> None | Some tx' \<Rightarrow> text_extras J es tx')"

definition tx_deserialize :: "'j json \<Rightarrow> bool \<Rightarrow> string \<Rightarrow> 'j Transaction option" where
  "tx_deserialize J framed txt =
     (if txt = [] then None
      else case (if framed then framed_metadata J txt else Some ([], txt)) of
        None \<Rightarrow> None
      | Some (ms, fieldData) \<Rightarrow>
          (case split_metadata (bar_parts fieldData) of
             t # c # ni # no # rest \<Rightarrow>
               do { vi \<leftarrow> stoull ni;
                    vo \<leftarrow> stoull no;
                    (inputs, r1) \<leftarrow> text_inputs (unat vi) rest;
                    (us, r2) \<leftarrow> text_outputs (unat vo) r1;
                    text_extras J r2
                      \<lparr>isCoinbase = (c = ''1''), txid = t, sender = [], vin = inputs, vout = us, version = 1,
                       lockTime = 0, tokenMetadata = ms\<rparr> }
           | _ \<Rightarrow> None))"

subsection \<open>Writing a block\<close>

definition header_serialize :: "BlockHeader \<Rightarrow> string list" where
  "header_serialize h =
     [dec_int (sint (hdr_version h)), prevHash h, merkleRoot h, dec_string (unat (hdr_timestamp h)),
      dec_string (unat (bits h)), dec_string (unat (nonce h))]"

definition serializeMetadata :: "'j json \<Rightarrow> (string \<times> 'j) list \<Rightarrow> string" where
  "serializeMetadata J m =
     (if m = [] then []
      else json_dump J (json_array J (map (\<lambda>(t, v). json_object J [(''txid'', json_str J t), (''data'', v)]) m)))"

definition tx_frame :: "string \<Rightarrow> string" where
  "tx_frame s = CHR ''|'' # dec_string (length s) @ CHR '':'' # s"

definition block_fields :: "'j Block \<Rightarrow> string list" where
  "block_fields b =
     header_serialize (blk_header b) @
     [blk_hash b, dec_string (unat (blk_chainWork b)), blk_parentHash b, dec_int (blk_height b),
      dec_string (length (transactions b))]"

definition block_serialize :: "'j json \<Rightarrow> 'j Block \<Rightarrow> string" where
  "block_serialize J b =
     join_bar (block_fields b) @ concat (map (\<lambda>tx. tx_frame (tx_serialize J tx)) (transactions b)) @
     metadata_trailer (serializeMetadata J (blk_metadata b))"

subsection \<open>Reading a block\<close>

text \<open>The fields in front of the first \<open>n\<close> bars, and the rest.\<close>

fun cut_bars :: "nat \<Rightarrow> string \<Rightarrow> string list \<times> string" where
  "cut_bars 0 s = ([], s)"
| "cut_bars (Suc n) s =
     (if CHR ''|'' \<in> set s then
        (let (fs, r) = cut_bars n (tl (dropWhile (\<lambda>c. c \<noteq> CHR ''|'') s)) in
         (takeWhile (\<lambda>c. c \<noteq> CHR ''|'') s # fs, r))
      else ([], s))"

fun text_txs :: "'j json \<Rightarrow> bool \<Rightarrow> string \<Rightarrow> nat \<Rightarrow> nat \<Rightarrow> ('j Transaction list \<times> nat) option" where
  "text_txs J framed txt 0 cur = Some ([], cur)"
| "text_txs J framed txt (Suc n) cur =
     (let r = drop cur txt; lengthStr = before_colon r; colon = cur + length lengthStr in
      if from_colon r = [] then Some ([], cur)
      else case stoull lengthStr of
        None \<Rightarrow> None
      | Some txLength \<Rightarrow>
          let stop = unat (word_of_nat (colon + 1) + txLength :: u64) in
          if stop > length txt then Some ([], cur)
          else case tx_deserialize J framed (take (unat txLength) (drop (colon + 1) txt)) of
            None \<Rightarrow> None
          | Some tx \<Rightarrow>
              (case text_txs J framed txt n (if stop < length txt \<and> txt ! stop = CHR ''|'' then stop + 1 else stop) of
                 None \<Rightarrow> None | Some (txs, c) \<Rightarrow> Some (tx # txs, c)))"

fun read_entries :: "'j json \<Rightarrow> 'j list \<Rightarrow> (string \<times> 'j) list \<Rightarrow> (string \<times> 'j) list" where
  "read_entries J [] m = m"
| "read_entries J (e # es) m =
     (case json_items J e of
        None \<Rightarrow> read_entries J es m
      | Some it \<Rightarrow>
          (case (map_of it ''txid'', map_of it ''data'') of
             (Some t, Some v) \<Rightarrow>
               (case json_string J t of None \<Rightarrow> m | Some s \<Rightarrow> read_entries J es (AList.update s v m))
           | _ \<Rightarrow> read_entries J es m))"

definition deserializeMetadata :: "'j json \<Rightarrow> string \<Rightarrow> (string \<times> 'j) list" where
  "deserializeMetadata J s =
     (if s = [] then []
      else case json_parse J s of
        None \<Rightarrow> []
      | Some v \<Rightarrow> (case json_elems J v of None \<Rightarrow> [] | Some es \<Rightarrow> read_entries J es []))"

text \<open>The metadata behind a position; a length that cannot be read is an exception.\<close>

definition text_block_metadata :: "'j json \<Rightarrow> string \<Rightarrow> nat \<Rightarrow> (string \<times> 'j) list option" where
  "text_block_metadata J txt start =
     (case find_sub ''|METADATA:'' (drop start txt) of
        None \<Rightarrow> Some []
      | Some m \<Rightarrow>
          let r = drop (start + m + 10) txt; colon = start + m + 10 + length (before_colon r) in
          if from_colon r = [] then Some []
          else case stoull (before_colon r) of
            None \<Rightarrow> None
          | Some n \<Rightarrow>
              if unat (word_of_nat (colon + 1) + n :: u64) \<le> length txt
              then Some (deserializeMetadata J (take (unat n) (drop (colon + 1) txt))) else Some [])"

text \<open>The number of transactions and the position of the first.\<close>

definition text_tx_count :: "string \<Rightarrow> string list \<Rightarrow> string \<Rightarrow> (u64 \<times> nat) option" where
  "text_tx_count txt fs rest =
     (if length fs > 10 then map_option (\<lambda>n. (n, length txt - length rest)) (stoull (fs ! 10))
      else if from_colon rest \<noteq> []
      then map_option (\<lambda>n. (n, length txt - length rest + length (before_colon rest) + 1)) (stoull (before_colon rest))
      else map_option (\<lambda>n. (n, 0)) (stoull rest))"

definition block_deserialize :: "'j json \<Rightarrow> string \<Rightarrow> 'j Block option" where
  "block_deserialize J txt =
     (if txt = [] then None
      else let (fs, rest) = cut_bars 11 txt in
        if length fs < 10 then None
        else do {
          ver \<leftarrow> stoi (fs ! 0);
          ts \<leftarrow> stoull (fs ! 3);
          bts \<leftarrow> stoull (fs ! 4);
          nnc \<leftarrow> stoull (fs ! 5);
          w \<leftarrow> stoull (fs ! 7);
          h \<leftarrow> stoi (fs ! 9);
          (txCount, start) \<leftarrow> text_tx_count txt fs rest;
          let framed = active (word_of_int h) COMMITMENT_HEIGHT;
          (txs, cur) \<leftarrow> text_txs J framed txt (unat txCount) (if txCount > 0 then start else 0);
          ms \<leftarrow> text_block_metadata J txt (if framed \<and> cur \<noteq> 0 then cur - 1 else cur);
          Some \<lparr>blk_header = \<lparr>hdr_version = word_of_int ver, prevHash = fs ! 1, merkleRoot = fs ! 2,
                  hdr_timestamp = ucast ts, bits = ucast bts, nonce = nnc\<rparr>,
                blk_hash = fs ! 6, blk_chainWork = 0, blk_parentHash = fs ! 8, blk_height = h, transactions = txs,
                blk_metadata = ms\<rparr> })"

subsection \<open>Fields\<close>

text \<open>A field without a bar and without the first letter of the metadata marker.\<close>

definition plain :: "string \<Rightarrow> bool" where
  "plain s \<longleftrightarrow> CHR ''|'' \<notin> set s \<and> CHR ''M'' \<notin> set s"

lemma plain_append [simp]: "plain (a @ b) \<longleftrightarrow> plain a \<and> plain b"
  by (auto simp: plain_def)

lemma plain_Cons: "plain (c # s) \<longleftrightarrow> c \<noteq> CHR ''|'' \<and> c \<noteq> CHR ''M'' \<and> plain s"
  by (auto simp: plain_def)

lemma plain_Nil [simp]: "plain []"
  by (simp add: plain_def)

lemma plain_digits: "list_all is_digit s \<Longrightarrow> plain s"
  by (auto simp: plain_def list_all_iff is_digit_def less_eq_char_def)

lemma plain_dec [simp]: "plain (dec_string n)"
  by (rule plain_digits) (rule dec_string_digits)

lemma plain_dec_int [simp]: "plain (dec_int i)"
  by (simp add: dec_int_def plain_Cons)

lemma nibble_plain: "nibble c \<noteq> None \<Longrightarrow> c \<noteq> CHR ''|'' \<and> c \<noteq> CHR ''M''"
  by (auto simp: nibble_def is_digit_def less_eq_char_def)

lemma plain_hex [simp]: "plain (hexEncode b)"
proof -
  have "list_all (\<lambda>c. nibble c \<noteq> None) (hex_encode b)" using hex_decode_all_nibbles [of "hex_encode b"] by auto
  then have "\<forall>c\<in>set (hex_encode b). c \<noteq> CHR ''|'' \<and> c \<noteq> CHR ''M''" using nibble_plain by (simp only: list_all_iff) blast
  then show ?thesis unfolding plain_def hexEncode_def by blast
qed

lemma bar_parts_join:
  assumes "fs \<noteq> []" "list_all plain fs" "last fs \<noteq> []"
  shows "bar_parts (join_bar fs) = fs"
  using assms by (induction fs rule: join_bar.induct) (simp_all add: bar_parts_last bar_parts_step plain_def)

lemma join_bar_no_M: "list_all plain fs \<Longrightarrow> CHR ''M'' \<notin> set (join_bar fs)"
  by (induction fs rule: join_bar.induct) (simp_all add: plain_def)

lemma find_sub_absent:
  assumes "c \<in> set p" "c \<notin> set s"
  shows "find_sub p s = None"
proof (cases "find_sub p s")
  case (Some n)
  then have "prefix p (drop n s)" by (simp add: find_sub_Some)
  then have "c \<in> set (drop n s)" using assms(1) by (auto simp: prefix_def)
  then show ?thesis using assms(2) set_drop_subset [of n s] by blast
qed

lemma find_sub_skip:
  "c \<noteq> c' \<Longrightarrow> find_sub (c # p) (c' # s) = map_option Suc (find_sub (c # p) s)"
  by (simp add: prefix_def)

text \<open>The marker is first found where it was put.\<close>

lemma find_marker:
  assumes "CHR ''M'' \<notin> set a" "prefix (CHR ''|'' # CHR ''M'' # q) b"
  shows "find_sub (CHR ''|'' # CHR ''M'' # q) (a @ b) = Some (length a)"
  using assms(1)
proof (induction a)
  case Nil
  then show ?case using assms(2) by (simp add: find_sub_prefix)
next
  case (Cons c a)
  have "\<not> prefix (CHR ''|'' # CHR ''M'' # q) (c # a @ b)"
    using Cons.prems assms(2) by (cases a) (auto simp: prefix_def)
  then show ?case using Cons by simp
qed

subsection \<open>Numbers come back\<close>

lemma stoull_dec_unat: "stoull (dec_string (unat (w :: 'a::len word))) = Some (ucast w)" if "LENGTH('a) \<le> 64"
proof -
  have "unat w < 2 ^ LENGTH('a)" by (rule unsigned_less)
  also have "(2 :: nat) ^ LENGTH('a) \<le> 2 ^ 64" using that by (intro power_increasing) simp_all
  finally show ?thesis by (simp add: stoull_dec)
qed

lemma dec_takeWhile [simp]: "takeWhile is_digit (dec_string n) = dec_string n"
  using dec_string_digits [of n] by (simp add: takeWhile_eq_all_conv list_all_iff)

lemma dec_string_hd: "\<exists>c cs. dec_string n = c # cs \<and> \<not> is_cspace c \<and> c \<noteq> CHR ''-'' \<and> c \<noteq> CHR ''+''"
proof -
  obtain c cs where s: "dec_string n = c # cs" using dec_string_nonempty [of n] by (cases "dec_string n") auto
  then have "is_digit c" using dec_string_digits [of n] by simp
  then show ?thesis using s digit_no_space [of c] by blast
qed

text \<open>How the two readers see a printed integer: its sign and its digits.\<close>

lemma read_dec_int:
  "dropWhile is_cspace (dec_int i) = dec_int i"
  "(dec_int i \<noteq> [] \<and> hd (dec_int i) = CHR ''-'') = (i < 0)"
  "(if dec_int i \<noteq> [] \<and> (hd (dec_int i) = CHR ''-'' \<or> hd (dec_int i) = CHR ''+'') then tl (dec_int i) else dec_int i) =
   dec_string (nat \<bar>i\<bar>)"
proof -
  obtain c cs where s: "dec_string (nat \<bar>i\<bar>) = c # cs" "\<not> is_cspace c" "c \<noteq> CHR ''-''" "c \<noteq> CHR ''+''"
    using dec_string_hd [of "nat \<bar>i\<bar>"] by blast
  have d: "dec_int i = (if i < 0 then CHR ''-'' # c # cs else c # cs)"
    using s(1) by (simp add: dec_int_def abs_if split: if_splits)
  have m: "\<not> is_cspace CHR ''-''" by (simp add: is_cspace_def less_eq_char_def)
  show "dropWhile is_cspace (dec_int i) = dec_int i" using s m unfolding d by simp
  show "(dec_int i \<noteq> [] \<and> hd (dec_int i) = CHR ''-'') = (i < 0)" using s unfolding d by simp
  show "(if dec_int i \<noteq> [] \<and> (hd (dec_int i) = CHR ''-'' \<or> hd (dec_int i) = CHR ''+'') then tl (dec_int i) else dec_int i) =
    dec_string (nat \<bar>i\<bar>)"
    using s unfolding d by simp
qed

lemma stoll_dec_int:
  assumes "- (2 ^ 63) \<le> i" "i < 2 ^ 63"
  shows "stoll (dec_int i) = Some i"
  unfolding stoll_def Let_def read_dec_int using assms by auto

lemma stoi_dec_int: "- (2 ^ 31) \<le> i \<Longrightarrow> i < 2 ^ 31 \<Longrightarrow> stoi (dec_int i) = Some i"
  by (simp add: stoi_def stoll_dec_int)

lemma stoull_dec_int:
  assumes "- (2 ^ 63) \<le> i" "i < 2 ^ 63"
  shows "stoull (dec_int i) = Some (word_of_int i)"
proof -
  have n: "nat \<bar>i\<bar> < 2 ^ 64" using assms by (auto simp: abs_if)
  have w: "(word_of_nat (nat \<bar>i\<bar>) :: u64) = word_of_int \<bar>i\<bar>" by simp
  show ?thesis unfolding stoull_def Let_def read_dec_int using n by (simp add: not_le abs_if)
qed

lemma sint_range32: "- (2 ^ 31) \<le> sint (v :: u32)" "sint v < 2 ^ 31"
  using sint_greater_eq [of v] sint_less [of v] by simp_all

lemma dec_vout: "\<exists>w. stoull (dec_int (sint (v :: u32))) = Some w \<and> ucast w = v"
proof -
  have "stoull (dec_int (sint v)) = Some (word_of_int (sint v))"
    by (rule stoull_dec_int [OF order_trans [OF _ sint_range32(1)] less_le_trans [OF sint_range32(2)]]) simp_all
  moreover have "(ucast (word_of_int (sint v) :: u64) :: u32) = v"
  proof (rule bit_word_eqI)
    fix n
    assume "n < LENGTH(32)"
    then have "n < 31 \<or> n = 31" by auto
    then show "bit (ucast (word_of_int (sint v) :: u64) :: u32) n \<longleftrightarrow> bit v n" by (auto simp: bit_simps min_def)
  qed
  ultimately show ?thesis by blast
qed

subsection \<open>Fields of a transaction come back\<close>

lemma read_hex_field_encode [simp]: "read_hex_field (hexEncode b) = Some b"
proof (cases "hex_encode b = []")
  case True
  then have "length (hex_encode b) = 0" by simp
  then show ?thesis unfolding length_hex_encode by (simp add: read_hex_field_def hexEncode_def)
qed (simp add: read_hex_field_def hexEncode_def)

definition sent_input :: "bool \<Rightarrow> TxIn \<Rightarrow> TxIn" where
  "sent_input null_txid i =
     i\<lparr>prev_txid := (if null_txid then replicate 64 (CHR ''0'') else prev_txid i), in_scriptPubKey := []\<rparr>"

lemma text_input_step:
  "text_inputs (Suc n) (input_fields z i @ parts) =
     (case text_inputs n parts of None \<Rightarrow> None | Some (inputs, r) \<Rightarrow> Some (sent_input z i # inputs, r))"
proof -
  obtain w where w: "stoull (dec_int (sint (prev_vout i))) = Some w" "ucast w = prev_vout i" using dec_vout by blast
  have q: "stoull (dec_string (unat (sequence i))) = Some (ucast (sequence i))" by (rule stoull_dec_unat) simp
  have u: "(ucast (ucast (sequence i) :: u64) :: u32) = sequence i" by (rule bit_word_eqI) (simp add: bit_simps)
  show ?thesis
    using w q u by (cases i; cases "text_inputs n parts") (auto simp: input_fields_def sent_input_def)
qed

lemma text_inputs_fields:
  "text_inputs (length inputs) (concat (map (input_fields z) inputs) @ parts) = Some (map (sent_input z) inputs, parts)"
  by (induction inputs) (simp_all add: text_input_step)

lemma text_outputs_fields:
  "text_outputs (length us) (concat (map output_fields us) @ parts) = Some (us, parts)"
proof (induction us)
  case (Cons u us)
  have "stoull (dec_string (unat (amount u))) = Some (amount u)" using stoull_dec_unat [of "amount u"] by simp
  then show ?case using Cons by (simp add: output_fields_def)
qed simp

subsection \<open>A transaction comes back\<close>

definition sent_inputs :: "'j Transaction \<Rightarrow> TxIn list" where
  "sent_inputs tx =
     (case vin tx of [] \<Rightarrow> [] | i # rest \<Rightarrow> sent_input (isCoinbase tx) i # map (sent_input False) rest)"

text \<open>
  What a reader of the text gets: the caches of a transaction and the outpoint of a coinbase are not sent.
\<close>

definition as_sent :: "'j Transaction \<Rightarrow> 'j Transaction" where
  "as_sent tx = tx\<lparr>sender := [], vin := sent_inputs tx\<rparr>"

definition tx_text_ok :: "'j Transaction \<Rightarrow> bool" where
  "tx_text_ok tx \<longleftrightarrow>
     plain (txid tx) \<and> list_all (\<lambda>i. plain (prev_txid i)) (vin tx) \<and>
     list_all (\<lambda>u. plain (scriptPubKey u) \<and> scriptPubKey u \<noteq> []) (vout tx) \<and>
     length (vin tx) < 2 ^ 64 \<and> length (vout tx) < 2 ^ 64"

text \<open>A printed map of metadata parses to the same map, and its length fits 64 bits.\<close>

definition json_map_ok :: "'j json \<Rightarrow> (string \<times> 'j) list \<Rightarrow> bool" where
  "json_map_ok J ms \<longleftrightarrow>
     length (json_dump_map J ms) < 2 ^ 64 \<and>
     (case json_parse J (json_dump_map J ms) of None \<Rightarrow> False | Some v \<Rightarrow> json_items J v = Some ms)"

lemma text_inputs_all:
  "text_inputs (length (vin tx)) (all_input_fields tx @ parts) = Some (sent_inputs tx, parts)"
  by (cases "vin tx") (simp_all add: all_input_fields_def sent_inputs_def text_input_step text_inputs_fields)

lemma fields_plain:
  assumes "tx_text_ok tx"
  shows "list_all plain (tx_fields tx)" "last (tx_fields tx) \<noteq> []" "tx_fields tx \<noteq> []"
proof -
  have z: "plain (replicate 64 (CHR ''0''))" by (simp add: plain_def)
  have i: "list_all plain (input_fields b i)" if "plain (prev_txid i)" for b i
    using that z by (simp add: input_fields_def)
  have ins: "list_all plain (all_input_fields tx)"
    using assms i by (cases "vin tx") (auto simp: all_input_fields_def tx_text_ok_def list_all_iff)
  have outs: "list_all plain (concat (map output_fields (vout tx)))"
    using assms by (auto simp: tx_text_ok_def list_all_iff output_fields_def)
  have core: "list_all plain (core_field tx)" by (simp add: core_field_def plain_Cons)
  show "list_all plain (tx_fields tx)" using assms ins outs core by (simp add: tx_fields_def tx_text_ok_def plain_Cons)
  have li: "last (input_fields b i) \<noteq> []" "input_fields b i \<noteq> []" for b i by (simp_all add: input_fields_def)
  have lc: "last (concat (map f xs)) \<noteq> []" if "xs \<noteq> []" "\<And>x. x \<in> set xs \<Longrightarrow> last (f x) \<noteq> [] \<and> f x \<noteq> []" for f :: "'x \<Rightarrow> string list" and xs
    using that by (induction xs rule: rev_induct) auto
  have "last (all_input_fields tx) \<noteq> []" if ne: "vin tx \<noteq> []"
  proof -
    obtain i rest where v: "vin tx = i # rest" using ne by (cases "vin tx") auto
    show ?thesis
    proof (cases "rest = []")
      case False
      then have "concat (map (input_fields False) rest) \<noteq> []" using li(2) by (cases rest) auto
      then show ?thesis using v False lc [of rest "input_fields False"] li by (simp add: all_input_fields_def)
    qed (use v li in \<open>simp add: all_input_fields_def\<close>)
  qed
  moreover have "all_input_fields tx = [] \<longleftrightarrow> vin tx = []" by (cases "vin tx") (simp_all add: all_input_fields_def input_fields_def)
  moreover have "last (concat (map output_fields (vout tx))) \<noteq> []" if "vout tx \<noteq> []"
    using that assms by (intro lc) (auto simp: output_fields_def tx_text_ok_def list_all_iff)
  moreover have "concat (map output_fields (vout tx)) = [] \<longleftrightarrow> vout tx = []" by (cases "vout tx") (simp_all add: output_fields_def)
  moreover have "core_field tx = [] \<or> last (core_field tx) \<noteq> []" by (simp add: core_field_def)
  ultimately show "last (tx_fields tx) \<noteq> []" unfolding tx_fields_def last_append by auto
  show "tx_fields tx \<noteq> []" by (simp add: tx_fields_def)
qed

lemma text_core_field:
  "text_extras J (core_field tx) (tx\<lparr>version := 1, Transaction.lockTime := 0\<rparr>) = Some tx"
proof (cases "version tx \<noteq> 1 \<or> Transaction.lockTime tx \<noteq> 0")
  case True
  let ?v = "dec_int (sint (version tx))" and ?l = "dec_string (unat (Transaction.lockTime tx))"
  have c: "CHR '':'' \<notin> set ?v"
  proof -
    have "CHR '':'' \<notin> set (dec_string n)" for n using dec_string_digits [of n] by (auto simp: list_all_iff is_digit_def less_eq_char_def)
    then show ?thesis by (simp add: dec_int_def)
  qed
  have s: "before_colon (?v @ CHR '':'' # ?l) = ?v" "from_colon (?v @ CHR '':'' # ?l) = CHR '':'' # ?l"
    using c by (simp_all add: before_colon_def from_colon_def takeWhile_neq_append dropWhile_neq_append)
  have v: "stoll ?v = Some (sint (version tx))"
    by (rule stoll_dec_int [OF order_trans [OF _ sint_range32(1)] less_le_trans [OF sint_range32(2)]]) simp_all
  have l: "stoull ?l = Some (ucast (Transaction.lockTime tx))" by (rule stoull_dec_unat) simp
  have lt: "\<not> (ucast (Transaction.lockTime tx) :: u64) > 0xffffffff"
  proof -
    have "unat (Transaction.lockTime tx) < 2 ^ 32" using unsigned_less [of "Transaction.lockTime tx", where ?'a = nat] by simp
    then show ?thesis by (simp add: word_less_nat_alt not_less unsigned_ucast_eq take_bit_nat_eq_self)
  qed
  have u: "(ucast (ucast (Transaction.lockTime tx) :: u64) :: u32) = Transaction.lockTime tx"
    by (rule bit_word_eqI) (simp add: bit_simps)
  have "text_core (''TXCORE:'' @ ?v @ CHR '':'' # ?l) (tx\<lparr>version := 1, Transaction.lockTime := 0\<rparr>) = Some tx"
    using s v l lt u sint_range32 [of "version tx"] by (cases tx) (simp add: text_core_def Let_def)
  then show ?thesis using True by (simp add: core_field_def)
qed (cases tx; simp add: core_field_def)

lemma trailer_prefix: "prefix ''|METADATA:'' (metadata_trailer s)"
  by (simp add: metadata_trailer_def)

lemma dec_string_no_colon: "CHR '':'' \<notin> set (dec_string n)"
  using dec_string_digits [of n] by (auto simp: list_all_iff is_digit_def less_eq_char_def)

lemma colon_dec:
  "before_colon (dec_string n @ CHR '':'' # s) = dec_string n" "from_colon (dec_string n @ CHR '':'' # s) = CHR '':'' # s"
  using dec_string_no_colon [of n] by (simp_all add: before_colon_def from_colon_def takeWhile_neq_append dropWhile_neq_append)

lemma framed_metadata_absent: "CHR ''M'' \<notin> set a \<Longrightarrow> framed_metadata J a = Some ([], a)"
  using find_sub_absent [of "CHR ''M''" "''|METADATA:''" a] by (simp add: framed_metadata_def)

lemma framed_metadata_trailer:
  assumes "CHR ''M'' \<notin> set a" "json_map_ok J ms"
  shows "framed_metadata J (a @ metadata_trailer (json_dump_map J ms)) = Some (ms, a)"
proof -
  let ?s = "json_dump_map J ms"
  have m: "find_sub ''|METADATA:'' (a @ metadata_trailer ?s) = Some (length a)"
    by (rule find_marker [OF assms(1) trailer_prefix])
  have r: "drop (length a + 10) (a @ metadata_trailer ?s) = dec_string (length ?s) @ CHR '':'' # ?s"
    by (simp add: metadata_trailer_def)
  have "length ?s < 2 ^ 64" using assms(2) by (simp add: json_map_ok_def)
  then have l: "stoull (dec_string (length ?s)) = Some (word_of_nat (length ?s))" "unat (word_of_nat (length ?s) :: u64) = length ?s"
    by (simp_all add: stoull_dec unat_word_of_nat_less del: unat_of_nat)
  have t: "take (length a) (a @ metadata_trailer ?s) = a" by simp
  show ?thesis
    unfolding framed_metadata_def m option.case Let_def r colon_dec t l list.sel
    using assms(2) dec_string_digits [of "length ?s"] l(2) by (auto simp: json_map_ok_def split: option.splits)
qed

lemma tx_text_core:
  assumes ok: "tx_text_ok tx" and meta: "tokenMetadata tx = [] \<or> framed \<and> json_map_ok J (tokenMetadata tx)"
  shows "tx_deserialize J framed (tx_serialize J tx) = Some (as_sent tx)"
proof -
  let ?f = "join_bar (tx_fields tx)"
  note p = fields_plain [OF ok]
  have nm: "CHR ''M'' \<notin> set ?f" using p(1) by (rule join_bar_no_M)
  have parts: "bar_parts ?f = tx_fields tx" using p by (intro bar_parts_join)
  have "?f \<noteq> []" using parts p(3) bar_parts.simps [of "[]"] by (metis (full_types))
  then have ne: "tx_serialize J tx \<noteq> []" by (simp add: tx_serialize_def)
  have framing: "(if framed then framed_metadata J (tx_serialize J tx) else Some ([], tx_serialize J tx)) = Some (tokenMetadata tx, ?f)"
    using meta framed_metadata_absent [OF nm] framed_metadata_trailer [OF nm] by (auto simp: tx_serialize_def)
  have "CHR ''M'' \<notin> set (last (tx_fields tx))" using p by (auto simp: list_all_iff plain_def)
  then have sm: "split_metadata (tx_fields tx) = tx_fields tx"
    using find_sub_absent [of "CHR ''M''" "''METADATA:''" "last (tx_fields tx)"] by (simp add: split_metadata_def)
  have n: "length (vin tx) < 2 ^ 64" "length (vout tx) < 2 ^ 64" using ok by (simp_all add: tx_text_ok_def)
  have u: "stoull (dec_string n) = Some (word_of_nat n)" "unat (word_of_nat n :: u64) = n" if "n < 2 ^ 64" for n
    using that by (simp_all add: stoull_dec unat_word_of_nat_less del: unat_of_nat)
  have final: "text_extras J (core_field tx)
    \<lparr>isCoinbase = isCoinbase tx, txid = txid tx, sender = [], vin = sent_inputs tx, vout = vout tx, version = 1, lockTime = 0,
     tokenMetadata = tokenMetadata tx\<rparr> = Some (as_sent tx)"
  proof -
    have "core_field (as_sent tx) = core_field tx" by (simp add: core_field_def as_sent_def)
    moreover have "(as_sent tx)\<lparr>version := 1, Transaction.lockTime := 0\<rparr> =
      \<lparr>isCoinbase = isCoinbase tx, txid = txid tx, sender = [], vin = sent_inputs tx, vout = vout tx, version = 1, lockTime = 0,
       tokenMetadata = tokenMetadata tx\<rparr>"
      by (cases tx) (simp add: as_sent_def)
    ultimately show ?thesis using text_core_field [of J "as_sent tx"] by (simp only:)
  qed
  show ?thesis
    unfolding tx_deserialize_def framing parts option.case prod.case sm
    using ne n final by (cases "isCoinbase tx") (simp_all add: tx_fields_def u text_inputs_all text_outputs_fields del: unat_of_nat)
qed

subsection \<open>A block comes back\<close>

text \<open>
  What the JSON library documents. \<open>printable\<close> says which values it prints without loss (strings that are
  well-formed text, ASCII among them); those parse to themselves. An array has the elements it was made
  of, an object of distinct keys has the entries it was made of, in an order of the library's own.
\<close>

definition json_laws :: "'j json \<Rightarrow> ('j \<Rightarrow> bool) \<Rightarrow> bool" where
  "json_laws J printable \<longleftrightarrow>
     (\<forall>v. printable v \<longrightarrow> json_dump J v \<noteq> [] \<and> json_parse J (json_dump J v) = Some v) \<and>
     (\<forall>s. json_string J (json_str J s) = Some s \<and> (list_all (\<lambda>c. of_char c < (128 :: nat)) s \<longrightarrow> printable (json_str J s))) \<and>
     (\<forall>vs. json_elems J (json_array J vs) = Some vs \<and> (list_all printable vs \<longrightarrow> printable (json_array J vs))) \<and>
     (\<forall>m. keys_distinct m \<longrightarrow>
        (\<exists>es. json_items J (json_object J m) = Some es \<and> map_of es = map_of m) \<and>
        (list_all (\<lambda>(k, v). printable (json_str J k) \<and> printable v) m \<longrightarrow> printable (json_object J m)))"

text \<open>Metadata that the library prints without loss.\<close>

definition map_printable :: "'j json \<Rightarrow> ('j \<Rightarrow> bool) \<Rightarrow> (string \<times> 'j) list \<Rightarrow> bool" where
  "map_printable J printable m \<longleftrightarrow> keys_distinct m \<and> list_all (\<lambda>(k, v). printable (json_str J k) \<and> printable v) m"

definition metadata_row :: "'j json \<Rightarrow> string \<times> 'j \<Rightarrow> 'j" where
  "metadata_row J e = json_object J [(''txid'', json_str J (fst e)), (''data'', snd e)]"

lemma entry_read:
  assumes "json_laws J printable" "printable (json_str J t)" "printable v"
  obtains es where "json_items J (metadata_row J (t, v)) = Some es" "map_of es ''txid'' = Some (json_str J t)"
    "map_of es ''data'' = Some v" "printable (metadata_row J (t, v))"
proof -
  let ?m = "[(''txid'', json_str J t), (''data'', v)]"
  have m: "keys_distinct ?m" by simp
  have key: "printable (json_str J k)" if "list_all (\<lambda>c. of_char c < (128 :: nat)) k" for k
    using assms(1) that unfolding json_laws_def by blast
  have "list_all (\<lambda>c. of_char c < (128 :: nat)) ''txid''" "list_all (\<lambda>c. of_char c < (128 :: nat)) ''data''" by code_simp+
  then have "list_all (\<lambda>(k, v). printable (json_str J k) \<and> printable v) ?m" using key assms(2,3) by simp
  then have p: "printable (json_object J ?m)" using assms(1) m unfolding json_laws_def by blast
  obtain es where "json_items J (json_object J ?m) = Some es" "map_of es = map_of ?m"
    using assms(1) m unfolding json_laws_def by blast
  then show thesis using that p by (simp add: metadata_row_def)
qed

lemma read_entries_all:
  assumes "json_laws J printable" "map_printable J printable m" "keys_distinct (acc @ m)"
  shows "read_entries J (map (metadata_row J) m) acc = acc @ m"
  using assms(2,3)
proof (induction m arbitrary: acc)
  case (Cons e m)
  obtain t v where e: "e = (t, v)" by fastforce
  obtain es where es: "json_items J (metadata_row J e) = Some es" "map_of es ''txid'' = Some (json_str J t)" "map_of es ''data'' = Some v"
    using entry_read [OF assms(1), of t v] Cons.prems(1) by (auto simp: e map_printable_def)
  have "json_string J (json_str J t) = Some t" using assms(1) by (simp add: json_laws_def)
  moreover have "map_of acc t = None" using Cons.prems(2) e by (auto simp: map_of_eq_None_iff)
  ultimately have "read_entries J (map (metadata_row J) (e # m)) acc = read_entries J (map (metadata_row J) m) (acc @ [e])"
    using es by (simp add: e update_fresh)
  then show ?case using Cons.IH [of "acc @ [e]"] Cons.prems by (simp add: map_printable_def)
qed simp

text \<open>The metadata of a block come back.\<close>

lemma metadata_roundtrip:
  assumes "json_laws J printable" "map_printable J printable m"
  shows "deserializeMetadata J (serializeMetadata J m) = m"
proof (cases "m = []")
  case False
  let ?v = "json_array J (map (metadata_row J) m)"
  have s: "serializeMetadata J m = json_dump J ?v"
    using False by (simp add: serializeMetadata_def metadata_row_def [abs_def] split_def)
  have "list_all printable (map (metadata_row J) m)"
  proof -
    have "printable (metadata_row J e)" if "e \<in> set m" for e
    proof -
      have "printable (json_str J (fst e)) \<and> printable (snd e)"
        using assms(2) that by (auto simp: map_printable_def list_all_iff)
      then show ?thesis using entry_read [OF assms(1), of "fst e" "snd e"] by auto
    qed
    then show ?thesis by (simp add: list_all_iff)
  qed
  then have "printable ?v" using assms(1) unfolding json_laws_def by blast
  then have "json_dump J ?v \<noteq> []" "json_parse J (json_dump J ?v) = Some ?v" using assms(1) unfolding json_laws_def by blast+
  moreover have "json_elems J ?v = Some (map (metadata_row J) m)" using assms(1) unfolding json_laws_def by blast
  ultimately show ?thesis
    using read_entries_all [OF assms, of "[]"] assms(2) by (simp add: s deserializeMetadata_def map_printable_def)
qed (simp add: serializeMetadata_def deserializeMetadata_def)

text \<open>The metadata of a transaction: printable, and listed in the order of the library.\<close>

definition tx_metadata_ok :: "'j json \<Rightarrow> ('j \<Rightarrow> bool) \<Rightarrow> (string \<times> 'j) list \<Rightarrow> bool" where
  "tx_metadata_ok J printable ms \<longleftrightarrow> map_printable J printable ms \<and> json_items J (json_object J ms) = Some ms"

lemma tx_metadata_map_ok:
  assumes "json_laws J printable" "tx_metadata_ok J printable ms" "length (json_dump_map J ms) < 2 ^ 64"
  shows "json_map_ok J ms"
proof -
  have "printable (json_object J ms)"
    using assms(1,2) unfolding json_laws_def tx_metadata_ok_def map_printable_def by blast
  then have "json_parse J (json_dump_map J ms) = Some (json_object J ms)"
    using assms(1) unfolding json_laws_def json_dump_map_def by blast
  then show ?thesis using assms(2,3) by (simp add: json_map_ok_def tx_metadata_ok_def)
qed

definition block_text_ok :: "'j json \<Rightarrow> ('j \<Rightarrow> bool) \<Rightarrow> 'j Block \<Rightarrow> bool" where
  "block_text_ok J printable b \<longleftrightarrow>
     CHR ''|'' \<notin> set (prevHash (blk_header b)) \<and> CHR ''|'' \<notin> set (merkleRoot (blk_header b)) \<and>
     CHR ''|'' \<notin> set (blk_hash b) \<and> CHR ''|'' \<notin> set (blk_parentHash b) \<and>
     transactions b \<noteq> [] \<and> list_all (\<lambda>tx. tx_text_ok tx \<and> (tokenMetadata tx = [] \<or> tx_metadata_ok J printable (tokenMetadata tx))) (transactions b) \<and>
     - (2 ^ 31) \<le> blk_height b \<and> blk_height b < 2 ^ 31 \<and>
     map_printable J printable (blk_metadata b) \<and>
     length (block_serialize J b) < 2 ^ 64"

lemma cut_bars_join:
  "fs \<noteq> [] \<Longrightarrow> list_all (\<lambda>f. CHR ''|'' \<notin> set f) fs \<Longrightarrow> cut_bars (length fs) (join_bar fs @ CHR ''|'' # r) = (fs, r)"
  by (induction fs rule: join_bar.induct) (simp_all add: takeWhile_neq_append dropWhile_neq_append)

lemma no_bar_dec: "CHR ''|'' \<notin> set (dec_string n)" "CHR ''|'' \<notin> set (dec_int i)"
  using plain_dec [of n] plain_dec_int [of i] by (auto simp: plain_def simp del: plain_dec plain_dec_int)

text \<open>Reading the transactions: each frame ends at the bar of the next or of the trailer.\<close>

lemma text_txs_frames:
  assumes "list_all2 (\<lambda>s tx. tx_deserialize J framed s = Some tx) ss txs"
    "txt = pre @ tl (concat (map tx_frame ss) @ CHR ''|'' # r)" "length txt < 2 ^ 64"
  shows "text_txs J framed txt (length ss) (length pre) = Some (txs, length txt - length r)"
  using assms
proof (induction ss txs arbitrary: pre rule: list_all2_induct)
  case (Cons s ss tx txs)
  let ?l = "dec_string (length s)"
  obtain q where q: "concat (map tx_frame ss) @ CHR ''|'' # r = CHR ''|'' # q" by (cases ss) (auto simp: tx_frame_def)
  have tq: "txt = pre @ ?l @ CHR '':'' # s @ CHR ''|'' # q" using Cons.prems(1) q by (simp add: tx_frame_def [of s])
  have d: "drop (length pre) txt = ?l @ CHR '':'' # (s @ CHR ''|'' # q)" by (simp add: tq)
  have body: "take (length s) (drop (length pre + length ?l + 1) txt) = s" by (simp add: tq)
  have len: "length txt = length pre + length ?l + 1 + length s + 1 + length q" by (simp add: tq)
  have ls: "length s < 2 ^ 64" using Cons.prems(2) len by linarith
  have rl: "stoull ?l = Some (word_of_nat (length s))" "unat (word_of_nat (length s) :: u64) = length s"
    using ls by (simp_all add: stoull_dec unat_word_of_nat_less del: unat_of_nat)
  have "word_of_nat (length pre + length ?l + 1) + word_of_nat (length s) = (word_of_nat (length pre + length ?l + 1 + length s) :: u64)"
    by (simp only: of_nat_add)
  moreover have "unat (word_of_nat (length pre + length ?l + 1 + length s) :: u64) = length pre + length ?l + 1 + length s"
    using Cons.prems(2) len by (intro unat_word_of_nat_less) simp
  ultimately have stop: "unat (word_of_nat (length pre + length ?l + 1) + word_of_nat (length s) :: u64) = length pre + length ?l + 1 + length s" by (simp only:)
  let ?stop = "length pre + length ?l + 1 + length s"
  have at: "txt ! ?stop = CHR ''|''" unfolding tq by (simp add: nth_append)
  have "txt = (pre @ ?l @ CHR '':'' # s @ [CHR ''|'']) @ tl (concat (map tx_frame ss) @ CHR ''|'' # r)" using tq q by simp
  from Cons.IH [OF this Cons.prems(2)]
  have IH: "text_txs J framed txt (length ss) (?stop + 1) = Some (txs, length txt - length r)" by (simp add: add.commute add.left_commute)
  show ?case
    unfolding list.size add_Suc_right add_0_right text_txs.simps Let_def d colon_dec option.case rl stop body
    using len at IH Cons.hyps(1) by simp
qed simp

lemma block_metadata_trailer:
  assumes "txt = pre @ metadata_trailer s" "length txt < 2 ^ 64"
  shows "text_block_metadata J txt (length pre) = Some (deserializeMetadata J s)"
proof -
  let ?l = "dec_string (length s)"
  have m: "find_sub ''|METADATA:'' (drop (length pre) txt) = Some 0"
    using trailer_prefix [of s] by (simp add: assms(1) find_sub_prefix)
  have r: "drop (length pre + 0 + 10) txt = ?l @ CHR '':'' # s" by (simp add: assms(1) metadata_trailer_def)
  have len: "length txt = length pre + 10 + length ?l + 1 + length s" by (simp add: assms(1) metadata_trailer_def)
  have rl: "stoull ?l = Some (word_of_nat (length s))" "unat (word_of_nat (length s) :: u64) = length s"
    using assms(2) len by (simp_all add: stoull_dec unat_word_of_nat_less del: unat_of_nat)
  have "word_of_nat (length pre + 0 + 10 + length ?l + 1) + word_of_nat (length s) = (word_of_nat (length txt) :: u64)"
    unfolding len by (simp only: of_nat_add add_0_right)
  then have stop: "unat (word_of_nat (length pre + 0 + 10 + length ?l + 1) + word_of_nat (length s) :: u64) = length txt"
    using unat_word_of_nat_less [of "length txt", where ?'a = 64] assms(2) by simp
  have "drop (length pre + 0 + 10 + length ?l + 1) txt = drop (length ?l + 1) (drop (length pre + 0 + 10) txt)"
    by (simp add: add.commute add.left_commute)
  then have body: "take (length s) (drop (length pre + 0 + 10 + length ?l + 1) txt) = s" unfolding r by simp
  show ?thesis unfolding text_block_metadata_def m option.case Let_def r colon_dec rl stop body by simp
qed

lemma length_frames: "length ss \<le> length (concat (map tx_frame ss))"
  by (induction ss) (simp_all add: tx_frame_def)

lemma frame_length: "tx \<in> set txs \<Longrightarrow> length (tx_serialize J tx) \<le> length (concat (map (\<lambda>tx. tx_frame (tx_serialize J tx)) txs))"
  by (induction txs) (auto simp: tx_frame_def)

lemma block_text_core:
  assumes laws: "json_laws J printable" and ok: "block_text_ok J printable b" and act: "active (word_of_int (blk_height b)) COMMITMENT_HEIGHT"
  shows "block_deserialize J (block_serialize J b) = Some (b\<lparr>blk_chainWork := 0, transactions := map as_sent (transactions b)\<rparr>)"
proof -
  let ?ss = "map (tx_serialize J) (transactions b)" and ?t = "metadata_trailer (serializeMetadata J (blk_metadata b))"
  let ?txt = "block_serialize J b" and ?h = "blk_header b"
  obtain r where r: "?t = CHR ''|'' # r" by (simp add: metadata_trailer_def)
  have ne: "?ss \<noteq> []" "transactions b \<noteq> []" using ok by (simp_all add: block_text_ok_def)
  let ?fr = "concat (map tx_frame ?ss)"
  obtain q where q: "?fr @ ?t = CHR ''|'' # q" using ne by (cases ?ss) (auto simp: tx_frame_def)
  have tq: "?txt = join_bar (block_fields b) @ CHR ''|'' # q" using q by (simp add: block_serialize_def comp_def)
  have len: "length ?txt < 2 ^ 64" using ok by (simp add: block_text_ok_def)
  have nb: "list_all (\<lambda>f. CHR ''|'' \<notin> set f) (block_fields b)"
    using ok by (simp add: block_fields_def header_serialize_def block_text_ok_def no_bar_dec)
  have "length (block_fields b) = 11" by (simp add: block_fields_def header_serialize_def)
  then have cut: "cut_bars 11 ?txt = (block_fields b, q)"
    using cut_bars_join [OF _ nb, of q] by (auto simp: tq block_fields_def)
  have "length (transactions b) \<le> length ?fr" using length_frames [of ?ss] by simp
  also have "length ?fr \<le> length ?txt" by (simp add: block_serialize_def comp_def)
  finally have n: "length (transactions b) < 2 ^ 64" using len by linarith
  have u: "stoull (dec_string n) = Some (word_of_nat n)" "unat (word_of_nat n :: u64) = n" if "n < 2 ^ 64" for n
    using that by (simp_all add: stoull_dec unat_word_of_nat_less del: unat_of_nat)
  have pos: "(word_of_nat (length (transactions b)) :: u64) > 0"
    using u(2) [OF n] ne(2) by (simp add: word_less_nat_alt del: unat_of_nat)
  define start where "start = length ?txt - length q"
  have all: "list_all2 (\<lambda>s tx. tx_deserialize J True s = Some tx) ?ss (map as_sent (transactions b))"
  proof -
    have "tx_deserialize J True (tx_serialize J tx) = Some (as_sent tx)" if tx: "tx \<in> set (transactions b)" for tx
    proof -
      have t: "tx_text_ok tx" "tokenMetadata tx = [] \<or> tx_metadata_ok J printable (tokenMetadata tx)"
        using ok tx by (auto simp: block_text_ok_def list_all_iff)
      have "tokenMetadata tx \<noteq> [] \<Longrightarrow> length (json_dump_map J (tokenMetadata tx)) \<le> length (tx_serialize J tx)"
        by (simp add: tx_serialize_def metadata_trailer_def)
      moreover have "length (tx_serialize J tx) < 2 ^ 64"
        using frame_length [OF tx, of J] len by (simp add: block_serialize_def)
      ultimately have "tokenMetadata tx = [] \<or> json_map_ok J (tokenMetadata tx)"
        using t(2) tx_metadata_map_ok [OF laws] by (metis le_less_trans)
      then show ?thesis using t(1) tx_text_core by blast
    qed
    then show ?thesis by (simp add: list_all2_map1 list_all2_map2 list_all2_same)
  qed
  have st: "start = length (join_bar (block_fields b) @ [CHR ''|''])" by (simp add: start_def tq)
  have "?txt = (join_bar (block_fields b) @ [CHR ''|'']) @ tl (?fr @ CHR ''|'' # r)" using q r by (simp add: tq)
  from text_txs_frames [OF all this len]
  have txs: "text_txs J True ?txt (length (transactions b)) start = Some (map as_sent (transactions b), length ?txt - length r)"
    unfolding st [symmetric] by simp
  let ?pre = "join_bar (block_fields b) @ ?fr"
  have pre: "?txt = ?pre @ ?t" by (simp add: block_serialize_def comp_def)
  have cur: "length ?txt - length r \<noteq> 0" "length ?txt - length r - 1 = length ?pre"
    unfolding pre using r by simp_all
  have meta: "text_block_metadata J ?txt (length ?pre) = Some (blk_metadata b)"
  proof -
    have "deserializeMetadata J (serializeMetadata J (blk_metadata b)) = blk_metadata b"
      using ok by (intro metadata_roundtrip [OF laws]) (simp add: block_text_ok_def)
    then show ?thesis unfolding block_metadata_trailer [OF pre len] by (rule arg_cong)
  qed
  have txc: "text_tx_count ?txt (block_fields b) q = Some (word_of_nat (length (transactions b)), start)"
    using u(1) [OF n] by (simp add: text_tx_count_def block_fields_def header_serialize_def start_def)
  have "?txt \<noteq> []" using tq by simp
  moreover have fs: "block_fields b ! 0 = dec_int (sint (hdr_version ?h))" "block_fields b ! 1 = prevHash ?h" "block_fields b ! 2 = merkleRoot ?h"
    "block_fields b ! 3 = dec_string (unat (hdr_timestamp ?h))" "block_fields b ! 4 = dec_string (unat (bits ?h))"
    "block_fields b ! 5 = dec_string (unat (nonce ?h))" "block_fields b ! 6 = blk_hash b"
    "block_fields b ! 7 = dec_string (unat (blk_chainWork b))" "block_fields b ! 8 = blk_parentHash b"
    "block_fields b ! 9 = dec_int (blk_height b)" "\<not> length (block_fields b) < 10"
    by (simp_all add: block_fields_def header_serialize_def)
  moreover have "stoi (dec_int (sint (hdr_version ?h))) = Some (sint (hdr_version ?h))" by (intro stoi_dec_int sint_range32)
  moreover have "stoi (dec_int (blk_height b)) = Some (blk_height b)" using ok by (intro stoi_dec_int) (simp_all add: block_text_ok_def)
  moreover have "stoull (dec_string (unat (hdr_timestamp ?h))) = Some (ucast (hdr_timestamp ?h))"
    "stoull (dec_string (unat (bits ?h))) = Some (ucast (bits ?h))" by (rule stoull_dec_unat; simp)+
  moreover have "stoull (dec_string (unat (nonce ?h))) = Some (nonce ?h)" using stoull_dec_unat [of "nonce ?h"] by simp
  moreover obtain w where "stoull (dec_string (unat (blk_chainWork b))) = Some w" using stoull_dec_unat [of "blk_chainWork b"] by simp
  moreover have "(ucast (ucast (hdr_timestamp ?h) :: u64) :: u32) = hdr_timestamp ?h" "(ucast (ucast (bits ?h) :: u64) :: u32) = bits ?h"
    by (rule bit_word_eqI, simp add: bit_simps)+
  ultimately show ?thesis
    unfolding block_deserialize_def cut Let_def prod.case fs txc
    using u(2) [OF n] pos txs cur meta act by (cases b; cases "blk_header b") (simp del: unat_of_nat)
qed

subsection \<open>A text that expands\<close>

text \<open>
  The end of a transaction is the sum of its position and its length field, which wraps: a length of
  \<open>2 ^ 64 - 21\<close> puts the end back on the length field itself.
\<close>

definition echo_count :: string where "echo_count = ''18446744073709551595''"
definition echo_tx :: string where "echo_tx = ''t|0|0|0''"

definition echo_fields :: "nat \<Rightarrow> string list" where
  "echo_fields n = [''1'', [], [], ''0'', ''0'', ''0'', [], ''0'', [], ''1'', dec_string n]"

definition echo_text :: "nat \<Rightarrow> string" where
  "echo_text n = join_bar (echo_fields n) @ CHR ''|'' # echo_count @ CHR '':'' # echo_tx"

lemma echo_tx_reads: "tx_deserialize J False echo_tx =
  Some \<lparr>isCoinbase = False, txid = ''t'', sender = [], vin = [], vout = [], version = 1, lockTime = 0, tokenMetadata = []\<rparr>"
proof -
  have e: "echo_tx = join_bar [''t'', ''0'', ''0'', ''0'']" by (simp add: echo_tx_def)
  have p: "bar_parts echo_tx = [''t'', ''0'', ''0'', ''0'']" unfolding e by (rule bar_parts_join) (simp_all add: plain_def)
  have s: "split_metadata [''t'', ''0'', ''0'', ''0''] = [''t'', ''0'', ''0'', ''0'']"
    by (simp add: split_metadata_def prefix_def)
  have z: "stoull ''0'' = Some 0" by code_simp
  have n: "echo_tx \<noteq> []" by (simp add: echo_tx_def)
  show ?thesis unfolding tx_deserialize_def using n by (simp add: p s z)
qed

lemma echo_step:
  assumes "txt = pre @ echo_count @ CHR '':'' # echo_tx" "length txt < 2 ^ 64"
  shows "\<exists>txs. text_txs J False txt m (length pre) = Some (txs, length pre) \<and> length txs = m"
proof (induction m)
  case (Suc m)
  have e: "length echo_count = 20" "stoull echo_count = Some (- 21)" by (simp add: echo_count_def) code_simp
  have c: "CHR '':'' \<notin> set echo_count" by (simp add: echo_count_def)
  have d: "before_colon (drop (length pre) txt) = echo_count" "from_colon (drop (length pre) txt) = CHR '':'' # echo_tx"
    using c by (simp_all add: assms(1) before_colon_def from_colon_def takeWhile_neq_append dropWhile_neq_append)
  have "word_of_nat (length pre + 20 + 1) + - 21 = (word_of_nat (length pre) :: u64)" by simp
  moreover have "length pre < 2 ^ 64" using assms by simp
  ultimately have stop: "unat (word_of_nat (length pre + 20 + 1) + - 21 :: u64) = length pre"
    by (simp only: unat_word_of_nat_less) (intro unat_word_of_nat_less; simp)
  have L: "unat (- 21 :: u64) = 18446744073709551595" by simp
  have body: "take (unat (- 21 :: u64)) (drop (length pre + 20 + 1) txt) = echo_tx"
    unfolding L using e(1) by (simp add: assms(1) echo_tx_def)
  have at: "txt ! length pre = CHR ''1''" by (simp add: assms(1) echo_count_def)
  have le: "\<not> length pre > length txt" by (simp add: assms(1))
  have "text_txs J False txt (Suc m) (length pre) =
    (case text_txs J False txt m (length pre) of None \<Rightarrow> None
     | Some (txs, c) \<Rightarrow> Some (the (tx_deserialize J False echo_tx) # txs, c))"
    unfolding text_txs.simps Let_def d e option.case stop body echo_tx_reads option.sel using le at by simp
  then show ?case using Suc.IH by auto
qed simp

lemma dec_string_bound: "n < 10 ^ Suc k \<Longrightarrow> length (dec_string n) \<le> Suc k"
proof (induction k arbitrary: n)
  case 0
  then show ?case by (subst dec_string.simps) simp
next
  case (Suc k)
  then have "n div 10 < 10 ^ Suc k" by (simp add: div_less_iff_less_mult)
  from Suc.IH [OF this] show ?case by (subst dec_string.simps) simp
qed

subsection \<open>Properties\<close>

text \<open>
  C11: the text form of a block comes back. Above the commitment height a block with at least one
  transaction whose hex fields contain no separator is read back from its own text unchanged, metadata
  and core fields included, except for what is not sent: the legacy chain work, the caches of a
  transaction and the outpoint of a coinbase. Of the JSON library only its laws are used; the metadata
  must be printable, and those of a transaction listed in the order of the library.
\<close>

theorem block_text_roundtrip:
  assumes "json_laws J printable" "block_text_ok J printable b" "active (word_of_int (blk_height b)) COMMITMENT_HEIGHT"
  shows "block_deserialize J (block_serialize J b) =
    Some (b\<lparr>blk_chainWork := 0, transactions := map as_sent (transactions b)\<rparr>)"
  using assms by (rule block_text_core)

text \<open>
  C12: the reader of block texts does not bound its work by the length of the text. For every count
  below \<open>2 ^ 64\<close> there is a text of at most 80 characters that reads as a block with that many
  transactions: the end of a transaction is computed modulo \<open>2 ^ 64\<close>, so a length field can point back
  at itself.
\<close>

theorem block_text_expands:
  assumes "n < 2 ^ 64" "0 < n"
  shows "length (echo_text n) \<le> 80 \<and> (\<exists>b. block_deserialize J (echo_text n) = Some b \<and> length (transactions b) = n)"
proof -
  let ?t = "echo_text n" and ?q = "echo_count @ CHR '':'' # echo_tx"
  have l: "length (dec_string n) \<le> 20" using assms(1) dec_string_bound [of n 19] by simp
  have len: "length ?t \<le> 80" using l by (simp add: echo_text_def echo_fields_def echo_count_def echo_tx_def)
  have "list_all (\<lambda>f. CHR ''|'' \<notin> set f) (echo_fields n)" by (simp add: echo_fields_def no_bar_dec)
  moreover have "echo_fields n \<noteq> []" "length (echo_fields n) = 11" by (simp_all add: echo_fields_def)
  ultimately have cut: "cut_bars 11 ?t = (echo_fields n, ?q)" unfolding echo_text_def using cut_bars_join by metis
  define pre where "pre = join_bar (echo_fields n) @ [CHR ''|'']"
  have tq: "?t = pre @ ?q" by (simp add: echo_text_def pre_def)
  have "length ?t < 2 ^ 64" using len by simp
  from echo_step [OF tq this] obtain txs where txs: "text_txs J False ?t n (length pre) = Some (txs, length pre)" "length txs = n"
    by blast
  have nM: "CHR ''M'' \<notin> set (drop (length pre) ?t)" by (simp add: tq echo_count_def echo_tx_def)
  have meta: "text_block_metadata J ?t (length pre) = Some []"
    using find_sub_absent [OF _ nM, of "''|METADATA:''"] by (simp add: text_block_metadata_def)
  have u: "stoull (dec_string n) = Some (word_of_nat n)" "unat (word_of_nat n :: u64) = n"
    using assms by (simp_all add: stoull_dec unat_word_of_nat_less del: unat_of_nat)
  have pos: "(word_of_nat n :: u64) > 0" using u(2) assms(2) by (simp add: word_less_nat_alt del: unat_of_nat)
  have txc: "text_tx_count ?t (echo_fields n) ?q = Some (word_of_nat n, length pre)"
    using u(1) by (simp add: text_tx_count_def echo_fields_def tq)
  have fs: "echo_fields n ! 0 = ''1''" "echo_fields n ! 3 = ''0''" "echo_fields n ! 4 = ''0''" "echo_fields n ! 5 = ''0''"
    "echo_fields n ! 7 = ''0''" "echo_fields n ! 9 = ''1''" "\<not> length (echo_fields n) < 10"
    by (simp_all add: echo_fields_def)
  have z: "stoull ''0'' = Some 0" "stoi ''1'' = Some 1" "\<not> active (word_of_int 1) COMMITMENT_HEIGHT" by code_simp+
  have "?t \<noteq> []" by (simp add: echo_text_def)
  then show ?thesis
    unfolding block_deserialize_def cut Let_def prod.case fs txc z
    using len u(2) pos txs meta z fs(7) by (simp del: unat_of_nat)
qed

subsection \<open>A sample block\<close>

definition sample_json :: "unit json" where
  "sample_json =
     \<lparr>json_object = \<lambda>_. (), json_array = \<lambda>_. (), json_str = \<lambda>_. (), json_items = \<lambda>_. Some [], json_elems = \<lambda>_. None,
      json_string = \<lambda>_. None, json_number = \<lambda>_. None, json_dump = \<lambda>_. [CHR ''{'', CHR ''}''], json_parse = \<lambda>_. Some ()\<rparr>"

definition sample_coinbase :: "bytes \<Rightarrow> unit Transaction" where
  "sample_coinbase s =
     \<lparr>isCoinbase = True, txid = ''0a'', sender = [],
      vin = [\<lparr>prev_txid = ''COINBASE'', prev_vout = 0, scriptSig = s, pubKey = [], in_scriptPubKey = [], sequence = 0\<rparr>],
      vout = [\<lparr>amount = 50, scriptPubKey = pay (replicate 40 (CHR ''0''))\<rparr>], version = 1, lockTime = 7, tokenMetadata = []\<rparr>"

definition sample_block :: "bytes \<Rightarrow> unit Block" where
  "sample_block s =
     \<lparr>blk_header = \<lparr>hdr_version = - 1, prevHash = ''00'', merkleRoot = ''00'', hdr_timestamp = 5, bits = 0, nonce = 9\<rparr>,
      blk_hash = ''ab'', blk_chainWork = 3, blk_parentHash = ''00'', blk_height = 50000,
      transactions = [sample_coinbase s, sample_tx], blk_metadata = []\<rparr>"

text \<open>
  A small JSON library: values are trees, printed in prefix form with a dot before each character of a string.
  The reader may recurse once for each character of its first argument.
\<close>

datatype tree_value = TStr string | TNil | TCons tree_value tree_value | TEnd | TField string tree_value tree_value

definition dotted :: "string \<Rightarrow> string" where
  "dotted s = concat (map (\<lambda>c. [CHR ''.'', c]) s) @ '';''"

fun read_dotted :: "string \<Rightarrow> (string \<times> string) option" where
  "read_dotted (d # c # s) =
     (if d = CHR '';'' then Some ([], c # s)
      else if d = CHR ''.'' then map_option (\<lambda>(t, r). (c # t, r)) (read_dotted s) else None)"
| "read_dotted [d] = (if d = CHR '';'' then Some ([], []) else None)"
| "read_dotted [] = None"

primrec tree_dump :: "tree_value \<Rightarrow> string" where
  "tree_dump (TStr s) = CHR ''S'' # dotted s"
| "tree_dump TNil = '']''"
| "tree_dump (TCons v w) = CHR '','' # tree_dump v @ tree_dump w"
| "tree_dump TEnd = ''}''"
| "tree_dump (TField k v w) = CHR '':'' # dotted k @ tree_dump v @ tree_dump w"

fun tree_read :: "string \<Rightarrow> string \<Rightarrow> (tree_value \<times> string) option" where
  "tree_read (_ # n) (c # s) =
     (if c = CHR ''S'' then map_option (\<lambda>(t, r). (TStr t, r)) (read_dotted s)
      else if c = CHR '']'' then Some (TNil, s)
      else if c = CHR ''}'' then Some (TEnd, s)
      else if c = CHR '','' then do { (v, r) \<leftarrow> tree_read n s; (w, q) \<leftarrow> tree_read n r; Some (TCons v w, q) }
      else if c = CHR '':'' then do { (k, p) \<leftarrow> read_dotted s; (v, r) \<leftarrow> tree_read n p; (w, q) \<leftarrow> tree_read n r;
                                   Some (TField k v w, q) }
      else None)"
| "tree_read _ _ = None"

fun tree_elems :: "tree_value \<Rightarrow> tree_value list option" where
  "tree_elems TNil = Some []"
| "tree_elems (TCons v w) = map_option ((#) v) (tree_elems w)"
| "tree_elems _ = None"

fun tree_items :: "tree_value \<Rightarrow> (string \<times> tree_value) list option" where
  "tree_items TEnd = Some []"
| "tree_items (TField k v w) = map_option ((#) (k, v)) (tree_items w)"
| "tree_items _ = None"

definition tree_json :: "tree_value json" where
  "tree_json =
     \<lparr>json_object = \<lambda>m. foldr (\<lambda>(k, v). TField k v) m TEnd, json_array = \<lambda>vs. foldr TCons vs TNil, json_str = TStr,
      json_items = tree_items, json_elems = tree_elems, json_string = \<lambda>v. (case v of TStr s \<Rightarrow> Some s | _ \<Rightarrow> None),
      json_number = \<lambda>_. None, json_dump = tree_dump,
      json_parse = \<lambda>s. (case tree_read s s of None \<Rightarrow> None | Some (v, r) \<Rightarrow> if r = [] then Some v else None)\<rparr>"

lemma read_dotted_append: "read_dotted (dotted s @ r) = Some (s, r)"
proof (induction s)
  case Nil
  show ?case by (cases r) (simp_all add: dotted_def)
qed (simp add: dotted_def)

lemma tree_read_dump: "length (tree_dump v) \<le> length n \<Longrightarrow> tree_read n (tree_dump v @ r) = Some (v, r)"
proof (induction v arbitrary: n r)
  case (TCons v w)
  then obtain d m where "n = d # m" by (cases n) auto
  then show ?case using TCons by simp
next
  case (TField k v w)
  then obtain d m where "n = d # m" by (cases n) auto
  then show ?case using TField by (simp add: read_dotted_append)
qed (case_tac [!] n, simp_all add: read_dotted_append)

lemma tree_laws: "json_laws tree_json (\<lambda>_. True)"
proof -
  have "tree_read (tree_dump v) (tree_dump v) = Some (v, [])" for v using tree_read_dump [of v "tree_dump v" "[]"] by simp
  moreover have "tree_dump v \<noteq> []" for v by (cases v) simp_all
  moreover have "tree_elems (foldr TCons vs TNil) = Some vs" for vs by (induction vs) simp_all
  moreover have "tree_items (foldr (\<lambda>(k, v). TField k v) m TEnd) = Some m" for m by (induction m) auto
  ultimately show ?thesis by (simp add: json_laws_def tree_json_def)
qed

definition named_tx :: "tree_value Transaction" where
  "named_tx =
     \<lparr>isCoinbase = False, txid = ''0b'', sender = [],
      vin = [\<lparr>prev_txid = ''0a'', prev_vout = 1, scriptSig = [1], pubKey = [2], in_scriptPubKey = [], sequence = 5\<rparr>],
      vout = [\<lparr>amount = 900, scriptPubKey = ''f751''\<rparr>], version = 1, lockTime = 7,
      tokenMetadata = [(''0b'', TField ''name'' (TStr ''METADATA:1|'') TEnd)]\<rparr>"

definition named_block :: "tree_value Block" where
  "named_block =
     \<lparr>blk_header = \<lparr>hdr_version = - 1, prevHash = ''00'', merkleRoot = ''00'', hdr_timestamp = 5, bits = 0, nonce = 9\<rparr>,
      blk_hash = ''ab'', blk_chainWork = 0, blk_parentHash = ''00'', blk_height = 50000, transactions = [named_tx],
      blk_metadata = [(''0b'', TField ''name'' (TStr ''METADATA:1|'') TEnd), (''0a'', TCons (TStr []) TNil)]\<rparr>"

theorem block_text_roundtrip_witness:
  "block_deserialize tree_json (block_serialize tree_json named_block) = Some named_block \<and>
   blk_metadata named_block \<noteq> [] \<and> map tokenMetadata (transactions named_block) \<noteq> [[]]"
proof -
  have "block_text_ok tree_json (\<lambda>_. True) named_block" by code_simp
  moreover have "active (word_of_int (blk_height named_block)) COMMITMENT_HEIGHT" by code_simp
  ultimately show ?thesis
    using block_text_roundtrip [OF tree_laws, of named_block]
    by (simp add: named_block_def named_tx_def as_sent_def sent_inputs_def sent_input_def)
qed

theorem block_text_expands_witness:
  "\<exists>b. block_deserialize sample_json (echo_text 1000000000000) = Some b \<and> length (transactions b) = 1000000000000"
  using block_text_expands [of 1000000000000 sample_json] by simp

end
