(* ===== verification/Block_Commitment.thy ===== *)
theory Block_Commitment
  imports Block_Text
begin

text \<open>
  The commitment of a block to the full payload of its transactions
  (\<open>src/src/consensus09_commitment.h\<close>): the digest, the miner's \<open>prepare\<close> and the validator's \<open>check\<close>.
  An exception is \<open>None\<close>.
\<close>

subsection \<open>The digest\<close>

definition commit_field :: "bytes \<Rightarrow> bytes" where
  "commit_field s = put (word_of_nat (length s)) 8 @ s"

definition hash256 :: "crypto \<Rightarrow> bytes \<Rightarrow> string" where
  "hash256 C b = hex (SHA256 C (SHA256 C b))"

definition commit_input :: "TxIn \<Rightarrow> bytes" where
  "commit_input i = commit_field (pubKey i) @ commit_field (in_scriptPubKey i)"

definition commit_tx :: "'j json \<Rightarrow> 'j Transaction \<Rightarrow> bytes option" where
  "commit_tx J tx =
     (case serializeBinary (json_dump_map J) tx of
        None \<Rightarrow> None
      | Some raw \<Rightarrow>
          Some (commit_field raw @ [if isCoinbase tx then 1 else 0] @ commit_field (bytes_of_string (txid tx)) @
            commit_field (bytes_of_string (sender tx)) @ concat (map commit_input (vin tx))))"

text \<open>\<open>std::map\<close> of printed values: sorted by key, a later value of a key replaces an earlier one.\<close>

definition dumped :: "'j json \<Rightarrow> (string \<times> 'j) list \<Rightarrow> (string \<times> string) list" where
  "dumped J m = sort_key fst (fold (\<lambda>(k, v). AList.update k (json_dump J v)) m [])"

definition commit_entry :: "string \<times> string \<Rightarrow> bytes" where
  "commit_entry e = commit_field (bytes_of_string (fst e)) @ commit_field (bytes_of_string (snd e))"

definition commitment_data :: "'j json \<Rightarrow> 'j Block \<Rightarrow> bytes option" where
  "commitment_data J b =
     (case write_all (commit_tx J) (tl (transactions b)) of
        None \<Rightarrow> None
      | Some txs \<Rightarrow>
          let sorted = dumped J (blk_metadata b) in
          Some (bytes_of_string ''TRU-BLOCK-PAYLOAD-V1|21e8|'' @ put (word_of_int (blk_height b)) 4 @
            put (word_of_nat (length (transactions b)) - 1) 8 @ txs @
            put (word_of_nat (length sorted)) 8 @ concat (map commit_entry sorted)))"

definition commitment_digest :: "crypto \<Rightarrow> 'j json \<Rightarrow> 'j Block \<Rightarrow> string option" where
  "commitment_digest C J b = map_option (hash256 C) (commitment_data J b)"

definition commitment_prefix :: string where "commitment_prefix = ''6a24'' @ ''54523039''"

definition has_prefix :: "TxOut \<Rightarrow> bool" where
  "has_prefix u \<longleftrightarrow> take 12 (scriptPubKey u) = commitment_prefix"

subsection \<open>The miner\<close>

fun own_metadata :: "'j Transaction list \<Rightarrow> (string \<times> 'j) list \<Rightarrow> (string \<times> 'j) list option" where
  "own_metadata [] m = Some m"
| "own_metadata (tx # rest) m =
     (if list_all (\<lambda>(k, _). k = txid tx) (tokenMetadata tx)
      then own_metadata rest (fold (\<lambda>(k, v). AList.update k v) (tokenMetadata tx) m) else None)"

definition strip_caches :: "'j Transaction \<Rightarrow> 'j Transaction" where
  "strip_caches tx = tx\<lparr>sender := [], vin := map (\<lambda>i. i\<lparr>in_scriptPubKey := []\<rparr>) (vin tx)\<rparr>"

definition prepare_commitment :: "crypto \<Rightarrow> 'j json \<Rightarrow> 'j Block \<Rightarrow> 'j Block option" where
  "prepare_commitment C J b =
     (if \<not> active (word_of_int (blk_height b)) COMMITMENT_HEIGHT then Some b
      else case transactions b of
        [] \<Rightarrow> None
      | cb # txs \<Rightarrow>
          if \<not> isCoinbase cb then None
          else
            let rest = map strip_caches txs in
            case own_metadata rest [] of
              None \<Rightarrow> None
            | Some m \<Rightarrow>
                let cb1 = cb\<lparr>tokenMetadata := [], vout := filter (\<lambda>u. \<not> has_prefix u) (vout cb)\<rparr>;
                    b1 = b\<lparr>blk_metadata := m, transactions := cb1 # rest\<rparr> in
                (case commitment_digest C J b1 of
                   None \<Rightarrow> None
                 | Some d \<Rightarrow>
                     map_option (\<lambda>cb2. b1\<lparr>transactions := cb2 # rest\<rparr>)
                       (computeTxId C (json_dump_map J)
                         (cb1\<lparr>vout := vout cb1 @ [\<lparr>amount = 0, scriptPubKey = commitment_prefix @ d\<rparr>]\<rparr>))))"

subsection \<open>The validator\<close>

fun count_commitments :: "string \<Rightarrow> TxOut list \<Rightarrow> nat option" where
  "count_commitments wanted_script [] = Some 0"
| "count_commitments wanted_script (u # us) =
     (if tokenShape (scriptPubKey u) \<or> parseLock (scriptPubKey u) \<noteq> None then None
      else if has_prefix u then
        (if amount u \<noteq> 0 \<or> scriptPubKey u \<noteq> wanted_script then None
         else map_option Suc (count_commitments wanted_script us))
      else count_commitments wanted_script us)"

definition check_commitment :: "crypto \<Rightarrow> 'j json \<Rightarrow> 'j Block \<Rightarrow> bool" where
  "check_commitment C J b =
     (if \<not> active (word_of_int (blk_height b)) COMMITMENT_HEIGHT then True
      else case transactions b of
        [] \<Rightarrow> False
      | cb # rest \<Rightarrow>
          if \<not> isCoinbase cb \<or> tokenMetadata cb \<noteq> [] then False
          else if \<not> list_all (\<lambda>tx. sender tx = [] \<and> list_all (\<lambda>i. in_scriptPubKey i = []) (vin tx)) rest then False
          else if \<not> list_all (\<lambda>tx. list_all (\<lambda>(k, v). k = txid tx \<and> json_is_object J v) (tokenMetadata tx)) rest
          then False
          else if dumped J (concat (map tokenMetadata rest)) \<noteq> dumped J (blk_metadata b) then False
          else case commitment_digest C J b of
            None \<Rightarrow> False
          | Some d \<Rightarrow> count_commitments (commitment_prefix @ d) (vout cb) = Some 1)"

subsection \<open>Reading the digest back\<close>

text \<open>Nothing in the program reads a committed payload; the reader is what makes the format injective.\<close>

definition read_field :: "bytes \<Rightarrow> (bytes \<times> bytes) option" where
  "read_field b =
     (case read_le 8 b of
        None \<Rightarrow> None
      | Some (n, r) \<Rightarrow> if unat (n :: u64) > length r then None else Some (take (unat n) r, drop (unat n) r))"

lemma commit_field_get: "length s < 2 ^ 64 \<Longrightarrow> read_field (commit_field s @ r) = Some (s, r)"
  by (simp add: read_field_def commit_field_def put_def read_le_append unat_word_of_nat_less del: unat_of_nat)

lemma get_commit_field:
  assumes "read_field b = Some (s, r)"
  shows "length s < 2 ^ 64 \<and> b = commit_field s @ r"
proof -
  obtain n :: u64 and r' where n: "read_le 8 b = Some (n, r')" "unat n \<le> length r'" "s = take (unat n) r'" "r = drop (unat n) r'"
    using assms by (auto simp: read_field_def split: option.splits if_splits)
  have b: "b = le_bytes 8 n @ r'" using n(1) by (rule read_le_Some [rotated]) simp
  have l: "length s = unat n" using n by simp
  moreover have "unat n < 2 ^ 64" using unsigned_less [of n] by simp
  ultimately show ?thesis using n b by (simp add: commit_field_def put_def l)
qed

interpretation payload_field: stream_codec "\<lambda>s. length s < 2 ^ 64" commit_field read_field
  by unfold_locales (rule commit_field_get get_commit_field; assumption)+

lemma serialize_input_count:
  assumes "serializeBinary dump t = Some raw" "serializeBinary dump' t' = Some raw"
  shows "length (vin t) = length (vin t')"
proof -
  have "\<exists>r. (case read32LE raw of None \<Rightarrow> None | Some (_, b) \<Rightarrow> readVarInt b) = Some (length (vin t), r)"
    if s: "serializeBinary d t = Some raw" for d and t :: "'c Transaction"
  proof -
    obtain nin r where "raw = write32LE (version t) @ nin @ r" "writeVarInt (length (vin t)) = Some nin"
      using s by (auto simp: serializeBinary_def split: Option.bind_splits)
    then show ?thesis by (simp add: read32_write varint_roundtrip)
  qed
  from this [OF assms(1)] this [OF assms(2)] show ?thesis by auto
qed

text \<open>The fields of a transaction that the digest covers, and that their lengths fit 64 bits.\<close>

definition committed_fields :: "'j json \<Rightarrow> 'j Transaction \<Rightarrow> bytes option \<times> bool \<times> string \<times> string \<times> (bytes \<times> bytes) list" where
  "committed_fields J tx =
     (serializeBinary (json_dump_map J) tx, isCoinbase tx, txid tx, sender tx, map (\<lambda>i. (pubKey i, in_scriptPubKey i)) (vin tx))"

definition fields_fit :: "'j json \<Rightarrow> 'j Transaction \<Rightarrow> bool" where
  "fields_fit J tx \<longleftrightarrow>
     (case serializeBinary (json_dump_map J) tx of None \<Rightarrow> True | Some raw \<Rightarrow> length raw < 2 ^ 64) \<and>
     length (txid tx) < 2 ^ 64 \<and> length (sender tx) < 2 ^ 64 \<and>
     list_all (\<lambda>i. length (pubKey i) < 2 ^ 64 \<and> length (in_scriptPubKey i) < 2 ^ 64) (vin tx)"

lemma commit_inputs_cancel:
  assumes "length is = length is'" "concat (map commit_input is) @ r = concat (map commit_input is') @ r'"
    "\<forall>i\<in>set is \<union> set is'. length (pubKey i) < 2 ^ 64 \<and> length (in_scriptPubKey i) < 2 ^ 64"
  shows "map (\<lambda>i. (pubKey i, in_scriptPubKey i)) is = map (\<lambda>i. (pubKey i, in_scriptPubKey i)) is' \<and> r = r'"
  using assms
proof (induction "is" is' rule: list_induct2)
  case (Cons i xs i' ys)
  then show ?case by (auto simp: commit_input_def payload_field.put_cancel)
qed simp

lemma commit_tx_cancel:
  assumes a: "commit_tx J t = Some a" and a': "commit_tx J t' = Some a'" and eq: "a @ r = a' @ r'"
    and fits: "fields_fit J t" "fields_fit J t'"
  shows "committed_fields J t = committed_fields J t' \<and> r = r'"
proof -
  obtain raw where raw: "serializeBinary (json_dump_map J) t = Some raw"
    "a = commit_field raw @ [if isCoinbase t then 1 else 0] @ commit_field (bytes_of_string (txid t)) @
      commit_field (bytes_of_string (sender t)) @ concat (map commit_input (vin t))"
    using a by (auto simp: commit_tx_def split: option.splits)
  obtain raw' where raw': "serializeBinary (json_dump_map J) t' = Some raw'"
    "a' = commit_field raw' @ [if isCoinbase t' then 1 else 0] @ commit_field (bytes_of_string (txid t')) @
      commit_field (bytes_of_string (sender t')) @ concat (map commit_input (vin t'))"
    using a' by (auto simp: commit_tx_def split: option.splits)
  have l: "length raw < 2 ^ 64" "length raw' < 2 ^ 64" "length (txid t) < 2 ^ 64" "length (txid t') < 2 ^ 64"
    "length (sender t) < 2 ^ 64" "length (sender t') < 2 ^ 64"
    using fits raw(1) raw'(1) by (simp_all add: fields_fit_def)
  have 1: "raw = raw'" "isCoinbase t = isCoinbase t'" "txid t = txid t'" "sender t = sender t'"
    "concat (map commit_input (vin t)) @ r = concat (map commit_input (vin t')) @ r'"
    using eq l unfolding raw(2) raw'(2) append_assoc
    by (simp_all add: payload_field.put_cancel split: if_splits)
  have n: "length (vin t) = length (vin t')"
    using serialize_input_count [OF raw(1), of "json_dump_map J" t'] raw'(1) 1(1) by simp
  have "\<forall>i\<in>set (vin t) \<union> set (vin t'). length (pubKey i) < 2 ^ 64 \<and> length (in_scriptPubKey i) < 2 ^ 64"
    using fits by (auto simp: fields_fit_def list_all_iff)
  from commit_inputs_cancel [OF n 1(5) this] show ?thesis using 1 raw(1) raw'(1) by (simp add: committed_fields_def)
qed

lemma commit_txs_cancel:
  assumes "length ts = length ts'" "write_all (commit_tx J) ts = Some a" "write_all (commit_tx J) ts' = Some a'"
    "a @ r = a' @ r'" "\<forall>t\<in>set ts \<union> set ts'. fields_fit J t"
  shows "map (committed_fields J) ts = map (committed_fields J) ts' \<and> r = r'"
  using assms
proof (induction ts ts' arbitrary: a a' rule: list_induct2)
  case (Cons t xs t' ys)
  obtain p q where p: "commit_tx J t = Some p" "write_all (commit_tx J) xs = Some q" "a = p @ q"
    using Cons.prems(1) by (auto split: Option.bind_splits)
  obtain p' q' where p': "commit_tx J t' = Some p'" "write_all (commit_tx J) ys = Some q'" "a' = p' @ q'"
    using Cons.prems(2) by (auto split: Option.bind_splits)
  have "p @ q @ r = p' @ q' @ r'" using Cons.prems(3) p(3) p'(3) by simp
  from commit_tx_cancel [OF p(1) p'(1) this] Cons.prems(4)
  have 1: "committed_fields J t = committed_fields J t'" "q @ r = q' @ r'" by auto
  from Cons.IH [OF p(2) p'(2) 1(2)] 1(1) Cons.prems(4) show ?case by simp
qed simp

lemma commit_entries_cancel:
  assumes "length es = length es'" "concat (map commit_entry es) = concat (map commit_entry es')"
    "\<forall>(k, v)\<in>set es \<union> set es'. length k < 2 ^ 64 \<and> length v < 2 ^ 64"
  shows "es = es'"
  using assms
proof (induction es es' rule: list_induct2)
  case (Cons e xs e' ys)
  then show ?case by (cases e; cases e') (auto simp: commit_entry_def payload_field.put_cancel)
qed simp

subsection \<open>What an accepted commitment fixes\<close>

definition payload_fits :: "'j json \<Rightarrow> 'j Block \<Rightarrow> bool" where
  "payload_fits J b \<longleftrightarrow>
     length (transactions b) < 2 ^ 64 \<and> list_all (fields_fit J) (tl (transactions b)) \<and>
     length (dumped J (blk_metadata b)) < 2 ^ 64 \<and>
     list_all (\<lambda>(k, v). length k < 2 ^ 64 \<and> length v < 2 ^ 64) (dumped J (blk_metadata b))"

lemma le_bytes_word_of_int:
  "le_bytes 4 (word_of_int i :: u64) = le_bytes 4 (word_of_int i :: u32)"
proof (rule nth_equalityI)
  fix k
  assume "k < length (le_bytes 4 (word_of_int i :: u64))"
  then have k: "k < 4" by simp
  then have "(ucast (drop_bit (8 * k) (word_of_int i :: u64)) :: byte) = ucast (drop_bit (8 * k) (word_of_int i :: u32))"
    by (intro bit_eqI) (auto simp: bit_simps)
  then show "le_bytes 4 (word_of_int i :: u64) ! k = le_bytes 4 (word_of_int i :: u32) ! k" using k by (simp add: nth_le_bytes)
qed simp

lemma commitment_data_inject:
  assumes d: "commitment_data J b = Some d" and d': "commitment_data J b' = Some d"
    and fits: "payload_fits J b" "payload_fits J b'"
    and ne: "transactions b \<noteq> []" "transactions b' \<noteq> []"
  shows "(word_of_int (blk_height b) :: u32) = word_of_int (blk_height b') \<and>
    map (committed_fields J) (tl (transactions b)) = map (committed_fields J) (tl (transactions b')) \<and>
    dumped J (blk_metadata b) = dumped J (blk_metadata b')"
proof -
  let ?s = "dumped J (blk_metadata b)" and ?s' = "dumped J (blk_metadata b')"
  obtain x where x: "write_all (commit_tx J) (tl (transactions b)) = Some x"
    "d = bytes_of_string ''TRU-BLOCK-PAYLOAD-V1|21e8|'' @ put (word_of_int (blk_height b)) 4 @
      put (word_of_nat (length (transactions b)) - 1) 8 @ x @ put (word_of_nat (length ?s)) 8 @ concat (map commit_entry ?s)"
    using d by (auto simp: commitment_data_def Let_def split: option.splits)
  obtain x' where x': "write_all (commit_tx J) (tl (transactions b')) = Some x'"
    "d = bytes_of_string ''TRU-BLOCK-PAYLOAD-V1|21e8|'' @ put (word_of_int (blk_height b')) 4 @
      put (word_of_nat (length (transactions b')) - 1) 8 @ x' @ put (word_of_nat (length ?s')) 8 @ concat (map commit_entry ?s')"
    using d' by (auto simp: commitment_data_def Let_def split: option.splits)
  have lp: "length (put v n) = n" for v n by (simp add: put_def)
  have unat64: "unat (word_of_nat n :: u64) = n" if "n < 2 ^ 64" for n using that by (intro unat_word_of_nat_less) simp
  have h: "put (word_of_int (blk_height b)) 4 = put (word_of_int (blk_height b')) 4"
    and n: "put (word_of_nat (length (transactions b)) - 1) 8 = put (word_of_nat (length (transactions b')) - 1) 8"
    and r: "x @ put (word_of_nat (length ?s)) 8 @ concat (map commit_entry ?s) =
      x' @ put (word_of_nat (length ?s')) 8 @ concat (map commit_entry ?s')"
    using trans [OF x(2) [symmetric] x'(2)] by (simp_all add: lp)
  have "(word_of_nat (length (transactions b)) - 1 :: u64) = word_of_nat (length (transactions b')) - 1"
    using n unfolding put_def by (intro le_bytes_inject [of 8]) simp_all
  then have "(word_of_nat (length (transactions b)) :: u64) = word_of_nat (length (transactions b'))" by simp
  then have len: "length (tl (transactions b)) = length (tl (transactions b'))"
    using fits unfolding payload_fits_def by (metis length_tl unat64)
  have ff: "\<forall>t\<in>set (tl (transactions b)) \<union> set (tl (transactions b')). fields_fit J t"
    using fits by (auto simp: payload_fits_def list_all_iff)
  from commit_txs_cancel [OF len x(1) x'(1) r ff]
  have t: "map (committed_fields J) (tl (transactions b)) = map (committed_fields J) (tl (transactions b'))"
    and e: "put (word_of_nat (length ?s)) 8 @ concat (map commit_entry ?s) = put (word_of_nat (length ?s')) 8 @ concat (map commit_entry ?s')"
    by blast+
  have "put (word_of_nat (length ?s)) 8 = put (word_of_nat (length ?s')) 8" "concat (map commit_entry ?s) = concat (map commit_entry ?s')"
    using e by (simp_all add: lp)
  moreover from this(1) have "(word_of_nat (length ?s) :: u64) = word_of_nat (length ?s')"
    unfolding put_def by (intro le_bytes_inject [of 8]) simp_all
  then have "length ?s = length ?s'" using fits unfolding payload_fits_def by (metis unat64)
  ultimately have "?s = ?s'" using fits by (intro commit_entries_cancel) (auto simp: payload_fits_def list_all_iff)
  moreover have "(word_of_int (blk_height b) :: u32) = word_of_int (blk_height b')"
  proof -
    have "le_bytes 4 (word_of_int (blk_height b) :: u32) = le_bytes 4 (word_of_int (blk_height b') :: u32)"
      using h unfolding put_def by (simp only: le_bytes_word_of_int)
    then show ?thesis by (intro le_bytes_inject [of 4]) simp_all
  qed
  ultimately show ?thesis using t by blast
qed

lemma count_commitments_Some:
  "count_commitments w us = Some n \<Longrightarrow> \<forall>u\<in>set us. has_prefix u \<longrightarrow> scriptPubKey u = w \<and> amount u = 0"
  "count_commitments w us = Some (Suc n) \<Longrightarrow> \<exists>u\<in>set us. has_prefix u"
  by (induction us arbitrary: n) (auto split: if_splits)

lemma check_commitment_active:
  assumes "check_commitment C J b" "active (word_of_int (blk_height b)) COMMITMENT_HEIGHT"
  obtains d where "transactions b \<noteq> []" "commitment_data J b = Some d"
    "count_commitments (commitment_prefix @ hash256 C d) (vout (hd (transactions b))) = Some 1"
  using assms by (auto simp: check_commitment_def commitment_digest_def split: list.splits if_splits option.splits)

subsection \<open>What the miner prepares\<close>

lemma commitment_data_cong:
  assumes "blk_height b = blk_height b'" "blk_metadata b = blk_metadata b'" "tl (transactions b) = tl (transactions b')"
    "length (transactions b) = length (transactions b')"
  shows "commitment_data J b = commitment_data J b'"
  unfolding commitment_data_def assms ..

lemma keys_distinct_fold_update: "keys_distinct m \<Longrightarrow> keys_distinct (fold (\<lambda>(k, v). AList.update k v) kvs m)"
  by (induction kvs arbitrary: m) (auto intro: keys_distinct_update)

lemma update_map_snd: "AList.update k (f v) (map (\<lambda>(k, v). (k, f v)) m) = map (\<lambda>(k, v). (k, f v)) (AList.update k v m)"
  by (induction m) auto

lemma fold_update_map:
  "fold (\<lambda>(k, v). AList.update k (f v)) kvs (map (\<lambda>(k, v). (k, f v)) m) =
   map (\<lambda>(k, v). (k, f v)) (fold (\<lambda>(k, v). AList.update k v) kvs m)"
  by (induction kvs arbitrary: m) (auto simp: update_map_snd)

lemma fold_update_fresh: "keys_distinct (m @ kvs) \<Longrightarrow> fold (\<lambda>(k, v). AList.update k v) kvs m = m @ kvs"
proof (induction kvs arbitrary: m)
  case (Cons e kvs)
  obtain k v where e: "e = (k, v)" by fastforce
  have "map_of m k = None" using Cons.prems e by (auto simp: map_of_eq_None_iff)
  then show ?case using Cons.IH [of "m @ [e]"] Cons.prems e by (simp add: update_fresh)
qed simp

lemma dumped_fold: "dumped J (fold (\<lambda>(k, v). AList.update k v) kvs []) = dumped J kvs"
proof -
  let ?m = "fold (\<lambda>(k, v). AList.update k v) kvs []"
  have "keys_distinct ?m" by (rule keys_distinct_fold_update) simp
  then have "fold (\<lambda>(k, v). AList.update k v) ?m [] = ?m" using fold_update_fresh [of "[]" ?m] by simp
  then show ?thesis
    using fold_update_map [of "json_dump J" ?m "[]"] fold_update_map [of "json_dump J" kvs "[]"] by (simp add: dumped_def)
qed

lemma own_metadata_Some:
  assumes "own_metadata txs m = Some m'"
  shows "m' = fold (\<lambda>(k, v). AList.update k v) (concat (map tokenMetadata txs)) m"
    "\<forall>tx\<in>set txs. \<forall>(k, v)\<in>set (tokenMetadata tx). k = txid tx"
  using assms by (induction txs arbitrary: m) (auto simp: list_all_iff split: if_splits)

lemma commitment_prefix_hex: "commitment_prefix = hex_encode [0x6a, 0x24, 0x54, 0x52, 0x30, 0x39]"
  by code_simp

lemma commitment_script:
  assumes "length h = 32"
  shows "\<not> tokenShape (commitment_prefix @ hex_encode h)" "parseLock (commitment_prefix @ hex_encode h) = None"
    "has_prefix \<lparr>amount = a, scriptPubKey = commitment_prefix @ hex_encode h\<rparr>"
proof -
  have e: "commitment_prefix @ hex_encode h = hex_encode ([0x6a, 0x24, 0x54, 0x52, 0x30, 0x39] @ h)"
    unfolding commitment_prefix_hex by (simp only: hex_encode_append)
  show "\<not> tokenShape (commitment_prefix @ hex_encode h)"
    unfolding e tokenShape_def unhex_def hex_decode_encode using assms by (simp add: token_bytes_shape_def)
  show "parseLock (commitment_prefix @ hex_encode h) = None"
    unfolding e parseLock_def unhex_def hex_decode_encode using assms by simp
  show "has_prefix \<lparr>amount = a, scriptPubKey = commitment_prefix @ hex_encode h\<rparr>"
    by (simp add: has_prefix_def commitment_prefix_def)
qed

text \<open>What the validator demands beyond what the miner arranges: metadata values are objects, and no output kept looks like a token or a lock.\<close>

definition objects_only :: "'j json \<Rightarrow> 'j Transaction list \<Rightarrow> bool" where
  "objects_only J txs \<longleftrightarrow> list_all (\<lambda>tx. list_all (\<lambda>(k, v). json_is_object J v) (tokenMetadata tx)) txs"

definition plain_outputs :: "TxOut list \<Rightarrow> bool" where
  "plain_outputs us \<longleftrightarrow> list_all (\<lambda>u. \<not> has_prefix u \<longrightarrow> \<not> tokenShape (scriptPubKey u) \<and> parseLock (scriptPubKey u) = None) us"

lemma count_commitments_prepared:
  assumes "length h = 32"
  shows "count_commitments (commitment_prefix @ hex_encode h)
    (filter (\<lambda>u. \<not> has_prefix u) us @ [\<lparr>amount = 0, scriptPubKey = commitment_prefix @ hex_encode h\<rparr>]) =
    (if plain_outputs us then Some 1 else None)"
  using assms by (induction us) (simp_all add: commitment_script plain_outputs_def)

lemma prepare_checks:
  assumes p: "prepare_commitment C J b = Some b'" "active (word_of_int (blk_height b)) COMMITMENT_HEIGHT"
    and len: "\<forall>x. length (SHA256 C x) = 32"
  shows "(check_commitment C J b' \<longleftrightarrow> objects_only J (tl (transactions b)) \<and> plain_outputs (vout (hd (transactions b)))) \<and>
    blk_height b' = blk_height b \<and> tl (transactions b') = map strip_caches (tl (transactions b)) \<and>
    (\<exists>d. vout (hd (transactions b')) = filter (\<lambda>u. \<not> has_prefix u) (vout (hd (transactions b))) @
       [\<lparr>amount = 0, scriptPubKey = commitment_prefix @ d\<rparr>])"
proof -
  obtain cb txs where b: "transactions b = cb # txs" "isCoinbase cb"
    using p by (auto simp: prepare_commitment_def split: list.splits if_splits)
  let ?rest = "map strip_caches txs" and ?vs = "filter (\<lambda>u. \<not> has_prefix u) (vout cb)"
  obtain m where m: "own_metadata ?rest [] = Some m"
    using p b by (auto simp: prepare_commitment_def Let_def split: option.splits)
  define b1 where "b1 = b\<lparr>blk_metadata := m, transactions := cb\<lparr>tokenMetadata := [], vout := ?vs\<rparr> # ?rest\<rparr>"
  obtain x where x: "commitment_data J b1 = Some x"
    using p b m by (auto simp: prepare_commitment_def Let_def commitment_digest_def b1_def split: option.splits)
  let ?out = "\<lparr>amount = 0, scriptPubKey = commitment_prefix @ hash256 C x\<rparr>"
  obtain cb2 where cb2: "computeTxId C (json_dump_map J) (cb\<lparr>tokenMetadata := [], vout := ?vs @ [?out]\<rparr>) = Some cb2" "b' = b1\<lparr>transactions := cb2 # ?rest\<rparr>"
    using p b m x by (auto simp: prepare_commitment_def Let_def commitment_digest_def b1_def [symmetric])
  then obtain i where cb2': "cb2 = cb\<lparr>tokenMetadata := [], vout := ?vs @ [?out], txid := i\<rparr>"
    by (auto simp: computeTxId_def Let_def split: Option.bind_splits)
  have d: "commitment_data J b' = Some x"
    unfolding x [symmetric] by (rule commitment_data_cong) (simp_all add: cb2(2) b1_def)
  have meta: "dumped J (concat (map tokenMetadata ?rest)) = dumped J (blk_metadata b')"
    unfolding own_metadata_Some(1) [OF m] cb2(2) b1_def by (simp add: dumped_fold)
  have cnt: "count_commitments (commitment_prefix @ hash256 C x) (vout cb2) = (if plain_outputs (vout cb) then Some 1 else None)"
    using count_commitments_prepared [of "SHA256 C (SHA256 C x)" "vout cb"] len unfolding cb2' by (simp add: hash256_def)
  have own: "list_all (\<lambda>tx. list_all (\<lambda>(k, v). k = txid tx \<and> json_is_object J v) (tokenMetadata tx)) ?rest \<longleftrightarrow> objects_only J txs"
    using own_metadata_Some(2) [OF m] by (fastforce simp: strip_caches_def objects_only_def list_all_iff)
  have caches: "list_all (\<lambda>tx. sender tx = [] \<and> list_all (\<lambda>i. in_scriptPubKey i = []) (vin tx)) ?rest"
    by (simp add: strip_caches_def list_all_iff)
  have shape: "transactions b' = cb2 # ?rest" "isCoinbase cb2" "tokenMetadata cb2 = []" "blk_height b' = blk_height b"
    "commitment_digest C J b' = Some (hash256 C x)"
    using b(2) d by (simp_all add: cb2(2) b1_def cb2' commitment_digest_def)
  have "check_commitment C J b' \<longleftrightarrow> objects_only J txs \<and> plain_outputs (vout cb)"
    unfolding check_commitment_def shape list.case own using p(2) shape(2,3) meta cnt caches by simp
  then show ?thesis using b cb2' by (auto simp: cb2(2) b1_def)
qed

subsection \<open>Properties\<close>

text \<open>
  C10: the commitment binds the payload. Two accepted blocks above the activation height whose coinbase
  transactions have the same outputs commit to the same height, to the same bytes, ids and unlocking keys of
  every other transaction and to the same metadata, unless the double SHA-256 of two different payloads is
  the same; so no peer can swap a payload under an unchanged coinbase.
\<close>

theorem commitment_binds_payload:
  assumes "check_commitment C J b" "active (word_of_int (blk_height b)) COMMITMENT_HEIGHT"
    "check_commitment C J b'" "active (word_of_int (blk_height b')) COMMITMENT_HEIGHT"
    "vout (hd (transactions b)) = vout (hd (transactions b'))" "payload_fits J b" "payload_fits J b'"
    "\<forall>d d'. commitment_data J b = Some d \<and> commitment_data J b' = Some d' \<and> hash256 C d = hash256 C d' \<longrightarrow> d = d'"
  shows "(word_of_int (blk_height b) :: u32) = word_of_int (blk_height b') \<and>
    map (committed_fields J) (tl (transactions b)) = map (committed_fields J) (tl (transactions b')) \<and>
    dumped J (blk_metadata b) = dumped J (blk_metadata b')"
proof -
  obtain d where d: "transactions b \<noteq> []" "commitment_data J b = Some d"
    "count_commitments (commitment_prefix @ hash256 C d) (vout (hd (transactions b))) = Some 1"
    using assms(1,2) by (rule check_commitment_active)
  obtain d' where d': "transactions b' \<noteq> []" "commitment_data J b' = Some d'"
    "count_commitments (commitment_prefix @ hash256 C d') (vout (hd (transactions b'))) = Some 1"
    using assms(3,4) by (rule check_commitment_active)
  obtain u where u: "u \<in> set (vout (hd (transactions b)))" "has_prefix u"
    using count_commitments_Some(2) d(3) by fastforce
  have "scriptPubKey u = commitment_prefix @ hash256 C d" using count_commitments_Some(1) [OF d(3)] u by blast
  moreover have "scriptPubKey u = commitment_prefix @ hash256 C d'"
    using count_commitments_Some(1) [OF d'(3)] u assms(5) by simp
  ultimately have "d = d'" using assms(8) d(2) d'(2) by simp
  then show ?thesis using commitment_data_inject [OF d(2) _ assms(6,7) d(1) d'(1)] d'(2) by simp
qed


subsection \<open>A sample block\<close>

lemma sample_height: "active (word_of_int (blk_height (sample_block s))) COMMITMENT_HEIGHT"
  by (simp add: sample_block_def) code_simp

lemma sample_outputs:
  "plain_outputs (vout (hd (transactions (sample_block s))))"
  by (simp add: sample_block_def sample_coinbase_def) code_simp

lemma sample_prepares:
  "case prepare_commitment toy_crypto sample_json (sample_block [1]) of None \<Rightarrow> False | Some _ \<Rightarrow> True"
  "case prepare_commitment toy_crypto sample_json (sample_block [2]) of None \<Rightarrow> False | Some _ \<Rightarrow> True"
  by code_simp+

lemma sample_objects:
  "objects_only sample_json (tl (transactions (sample_block s)))"
  by (simp add: sample_block_def sample_tx_def objects_only_def)

lemma toy_digest: "\<forall>x. length (SHA256 toy_crypto x) = 32"
  by (auto simp: toy_crypto_def min_def)

lemma sample_pair:
  "case (prepare_commitment toy_crypto sample_json (sample_block [1]), prepare_commitment toy_crypto sample_json (sample_block [2])) of
     (Some b, Some b') \<Rightarrow> vout (hd (transactions b)) = vout (hd (transactions b')) \<and> payload_fits sample_json b \<and> payload_fits sample_json b' \<and>
       length (transactions b) = length (transactions b') \<and> scriptSig (hd (vin (hd (transactions b)))) \<noteq> scriptSig (hd (vin (hd (transactions b'))))
   | _ \<Rightarrow> False"
  by code_simp

lemma sample_checked:
  assumes "s = [1] \<or> s = [2]"
  obtains b' where "prepare_commitment toy_crypto sample_json (sample_block s) = Some b'"
    "check_commitment toy_crypto sample_json b'" "active (word_of_int (blk_height b')) COMMITMENT_HEIGHT"
    "transactions b' \<noteq> []" "tl (transactions b') = [strip_caches sample_tx]" "blk_height b' = 50000" "blk_metadata b' = []"
proof -
  obtain b' where b': "prepare_commitment toy_crypto sample_json (sample_block s) = Some b'"
    using sample_prepares assms by (auto split: option.splits)
  have "check_commitment toy_crypto sample_json b' \<and> blk_height b' = blk_height (sample_block s) \<and>
    tl (transactions b') = map strip_caches (tl (transactions (sample_block s)))"
    using prepare_checks [OF b' sample_height toy_digest] sample_objects sample_outputs by simp
  moreover have "transactions b' \<noteq> [] \<and> blk_metadata b' = []"
    using b' sample_height [of s]
    by (auto simp: prepare_commitment_def sample_block_def sample_coinbase_def Let_def strip_caches_def sample_tx_def split: option.splits)
  moreover have "tl (transactions (sample_block s)) = [sample_tx]" "blk_height (sample_block s) = 50000"
    by (simp_all add: sample_block_def)
  ultimately show ?thesis using that [OF b'] sample_height [of s] by auto
qed


theorem commitment_binds_payload_witness:
  "\<exists>b b'. prepare_commitment toy_crypto sample_json (sample_block [1]) = Some b \<and>
     prepare_commitment toy_crypto sample_json (sample_block [2]) = Some b' \<and> b \<noteq> b' \<and>
     map (committed_fields sample_json) (tl (transactions b)) = map (committed_fields sample_json) (tl (transactions b'))"
proof -
  obtain b where b: "prepare_commitment toy_crypto sample_json (sample_block [1]) = Some b"
    "check_commitment toy_crypto sample_json b" "active (word_of_int (blk_height b)) COMMITMENT_HEIGHT"
    "tl (transactions b) = [strip_caches sample_tx]" "transactions b \<noteq> []" "blk_height b = 50000" "blk_metadata b = []"
    using sample_checked [of "[1]"] by metis
  obtain b' where b': "prepare_commitment toy_crypto sample_json (sample_block [2]) = Some b'"
    "check_commitment toy_crypto sample_json b'" "active (word_of_int (blk_height b')) COMMITMENT_HEIGHT"
    "tl (transactions b') = [strip_caches sample_tx]" "transactions b' \<noteq> []" "blk_height b' = 50000" "blk_metadata b' = []"
    using sample_checked [of "[2]"] by metis
  have pair: "vout (hd (transactions b)) = vout (hd (transactions b'))" "payload_fits sample_json b" "payload_fits sample_json b'"
    "length (transactions b) = length (transactions b')" "b \<noteq> b'"
    using sample_pair b(1) b'(1) by auto
  have "commitment_data sample_json b = commitment_data sample_json b'" using b b' pair(4) by (intro commitment_data_cong) simp_all
  then have "\<forall>d d'. commitment_data sample_json b = Some d \<and> commitment_data sample_json b' = Some d' \<and> hash256 toy_crypto d = hash256 toy_crypto d' \<longrightarrow> d = d'"
    by (metis option.inject)
  from commitment_binds_payload [OF b(2,3) b'(2,3) pair(1-3) this] show ?thesis using b(1) b'(1) pair(5) by blast
qed

end
