(* ===== verification/Token_Metadata.thy ===== *)
theory Token_Metadata
  imports Block_Commitment Market_Settlement State_Commit
begin

text \<open>
  The token rules of a transaction in its chain: the attached metadata
  (\<open>src/src/token_metadata09.h\<close>, \<open>generateMetaHash\<close> of \<open>src/src/tokens.cpp\<close>) and
  \<open>validateConsensus09TransactionUnlocked\<close> of \<open>src/src/blockchain.cpp\<close> on a live chain, which finds the
  parents of the inputs and hands them to the market rules. The branch for private snapshots
  (\<open>validationOnly_\<close>) is not modelled. The chain is the record \<open>Blockchain\<close>, with the libraries it calls.
\<close>

record ('d, 'j) Blockchain =
  lib :: crypto
  chain_json :: "'j json"
  dbStorage :: "'d leveldb"
  db :: 'd
  utxoSet :: "string \<Rightarrow> u32 \<Rightarrow> UTXO option"
  blocks :: "'j Block list"
  blockIndex :: block_index
  contractStates :: "string \<rightharpoonup> state_map"
  tokenOwner :: "string \<Rightarrow> string \<Rightarrow> string option"
  chain_difficulty :: u32

subsection \<open>The hash of metadata\<close>

definition canonicalKey :: "string \<Rightarrow> bool" where
  "canonicalKey key \<longleftrightarrow>
     (if key = [] \<or> length key > 64 then False
      else list_all (\<lambda>c. (CHR ''a'' \<le> c \<and> c \<le> CHR ''z'') \<or> (CHR ''A'' \<le> c \<and> c \<le> CHR ''Z'') \<or> is_digit c \<or>
             c = CHR ''_'' \<or> c = CHR ''-'' \<or> c = CHR ''.'' \<or> c = CHR '':'') key)"

fun meta_strings :: "'j json \<Rightarrow> (string \<times> 'j) list \<Rightarrow> (string \<times> string) list option" where
  "meta_strings J [] = Some []"
| "meta_strings J ((key, item) # rest) =
     (if key = ''metaHash'' then meta_strings J rest
      else if \<not> canonicalKey key then None
      else case json_string J item of
        None \<Rightarrow> None
      | Some s \<Rightarrow> map_option (\<lambda>m. (key, s) # m) (meta_strings J rest))"

definition generateMetaHash :: "crypto \<Rightarrow> 'j json \<Rightarrow> 'j \<Rightarrow> string option" where
  "generateMetaHash C J metadata =
     (case json_items J metadata of
        None \<Rightarrow> None
      | Some items \<Rightarrow>
          map_option
            (\<lambda>m. hex_encode (SHA256 C (bytes_of_string
               (json_dump J (json_object J (map (\<lambda>(k, s). (k, json_str J s)) (sort_key fst m)))))))
            (meta_strings J items))"

subsection \<open>Attached metadata\<close>

definition token_type_name :: "nat \<Rightarrow> string" where
  "token_type_name t = [[], ''FT'', ''NFT'', ''SFT'', ''NCFT''] ! t"

text \<open>The first output that controls a token of the id.\<close>

fun find_control :: "'j Transaction \<Rightarrow> string \<Rightarrow> nat list \<Rightarrow> (nat \<times> Token) option" where
  "find_control tx i [] = None"
| "find_control tx i (n # ns) =
     (case branch tx n of
        Some tok \<Rightarrow> if aid (asset tok) = i then Some (n, tok) else find_control tx i ns
      | None \<Rightarrow> find_control tx i ns)"

definition issuance_fields :: "'j json \<Rightarrow> (string \<Rightarrow> string option) \<Rightarrow> (string \<times> 'j) list \<Rightarrow> nat \<Rightarrow> Token \<Rightarrow> bool" where
  "issuance_fields J address m n tok \<longleftrightarrow>
     (case map_of m ''owner'' of
        None \<Rightarrow> False
      | Some o' \<Rightarrow> json_string J o' \<noteq> None \<and> json_string J o' = address (owner tok)) \<and>
     (case map_of m ''amount'' of
        None \<Rightarrow> False
      | Some a \<Rightarrow>
          (case json_string J a of
             Some s \<Rightarrow> s = dec_string (unat (tk_amount tok))
           | None \<Rightarrow> json_number J a = Some (tk_amount tok))) \<and>
     (case map_of m ''controllingVout'' of
        None \<Rightarrow> n = 1
      | Some v \<Rightarrow> json_number J v = Some (word_of_nat n))"

definition metadata_entry ::
    "crypto \<Rightarrow> 'j json \<Rightarrow> (string \<Rightarrow> bool) \<Rightarrow> (string \<Rightarrow> string option) \<Rightarrow> 'j Transaction \<Rightarrow> string \<times> 'j \<Rightarrow> bool" where
  "metadata_entry C J exist address tx kv \<longleftrightarrow>
     (case json_items J (snd kv) of
        None \<Rightarrow> False
      | Some m \<Rightarrow>
          if fst kv \<noteq> txid tx then False
          else case map_of m ''tokenID'' of
            None \<Rightarrow> True
          | Some t \<Rightarrow>
              (case (json_string J t, map_of m ''type'', map_of m ''meta'') of
                 (Some i, Some ty', Some meta') \<Rightarrow>
                   (case (json_string J ty', json_items J meta') of
                      (Some name, Some _) \<Rightarrow>
                        (case find_control tx i [1..<length (vout tx)] of
                           None \<Rightarrow> False
                         | Some (n, tok) \<Rightarrow>
                             name = token_type_name (ty (asset tok)) \<and>
                             generateMetaHash C J meta' = Some (meta (asset tok)) \<and>
                             (exist i \<or> issuance_fields J address m n tok))
                    | _ \<Rightarrow> False)
               | _ \<Rightarrow> False))"

definition metadata_validate ::
    "crypto \<Rightarrow> 'j json \<Rightarrow> (string \<Rightarrow> bool) \<Rightarrow> (string \<Rightarrow> string option) \<Rightarrow> 'j Transaction \<Rightarrow> bool" where
  "metadata_validate C J exist address tx = list_all (metadata_entry C J exist address tx) (tokenMetadata tx)"

subsection \<open>Parents on the live chain\<close>

text \<open>\<open>std::lower_bound\<close> on a chain whose heights increase.\<close>

definition block_at :: "'j Block list \<Rightarrow> u32 \<Rightarrow> 'j Block option" where
  "block_at bs h =
     (case find (\<lambda>b. \<not> word_of_int (blk_height b) < h) bs of
        None \<Rightarrow> None | Some b \<Rightarrow> if (word_of_int (blk_height b) :: u32) \<noteq> h then None else Some b)"

definition parent_outputs :: "TxOut list \<Rightarrow> nat \<Rightarrow> TxOut list" where
  "parent_outputs us n =
     replicate (n - 1) \<lparr>amount = 0, scriptPubKey = []\<rparr> @ (if n = 0 then [us ! 0] else [us ! (n - 1), us ! n])"

definition read_parent :: "('d, 'j) Blockchain \<Rightarrow> 'j Transaction \<Rightarrow> nat \<Rightarrow> 'j Transaction option" where
  "read_parent bc tx i =
     (if i \<ge> length (vin tx) \<or> negative_vout (vin tx ! i) then None
      else case utxoSet bc (prev_txid (vin tx ! i)) (prev_vout (vin tx ! i)) of
        None \<Rightarrow> None
      | Some live \<Rightarrow>
          (case block_at (blocks bc) (createdAtHeight live) of
             None \<Rightarrow> None
           | Some parentBlock \<Rightarrow>
               (case find (\<lambda>candidate. txid candidate = prev_txid (vin tx ! i)) (transactions parentBlock) of
                  None \<Rightarrow> None
                | Some candidate \<Rightarrow>
                    let n = unat (prev_vout (vin tx ! i)) in
                    if n \<ge> length (vout candidate) \<or> scriptPubKey (vout candidate ! n) \<noteq> utxo_scriptPubKey live \<or>
                       amount (vout candidate ! n) \<noteq> utxo_amount live
                    then None
                    else Some \<lparr>isCoinbase = False, txid = [], sender = [], vin = [],
                               vout = parent_outputs (vout candidate) n, version = 1, lockTime = 0, tokenMetadata = []\<rparr>)))"

definition token_exists :: "('d, 'j) Blockchain \<Rightarrow> string list \<Rightarrow> string \<Rightarrow> bool" where
  "token_exists bc seenIds i \<longleftrightarrow>
     i \<in> set seenIds \<or> getWithDataChecksum (lib bc) (dbStorage bc) (db bc) (''tokenIssuance:'' @ i) \<noteq> None"

definition validateConsensus09Transaction ::
    "('d, 'j) Blockchain \<Rightarrow> 'j Transaction \<Rightarrow> u32 \<Rightarrow> string list \<Rightarrow> bool" where
  "validateConsensus09Transaction bc tx height seenIds =
     (if \<not> active height MARKET_HEIGHT then True
      else if \<not> metadata_validate (lib bc) (chain_json bc) (token_exists bc seenIds)
                   (\<lambda>own. extractAddressFromScriptPubKey (lib bc) (tokenOwner bc) (pay own) (txid tx) 0 0) tx
      then False
      else case validate tx height (read_parent bc tx) (token_exists bc seenIds) of Inl _ \<Rightarrow> False | Inr _ \<Rightarrow> True)"

end
