(* ===== verification/Input_Authorisation.thy ===== *)
theory Input_Authorisation
  imports Vm_Locks
begin

text \<open>
  What a successful run of a lock says about the unlock script, whatever that script is: a P2PKH lock is
  only passed by a public key with the locked hash and a signature the machine accepts under that key.
\<close>

subsection \<open>Forward steps\<close>

definition keeps :: "'j vm \<Rightarrow> 'j vm \<Rightarrow> bool" where
  "keeps v w \<longleftrightarrow> execStack (ctx w) = execStack (ctx v) \<and> ctx_tx (ctx w) = ctx_tx (ctx v) \<and>
     ctx_scriptPubKey (ctx w) = ctx_scriptPubKey (ctx v) \<and> sighash (ctx w) = sighash (ctx v)"

lemma keeps_trans: "keeps u v \<Longrightarrow> keeps v w \<Longrightarrow> keeps u w"
  by (simp add: keeps_def)

lemma gas_keeps: "gas n v = Some v' \<Longrightarrow> keeps v v' \<and> stack v' = stack v"
  by (auto simp: keeps_def gas_def consumeGas_def Let_def split: option.splits if_splits)

lemma push_keeps: "pushStack x v = Some v' \<Longrightarrow> keeps v v' \<and> stack v' = x # stack v"
  by (auto simp: keeps_def pushStack_def split: if_splits)

lemma pop_keeps: "popStack v = Some (x, v') \<Longrightarrow> keeps v v' \<and> stack v = x # stack v'"
  by (auto simp: keeps_def popStack_def split: list.splits)

lemma replace_keeps: "replaceTop x v = Some v' \<Longrightarrow> keeps v v' \<and> stack v' = x # tl (stack v)"
  by (auto simp: keeps_def replaceTop_def Let_def split: list.splits if_splits)

lemma loop_op:
  assumes "eval_loop C scr (op # pc) v = Some w" "executing v" "op \<notin> conditionals" "\<not> is_push_opcode op"
    "op \<noteq> OP_RETURN" "op \<noteq> OP_HALT"
  obtains v1 v2 where "gas 1 v = Some v1" "exec_op C scr op v1 = Some v2" "eval_loop C scr pc v2 = Some w"
proof -
  obtain v1 where g: "gas 1 v = Some v1" using assms(1) by (auto simp: eval_loop_Cons step_def split: option.splits)
  have "executing v1" using gas_keeps [OF g] assms(2) by (simp add: executing_def keeps_def)
  moreover have "push_span op pc = None" using assms(4) by (simp add: push_span_None)
  ultimately have "(case exec_op C scr op v1 of None \<Rightarrow> None | Some v2 \<Rightarrow> eval_loop C scr pc v2) = Some w"
    using assms g by (auto simp: eval_loop_Cons step_def conditionals_def split: option.splits)
  then obtain v2 where "exec_op C scr op v1 = Some v2" "eval_loop C scr pc v2 = Some w" by (auto split: option.splits)
  then show ?thesis using that g by blast
qed

lemma loop_push20:
  assumes "eval_loop C scr (canonical_push h @ pc) v = Some w" "executing v" "length h = 20"
  obtains v' where "keeps v v'" "stack v' = h # stack v" "eval_loop C scr pc v' = Some w"
proof -
  have p: "canonical_push h @ pc = 20 # h @ pc" using assms(3) by (simp add: canonical_push_def)
  obtain v1 where g: "gas 1 v = Some v1" using assms(1) by (auto simp: p eval_loop_Cons step_def split: option.splits)
  have ex: "executing v1" using gas_keeps [OF g] assms(2) by (simp add: executing_def keeps_def)
  have "push_span 20 (h @ pc) = Some (Some (20, h @ pc))" by (simp add: push_span_def)
  then obtain v2 v3 where v: "pushStack h v1 = Some v2" "gas 20 v2 = Some v3" "eval_loop C scr pc v3 = Some w"
    using assms(1,3) ex g by (auto simp: p eval_loop_Cons step_defs bind_eq_Some_conv split: option.splits)
  show ?thesis
    using that [of v3] gas_keeps [OF g] push_keeps [OF v(1)] gas_keeps [OF v(2)] v(3) keeps_trans by metis
qed

lemma dup_forward:
  assumes "exec_op C scr OP_DUP v = Some v'" "ctx_tx (ctx v) \<noteq> None"
  shows "keeps v v' \<and> (\<exists>x s. stack v = x # s \<and> stack v' = x # x # s)"
proof -
  obtain x s v1 where v: "stack v = x # s" "pushStack x v = Some v1" "gas 2 v1 = Some v'"
    using assms by (auto simp: exec_op_def op_dup_def isSimulationMode_def bind_eq_Some_conv split: list.splits)
  then show ?thesis using push_keeps [OF v(2)] gas_keeps [OF v(3)] by (simp add: keeps_def)
qed

lemma hash160_forward:
  assumes "exec_op C scr OP_HASH160 v = Some v'" "stack v = x # s"
  shows "keeps v v' \<and> stack v' = computeHash160 C x # s"
proof -
  obtain v1 where v: "replaceTop (computeHash160 C x) v = Some v1" "gas 15 v1 = Some v'"
    using assms by (auto simp: exec_op_def op_hash160_def bind_eq_Some_conv)
  then show ?thesis using assms(2) replace_keeps [OF v(1)] gas_keeps [OF v(2)] by (simp add: keeps_def)
qed

lemma equalverify_forward:
  assumes "exec_op C scr OP_EQUALVERIFY v = Some v'" "stack v = x # y # s"
  shows "keeps v v' \<and> x = y \<and> stack v' = s"
proof -
  obtain a v1 b v2 where "popStack v = Some (a, v1)" "popStack v1 = Some (b, v2)" "a = b" "gas 5 v2 = Some v'"
    using assms by (auto simp: exec_op_def op_equalverify_def bind_eq_Some_conv split: if_splits)
  then show ?thesis using assms(2) pop_keeps [of v a v1] pop_keeps [of v1 b v2] gas_keeps [of 5 v2 v'] by (auto simp: keeps_def)
qed

lemma checksig_forward:
  assumes "exec_op C scr OP_CHECKSIG v = Some v'" "ctx_tx (ctx v) \<noteq> None" "stack v = pk # s"
  shows "keeps v v' \<and> (\<exists>sg r. s = sg # r \<and> stack v' = bool_item (signatureCheckFunc C pk sg (sighash (ctx v))) # r)"
proof -
  obtain a v1 b v2 v3 where p: "popStack v = Some (a, v1)" "popStack v1 = Some (b, v2)"
    "pushStack (bool_item (signatureCheckFunc C a b (sighash (ctx v)))) v2 = Some v3" "gas 100 v3 = Some v'"
    using assms by (auto simp: exec_op_def op_checksig_def isSimulationMode_def bind_eq_Some_conv split: if_splits)
  note k = pop_keeps [OF p(1)] pop_keeps [OF p(2)] push_keeps [OF p(3)] gas_keeps [OF p(4)]
  have "keeps v v'" using k keeps_trans by blast
  then show ?thesis using k assms(3) by auto
qed

subsection \<open>Key-hash locks\<close>

lemma p2pkh_forward:
  assumes "eval_loop C scr (p2pkh_script h) v = Some w" "execStack (ctx v) = [True]" "ctx_tx (ctx v) \<noteq> None" "length h = 20"
    "stack w \<noteq> []" "truth (hd (stack w))"
  shows "\<exists>pk sg s. stack v = pk # sg # s \<and> computeHash160 C pk = h \<and> signatureCheckFunc C pk sg (sighash (ctx v))"
proof -
  have ex: "executing u" if "keeps v u" for u using that assms(2) by (simp add: executing_def keeps_def)
  have tx: "ctx_tx (ctx u) \<noteq> None" if "keeps v u" for u using that assms(3) by (simp add: keeps_def)
  note split_ops = conditionals_def is_push_opcode_def
  have refl: "keeps v v" by (simp add: keeps_def)
  obtain a1 a2 where a: "gas 1 v = Some a1" "exec_op C scr OP_DUP a1 = Some a2"
    "eval_loop C scr (OP_HASH160 # canonical_push h @ [OP_EQUALVERIFY, OP_CHECKSIG]) a2 = Some w"
    using assms(1) ex [OF refl] by (auto simp: p2pkh_script_push [OF assms(4)] split_ops elim: loop_op)
  have ka: "keeps v a1" "stack a1 = stack v" using gas_keeps [OF a(1)] by simp_all
  obtain pk s where pk: "stack v = pk # s" "stack a2 = pk # pk # s" "keeps v a2"
    using dup_forward [OF a(2) tx [OF ka(1)]] ka keeps_trans by metis
  obtain b1 b2 where b: "gas 1 a2 = Some b1" "exec_op C scr OP_HASH160 b1 = Some b2"
    "eval_loop C scr (canonical_push h @ [OP_EQUALVERIFY, OP_CHECKSIG]) b2 = Some w"
    using a(3) ex [OF pk(3)] by (auto simp: split_ops elim: loop_op)
  have kb: "keeps v b2" "stack b2 = computeHash160 C pk # pk # s"
    using gas_keeps [OF b(1)] hash160_forward [OF b(2)] pk keeps_trans by metis+
  obtain c where c: "keeps b2 c" "stack c = h # stack b2" "eval_loop C scr [OP_EQUALVERIFY, OP_CHECKSIG] c = Some w"
    using b(3) ex [OF kb(1)] assms(4) by (rule loop_push20)
  have kc: "keeps v c" using kb(1) c(1) by (rule keeps_trans)
  obtain d1 d2 where d: "gas 1 c = Some d1" "exec_op C scr OP_EQUALVERIFY d1 = Some d2" "eval_loop C scr [OP_CHECKSIG] d2 = Some w"
    using c(3) ex [OF kc] by (auto simp: split_ops elim: loop_op)
  have kd: "keeps v d2" "h = computeHash160 C pk" "stack d2 = pk # s"
    using gas_keeps [OF d(1)] equalverify_forward [OF d(2)] kc kb(2) c(2) keeps_trans by metis+
  obtain e1 e2 where e: "gas 1 d2 = Some e1" "exec_op C scr OP_CHECKSIG e1 = Some e2" "eval_loop C scr [] e2 = Some w"
    using d(3) ex [OF kd(1)] by (auto simp: split_ops elim: loop_op)
  have ke: "keeps v e1" "stack e1 = pk # s" using gas_keeps [OF e(1)] kd keeps_trans by metis+
  obtain sg r where sg: "s = sg # r" "stack e2 = bool_item (signatureCheckFunc C pk sg (sighash (ctx e1))) # r"
    using checksig_forward [OF e(2) tx [OF ke(1)] ke(2)] by blast
  have "stack w = stack e2" using e(3) by (auto simp: eval_loop_Nil split: if_splits)
  then have "signatureCheckFunc C pk sg (sighash (ctx e1))" using assms(6) sg(2) by (auto simp: truth_def bool_item_def split: if_splits)
  then show ?thesis using pk(1) sg(1) kd(2) ke(1) by (auto simp: keeps_def)
qed

lemma p2pkh_sound:
  assumes "VerifyScripts C unlock (p2pkh_script h) c = Some c'" "ctx_tx c \<noteq> None" "length h = 20"
  shows "\<exists>pk sg. computeHash160 C pk = h \<and> signatureCheckFunc C pk sg (sighash c)"
proof -
  obtain stk c1 stk2 where e: "EvaluateScript C unlock [] c = Some (stk, c1)"
    "EvaluateScript C (p2pkh_script h) stk c1 = Some (stk2, c')" "stk2 \<noteq> []" "truth (hd stk2)"
    using VerifyScripts_parts [OF assms(1)] by blast
  have "\<exists>v'. stack v' = stk \<and> ctx v' = c1 \<and> same_context c v'"
    by (rule vm_frame.evaluate [OF e(1)]) (simp add: same_context_def)
  then have c1: "c1\<lparr>gasUsed := gasUsed c, state := state c, execStack := execStack c\<rparr> = c" by (auto simp: same_context_def)
  have "ctx_tx (c1\<lparr>gasUsed := gasUsed c, state := state c, execStack := execStack c\<rparr>) = ctx_tx c1"
    "sighash (c1\<lparr>gasUsed := gasUsed c, state := state c, execStack := execStack c\<rparr>) = sighash c1" by simp_all
  then have k: "ctx_tx c1 = ctx_tx c" "sighash c1 = sighash c" unfolding c1 by simp_all
  obtain tot v where v: "execStack c1 = [True]" "stk2 = stack v"
    "eval_loop C (p2pkh_script h) (p2pkh_script h) \<lparr>stack = stk, stackBytes = tot, ctx = c1\<rparr> = Some v"
    using e(2) by (auto simp: EvaluateScript_def split: option.splits if_splits)
  from p2pkh_forward [OF v(3)] show ?thesis using v e(3,4) k assms(2,3) by auto
qed

end
