(* ===== verification/Block_Validation.thy ===== *)
theory Block_Validation
  imports Token_Metadata Input_Authorisation
begin

text \<open>
  \<open>Blockchain::validateBlock\<close> (\<open>src/src/blockchain.cpp\<close>) with the limits of \<open>src/src/tru_limits.h\<close>: the
  resource shape of a transaction, the height a coinbase commits to, the checks of an input (coin, script
  budget, state call or ordinary scripts), of a transaction and of a whole block. The result is the message
  that is logged, shortened, or the totals of the block. The wall clock is the argument \<open>now\<close>. Sets of
  strings are lists; machine integers keep their width.
\<close>

subsection \<open>Limits\<close>

definition MAX_BLOCK_BYTES :: nat where "MAX_BLOCK_BYTES = 64 * 1024 * 1024"
definition MAX_CONSENSUS_TX_BYTES :: nat where "MAX_CONSENSUS_TX_BYTES = 4 * 1024 * 1024"
definition MAX_TX_INPUTS :: nat where "MAX_TX_INPUTS = 1000"
definition MAX_TX_OUTPUTS :: nat where "MAX_TX_OUTPUTS = 1000"
definition MAX_BLOCK_INPUTS :: nat where "MAX_BLOCK_INPUTS = 20000"
definition MAX_BLOCK_OUTPUTS :: nat where "MAX_BLOCK_OUTPUTS = 20000"
definition MAX_BLOCK_STATE_INIT_ACCOUNTED_BYTES :: nat where "MAX_BLOCK_STATE_INIT_ACCOUNTED_BYTES = 200 * 1024"
definition MAX_MONEY :: u64 where "MAX_MONEY = 21000000 * 100000000"
definition MAX_TX_SCRIPT_OPS :: u64 where "MAX_TX_SCRIPT_OPS = 20000"
definition MAX_BLOCK_SCRIPT_OPS :: u64 where "MAX_BLOCK_SCRIPT_OPS = 100000"
definition MAX_TX_SIGOPS :: u64 where "MAX_TX_SIGOPS = 4000"
definition MAX_BLOCK_SIGOPS :: u64 where "MAX_BLOCK_SIGOPS = 20000"
definition MAX_TX_SCRIPT_GAS :: u64 where "MAX_TX_SCRIPT_GAS = 4000000"
definition MAX_BLOCK_SCRIPT_GAS :: u64 where "MAX_BLOCK_SCRIPT_GAS = 20000000"
definition COINBASE_MATURITY :: u32 where "COINBASE_MATURITY = 100"

lemmas block_limit_defs =
  MAX_BLOCK_BYTES_def MAX_CONSENSUS_TX_BYTES_def MAX_TX_INPUTS_def MAX_TX_OUTPUTS_def MAX_BLOCK_INPUTS_def
  MAX_BLOCK_OUTPUTS_def MAX_BLOCK_STATE_INIT_ACCOUNTED_BYTES_def MAX_MONEY_def MAX_TX_SCRIPT_OPS_def
  MAX_BLOCK_SCRIPT_OPS_def MAX_TX_SIGOPS_def MAX_BLOCK_SIGOPS_def MAX_TX_SCRIPT_GAS_def MAX_BLOCK_SCRIPT_GAS_def
  COINBASE_MATURITY_def MAX_SCRIPT_GAS_PER_INPUT_def MAX_SCRIPT_BYTES_def

definition isValidHex :: "string \<Rightarrow> bool" where
  "isValidHex s = list_all (\<lambda>c. nibble c \<noteq> None) s"

subsection \<open>The coinbase height\<close>

fun committed_height :: "string \<Rightarrow> string list \<Rightarrow> u64 option" where
  "committed_height scr [] = None"
| "committed_height scr (p # ps) =
     (if \<not> prefix p scr then committed_height scr ps
      else
        let rest = drop (length p) scr; digits = takeWhile is_digit rest; after = dropWhile is_digit rest in
        if digits = [] then None
        else if after \<noteq> [] \<and> hd after \<noteq> CHR ''|'' then None
        else stoull digits)"

definition extractCommittedCoinbaseHeight :: "'j Transaction \<Rightarrow> u64 option" where
  "extractCommittedCoinbaseHeight cb =
     (if \<not> isCoinbase cb \<or> length (vin cb) \<noteq> 1 then None
      else committed_height (string_of_bytes (scriptSig (vin cb ! 0))) [''height:'', ''GPUHeight:'', ''TRU:''])"

subsection \<open>The resource shape of a transaction\<close>

record shape_totals =
  blockInputs :: nat
  blockOutputs :: nat
  blockStateInitBytes :: nat

definition input_shape :: "bool \<Rightarrow> TxIn \<Rightarrow> string option" where
  "input_shape coinbase i =
     (if length (scriptSig i) > MAX_SCRIPT_BYTES then Some ''scriptSig byte limit exceeded''
      else if \<not> coinbase \<and> (length (prev_txid i) \<noteq> 64 \<or> \<not> isValidHex (prev_txid i) \<or> negative_vout i)
      then Some ''malformed input outpoint'' else None)"

definition output_shape :: "TxOut \<Rightarrow> bool" where
  "output_shape u \<longleftrightarrow>
     \<not> (scriptPubKey u = [] \<or> odd (length (scriptPubKey u)) \<or> length (scriptPubKey u) div 2 > MAX_SCRIPT_BYTES \<or>
        \<not> isValidHex (scriptPubKey u))"

definition validateTxResourceShape ::
    "'j json \<Rightarrow> bool \<Rightarrow> 'j Transaction \<Rightarrow> shape_totals \<Rightarrow> string + shape_totals" where
  "validateTxResourceShape J allowStatefulCalls tx t =
     (if vin tx = [] \<or> vout tx = [] then Inl ''transaction has empty inputs/outputs''
      else if length (vin tx) > MAX_TX_INPUTS \<or> length (vout tx) > MAX_TX_OUTPUTS
      then Inl ''transaction input/output limit exceeded''
      else if length (vin tx) > MAX_BLOCK_INPUTS - blockInputs t \<or> length (vout tx) > MAX_BLOCK_OUTPUTS - blockOutputs t
      then Inl ''block input/output budget exceeded''
      else case serializeBinary (json_dump_map J) tx of
        None \<Rightarrow> Inl ''transaction serialization failed''
      | Some raw \<Rightarrow>
          if raw = [] \<or> length raw > MAX_CONSENSUS_TX_BYTES then Inl ''transaction byte limit exceeded''
          else case find (\<lambda>i. input_shape (isCoinbase tx) i \<noteq> None) (vin tx) of
            Some i \<Rightarrow> Inl (the (input_shape (isCoinbase tx) i))
          | None \<Rightarrow>
              if \<not> list_all output_shape (vout tx) then Inl ''malformed/oversized output script''
              else case ValidateStatefulCreationShape tx of
                Inl reason \<Rightarrow> Inl (''invalid stateful creation shape: '' @ reason)
              | Inr stateCreation \<Rightarrow>
                  if hasCallCandidate stateCreation \<and> \<not> allowStatefulCalls
                  then Inl ''stateful continuation calls are disabled on side/index-only validation''
                  else if hasCreation stateCreation \<and>
                          (blockStateInitBytes t > MAX_BLOCK_STATE_INIT_ACCOUNTED_BYTES \<or>
                           accountedStateBytes stateCreation > MAX_BLOCK_STATE_INIT_ACCOUNTED_BYTES - blockStateInitBytes t)
                  then Inl ''block state-initialization byte budget exceeded''
                  else Inr (t\<lparr>blockStateInitBytes := blockStateInitBytes t +
                                 (if hasCreation stateCreation then accountedStateBytes stateCreation else 0),
                               blockInputs := blockInputs t + length (vin tx),
                               blockOutputs := blockOutputs t + length (vout tx)\<rparr>))"

fun shape_all :: "'j json \<Rightarrow> 'j Transaction list \<Rightarrow> shape_totals \<Rightarrow> string + shape_totals" where
  "shape_all J [] t = Inr t"
| "shape_all J (tx # txs) t =
     (case validateTxResourceShape J True tx t of Inl e \<Rightarrow> Inl e | Inr t' \<Rightarrow> shape_all J txs t')"

subsection \<open>Budgets\<close>

record budget =
  txScriptOps :: u64
  txSigOps :: u64
  blockScriptOps :: u64
  blockSigOps :: u64

definition addScriptMetricsChecked :: "ScriptResourceMetrics \<Rightarrow> ScriptResourceMetrics \<Rightarrow> budget \<Rightarrow> budget option" where
  "addScriptMetricsChecked a b t =
     (if opCount a > u64_max - opCount b \<or> sigOpCost a > u64_max - sigOpCost b then None
      else
        let addOps = opCount a + opCount b; addSigOps = sigOpCost a + sigOpCost b in
        if addOps > MAX_TX_SCRIPT_OPS - txScriptOps t \<or> addSigOps > MAX_TX_SIGOPS - txSigOps t \<or>
           addOps > MAX_BLOCK_SCRIPT_OPS - blockScriptOps t \<or> addSigOps > MAX_BLOCK_SIGOPS - blockSigOps t
        then None
        else Some (t\<lparr>txScriptOps := txScriptOps t + addOps, txSigOps := txSigOps t + addSigOps,
                     blockScriptOps := blockScriptOps t + addOps, blockSigOps := blockSigOps t + addSigOps\<rparr>))"

definition input_gas_limit :: "u64 \<Rightarrow> u64 \<Rightarrow> u64 option" where
  "input_gas_limit txGas blockGas =
     (if txGas \<ge> MAX_TX_SCRIPT_GAS \<or> blockGas \<ge> MAX_BLOCK_SCRIPT_GAS then None
      else
        let limit = min MAX_SCRIPT_GAS_PER_INPUT (min (MAX_TX_SCRIPT_GAS - txGas) (MAX_BLOCK_SCRIPT_GAS - blockGas)) in
        if limit = 0 then None else Some limit)"

definition add_gas :: "u64 \<Rightarrow> u64 \<Rightarrow> u64 \<Rightarrow> (u64 \<times> u64) option" where
  "add_gas used txGas blockGas =
     (if used > MAX_TX_SCRIPT_GAS - txGas \<or> used > MAX_BLOCK_SCRIPT_GAS - blockGas then None
      else Some (txGas + used, blockGas + used))"

subsection \<open>Running totals\<close>

record totals =
  spentUTXOs :: "string list"
  seenTokenIds09 :: "string list"
  touchedStateRoots :: "string list"
  totalFees :: u64
  ops :: budget
  blockGasUsed :: u64
  inSum :: u64
  txGasUsed :: u64
  sawStatefulCallInput :: bool

definition utxoKey :: "TxIn \<Rightarrow> string" where
  "utxoKey i = prev_txid i @ CHR '':'' # dec_int (sint (prev_vout i))"

subsection \<open>The coin of an input\<close>

definition mature :: "u32 \<Rightarrow> UTXO \<Rightarrow> bool" where
  "mature height u \<longleftrightarrow>
     \<not> (utxo_isCoinbase u \<and> (height \<le> createdAtHeight u \<or> height - createdAtHeight u < COINBASE_MATURITY))"

definition input_coin :: "('d, 'j) Blockchain \<Rightarrow> u32 \<Rightarrow> bool \<Rightarrow> nat \<Rightarrow> TxIn \<Rightarrow> totals \<Rightarrow> string + UTXO \<times> u64" where
  "input_coin bc height creation j i t =
     (if utxoKey i \<in> set (spentUTXOs t) then Inl ''Double-spend detected''
      else case utxoSet bc (prev_txid i) (prev_vout i) of
        None \<Rightarrow> Inl ''Missing UTXO for input''
      | Some u \<Rightarrow>
          if creation \<and> j = 0 \<and> ExtractCanonicalP2PKHHash160Hex (utxo_scriptPubKey u) = None
          then Inl ''stateful V1 creator input must be standard P2PKH''
          else if \<not> mature height u then Inl ''Spending immature coinbase''
          else if utxo_amount u > MAX_MONEY then Inl ''Input UTXO exceeds MAX_MONEY''
          else if inSum t > MAX_MONEY - utxo_amount u then Inl ''Input sum exceeds MAX_MONEY''
          else Inr (u, inSum t + utxo_amount u))"

subsection \<open>The scripts of an input\<close>

definition input_scripts :: "u32 \<Rightarrow> TxIn \<Rightarrow> UTXO \<Rightarrow> budget \<Rightarrow> string + bytes \<times> budget" where
  "input_scripts height i u b =
     (case hexDecode (utxo_scriptPubKey u) of
        None \<Rightarrow> Inl ''Invalid scriptPubKey encoding for UTXO''
      | Some scr \<Rightarrow>
          if scr = [] \<or> length scr > MAX_SCRIPT_BYTES \<or> length (scriptSig i) > MAX_SCRIPT_BYTES
          then Inl ''Script byte limit exceeded for UTXO''
          else if hd scr = OP_RETURN then Inl ''Attempt to spend unspendable OP_RETURN UTXO''
          else case (AnalyzeScriptResources height (scriptSig i), AnalyzeScriptResources height scr) of
            (Some unlockMetrics, Some lockMetrics) \<Rightarrow>
              (case addScriptMetricsChecked unlockMetrics lockMetrics b of
                 None \<Rightarrow> Inl ''script/sigop budget exceeded'' | Some b' \<Rightarrow> Inr (scr, b'))
          | _ \<Rightarrow> Inl ''script/sigop budget exceeded'')"

text \<open>A state call: the caller, the execution of the family, the gas.\<close>

definition block_caller :: "('d, 'j) Blockchain \<Rightarrow> TxIn \<Rightarrow> string + string \<times> string" where
  "block_caller bc callerVin =
     (case utxoSet bc (prev_txid callerVin) (prev_vout callerVin) of
        None \<Rightarrow> Inl ''missing caller funding UTXO for stateful call''
      | Some callerUtxo \<Rightarrow>
          (case ExtractCanonicalP2PKHHash160Hex (utxo_scriptPubKey callerUtxo) of
             None \<Rightarrow> Inl ''stateful V1 caller input must be standard P2PKH''
           | Some callerHash160 \<Rightarrow>
               (case extractAddressFromScriptPubKey (lib bc) (tokenOwner bc) (utxo_scriptPubKey callerUtxo)
                       (prev_txid callerVin) (prev_vout callerVin) 0 of
                  None \<Rightarrow> Inl ''unable to derive stateful caller address''
                | Some callerAddress \<Rightarrow>
                    if callerAddress = [] then Inl ''unable to derive stateful caller address''
                    else Inr (callerHash160, callerAddress))))"

definition execute_call ::
    "crypto \<Rightarrow> 'j Transaction \<Rightarrow> StatefulCallShapeResult \<Rightarrow> bytes \<Rightarrow> ConfirmedStateDomainSnapshot \<Rightarrow> string \<Rightarrow>
       string \<Rightarrow> u32 \<Rightarrow> u32 \<Rightarrow> u64 \<Rightarrow> string + u64" where
  "execute_call C tx callShape scr snapshot callerHash160 callerAddress time height limit =
     (if snap_family snapshot = [] then
        (if callerHash160 \<noteq> snap_ownerHash160 snapshot then Inl ''unauthorized Stateful K/V V1 caller''
         else case ExecuteStatefulKvV1Call C tx callShape scr snapshot callerAddress time height limit True of
           Inl e \<Rightarrow> Inl e | Inr r \<Rightarrow> Inr (kv_gasUsed r))
      else if snap_family snapshot = ''voting_v1'' then
        (case ExecuteVotingV1Call C tx callShape scr snapshot callerHash160 callerAddress time height limit True of
           Inl e \<Rightarrow> Inl e | Inr r \<Rightarrow> Inr (vote_gasUsed r))
      else if snap_family snapshot = ''token_issuer_v1'' then
        (case ExecuteTokenIssuerV1Call C tx callShape scr snapshot callerHash160 callerAddress time height limit True of
           Inl e \<Rightarrow> Inl e | Inr r \<Rightarrow> Inr (issue_gasUsed r))
      else Inl ''unsupported confirmed stateful family'')"

definition state_call ::
    "('d, 'j) Blockchain \<Rightarrow> u32 \<Rightarrow> u32 \<Rightarrow> 'j Transaction \<Rightarrow> nat \<Rightarrow> UTXO \<Rightarrow> bytes \<Rightarrow> totals \<Rightarrow> string + totals" where
  "state_call bc height time tx j u scr t =
     (case ValidateStatefulCallShape (lib bc) tx j (utxo_scriptPubKey u) (utxo_amount u) of
        Inl reason \<Rightarrow> Inl (''invalid state-anchor call shape: '' @ reason)
      | Inr callShape \<Rightarrow>
          let current = BuildCanonicalContractOutpoint (prev_txid (vin tx ! j)) (prev_vout (vin tx ! j)) in
          if current = [] then Inl ''confirmed state-domain load failed''
          else case LoadConfirmedStateDomain (dbStorage bc) (db bc) current of
            Inl reason \<Rightarrow> Inl (''confirmed state-domain load failed: '' @ reason)
          | Inr snapshot \<Rightarrow>
              if snap_root snapshot \<in> set (touchedStateRoots t)
              then Inl ''more than one Stateful K/V call for root in one block''
              else case block_caller bc (vin tx ! callerInputIndex callShape) of
                Inl e \<Rightarrow> Inl e
              | Inr (callerHash160, callerAddress) \<Rightarrow>
                  (case input_gas_limit (txGasUsed t) (blockGasUsed t) of
                     None \<Rightarrow> Inl ''transaction/block gas budget exhausted''
                   | Some limit \<Rightarrow>
                       (case execute_call (lib bc) tx callShape scr snapshot callerHash160 callerAddress time height limit of
                          Inl e \<Rightarrow> Inl e
                        | Inr used \<Rightarrow>
                            (case add_gas used (txGasUsed t) (blockGasUsed t) of
                               None \<Rightarrow> Inl ''stateful V1 gas accounting breach''
                             | Some (tg, bg) \<Rightarrow>
                                 Inr (t\<lparr>touchedStateRoots := snap_root snapshot # touchedStateRoots t, txGasUsed := tg,
                                        blockGasUsed := bg, sawStatefulCallInput := True\<rparr>)))))"

text \<open>The cache of the signature hash is transparent, so the computation starts from an empty one.\<close>

definition computeSighash :: "crypto \<Rightarrow> 'j json \<Rightarrow> 'j Transaction \<Rightarrow> nat \<Rightarrow> bytes \<Rightarrow> bytes" where
  "computeSighash C J tx j scr =
     (case getSigHash C (json_dump_map J) tx j scr [] of None \<Rightarrow> [] | Some (s, _) \<Rightarrow> s)"

definition input_context ::
    "('d, 'j) Blockchain \<Rightarrow> u32 \<Rightarrow> u32 \<Rightarrow> u32 \<Rightarrow> 'j Transaction \<Rightarrow> nat \<Rightarrow> bytes \<Rightarrow> u64 \<Rightarrow> string \<Rightarrow> 'j ScriptExecutionContext" where
  "input_context bc height time mtp tx j scr limit inputSender =
     (let contractIdentity = BuildContractIdentity (prev_txid (vin tx ! j)) (prev_vout (vin tx ! j)) in
      BuildScriptExecutionContext
        (default_spec\<lparr>spec_gasLimit := limit, spec_tx := Some tx, spec_blockTime := time, spec_medianTimePast := mtp,
           spec_inputIndex := j, spec_scriptPubKey := Some scr,
           spec_sighash := computeSighash (lib bc) (chain_json bc) tx j scr, spec_chainCtx := True,
           spec_execHeight := height, spec_marketValidated09 := active height MARKET_HEIGHT, spec_sender := inputSender,
           spec_state := Some (case contractStates bc contractIdentity of None \<Rightarrow> [] | Some m \<Rightarrow> m),
           spec_contractAddress := contractIdentity\<rparr>))"

definition ordinary_input ::
    "('d, 'j) Blockchain \<Rightarrow> u32 \<Rightarrow> u32 \<Rightarrow> u32 \<Rightarrow> 'j Transaction \<Rightarrow> nat \<Rightarrow> UTXO \<Rightarrow> bytes \<Rightarrow> totals \<Rightarrow> string + totals" where
  "ordinary_input bc height time mtp tx j u scr t =
     (case input_gas_limit (txGasUsed t) (blockGasUsed t) of
        None \<Rightarrow> Inl ''transaction/block gas budget exhausted''
      | Some limit \<Rightarrow>
          (case extractAddressFromScriptPubKey (lib bc) (tokenOwner bc) (utxo_scriptPubKey u)
                  (prev_txid (vin tx ! j)) (prev_vout (vin tx ! j)) 0 of
             None \<Rightarrow> Inl ''address decoding exception''
           | Some inputSender \<Rightarrow>
               if BuildContractIdentity (prev_txid (vin tx ! j)) (prev_vout (vin tx ! j)) = []
               then Inl ''Cannot derive contract identity for input''
               else case VerifyScripts (lib bc) (scriptSig (vin tx ! j)) scr
                           (input_context bc height time mtp tx j scr limit inputSender) of
                 None \<Rightarrow> Inl ''Script verification failed for input''
               | Some c \<Rightarrow>
                   if gasUsed c > limit then Inl ''script gas accounting overflow/budget breach''
                   else case add_gas (gasUsed c) (txGasUsed t) (blockGasUsed t) of
                     None \<Rightarrow> Inl ''script gas accounting overflow/budget breach''
                   | Some (tg, bg) \<Rightarrow> Inr (t\<lparr>txGasUsed := tg, blockGasUsed := bg\<rparr>)))"

subsection \<open>Inputs and transactions\<close>

definition validate_input ::
    "('d, 'j) Blockchain \<Rightarrow> u32 \<Rightarrow> u32 \<Rightarrow> u32 \<Rightarrow> bool \<Rightarrow> 'j Transaction \<Rightarrow> nat \<Rightarrow> totals \<Rightarrow> string + totals" where
  "validate_input bc height time mtp creation tx j t =
     (case input_coin bc height creation j (vin tx ! j) t of
        Inl e \<Rightarrow> Inl e
      | Inr (u, s) \<Rightarrow>
          (case input_scripts height (vin tx ! j) u (ops t) of
             Inl e \<Rightarrow> Inl e
           | Inr (scr, b) \<Rightarrow>
               let statefulScan = ScanStatefulContractScript scr; t1 = t\<lparr>inSum := s, ops := b\<rparr> in
               if \<not> scan_valid statefulScan then Inl ''malformed stateful-script scan''
               else case (if usesStateDomain statefulScan then state_call bc height time tx j u scr t1
                          else ordinary_input bc height time mtp tx j u scr t1) of
                 Inl e \<Rightarrow> Inl e
               | Inr t2 \<Rightarrow> Inr (t2\<lparr>spentUTXOs := utxoKey (vin tx ! j) # spentUTXOs t2\<rparr>)))"

fun validate_inputs ::
    "('d, 'j) Blockchain \<Rightarrow> u32 \<Rightarrow> u32 \<Rightarrow> u32 \<Rightarrow> bool \<Rightarrow> 'j Transaction \<Rightarrow> nat list \<Rightarrow> totals \<Rightarrow> string + totals" where
  "validate_inputs bc height time mtp creation tx [] t = Inr t"
| "validate_inputs bc height time mtp creation tx (j # js) t =
     (case validate_input bc height time mtp creation tx j t of
        Inl e \<Rightarrow> Inl e | Inr t' \<Rightarrow> validate_inputs bc height time mtp creation tx js t')"

fun sum_outputs :: "u64 \<Rightarrow> TxOut list \<Rightarrow> u64 option" where
  "sum_outputs outSum [] = Some outSum"
| "sum_outputs outSum (u # us) =
     (if amount u > MAX_MONEY then None
      else if outSum > MAX_MONEY - amount u then None
      else sum_outputs (outSum + amount u) us)"

definition output_token_ids :: "TxOut list \<Rightarrow> string list" where
  "output_token_ids us = map (\<lambda>k. aid (asset k)) (List.map_filter (\<lambda>u. token (scriptPubKey u)) us)"

definition validate_tx ::
    "('d, 'j) Blockchain \<Rightarrow> u32 \<Rightarrow> u32 \<Rightarrow> u32 \<Rightarrow> 'j Transaction \<Rightarrow> totals \<Rightarrow> string + totals" where
  "validate_tx bc height time mtp tx t =
     (if isCoinbase tx then Inl ''Multiple coinbase transactions detected''
      else if \<not> validateConsensus09Transaction bc tx height (seenTokenIds09 t) then Inl ''consensus 09 rules''
      else case ValidateStatefulCreationShape tx of
        Inl reason \<Rightarrow> Inl (''stateful creation classification diverged: '' @ reason)
      | Inr stateCreation \<Rightarrow>
          (case validate_inputs bc height time mtp (hasCreation stateCreation) tx [0..<length (vin tx)]
                  (t\<lparr>seenTokenIds09 := output_token_ids (vout tx) @ seenTokenIds09 t, inSum := 0, txGasUsed := 0,
                     sawStatefulCallInput := False, ops := (ops t)\<lparr>txScriptOps := 0, txSigOps := 0\<rparr>\<rparr>) of
             Inl e \<Rightarrow> Inl e
           | Inr t1 \<Rightarrow>
               if hasCallCandidate stateCreation \<noteq> sawStatefulCallInput t1
               then Inl ''stateful call envelope/input parity failure''
               else case sum_outputs 0 (vout tx) of
                 None \<Rightarrow> Inl ''Output sum overflow''
               | Some outSum \<Rightarrow>
                   if outSum > inSum t1 then Inl ''Transaction creates money (out > in)''
                   else
                     let txFee = inSum t1 - outSum in
                     if txFee > MAX_MONEY then Inl ''Transaction fee exceeds MAX_MONEY''
                     else if totalFees t1 > MAX_MONEY - txFee then Inl ''Total block fees exceed MAX_MONEY''
                     else Inr (t1\<lparr>totalFees := totalFees t1 + txFee\<rparr>)))"

fun validate_txs ::
    "('d, 'j) Blockchain \<Rightarrow> u32 \<Rightarrow> u32 \<Rightarrow> u32 \<Rightarrow> 'j Transaction list \<Rightarrow> totals \<Rightarrow> string + totals" where
  "validate_txs bc height time mtp [] t = Inr t"
| "validate_txs bc height time mtp (tx # txs) t =
     (case validate_tx bc height time mtp tx t of
        Inl e \<Rightarrow> Inl e | Inr t' \<Rightarrow> validate_txs bc height time mtp txs t')"

subsection \<open>The block\<close>

definition no_totals :: totals where
  "no_totals =
     \<lparr>spentUTXOs = [], seenTokenIds09 = [], touchedStateRoots = [], totalFees = 0,
      ops = \<lparr>txScriptOps = 0, txSigOps = 0, blockScriptOps = 0, blockSigOps = 0\<rparr>, blockGasUsed = 0, inSum = 0,
      txGasUsed = 0, sawStatefulCallInput = False\<rparr>"

text \<open>The ids: well-formed, those of the contents, distinct, and none that has unspent outputs.\<close>

fun check_txids :: "('d, 'j) Blockchain \<Rightarrow> string list \<Rightarrow> 'j Transaction list \<Rightarrow> string option" where
  "check_txids bc blockTxids [] = None"
| "check_txids bc blockTxids (tx # txs) =
     (if txid tx = [] \<or> length (txid tx) \<noteq> 64 \<or> \<not> isValidHex (txid tx) then Some ''Invalid transaction ID encoding''
      else case computeTxId (lib bc) (json_dump_map (chain_json bc)) tx of
        None \<Rightarrow> Some ''transaction serialization exception''
      | Some recomputedTx \<Rightarrow>
          if txid recomputedTx \<noteq> txid tx then Some ''Transaction ID/content mismatch''
          else if txid tx \<in> set blockTxids then Some ''Duplicate transaction ID in block''
          else if list_ex (\<lambda>k. k > 0xffffffff \<or> utxoSet bc (txid tx) (word_of_nat k) \<noteq> None) [0..<length (vout tx)]
          then Some ''BIP30-style UTXO collision''
          else check_txids bc (txid tx # blockTxids) txs)"

definition check_parent :: "('d, 'j) Blockchain \<Rightarrow> 'j Block \<Rightarrow> string option" where
  "check_parent bc b =
     (if prevHash (blk_header b) = replicate 64 (CHR ''0'') then
        (if blk_height b \<noteq> 1 then Some ''Genesis block must have height 1'' else None)
      else case blockIndex bc (prevHash (blk_header b)) of
        None \<Rightarrow> Some ''Previous block not found''
      | Some e \<Rightarrow> if blk_height b \<noteq> entry_height e + 1 then Some ''Height mismatch'' else None)"

text \<open>The median time past, when the time of the block is after it and not too far ahead of the clock.\<close>

definition check_time :: "('d, 'j) Blockchain \<Rightarrow> u32 \<Rightarrow> 'j Block \<Rightarrow> string + u32" where
  "check_time bc now b =
     (if hdr_timestamp (blk_header b) > now + 7200 then Inl ''Timestamp too far in future''
      else case getMedianTimePast (blockIndex bc) (prevHash (blk_header b)) (blk_height b) of
        Inl e \<Rightarrow> Inl (''candidate ancestry/MTP failure: '' @ e)
      | Inr mtp \<Rightarrow>
          if hdr_timestamp (blk_header b) \<le> mtp then Inl ''Timestamp not greater than candidate-parent MTP'' else Inr mtp)"

definition check_coinbase :: "'j Block \<Rightarrow> string option" where
  "check_coinbase b =
     (let cb = hd (transactions b) in
      if \<not> isCoinbase cb then Some ''First transaction is not a coinbase''
      else if vout cb = [] then Some ''Coinbase has no outputs''
      else if blk_height b > 1 \<and> extractCommittedCoinbaseHeight cb \<noteq> Some (word_of_int (blk_height b))
      then Some ''Coinbase height commitment mismatch'' else None)"

definition check_reward :: "'j Block \<Rightarrow> u64 \<Rightarrow> string option" where
  "check_reward b fees =
     (case sum_outputs 0 (vout (hd (transactions b))) of
        None \<Rightarrow> Some ''Coinbase output exceeds MAX_MONEY''
      | Some coinbaseValue \<Rightarrow>
          let subsidy = calculateSubsidy (blk_height b) in
          if subsidy > MAX_MONEY then Some ''Calculated subsidy exceeds MAX_MONEY''
          else if fees > MAX_MONEY - subsidy then Some ''Subsidy + fees exceeds MAX_MONEY''
          else if coinbaseValue > subsidy + fees then Some ''Coinbase pays too much'' else None)"

definition check_bits :: "('d, 'j) Blockchain \<Rightarrow> 'j Block \<Rightarrow> string option" where
  "check_bits bc b =
     (if blk_height b \<le> 1 then None
      else case calculateExpectedBits (blockIndex bc) (chain_difficulty bc) (prevHash (blk_header b)) (blk_height b) of
        Inl e \<Rightarrow> Some (''bad expected bits: '' @ e)
      | Inr expected \<Rightarrow> if bits (blk_header b) \<noteq> expected then Some ''Invalid difficulty bits'' else None)"

text \<open>The steps before the transactions are looked at; on success the median time past.\<close>

definition validate_frame :: "('d, 'j) Blockchain \<Rightarrow> u32 \<Rightarrow> 'j Block \<Rightarrow> string + u32" where
  "validate_frame bc now b =
     (if transactions b = [] then Inl ''Block has no transactions''
      else if length (blk_hash b) \<noteq> 64 \<or> \<not> isValidHex (blk_hash b) then Inl ''Invalid block hash''
      else if length (prevHash (blk_header b)) \<noteq> 64 \<or> \<not> isValidHex (prevHash (blk_header b)) then Inl ''Invalid prevHash''
      else if length (block_serialize (chain_json bc) b) > MAX_BLOCK_BYTES then Inl ''Block size exceeds limit''
      else case shape_all (chain_json bc) (transactions b)
                  \<lparr>blockInputs = 0, blockOutputs = 0, blockStateInitBytes = 0\<rparr> of
        Inl e \<Rightarrow> Inl e
      | Inr _ \<Rightarrow>
          if \<not> check_commitment (lib bc) (chain_json bc) b then Inl ''payload commitment''
          else if computeHash (lib bc) (blk_header b) \<noteq> Some (blk_hash b) then Inl ''Hash mismatch''
          else if \<not> verifyBlockDifficulty (lib bc) (blk_header b) then Inl ''Proof-of-work check failed''
          else case check_parent bc b of
            Some e \<Rightarrow> Inl e
          | None \<Rightarrow>
              (case check_time bc now b of
                 Inl e \<Rightarrow> Inl e
               | Inr mtp \<Rightarrow>
                   (case check_txids bc [] (transactions b) of
                      Some e \<Rightarrow> Inl e
                    | None \<Rightarrow>
                        if computeMerkleRoot (lib bc) (transactions b) \<noteq> merkleRoot (blk_header b)
                        then Inl ''Merkle root mismatch''
                        else case check_coinbase b of Some e \<Rightarrow> Inl e | None \<Rightarrow> Inr mtp)))"

definition validateBlock :: "('d, 'j) Blockchain \<Rightarrow> u32 \<Rightarrow> 'j Block \<Rightarrow> string + totals" where
  "validateBlock bc now b =
     (case validate_frame bc now b of
        Inl e \<Rightarrow> Inl e
      | Inr mtp \<Rightarrow>
          (case validate_txs bc (word_of_int (blk_height b)) (hdr_timestamp (blk_header b)) mtp (tl (transactions b)) no_totals of
             Inl e \<Rightarrow> Inl e
           | Inr t \<Rightarrow>
               (case check_reward b (totalFees t) of
                  Some e \<Rightarrow> Inl e
                | None \<Rightarrow> (case check_bits bc b of Some e \<Rightarrow> Inl e | None \<Rightarrow> Inr t))))"

subsection \<open>Sums without wrap-around\<close>

lemma checked_sum:
  assumes "(b :: u64) \<le> m" "\<not> a > m - b"
  shows "a + b \<le> m" "unat (a + b) = unat a + unat b"
proof -
  have le: "unat a + unat b \<le> unat m"
    using assms by (simp add: word_le_nat_alt word_less_nat_alt unat_sub not_less)
  moreover have "unat m < 2 ^ 64" using unsigned_less [of m, where ?'a = nat] by simp
  ultimately show u: "unat (a + b) = unat a + unat b" by (intro unat_add_lem [THEN iffD1]) simp
  show "a + b \<le> m" unfolding word_le_nat_alt u by (rule le)
qed

lemma checked_sum': "(b :: u64) \<le> m \<Longrightarrow> \<not> a > m - b \<Longrightarrow> b + a \<le> m \<and> unat (b + a) = unat b + unat a"
  using checked_sum [of b m a] by (simp add: add.commute)

lemma sum_outputs_exact:
  assumes "sum_outputs s us = Some r" "s \<le> MAX_MONEY"
  shows "r \<le> MAX_MONEY \<and> unat r = unat s + (\<Sum>u\<leftarrow>us. unat (amount u)) \<and> (\<forall>u\<in>set us. amount u \<le> MAX_MONEY)"
  using assms
proof (induction s us rule: sum_outputs.induct)
  case (2 s u us)
  then have a: "amount u \<le> MAX_MONEY" "\<not> s > MAX_MONEY - amount u" "sum_outputs (s + amount u) us = Some r"
    by (auto split: if_splits)
  note c = checked_sum [OF a(1,2)]
  show ?case using "2.IH" a c by auto
qed simp

subsection \<open>Budgets without wrap-around\<close>

definition within_budget :: "budget \<Rightarrow> bool" where
  "within_budget t \<longleftrightarrow> txScriptOps t \<le> MAX_TX_SCRIPT_OPS \<and> txSigOps t \<le> MAX_TX_SIGOPS \<and>
     blockScriptOps t \<le> MAX_BLOCK_SCRIPT_OPS \<and> blockSigOps t \<le> MAX_BLOCK_SIGOPS"

lemma addScriptMetricsChecked_exact:
  assumes "addScriptMetricsChecked a b t = Some t'" "within_budget t"
  shows "within_budget t'"
    "unat (txScriptOps t') = unat (txScriptOps t) + (unat (opCount a) + unat (opCount b))"
    "unat (txSigOps t') = unat (txSigOps t) + (unat (sigOpCost a) + unat (sigOpCost b))"
    "unat (blockScriptOps t') = unat (blockScriptOps t) + (unat (opCount a) + unat (opCount b))"
    "unat (blockSigOps t') = unat (blockSigOps t) + (unat (sigOpCost a) + unat (sigOpCost b))"
proof -
  let ?o = "opCount a + opCount b" and ?s = "sigOpCost a + sigOpCost b"
  have g: "\<not> opCount a > u64_max - opCount b" "\<not> sigOpCost a > u64_max - sigOpCost b"
    "\<not> ?o > MAX_TX_SCRIPT_OPS - txScriptOps t" "\<not> ?s > MAX_TX_SIGOPS - txSigOps t"
    "\<not> ?o > MAX_BLOCK_SCRIPT_OPS - blockScriptOps t" "\<not> ?s > MAX_BLOCK_SIGOPS - blockSigOps t"
    and t': "t' = t\<lparr>txScriptOps := txScriptOps t + ?o, txSigOps := txSigOps t + ?s,
      blockScriptOps := blockScriptOps t + ?o, blockSigOps := blockSigOps t + ?s\<rparr>"
    using assms(1) by (auto simp: addScriptMetricsChecked_def Let_def split: if_splits)
  have u: "unat ?o = unat (opCount a) + unat (opCount b)" "unat ?s = unat (sigOpCost a) + unat (sigOpCost b)"
    using g(1,2) by (simp_all add: not_less unat_checked_add)
  have w: "txScriptOps t \<le> MAX_TX_SCRIPT_OPS" "txSigOps t \<le> MAX_TX_SIGOPS"
    "blockScriptOps t \<le> MAX_BLOCK_SCRIPT_OPS" "blockSigOps t \<le> MAX_BLOCK_SIGOPS" using assms(2) by (simp_all add: within_budget_def)
  note c = checked_sum' [OF w(1) g(3)] checked_sum' [OF w(2) g(4)] checked_sum' [OF w(3) g(5)] checked_sum' [OF w(4) g(6)]
  show "within_budget t'"
    "unat (txScriptOps t') = unat (txScriptOps t) + (unat (opCount a) + unat (opCount b))"
    "unat (txSigOps t') = unat (txSigOps t) + (unat (sigOpCost a) + unat (sigOpCost b))"
    "unat (blockScriptOps t') = unat (blockScriptOps t) + (unat (opCount a) + unat (opCount b))"
    "unat (blockSigOps t') = unat (blockSigOps t) + (unat (sigOpCost a) + unat (sigOpCost b))"
    using c u by (simp_all add: t' within_budget_def)
qed

definition within_gas :: "totals \<Rightarrow> bool" where
  "within_gas t \<longleftrightarrow> txGasUsed t \<le> MAX_TX_SCRIPT_GAS \<and> blockGasUsed t \<le> MAX_BLOCK_SCRIPT_GAS"

lemma add_gas_exact:
  assumes "add_gas used a b = Some (a', b')" "a \<le> MAX_TX_SCRIPT_GAS" "b \<le> MAX_BLOCK_SCRIPT_GAS"
  shows "a' \<le> MAX_TX_SCRIPT_GAS" "b' \<le> MAX_BLOCK_SCRIPT_GAS" "unat a' = unat a + unat used" "unat b' = unat b + unat used"
proof -
  have g: "\<not> used > MAX_TX_SCRIPT_GAS - a" "\<not> used > MAX_BLOCK_SCRIPT_GAS - b" "a' = a + used" "b' = b + used"
    using assms(1) by (auto simp: add_gas_def split: if_splits)
  show "a' \<le> MAX_TX_SCRIPT_GAS" "b' \<le> MAX_BLOCK_SCRIPT_GAS" "unat a' = unat a + unat used" "unat b' = unat b + unat used"
    using checked_sum' [OF assms(2) g(1)] checked_sum' [OF assms(3) g(2)] g(3,4) by simp_all
qed

subsection \<open>What an accepted input satisfies\<close>

definition authorised ::
    "('d, 'j) Blockchain \<Rightarrow> u32 \<Rightarrow> u32 \<Rightarrow> u32 \<Rightarrow> 'j Transaction \<Rightarrow> nat \<Rightarrow> UTXO \<Rightarrow> bytes \<Rightarrow> bool" where
  "authorised bc height time mtp tx j u scr \<longleftrightarrow>
     hexDecode (utxo_scriptPubKey u) = Some scr \<and> scr \<noteq> [] \<and> hd scr \<noteq> OP_RETURN \<and>
     (usesStateDomain (ScanStatefulContractScript scr) \<or>
      (\<exists>limit inputSender c. VerifyScripts (lib bc) (scriptSig (vin tx ! j)) scr
         (input_context bc height time mtp tx j scr limit inputSender) = Some c))"

text \<open>The operations and signature checks an input is charged for: those of its two scripts.\<close>

definition static_cost :: "('d, 'j) Blockchain \<Rightarrow> u32 \<Rightarrow> TxIn \<Rightarrow> nat \<times> nat" where
  "static_cost bc height i =
     (case utxoSet bc (prev_txid i) (prev_vout i) of
        None \<Rightarrow> (0, 0)
      | Some u \<Rightarrow>
          (case hexDecode (utxo_scriptPubKey u) of
             None \<Rightarrow> (0, 0)
           | Some scr \<Rightarrow>
               (case (AnalyzeScriptResources height (scriptSig i), AnalyzeScriptResources height scr) of
                  (Some a, Some b) \<Rightarrow> (unat (opCount a) + unat (opCount b), unat (sigOpCost a) + unat (sigOpCost b))
                | _ \<Rightarrow> (0, 0))))"

definition coin_value :: "('d, 'j) Blockchain \<Rightarrow> TxIn \<Rightarrow> nat" where
  "coin_value bc i = (case utxoSet bc (prev_txid i) (prev_vout i) of None \<Rightarrow> 0 | Some u \<Rightarrow> unat (utxo_amount u))"

definition input_ok ::
    "('d, 'j) Blockchain \<Rightarrow> u32 \<Rightarrow> u32 \<Rightarrow> u32 \<Rightarrow> 'j Transaction \<Rightarrow> nat \<Rightarrow> bool" where
  "input_ok bc height time mtp tx j \<longleftrightarrow>
     (\<exists>u scr. utxoSet bc (prev_txid (vin tx ! j)) (prev_vout (vin tx ! j)) = Some u \<and> mature height u \<and>
        utxo_amount u \<le> MAX_MONEY \<and> authorised bc height time mtp tx j u scr)"

lemma state_call_frame:
  assumes "state_call bc height time tx j u scr t = Inr t'" "within_gas t"
  shows "spentUTXOs t' = spentUTXOs t" "totalFees t' = totalFees t" "ops t' = ops t" "inSum t' = inSum t" "within_gas t'"
proof -
  obtain r used tg bg where t: "add_gas used (txGasUsed t) (blockGasUsed t) = Some (tg, bg)"
    "t' = t\<lparr>touchedStateRoots := r # touchedStateRoots t, txGasUsed := tg, blockGasUsed := bg, sawStatefulCallInput := True\<rparr>"
    using assms(1) by (auto simp: state_call_def Let_def split: sum.splits if_splits option.splits)
  show "spentUTXOs t' = spentUTXOs t" "totalFees t' = totalFees t" "ops t' = ops t" "inSum t' = inSum t" "within_gas t'"
    using add_gas_exact [OF t(1)] assms(2) by (simp_all add: t(2) within_gas_def)
qed

lemma ordinary_input_frame:
  assumes "ordinary_input bc height time mtp tx j u scr t = Inr t'" "within_gas t"
  shows "spentUTXOs t' = spentUTXOs t" "totalFees t' = totalFees t" "ops t' = ops t" "inSum t' = inSum t" "within_gas t'"
    "\<exists>limit inputSender c. VerifyScripts (lib bc) (scriptSig (vin tx ! j)) scr
       (input_context bc height time mtp tx j scr limit inputSender) = Some c"
proof -
  obtain limit sndr c tg bg where t: "VerifyScripts (lib bc) (scriptSig (vin tx ! j)) scr
       (input_context bc height time mtp tx j scr limit sndr) = Some c"
    "add_gas (gasUsed c) (txGasUsed t) (blockGasUsed t) = Some (tg, bg)" "t' = t\<lparr>txGasUsed := tg, blockGasUsed := bg\<rparr>"
    using assms(1) by (auto simp: ordinary_input_def split: if_splits option.splits)
  show "spentUTXOs t' = spentUTXOs t" "totalFees t' = totalFees t" "ops t' = ops t" "inSum t' = inSum t" "within_gas t'"
    using add_gas_exact [OF t(2)] assms(2) by (simp_all add: t(3) within_gas_def)
  show "\<exists>limit inputSender c. VerifyScripts (lib bc) (scriptSig (vin tx ! j)) scr
       (input_context bc height time mtp tx j scr limit inputSender) = Some c"
    using t(1) by blast
qed

lemma input_coin_Inr:
  assumes "input_coin bc height creation j i t = Inr (u, s)"
  shows "utxoKey i \<notin> set (spentUTXOs t)" "utxoSet bc (prev_txid i) (prev_vout i) = Some u" "mature height u"
    "utxo_amount u \<le> MAX_MONEY" "unat s = unat (inSum t) + unat (utxo_amount u)" "s \<le> MAX_MONEY"
proof -
  have f: "utxoKey i \<notin> set (spentUTXOs t)" "utxoSet bc (prev_txid i) (prev_vout i) = Some u" "mature height u"
    "\<not> utxo_amount u > MAX_MONEY" "\<not> inSum t > MAX_MONEY - utxo_amount u" "s = inSum t + utxo_amount u"
    using assms by (auto simp: input_coin_def split: if_splits option.splits)
  have a: "utxo_amount u \<le> MAX_MONEY" using f(4) by simp
  show "utxoKey i \<notin> set (spentUTXOs t)" "utxoSet bc (prev_txid i) (prev_vout i) = Some u" "mature height u"
    "utxo_amount u \<le> MAX_MONEY" "unat s = unat (inSum t) + unat (utxo_amount u)" "s \<le> MAX_MONEY"
    using f a checked_sum [OF a f(5)] by simp_all
qed

lemma input_scripts_Inr:
  assumes "input_scripts height i u b = Inr (scr, b')"
  obtains a c where "hexDecode (utxo_scriptPubKey u) = Some scr" "scr \<noteq> []" "hd scr \<noteq> OP_RETURN"
    "AnalyzeScriptResources height (scriptSig i) = Some a" "AnalyzeScriptResources height scr = Some c"
    "addScriptMetricsChecked a c b = Some b'"
  using assms by (auto simp: input_scripts_def split: if_splits option.splits)

lemma validate_input_Inr:
  assumes v: "validate_input bc height time mtp creation tx j t = Inr t'" and g: "within_gas t" "within_budget (ops t)"
  shows "input_ok bc height time mtp tx j \<and> utxoKey (vin tx ! j) \<notin> set (spentUTXOs t) \<and>
    spentUTXOs t' = utxoKey (vin tx ! j) # spentUTXOs t \<and> totalFees t' = totalFees t \<and>
    unat (inSum t') = unat (inSum t) + coin_value bc (vin tx ! j) \<and> inSum t' \<le> MAX_MONEY \<and>
    within_gas t' \<and> within_budget (ops t') \<and>
    unat (txScriptOps (ops t')) = unat (txScriptOps (ops t)) + fst (static_cost bc height (vin tx ! j)) \<and>
    unat (txSigOps (ops t')) = unat (txSigOps (ops t)) + snd (static_cost bc height (vin tx ! j)) \<and>
    unat (blockScriptOps (ops t')) = unat (blockScriptOps (ops t)) + fst (static_cost bc height (vin tx ! j)) \<and>
    unat (blockSigOps (ops t')) = unat (blockSigOps (ops t)) + snd (static_cost bc height (vin tx ! j))"
proof -
  let ?i = "vin tx ! j"
  obtain u s where c: "input_coin bc height creation j ?i t = Inr (u, s)"
    using v by (auto simp: validate_input_def split: sum.splits)
  obtain scr b' where r: "input_scripts height ?i u (ops t) = Inr (scr, b')"
    using v c by (auto simp: validate_input_def split: sum.splits)
  define t1 where "t1 = t\<lparr>inSum := s, ops := b'\<rparr>"
  obtain t2 where t2: "(if usesStateDomain (ScanStatefulContractScript scr) then state_call bc height time tx j u scr t1
      else ordinary_input bc height time mtp tx j u scr t1) = Inr t2" "t' = t2\<lparr>spentUTXOs := utxoKey ?i # spentUTXOs t2\<rparr>"
    using v c r by (auto simp: validate_input_def Let_def t1_def split: sum.splits if_splits)
  note k = input_coin_Inr [OF c]
  obtain a d where m: "hexDecode (utxo_scriptPubKey u) = Some scr" "scr \<noteq> []" "hd scr \<noteq> OP_RETURN"
    "AnalyzeScriptResources height (scriptSig ?i) = Some a" "AnalyzeScriptResources height scr = Some d"
    "addScriptMetricsChecked a d (ops t) = Some b'"
    using r by (rule input_scripts_Inr)
  note b = addScriptMetricsChecked_exact [OF m(6) g(2)]
  have cost: "static_cost bc height ?i = (unat (opCount a) + unat (opCount d), unat (sigOpCost a) + unat (sigOpCost d))"
    by (simp add: static_cost_def k(2) m)
  have g1: "within_gas t1" using g(1) by (simp add: t1_def within_gas_def)
  have fr: "spentUTXOs t2 = spentUTXOs t1" "totalFees t2 = totalFees t1" "ops t2 = ops t1" "inSum t2 = inSum t1" "within_gas t2"
    using t2(1) state_call_frame [OF _ g1] ordinary_input_frame(1-5) [OF _ g1] by (metis (full_types))+
  have "authorised bc height time mtp tx j u scr"
    using t2(1) ordinary_input_frame(6) [OF _ g1] m by (auto simp: authorised_def split: if_splits)
  then have "input_ok bc height time mtp tx j" using k by (auto simp: input_ok_def)
  moreover have "within_gas t'" using fr(5) by (simp add: t2(2) within_gas_def)
  ultimately show ?thesis using k b cost fr by (simp add: t2(2) t1_def coin_value_def)
qed

subsection \<open>Transactions\<close>

definition inputs_cost :: "('d, 'j) Blockchain \<Rightarrow> u32 \<Rightarrow> TxIn list \<Rightarrow> nat \<times> nat" where
  "inputs_cost bc height is = (\<Sum>i\<leftarrow>is. fst (static_cost bc height i), \<Sum>i\<leftarrow>is. snd (static_cost bc height i))"

lemma validate_inputs_Inr:
  assumes "validate_inputs bc height time mtp creation tx js t = Inr t'" "within_gas t" "within_budget (ops t)"
    "inSum t \<le> MAX_MONEY" "distinct (spentUTXOs t)"
  shows "(\<forall>j\<in>set js. input_ok bc height time mtp tx j) \<and> distinct (spentUTXOs t') \<and>
    spentUTXOs t' = rev (map utxoKey (map ((!) (vin tx)) js)) @ spentUTXOs t \<and> totalFees t' = totalFees t \<and>
    unat (inSum t') = unat (inSum t) + (\<Sum>i\<leftarrow>map ((!) (vin tx)) js. coin_value bc i) \<and> inSum t' \<le> MAX_MONEY \<and>
    within_gas t' \<and> within_budget (ops t') \<and>
    unat (txScriptOps (ops t')) = unat (txScriptOps (ops t)) + fst (inputs_cost bc height (map ((!) (vin tx)) js)) \<and>
    unat (txSigOps (ops t')) = unat (txSigOps (ops t)) + snd (inputs_cost bc height (map ((!) (vin tx)) js)) \<and>
    unat (blockScriptOps (ops t')) = unat (blockScriptOps (ops t)) + fst (inputs_cost bc height (map ((!) (vin tx)) js)) \<and>
    unat (blockSigOps (ops t')) = unat (blockSigOps (ops t)) + snd (inputs_cost bc height (map ((!) (vin tx)) js))"
  using assms
proof (induction js arbitrary: t)
  case (Cons j js)
  obtain t1 where t1: "validate_input bc height time mtp creation tx j t = Inr t1"
    "validate_inputs bc height time mtp creation tx js t1 = Inr t'" using Cons.prems(1) by (auto split: sum.splits)
  note v = validate_input_Inr [OF t1(1) Cons.prems(2,3)]
  have d: "distinct (spentUTXOs t1)" using v Cons.prems(5) by simp
  note r = Cons.IH [OF t1(2) _ _ _ d]
  have "distinct (spentUTXOs t')" using r v by blast
  then show ?case using r v by (simp add: inputs_cost_def del: distinct_append)
qed (simp add: inputs_cost_def)

definition out_value :: "'j Transaction \<Rightarrow> nat" where "out_value tx = (\<Sum>u\<leftarrow>vout tx. unat (amount u))"
definition in_value :: "('d, 'j) Blockchain \<Rightarrow> 'j Transaction \<Rightarrow> nat" where "in_value bc tx = (\<Sum>i\<leftarrow>vin tx. coin_value bc i)"

definition tx_ok :: "('d, 'j) Blockchain \<Rightarrow> u32 \<Rightarrow> u32 \<Rightarrow> u32 \<Rightarrow> 'j Transaction \<Rightarrow> bool" where
  "tx_ok bc height time mtp tx \<longleftrightarrow>
     \<not> isCoinbase tx \<and> (\<forall>j<length (vin tx). input_ok bc height time mtp tx j) \<and> out_value tx \<le> in_value bc tx \<and>
     (\<forall>u\<in>set (vout tx). amount u \<le> MAX_MONEY) \<and>
     fst (inputs_cost bc height (vin tx)) \<le> unat MAX_TX_SCRIPT_OPS \<and> snd (inputs_cost bc height (vin tx)) \<le> unat MAX_TX_SIGOPS"

definition within_block :: "totals \<Rightarrow> bool" where
  "within_block t \<longleftrightarrow> blockGasUsed t \<le> MAX_BLOCK_SCRIPT_GAS \<and> blockScriptOps (ops t) \<le> MAX_BLOCK_SCRIPT_OPS \<and>
     blockSigOps (ops t) \<le> MAX_BLOCK_SIGOPS \<and> distinct (spentUTXOs t)"

lemma validate_tx_Inr:
  assumes v: "validate_tx bc height time mtp tx t = Inr t'" and w: "within_block t"
  shows "tx_ok bc height time mtp tx \<and> within_block t' \<and> spentUTXOs t' = rev (map utxoKey (vin tx)) @ spentUTXOs t \<and>
    unat (totalFees t') + out_value tx = unat (totalFees t) + in_value bc tx \<and> totalFees t' \<le> MAX_MONEY \<and>
    unat (blockScriptOps (ops t')) = unat (blockScriptOps (ops t)) + fst (inputs_cost bc height (vin tx)) \<and>
    unat (blockSigOps (ops t')) = unat (blockSigOps (ops t)) + snd (inputs_cost bc height (vin tx))"
proof -
  define t0 where "t0 = t\<lparr>seenTokenIds09 := output_token_ids (vout tx) @ seenTokenIds09 t, inSum := 0, txGasUsed := 0,
    sawStatefulCallInput := False, ops := (ops t)\<lparr>txScriptOps := 0, txSigOps := 0\<rparr>\<rparr>"
  obtain sc t1 s where n: "\<not> isCoinbase tx" "ValidateStatefulCreationShape tx = Inr sc"
    and i: "validate_inputs bc height time mtp (hasCreation sc) tx [0..<length (vin tx)] t0 = Inr t1"
    and s: "sum_outputs 0 (vout tx) = Some s" "\<not> s > inSum t1" "\<not> inSum t1 - s > MAX_MONEY"
      "\<not> totalFees t1 > MAX_MONEY - (inSum t1 - s)"
    and t': "t' = t1\<lparr>totalFees := totalFees t1 + (inSum t1 - s)\<rparr>"
    using v by (auto simp: validate_tx_def Let_def t0_def split: if_splits sum.splits option.splits)
  have w0: "within_gas t0" "within_budget (ops t0)" "inSum t0 \<le> MAX_MONEY" "distinct (spentUTXOs t0)"
    using w by (simp_all add: within_block_def within_gas_def within_budget_def t0_def)
  note a = validate_inputs_Inr [OF i w0, unfolded map_nth]
  have o: "unat s = out_value tx" "\<forall>u\<in>set (vout tx). amount u \<le> MAX_MONEY" "s \<le> MAX_MONEY"
    using sum_outputs_exact [OF s(1)] by (simp_all add: out_value_def)
  have in_s: "unat (inSum t1) = in_value bc tx" using a by (simp add: t0_def in_value_def)
  have le: "out_value tx \<le> in_value bc tx" using s(2) o(1) in_s by (simp add: word_less_nat_alt)
  have "inSum t1 - s \<le> MAX_MONEY" using s(3) by simp
  note f = checked_sum [OF this s(4)]
  have "unat (inSum t1 - s) = in_value bc tx - out_value tx" using s(2) o(1) in_s by (simp add: unat_sub not_less)
  then have fee: "unat (totalFees t') + out_value tx = unat (totalFees t) + in_value bc tx" "totalFees t' \<le> MAX_MONEY"
    using f le a by (simp_all add: t' t0_def)
  have c: "fst (inputs_cost bc height (vin tx)) \<le> unat MAX_TX_SCRIPT_OPS" "snd (inputs_cost bc height (vin tx)) \<le> unat MAX_TX_SIGOPS"
    using a by (simp_all add: t0_def within_budget_def word_le_nat_alt)
  have "tx_ok bc height time mtp tx" using a n(1) le o(2) c by (simp add: tx_ok_def)
  moreover have "distinct (spentUTXOs t1)" using a by blast
  ultimately show ?thesis using a fee
    by (simp add: t' within_block_def within_gas_def within_budget_def t0_def del: distinct_append)
qed

definition all_inputs :: "'j Transaction list \<Rightarrow> TxIn list" where "all_inputs txs = concat (map vin txs)"

lemma validate_txs_Inr:
  assumes "validate_txs bc height time mtp txs t = Inr t'" "within_block t"
  shows "(\<forall>tx\<in>set txs. tx_ok bc height time mtp tx) \<and> within_block t' \<and>
    spentUTXOs t' = rev (map utxoKey (all_inputs txs)) @ spentUTXOs t \<and>
    unat (totalFees t') + (\<Sum>tx\<leftarrow>txs. out_value tx) = unat (totalFees t) + (\<Sum>tx\<leftarrow>txs. in_value bc tx) \<and>
    (totalFees t \<le> MAX_MONEY \<longrightarrow> totalFees t' \<le> MAX_MONEY) \<and>
    unat (blockScriptOps (ops t')) = unat (blockScriptOps (ops t)) + fst (inputs_cost bc height (all_inputs txs)) \<and>
    unat (blockSigOps (ops t')) = unat (blockSigOps (ops t)) + snd (inputs_cost bc height (all_inputs txs))"
  using assms
proof (induction txs arbitrary: t)
  case (Cons tx txs)
  obtain t1 where t1: "validate_tx bc height time mtp tx t = Inr t1" "validate_txs bc height time mtp txs t1 = Inr t'"
    using Cons.prems(1) by (auto split: sum.splits)
  note v = validate_tx_Inr [OF t1(1) Cons.prems(2)]
  have w1: "within_block t1" using v by simp
  show ?case using Cons.IH [OF t1(2) w1] v by (simp add: inputs_cost_def all_inputs_def del: distinct_append)
qed (simp add: inputs_cost_def all_inputs_def)

subsection \<open>The gas that is burnt\<close>

text \<open>
  What the scripts of one input burn: the gas of the verified run, or of the call of the contract, under some
  limit that is at most the one of an input.
\<close>

definition input_burns :: "('d, 'j) Blockchain \<Rightarrow> u32 \<Rightarrow> u32 \<Rightarrow> u32 \<Rightarrow> 'j Transaction \<Rightarrow> nat \<Rightarrow> nat \<Rightarrow> bool" where
  "input_burns bc height time mtp tx j g \<longleftrightarrow>
     (\<exists>u scr limit. utxoSet bc (prev_txid (vin tx ! j)) (prev_vout (vin tx ! j)) = Some u \<and>
        hexDecode (utxo_scriptPubKey u) = Some scr \<and> limit \<le> MAX_SCRIPT_GAS_PER_INPUT \<and>
        (if usesStateDomain (ScanStatefulContractScript scr)
         then \<exists>callShape snapshot caller address used.
           ValidateStatefulCallShape (lib bc) tx j (utxo_scriptPubKey u) (utxo_amount u) = Inr callShape \<and>
           LoadConfirmedStateDomain (dbStorage bc) (db bc)
             (BuildCanonicalContractOutpoint (prev_txid (vin tx ! j)) (prev_vout (vin tx ! j))) = Inr snapshot \<and>
           block_caller bc (vin tx ! callerInputIndex callShape) = Inr (caller, address) \<and>
           execute_call (lib bc) tx callShape scr snapshot caller address time height limit = Inr used \<and> g = unat used
         else \<exists>inputSender c. VerifyScripts (lib bc) (scriptSig (vin tx ! j)) scr
             (input_context bc height time mtp tx j scr limit inputSender) = Some c \<and>
           gasUsed c \<le> limit \<and> g = unat (gasUsed c)))"

definition tx_burns :: "('d, 'j) Blockchain \<Rightarrow> u32 \<Rightarrow> u32 \<Rightarrow> u32 \<Rightarrow> 'j Transaction \<Rightarrow> nat list \<Rightarrow> bool" where
  "tx_burns bc height time mtp tx gs \<longleftrightarrow> list_all2 (input_burns bc height time mtp tx) [0..<length (vin tx)] gs"

lemma input_gas_limit_le: "input_gas_limit a b = Some limit \<Longrightarrow> limit \<le> MAX_SCRIPT_GAS_PER_INPUT"
  by (auto simp: input_gas_limit_def Let_def split: if_splits)

lemma validate_input_gas:
  assumes v: "validate_input bc height time mtp creation tx j t = Inr t'" and g: "within_gas t"
  obtains n where "input_burns bc height time mtp tx j n" "unat (txGasUsed t') = unat (txGasUsed t) + n"
    "unat (blockGasUsed t') = unat (blockGasUsed t) + n" "within_gas t'"
proof -
  let ?i = "vin tx ! j"
  obtain u s where c: "input_coin bc height creation j ?i t = Inr (u, s)"
    using v by (auto simp: validate_input_def split: sum.splits)
  obtain scr b' where r: "input_scripts height ?i u (ops t) = Inr (scr, b')"
    using v c by (auto simp: validate_input_def split: sum.splits)
  define t1 where "t1 = t\<lparr>inSum := s, ops := b'\<rparr>"
  obtain t2 where t2: "(if usesStateDomain (ScanStatefulContractScript scr) then state_call bc height time tx j u scr t1
      else ordinary_input bc height time mtp tx j u scr t1) = Inr t2" "t' = t2\<lparr>spentUTXOs := utxoKey ?i # spentUTXOs t2\<rparr>"
    using v c r by (auto simp: validate_input_def Let_def t1_def split: sum.splits if_splits)
  have u: "utxoSet bc (prev_txid ?i) (prev_vout ?i) = Some u" by (rule input_coin_Inr(2) [OF c])
  have scr: "hexDecode (utxo_scriptPubKey u) = Some scr" using r by (rule input_scripts_Inr)
  have "\<exists>n. input_burns bc height time mtp tx j (unat n) \<and>
      add_gas n (txGasUsed t1) (blockGasUsed t1) = Some (txGasUsed t2, blockGasUsed t2)"
  proof (cases "usesStateDomain (ScanStatefulContractScript scr)")
    case True
    then obtain sh snap ca ad limit used where f: "ValidateStatefulCallShape (lib bc) tx j (utxo_scriptPubKey u) (utxo_amount u) = Inr sh"
      "LoadConfirmedStateDomain (dbStorage bc) (db bc) (BuildCanonicalContractOutpoint (prev_txid ?i) (prev_vout ?i)) = Inr snap"
      "block_caller bc (vin tx ! callerInputIndex sh) = Inr (ca, ad)" "input_gas_limit (txGasUsed t1) (blockGasUsed t1) = Some limit"
      "execute_call (lib bc) tx sh scr snap ca ad time height limit = Inr used"
      "add_gas used (txGasUsed t1) (blockGasUsed t1) = Some (txGasUsed t2, blockGasUsed t2)"
      using t2(1) by (auto simp: state_call_def Let_def split: sum.splits if_splits option.splits)
    have "input_burns bc height time mtp tx j (unat used)"
      unfolding input_burns_def using True u scr f(1-3,5) input_gas_limit_le [OF f(4)] by auto
    then show ?thesis using f(6) by blast
  next
    case False
    then obtain sndr c limit where f: "VerifyScripts (lib bc) (scriptSig ?i) scr (input_context bc height time mtp tx j scr limit sndr) = Some c"
      "input_gas_limit (txGasUsed t1) (blockGasUsed t1) = Some limit" "\<not> gasUsed c > limit"
      "add_gas (gasUsed c) (txGasUsed t1) (blockGasUsed t1) = Some (txGasUsed t2, blockGasUsed t2)"
      using t2(1) by (auto simp: ordinary_input_def split: if_splits option.splits)
    have "input_burns bc height time mtp tx j (unat (gasUsed c))"
    proof -
      have "gasUsed c \<le> limit" using f(3) by simp
      then show ?thesis
        unfolding input_burns_def using False input_gas_limit_le [OF f(2)]
        by (intro exI [of _ u] exI [of _ scr] exI [of _ limit]) (simp add: u scr, blast intro: f(1))
    qed
    then show ?thesis using f(4) by blast
  qed
  then obtain n where n: "input_burns bc height time mtp tx j (unat n)"
    "add_gas n (txGasUsed t1) (blockGasUsed t1) = Some (txGasUsed t2, blockGasUsed t2)" by blast
  show thesis
    using that [OF n(1)] add_gas_exact [OF n(2)] g by (simp add: t1_def t2(2) within_gas_def)
qed

lemma validate_inputs_gas:
  assumes "validate_inputs bc height time mtp creation tx js t = Inr t'" "within_gas t"
  shows "\<exists>gs. list_all2 (input_burns bc height time mtp tx) js gs \<and> unat (txGasUsed t') = unat (txGasUsed t) + sum_list gs \<and>
    unat (blockGasUsed t') = unat (blockGasUsed t) + sum_list gs \<and> within_gas t'"
  using assms
proof (induction js arbitrary: t)
  case (Cons j js)
  obtain t1 where t1: "validate_input bc height time mtp creation tx j t = Inr t1"
    "validate_inputs bc height time mtp creation tx js t1 = Inr t'" using Cons.prems(1) by (auto split: sum.splits)
  obtain n where n: "input_burns bc height time mtp tx j n" "unat (txGasUsed t1) = unat (txGasUsed t) + n"
    "unat (blockGasUsed t1) = unat (blockGasUsed t) + n" "within_gas t1"
    using validate_input_gas [OF t1(1) Cons.prems(2)] by blast
  obtain gs where "list_all2 (input_burns bc height time mtp tx) js gs" "unat (txGasUsed t') = unat (txGasUsed t1) + sum_list gs"
    "unat (blockGasUsed t') = unat (blockGasUsed t1) + sum_list gs" "within_gas t'" using Cons.IH [OF t1(2) n(4)] by blast
  then show ?case using n by (intro exI [of _ "n # gs"]) simp
qed simp

lemma validate_tx_gas:
  assumes v: "validate_tx bc height time mtp tx t = Inr t'" and w: "blockGasUsed t \<le> MAX_BLOCK_SCRIPT_GAS"
  obtains gs where "tx_burns bc height time mtp tx gs" "sum_list gs \<le> unat MAX_TX_SCRIPT_GAS"
    "unat (blockGasUsed t') = unat (blockGasUsed t) + sum_list gs" "blockGasUsed t' \<le> MAX_BLOCK_SCRIPT_GAS"
proof -
  define t0 where "t0 = t\<lparr>seenTokenIds09 := output_token_ids (vout tx) @ seenTokenIds09 t, inSum := 0, txGasUsed := 0,
    sawStatefulCallInput := False, ops := (ops t)\<lparr>txScriptOps := 0, txSigOps := 0\<rparr>\<rparr>"
  obtain sc t1 where "ValidateStatefulCreationShape tx = Inr sc"
    and i: "validate_inputs bc height time mtp (hasCreation sc) tx [0..<length (vin tx)] t0 = Inr t1"
    and t': "blockGasUsed t' = blockGasUsed t1"
    using v by (auto simp: validate_tx_def Let_def t0_def split: if_splits sum.splits option.splits)
  have "within_gas t0" using w by (simp add: t0_def within_gas_def)
  from validate_inputs_gas [OF i this] obtain gs where gs: "list_all2 (input_burns bc height time mtp tx) [0..<length (vin tx)] gs"
    "unat (txGasUsed t1) = sum_list gs" "unat (blockGasUsed t1) = unat (blockGasUsed t) + sum_list gs" "within_gas t1"
    by (auto simp: t0_def)
  show thesis
    using that [of gs] gs by (simp add: tx_burns_def t' within_gas_def word_le_nat_alt)
qed

lemma validate_txs_gas:
  assumes "validate_txs bc height time mtp txs t = Inr t'" "blockGasUsed t \<le> MAX_BLOCK_SCRIPT_GAS"
  shows "\<exists>gss. list_all2 (\<lambda>tx gs. tx_burns bc height time mtp tx gs \<and> sum_list gs \<le> unat MAX_TX_SCRIPT_GAS) txs gss \<and>
    unat (blockGasUsed t') = unat (blockGasUsed t) + (\<Sum>gs\<leftarrow>gss. sum_list gs)"
  using assms
proof (induction txs arbitrary: t)
  case (Cons tx txs)
  obtain t1 where t1: "validate_tx bc height time mtp tx t = Inr t1" "validate_txs bc height time mtp txs t1 = Inr t'"
    using Cons.prems(1) by (auto split: sum.splits)
  obtain gs where gs: "tx_burns bc height time mtp tx gs" "sum_list gs \<le> unat MAX_TX_SCRIPT_GAS"
    "unat (blockGasUsed t1) = unat (blockGasUsed t) + sum_list gs" "blockGasUsed t1 \<le> MAX_BLOCK_SCRIPT_GAS"
    using validate_tx_gas [OF t1(1) Cons.prems(2)] by blast
  obtain gss where "list_all2 (\<lambda>tx gs. tx_burns bc height time mtp tx gs \<and> sum_list gs \<le> unat MAX_TX_SCRIPT_GAS) txs gss"
    "unat (blockGasUsed t') = unat (blockGasUsed t1) + (\<Sum>gs\<leftarrow>gss. sum_list gs)" using Cons.IH [OF t1(2) gs(4)] by blast
  then show ?case using gs(1-3) by (intro exI [of _ "gs # gss"]) simp
qed simp

subsection \<open>Shapes and ids\<close>

lemma validateTxResourceShape_Inr:
  assumes "validateTxResourceShape J a tx t = Inr t'"
  shows "blockInputs t' = blockInputs t + length (vin tx)" "blockOutputs t' = blockOutputs t + length (vout tx)"
    "length (vin tx) \<le> MAX_BLOCK_INPUTS - blockInputs t" "length (vout tx) \<le> MAX_BLOCK_OUTPUTS - blockOutputs t"
    "vin tx \<noteq> []" "vout tx \<noteq> []" "length (vin tx) \<le> MAX_TX_INPUTS" "length (vout tx) \<le> MAX_TX_OUTPUTS"
    "\<forall>i\<in>set (vin tx). input_shape (isCoinbase tx) i = None" "list_all output_shape (vout tx)"
proof -
  have n: "find (\<lambda>i. input_shape (isCoinbase tx) i \<noteq> None) (vin tx) = None"
    using assms by (auto simp: validateTxResourceShape_def split: if_splits option.splits)
  show "blockInputs t' = blockInputs t + length (vin tx)" "blockOutputs t' = blockOutputs t + length (vout tx)"
    "length (vin tx) \<le> MAX_BLOCK_INPUTS - blockInputs t" "length (vout tx) \<le> MAX_BLOCK_OUTPUTS - blockOutputs t"
    "vin tx \<noteq> []" "vout tx \<noteq> []" "length (vin tx) \<le> MAX_TX_INPUTS" "length (vout tx) \<le> MAX_TX_OUTPUTS"
    "list_all output_shape (vout tx)"
    using assms by (auto simp: validateTxResourceShape_def not_less split: if_splits option.splits sum.splits)
  show "\<forall>i\<in>set (vin tx). input_shape (isCoinbase tx) i = None" using n by (simp add: find_None_iff)
qed

lemma shape_all_Inr:
  assumes "shape_all J txs t = Inr t'" "blockInputs t \<le> MAX_BLOCK_INPUTS" "blockOutputs t \<le> MAX_BLOCK_OUTPUTS"
  shows "blockInputs t + (\<Sum>tx\<leftarrow>txs. length (vin tx)) \<le> MAX_BLOCK_INPUTS \<and>
    blockOutputs t + (\<Sum>tx\<leftarrow>txs. length (vout tx)) \<le> MAX_BLOCK_OUTPUTS \<and>
    (\<forall>tx\<in>set txs. vin tx \<noteq> [] \<and> vout tx \<noteq> [] \<and> length (vin tx) \<le> MAX_TX_INPUTS \<and> length (vout tx) \<le> MAX_TX_OUTPUTS \<and>
       (\<forall>i\<in>set (vin tx). input_shape (isCoinbase tx) i = None) \<and> list_all output_shape (vout tx))"
  using assms
proof (induction J txs t rule: shape_all.induct)
  case (2 J tx txs t)
  obtain t1 where t1: "validateTxResourceShape J True tx t = Inr t1" "shape_all J txs t1 = Inr t'"
    using "2.prems"(1) by (auto split: sum.splits)
  note s = validateTxResourceShape_Inr [OF t1(1)]
  have b: "blockInputs t1 \<le> MAX_BLOCK_INPUTS" "blockOutputs t1 \<le> MAX_BLOCK_OUTPUTS"
    using s(1-4) "2.prems"(2,3) by linarith+
  show ?case using "2.IH" [OF t1(1) t1(2) b] s by simp
qed simp

lemma check_txids_None:
  assumes "check_txids bc ids txs = None" "distinct ids"
  shows "distinct (map txid txs) \<and> set (map txid txs) \<inter> set ids = {} \<and>
    (\<forall>tx\<in>set txs. (\<exists>r. computeTxId (lib bc) (json_dump_map (chain_json bc)) tx = Some r \<and> txid r = txid tx) \<and>
       (\<forall>k<length (vout tx). utxoSet bc (txid tx) (word_of_nat k) = None))"
  using assms
proof (induction bc ids txs rule: check_txids.induct)
  case (2 bc ids tx txs)
  obtain r where r: "computeTxId (lib bc) (json_dump_map (chain_json bc)) tx = Some r" "txid r = txid tx" "txid tx \<notin> set ids"
    "\<not> list_ex (\<lambda>k. k > 0xffffffff \<or> utxoSet bc (txid tx) (word_of_nat k) \<noteq> None) [0..<length (vout tx)]"
    "check_txids bc (txid tx # ids) txs = None" "\<not> (txid tx = [] \<or> length (txid tx) \<noteq> 64 \<or> \<not> isValidHex (txid tx))"
    using "2.prems"(1) by (auto split: if_splits option.splits)
  have "distinct (txid tx # ids)" using r(3) "2.prems"(2) by simp
  moreover have "\<forall>k<length (vout tx). utxoSet bc (txid tx) (word_of_nat k) = None"
    using r(4) by (auto simp: list_ex_iff)
  ultimately show ?case using "2.IH" [OF r(6,1) _ r(3,4,5)] r by auto
qed simp

subsection \<open>An accepted block\<close>

lemma p2pkh_no_state:
  assumes "length h = 20"
  shows "\<not> usesStateDomain (ScanStatefulContractScript (p2pkh_script h))"
proof -
  have h: "p2pkh_script h = [OP_DUP, OP_HASH160] @ canonical_push h @ [OP_EQUALVERIFY, OP_CHECKSIG]"
    using assms by (simp add: p2pkh_script_def canonical_push_def)
  obtain a b where p: "canonical_push h @ [OP_EQUALVERIFY, OP_CHECKSIG] = a # b" "is_push_opcode a"
    "ReadPushLength a b = Some (length h, [OP_EQUALVERIFY, OP_CHECKSIG])"
    using ReadPushLength_canonical [of h "[OP_EQUALVERIFY, OP_CHECKSIG]"] assms by (cases "h = []") auto
  have "scan_loop scan_init (p2pkh_script h) = scan_init"
    unfolding h using p by (simp add: is_push_opcode_def scan_opcode_def)
  then show ?thesis by (simp add: ScanStatefulContractScript_def scan_init_def)
qed

lemma validateBlock_Inr:
  assumes "validateBlock bc now b = Inr t"
  obtains mtp where "validate_frame bc now b = Inr mtp"
    "validate_txs bc (word_of_int (blk_height b)) (hdr_timestamp (blk_header b)) mtp (tl (transactions b)) no_totals = Inr t"
    "check_reward b (totalFees t) = None" "check_bits bc b = None"
  using assms by (auto simp: validateBlock_def split: sum.splits option.splits)

lemma validate_frame_Inr:
  assumes "validate_frame bc now b = Inr mtp"
  obtains s where "transactions b \<noteq> []"
    "shape_all (chain_json bc) (transactions b) \<lparr>blockInputs = 0, blockOutputs = 0, blockStateInitBytes = 0\<rparr> = Inr s"
    "check_commitment (lib bc) (chain_json bc) b" "computeHash (lib bc) (blk_header b) = Some (blk_hash b)"
    "verifyBlockDifficulty (lib bc) (blk_header b)" "check_parent bc b = None" "check_time bc now b = Inr mtp"
    "check_txids bc [] (transactions b) = None" "computeMerkleRoot (lib bc) (transactions b) = merkleRoot (blk_header b)"
    "check_coinbase b = None"
  using assms by (auto simp: validate_frame_def split: sum.splits option.splits if_splits)

lemma no_totals_within: "within_block no_totals"
  by (simp add: within_block_def no_totals_def block_limit_defs)

lemma accepted_transactions:
  assumes "validateBlock bc now b = Inr t"
  obtains mtp where "validate_frame bc now b = Inr mtp" "check_reward b (totalFees t) = None" "within_block t"
    "\<forall>tx\<in>set (tl (transactions b)). tx_ok bc (word_of_int (blk_height b)) (hdr_timestamp (blk_header b)) mtp tx"
    "distinct (map utxoKey (all_inputs (tl (transactions b))))"
    "unat (totalFees t) + (\<Sum>tx\<leftarrow>tl (transactions b). out_value tx) = (\<Sum>tx\<leftarrow>tl (transactions b). in_value bc tx)"
    "totalFees t \<le> MAX_MONEY"
    "unat (blockScriptOps (ops t)) = fst (inputs_cost bc (word_of_int (blk_height b)) (all_inputs (tl (transactions b))))"
    "unat (blockSigOps (ops t)) = snd (inputs_cost bc (word_of_int (blk_height b)) (all_inputs (tl (transactions b))))"
proof -
  obtain mtp where v: "validate_frame bc now b = Inr mtp"
    "validate_txs bc (word_of_int (blk_height b)) (hdr_timestamp (blk_header b)) mtp (tl (transactions b)) no_totals = Inr t"
    "check_reward b (totalFees t) = None" using assms by (rule validateBlock_Inr)
  note x = validate_txs_Inr [OF v(2) no_totals_within]
  have w: "within_block t" and e: "spentUTXOs t = rev (map utxoKey (all_inputs (tl (transactions b))))"
    using x by (blast, simp add: no_totals_def)
  have "distinct (map utxoKey (all_inputs (tl (transactions b))))" using w by (simp add: within_block_def e)
  then show ?thesis using that [OF v(1,3) w] x by (simp add: no_totals_def)
qed

lemma reward_bound:
  assumes "check_reward b fees = None"
  shows "out_value (hd (transactions b)) \<le> unat (calculateSubsidy (blk_height b)) + unat fees"
    "\<forall>u\<in>set (vout (hd (transactions b))). amount u \<le> MAX_MONEY"
proof -
  obtain v where v: "sum_outputs 0 (vout (hd (transactions b))) = Some v" "\<not> calculateSubsidy (blk_height b) > MAX_MONEY"
    "\<not> fees > MAX_MONEY - calculateSubsidy (blk_height b)" "\<not> v > calculateSubsidy (blk_height b) + fees"
    using assms by (auto simp: check_reward_def Let_def split: option.splits if_splits)
  have "calculateSubsidy (blk_height b) \<le> MAX_MONEY" using v(2) by simp
  note s = checked_sum' [OF this v(3)]
  show "out_value (hd (transactions b)) \<le> unat (calculateSubsidy (blk_height b)) + unat fees"
    using sum_outputs_exact [OF v(1)] v(4) s by (simp add: out_value_def word_less_nat_alt)
  show "\<forall>u\<in>set (vout (hd (transactions b))). amount u \<le> MAX_MONEY" using sum_outputs_exact [OF v(1)] by simp
qed

lemma accepted_shape:
  assumes "validateBlock bc now b = Inr t"
  shows "transactions b \<noteq> []" "isCoinbase (hd (transactions b))"
    "(\<Sum>tx\<leftarrow>transactions b. length (vin tx)) \<le> MAX_BLOCK_INPUTS" "(\<Sum>tx\<leftarrow>transactions b. length (vout tx)) \<le> MAX_BLOCK_OUTPUTS"
    "\<forall>tx\<in>set (transactions b). \<forall>i\<in>set (vin tx). input_shape (isCoinbase tx) i = None"
    "\<forall>tx\<in>set (transactions b). length (vin tx) \<le> MAX_TX_INPUTS \<and> length (vout tx) \<le> MAX_TX_OUTPUTS"
proof -
  obtain mtp where f: "validate_frame bc now b = Inr mtp" using assms by (rule validateBlock_Inr)
  obtain s where s: "transactions b \<noteq> []"
    "shape_all (chain_json bc) (transactions b) \<lparr>blockInputs = 0, blockOutputs = 0, blockStateInitBytes = 0\<rparr> = Inr s"
    "check_coinbase b = None" using f by (rule validate_frame_Inr)
  show "transactions b \<noteq> []" by (rule s)
  show "isCoinbase (hd (transactions b))" using s(3) by (auto simp: check_coinbase_def Let_def split: if_splits)
  show "(\<Sum>tx\<leftarrow>transactions b. length (vin tx)) \<le> MAX_BLOCK_INPUTS" "(\<Sum>tx\<leftarrow>transactions b. length (vout tx)) \<le> MAX_BLOCK_OUTPUTS"
    "\<forall>tx\<in>set (transactions b). \<forall>i\<in>set (vin tx). input_shape (isCoinbase tx) i = None"
    "\<forall>tx\<in>set (transactions b). length (vin tx) \<le> MAX_TX_INPUTS \<and> length (vout tx) \<le> MAX_TX_OUTPUTS"
    using shape_all_Inr [OF s(2)] by simp_all
qed

lemma accepted_gas:
  assumes "validateBlock bc now b = Inr t"
  shows "\<exists>mtp gss. check_time bc now b = Inr mtp \<and>
    list_all2 (\<lambda>tx gs. tx_burns bc (word_of_int (blk_height b)) (hdr_timestamp (blk_header b)) mtp tx gs \<and> sum_list gs \<le> 4000000)
      (tl (transactions b)) gss \<and> (\<Sum>gs\<leftarrow>gss. sum_list gs) = unat (blockGasUsed t)"
proof -
  obtain mtp where v: "validate_frame bc now b = Inr mtp"
    "validate_txs bc (word_of_int (blk_height b)) (hdr_timestamp (blk_header b)) mtp (tl (transactions b)) no_totals = Inr t"
    using assms by (rule validateBlock_Inr)
  have "blockGasUsed no_totals \<le> MAX_BLOCK_SCRIPT_GAS" by (simp add: no_totals_def)
  from validate_txs_gas [OF v(2) this] obtain gss where
    "list_all2 (\<lambda>tx gs. tx_burns bc (word_of_int (blk_height b)) (hdr_timestamp (blk_header b)) mtp tx gs \<and> sum_list gs \<le> unat MAX_TX_SCRIPT_GAS)
       (tl (transactions b)) gss" "(\<Sum>gs\<leftarrow>gss. sum_list gs) = unat (blockGasUsed t)" by (auto simp: no_totals_def)
  moreover have "unat MAX_TX_SCRIPT_GAS = 4000000" by (simp add: block_limit_defs)
  moreover have "check_time bc now b = Inr mtp" using v(1) by (rule validate_frame_Inr)
  ultimately show ?thesis by auto
qed

subsection \<open>Properties\<close>

text \<open>
  C1: an accepted block creates no money but the subsidy: every transaction but the coinbase pays out at most what
  it spends, and all outputs of the block together are at most the subsidy of its height and the coins spent;
  the sums are over the naturals.
\<close>

theorem block_conserves_money:
  assumes "validateBlock bc now b = Inr t"
  shows "(\<forall>tx\<in>set (tl (transactions b)). \<not> isCoinbase tx \<and> out_value tx \<le> in_value bc tx) \<and>
    (\<Sum>tx\<leftarrow>transactions b. out_value tx) \<le>
      unat (calculateSubsidy (blk_height b)) + (\<Sum>tx\<leftarrow>tl (transactions b). in_value bc tx) \<and>
    (\<forall>tx\<in>set (transactions b). \<forall>u\<in>set (vout tx). amount u \<le> MAX_MONEY)"
proof -
  obtain mtp where r: "check_reward b (totalFees t) = None"
    and ok: "\<forall>tx\<in>set (tl (transactions b)). tx_ok bc (word_of_int (blk_height b)) (hdr_timestamp (blk_header b)) mtp tx"
    and fees: "unat (totalFees t) + (\<Sum>tx\<leftarrow>tl (transactions b). out_value tx) = (\<Sum>tx\<leftarrow>tl (transactions b). in_value bc tx)"
    using assms by (rule accepted_transactions)
  have split: "transactions b = hd (transactions b) # tl (transactions b)" using accepted_shape(1) [OF assms] by simp
  note c = reward_bound [OF r]
  have "(\<Sum>tx\<leftarrow>hd (transactions b) # tl (transactions b). out_value tx) \<le>
      unat (calculateSubsidy (blk_height b)) + (\<Sum>tx\<leftarrow>tl (transactions b). in_value bc tx)" using c(1) fees by simp
  moreover have "\<forall>tx\<in>set (hd (transactions b) # tl (transactions b)). \<forall>u\<in>set (vout tx). amount u \<le> MAX_MONEY"
    using c(2) ok by (simp add: tx_ok_def)
  ultimately show ?thesis using ok unfolding split [symmetric] by (simp add: tx_ok_def)
qed

lemma accepted_input:
  assumes "validateBlock bc now b = Inr t" "tx \<in> set (tl (transactions b))" "j < length (vin tx)"
  obtains mtp u scr where "utxoSet bc (prev_txid (vin tx ! j)) (prev_vout (vin tx ! j)) = Some u"
    "mature (word_of_int (blk_height b)) u" "utxo_amount u \<le> MAX_MONEY"
    "authorised bc (word_of_int (blk_height b)) (hdr_timestamp (blk_header b)) mtp tx j u scr"
proof -
  obtain mtp where "\<forall>tx\<in>set (tl (transactions b)). tx_ok bc (word_of_int (blk_height b)) (hdr_timestamp (blk_header b)) mtp tx"
    using assms(1) by (rule accepted_transactions)
  then have "input_ok bc (word_of_int (blk_height b)) (hdr_timestamp (blk_header b)) mtp tx j"
    using assms(2,3) by (simp add: tx_ok_def)
  then show ?thesis using that by (auto simp: input_ok_def)
qed

text \<open>
  C3: no coin is spent twice. The outpoints of all inputs of an accepted block are distinct, and each is an unspent
  output that is mature and not provably unspendable.
\<close>

theorem block_spends_once:
  assumes "validateBlock bc now b = Inr t"
  shows "distinct (map (\<lambda>i. (prev_txid i, prev_vout i)) (all_inputs (tl (transactions b)))) \<and>
    (\<forall>tx\<in>set (tl (transactions b)). \<forall>i\<in>set (vin tx).
       case utxoSet bc (prev_txid i) (prev_vout i) of None \<Rightarrow> False
       | Some u \<Rightarrow> mature (word_of_int (blk_height b)) u \<and> utxo_amount u \<le> MAX_MONEY \<and>
           (case hexDecode (utxo_scriptPubKey u) of None \<Rightarrow> False | Some s \<Rightarrow> s \<noteq> [] \<and> hd s \<noteq> OP_RETURN))"
proof -
  obtain mtp where d: "distinct (map utxoKey (all_inputs (tl (transactions b))))"
    using assms by (rule accepted_transactions)
  have m: "map utxoKey l = map (\<lambda>(a, n). a @ CHR '':'' # dec_int (sint n)) (map (\<lambda>i. (prev_txid i, prev_vout i)) l)" for l
    by (simp add: utxoKey_def)
  have "distinct (map (\<lambda>i. (prev_txid i, prev_vout i)) (all_inputs (tl (transactions b))))"
    using d unfolding m by (rule distinct_map [THEN iffD1, THEN conjunct1])
  moreover have "case utxoSet bc (prev_txid i) (prev_vout i) of None \<Rightarrow> False
       | Some u \<Rightarrow> mature (word_of_int (blk_height b)) u \<and> utxo_amount u \<le> MAX_MONEY \<and>
           (case hexDecode (utxo_scriptPubKey u) of None \<Rightarrow> False | Some s \<Rightarrow> s \<noteq> [] \<and> hd s \<noteq> OP_RETURN)"
    if i: "tx \<in> set (tl (transactions b))" "i \<in> set (vin tx)" for tx i
  proof -
    obtain j where j: "j < length (vin tx)" "i = vin tx ! j" using i(2) by (auto simp: in_set_conv_nth)
    obtain u scr mtp where "utxoSet bc (prev_txid i) (prev_vout i) = Some u"
      "mature (word_of_int (blk_height b)) u" "utxo_amount u \<le> MAX_MONEY"
      "authorised bc (word_of_int (blk_height b)) (hdr_timestamp (blk_header b)) mtp tx j u scr"
      using accepted_input [OF assms i(1) j(1)] j(2) by blast
    then show ?thesis by (simp add: authorised_def)
  qed
  ultimately show ?thesis by blast
qed

text \<open>
  C8: the work an accepted block asks for is bounded, in each transaction and in the block. A transaction has at
  most 1000 inputs and 1000 outputs, the block 20000 of each. The operations and signature checks that stand in
  the scripts of the inputs are at most 20000 and 4000 in a transaction, 100000 and 20000 in the block. The gas
  that the verified runs and contract calls of its inputs burn adds up to at most 4000000 in each transaction and,
  over all of them, to exactly the gas the validator counts, at most 20000000.
\<close>

theorem block_within_budgets:
  assumes "validateBlock bc now b = Inr t"
  shows "(\<forall>tx\<in>set (tl (transactions b)).
       fst (inputs_cost bc (word_of_int (blk_height b)) (vin tx)) \<le> 20000 \<and>
       snd (inputs_cost bc (word_of_int (blk_height b)) (vin tx)) \<le> 4000) \<and>
    fst (inputs_cost bc (word_of_int (blk_height b)) (all_inputs (tl (transactions b)))) \<le> 100000 \<and>
    snd (inputs_cost bc (word_of_int (blk_height b)) (all_inputs (tl (transactions b)))) \<le> 20000 \<and>
    (\<exists>mtp gss. check_time bc now b = Inr mtp \<and>
       list_all2 (\<lambda>tx gs. tx_burns bc (word_of_int (blk_height b)) (hdr_timestamp (blk_header b)) mtp tx gs \<and> sum_list gs \<le> 4000000)
         (tl (transactions b)) gss \<and>
       (\<Sum>gs\<leftarrow>gss. sum_list gs) = unat (blockGasUsed t)) \<and>
    unat (blockGasUsed t) \<le> 20000000 \<and>
    (\<forall>tx\<in>set (transactions b). length (vin tx) \<le> 1000 \<and> length (vout tx) \<le> 1000) \<and>
    (\<Sum>tx\<leftarrow>transactions b. length (vin tx)) \<le> 20000 \<and> (\<Sum>tx\<leftarrow>transactions b. length (vout tx)) \<le> 20000"
proof -
  obtain mtp where w: "within_block t"
    and ok: "\<forall>tx\<in>set (tl (transactions b)). tx_ok bc (word_of_int (blk_height b)) (hdr_timestamp (blk_header b)) mtp tx"
    and c: "unat (blockScriptOps (ops t)) = fst (inputs_cost bc (word_of_int (blk_height b)) (all_inputs (tl (transactions b))))"
    "unat (blockSigOps (ops t)) = snd (inputs_cost bc (word_of_int (blk_height b)) (all_inputs (tl (transactions b))))"
    using assms by (rule accepted_transactions)
  note s = accepted_shape(3,4,6) [OF assms]
  have "unat (blockGasUsed t) \<le> 20000000" "unat (blockScriptOps (ops t)) \<le> 100000" "unat (blockSigOps (ops t)) \<le> 20000"
    using w by (simp_all add: within_block_def word_le_nat_alt block_limit_defs)
  moreover have "\<forall>tx\<in>set (tl (transactions b)). fst (inputs_cost bc (word_of_int (blk_height b)) (vin tx)) \<le> 20000 \<and>
       snd (inputs_cost bc (word_of_int (blk_height b)) (vin tx)) \<le> 4000"
    using ok by (simp add: tx_ok_def block_limit_defs)
  ultimately show ?thesis using s c accepted_gas [OF assms] by (simp add: block_limit_defs)
qed

text \<open>
  C4: nobody spends a pay-to-public-key-hash coin without its key: for every input of an accepted block that spends
  one, some public key with that hash has a signature of the signature hash of that input that verifies.
\<close>

theorem p2pkh_inputs_signed:
  assumes "validateBlock bc now b = Inr t" "tx \<in> set (tl (transactions b))" "j < length (vin tx)"
    "utxoSet bc (prev_txid (vin tx ! j)) (prev_vout (vin tx ! j)) = Some u"
    "hexDecode (utxo_scriptPubKey u) = Some (p2pkh_script h)" "length h = 20"
  shows "\<exists>pk sg. computeHash160 (lib bc) pk = h \<and>
    signatureCheckFunc (lib bc) pk sg (computeSighash (lib bc) (chain_json bc) tx j (p2pkh_script h))"
proof -
  obtain mtp scr where a: "authorised bc (word_of_int (blk_height b)) (hdr_timestamp (blk_header b)) mtp tx j u scr"
    using accepted_input [OF assms(1-3)] assms(4) by (metis option.inject)
  have scr: "scr = p2pkh_script h" using a assms(5) by (simp add: authorised_def)
  obtain limit sndr c where v: "VerifyScripts (lib bc) (scriptSig (vin tx ! j)) (p2pkh_script h)
      (input_context bc (word_of_int (blk_height b)) (hdr_timestamp (blk_header b)) mtp tx j (p2pkh_script h) limit sndr) = Some c"
    using a p2pkh_no_state [OF assms(6)] unfolding authorised_def scr by blast
  have "ctx_tx (input_context bc (word_of_int (blk_height b)) (hdr_timestamp (blk_header b)) mtp tx j (p2pkh_script h) limit sndr) \<noteq> None"
    "sighash (input_context bc (word_of_int (blk_height b)) (hdr_timestamp (blk_header b)) mtp tx j (p2pkh_script h) limit sndr) =
      computeSighash (lib bc) (chain_json bc) tx j (p2pkh_script h)"
    by (simp_all add: input_context_def BuildScriptExecutionContext_def new_context_def Let_def)
  then show ?thesis using p2pkh_sound [OF v _ assms(6)] by simp
qed

text \<open>
  C9: the ids of an accepted block are distinct, each the hash of its transaction, none with unspent outputs, and
  their Merkle root is the one the proof of work of the header covers.
\<close>

theorem block_ids_exact:
  assumes "validateBlock bc now b = Inr t"
  shows "distinct (map txid (transactions b)) \<and>
    (\<forall>tx\<in>set (transactions b). map_option txid (computeTxId (lib bc) (json_dump_map (chain_json bc)) tx) = Some (txid tx) \<and>
       (\<forall>k<length (vout tx). utxoSet bc (txid tx) (word_of_nat k) = None)) \<and>
    merkleRoot (blk_header b) = computeMerkleRoot (lib bc) (transactions b) \<and>
    computeHash (lib bc) (blk_header b) = Some (blk_hash b) \<and> verifyBlockDifficulty (lib bc) (blk_header b)"
proof -
  obtain mtp where f: "validate_frame bc now b = Inr mtp" using assms by (rule validateBlock_Inr)
  obtain s where s: "computeHash (lib bc) (blk_header b) = Some (blk_hash b)"
    "verifyBlockDifficulty (lib bc) (blk_header b)" "check_txids bc [] (transactions b) = None"
    "computeMerkleRoot (lib bc) (transactions b) = merkleRoot (blk_header b)" using f by (rule validate_frame_Inr)
  show ?thesis using check_txids_None [OF s(3)] s(1,2,4) by auto
qed

end
