(* ===== verification/Block_Samples.thy ===== *)
theory Block_Samples
  imports Block_Validation
begin

text \<open>
  A block that the validator accepts, with toy hash functions and signatures: the first block, which spends
  one coin and pays its fee to the miner. The properties of \<open>Block_Validation\<close> are applied to it.
\<close>

subsection \<open>A sample block\<close>

text \<open>A first block that spends one coin: the hash of its header is small, that of a transaction its last bytes.\<close>

definition block_crypto :: crypto where
  "block_crypto = vm_crypto\<lparr>SHA256 := \<lambda>b.
     if length b = 32 then b
     else if length b = 80 then replicate 28 0 @ [0xFF, 0xFF, 0xDE, 0x18] else take 32 (rev b @ replicate 32 0)\<rparr>"

definition paid_to :: "bytes \<Rightarrow> string" where
  "paid_to pk = hex_encode (p2pkh_script (computeHash160 block_crypto pk))"

definition with_id :: "unit Transaction \<Rightarrow> unit Transaction" where
  "with_id tx = (case computeTxId block_crypto (json_dump_map sample_json) tx of None \<Rightarrow> tx | Some r \<Rightarrow> r)"

definition mined_tx :: "unit Transaction" where
  "mined_tx = with_id
     \<lparr>isCoinbase = True, txid = [], sender = [],
      vin = [\<lparr>prev_txid = replicate 64 (CHR ''0''), prev_vout = - 1, scriptSig = [1, 2], pubKey = [], in_scriptPubKey = [], sequence = 0\<rparr>],
      vout = [\<lparr>amount = 5000000100, scriptPubKey = paid_to [7]\<rparr>], version = 1, lockTime = 0, tokenMetadata = []\<rparr>"

definition spending_tx :: "unit Transaction" where
  "spending_tx = with_id
     \<lparr>isCoinbase = False, txid = [], sender = [],
      vin = [\<lparr>prev_txid = replicate 64 (CHR ''a''), prev_vout = 1, scriptSig = canonical_push toy_signature @ canonical_push [7],
              pubKey = [], in_scriptPubKey = [], sequence = 0\<rparr>],
      vout = [\<lparr>amount = 900, scriptPubKey = paid_to [9]\<rparr>], version = 1, lockTime = 0, tokenMetadata = []\<rparr>"

definition spent_coin :: UTXO where
  "spent_coin =
     \<lparr>utxo_txid = replicate 64 (CHR ''a''), utxo_vout = 1, utxo_amount = 1000, utxo_scriptPubKey = paid_to [7],
      createdAtHeight = 0, utxo_isCoinbase = False\<rparr>"

definition sample_chain :: "(unit, unit) Blockchain" where
  "sample_chain =
     \<lparr>lib = block_crypto, chain_json = sample_json,
      dbStorage = \<lparr>db_Get = \<lambda>_ _. DbNotFound, db_Write = \<lambda>_ _. None, db_Seek = \<lambda>_ _. None\<rparr>, db = (),
      utxoSet = \<lambda>t n. if t = replicate 64 (CHR ''a'') \<and> n = 1 then Some spent_coin else None,
      blocks = [], blockIndex = Map.empty, contractStates = Map.empty, tokenOwner = \<lambda>_ _. None, chain_difficulty = 0\<rparr>"

definition mined_header :: BlockHeader where
  "mined_header =
     \<lparr>hdr_version = 1, prevHash = replicate 64 (CHR ''0''), merkleRoot = computeMerkleRoot block_crypto [mined_tx, spending_tx],
      hdr_timestamp = 5, bits = TRU_POW_LIMIT_BITS, nonce = 0\<rparr>"

definition mined_block :: "unit Block" where
  "mined_block =
     \<lparr>blk_header = mined_header, blk_hash = replicate 64 (CHR ''0''), blk_chainWork = 0,
      blk_parentHash = replicate 64 (CHR ''0''), blk_height = 1, transactions = [mined_tx, spending_tx], blk_metadata = []\<rparr>"

lemma mined_pow: "verifyBlockDifficulty block_crypto mined_header"
proof -
  let ?t = "word_of_nat (65535 * 2 ^ 216) :: ChainWork256"
  have h: "header_hash block_crypto mined_header = Some (replicate 32 0)" by code_simp
  have u: "unat ?t = 65535 * 2 ^ 216"
    using pow_limit(2) unfolding truPowLimitTarget256_def pow_limit(1) option.sel .
  have lim: "\<not> ?t > truPowLimitTarget256" by (simp only: word_less_nat_alt pow_limit(2) u less_irrefl not_False_eq_True)
  have z: "le_nat (replicate 32 0) = 0" by code_simp
  have "length (replicate 32 0 :: bytes) = length (target256ToLE32 ?t)" by (simp add: target256ToLE32_def)
  then have "compare256LE (replicate 32 0) (target256ToLE32 ?t)" by (simp only: compare256LE_nat z zero_le)
  moreover have "bits mined_header = TRU_POW_LIMIT_BITS" by (simp add: mined_header_def)
  ultimately show ?thesis unfolding verifyBlockDifficulty_def by (simp only: pow_limit(1) option.case lim h if_False)
qed

lemma sample_frame: "validate_frame sample_chain 100 mined_block = Inr 0"
proof -
  have s: "case shape_all sample_json [mined_tx, spending_tx] \<lparr>blockInputs = 0, blockOutputs = 0, blockStateInitBytes = 0\<rparr> of
      Inl e \<Rightarrow> False | Inr _ \<Rightarrow> True" by code_simp
  have l: "length (block_serialize sample_json mined_block) \<le> MAX_BLOCK_BYTES" by code_simp
  have f: "check_commitment block_crypto sample_json mined_block" "check_txids sample_chain [] [mined_tx, spending_tx] = None"
    "check_coinbase mined_block = None" "check_time sample_chain 100 mined_block = Inr 0"
    "check_parent sample_chain mined_block = None" "computeHash block_crypto mined_header = Some (replicate 64 (CHR ''0''))"
    by code_simp+
  have hex: "isValidHex (replicate 64 (CHR ''0''))" by code_simp
  have b: "transactions mined_block = [mined_tx, spending_tx]" "blk_header mined_block = mined_header"
    "blk_hash mined_block = replicate 64 (CHR ''0'')" "lib sample_chain = block_crypto" "chain_json sample_chain = sample_json"
    "prevHash mined_header = replicate 64 (CHR ''0'')" "length (replicate 64 (CHR ''0'')) = 64"
    "computeMerkleRoot block_crypto [mined_tx, spending_tx] = merkleRoot mined_header"
    by (simp_all add: mined_block_def sample_chain_def mined_header_def)
  obtain x where "shape_all sample_json [mined_tx, spending_tx] \<lparr>blockInputs = 0, blockOutputs = 0, blockStateInitBytes = 0\<rparr> = Inr x"
    using s by (auto split: sum.splits)
  then show ?thesis unfolding validate_frame_def b by (simp add: f hex mined_pow l not_less del: check_txids.simps shape_all.simps)
qed

lemma sample_input:
  "\<exists>t. validate_input sample_chain 1 5 0 False spending_tx 0 no_totals = Inr t \<and> inSum t = 1000 \<and> totalFees t = 0 \<and>
     \<not> sawStatefulCallInput t"
proof -
  let ?scr = "p2pkh_script (computeHash160 block_crypto [7])"
  have c: "input_coin sample_chain 1 False 0 (vin spending_tx ! 0) no_totals = Inr (spent_coin, 1000)" by code_simp
  have "case input_scripts 1 (vin spending_tx ! 0) spent_coin (ops no_totals) of Inl _ \<Rightarrow> False | Inr (s, _) \<Rightarrow> s = ?scr"
    by code_simp
  then obtain b where b: "input_scripts 1 (vin spending_tx ! 0) spent_coin (ops no_totals) = Inr (?scr, b)"
    by (auto split: sum.splits)
  have st: "scan_valid (ScanStatefulContractScript ?scr)" "\<not> usesStateDomain (ScanStatefulContractScript ?scr)"
    "length (computeHash160 block_crypto [7]) = 20" "input_gas_limit 0 0 = Some MAX_SCRIPT_GAS_PER_INPUT"
    "BuildContractIdentity (prev_txid (vin spending_tx ! 0)) (prev_vout (vin spending_tx ! 0)) \<noteq> []" by code_simp+
  have ev: "case VerifyScripts block_crypto (scriptSig (vin spending_tx ! 0)) ?scr
      (input_context sample_chain 1 5 0 spending_tx 0 ?scr MAX_SCRIPT_GAS_PER_INPUT s) of None \<Rightarrow> False | Some c \<Rightarrow> gasUsed c = 159" for s
    by code_simp
  obtain c' where v: "VerifyScripts block_crypto (scriptSig (vin spending_tx ! 0)) ?scr
      (input_context sample_chain 1 5 0 spending_tx 0 ?scr MAX_SCRIPT_GAS_PER_INPUT (hash_address block_crypto (computeHash160 block_crypto [7])))
      = Some c'" "gasUsed c' = 159"
    using ev [of "hash_address block_crypto (computeHash160 block_crypto [7])"] by (auto split: option.splits)
  have g: "add_gas 159 0 0 = Some (159, 159)" "\<not> 159 > MAX_SCRIPT_GAS_PER_INPUT" by code_simp+
  have l: "lib sample_chain = block_crypto" "utxo_scriptPubKey spent_coin = hex_encode ?scr"
    "txGasUsed (no_totals\<lparr>inSum := 1000, ops := b\<rparr>) = 0" "blockGasUsed (no_totals\<lparr>inSum := 1000, ops := b\<rparr>) = 0"
    by (simp_all add: sample_chain_def spent_coin_def paid_to_def no_totals_def)
  have r: "ordinary_input sample_chain 1 5 0 spending_tx 0 spent_coin ?scr (no_totals\<lparr>inSum := 1000, ops := b\<rparr>) =
      Inr (no_totals\<lparr>inSum := 1000, ops := b, txGasUsed := 159, blockGasUsed := 159\<rparr>)"
    unfolding ordinary_input_def l address_of_p2pkh [OF st(3)] st(4) by (simp add: v g st(5) no_totals_def)
  let ?t = "no_totals\<lparr>inSum := 1000, ops := b, txGasUsed := 159, blockGasUsed := 159\<rparr>"
  have "validate_input sample_chain 1 5 0 False spending_tx 0 no_totals =
      Inr (?t\<lparr>spentUTXOs := utxoKey (vin spending_tx ! 0) # spentUTXOs ?t\<rparr>)"
    by (simp only: validate_input_def c b r st(1,2) Let_def sum.case prod.case not_True_eq_False if_False)
  then show ?thesis by (simp add: no_totals_def)
qed

lemma sample_txs: "\<exists>t. validate_txs sample_chain 1 5 0 [spending_tx] no_totals = Inr t \<and> totalFees t = 100"
proof -
  obtain t1 where t1: "validate_input sample_chain 1 5 0 False spending_tx 0 no_totals = Inr t1" "inSum t1 = 1000" "totalFees t1 = 0"
    "\<not> sawStatefulCallInput t1" using sample_input by blast
  have "case ValidateStatefulCreationShape spending_tx of Inl _ \<Rightarrow> False | Inr s \<Rightarrow> \<not> hasCreation s \<and> \<not> hasCallCandidate s" by code_simp
  then obtain sc where sc: "ValidateStatefulCreationShape spending_tx = Inr sc" "\<not> hasCreation sc" "\<not> hasCallCandidate sc"
    by (auto split: sum.splits)
  have f: "\<not> isCoinbase spending_tx" "sum_outputs 0 (vout spending_tx) = Some 900" "[0..<length (vin spending_tx)] = [0]"
    "output_token_ids (vout spending_tx) = []" "\<not> active 1 MARKET_HEIGHT" by code_simp+
  have z: "no_totals\<lparr>seenTokenIds09 := [] @ seenTokenIds09 no_totals, inSum := 0, txGasUsed := 0, sawStatefulCallInput := False,
      ops := (ops no_totals)\<lparr>txScriptOps := 0, txSigOps := 0\<rparr>\<rparr> = no_totals" by (simp add: no_totals_def)
  have i: "validate_inputs sample_chain 1 5 0 (hasCreation sc) spending_tx [0] no_totals = Inr t1" using t1(1) sc(2) by simp
  have "validate_tx sample_chain 1 5 0 spending_tx no_totals = Inr (t1\<lparr>totalFees := 100\<rparr>)"
    unfolding validate_tx_def f(2-4) z sc(1) sum.case i
    using t1(2-4) sc(3) f(1,5) by (simp add: validateConsensus09Transaction_def Let_def MAX_MONEY_def)
  then show ?thesis by simp
qed

lemma sample_accepted: "\<exists>t. validateBlock sample_chain 100 mined_block = Inr t"
proof -
  obtain t where t: "validate_txs sample_chain 1 5 0 [spending_tx] no_totals = Inr t" "totalFees t = 100" using sample_txs by blast
  have r: "check_reward mined_block 100 = None" by code_simp
  have b: "blk_height mined_block = 1" "tl (transactions mined_block) = [spending_tx]" "hdr_timestamp (blk_header mined_block) = 5"
    by (simp_all add: mined_block_def mined_header_def)
  have "check_bits sample_chain mined_block = None" by (simp add: check_bits_def b)
  then show ?thesis by (simp only: validateBlock_def sample_frame b t r sum.case option.case word_of_int_1) simp
qed

subsection \<open>Witnesses\<close>

theorem block_conserves_money_witness:
  "\<not> isCoinbase spending_tx \<and> out_value spending_tx \<le> in_value sample_chain spending_tx \<and>
   (\<Sum>tx\<leftarrow>[mined_tx, spending_tx]. out_value tx) \<le> unat (calculateSubsidy 1) + (\<Sum>tx\<leftarrow>[spending_tx]. in_value sample_chain tx)"
proof -
  obtain t where t: "validateBlock sample_chain 100 mined_block = Inr t" using sample_accepted by blast
  have b: "transactions mined_block = [mined_tx, spending_tx]" "tl (transactions mined_block) = [spending_tx]" "blk_height mined_block = 1"
    by (simp_all add: mined_block_def)
  show ?thesis using block_conserves_money [OF t] by (simp add: b)
qed

theorem block_spends_once_witness:
  "distinct (map (\<lambda>i. (prev_txid i, prev_vout i)) (all_inputs [spending_tx])) \<and>
   list_all (\<lambda>i. utxoSet sample_chain (prev_txid i) (prev_vout i) \<noteq> None) (vin spending_tx)"
proof -
  obtain t where t: "validateBlock sample_chain 100 mined_block = Inr t" using sample_accepted by blast
  have b: "tl (transactions mined_block) = [spending_tx]" by (simp add: mined_block_def)
  show ?thesis using block_spends_once [OF t] unfolding b list_all_iff by (auto split: option.splits)
qed

theorem block_within_budgets_witness:
  "fst (inputs_cost sample_chain 1 (vin spending_tx)) \<le> 20000 \<and> snd (inputs_cost sample_chain 1 (vin spending_tx)) \<le> 4000 \<and>
   (\<exists>g. input_burns sample_chain 1 5 0 spending_tx 0 g \<and> g \<le> 4000000)"
proof -
  obtain t where t: "validateBlock sample_chain 100 mined_block = Inr t" using sample_accepted by blast
  have b: "tl (transactions mined_block) = [spending_tx]" "(word_of_int (blk_height mined_block) :: u32) = 1"
    "hdr_timestamp (blk_header mined_block) = 5" by (simp_all add: mined_block_def mined_header_def)
  have "check_time sample_chain 100 mined_block = Inr 0" by code_simp
  moreover have "[0..<length (vin spending_tx)] = [0]" by code_simp
  ultimately show ?thesis
    using block_within_budgets [OF t] unfolding b by (auto simp: tx_burns_def list_all2_Cons1)
qed

theorem p2pkh_inputs_signed_witness:
  "\<exists>pk sg. computeHash160 block_crypto pk = computeHash160 block_crypto [7] \<and>
     signatureCheckFunc block_crypto pk sg
       (computeSighash block_crypto sample_json spending_tx 0 (p2pkh_script (computeHash160 block_crypto [7])))"
proof -
  obtain t where t: "validateBlock sample_chain 100 mined_block = Inr t" using sample_accepted by blast
  have tx: "spending_tx \<in> set (tl (transactions mined_block))" by (simp add: mined_block_def)
  have u: "utxoSet sample_chain (prev_txid (vin spending_tx ! 0)) (prev_vout (vin spending_tx ! 0)) = Some spent_coin"
    "hexDecode (utxo_scriptPubKey spent_coin) = Some (p2pkh_script (computeHash160 block_crypto [7]))"
    "length (computeHash160 block_crypto [7]) = 20" "0 < length (vin spending_tx)" by code_simp+
  show ?thesis using p2pkh_inputs_signed [OF t tx u(4,1,2,3)] by (simp add: sample_chain_def)
qed

theorem block_ids_exact_witness:
  "txid mined_tx \<noteq> txid spending_tx \<and> map_option txid (computeTxId block_crypto (json_dump_map sample_json) spending_tx) = Some (txid spending_tx)"
proof -
  obtain t where t: "validateBlock sample_chain 100 mined_block = Inr t" using sample_accepted by blast
  have b: "transactions mined_block = [mined_tx, spending_tx]" "lib sample_chain = block_crypto" "chain_json sample_chain = sample_json"
    by (simp_all add: mined_block_def sample_chain_def)
  show ?thesis using block_ids_exact [OF t] by (simp add: b)
qed

end
