(* ===== verification/Spec2Isabelle.thy ===== *)
theory Spec2Isabelle
  imports State_Limits Amounts Consensus09 Lineage Codec Envelopes Script_Push Lock_Templates
    Transactions Stateful_Shape Signatures Issuance Wots Market Market_Settlement
    Vm Vm_Ops Vm_Invariants Vm_Locks Vm_Contracts Vm_Compiler Storage State_Runtime Voting Voting_Calls Token_Issuer Token_Issuer_Calls Utxo Addresses
    State_Commit State_Ledger Block_Contracts Contract_History Proof_Of_Work Chain_Rules Block_Text Block_Commitment
    Token_Metadata Input_Authorisation Block_Validation Block_Samples
begin

text \<open>
  Verification library for TRU Core, the node of the TRU block chain (\<open>src/src\<close>, C++).

  \<^bold>\<open>The program.\<close> A block is a header, a coinbase and transactions. A node that is given a block validates it
  (\<open>Blockchain::validateBlock\<close>): shape and budgets, the commitment to the payload, the proof of work, parent and
  time, the ids, then every input. An input spends an unspent output: either its two scripts run on the
  script machine, or it is the anchor of a contract and calls the contract, whose state is loaded from the
  database and changed on a copy. Token and market rules are checked per transaction. When the block is applied
  (\<open>applyBlock\<close>), phase 3.5 creates contract roots and phase 3.6 executes the calls again and appends their
  changes to the batch that is written at the end. The components below are what these operations consist of.

  \<^bold>\<open>Conventions.\<close> A C++ struct is a record with the names of its fields, prefixed where two structs share a name; a
  fixed-width integer is a word of its width and wraps; sizes of buffers that exist are natural numbers, except
  where the code computes with untrusted lengths (\<open>Block_Text\<close>), which is done at 64 bits. A function with an out
  parameter, and every exception, is an option or a sum whose left side is the reason that is logged or thrown.
  Loops are recursive functions over what is left to read. OpenSSL, LevelDB and the JSON library are the records
  \<open>crypto\<close>, \<open>leveldb\<close> and \<open>json\<close>, arguments of what uses them; what is assumed of them
  (\<open>sha256_ok\<close>, \<open>leveldb_ok\<close>, \<open>json_laws\<close>) is a named hypothesis where it is used.
  The wall clock is an argument. Log lines, mutexes and caches that only repeat a computation are left out; the
  two caches that decide something (signatures, signature hashes) are modelled and shown transparent.

  \<^bold>\<open>Theories, from the bottom.\<close>
  \<^item> \<open>Prelude\<close>: bytes, words, hexadecimal and decimal text, checked arithmetic. \<open>Codec\<close>: the contracts of a
    wire format (\<open>codec\<close>, \<open>framed_codec\<close>, \<open>stream_codec\<close>); they are interpreted on the integer fields, the
    envelopes, the pushes, the key/value unlock script, the HTLC template, the market terms and the fields of
    the block payload, and the round trips of these formats are facts of the interpretations.
  \<^item> \<open>State_Limits\<close> (\<open>contract_state_limits.h\<close>), \<open>Amounts\<close> (\<open>tru_amount.h\<close>), \<open>Consensus09\<close>
    (\<open>consensus09_activation.h\<close>, \<open>opcodes.h\<close>, \<open>opcode_map09.h\<close>), \<open>Lineage\<close> (\<open>contract_state_lineage.h\<close>),
    \<open>Envelopes\<close> (the two envelope headers), \<open>Script_Push\<close>, \<open>Lock_Templates\<close> and \<open>Stateful_Shape\<close> (the parts of
    \<open>contract_call_policy.h\<close>): formats, limits and the shapes of transactions that create or call a contract.
  \<^item> \<open>Transactions\<close> (\<open>tx.h\<close>, \<open>tx.cpp\<close>), \<open>Signatures\<close> (\<open>crypto_ecdsa.cpp\<close>), \<open>Issuance\<close> (subsidy and chain
    values), \<open>Wots\<close> (\<open>wots_pq01.h\<close>, \<open>wots_script09.h\<close>, \<open>quantum_wallet_v1.h\<close>), \<open>Addresses\<close>
    (\<open>address_helpers.h\<close>, \<open>tokens.cpp\<close>), \<open>Utxo\<close> (\<open>utxo.cpp\<close>).
  \<^item> \<open>Market\<close> and \<open>Market_Settlement\<close> (\<open>market_lock09.h\<close>): the market rules, and the conservation of tokens they
    give; \<open>Token_Metadata\<close> (\<open>token_metadata09.h\<close>, \<open>validateConsensus09Transaction\<close>): the rules in their chain.
  \<^item> \<open>Vm\<close>, \<open>Vm_Ops\<close> (\<open>script_interpreter.cpp\<close>): the machine, one definition per opcode handler, the loop and
    \<open>VerifyScripts\<close>. \<open>Vm_Invariants\<close>: the locale \<open>vm_invariant\<close> lifts a property of the primitives to the whole
    run; it is interpreted for the stack limits, the gas, the branch stack, the state limits and the frame.
    \<open>Vm_Locks\<close>, \<open>Vm_Contracts\<close>: what the standard locks mean, exactly. \<open>Input_Authorisation\<close>: what a passed P2PKH
    lock says about an arbitrary unlock script. \<open>Vm_Compiler\<close>: the text assembler.
  \<^item> \<open>Storage\<close> (\<open>leveldb_storage.cpp\<close>); \<open>State_Runtime\<close>, \<open>Voting\<close>, \<open>Voting_Calls\<close>, \<open>Token_Issuer\<close>,
    \<open>Token_Issuer_Calls\<close> (\<open>contract_state_runtime.h\<close>, \<open>script_context_builder.h\<close>): loading a contract, the three
    contract families, and their abstract specifications, a store, a poll and an issuer, which the calls refine.
  \<^item> \<open>State_Commit\<close> (\<open>applyBlock\<close>, phases 3.5 and 3.6), \<open>State_Ledger\<close>, \<open>Block_Contracts\<close>, \<open>Contract_History\<close>: the
    abstract ledger of contracts. The locale \<open>contract_family\<close> is the contract of a family, interpreted for the
    store, the poll and the issuer. A block refines the steps that its own transactions ask of the ledger
    (\<open>ledger_block\<close>): who opens or calls which contract, with which request, is read off the transactions, so
    only the owner of a store writes to it; over any history contracts keep their rules and spent anchors stay dead.
  \<^item> \<open>Proof_Of_Work\<close> (\<open>block.cpp\<close>, \<open>blockchain.cpp\<close>, \<open>utils.cpp\<close>), \<open>Chain_Rules\<close> (retarget, median time),
    \<open>Block_Text\<close> (text form of blocks and transactions, its round trip from the laws of the JSON library), \<open>Block_Commitment\<close> (\<open>consensus09_commitment.h\<close>).
  \<^item> \<open>Block_Validation\<close>: \<open>validateBlock\<close> with all it calls, and what an accepted block satisfies: no money is
    created, no coin is spent twice, key-hash coins are signed for, the work is bounded, the ids are exact.
    \<open>Block_Samples\<close>: a concrete accepted block, to which these properties are applied.

  \<^bold>\<open>Bounds and fuel.\<close> The definitions are total: what recurses on text or bytes gets shorter, the address search
  has a measure, and \<open>address_search_ends\<close> gives its bound, 52 nested calls. \<open>text_txs\<close> recurses on the count a
  text claims; \<open>block_text_expands\<close> shows that nothing else bounds it. No theorem assumes that a run ends.

  \<^bold>\<open>Not modelled.\<close> The rest of \<open>blockchain.cpp\<close> (storing and connecting blocks, reorganisation, fork recovery,
  indexes, the private snapshots of \<open>validationOnly_\<close>), the update of the set of unspent outputs and its indexes in
  \<open>utxo.cpp\<close>, the memory pool, the network, the wallets, swaps, token evolution and virtual agents, the servers
  and command-line programs, the miners and the graphical programs: they are imperative code around the
  operations above, over threads, sockets, files and third-party libraries. Vendored and generated code
  (\<open>httplib.h\<close>, \<open>stb_image_write.h\<close>, protobuf) is left aside. Concurrency is not modelled: an operation sees one
  state of the chain, as under the locks the code takes.
\<close>

end
